(* ===== verification/Prelude.thy ===== *)
theory Prelude
  imports Main "HOL-Library.Word" "HOL-Library.Monad_Syntax" "HOL-Library.Signed_Division"
begin

text \<open>
  What every component shares.

  A C function that can run into undefined behaviour (an access outside an array, a
  dereferenced null pointer, a signed overflow) is modelled by a function into
  \<^typ>\<open>'a option\<close>: \<^term>\<open>None\<close> is the undefined behaviour, \<open>Some\<close> the value the
  code computes. An error that the code itself reports is a value inside the \<open>Some\<close>.
  Programs are composed with the do-notation of the option monad.

  The theory holds the checked accesses to arrays (\<open>rd\<close>, \<open>wr\<close>, \<open>mem_move\<close>,
  \<open>mem_fill\<close>), the counting loop \<open>for_range\<close>, the checked \<open>int\<close> arithmetic
  (\<open>c_int\<close>), C strings, and \<open>runs m P\<close>: the computation \<open>m\<close> is defined and its
  result satisfies \<open>P\<close>. The collection \<open>wp\<close> turns \<open>runs\<close> of a program into
  a verification condition by rewriting.
\<close>

named_theorems wp

section \<open>Defined computations and their results\<close>

definition runs :: "'a option \<Rightarrow> ('a \<Rightarrow> bool) \<Rightarrow> bool" where
  "runs m P = (case m of None \<Rightarrow> False | Some x \<Rightarrow> P x)"

lemma runs_Some [simp, wp]: "runs (Some x) P = P x"
  by (simp add: runs_def)

lemma runs_None [simp, wp]: "\<not> runs None P"
  by (simp add: runs_def)

lemma runs_bind [wp]: "runs (Option.bind m f) P = runs m (\<lambda>x. runs (f x) P)"
  by (simp add: runs_def split: option.split)

lemma runs_if [wp]: "runs (if b then m else n) P = (if b then runs m P else runs n P)"
  by simp

lemma runs_iff: "runs m P \<longleftrightarrow> (\<exists>x. m = Some x \<and> P x)"
  by (auto simp: runs_def split: option.split)

lemma runs_mono: "runs m P \<Longrightarrow> (\<And>x. P x \<Longrightarrow> Q x) \<Longrightarrow> runs m Q"
  by (auto simp: runs_iff)

lemma runs_conj: "runs m P \<Longrightarrow> runs m Q \<Longrightarrow> runs m (\<lambda>x. P x \<and> Q x)"
  by (auto simp: runs_iff)

lemma runsI: "m = Some x \<Longrightarrow> P x \<Longrightarrow> runs m P"
  by simp

lemma runs_SomeD: "runs m P \<Longrightarrow> m = Some x \<Longrightarrow> P x"
  by simp

text \<open>
  \<open>holds_if m P\<close>: the result satisfies \<open>P\<close> if \<open>m\<close> is defined. The rule \<open>holds_bind\<close> splits a
  sequence, \<open>holds_any\<close> passes over a step whose result does not matter.
\<close>

definition holds_if :: "'a option \<Rightarrow> ('a \<Rightarrow> bool) \<Rightarrow> bool" where
  "holds_if m P \<longleftrightarrow> (\<forall>x. m = Some x \<longrightarrow> P x)"

lemma holds_ifI: "(\<And>x. m = Some x \<Longrightarrow> P x) \<Longrightarrow> holds_if m P"
  by (simp add: holds_if_def)

lemma holds_ifD: "m = Some x \<Longrightarrow> holds_if m P \<Longrightarrow> P x"
  by (simp add: holds_if_def)

lemma holds_if_simps [simp]: "holds_if (Some x) P = P x" "holds_if None P"
  "holds_if (if b then m else n) P = (if b then holds_if m P else holds_if n P)"
  "holds_if (map_option g m) Q = holds_if m (\<lambda>x. Q (g x))"
  by (auto simp: holds_if_def)

lemma holds_bind: "holds_if m P \<Longrightarrow> (\<And>x. P x \<Longrightarrow> holds_if (f x) Q) \<Longrightarrow> holds_if (Option.bind m f) Q"
  by (auto simp: holds_if_def Option.bind_eq_Some_conv)

lemma holds_any: "(\<And>x. holds_if (f x) Q) \<Longrightarrow> holds_if (Option.bind m f) Q"
  by (auto simp: holds_if_def Option.bind_eq_Some_conv)

lemma holds_case:
  "(x = None \<Longrightarrow> holds_if m Q) \<Longrightarrow> (\<And>y. x = Some y \<Longrightarrow> holds_if (f y) Q) \<Longrightarrow> holds_if (case x of None \<Rightarrow> m | Some y \<Rightarrow> f y) Q"
  by (cases x) simp_all

lemma holds_sum:
  "(\<And>e. x = Inl e \<Longrightarrow> holds_if (g e) Q) \<Longrightarrow> (\<And>y. x = Inr y \<Longrightarrow> holds_if (f y) Q) \<Longrightarrow>
     holds_if (case x of Inl e \<Rightarrow> g e | Inr y \<Rightarrow> f y) Q"
  by (cases x) simp_all

lemma holds_mono: "holds_if m P \<Longrightarrow> (\<And>x. P x \<Longrightarrow> Q x) \<Longrightarrow> holds_if m Q"
  by (simp add: holds_if_def)

section \<open>Machine integers of type int\<close>

definition int_ok :: "int \<Rightarrow> bool" where
  "int_ok x \<longleftrightarrow> - (2 ^ 31) \<le> x \<and> x < 2 ^ 31"

text \<open>The result of an operation on \<open>int\<close>: undefined where it overflows.\<close>

definition c_int :: "int \<Rightarrow> int option" where
  "c_int x = (if int_ok x then Some x else None)"

lemma int_ok_below: "int_ok b \<Longrightarrow> 0 \<le> x \<Longrightarrow> x \<le> b \<Longrightarrow> int_ok x"
  by (simp add: int_ok_def)

lemma runs_c_int [wp]: "runs (c_int x) P \<longleftrightarrow> int_ok x \<and> P x"
  by (simp add: c_int_def)

text \<open>
  A left shift of an \<open>int\<close>: the compiler the program is built with does not treat its overflow as
  undefined, the bits that leave the word are lost.
\<close>

definition shl :: "int \<Rightarrow> nat \<Rightarrow> int" where
  "shl x n = signed_take_bit 31 (push_bit n x)"

section \<open>Checked accesses to an array\<close>

definition rd :: "'a list \<Rightarrow> int \<Rightarrow> 'a option" where
  "rd xs i = (if 0 \<le> i \<and> i < int (length xs) then Some (xs ! nat i) else None)"

definition wr :: "'a list \<Rightarrow> int \<Rightarrow> 'a \<Rightarrow> 'a list option" where
  "wr xs i v = (if 0 \<le> i \<and> i < int (length xs) then Some (xs[nat i := v]) else None)"

text \<open>
  \<open>mem_move xs dst src n\<close> is \<open>memmove(xs + dst, xs + src, n * sizeof *xs)\<close> and
  \<open>mem_fill xs i n v\<close> a \<open>memset\<close> of \<open>n\<close> elements. A negative count converts to
  a huge \<open>size_t\<close>, which no array holds.
\<close>

definition mem_get :: "'a list \<Rightarrow> int \<Rightarrow> int \<Rightarrow> 'a list option" where
  "mem_get xs i n =
     (if 0 \<le> n \<and> 0 \<le> i \<and> i + n \<le> int (length xs) then Some (take (nat n) (drop (nat i) xs)) else None)"

definition mem_put :: "'a list \<Rightarrow> int \<Rightarrow> 'a list \<Rightarrow> 'a list option" where
  "mem_put xs i ys =
     (if 0 \<le> i \<and> i + int (length ys) \<le> int (length xs)
      then Some (take (nat i) xs @ ys @ drop (nat i + length ys) xs) else None)"

definition mem_move :: "'a list \<Rightarrow> int \<Rightarrow> int \<Rightarrow> int \<Rightarrow> 'a list option" where
  "mem_move xs dst src n = do { b \<leftarrow> mem_get xs src n; mem_put xs dst b }"

definition mem_fill :: "'a list \<Rightarrow> int \<Rightarrow> int \<Rightarrow> 'a \<Rightarrow> 'a list option" where
  "mem_fill xs i n v = (if 0 \<le> n then mem_put xs i (replicate (nat n) v) else None)"

lemma runs_rd [wp]: "runs (rd xs i) P \<longleftrightarrow> 0 \<le> i \<and> i < int (length xs) \<and> P (xs ! nat i)"
  by (auto simp: rd_def)

lemma runs_wr [wp]: "runs (wr xs i v) P \<longleftrightarrow> 0 \<le> i \<and> i < int (length xs) \<and> P (xs[nat i := v])"
  by (auto simp: wr_def)

lemma runs_mem_get [wp]:
  "runs (mem_get xs i n) P \<longleftrightarrow>
     0 \<le> n \<and> 0 \<le> i \<and> i + n \<le> int (length xs) \<and> P (take (nat n) (drop (nat i) xs))"
  by (auto simp: mem_get_def)

lemma runs_mem_put [wp]:
  "runs (mem_put xs i ys) P \<longleftrightarrow>
     0 \<le> i \<and> i + int (length ys) \<le> int (length xs) \<and> P (take (nat i) xs @ ys @ drop (nat i + length ys) xs)"
  by (auto simp: mem_put_def)

lemma wr_SomeD: "wr xs i v = Some ys \<Longrightarrow> ys = xs[nat i := v] \<and> 0 \<le> i \<and> i < int (length xs)"
  by (simp add: wr_def split: if_splits)

lemma length_wr: "wr xs i v = Some ys \<Longrightarrow> length ys = length xs"
  by (auto dest: wr_SomeD)

lemma runs_mem_move_length:
  assumes "0 \<le> n" "0 \<le> src" "src + n \<le> int (length xs)" "0 \<le> dst" "dst + n \<le> int (length xs)"
  shows "runs (mem_move xs dst src n) (\<lambda>ys. length ys = length xs)"
  using assms by (simp add: mem_move_def wp)

lemma runs_mem_fill_length:
  assumes "0 \<le> n" "0 \<le> i" "i + n \<le> int (length xs)"
  shows "runs (mem_fill xs i n v) (\<lambda>ys. length ys = length xs)"
  using assms by (simp add: mem_fill_def wp)

text \<open>A 32-bit value in memory, least significant byte first.\<close>

definition le_bytes :: "32 word \<Rightarrow> 8 word list" where
  "le_bytes p = [ucast p, ucast (drop_bit 8 p), ucast (drop_bit 16 p), ucast (drop_bit 24 p)]"

definition of_le_bytes :: "8 word list \<Rightarrow> 32 word" where
  "of_le_bytes bs = foldr (\<lambda>b w. or (ucast b) (push_bit 8 w)) bs 0"

lemma of_le_bytes_le_bytes: "of_le_bytes (le_bytes p) = p"
proof (rule bit_eqI)
  fix n assume "possible_bit TYPE(32 word) n"
  then have "n < 32" by simp
  then have "n < 8 \<or> 8 \<le> n \<and> n < 16 \<or> 16 \<le> n \<and> n < 24 \<or> 24 \<le> n \<and> n < 32" by linarith
  then show "bit (of_le_bytes (le_bytes p)) n = bit p n"
    by (auto simp: of_le_bytes_def le_bytes_def bit_or_iff bit_push_bit_iff bit_drop_bit_eq
        bit_ucast_iff)
qed

lemma length_le_bytes [simp]: "length (le_bytes p) = 4"
  by (simp add: le_bytes_def)

lemma nth_block:
  assumes "n + length ys \<le> length xs" "i < length xs"
  shows "(take n xs @ ys @ drop (n + length ys) xs) ! i = (if n \<le> i \<and> i < n + length ys then ys ! (i - n) else xs ! i)"
proof -
  have len: "length (take n xs) = n" using assms(1) by simp
  consider "i < n" | "n \<le> i" "i < n + length ys" | "n + length ys \<le> i" by linarith
  then show ?thesis
  proof cases
    case 1
    with assms(2) show ?thesis by (subst nth_append) (simp add: len)
  next
    case 2
    then have lt: "i - n < length ys" "\<not> i < n" by linarith+
    from lt(1) have "(ys @ drop (n + length ys) xs) ! (i - n) = ys ! (i - n)"
      by (simp only: nth_append if_True)
    with 2 lt(2) show ?thesis by (simp only: nth_append len if_True if_False simp_thms)
  next
    case 3
    then have ge: "\<not> i - n < length ys" "\<not> i < n" "\<not> i < n + length ys" by linarith+
    from ge(1) have "(ys @ drop (n + length ys) xs) ! (i - n) = drop (n + length ys) xs ! (i - n - length ys)"
      by (simp only: nth_append if_False)
    also have "\<dots> = xs ! (n + length ys + (i - n - length ys))" using 3 assms by (intro nth_drop) linarith
    also have "n + length ys + (i - n - length ys) = i" using 3 by linarith
    finally show ?thesis using ge by (simp only: nth_append len if_False simp_thms)
  qed
qed

section \<open>Counting loops\<close>

text \<open>\<open>for_range lo hi f s\<close> is \<open>for (i = lo; i < hi; i++) s = f(i, s)\<close>.\<close>

fun for_list :: "(int \<Rightarrow> 's \<Rightarrow> 's option) \<Rightarrow> int list \<Rightarrow> 's \<Rightarrow> 's option" where
  "for_list f [] s = Some s"
| "for_list f (i # is) s = do { s' \<leftarrow> f i s; for_list f is s' }"

definition for_range :: "int \<Rightarrow> int \<Rightarrow> (int \<Rightarrow> 's \<Rightarrow> 's option) \<Rightarrow> 's \<Rightarrow> 's option" where
  "for_range lo hi f s = for_list f [lo..hi - 1] s"

lemma for_list_append:
  "for_list f (is @ js) s = do { s' \<leftarrow> for_list f is s; for_list f js s' }"
  by (induction "is" arbitrary: s) (simp_all split: Option.bind_splits)

lemma for_range_empty [simp]: "hi \<le> lo \<Longrightarrow> for_range lo hi f s = Some s"
  by (simp add: for_range_def)

lemma for_range_step:
  "lo < hi \<Longrightarrow> for_range lo hi f s = do { s' \<leftarrow> f lo s; for_range (lo + 1) hi f s' }"
  by (simp add: for_range_def upto_rec1)

lemma for_range_unfold:
  "for_range lo hi f s = (if lo < hi then do { s' \<leftarrow> f lo s; for_range (lo + 1) hi f s' } else Some s)"
  by (simp add: for_range_step)

lemma for_range_inv:
  assumes "lo \<le> hi" and "I lo s"
    and "\<And>i s. lo \<le> i \<Longrightarrow> i < hi \<Longrightarrow> I i s \<Longrightarrow> runs (f i s) (I (i + 1))"
  shows "runs (for_range lo hi f s) (I hi)"
  using assms
proof (induction "nat (hi - lo)" arbitrary: lo s)
  case 0
  then show ?case by simp
next
  case (Suc n)
  then have lt: "lo < hi" by simp
  from Suc.prems(2) Suc.prems(3)[of lo s] lt have "runs (f lo s) (I (lo + 1))" by simp
  then obtain s' where s': "f lo s = Some s'" "I (lo + 1) s'" by (auto simp: runs_iff)
  have "runs (for_range (lo + 1) hi f s') (I hi)"
    using Suc.hyps(2) lt s'(2) Suc.prems(3) by (intro Suc.hyps(1)) auto
  with lt s'(1) show ?case by (simp add: for_range_step)
qed

lemma for_range_keeps:
  assumes "I s" and "\<And>i s. lo \<le> i \<Longrightarrow> i < hi \<Longrightarrow> I s \<Longrightarrow> runs (f i s) I"
  shows "runs (for_range lo hi f s) I"
proof (cases "lo \<le> hi")
  case True
  with assms show ?thesis by (intro for_range_inv [where I = "\<lambda>_. I"]) auto
next
  case False
  with assms(1) show ?thesis by simp
qed

lemma for_range_partial:
  assumes "I s" "\<And>i s s'. I s \<Longrightarrow> f i s = Some s' \<Longrightarrow> I s'" "for_range lo hi f s = Some s'"
  shows "I s'"
proof -
  have "for_list f is s = Some s' \<Longrightarrow> I s \<Longrightarrow> I s'" for "is" s
    by (induction "is" arbitrary: s) (auto split: Option.bind_splits intro: assms(2))
  with assms(1,3) show ?thesis by (simp add: for_range_def)
qed

section \<open>The loops as list operations\<close>

lemma put_behind:
  assumes "length a = i" "i < length b"
  shows "(a @ drop i b)[i := x] = a @ x # drop (Suc i) b"
proof -
  have "drop i b = b ! i # drop (Suc i) b" using assms(2) by (simp add: Cons_nth_drop_Suc)
  with assms(1) show ?thesis by (simp add: list_update_append)
qed

lemma shift_step:
  assumes "i + w < length b"
  shows "(take i (drop w b) @ drop i b)[i := b ! (i + w)] = take (Suc i) (drop w b) @ drop (Suc i) b"
proof -
  have "length (take i (drop w b)) = i" using assms by simp
  moreover have "take (Suc i) (drop w b) = take i (drop w b) @ [b ! (i + w)]"
    using assms by (simp add: take_Suc_conv_app_nth add.commute)
  ultimately show ?thesis using assms by (simp add: put_behind)
qed

lemma fill_step:
  assumes "lo \<le> i" "i < length b"
  shows "(take lo b @ replicate (i - lo) x @ drop i b)[i := x] = take lo b @ replicate (Suc i - lo) x @ drop (Suc i) b"
proof -
  have "length (take lo b @ replicate (i - lo) x) = i" using assms by simp
  moreover have "replicate (Suc i - lo) x = replicate (i - lo) x @ [x]"
    using assms by (simp add: Suc_diff_le replicate_append_same)
  ultimately show ?thesis using assms put_behind [of "take lo b @ replicate (i - lo) x" i b x] by simp
qed

text \<open>\<open>fill lo hi x b\<close>: the cells from \<open>lo\<close> to \<open>hi\<close> (excluded) become \<open>x\<close>.\<close>

definition fill_cells :: "int \<Rightarrow> int \<Rightarrow> 'a \<Rightarrow> 'a list \<Rightarrow> 'a list" where
  "fill_cells lo hi x b =
     (if lo < hi then take (nat lo) b @ replicate (nat (hi - lo)) x @ drop (nat hi) b else b)"

lemma fill_cells_step:
  assumes "0 \<le> lo" "lo \<le> i" "i < int (length b)"
  shows "(fill_cells lo i x b)[nat i := x] = fill_cells lo (i + 1) x b"
proof -
  have eq: "nat (i - lo) = nat i - nat lo" "nat (i + 1 - lo) = Suc (nat i) - nat lo" "nat (i + 1) = Suc (nat i)"
    using assms by auto
  have shape: "fill_cells lo i x b = take (nat lo) b @ replicate (nat i - nat lo) x @ drop (nat i) b"
    using assms eq by (auto simp: fill_cells_def)
  have lt: "lo < i + 1" using assms by simp
  from assms show ?thesis
    unfolding shape using fill_step [of "nat lo" "nat i" b x] lt by (simp add: fill_cells_def eq)
qed

lemma length_fill_cells [simp]:
  "0 \<le> lo \<Longrightarrow> hi \<le> int (length b) \<Longrightarrow> length (fill_cells lo hi x b) = length b"
  by (auto simp: fill_cells_def)

text \<open>\<open>for (c = 0; c < n; c++) xs[i + c] = v\<close>\<close>

definition loop_fill :: "'a list \<Rightarrow> int \<Rightarrow> int \<Rightarrow> 'a \<Rightarrow> 'a list option" where
  "loop_fill xs i n v = for_range 0 n (\<lambda>c ys. wr ys (i + c) v) xs"

lemma loop_fill_runs:
  assumes "0 \<le> i" "i + n \<le> int (length xs)"
  shows "loop_fill xs i n v = Some (fill_cells i (i + n) v xs)"
proof (cases "0 \<le> n")
  case False
  then show ?thesis by (simp add: loop_fill_def fill_cells_def)
next
  case True
  have "runs (loop_fill xs i n v) (\<lambda>ys. ys = fill_cells i (i + n) v xs)" unfolding loop_fill_def
  proof (rule for_range_inv [where I = "\<lambda>c ys. ys = fill_cells i (i + c) v xs"], goal_cases)
    case 1
    from True show ?case .
  next
    case 2
    show ?case by (simp add: fill_cells_def)
  next
    case (3 c ys)
    with assms fill_cells_step [of i "i + c" xs v] show ?case by (simp add: wp algebra_simps)
  qed
  then show ?thesis by (auto simp: runs_iff)
qed

lemma mem_fill_runs:
  assumes "0 \<le> n" "0 \<le> i" "i + n \<le> int (length xs)"
  shows "mem_fill xs i n v = Some (fill_cells i (i + n) v xs)"
  using assms by (auto simp: mem_fill_def mem_put_def fill_cells_def nat_add_distrib)

section \<open>C strings and bytes\<close>

text \<open>
  A string is the list of its characters up to the terminating NUL. \<open>str_at s i\<close> is
  \<open>s[i]\<close>, where the NUL itself can be read and nothing behind it.
\<close>

abbreviation NUL :: char where "NUL \<equiv> CHR 0x00"
abbreviation BS :: char where "BS \<equiv> CHR 0x08"
abbreviation TAB :: char where "TAB \<equiv> CHR 0x09"
abbreviation LF :: char where "LF \<equiv> CHR 0x0A"
abbreviation CR :: char where "CR \<equiv> CHR 0x0D"
abbreviation ESC :: char where "ESC \<equiv> CHR 0x1B"
abbreviation DQUOTE :: char where "DQUOTE \<equiv> CHR 0x22"
abbreviation SQUOTE :: char where "SQUOTE \<equiv> CHR 0x27"
abbreviation BACKSLASH :: char where "BACKSLASH \<equiv> CHR 0x5C"

definition str_at :: "string \<Rightarrow> int \<Rightarrow> char option" where
  "str_at s i = rd (s @ [NUL]) i"

definition code :: "char \<Rightarrow> int" where
  "code c = int (of_char c)"

definition is_digit :: "char \<Rightarrow> bool" where
  "is_digit c \<longleftrightarrow> 48 \<le> code c \<and> code c \<le> 57"

lemma code_bounds: "0 \<le> code c" "code c < 256"
  by (simp_all add: code_def)

text \<open>Division, undefined for the divisor 0.\<close>

definition c_div :: "int \<Rightarrow> int \<Rightarrow> int option" where
  "c_div a b = (if b = 0 then None else Some (a sdiv b))"

lemma runs_c_div [wp]: "runs (c_div a b) P \<longleftrightarrow> b \<noteq> 0 \<and> P (a sdiv b)"
  by (simp add: c_div_def)

lemma sdiv_pos: "0 \<le> a \<Longrightarrow> 0 < b \<Longrightarrow> a sdiv b = (a :: int) div b"
  by (cases "a = 0") (simp_all add: signed_divide_int_def)

lemma smod_pos: "0 \<le> a \<Longrightarrow> 0 < b \<Longrightarrow> a smod b = (a::int) mod b"
  by (cases "a = 0") (simp_all add: smod_int_alt_def)

lemma div_below:
  assumes "i < h * w" "0 < (w::int)"
  shows "i div w < h"
proof (rule ccontr)
  assume "\<not> i div w < h"
  then have "h * w \<le> i div w * w" using assms(2) by (intro mult_right_mono) simp_all
  also have "\<dots> \<le> i" using div_mult_mod_eq [of i w] pos_mod_sign [OF assms(2), of i] by linarith
  finally show False using assms(1) by simp
qed

lemma div_less_iff:
  assumes "0 < (w::int)"
  shows "i div w < h \<longleftrightarrow> i < h * w" "h \<le> i div w \<longleftrightarrow> h * w \<le> i"
proof -
  have "i < h * w" if "i div w < h"
  proof -
    have "(i div w + 1) * w \<le> h * w" using that assms by (intro mult_right_mono) simp_all
    moreover have "i < (i div w + 1) * w"
      using div_mult_mod_eq [of i w] pos_mod_bound [OF assms, of i] by (simp only: distrib_right mult_1)
    ultimately show ?thesis by linarith
  qed
  then show less: "i div w < h \<longleftrightarrow> i < h * w" using div_below assms by blast
  then show "h \<le> i div w \<longleftrightarrow> h * w \<le> i" by linarith
qed

lemma div_is:
  assumes "q * d \<le> a" "a < q * d + (d::int)"
  shows "a div d = q" "a mod d = a - q * d"
proof -
  have "a = d * q + (a - q * d)" "0 \<le> a - q * d" "a - q * d < d" using assms by (simp_all add: algebra_simps)
  then show "a div d = q" "a mod d = a - q * d" by (rule int_div_pos_eq, rule int_mod_pos_eq)
qed

lemma digit_value: "is_digit c \<Longrightarrow> 0 \<le> code c - 48 \<and> code c - 48 \<le> 9"
  by (simp add: is_digit_def)

text \<open>\<open>strstr\<close>\<close>

fun find_sub :: "string \<Rightarrow> string \<Rightarrow> nat option" where
  "find_sub pat [] = (if pat = [] then Some 0 else None)"
| "find_sub pat (c # s) = (if take (length pat) (c # s) = pat then Some 0 else map_option Suc (find_sub pat s))"

lemma find_sub_bound: "find_sub pat s = Some k \<Longrightarrow> k + length pat \<le> length s"
proof (induction s arbitrary: k)
  case (Cons c s)
  show ?case
  proof (cases "take (length pat) (c # s) = pat")
    case True
    then have "length pat \<le> length (c # s)" by (metis length_take min.cobounded1)
    with Cons.prems True show ?thesis by simp
  qed (use Cons in auto)
qed (simp split: if_splits)

text \<open>\<open>%d\<close>\<close>

fun nat_digits :: "nat \<Rightarrow> string" where
  "nat_digits n = (if n < 10 then [char_of (48 + n)] else nat_digits (n div 10) @ [char_of (48 + n mod 10)])"

declare nat_digits.simps [simp del]

definition show_int :: "int \<Rightarrow> string" where
  "show_int i = (if i < 0 then CHR ''-'' # nat_digits (nat (- i)) else nat_digits (nat i))"

lemma nat_digits_length: "n < 10 ^ k \<Longrightarrow> 0 < k \<Longrightarrow> length (nat_digits n) \<le> k"
proof (induction k arbitrary: n)
  case (Suc k)
  show ?case
  proof (cases "n < 10")
    case True
    then show ?thesis by (simp add: nat_digits.simps)
  next
    case False
    then have "k \<noteq> 0" using Suc.prems by (cases k) auto
    moreover have "n div 10 < 10 ^ k" using Suc.prems by (simp add: less_mult_imp_div_less mult.commute)
    ultimately have "length (nat_digits (n div 10)) \<le> k" using Suc.IH by simp
    with False show ?thesis by (subst nat_digits.simps) simp
  qed
qed simp

lemma show_int_length:
  assumes "- 65536 \<le> i" "i \<le> 65536"
  shows "length (show_int i) \<le> 6"
proof -
  have "nat i < 10 ^ 5" "nat (- i) < 10 ^ 5" using assms by simp_all
  from nat_digits_length [OF this(1)] nat_digits_length [OF this(2)] show ?thesis by (simp add: show_int_def)
qed

section \<open>Interfaces\<close>

text \<open>
  A component that takes one command after the other, next to what the commands mean: \<open>good b s\<close>
  relates the meaning \<open>b\<close> to the state \<open>s\<close>. Whoever has a list of commands only needs
  that every single one succeeds.
\<close>

locale command_sequence =
  fixes run :: "'c list \<Rightarrow> 's \<Rightarrow> 's option" and step :: "'c \<Rightarrow> 's \<Rightarrow> 's option"
    and allowed :: "'c \<Rightarrow> bool" and good :: "'b \<Rightarrow> 's \<Rightarrow> bool" and meaning :: "'b \<Rightarrow> 'c \<Rightarrow> 'b"
  assumes run_Nil: "run [] s = Some s"
    and run_Cons: "run (c # cs) s = do { t \<leftarrow> step c s; run cs t }"
    and step_law: "allowed c \<Longrightarrow> good b s \<Longrightarrow> runs (step c s) (good (meaning b c))"
begin

lemma run_all:
  assumes "good b s" "list_all allowed cs"
  shows "runs (run cs s) (good (foldl meaning b cs))"
  using assms
proof (induction cs arbitrary: b s)
  case (Cons c cs)
  from step_law [of c b s] Cons.prems obtain t where "step c s = Some t" "good (meaning b c) t" by (auto simp: runs_iff)
  with Cons.IH [of "meaning b c" t] Cons.prems show ?case by (simp add: run_Cons)
qed (simp add: run_Nil)

end

text \<open>
  A component that keeps a finite map: \<open>view\<close> is the map, \<open>put\<close> sets an entry that \<open>fits\<close>, \<open>del\<close>
  removes one. Its client sets and removes many.
\<close>

fun put_all :: "('k \<Rightarrow> 'v \<Rightarrow> 's \<Rightarrow> 's option) \<Rightarrow> ('k \<times> 'v) list \<Rightarrow> 's \<Rightarrow> 's option" where
  "put_all put [] s = Some s"
| "put_all put ((k, v) # es) s = do { t \<leftarrow> put k v s; put_all put es t }"

locale map_store =
  fixes ok :: "'s \<Rightarrow> bool" and view :: "'s \<Rightarrow> 'k \<rightharpoonup> 'v" and fits :: "'k \<Rightarrow> 'v \<Rightarrow> bool"
    and put :: "'k \<Rightarrow> 'v \<Rightarrow> 's \<Rightarrow> 's option" and del :: "'k \<Rightarrow> 's \<Rightarrow> 's"
  assumes put_law: "ok s \<Longrightarrow> fits k v \<Longrightarrow> runs (put k v s) (\<lambda>t. ok t \<and> view t = (view s)(k \<mapsto> v))"
    and del_law: "ok s \<Longrightarrow> ok (del k s) \<and> view (del k s) = (view s)(k := None)"
begin

lemma del_all: "ok s \<Longrightarrow> ok (fold del ks s) \<and> view (fold del ks s) = view s |` (- set ks)"
proof (induction ks arbitrary: s)
  case (Cons k ks)
  from Cons.IH [of "del k s"] del_law [OF Cons.prems, of k] show ?case by (auto simp: restrict_map_def fun_eq_iff)
qed (simp add: restrict_map_def)

lemma put_all_view:
  assumes "ok s" "\<forall>(k, v) \<in> set es. fits k v"
  shows "runs (put_all put es s) (\<lambda>t. ok t \<and> view t = view s ++ map_of (rev es))"
  using assms
proof (induction es arbitrary: s)
  case (Cons e es)
  obtain k v where e: "e = (k, v)" by (cases e)
  with put_law [of s k v] Cons.prems obtain u where "put k v s = Some u" "ok u" "view u = (view s)(k \<mapsto> v)"
    by (auto simp: runs_iff)
  with Cons.IH [of u] Cons.prems(2) e show ?case by (auto simp: fun_eq_iff map_add_def elim!: runs_mono split: option.split)
qed simp

lemma put_same_view:
  assumes "ok s" "\<forall>k \<in> set ks. fits k (f k)"
  shows "runs (put_all put (map (\<lambda>k. (k, f k)) ks) s)
    (\<lambda>t. ok t \<and> (\<forall>k. view t k = (if k \<in> set ks then Some (f k) else view s k)))"
proof -
  have "map_of (rev (map (\<lambda>k. (k, f k)) ks)) k = (if k \<in> set ks then Some (f k) else None)" for k
    by (induction ks) (auto simp: map_add_def split: option.split)
  then show ?thesis using put_all_view [of s "map (\<lambda>k. (k, f k)) ks"] assms
    by (auto simp: map_add_def elim!: runs_mono split: option.split)
qed

end

text \<open>
  A program that runs in steps, as a relation: \<open>inv\<close> holds in every state it reaches, and \<open>kept\<close>
  relates such a state to the first one.
\<close>

locale stepping =
  fixes step :: "'s \<Rightarrow> 's \<Rightarrow> bool" and inv :: "'s \<Rightarrow> bool" and kept :: "'s \<Rightarrow> 's \<Rightarrow> bool"
  assumes step_law: "step s t \<Longrightarrow> inv s \<Longrightarrow> inv t \<and> kept s t"
    and kept_refl: "kept s s" and kept_trans: "kept s t \<Longrightarrow> kept t u \<Longrightarrow> kept s u"
begin

lemma reached: "step\<^sup>*\<^sup>* s t \<Longrightarrow> inv s \<Longrightarrow> inv t \<and> kept s t"
  by (induction rule: rtranclp_induct) (use step_law kept_refl kept_trans in blast)+

end

end
