(* ===== verification/Vtconsole.thy ===== *)
theory Vtconsole
  imports Prelude
begin

text \<open>
  The ANSI console of libfbpads/vtconsole.c: a grid of cells, a cursor, the attributes of
  the next character and a small parser of escape sequences. The two callbacks
  \<open>on_paint\<close> and \<open>on_move\<close> receive the changed cell or the cursor and do not change
  the console, so a call is recorded in \<open>vt_log\<close>, in order; libfbpads replays the log
  on the terminal.

  \<open>vt_inv\<close> is the console's invariant: the grid has \<open>width * height\<close> cells, the
  parser's index stays below the stack's size and the cursor inside the grid (the column
  may equal the width: the next character wraps). \<open>vt_safe v c\<close> is exactly the
  condition under which the code processes the byte \<open>c\<close> without undefined behaviour
  and keeps the invariant.
\<close>

section \<open>Data\<close>

datatype vtcolor = VTCOLOR_BLACK | VTCOLOR_RED | VTCOLOR_GREEN | VTCOLOR_YELLOW
  | VTCOLOR_BLUE | VTCOLOR_MAGENTA | VTCOLOR_CYAN | VTCOLOR_GREY

datatype vtansi_state = VTSTATE_ESC | VTSTATE_BRACKET | VTSTATE_ATTR | VTSTATE_ENDVAL

record vtansi_arg =
  arg_value :: int
  arg_empty :: bool

record vtansi_parser =
  vp_state :: vtansi_state
  vp_stack :: "vtansi_arg list"
  vp_index :: int

record vtattr =
  va_bright :: bool
  va_fg :: vtcolor
  va_bg :: vtcolor

record vtcell =
  cell_c :: char
  cell_attr :: vtattr

record vtcursor =
  cur_x :: int
  cur_y :: int

datatype vtevent = Paint vtcell int int | Move int int

record vtconsole =
  vt_width :: int
  vt_height :: int
  vt_attr :: vtattr
  vt_parser :: vtansi_parser
  vt_buffer :: "vtcell list"
  vt_cursor :: vtcursor
  vt_on_paint :: bool
  vt_on_move :: bool
  vt_log :: "vtevent list"

definition VTC_ANSI_PARSER_STACK_SIZE :: int where
  "VTC_ANSI_PARSER_STACK_SIZE = 8"

definition VTC_DEFAULT_ATTR :: vtattr where
  "VTC_DEFAULT_ATTR = \<lparr>va_bright = False, va_fg = VTCOLOR_GREY, va_bg = VTCOLOR_BLACK\<rparr>"

definition blank_cell :: vtcell where
  "blank_cell = \<lparr>cell_c = CHR '' '', cell_attr = VTC_DEFAULT_ATTR\<rparr>"

text \<open>The enumerators and their values.\<close>

fun vtcolor_code :: "vtcolor \<Rightarrow> int" where
  "vtcolor_code VTCOLOR_BLACK = 0"
| "vtcolor_code VTCOLOR_RED = 1"
| "vtcolor_code VTCOLOR_GREEN = 2"
| "vtcolor_code VTCOLOR_YELLOW = 3"
| "vtcolor_code VTCOLOR_BLUE = 4"
| "vtcolor_code VTCOLOR_MAGENTA = 5"
| "vtcolor_code VTCOLOR_CYAN = 6"
| "vtcolor_code VTCOLOR_GREY = 7"

definition vtcolor_of :: "int \<Rightarrow> vtcolor" where
  "vtcolor_of n =
     (if n = 0 then VTCOLOR_BLACK else if n = 1 then VTCOLOR_RED
      else if n = 2 then VTCOLOR_GREEN else if n = 3 then VTCOLOR_YELLOW
      else if n = 4 then VTCOLOR_BLUE else if n = 5 then VTCOLOR_MAGENTA
      else if n = 6 then VTCOLOR_CYAN else VTCOLOR_GREY)"

section \<open>Callbacks\<close>

definition call_paint :: "vtconsole \<Rightarrow> vtcell \<Rightarrow> int \<Rightarrow> int \<Rightarrow> vtconsole" where
  "call_paint v cell x y = (if vt_on_paint v then v\<lparr>vt_log := vt_log v @ [Paint cell x y]\<rparr> else v)"

definition call_move :: "vtconsole \<Rightarrow> vtconsole" where
  "call_move v =
     (if vt_on_move v then v\<lparr>vt_log := vt_log v @ [Move (cur_x (vt_cursor v)) (cur_y (vt_cursor v))]\<rparr> else v)"

definition set_x :: "int \<Rightarrow> vtconsole \<Rightarrow> vtconsole" where
  "set_x x v = v\<lparr>vt_cursor := (vt_cursor v)\<lparr>cur_x := x\<rparr>\<rparr>"

definition set_y :: "int \<Rightarrow> vtconsole \<Rightarrow> vtconsole" where
  "set_y y v = v\<lparr>vt_cursor := (vt_cursor v)\<lparr>cur_y := y\<rparr>\<rparr>"

section \<open>Clearing and scrolling\<close>

definition vtconsole_clear :: "vtconsole \<Rightarrow> int \<Rightarrow> int \<Rightarrow> int \<Rightarrow> int \<Rightarrow> vtconsole option" where
  "vtconsole_clear vtc fromx fromy tox toy =
     for_range (fromx + fromy * vt_width vtc) (tox + toy * vt_width vtc)
       (\<lambda>i v. do {
          buf \<leftarrow> wr (vt_buffer v) i blank_cell;
          Some (call_paint (v\<lparr>vt_buffer := buf\<rparr>) blank_cell (i smod vt_width v) (i sdiv vt_width v)) })
       vtc"

definition scroll_copy :: "int \<Rightarrow> int \<Rightarrow> vtconsole \<Rightarrow> vtconsole option" where
  "scroll_copy lines i v = do {
     cell \<leftarrow> rd (vt_buffer v) (i + vt_width v * lines);
     buf \<leftarrow> wr (vt_buffer v) i cell;
     Some (call_paint (v\<lparr>vt_buffer := buf\<rparr>) cell (i smod vt_width v) (i sdiv vt_width v)) }"

definition scroll_blank :: "int \<Rightarrow> vtconsole \<Rightarrow> vtconsole option" where
  "scroll_blank i v = do {
     buf \<leftarrow> wr (vt_buffer v) i blank_cell;
     Some (call_paint (v\<lparr>vt_buffer := buf\<rparr>) blank_cell (i smod vt_width v) (i sdiv vt_width v)) }"

definition vtconsole_scroll :: "vtconsole \<Rightarrow> int \<Rightarrow> vtconsole option" where
  "vtconsole_scroll vtc lines0 =
     (if lines0 = 0 then Some vtc
      else do {
        let lines = (if lines0 > vt_height vtc then vt_height vtc else lines0);
        let w = vt_width vtc;
        let h = vt_height vtc;
        v1 \<leftarrow> for_range 0 (w * h - w * lines) (scroll_copy lines) vtc;
        v2 \<leftarrow> for_range (w * h - w * lines) (w * h) scroll_blank v1;
        let y = cur_y (vt_cursor v2);
        Some (if y > 0 then call_move (set_y (if y - lines < 0 then 0 else y - lines) v2) else v2) })"

definition vtconsole_newline :: "vtconsole \<Rightarrow> vtconsole option" where
  "vtconsole_newline vtc = do {
     let v1 = set_y (cur_y (vt_cursor vtc) + 1) (set_x 0 vtc);
     v2 \<leftarrow> (if cur_y (vt_cursor v1) = vt_height v1 then vtconsole_scroll v1 1 else Some v1);
     Some (call_move v2) }"

section \<open>Appending a character\<close>

text \<open>The last branch of \<open>vtconsole_append\<close>: a character that is stored in a cell.\<close>

definition append_glyph :: "vtconsole \<Rightarrow> char \<Rightarrow> vtconsole option" where
  "append_glyph vtc c = do {
     v1 \<leftarrow> (if cur_x (vt_cursor vtc) \<ge> vt_width vtc then vtconsole_newline vtc else Some vtc);
     let x = cur_x (vt_cursor v1);
     let y = cur_y (vt_cursor v1);
     let cell = \<lparr>cell_c = c, cell_attr = vt_attr v1\<rparr>;
     buf \<leftarrow> wr (vt_buffer v1) (x + y * vt_width v1) cell;
     Some (call_move (set_x (x + 1) (call_paint (v1\<lparr>vt_buffer := buf\<rparr>) cell x y))) }"

definition vtconsole_append :: "vtconsole \<Rightarrow> char \<Rightarrow> vtconsole option" where
  "vtconsole_append vtc c =
     (if c = LF then vtconsole_newline vtc
      else if c = CR then Some (call_move (set_x 0 vtc))
      else if c = TAB then
        for_range 0 (8 - cur_x (vt_cursor vtc) smod 8) (\<lambda>_ v. append_glyph v (CHR '' '')) vtc
      else if c = BS then
        Some (call_move
          (if cur_x (vt_cursor vtc) > 0 then set_x (cur_x (vt_cursor vtc) - 1) vtc
           else set_x (vt_width vtc - 1) (set_y (cur_y (vt_cursor vtc) - 1) vtc)))
      else append_glyph vtc c)"

section \<open>Control sequences\<close>

definition vtconsole_csi_cup :: "vtconsole \<Rightarrow> vtansi_arg list \<Rightarrow> int \<Rightarrow> vtconsole option" where
  "vtconsole_csi_cup vtc stack count = do {
     s0 \<leftarrow> rd stack 0;
     s1 \<leftarrow> rd stack 1;
     Some (call_move
       (if count = 1 \<and> arg_empty s0 then set_y 0 (set_x 0 vtc)
        else if count = 2 then
          (let v1 = (if arg_empty s0 then set_y 0 vtc
                     else set_y (min (arg_value s0 - 1) (vt_height vtc - 1)) vtc)
           in (if arg_empty s1 then set_y 0 v1
               else set_x (min (arg_value s1 - 1) (vt_width v1 - 1)) v1))
        else vtc)) }"

definition vtconsole_csi_ed :: "vtconsole \<Rightarrow> vtansi_arg list \<Rightarrow> int \<Rightarrow> vtconsole option" where
  "vtconsole_csi_ed vtc stack count = do {
     s0 \<leftarrow> rd stack 0;
     let x = cur_x (vt_cursor vtc);
     let y = cur_y (vt_cursor vtc);
     (if arg_empty s0 then vtconsole_clear vtc x y (vt_width vtc) (vt_height vtc - 1)
      else if arg_value s0 = 0 then vtconsole_clear vtc x y (vt_width vtc) (vt_height vtc - 1)
      else if arg_value s0 = 1 then vtconsole_clear vtc 0 0 x y
      else if arg_value s0 = 2 then vtconsole_clear vtc 0 0 (vt_width vtc) (vt_height vtc - 1)
      else Some vtc) }"

definition vtconsole_csi_el :: "vtconsole \<Rightarrow> vtansi_arg list \<Rightarrow> int \<Rightarrow> vtconsole option" where
  "vtconsole_csi_el vtc stack count = do {
     s0 \<leftarrow> rd stack 0;
     let x = cur_x (vt_cursor vtc);
     let y = cur_y (vt_cursor vtc);
     (if arg_empty s0 then vtconsole_clear vtc x y (vt_width vtc) y
      else if arg_value s0 = 0 then vtconsole_clear vtc x y (vt_width vtc) y
      else if arg_value s0 = 1 then vtconsole_clear vtc 0 y x y
      else if arg_value s0 = 2 then vtconsole_clear vtc 0 y (vt_width vtc) y
      else Some vtc) }"

text \<open>One iteration of the loop of \<open>vtconsole_csi_sgr\<close>.\<close>

definition sgr_step :: "vtansi_arg \<Rightarrow> vtattr \<Rightarrow> vtattr" where
  "sgr_step a attr =
     (if arg_empty a \<or> arg_value a = 0 then VTC_DEFAULT_ATTR
      else if arg_value a = 1 then attr\<lparr>va_bright := True\<rparr>
      else if 30 \<le> arg_value a \<and> arg_value a \<le> 37 then attr\<lparr>va_fg := vtcolor_of (arg_value a - 30)\<rparr>
      else if 40 \<le> arg_value a \<and> arg_value a \<le> 47 then attr\<lparr>va_bg := vtcolor_of (arg_value a - 40)\<rparr>
      else attr)"

definition vtconsole_csi_sgr :: "vtconsole \<Rightarrow> vtansi_arg list \<Rightarrow> int \<Rightarrow> vtconsole option" where
  "vtconsole_csi_sgr vtc stack count =
     for_range 0 count
       (\<lambda>i v. do { a \<leftarrow> rd stack i; Some (v\<lparr>vt_attr := sgr_step a (vt_attr v)\<rparr>) }) vtc"

section \<open>The parser\<close>

definition set_parser :: "vtansi_parser \<Rightarrow> vtconsole \<Rightarrow> vtconsole" where
  "set_parser p v = v\<lparr>vt_parser := p\<rparr>"

text \<open>\<open>stack[index].value = 0; stack[index].empty = true\<close>\<close>

definition push_empty_arg :: "vtansi_parser \<Rightarrow> vtansi_parser option" where
  "push_empty_arg p = do {
     st \<leftarrow> wr (vp_stack p) (vp_index p) \<lparr>arg_value = 0, arg_empty = True\<rparr>;
     Some (p\<lparr>vp_stack := st\<rparr>) }"

text \<open>A digit of an argument.\<close>

definition push_digit :: "vtansi_parser \<Rightarrow> char \<Rightarrow> vtansi_parser option" where
  "push_digit p c = do {
     a \<leftarrow> rd (vp_stack p) (vp_index p);
     v10 \<leftarrow> c_int (arg_value a * 10);
     v \<leftarrow> c_int (v10 + (code c - 48));
     st \<leftarrow> wr (vp_stack p) (vp_index p) \<lparr>arg_value = v, arg_empty = False\<rparr>;
     Some (p\<lparr>vp_stack := st\<rparr>) }"

text \<open>The first switch of \<open>vtconsole_process\<close>, on the parser's state.\<close>

definition process_state :: "vtconsole \<Rightarrow> char \<Rightarrow> vtconsole option" where
  "process_state vtc c =
     (let p = vt_parser vtc in
      case vp_state p of
        VTSTATE_ESC \<Rightarrow>
          (if c = ESC then do {
             p' \<leftarrow> push_empty_arg (p\<lparr>vp_state := VTSTATE_BRACKET, vp_index := 0\<rparr>);
             Some (set_parser p' vtc) }
           else vtconsole_append (set_parser (p\<lparr>vp_state := VTSTATE_ESC\<rparr>) vtc) c)
      | VTSTATE_BRACKET \<Rightarrow>
          (if c = CHR ''['' then Some (set_parser (p\<lparr>vp_state := VTSTATE_ATTR\<rparr>) vtc)
           else vtconsole_append (set_parser (p\<lparr>vp_state := VTSTATE_ESC\<rparr>) vtc) c)
      | VTSTATE_ATTR \<Rightarrow>
          (if is_digit c then do { p' \<leftarrow> push_digit p c; Some (set_parser p' vtc) }
           else do {
             let p1 = (if vp_index p < VTC_ANSI_PARSER_STACK_SIZE
                       then p\<lparr>vp_index := vp_index p + 1\<rparr> else p);
             p2 \<leftarrow> push_empty_arg p1;
             Some (set_parser (p2\<lparr>vp_state := VTSTATE_ENDVAL\<rparr>) vtc) })
      | VTSTATE_ENDVAL \<Rightarrow> Some vtc)"

text \<open>The second part: what ends an argument ends the sequence unless it is a semicolon.\<close>

definition process_endval :: "vtconsole \<Rightarrow> char \<Rightarrow> vtconsole option" where
  "process_endval vtc c =
     (let p = vt_parser vtc in
      if c = CHR '';'' then Some (set_parser (p\<lparr>vp_state := VTSTATE_ATTR\<rparr>) vtc)
      else do {
        v1 \<leftarrow> (if c = CHR ''H'' then vtconsole_csi_cup vtc (vp_stack p) (vp_index p)
              else if c = CHR ''J'' then vtconsole_csi_ed vtc (vp_stack p) (vp_index p)
              else if c = CHR ''K'' then vtconsole_csi_el vtc (vp_stack p) (vp_index p)
              else if c = CHR ''m'' then vtconsole_csi_sgr vtc (vp_stack p) (vp_index p)
              else Some vtc);
        Some (set_parser ((vt_parser v1)\<lparr>vp_state := VTSTATE_ESC\<rparr>) v1) })"

definition vtconsole_process :: "vtconsole \<Rightarrow> char \<Rightarrow> vtconsole option" where
  "vtconsole_process vtc c = do {
     v \<leftarrow> process_state vtc c;
     (if vp_state (vt_parser v) = VTSTATE_ENDVAL then process_endval v c else Some v) }"

definition vtconsole_putchar :: "vtconsole \<Rightarrow> char \<Rightarrow> vtconsole option" where
  "vtconsole_putchar vtc c = vtconsole_process vtc c"

fun vtconsole_write :: "vtconsole \<Rightarrow> string \<Rightarrow> vtconsole option" where
  "vtconsole_write vtc [] = Some vtc"
| "vtconsole_write vtc (c # cs) = do { v \<leftarrow> vtconsole_process vtc c; vtconsole_write v cs }"

text \<open>
  The constructor. \<open>garbage\<close> is what \<open>malloc\<close> leaves in the buffer; a failed
  allocation is not modelled.
\<close>

definition vtconsole_new :: "vtcell list \<Rightarrow> int \<Rightarrow> int \<Rightarrow> bool \<Rightarrow> bool \<Rightarrow> vtconsole option" where
  "vtconsole_new garbage width height on_paint on_move =
     vtconsole_clear
       \<lparr>vt_width = width, vt_height = height, vt_attr = VTC_DEFAULT_ATTR,
        vt_parser = \<lparr>vp_state = VTSTATE_ESC,
          vp_stack = replicate 8 \<lparr>arg_value = 0, arg_empty = False\<rparr>, vp_index = 0\<rparr>,
        vt_buffer = garbage, vt_cursor = \<lparr>cur_x = 0, cur_y = 0\<rparr>,
        vt_on_paint = on_paint, vt_on_move = on_move, vt_log = []\<rparr>
       0 0 width (height - 1)"

section \<open>The invariant\<close>

definition vt_grid :: "vtconsole \<Rightarrow> bool" where
  "vt_grid v \<longleftrightarrow> 0 < vt_width v \<and> 0 < vt_height v \<and>
     int (length (vt_buffer v)) = vt_width v * vt_height v"

definition args_ok :: "vtansi_arg list \<Rightarrow> bool" where
  "args_ok st \<longleftrightarrow> (\<forall>a \<in> set st. 0 \<le> arg_value a \<and> int_ok (arg_value a))"

lemma args_ok_update:
  "args_ok st \<Longrightarrow> 0 \<le> arg_value a \<Longrightarrow> int_ok (arg_value a) \<Longrightarrow> args_ok (st[i := a])"
  using set_update_subset_insert [of st i a] by (auto simp: args_ok_def)

lemma args_ok_nth: "args_ok st \<Longrightarrow> i < length st \<Longrightarrow> 0 \<le> arg_value (st ! i) \<and> int_ok (arg_value (st ! i))"
  by (simp add: args_ok_def)

definition parser_ok :: "vtansi_parser \<Rightarrow> bool" where
  "parser_ok p \<longleftrightarrow> length (vp_stack p) = 8 \<and> 0 \<le> vp_index p \<and> vp_index p < 8 \<and>
     args_ok (vp_stack p)"

definition cursor_ok :: "vtconsole \<Rightarrow> bool" where
  "cursor_ok v \<longleftrightarrow> 0 \<le> cur_x (vt_cursor v) \<and> cur_x (vt_cursor v) \<le> vt_width v \<and>
     0 \<le> cur_y (vt_cursor v) \<and> cur_y (vt_cursor v) < vt_height v"

definition vt_inv :: "vtconsole \<Rightarrow> bool" where
  "vt_inv v \<longleftrightarrow> vt_grid v \<and> parser_ok (vt_parser v) \<and>
     vp_state (vt_parser v) \<noteq> VTSTATE_ENDVAL \<and> cursor_ok v"

text \<open>What the drawing operations leave alone.\<close>

definition vt_frame :: "vtconsole \<Rightarrow> vtconsole \<Rightarrow> bool" where
  "vt_frame v v' \<longleftrightarrow> vt_width v' = vt_width v \<and> vt_height v' = vt_height v \<and>
     vt_attr v' = vt_attr v \<and> vt_parser v' = vt_parser v"

lemma vt_frame_refl [simp]: "vt_frame v v"
  by (simp add: vt_frame_def)

lemma vt_frame_trans: "vt_frame u v \<Longrightarrow> vt_frame v w \<Longrightarrow> vt_frame u w"
  by (simp add: vt_frame_def)

lemma call_paint_simps [simp]:
  "vt_width (call_paint v c x y) = vt_width v" "vt_height (call_paint v c x y) = vt_height v"
  "vt_attr (call_paint v c x y) = vt_attr v" "vt_parser (call_paint v c x y) = vt_parser v"
  "vt_buffer (call_paint v c x y) = vt_buffer v" "vt_cursor (call_paint v c x y) = vt_cursor v"
  by (simp_all add: call_paint_def)

lemma call_move_simps [simp]:
  "vt_width (call_move v) = vt_width v" "vt_height (call_move v) = vt_height v"
  "vt_attr (call_move v) = vt_attr v" "vt_parser (call_move v) = vt_parser v"
  "vt_buffer (call_move v) = vt_buffer v" "vt_cursor (call_move v) = vt_cursor v"
  by (simp_all add: call_move_def)

lemma set_x_simps [simp]:
  "vt_width (set_x x v) = vt_width v" "vt_height (set_x x v) = vt_height v"
  "vt_attr (set_x x v) = vt_attr v" "vt_parser (set_x x v) = vt_parser v"
  "vt_buffer (set_x x v) = vt_buffer v"
  "cur_x (vt_cursor (set_x x v)) = x" "cur_y (vt_cursor (set_x x v)) = cur_y (vt_cursor v)"
  by (simp_all add: set_x_def)

lemma set_y_simps [simp]:
  "vt_width (set_y y v) = vt_width v" "vt_height (set_y y v) = vt_height v"
  "vt_attr (set_y y v) = vt_attr v" "vt_parser (set_y y v) = vt_parser v"
  "vt_buffer (set_y y v) = vt_buffer v"
  "cur_x (vt_cursor (set_y y v)) = cur_x (vt_cursor v)" "cur_y (vt_cursor (set_y y v)) = y"
  by (simp_all add: set_y_def)

lemma set_parser_simps [simp]:
  "vt_width (set_parser p v) = vt_width v" "vt_height (set_parser p v) = vt_height v"
  "vt_attr (set_parser p v) = vt_attr v" "vt_parser (set_parser p v) = p"
  "vt_buffer (set_parser p v) = vt_buffer v" "vt_cursor (set_parser p v) = vt_cursor v"
  by (simp_all add: set_parser_def)

lemma grid_transfer [simp]:
  "vt_grid (call_paint v c x y) = vt_grid v" "vt_grid (call_move v) = vt_grid v"
  "vt_grid (set_x a v) = vt_grid v" "vt_grid (set_y a v) = vt_grid v"
  "vt_grid (set_parser p v) = vt_grid v"
  by (simp_all add: vt_grid_def)

lemma grid_pos: "vt_grid v \<Longrightarrow> 0 < vt_width v \<and> 0 < vt_height v"
  by (simp add: vt_grid_def)

lemma grid_put: "vt_grid v \<Longrightarrow> vt_grid (v\<lparr>vt_buffer := (vt_buffer v)[i := c]\<rparr>)"
  by (simp add: vt_grid_def)

lemma frame_transfer [simp]:
  "vt_frame u (call_paint v c x y) = vt_frame u v" "vt_frame u (call_move v) = vt_frame u v"
  "vt_frame u (set_x a v) = vt_frame u v" "vt_frame u (set_y a v) = vt_frame u v"
  "vt_frame u (v\<lparr>vt_buffer := b\<rparr>) = vt_frame u v"
  by (simp_all add: vt_frame_def)

text \<open>A cell inside the grid is inside the buffer.\<close>

lemma cell_in_grid:
  assumes "0 \<le> x" "x < w" "0 \<le> y" "y < (h::int)"
  shows "0 \<le> x + y * w" "x + y * w < w * h"
proof -
  from assms show "0 \<le> x + y * w" by simp
  from assms have "(y + 1) * w \<le> h * w" by (intro mult_right_mono) simp_all
  then show "x + y * w < w * h" using assms(2) by (simp add: algebra_simps)
qed

lemma row_end_in_grid:
  assumes "0 < w" "x \<le> w" "y < (h::int)"
  shows "x + y * w \<le> w * h"
proof -
  from assms have "(y + 1) * w \<le> h * w" by (intro mult_right_mono) simp_all
  then show ?thesis using assms(2) by (simp add: algebra_simps)
qed

section \<open>Clearing and scrolling keep the grid\<close>

lemma clear_runs:
  assumes "vt_grid v" "0 \<le> fx + fy * vt_width v" "tx + ty * vt_width v \<le> vt_width v * vt_height v"
  shows "runs (vtconsole_clear v fx fy tx ty)
           (\<lambda>v'. vt_grid v' \<and> vt_frame v v' \<and> vt_cursor v' = vt_cursor v)"
  unfolding vtconsole_clear_def
proof (rule for_range_keeps, goal_cases)
  case 1
  from assms show ?case by simp
next
  case (2 i s)
  from 2 assms have "0 \<le> i" "i < vt_width s * vt_height s"
    by (auto simp: vt_frame_def)
  with 2 show ?case by (simp add: wp grid_put) (simp add: vt_grid_def)
qed

lemma scroll_runs:
  assumes "vt_grid v"
  shows "runs (vtconsole_scroll v 1)
           (\<lambda>v'. vt_grid v' \<and> vt_frame v v' \<and> cur_x (vt_cursor v') = cur_x (vt_cursor v) \<and>
              cur_y (vt_cursor v') =
                (if cur_y (vt_cursor v) > 0 then cur_y (vt_cursor v) - 1 else cur_y (vt_cursor v)))"
proof -
  let ?w = "vt_width v" and ?h = "vt_height v"
  let ?I = "\<lambda>s. vt_grid s \<and> vt_frame v s \<and> vt_cursor s = vt_cursor v"
  from assms have pos: "0 < ?w" "0 < ?h" by (simp_all add: vt_grid_def)
  have copy: "runs (for_range 0 (?w * ?h - ?w * 1) (scroll_copy 1) v) ?I"
  proof (rule for_range_keeps, goal_cases)
    case 1
    from assms show ?case by simp
  next
    case (2 i s)
    then have b: "0 \<le> i" "i + vt_width s * 1 < vt_width s * vt_height s"
      by (auto simp: vt_frame_def algebra_simps)
    from 2 have g: "vt_grid s" by simp
    from g have w: "0 < vt_width s" by (simp add: vt_grid_def)
    from g b w have "i + vt_width s < int (length (vt_buffer s))" "i < int (length (vt_buffer s))"
      by (auto simp: vt_grid_def)
    with b w 2 show ?case by (simp add: scroll_copy_def wp grid_put)
  qed
  have blank: "runs (for_range (?w * ?h - ?w * 1) (?w * ?h) scroll_blank s) ?I" if "?I s" for s
  proof (rule for_range_keeps, goal_cases)
    case 1
    from that show ?case .
  next
    case (2 i s)
    have "?w * 1 \<le> ?w * ?h" using pos by (intro mult_left_mono) simp_all
    then have "0 \<le> i" using 2(1) by linarith
    with 2 show ?case by (simp add: scroll_blank_def wp grid_put) (simp add: vt_grid_def vt_frame_def)
  qed
  have "\<not> 1 > ?h" using pos by simp
  moreover have "runs (for_range 0 (?w * ?h - ?w * 1) (scroll_copy 1) v)
      (\<lambda>s. runs (for_range (?w * ?h - ?w * 1) (?w * ?h) scroll_blank s) ?I)"
    by (rule runs_mono [OF copy blank])
  ultimately show ?thesis
    by (auto simp: vtconsole_scroll_def wp Let_def elim!: runs_mono)
qed

lemma newline_runs:
  assumes "vt_grid v" "cursor_ok v"
  shows "runs (vtconsole_newline v)
           (\<lambda>v'. vt_grid v' \<and> vt_frame v v' \<and> cursor_ok v' \<and> cur_x (vt_cursor v') = 0 \<and>
              cur_y (vt_cursor v') = min (cur_y (vt_cursor v) + 1) (vt_height v - 1))"
proof -
  let ?v1 = "set_y (cur_y (vt_cursor v) + 1) (set_x 0 v)"
  from assms have g: "vt_grid ?v1" and c: "0 \<le> cur_y (vt_cursor v)" "0 < vt_width v" "cur_y (vt_cursor v) < vt_height v"
    by (simp_all add: cursor_ok_def vt_grid_def)
  from scroll_runs [OF g] c assms(1) show ?thesis
    by (auto simp: vtconsole_newline_def Let_def wp cursor_ok_def vt_frame_def elim!: runs_mono)
qed

section \<open>Appending keeps the invariant\<close>

lemma append_glyph_runs:
  assumes "vt_grid v" "cursor_ok v"
  shows "runs (append_glyph v c)
           (\<lambda>v'. vt_grid v' \<and> vt_frame v v' \<and> cursor_ok v' \<and> 0 < cur_x (vt_cursor v'))"
proof -
  have store: "runs (do {
      buf \<leftarrow> wr (vt_buffer v1) (cur_x (vt_cursor v1) + cur_y (vt_cursor v1) * vt_width v1)
        \<lparr>cell_c = c, cell_attr = vt_attr v1\<rparr>;
      Some (call_move (set_x (cur_x (vt_cursor v1) + 1)
        (call_paint (v1\<lparr>vt_buffer := buf\<rparr>) \<lparr>cell_c = c, cell_attr = vt_attr v1\<rparr>
           (cur_x (vt_cursor v1)) (cur_y (vt_cursor v1))))) })
      (\<lambda>v'. vt_grid v' \<and> vt_frame v v' \<and> cursor_ok v' \<and> 0 < cur_x (vt_cursor v'))"
    if "vt_grid v1" "vt_frame v v1" "cursor_ok v1" "cur_x (vt_cursor v1) < vt_width v1" for v1
  proof -
    from that have "0 \<le> cur_x (vt_cursor v1) + cur_y (vt_cursor v1) * vt_width v1"
      "cur_x (vt_cursor v1) + cur_y (vt_cursor v1) * vt_width v1 < vt_width v1 * vt_height v1"
      using cell_in_grid [of "cur_x (vt_cursor v1)" "vt_width v1" "cur_y (vt_cursor v1)" "vt_height v1"]
      by (simp_all add: cursor_ok_def)
    moreover from that have "int (length (vt_buffer v1)) = vt_width v1 * vt_height v1"
      by (simp add: vt_grid_def)
    ultimately show ?thesis using that by (simp add: wp grid_put) (simp add: cursor_ok_def)
  qed
  show ?thesis
  proof (cases "cur_x (vt_cursor v) \<ge> vt_width v")
    case True
    from newline_runs [OF assms] have "runs (vtconsole_newline v)
        (\<lambda>v1. vt_grid v1 \<and> vt_frame v v1 \<and> cursor_ok v1 \<and> cur_x (vt_cursor v1) < vt_width v1)"
      by (rule runs_mono) (auto simp: vt_grid_def)
    then show ?thesis using True
      by (auto simp: append_glyph_def Let_def runs_bind [of "vtconsole_newline v"] intro: store elim!: runs_mono)
  next
    case False
    with assms show ?thesis using store [of v] by (simp add: append_glyph_def Let_def)
  qed
qed

lemma append_runs:
  assumes "vt_grid v" "cursor_ok v"
    and "c = BS \<Longrightarrow> 0 < cur_x (vt_cursor v) \<or> 0 < cur_y (vt_cursor v)"
  shows "runs (vtconsole_append v c) (\<lambda>v'. vt_grid v' \<and> vt_frame v v' \<and> cursor_ok v')"
proof -
  have glyph: "runs (append_glyph s d) (\<lambda>v'. vt_grid v' \<and> vt_frame v v' \<and> cursor_ok v')"
    if "vt_grid s \<and> vt_frame v s \<and> cursor_ok s" for s d
    using append_glyph_runs [of s d] that by (auto elim!: runs_mono intro: vt_frame_trans)
  have tab: "runs (for_range 0 n (\<lambda>_ s. append_glyph s (CHR '' '')) v)
      (\<lambda>v'. vt_grid v' \<and> vt_frame v v' \<and> cursor_ok v')" for n
    by (rule for_range_keeps) (use assms in \<open>auto intro: glyph\<close>)
  have nl: "runs (vtconsole_newline v) (\<lambda>v'. vt_grid v' \<and> vt_frame v v' \<and> cursor_ok v')"
    by (rule runs_mono [OF newline_runs [OF assms(1,2)]]) simp
  show ?thesis
    using glyph [of v c] tab nl assms
    by (auto simp: vtconsole_append_def cursor_ok_def vt_grid_def)
qed

section \<open>Control sequences\<close>

lemma cup_runs:
  assumes "vt_grid v" "cursor_ok v" "length st = 8"
  shows "runs (vtconsole_csi_cup v st n) (\<lambda>v'. vt_grid v' \<and> vt_frame v v' \<and>
     (cursor_ok v' \<longleftrightarrow> \<not> (n = 2 \<and> \<not> arg_empty (st ! 1) \<and>
        (arg_value (st ! 1) < 1 \<or> \<not> arg_empty (st ! 0) \<and> arg_value (st ! 0) < 1))))"
  using assms grid_pos [OF assms(1)]
  by (simp add: vtconsole_csi_cup_def wp cursor_ok_def Let_def) linarith

lemma ed_runs:
  assumes "vt_grid v" "cursor_ok v" "length st = 8"
  shows "runs (vtconsole_csi_ed v st n) (\<lambda>v'. vt_grid v' \<and> vt_frame v v' \<and> vt_cursor v' = vt_cursor v)"
proof -
  let ?x = "cur_x (vt_cursor v)" and ?y = "cur_y (vt_cursor v)"
  from assms have b: "0 \<le> ?x + ?y * vt_width v" "?x + ?y * vt_width v \<le> vt_width v * vt_height v"
    using row_end_in_grid [of "vt_width v" ?x ?y "vt_height v"] by (auto simp: cursor_ok_def vt_grid_def)
  have whole: "vt_width v + (vt_height v - 1) * vt_width v \<le> vt_width v * vt_height v"
    by (simp add: algebra_simps)
  from clear_runs [OF assms(1) b(1) whole] clear_runs [OF assms(1), of 0 0 ?x ?y] b(2)
    clear_runs [OF assms(1), of 0 0 "vt_width v" "vt_height v - 1"] whole assms
  show ?thesis by (auto simp: vtconsole_csi_ed_def wp Let_def)
qed

lemma el_runs:
  assumes "vt_grid v" "cursor_ok v" "length st = 8"
  shows "runs (vtconsole_csi_el v st n) (\<lambda>v'. vt_grid v' \<and> vt_frame v v' \<and> vt_cursor v' = vt_cursor v)"
proof -
  let ?x = "cur_x (vt_cursor v)" and ?y = "cur_y (vt_cursor v)"
  from assms have b: "0 \<le> ?x + ?y * vt_width v" "?x + ?y * vt_width v \<le> vt_width v * vt_height v"
      "0 \<le> ?y * vt_width v" "vt_width v + ?y * vt_width v \<le> vt_width v * vt_height v"
    using row_end_in_grid [of "vt_width v" ?x ?y "vt_height v"]
      row_end_in_grid [of "vt_width v" "vt_width v" ?y "vt_height v"]
    by (auto simp: cursor_ok_def vt_grid_def)
  from clear_runs [OF assms(1) b(1) b(4)] clear_runs [OF assms(1), of 0 ?y ?x ?y]
    clear_runs [OF assms(1), of 0 ?y "vt_width v" ?y] b assms
  show ?thesis by (auto simp: vtconsole_csi_el_def wp Let_def)
qed

lemma sgr_runs:
  assumes "n \<le> int (length st)"
  shows "runs (vtconsole_csi_sgr v st n) (\<lambda>v'. \<exists>a. v' = v\<lparr>vt_attr := a\<rparr>)"
  unfolding vtconsole_csi_sgr_def
proof (rule for_range_keeps, goal_cases)
  case 1
  show ?case by (rule exI [of _ "vt_attr v"]) simp
next
  case (2 i s)
  with assms show ?case by (auto simp: wp)
qed

section \<open>When a byte is safe\<close>

definition vt_safe :: "vtconsole \<Rightarrow> char \<Rightarrow> bool" where
  "vt_safe v c =
     (let p = vt_parser v; st = vp_stack p in
      case vp_state p of
        VTSTATE_ESC \<Rightarrow> c \<noteq> BS \<or> 0 < cur_x (vt_cursor v) \<or> 0 < cur_y (vt_cursor v)
      | VTSTATE_BRACKET \<Rightarrow> c \<noteq> BS \<or> 0 < cur_x (vt_cursor v) \<or> 0 < cur_y (vt_cursor v)
      | VTSTATE_ATTR \<Rightarrow>
          (if is_digit c then int_ok (arg_value (st ! nat (vp_index p)) * 10 + (code c - 48))
           else vp_index p < 7 \<and>
             \<not> (c = CHR ''H'' \<and> vp_index p = 1 \<and> \<not> arg_empty (st ! 1) \<and>
                (arg_value (st ! 1) < 1 \<or> \<not> arg_empty (st ! 0) \<and> arg_value (st ! 0) < 1)))
      | VTSTATE_ENDVAL \<Rightarrow> False)"

text \<open>A byte handed to \<open>vtconsole_append\<close> by the parser.\<close>

lemma append_exact:
  assumes "vt_grid v" "cursor_ok v" "parser_ok (vt_parser v)" "vp_state (vt_parser v) = VTSTATE_ESC"
  shows "runs (vtconsole_append v c)
      (\<lambda>v'. vp_state (vt_parser v') = VTSTATE_ESC \<and>
         (vt_inv v' \<longleftrightarrow> c \<noteq> BS \<or> 0 < cur_x (vt_cursor v) \<or> 0 < cur_y (vt_cursor v)))"
proof (cases "c \<noteq> BS \<or> 0 < cur_x (vt_cursor v) \<or> 0 < cur_y (vt_cursor v)")
  case True
  from append_runs [OF assms(1,2)] True have "runs (vtconsole_append v c)
      (\<lambda>v'. vt_grid v' \<and> vt_frame v v' \<and> cursor_ok v')" by blast
  then show ?thesis using True assms(3,4)
    by (auto simp: vt_inv_def vt_frame_def elim!: runs_mono)
next
  case False
  with assms show ?thesis
    by (auto simp: vtconsole_append_def vt_inv_def cursor_ok_def vt_grid_def)
qed

lemma process_endval_exact:
  assumes "vt_grid v" "cursor_ok v" "parser_ok (vt_parser v)"
  defines "st \<equiv> vp_stack (vt_parser v)" and "n \<equiv> vp_index (vt_parser v)"
  shows "runs (process_endval v c) vt_inv \<longleftrightarrow>
     \<not> (c = CHR ''H'' \<and> n = 2 \<and> \<not> arg_empty (st ! 1) \<and>
        (arg_value (st ! 1) < 1 \<or> \<not> arg_empty (st ! 0) \<and> arg_value (st ! 0) < 1))"
    (is "_ \<longleftrightarrow> ?ok")
proof -
  have len: "length st = 8" and idx: "n \<le> int (length st)"
    using assms(3) by (simp_all add: st_def n_def parser_ok_def)
  have inv: "vt_inv (set_parser ((vt_parser v')\<lparr>vp_state := s\<rparr>) v') \<longleftrightarrow> cursor_ok v'"
    if "vt_grid v'" "vt_frame v v'" "s \<noteq> VTSTATE_ENDVAL" for v' s
    using that assms(3) by (auto simp: vt_inv_def parser_ok_def cursor_ok_def vt_frame_def)
  have fin: "runs (do { v1 \<leftarrow> m; Some (set_parser ((vt_parser v1)\<lparr>vp_state := VTSTATE_ESC\<rparr>) v1) }) vt_inv \<longleftrightarrow> b"
    if m: "runs m (\<lambda>v'. vt_grid v' \<and> vt_frame v v' \<and> (cursor_ok v' \<longleftrightarrow> b))" for m b
    using that by (auto simp: runs_iff inv)
  have same: "cursor_ok v'" if "vt_cursor v' = vt_cursor v" "vt_frame v v'" for v'
    using that assms(2) by (simp add: cursor_ok_def vt_frame_def)
  consider "c = CHR '';''" | "c = CHR ''H''" | "c = CHR ''J''" | "c = CHR ''K''" | "c = CHR ''m''"
    | "c \<notin> set '';HJKm''" by auto
  then show ?thesis
  proof cases
    case 1
    then show ?thesis using inv [of v VTSTATE_ATTR] assms(1,2) by (simp add: process_endval_def Let_def)
  next
    case 2
    with fin [OF cup_runs [OF assms(1,2) len, of n]] show ?thesis
      by (simp add: process_endval_def Let_def st_def n_def)
  next
    case 3
    from fin [where b = True] ed_runs [OF assms(1,2) len, of n] same 3 show ?thesis
      by (simp add: process_endval_def Let_def st_def n_def) (blast intro: runs_mono)
  next
    case 4
    from fin [where b = True] el_runs [OF assms(1,2) len, of n] same 4 show ?thesis
      by (simp add: process_endval_def Let_def st_def n_def) (blast intro: runs_mono)
  next
    case 5
    have "runs (vtconsole_csi_sgr v st n) (\<lambda>v'. vt_grid v' \<and> vt_parser v' = vt_parser v \<and> cursor_ok v')"
      using sgr_runs [OF idx, of v] by (rule runs_mono) (use assms in \<open>auto simp: vt_grid_def cursor_ok_def\<close>)
    then have "runs (do { v1 \<leftarrow> vtconsole_csi_sgr v st n;
        Some (set_parser ((vt_parser v1)\<lparr>vp_state := VTSTATE_ESC\<rparr>) v1) }) vt_inv"
      unfolding runs_bind by (rule runs_mono)
        (use assms(3) in \<open>auto simp: vt_inv_def parser_ok_def cursor_ok_def\<close>)
    with 5 show ?thesis by (simp add: process_endval_def Let_def st_def n_def)
  next
    case 6
    with inv [of v VTSTATE_ESC] assms(1,2) show ?thesis by (auto simp: process_endval_def Let_def)
  qed
qed

text \<open>A digit is accepted unless the value overflows; then the behaviour is undefined.\<close>

lemma push_digit_exact:
  assumes "parser_ok p" "is_digit c"
  defines "v \<equiv> arg_value (vp_stack p ! nat (vp_index p)) * 10 + (code c - 48)"
  shows "if int_ok v then runs (push_digit p c) (\<lambda>p'. parser_ok p' \<and> vp_state p' = vp_state p)
     else push_digit p c = None"
proof -
  let ?a = "vp_stack p ! nat (vp_index p)"
  from assms(1) have b: "0 \<le> arg_value ?a" "length (vp_stack p) = 8" "0 \<le> vp_index p" "vp_index p < 8"
    "args_ok (vp_stack p)"
    using args_ok_nth [of "vp_stack p" "nat (vp_index p)"] by (auto simp: parser_ok_def)
  have d: "0 \<le> code c - 48" "code c - 48 \<le> 9" using digit_value [OF assms(2)] by simp_all
  show ?thesis
  proof (cases "int_ok v")
    case True
    with b(1) d have "int_ok (arg_value ?a * 10)" "0 \<le> v" by (auto simp: int_ok_def v_def)
    with b True show ?thesis
      by (simp add: push_digit_def wp parser_ok_def v_def args_ok_update)
  next
    case False
    then show ?thesis by (simp add: push_digit_def rd_def c_int_def v_def)
  qed
qed

lemma push_empty_runs:
  assumes "parser_ok p" "0 \<le> i" "i < 8"
  shows "runs (push_empty_arg (p\<lparr>vp_index := i\<rparr>))
    (\<lambda>p'. parser_ok p' \<and> vp_index p' = i \<and> vp_state p' = vp_state p \<and>
       (\<forall>k. k \<noteq> nat i \<longrightarrow> vp_stack p' ! k = vp_stack p ! k) \<and>
       vp_stack p' ! nat i = \<lparr>arg_value = 0, arg_empty = True\<rparr>)"
  using assms by (simp add: push_empty_arg_def wp parser_ok_def args_ok_update int_ok_def)

lemma push_empty_8: "parser_ok p \<Longrightarrow> push_empty_arg (p\<lparr>vp_index := 8\<rparr>) = None"
  unfolding push_empty_arg_def wr_def parser_ok_def by simp

text \<open>The bytes that the parser handles are exactly those.\<close>

lemma process_exact:
  assumes "vt_inv v"
  shows "runs (vtconsole_process v c) vt_inv \<longleftrightarrow> vt_safe v c"
proof -
  let ?p = "vt_parser v" and ?x = "cur_x (vt_cursor v)" and ?y = "cur_y (vt_cursor v)"
  from assms have g: "vt_grid v" and c: "cursor_ok v" and p: "parser_ok ?p"
    and ne: "vp_state ?p \<noteq> VTSTATE_ENDVAL" by (simp_all add: vt_inv_def)
  have app: "runs (do { v' \<leftarrow> vtconsole_append (set_parser (?p\<lparr>vp_state := VTSTATE_ESC\<rparr>) v) c;
        (if vp_state (vt_parser v') = VTSTATE_ENDVAL then process_endval v' c else Some v') }) vt_inv \<longleftrightarrow>
      c \<noteq> BS \<or> 0 < ?x \<or> 0 < ?y"
    using append_exact [of "set_parser (?p\<lparr>vp_state := VTSTATE_ESC\<rparr>) v" c] g c p
    by (auto simp: runs_iff parser_ok_def cursor_ok_def)
  consider (esc) "vp_state ?p = VTSTATE_ESC" | (bracket) "vp_state ?p = VTSTATE_BRACKET"
    | (attr) "vp_state ?p = VTSTATE_ATTR" using ne by (cases "vp_state ?p") auto
  then show ?thesis
  proof cases
    case esc
    then show ?thesis
      using app push_empty_runs [of "?p\<lparr>vp_state := VTSTATE_BRACKET\<rparr>" 0] g c p
      by (auto simp: vtconsole_process_def process_state_def vt_safe_def Let_def runs_iff vt_inv_def
          parser_ok_def cursor_ok_def)
  next
    case bracket
    then show ?thesis using app g c p
      by (auto simp: vtconsole_process_def process_state_def vt_safe_def Let_def vt_inv_def
          parser_ok_def cursor_ok_def)
  next
    case attr
    show ?thesis
    proof (cases "is_digit c")
      case True
      then show ?thesis
        using attr push_digit_exact [OF p True] g c
        by (auto simp: vtconsole_process_def process_state_def vt_safe_def Let_def runs_iff vt_inv_def
            cursor_ok_def split: if_splits)
    next
      case False
      let ?i = "vp_index ?p + 1"
      have i: "0 \<le> vp_index ?p" "vp_index ?p < 8" using p by (simp_all add: parser_ok_def)
      show ?thesis
      proof (cases "vp_index ?p < 7")
        case True
        from push_empty_runs [OF p, of ?i] True i obtain p2 where
          p2: "push_empty_arg (?p\<lparr>vp_index := ?i\<rparr>) = Some p2" "parser_ok p2" "vp_index p2 = ?i"
            "\<And>k. k \<noteq> nat ?i \<Longrightarrow> vp_stack p2 ! k = vp_stack ?p ! k"
          by (auto simp: runs_iff)
        let ?v2 = "set_parser (p2\<lparr>vp_state := VTSTATE_ENDVAL\<rparr>) v"
        have "vtconsole_process v c = process_endval ?v2 c"
          using attr False True i p2(1)
          by (simp add: vtconsole_process_def process_state_def Let_def VTC_ANSI_PARSER_STACK_SIZE_def)
        moreover have "parser_ok (p2\<lparr>vp_state := VTSTATE_ENDVAL\<rparr>)"
          using p2(2) by (simp add: parser_ok_def)
        ultimately show ?thesis
          using process_endval_exact [of ?v2 c] g c p2(3,4) attr False True
          by (simp add: vt_safe_def Let_def cursor_ok_def)
      next
        case False
        with i have "vp_index ?p = 7" by simp
        with attr \<open>\<not> is_digit c\<close> push_empty_8 [OF p] show ?thesis
          by (simp add: vtconsole_process_def process_state_def vt_safe_def Let_def VTC_ANSI_PARSER_STACK_SIZE_def)
      qed
    qed
  qed
qed

text \<open>
  C15. The parser and the screen operations of the console are memory safe and keep the
  invariant on exactly the bytes that \<open>vt_safe\<close> accepts: the other bytes (a backspace
  at the origin, an argument that overflows, an eighth argument, a cursor position with a
  zero) overrun an array, overflow or leave the cursor outside the grid.
\<close>

theorem vtconsole_process_exact:
  assumes "vt_inv v"
  shows "runs (vtconsole_process v c) vt_inv \<longleftrightarrow> vt_safe v c"
  using assms by (rule process_exact)

text \<open>A console of three columns and two rows, as its constructor leaves it.\<close>

definition small_console :: vtconsole where
  "small_console =
     \<lparr>vt_width = 3, vt_height = 2, vt_attr = VTC_DEFAULT_ATTR,
      vt_parser = \<lparr>vp_state = VTSTATE_ESC,
        vp_stack = replicate 8 \<lparr>arg_value = 0, arg_empty = False\<rparr>, vp_index = 0\<rparr>,
      vt_buffer = replicate 6 blank_cell, vt_cursor = \<lparr>cur_x = 0, cur_y = 0\<rparr>,
      vt_on_paint = True, vt_on_move = True, vt_log = []\<rparr>"

lemma small_console_inv: "vt_inv small_console"
  by (simp add: small_console_def vt_inv_def vt_grid_def parser_ok_def args_ok_def cursor_ok_def int_ok_def)

theorem vtconsole_process_exact_witness:
  "runs (vtconsole_process small_console (CHR ''A'')) vt_inv \<and> \<not> runs (vtconsole_process small_console BS) vt_inv"
  unfolding vtconsole_process_exact [OF small_console_inv]
  by (simp add: vt_safe_def small_console_def)

end
