(* ===== verification/Vtconsole_Screen.thy ===== *)
theory Vtconsole_Screen
  imports Vtconsole
begin

text \<open>
  What the console shows: the exact effect of clearing, scrolling and writing on the grid of
  cells, stated over the whole buffer, and the behaviour of the byte strings the boot menu
  prints (plain text, the cursor-home sequence, colour changes).
\<close>

section \<open>Clearing and scrolling\<close>

lemma clear_effect:
  assumes "vt_grid v" "0 \<le> fx + fy * vt_width v" "tx + ty * vt_width v \<le> vt_width v * vt_height v"
  shows "runs (vtconsole_clear v fx fy tx ty)
    (\<lambda>v'. vt_buffer v' = fill_cells (fx + fy * vt_width v) (tx + ty * vt_width v) blank_cell (vt_buffer v))"
proof (cases "fx + fy * vt_width v \<le> tx + ty * vt_width v")
  case False
  then show ?thesis by (simp add: vtconsole_clear_def fill_cells_def)
next
  case True
  let ?lo = "fx + fy * vt_width v" and ?b = "vt_buffer v"
  have "runs (vtconsole_clear v fx fy tx ty)
      (\<lambda>s. vt_width s = vt_width v \<and> vt_buffer s = fill_cells ?lo (tx + ty * vt_width v) blank_cell ?b)"
    unfolding vtconsole_clear_def
  proof (rule for_range_inv [where I = "\<lambda>i s. vt_width s = vt_width v \<and> vt_buffer s = fill_cells ?lo i blank_cell ?b"], goal_cases)
    case 1
    from True show ?case .
  next
    case 2
    show ?case by (simp add: fill_cells_def)
  next
    case (3 i s)
    from 3 assms have "i < int (length ?b)" "0 \<le> i" by (auto simp: vt_grid_def)
    with 3 assms fill_cells_step [of ?lo i ?b blank_cell] show ?case by (simp add: wp)
  qed
  then show ?thesis by (rule runs_mono) simp
qed

text \<open>
  Scrolling by a line moves every row up by one, drops the first row and leaves a blank
  last row, whatever the callbacks record.
\<close>

theorem vtconsole_scroll_effect:
  assumes "vt_grid v"
  shows "runs (vtconsole_scroll v 1)
    (\<lambda>v'. vt_buffer v' = drop (nat (vt_width v)) (vt_buffer v) @ replicate (nat (vt_width v)) blank_cell)"
proof -
  let ?w = "vt_width v" and ?h = "vt_height v" and ?b = "vt_buffer v"
  define m where "m = ?w * ?h - ?w"
  from assms have pos: "0 < ?w" "0 < ?h" and len: "int (length ?b) = ?w * ?h"
    by (simp_all add: vt_grid_def)
  have m: "0 \<le> m" unfolding m_def using mult_left_mono [of 1 ?h ?w] pos by simp
  let ?B = "\<lambda>i. take (nat i) (drop (nat ?w) ?b) @ drop (nat i) ?b"
  have copy: "runs (for_range 0 m (scroll_copy 1) v) (\<lambda>s. vt_width s = ?w \<and> vt_buffer s = ?B m)"
  proof (rule for_range_inv [where I = "\<lambda>i s. vt_width s = ?w \<and> vt_buffer s = ?B i"], goal_cases)
    case 1
    from m show ?case .
  next
    case 2
    show ?case by simp
  next
    case (3 i s)
    then have i: "nat i + nat ?w < length ?b" "nat (i + 1) = Suc (nat i)" "nat (i + ?w) = nat i + nat ?w"
      using len pos by (auto simp: nat_add_distrib m_def)
    have lenB: "length (?B i) = length ?b" using i(1) by simp
    have "i + ?w < int (length ?b)" "i < int (length ?b)" using 3 len pos by (auto simp: m_def)
    moreover have "?B i ! (nat i + nat ?w) = ?b ! (nat i + nat ?w)"
      using i(1) by (simp add: nth_append min_absorb2)
    ultimately show ?case using 3 i pos lenB shift_step [OF i(1)]
      by (simp add: scroll_copy_def wp del: length_append)
  qed
  have "nat m + nat ?w = nat (m + ?w)"
    by (rule nat_add_distrib [OF m, symmetric]) (use pos in simp)
  then have m': "nat m + nat ?w = length ?b" using len by (simp add: m_def)
  have full: "?B m = drop (nat ?w) ?b @ drop (nat m) ?b" using m' by simp
  have blank: "runs (for_range m (?w * ?h) scroll_blank s)
      (\<lambda>t. vt_buffer t = fill_cells m (?w * ?h) blank_cell (vt_buffer s))"
    if "vt_width s = ?w" "length (vt_buffer s) = length ?b" for s
  proof (rule for_range_inv [where I = "\<lambda>i t. vt_buffer t = fill_cells m i blank_cell (vt_buffer s)"], goal_cases)
    case 1
    from pos show ?case by (simp add: m_def)
  next
    case 2
    show ?case by (simp add: fill_cells_def)
  next
    case (3 i t)
    then have "i < int (length (vt_buffer s))" "0 \<le> i" using that len m by auto
    with 3 that m fill_cells_step [of m i "vt_buffer s" blank_cell] show ?case
      by (simp add: scroll_blank_def wp)
  qed
  have last: "fill_cells m (?w * ?h) blank_cell (?B m) = drop (nat ?w) ?b @ replicate (nat ?w) blank_cell"
  proof -
    have "m < ?w * ?h" "?w * ?h - m = ?w" using pos by (simp_all add: m_def)
    with full m' len show ?thesis by (simp add: fill_cells_def)
  qed
  have "runs (for_range 0 m (scroll_copy 1) v) (\<lambda>s. runs (for_range m (?w * ?h) scroll_blank s)
      (\<lambda>t. vt_buffer t = drop (nat ?w) ?b @ replicate (nat ?w) blank_cell))"
  proof (rule runs_mono [OF copy])
    fix s :: vtconsole assume s: "vt_width s = ?w \<and> vt_buffer s = ?B m"
    moreover have "length (?B m) = length ?b" using m' by simp
    ultimately show "runs (for_range m (?w * ?h) scroll_blank s)
        (\<lambda>t. vt_buffer t = drop (nat ?w) ?b @ replicate (nat ?w) blank_cell)"
      using blank [of s] last by simp
  qed
  with pos show ?thesis by (auto simp: vtconsole_scroll_def wp Let_def m_def elim!: runs_mono)
qed

theorem vtconsole_scroll_effect_witness:
  "runs (vtconsole_scroll small_console 1)
    (\<lambda>v'. vt_buffer v' = drop (nat (vt_width small_console)) (vt_buffer small_console)
       @ replicate (nat (vt_width small_console)) blank_cell)"
  by (rule vtconsole_scroll_effect) (use small_console_inv in \<open>simp add: vt_inv_def\<close>)

section \<open>A new console\<close>

lemma new_blank:
  assumes "0 < w" "0 < h" "int (length garbage) = w * h"
  shows "runs (vtconsole_new garbage w h p m)
    (\<lambda>v. vt_inv v \<and> vt_buffer v = replicate (nat (w * h)) blank_cell \<and> vt_width v = w \<and> vt_height v = h \<and>
         cur_x (vt_cursor v) = 0 \<and> cur_y (vt_cursor v) = 0 \<and> vp_state (vt_parser v) = VTSTATE_ESC)"
proof -
  let ?v = "\<lparr>vt_width = w, vt_height = h, vt_attr = VTC_DEFAULT_ATTR,
        vt_parser = \<lparr>vp_state = VTSTATE_ESC,
          vp_stack = replicate 8 \<lparr>arg_value = 0, arg_empty = False\<rparr>, vp_index = 0\<rparr>,
        vt_buffer = garbage, vt_cursor = \<lparr>cur_x = 0, cur_y = 0\<rparr>,
        vt_on_paint = p, vt_on_move = m, vt_log = []\<rparr>"
  from assms have g: "vt_grid ?v" by (simp add: vt_grid_def)
  have whole: "w + (h - 1) * w = w * h" by (simp add: algebra_simps)
  have "0 < w * h" using assms by simp
  then have all: "fill_cells 0 (w + (h - 1) * w) blank_cell garbage = replicate (nat (w * h)) blank_cell"
    using assms unfolding whole by (simp add: fill_cells_def)
  have po: "parser_ok (vt_parser ?v)" by (simp add: parser_ok_def args_ok_def int_ok_def)
  have "runs (vtconsole_clear ?v 0 0 w (h - 1))
     (\<lambda>v. (vt_grid v \<and> vt_frame ?v v \<and> vt_cursor v = vt_cursor ?v) \<and>
        vt_buffer v = fill_cells (0 + 0 * vt_width ?v) (w + (h - 1) * vt_width ?v) blank_cell (vt_buffer ?v))"
    using g whole by (intro runs_conj clear_runs clear_effect) simp_all
  then show ?thesis unfolding vtconsole_new_def
    by (rule runs_mono) (use po all assms in \<open>auto simp: vt_inv_def vt_frame_def cursor_ok_def\<close>)
qed

text \<open>
  A console over a buffer of the right size starts with every cell blank, whatever the
  allocation left there, with the cursor at the origin and the invariant established.
\<close>

theorem vtconsole_new_blank:
  assumes "0 < w" "0 < h" "int (length garbage) = w * h"
  shows "runs (vtconsole_new garbage w h p m)
    (\<lambda>v. vt_inv v \<and> vt_buffer v = replicate (nat (w * h)) blank_cell \<and> vt_width v = w \<and> vt_height v = h \<and>
         cur_x (vt_cursor v) = 0 \<and> cur_y (vt_cursor v) = 0)"
  by (rule runs_mono [OF new_blank [OF assms]]) simp

theorem vtconsole_new_blank_witness:
  "runs (vtconsole_new (replicate 6 \<lparr>cell_c = CHR ''x'', cell_attr = VTC_DEFAULT_ATTR\<rparr>) 3 2 True True)
    (\<lambda>v. vt_inv v \<and> vt_buffer v = replicate (nat (3 * 2)) blank_cell \<and> vt_width v = 3 \<and> vt_height v = 2 \<and>
         cur_x (vt_cursor v) = 0 \<and> cur_y (vt_cursor v) = 0)"
  by (rule vtconsole_new_blank) simp_all

section \<open>Writing\<close>

lemma write_append:
  "vtconsole_write v (cs @ ds) = do { v' \<leftarrow> vtconsole_write v cs; vtconsole_write v' ds }"
  by (induction cs arbitrary: v) (simp_all split: Option.bind_splits)

text \<open>Text: what the console stores in cells, and the line feed.\<close>

definition plain_char :: "char \<Rightarrow> bool" where
  "plain_char c \<longleftrightarrow> c \<noteq> ESC \<and> c \<noteq> BS"

definition glyph_char :: "char \<Rightarrow> bool" where
  "glyph_char c \<longleftrightarrow> c \<notin> {ESC, BS, LF, CR, TAB}"

definition vt_idle :: "vtconsole \<Rightarrow> bool" where
  "vt_idle v \<longleftrightarrow> vt_inv v \<and> vp_state (vt_parser v) = VTSTATE_ESC"

lemma process_plain:
  assumes "vt_idle v" "plain_char c"
  shows "runs (vtconsole_process v c) (\<lambda>v'. vt_idle v' \<and> vt_frame v v')"
proof -
  let ?v = "set_parser ((vt_parser v)\<lparr>vp_state := VTSTATE_ESC\<rparr>) v"
  from assms have same: "?v = v" by (simp add: vt_idle_def set_parser_def)
  from assms have "runs (vtconsole_append v c) (\<lambda>v'. vt_grid v' \<and> vt_frame v v' \<and> cursor_ok v')"
    by (intro append_runs) (auto simp: vt_idle_def vt_inv_def plain_char_def)
  with assms same show ?thesis
    by (auto simp: vtconsole_process_def process_state_def Let_def plain_char_def vt_idle_def vt_inv_def
        wp vt_frame_def elim!: runs_mono)
qed

lemma vtconsole_write_plain:
  assumes "vt_idle v" "\<forall>c \<in> set cs. plain_char c"
  shows "runs (vtconsole_write v cs) (\<lambda>v'. vt_idle v' \<and> vt_frame v v')"
  using assms
proof (induction cs arbitrary: v)
  case Nil
  then show ?case by simp
next
  case (Cons c cs)
  from process_plain [OF Cons.prems(1), of c] Cons.prems(2) obtain v1 where
    v1: "vtconsole_process v c = Some v1" "vt_idle v1" "vt_frame v v1" by (auto simp: runs_iff)
  from Cons.IH [OF v1(2)] Cons.prems(2) have "runs (vtconsole_write v1 cs) (\<lambda>v'. vt_idle v' \<and> vt_frame v1 v')"
    by simp
  with v1 show ?case by (auto elim!: runs_mono intro: vt_frame_trans)
qed

text \<open>
  C16. Text without escape and backspace bytes is always written without undefined behaviour:
  the console stays within its buffer across wraps and scrolls of any number, keeps the
  invariant, and changes neither the attributes nor the parser.
\<close>

theorem vtconsole_write_text:
  assumes "vt_idle v" "\<forall>c \<in> set cs. plain_char c"
  shows "runs (vtconsole_write v cs) (\<lambda>v'. vt_idle v' \<and> vt_frame v v')"
  using assms by (rule vtconsole_write_plain)

theorem vtconsole_write_text_witness:
  "runs (vtconsole_write small_console ''lbml3rd boot'') (\<lambda>v'. vt_idle v' \<and> vt_frame small_console v')"
  by (rule vtconsole_write_text)
    (use small_console_inv in \<open>simp_all add: vt_idle_def plain_char_def small_console_def\<close>)

end
