(* ===== verification/Jurt.thy ===== *)
theory Jurt
  imports Prelude
begin

text \<open>
  jurt.c: the growing array \<open>DynamicArray\<close>, at the level of its bytes, the assertion
  helpers, the split of a delay into seconds and nanoseconds, and the bookkeeping of the
  thread pool.

  A block of the heap is a list of bytes, \<^term>\<open>None\<close> for a byte that was never written.
  Whether an allocation succeeds is a parameter of the operation that makes it; a request of
  negative size always fails, since it converts to a huge \<open>size_t\<close>. The interface that the
  callers of the array use is the locale \<open>growing_array\<close>, interpreted on the operations of
  the code for 32-bit items.
\<close>

section \<open>Blocks of memory\<close>

type_synonym mem = "8 word option list"

definition c_malloc :: "bool \<Rightarrow> int \<Rightarrow> mem option" where
  "c_malloc ok n = (if ok \<and> 0 \<le> n then Some (replicate (nat n) None) else None)"

definition c_realloc :: "bool \<Rightarrow> mem \<Rightarrow> int \<Rightarrow> mem option" where
  "c_realloc ok m n =
     (if ok \<and> 0 \<le> n then Some (take (nat n) m @ replicate (nat n - length m) None) else None)"

section \<open>The growing array\<close>

record DynamicArray =
  da_array :: "mem option"
  da_len :: int
  da_item_size :: int
  da_chunk_size :: int
  da_alloc_size :: int

definition D_ARRAY_CHUNK_SIZE :: int where
  "D_ARRAY_CHUNK_SIZE = 16"

definition DA_isInvalidArray :: "DynamicArray \<Rightarrow> bool" where
  "DA_isInvalidArray da \<longleftrightarrow> da_array da = None"

text \<open>
  The inner \<^term>\<open>None\<close> is the null pointer that reports a failed allocation. The second
  allocation, of the header, is not checked by the code.
\<close>

definition DA_create :: "bool \<Rightarrow> bool \<Rightarrow> int \<Rightarrow> DynamicArray option option" where
  "DA_create ok1 ok2 size_per_item = do {
     act_chunksiz \<leftarrow> c_int (size_per_item * D_ARRAY_CHUNK_SIZE);
     (case c_malloc ok1 act_chunksiz of
        None \<Rightarrow> Some None
      | Some array \<Rightarrow>
          if ok2 then Some (Some \<lparr>da_array = Some array, da_len = 0, da_item_size = size_per_item,
            da_chunk_size = act_chunksiz, da_alloc_size = act_chunksiz\<rparr>)
          else None) }"

text \<open>The address returned by \<open>DA_get\<close>, as an offset into the block; \<open>Some None\<close> is NULL.\<close>

definition DA_get :: "DynamicArray \<Rightarrow> int \<Rightarrow> int option option" where
  "DA_get da index =
     (if da_array da = None then Some None
      else if index \<ge> da_len da then Some None
      else if index < 0 then Some None
      else map_option Some (c_int (index * da_item_size da)))"

text \<open>Reading initialised bytes.\<close>

definition load_bytes :: "mem \<Rightarrow> int \<Rightarrow> int \<Rightarrow> 8 word list option" where
  "load_bytes m off n = do {
     bs \<leftarrow> mem_get m off n;
     (if None \<in> set bs then None else Some (map the bs)) }"

definition DA_get_int :: "DynamicArray \<Rightarrow> int \<Rightarrow> 32 word option" where
  "DA_get_int da index = do {
     r \<leftarrow> DA_get da index;
     (case r of
        None \<Rightarrow> Some (- 1)
      | Some off \<Rightarrow> do { m \<leftarrow> da_array da; bs \<leftarrow> load_bytes m off 4; Some (of_le_bytes bs) }) }"

text \<open>
  The reallocation in \<open>DA_push\<close>: \<open>alloc_size\<close> is increased before the result is known
  and stays increased when the allocation fails.
\<close>

definition DA_grow :: "bool \<Rightarrow> DynamicArray \<Rightarrow> (DynamicArray \<times> bool) option" where
  "DA_grow ok da = do {
     a \<leftarrow> c_int (da_alloc_size da + da_chunk_size da);
     let da' = da\<lparr>da_alloc_size := a\<rparr>;
     Some (case c_realloc ok (case da_array da of None \<Rightarrow> [] | Some m \<Rightarrow> m) a of
             None \<Rightarrow> (da', False)
           | Some m \<Rightarrow> (da'\<lparr>da_array := Some m\<rparr>, True)) }"

definition DA_store :: "DynamicArray \<Rightarrow> 8 word list \<Rightarrow> DynamicArray option" where
  "DA_store da item = do {
     m \<leftarrow> da_array da;
     off \<leftarrow> c_int (da_len da * da_item_size da);
     m' \<leftarrow> (if int (length item) = da_item_size da then mem_put m off (map Some item) else None);
     n \<leftarrow> c_int (da_len da + 1);
     Some (da\<lparr>da_array := Some m', da_len := n\<rparr>) }"

definition DA_push :: "bool \<Rightarrow> DynamicArray \<Rightarrow> 8 word list \<Rightarrow> DynamicArray option" where
  "DA_push ok da item = do {
     n \<leftarrow> c_int (da_len da + 1);
     need \<leftarrow> c_int (n * da_item_size da);
     (if need > da_alloc_size da then do {
        (da', grown) \<leftarrow> DA_grow ok da;
        (if grown then DA_store da' item else Some da') }
      else DA_store da item) }"

text \<open>The popped item is \<open>None\<close> for NULL. The copy's own allocation is not checked.\<close>

definition DA_pop :: "bool \<Rightarrow> bool \<Rightarrow> DynamicArray \<Rightarrow> (8 word list option \<times> DynamicArray) option" where
  "DA_pop ok1 ok2 da =
     (if da_len da = 0 then Some (None, da)
      else do {
        _ \<leftarrow> c_malloc ok1 (da_item_size da);
        m \<leftarrow> da_array da;
        off \<leftarrow> c_int ((da_len da - 1) * da_item_size da);
        bs \<leftarrow> load_bytes m off (da_item_size da);
        let da1 = da\<lparr>da_len := da_len da - 1\<rparr>;
        (if da_len da1 smod D_ARRAY_CHUNK_SIZE = D_ARRAY_CHUNK_SIZE - 1 then do {
           a \<leftarrow> c_int (da_alloc_size da1 - da_chunk_size da1);
           let da2 = da1\<lparr>da_alloc_size := a\<rparr>;
           Some (Some bs, case c_realloc ok2 m a of None \<Rightarrow> da2 | Some m' \<Rightarrow> da2\<lparr>da_array := Some m'\<rparr>) }
         else Some (Some bs, da1)) })"

definition DA_pop_int :: "bool \<Rightarrow> bool \<Rightarrow> DynamicArray \<Rightarrow> (32 word \<times> DynamicArray) option" where
  "DA_pop_int ok1 ok2 da = do {
     (data, da') \<leftarrow> DA_pop ok1 ok2 da;
     (case data of
        None \<Rightarrow> Some (- 1, da')
      | Some bs \<Rightarrow> if 4 \<le> length bs then Some (of_le_bytes (take 4 bs), da') else None) }"

definition DA_free :: "DynamicArray \<Rightarrow> DynamicArray" where
  "DA_free da = (if da_array da \<noteq> None then da\<lparr>da_array := None\<rparr> else da)"

section \<open>What the array holds\<close>

text \<open>
  \<open>da_ok\<close>: the block has \<open>alloc_size\<close> bytes, a whole number of chunks of sixteen items,
  and the bytes of the first \<open>len\<close> items are written. \<open>da_items\<close> are the items.
\<close>

definition da_ok :: "DynamicArray \<Rightarrow> bool" where
  "da_ok da \<longleftrightarrow> 0 < da_item_size da \<and> da_chunk_size da = 16 * da_item_size da \<and> 0 \<le> da_len da \<and>
     da_len da * da_item_size da \<le> da_alloc_size da \<and> int_ok (da_alloc_size da) \<and>
     da_alloc_size da mod da_chunk_size da = 0 \<and>
     (\<exists>m. da_array da = Some m \<and> int (length m) = da_alloc_size da \<and>
        None \<notin> set (take (nat (da_len da * da_item_size da)) m))"

lemma da_okI:
  assumes "0 < da_item_size da" "da_chunk_size da = 16 * da_item_size da" "0 \<le> da_len da"
    "da_len da * da_item_size da \<le> da_alloc_size da" "int_ok (da_alloc_size da)"
    "da_alloc_size da mod da_chunk_size da = 0" "da_array da = Some m" "int (length m) = da_alloc_size da"
    "None \<notin> set (take (nat (da_len da * da_item_size da)) m)"
  shows "da_ok da"
  using assms unfolding da_ok_def by blast

lemma da_okD:
  assumes "da_ok da"
  shows "0 < da_item_size da" "da_chunk_size da = 16 * da_item_size da" "0 \<le> da_len da"
    "da_len da * da_item_size da \<le> da_alloc_size da" "int_ok (da_alloc_size da)"
    "da_alloc_size da mod da_chunk_size da = 0"
  using assms unfolding da_ok_def by blast+

definition item_at :: "nat \<Rightarrow> 'a list \<Rightarrow> nat \<Rightarrow> 'a list" where
  "item_at k xs i = take k (drop (i * k) xs)"

definition da_items :: "DynamicArray \<Rightarrow> 8 word list list" where
  "da_items da =
     map (item_at (nat (da_item_size da)) (map the (the (da_array da)))) [0..<nat (da_len da)]"

lemma length_da_items [simp]: "length (da_items da) = nat (da_len da)"
  by (simp add: da_items_def)

lemma slice_before:
  assumes "i + k \<le> off" "off \<le> length xs"
  shows "take k (drop i (take off xs @ ys)) = take k (drop i xs)"
proof -
  have "length (take off xs) = off" "i \<le> off" "k \<le> off - i" using assms by auto
  then have "drop i (take off xs @ ys) = take (off - i) (drop i xs) @ ys"
    by (simp only: drop_append drop_take) simp
  moreover have "length (take (off - i) (drop i xs)) = off - i" using assms by simp
  ultimately show ?thesis using \<open>k \<le> off - i\<close> by (simp del: length_take add: min_absorb1)
qed

lemma item_before:
  assumes "i < n" "n * k \<le> length xs"
  shows "item_at k (take (n * k) xs @ ys) i = item_at k xs i"
proof -
  have "Suc i * k \<le> n * k" using assms(1) by (intro mult_le_mono1) simp
  then show ?thesis unfolding item_at_def using assms(2) by (intro slice_before) simp_all
qed

lemma item_hit: "n * k \<le> length xs \<Longrightarrow> length ys = k \<Longrightarrow> item_at k (take (n * k) xs @ ys @ zs) n = ys"
  by (simp add: item_at_def)

text \<open>Items of blocks that agree on their first \<open>n\<close> items.\<close>

lemma items_cong:
  assumes "take (n * k) xs = take (n * k) ys" "n * k \<le> length xs" "n * k \<le> length ys"
  shows "map (item_at k xs) [0..<n] = map (item_at k ys) [0..<n]"
proof -
  have "item_at k xs i = item_at k ys i" if "i < n" for i
  proof -
    have "item_at k xs i = item_at k (take (n * k) xs) i"
      using item_before [OF that assms(2), of "[]"] by (simp only: append_Nil2)
    also have "\<dots> = item_at k (take (n * k) ys) i" by (simp only: assms(1))
    also have "\<dots> = item_at k ys i"
      using item_before [OF that assms(3), of "[]"] by (simp only: append_Nil2)
    finally show ?thesis .
  qed
  then show ?thesis by simp
qed

section \<open>The operations\<close>

lemma create_ok:
  assumes "0 < k" "int_ok (k * 16)"
  shows "runs (DA_create True True k)
    (\<lambda>r. \<exists>da. r = Some da \<and> da_ok da \<and> da_items da = [] \<and> da_item_size da = k \<and> da_alloc_size da = 16 * k)"
  using assms
  by (simp add: DA_create_def wp c_malloc_def D_ARRAY_CHUNK_SIZE_def da_ok_def da_items_def algebra_simps)

text \<open>Storing an item behind the last one.\<close>

lemma store_ok:
  assumes ok: "da_ok da" and item: "int (length item) = da_item_size da"
    and fits: "(da_len da + 1) * da_item_size da \<le> da_alloc_size da"
  shows "runs (DA_store da item) (\<lambda>da'. da_ok da' \<and> da_items da' = da_items da @ [item] \<and>
     da_item_size da' = da_item_size da \<and> da_alloc_size da' = da_alloc_size da)"
proof -
  let ?k = "nat (da_item_size da)" and ?n = "nat (da_len da)"
  from ok obtain m where m: "da_array da = Some m" "int (length m) = da_alloc_size da"
    "None \<notin> set (take (nat (da_len da * da_item_size da)) m)" by (auto simp: da_ok_def)
  have pos: "0 < da_item_size da" "0 \<le> da_len da" "int_ok (da_alloc_size da)"
    using ok by (simp_all add: da_ok_def)
  have off: "nat (da_len da * da_item_size da) = ?n * ?k" using pos by (simp add: nat_mult_distrib)
  have "nat ((da_len da + 1) * da_item_size da) = ?n * ?k + ?k"
    using pos by (simp add: nat_mult_distrib nat_add_distrib algebra_simps)
  moreover have "nat ((da_len da + 1) * da_item_size da) \<le> length m" using fits m(2) by simp
  ultimately have room: "?n * ?k + ?k \<le> length m" by simp
  have len: "length item = ?k" using item by simp
  have "1 * (da_len da + 1) \<le> da_item_size da * (da_len da + 1)"
    using pos by (intro mult_right_mono) simp_all
  then have small: "da_len da + 1 \<le> da_alloc_size da" using fits by (simp add: mult.commute)
  have "0 \<le> da_len da * da_item_size da" using pos by simp
  moreover have "da_len da * da_item_size da \<le> da_alloc_size da" using fits pos by (simp add: algebra_simps)
  ultimately have ints: "int_ok (da_len da * da_item_size da)" "int_ok (da_len da + 1)"
    using pos small by (auto intro: int_ok_below)
  let ?m' = "take (?n * ?k) m @ map Some item @ drop (?n * ?k + length item) m"
  let ?da' = "da\<lparr>da_array := Some ?m', da_len := da_len da + 1\<rparr>"
  have run: "DA_store da item = Some ?da'"
  proof -
    have "0 \<le> da_len da * da_item_size da" using pos by simp
    moreover have "da_len da * da_item_size da + int (length (map Some item)) \<le> int (length m)"
      using fits m(2) item by (simp add: algebra_simps)
    ultimately show ?thesis
      unfolding DA_store_def c_int_def mem_put_def using m(1) item ints off by (simp del: zero_le_mult_iff)
  qed
  have step: "nat (da_len da + 1) = Suc ?n" using pos by simp
  have written: "take (Suc ?n * ?k) ?m' = take (?n * ?k) m @ map Some item"
    using room len by (simp add: add.commute)
  have "da_items ?da' = da_items da @ [item]"
  proof -
    have "item_at ?k (map the ?m') ?n = item"
      using room len item_hit [of ?n ?k "map the m" item] by (simp add: take_map comp_def)
    moreover have "map (item_at ?k (map the ?m')) [0..<?n] = map (item_at ?k (map the m)) [0..<?n]"
      by (rule items_cong) (use room len in \<open>simp_all add: take_map\<close>)
    ultimately show ?thesis by (simp add: da_items_def m step)
  qed
  moreover have "da_ok ?da'"
  proof -
    have "length ?m' = length m" using room len by simp
    moreover have "nat ((da_len da + 1) * da_item_size da) = Suc ?n * ?k"
      using pos step by (simp add: nat_mult_distrib)
    moreover have "None \<notin> set (take (Suc ?n * ?k) ?m')"
      unfolding written using m(3) off by auto
    moreover have "da_alloc_size da mod (16 * da_item_size da) = 0" "da_chunk_size da = 16 * da_item_size da"
      using ok by (auto simp: da_ok_def)
    ultimately show ?thesis using m fits pos by (simp add: da_ok_def)
  qed
  ultimately show ?thesis by (simp add: run)
qed

text \<open>A reallocation keeps the items that the smaller block holds.\<close>

lemma realloc_ok:
  assumes ok: "da_ok da" and m: "da_array da = Some m"
    and a: "int_ok a" "a mod da_chunk_size da = 0" "n * da_item_size da \<le> a" "0 \<le> n" "n \<le> da_len da"
  defines "da' \<equiv> da\<lparr>da_len := n, da_alloc_size := a,
      da_array := Some (take (nat a) m @ replicate (nat a - length m) None)\<rparr>"
  shows "da_ok da' \<and> da_items da' = take (nat n) (da_items da)"
proof -
  let ?k = "nat (da_item_size da)" and ?m' = "take (nat a) m @ replicate (nat a - length m) None"
  from ok m have pos: "0 < da_item_size da" "0 \<le> da_len da" "da_len da * da_item_size da \<le> da_alloc_size da"
    "int (length m) = da_alloc_size da" "None \<notin> set (take (nat (da_len da * da_item_size da)) m)"
    by (auto simp: da_ok_def)
  have le: "n * da_item_size da \<le> da_len da * da_item_size da"
    using a(5) pos(1) by (intro mult_right_mono) simp_all
  have "0 \<le> n * da_item_size da" using a(4) pos(1) by simp
  then have apos: "0 \<le> a" using a(3) by simp
  have len: "length ?m' = nat a" by (simp add: min_def)
  have nk: "nat (n * da_item_size da) = nat n * ?k" using a(4) by (simp add: nat_mult_distrib)
  have nk_len: "nat n * ?k \<le> length m" "nat n * ?k \<le> nat a"
    using le pos(3,4) a(3) nk by simp_all
  have same: "take (nat n * ?k) ?m' = take (nat n * ?k) m" using nk_len by (simp add: min_absorb1)
  have "nat (n * da_item_size da) \<le> nat (da_len da * da_item_size da)" using le by simp
  then have "set (take (nat n * ?k) m) \<subseteq> set (take (nat (da_len da * da_item_size da)) m)"
    unfolding nk by (rule set_take_subset_set_take)
  then have "None \<notin> set (take (nat n * ?k) ?m')" unfolding same using pos(5) by blast
  then have written: "None \<notin> set (take (nat (n * da_item_size da)) ?m')" unfolding nk .
  have chunk: "da_chunk_size da = 16 * da_item_size da" using ok by (simp add: da_ok_def)
  have opaque: "da_ok (da\<lparr>da_len := n, da_alloc_size := a, da_array := Some m'\<rparr>)"
    if "int (length m') = a" "None \<notin> set (take (nat (n * da_item_size da)) m')" for m'
    by (rule da_okI [where m = m']) (use that pos(1) chunk a(1-4) in simp_all)
  have "int (length ?m') = a" unfolding len using apos by simp
  then have "da_ok da'" unfolding da'_def by (rule opaque [OF _ written])
  moreover have "da_items da' = take (nat n) (da_items da)"
  proof -
    have "map (item_at ?k (map the ?m')) [0..<nat n] = map (item_at ?k (map the m)) [0..<nat n]"
    proof (rule items_cong)
      show "take (nat n * ?k) (map the ?m') = take (nat n * ?k) (map the m)"
        unfolding take_map same ..
    qed (use nk_len len in simp_all)
    then show ?thesis using a(5) m by (simp add: da_items_def da'_def take_map)
  qed
  ultimately show ?thesis ..
qed

lemma push_ok:
  assumes ok: "da_ok da" and item: "int (length item) = da_item_size da"
    and fits: "int_ok (da_alloc_size da + da_chunk_size da)"
  shows "runs (DA_push True da item) (\<lambda>da'. da_ok da' \<and> da_items da' = da_items da @ [item] \<and>
     da_item_size da' = da_item_size da \<and> da_alloc_size da' \<le> da_alloc_size da + da_chunk_size da)"
proof -
  let ?need = "(da_len da + 1) * da_item_size da"
  from ok obtain m where m: "da_array da = Some m" by (auto simp: da_ok_def)
  from ok have pos: "0 < da_item_size da" "0 \<le> da_len da" "da_chunk_size da = 16 * da_item_size da"
    "da_len da * da_item_size da \<le> da_alloc_size da" "da_alloc_size da mod da_chunk_size da = 0"
    by (auto simp: da_ok_def)
  have need: "?need = da_len da * da_item_size da + da_item_size da" by (simp add: algebra_simps)
  have "(da_len da + 1) * 1 \<le> ?need" using pos by (intro mult_left_mono) simp_all
  then have le: "da_len da + 1 \<le> ?need" by (simp only: mult_1_right)
  have le2: "?need \<le> da_alloc_size da + da_chunk_size da" using pos need by linarith
  have "int_ok (da_len da + 1)" by (rule int_ok_below [OF fits]) (use le le2 pos(2) in linarith)+
  moreover have "int_ok ?need" by (rule int_ok_below [OF fits]) (use le le2 pos(2) in linarith)+
  ultimately have ints: "int_ok (da_len da + 1)" "int_ok ?need" .
  let ?a = "da_alloc_size da + da_chunk_size da"
  let ?g = "da\<lparr>da_alloc_size := ?a, da_array := Some (take (nat ?a) m @ replicate (nat ?a - length m) None)\<rparr>"
  have g: "da_ok ?g \<and> da_items ?g = da_items da"
    using realloc_ok [OF ok m fits, of "da_len da"] pos by simp
  have "0 \<le> da_len da * da_item_size da" using pos by simp
  then have apos: "0 \<le> ?a" using pos by linarith
  show ?thesis
  proof (cases "?need > da_alloc_size da")
    case True
    with ints fits m apos have "DA_push True da item = DA_store ?g item"
      by (simp add: DA_push_def c_int_def DA_grow_def c_realloc_def)
    moreover have "runs (DA_store ?g item) (\<lambda>da'. da_ok da' \<and> da_items da' = da_items ?g @ [item] \<and>
        da_item_size da' = da_item_size ?g \<and> da_alloc_size da' = da_alloc_size ?g)"
      by (rule store_ok) (use g item pos need in simp_all)
    ultimately show ?thesis using g by (auto elim!: runs_mono)
  next
    case False
    with ints have "DA_push True da item = DA_store da item" by (simp add: DA_push_def c_int_def)
    moreover have "runs (DA_store da item) (\<lambda>da'. da_ok da' \<and> da_items da' = da_items da @ [item] \<and>
        da_item_size da' = da_item_size da \<and> da_alloc_size da' = da_alloc_size da)"
      by (rule store_ok) (use ok item False in simp_all)
    ultimately show ?thesis using pos by (auto elim!: runs_mono)
  qed
qed

lemma get_int_ok:
  assumes ok: "da_ok da" and four: "da_item_size da = 4"
  shows "DA_get_int da i =
     Some (if 0 \<le> i \<and> i < da_len da then of_le_bytes (da_items da ! nat i) else - 1)"
proof (cases "0 \<le> i \<and> i < da_len da")
  case False
  from ok obtain m where "da_array da = Some m" unfolding da_ok_def by blast
  with False have "DA_get da i = Some None" by (auto simp: DA_get_def not_le not_less)
  with False show ?thesis by (auto simp: DA_get_int_def)
next
  case True
  from ok four obtain m where m: "da_array da = Some m" "int (length m) = da_alloc_size da"
    "None \<notin> set (take (nat (da_len da * 4)) m)" "int_ok (da_alloc_size da)" "da_len da * 4 \<le> da_alloc_size da"
    by (auto simp: da_ok_def)
  have i: "0 \<le> i * 4" "i * 4 + 4 \<le> int (length m)" "int_ok (i * 4)" using True m by (auto simp: int_ok_def)
  have "take 4 (drop (nat i * 4) m) = take 4 (drop (nat i * 4) (take (nat (da_len da * 4)) m))"
  proof -
    have "nat i * 4 + 4 \<le> nat (da_len da * 4)" using True by linarith
    moreover have "nat (da_len da * 4) \<le> length m" using m(2,5) by linarith
    ultimately show ?thesis
      using slice_before [of "nat i * 4" 4 "nat (da_len da * 4)" m "[]"] by (simp only: append_Nil2)
  qed
  moreover have "set (take 4 (drop (nat i * 4) (take (nat (da_len da * 4)) m))) \<subseteq> set (take (nat (da_len da * 4)) m)"
    using set_take_subset set_drop_subset by (rule subset_trans)
  ultimately have "None \<notin> set (take 4 (drop (nat i * 4) m))" using m(3) by auto
  moreover have "nat (i * 4) = nat i * 4" using True by (simp add: nat_mult_distrib)
  ultimately have "load_bytes m (i * 4) 4 = Some (map the (take 4 (drop (nat i * 4) m)))"
    using i by (simp add: load_bytes_def mem_get_def)
  moreover have "map the (take 4 (drop (nat i * 4) m)) = da_items da ! nat i"
    using True m four by (simp add: da_items_def item_at_def take_map drop_map)
  ultimately show ?thesis using True m i four
    by (simp add: DA_get_int_def DA_get_def c_int_def)
qed

section \<open>Popping\<close>

text \<open>Taking the last item without the memory: the item, and what is left of the block after \<open>realloc\<close>.\<close>

lemma pop_arith:
  assumes ok: "da_ok da" and ne: "0 < da_len da"
  shows "int_ok ((da_len da - 1) * da_item_size da)" "0 \<le> (da_len da - 1) * da_item_size da"
    "(da_len da - 1) * da_item_size da = da_len da * da_item_size da - da_item_size da"
    "nat ((da_len da - 1) * da_item_size da) = (nat (da_len da) - 1) * nat (da_item_size da)"
    "nat (da_len da * da_item_size da) = (nat (da_len da) - 1) * nat (da_item_size da) + nat (da_item_size da)"
proof -
  have pos: "0 < da_item_size da" "da_len da * da_item_size da \<le> da_alloc_size da" "int_ok (da_alloc_size da)"
    using ok unfolding da_ok_def by blast+
  show step: "(da_len da - 1) * da_item_size da = da_len da * da_item_size da - da_item_size da" by (simp add: algebra_simps)
  show low: "0 \<le> (da_len da - 1) * da_item_size da" using ne pos(1) by simp
  show "int_ok ((da_len da - 1) * da_item_size da)" by (rule int_ok_below [OF pos(3) low]) (use pos(1,2) step in linarith)
  show "nat ((da_len da - 1) * da_item_size da) = (nat (da_len da) - 1) * nat (da_item_size da)"
    "nat (da_len da * da_item_size da) = (nat (da_len da) - 1) * nat (da_item_size da) + nat (da_item_size da)"
    using ne pos(1) by (simp_all add: nat_mult_distrib nat_diff_distrib algebra_simps)
qed

lemma load_last:
  assumes ok: "da_ok da" and ne: "0 < da_len da" and m: "da_array da = Some m"
  shows "load_bytes m ((da_len da - 1) * da_item_size da) (da_item_size da) = Some (last (da_items da))"
proof -
  let ?k = "da_item_size da" and ?n = "da_len da"
  note arith = pop_arith [OF ok ne]
  have pos: "0 < ?k" "?n * ?k \<le> int (length m)" "None \<notin> set (take (nat (?n * ?k)) m)"
    using ok m unfolding da_ok_def by auto
  let ?bs = "take (nat ?k) (drop ((nat ?n - 1) * nat ?k) m)"
  have "?bs = take (nat ?k) (drop ((nat ?n - 1) * nat ?k) (take (nat (?n * ?k)) m))"
    unfolding arith(5) by (simp add: drop_take)
  then have "set ?bs \<subseteq> set (take (nat (?n * ?k)) m)"
    by (metis set_drop_subset set_take_subset subset_trans)
  with pos(3) have "None \<notin> set ?bs" by blast
  moreover have "(?n - 1) * ?k + ?k \<le> int (length m)" using pos(2) arith(3) by linarith
  moreover have "map the ?bs = last (da_items da)"
    using ne m by (simp add: da_items_def last_map item_at_def take_map drop_map)
  ultimately show ?thesis using arith(2) pos(1) by (simp add: load_bytes_def mem_get_def arith(4))
qed

lemma pop_run:
  assumes ok: "da_ok da" and ne: "0 < da_len da" and m: "da_array da = Some m"
  shows "DA_pop True True da = (if da_len da mod 16 = 0 then do {
        a \<leftarrow> c_int (da_alloc_size da - 16 * da_item_size da);
        Some (Some (last (da_items da)), case c_realloc True m a of
          None \<Rightarrow> da\<lparr>da_len := da_len da - 1, da_alloc_size := a\<rparr>
        | Some m' \<Rightarrow> da\<lparr>da_len := da_len da - 1, da_alloc_size := a, da_array := Some m'\<rparr>) }
      else Some (Some (last (da_items da)), da\<lparr>da_len := da_len da - 1\<rparr>))"
proof -
  have pos: "0 < da_item_size da" "da_chunk_size da = 16 * da_item_size da" using ok unfolding da_ok_def by blast+
  have "(da_len da - 1) smod 16 = 15 \<longleftrightarrow> da_len da mod 16 = 0" using ne by (simp add: smod_pos) presburger
  then show ?thesis using ne m pop_arith(1) [OF ok ne] load_last [OF assms] pos
    by (simp add: DA_pop_def c_malloc_def c_int_def D_ARRAY_CHUNK_SIZE_def Let_def)
qed

lemma pop_keeps:
  assumes ok: "da_ok da" and ne: "0 < da_len da" and m: "da_array da = Some m"
    and a: "int_ok a" "a mod da_chunk_size da = 0" "(da_len da - 1) * da_item_size da \<le> a"
    and da': "da' = da\<lparr>da_len := da_len da - 1, da_alloc_size := a, da_array := Some (take (nat a) m @ replicate (nat a - length m) None)\<rparr>"
  shows "da_ok da' \<and> da_items da' = butlast (da_items da)"
proof -
  have "nat (da_len da - 1) = length (da_items da) - 1" using ne by simp
  then show ?thesis using realloc_ok [OF ok m a] ne da' by (simp add: butlast_conv_take)
qed

text \<open>
  C18. With the allocations succeeding, \<open>DA_pop\<close> returns the last item and leaves an array of the
  others exactly when the block is not filled to its last byte at a length that is a
  multiple of sixteen. In that case it gives back a chunk that still holds items.
\<close>

theorem DA_pop_exact:
  assumes ok: "da_ok da" and ne: "0 < da_len da"
  shows "runs (DA_pop True True da) (\<lambda>(data, da').
       data = Some (last (da_items da)) \<and> da_ok da' \<and> da_items da' = butlast (da_items da)) \<longleftrightarrow>
     \<not> (da_len da mod 16 = 0 \<and> da_alloc_size da = da_len da * da_item_size da)"
proof -
  let ?k = "da_item_size da" and ?n = "da_len da" and ?a = "da_alloc_size da"
  from ok obtain m where m: "da_array da = Some m" "int (length m) = ?a" unfolding da_ok_def by blast
  have pos: "0 < ?k" "?n * ?k \<le> ?a" "int_ok ?a" "da_chunk_size da = 16 * ?k" "?a mod da_chunk_size da = 0"
    using ok unfolding da_ok_def by blast+
  note step = pop_arith(3) [OF ok ne] and pop = pop_run [OF ok ne m(1)] and keep = pop_keeps [OF ok ne m(1)]
  show ?thesis
  proof (cases "?n mod 16 = 0")
    case False
    have "int_ok ?a" "(?n - 1) * ?k \<le> ?a" using pos(3) step pos(1,2) by auto
    moreover have "da\<lparr>da_len := ?n - 1\<rparr> = da\<lparr>da_len := ?n - 1, da_alloc_size := ?a,
        da_array := Some (take (nat ?a) m @ replicate (nat ?a - length m) None)\<rparr>"
      using m(1,2) by (cases da) (auto simp flip: m(2))
    ultimately have "da_ok (da\<lparr>da_len := ?n - 1\<rparr>) \<and> da_items (da\<lparr>da_len := ?n - 1\<rparr>) = butlast (da_items da)"
      using pos(5) by (intro keep [of ?a])
    with False show ?thesis by (simp add: pop)
  next
    case True
    then obtain p where p: "?n = 16 * p" by auto
    have nk: "?n * ?k = (16 * ?k) * p" by (simp add: p)
    from pos(4,5) obtain q where q: "?a = (16 * ?k) * q" by auto
    let ?b = "?a - 16 * ?k"
    have "1 \<le> p" using ne p by simp
    then have "16 * ?k * 1 \<le> 16 * ?k * p" using pos(1) by (intro mult_left_mono) simp_all
    then have b0: "0 \<le> ?b" using pos(2) nk by simp
    have b1: "int_ok ?b" by (rule int_ok_below [OF pos(3) b0]) (use pos(1) in simp)
    have run: "DA_pop True True da = Some (Some (last (da_items da)), da\<lparr>da_len := ?n - 1, da_alloc_size := ?b,
        da_array := Some (take (nat ?b) m @ replicate (nat ?b - length m) None)\<rparr>)"
      using True b0 b1 by (simp add: pop c_int_def c_realloc_def)
    show ?thesis
    proof (cases "?a = ?n * ?k")
      case full: True
      have "\<not> (?n - 1) * ?k \<le> ?b" using full pos(1) step by linarith
      then show ?thesis using run True full by (simp add: da_ok_def)
    next
      case False
      then have "p < q" using pos(1,2) nk q by (simp add: mult_less_cancel_left_pos less_le)
      then have "16 * ?k * (p + 1) \<le> 16 * ?k * q" using pos(1) by (intro mult_left_mono) simp_all
      then have "(?n - 1) * ?k \<le> ?b" using nk q step pos(1) by (simp add: algebra_simps)
      moreover have "?b mod da_chunk_size da = 0" using pos(4) q by (simp add: flip: right_diff_distrib')
      ultimately show ?thesis using keep [OF b1 _ _ refl] run False by simp
    qed
  qed
qed

text \<open>An array of full length: sixteen items of four bytes in a block of 64 bytes.\<close>

definition full_array :: "int \<Rightarrow> int \<Rightarrow> DynamicArray" where
  "full_array n a = \<lparr>da_array = Some (replicate (nat a) (Some 7)), da_len = n, da_item_size = 4,
     da_chunk_size = 64, da_alloc_size = a\<rparr>"

lemma full_array_ok: "0 \<le> n \<Longrightarrow> n * 4 \<le> a \<Longrightarrow> a mod 64 = 0 \<Longrightarrow> int_ok a \<Longrightarrow> da_ok (full_array n a)"
  by (rule da_okI [where m = "replicate (nat a) (Some 7)"]) (simp_all add: full_array_def)

theorem DA_pop_exact_witness:
  "\<not> runs (DA_pop True True (full_array 16 64)) (\<lambda>(data, da').
       data = Some (last (da_items (full_array 16 64))) \<and> da_ok da' \<and>
       da_items da' = butlast (da_items (full_array 16 64))) \<and>
   runs (DA_pop True True (full_array 16 128)) (\<lambda>(data, da').
       data = Some (last (da_items (full_array 16 128))) \<and> da_ok da' \<and>
       da_items da' = butlast (da_items (full_array 16 128)))"
proof -
  have "da_ok (full_array 16 64)" "da_ok (full_array 16 128)"
    by (simp_all add: full_array_ok int_ok_def)
  moreover have "0 < da_len (full_array 16 64)" "0 < da_len (full_array 16 128)"
    by (simp_all add: full_array_def)
  ultimately show ?thesis
    using DA_pop_exact [of "full_array 16 64"] DA_pop_exact [of "full_array 16 128"]
    by (simp add: full_array_def)
qed

section \<open>The interface of a growing array\<close>

text \<open>
  What a caller that only appends and reads relies on. \<open>capacity\<close> is a number of items
  that can be appended before a size leaves the range of \<open>int\<close>.
\<close>

fun push_all :: "('s \<Rightarrow> 'a \<Rightarrow> 's option) \<Rightarrow> 'a list \<Rightarrow> 's \<Rightarrow> 's option" where
  "push_all push [] s = Some s"
| "push_all push (x # xs) s = do { s' \<leftarrow> push s x; push_all push xs s' }"

locale growing_array =
  fixes inv :: "'s \<Rightarrow> bool" and items :: "'s \<Rightarrow> 'a list" and capacity :: "'s \<Rightarrow> nat"
    and push :: "'s \<Rightarrow> 'a \<Rightarrow> 's option" and get :: "'s \<Rightarrow> int \<Rightarrow> 'a option"
  assumes push_law: "inv s \<Longrightarrow> 0 < capacity s \<Longrightarrow>
      runs (push s x) (\<lambda>s'. inv s' \<and> items s' = items s @ [x] \<and> capacity s \<le> Suc (capacity s'))"
    and get_law: "inv s \<Longrightarrow> 0 \<le> i \<Longrightarrow> i < int (length (items s)) \<Longrightarrow> get s i = Some (items s ! nat i)"
begin

lemma push_all_ok:
  assumes "inv s" "length xs \<le> capacity s"
  shows "runs (push_all push xs s)
    (\<lambda>s'. inv s' \<and> items s' = items s @ xs \<and> capacity s \<le> length xs + capacity s')"
  using assms
proof (induction xs arbitrary: s)
  case Nil
  then show ?case by simp
next
  case (Cons x xs)
  from push_law [of s x] Cons.prems obtain s1 where
    s1: "push s x = Some s1" "inv s1" "items s1 = items s @ [x]" "capacity s \<le> Suc (capacity s1)"
    by (auto simp: runs_iff)
  with Cons.IH [of s1] Cons.prems show ?case by (auto elim!: runs_mono)
qed

lemma get_pushed:
  assumes "inv s" "length xs \<le> capacity s" "i < length xs"
  shows "runs (push_all push xs s) (\<lambda>s'. get s' (int (length (items s) + i)) = Some (xs ! i))"
  using push_all_ok [OF assms(1,2)]
proof (rule runs_mono)
  fix s' assume s': "inv s' \<and> items s' = items s @ xs \<and> capacity s \<le> length xs + capacity s'"
  with assms(3) have "int (length (items s) + i) < int (length (items s'))" by simp
  with s' get_law [of s' "int (length (items s) + i)"]
  show "get s' (int (length (items s) + i)) = Some (xs ! i)" by (simp add: nth_append nat_int_add)
qed

end

text \<open>The code's array of 32-bit items.\<close>

definition words_ok :: "DynamicArray \<Rightarrow> bool" where
  "words_ok da \<longleftrightarrow> da_ok da \<and> da_item_size da = 4"

definition da_words :: "DynamicArray \<Rightarrow> 32 word list" where
  "da_words da = map of_le_bytes (da_items da)"

definition da_capacity :: "DynamicArray \<Rightarrow> nat" where
  "da_capacity da = nat ((2 ^ 31 - 1 - da_alloc_size da) div 64)"

definition DA_push_word :: "DynamicArray \<Rightarrow> 32 word \<Rightarrow> DynamicArray option" where
  "DA_push_word da p = DA_push True da (le_bytes p)"

lemma push_word_ok:
  assumes "words_ok da" "0 < da_capacity da"
  shows "runs (DA_push_word da p)
    (\<lambda>da'. words_ok da' \<and> da_words da' = da_words da @ [p] \<and> da_capacity da \<le> Suc (da_capacity da'))"
proof -
  let ?a = "da_alloc_size da"
  from assms(1) have da: "da_ok da" "da_item_size da = 4" "da_chunk_size da = 64"
    using da_okD(2) [of da] by (simp_all add: words_ok_def)
  from da have "0 \<le> ?a" using da_okD(3,4) [OF da(1)] by simp
  moreover from assms(2) have "?a + 64 \<le> 2 ^ 31 - 1" by (simp add: da_capacity_def)
  ultimately have "int_ok (?a + da_chunk_size da)" using da(3) by (simp add: int_ok_def)
  from push_ok [OF da(1) _ this, of "le_bytes p"] da show ?thesis unfolding DA_push_word_def
    by (auto simp: words_ok_def da_words_def of_le_bytes_le_bytes da_capacity_def elim!: runs_mono)
qed

interpretation words: growing_array words_ok da_words da_capacity DA_push_word DA_get_int
proof
  show "runs (DA_push_word s x)
      (\<lambda>s'. words_ok s' \<and> da_words s' = da_words s @ [x] \<and> da_capacity s \<le> Suc (da_capacity s'))"
    if "words_ok s" "0 < da_capacity s" for s x
    using push_word_ok that .
  show "DA_get_int s i = Some (da_words s ! nat i)"
    if "words_ok s" "0 \<le> i" "i < int (length (da_words s))" for s i
    using that get_int_ok [of s i] by (simp add: words_ok_def da_words_def split: if_splits)
qed

lemma push_words_read:
  assumes "length ws \<le> 33554430"
  shows "runs (DA_create True True 4) (\<lambda>r. \<exists>da. r = Some da \<and>
    runs (push_all DA_push_word ws da) (\<lambda>da'. da_len da' = int (length ws) \<and>
      (\<forall>i. DA_get_int da' i =
         Some (if 0 \<le> i \<and> i < int (length ws) then ws ! nat i else - 1))))"
proof -
  have "runs (DA_create True True 4) (\<lambda>r. \<exists>da. r = Some da \<and> da_ok da \<and> da_items da = [] \<and>
      da_item_size da = 4 \<and> da_alloc_size da = 16 * 4)"
    by (rule create_ok) (simp_all add: int_ok_def)
  then obtain da where da: "DA_create True True 4 = Some (Some da)" "da_ok da" "da_items da = []"
      "da_item_size da = 4" "da_alloc_size da = 64" by (auto simp: runs_iff)
  then have "words_ok da" "length ws \<le> da_capacity da" "da_words da = []"
    using assms by (simp_all add: words_ok_def da_capacity_def da_words_def)
  from words.push_all_ok [OF this(1,2)] this(3) have
    "runs (push_all DA_push_word ws da) (\<lambda>da'. words_ok da' \<and> da_words da' = ws)"
    by (auto elim!: runs_mono)
  then have "runs (push_all DA_push_word ws da) (\<lambda>da'. da_len da' = int (length ws) \<and>
      (\<forall>i. DA_get_int da' i = Some (if 0 \<le> i \<and> i < int (length ws) then ws ! nat i else - 1)))"
  proof (rule runs_mono)
    fix da' assume *: "words_ok da' \<and> da_words da' = ws"
    then have len: "da_len da' = int (length ws)"
      using da_okD(3) [of da'] by (auto simp: words_ok_def da_words_def)
    with * show "da_len da' = int (length ws) \<and>
      (\<forall>i. DA_get_int da' i = Some (if 0 \<le> i \<and> i < int (length ws) then ws ! nat i else - 1))"
      using get_int_ok [of da'] by (auto simp: words_ok_def da_words_def)
  qed
  with da(1) show ?thesis by simp
qed

text \<open>
  Any sequence of 32-bit values pushed into a new array is read back at the same indices:
  the reallocations of the array lose nothing while the array only grows.
\<close>

theorem DA_pushed_words:
  assumes "length ws \<le> 33554430"
  shows "runs (DA_create True True 4) (\<lambda>r. \<exists>da. r = Some da \<and>
    runs (push_all DA_push_word ws da) (\<lambda>da'. da_len da' = int (length ws) \<and>
      (\<forall>i. DA_get_int da' i =
         Some (if 0 \<le> i \<and> i < int (length ws) then ws ! nat i else - 1))))"
  using assms by (rule push_words_read)

theorem DA_pushed_words_witness:
  "runs (DA_create True True 4) (\<lambda>r. \<exists>da. r = Some da \<and>
    runs (push_all DA_push_word [7, 8, 9] da) (\<lambda>da'. da_len da' = int (length [7, 8, 9 :: 32 word]) \<and>
      (\<forall>i. DA_get_int da' i =
         Some (if 0 \<le> i \<and> i < int (length [7, 8, 9 :: 32 word]) then [7, 8, 9] ! nat i else - 1))))"
  by (rule DA_pushed_words) simp

section \<open>Delays, messages and assertions\<close>

text \<open>The \<open>timespec\<close> of \<open>nano_sleep\<close>: seconds and the rest.\<close>

definition nano_sleep :: "int \<Rightarrow> int \<times> int" where
  "nano_sleep nanoseconds = (nanoseconds sdiv 1000000000, nanoseconds smod 1000000000)"

definition INF_STARTSTR :: string where "INF_STARTSTR = ESC # ''[33;40m''"
definition ERR_STARTSTR :: string where "ERR_STARTSTR = ESC # ''[30;43m''"
definition INFERR_ENDSTR :: string where "INFERR_ENDSTR = ESC # ''[0;0m'' @ [LF]"

text \<open>
  The format that \<open>l_inf\<close> and \<open>l_err\<close> hand to \<open>vprintf\<close>: undefined where \<open>sprintf\<close>
  writes more than the block that was allocated for it.
\<close>

definition sprintf_into :: "nat \<Rightarrow> string \<Rightarrow> string option" where
  "sprintf_into siz s = (if length s + 1 \<le> siz then Some s else None)"

definition l_inf :: "string \<Rightarrow> string option" where
  "l_inf fmt = sprintf_into (length fmt + (length INF_STARTSTR + 1) + (length INFERR_ENDSTR + 1))
     (INF_STARTSTR @ fmt @ INFERR_ENDSTR)"

definition l_err :: "string \<Rightarrow> string option" where
  "l_err fmt = sprintf_into (length fmt + (length ERR_STARTSTR + 1) + (length INFERR_ENDSTR + 1))
     (ERR_STARTSTR @ fmt @ INFERR_ENDSTR)"

text \<open>
  The three assertion functions: the value is returned, after a message and the callback
  (the flag says whether there was one) when the check fails, or the program exits with
  the status \<open>fd | 1\<close>.
\<close>

datatype assert_result = Passed int | Failed bool int | Exited bool int

definition assert_that :: "bool \<Rightarrow> int \<Rightarrow> bool \<Rightarrow> bool \<Rightarrow> assert_result" where
  "assert_that holds fd cb terminate =
     (if holds then Passed fd else if terminate then Exited cb (or fd 1) else Failed cb fd)"

definition assertp :: "int \<Rightarrow> bool \<Rightarrow> bool \<Rightarrow> assert_result" where
  "assertp fd cb terminate = assert_that (fd > 0) fd cb terminate"

definition assert0 :: "int \<Rightarrow> bool \<Rightarrow> bool \<Rightarrow> assert_result" where
  "assert0 fd cb terminate = assert_that (fd = 0) fd cb terminate"

definition assert0p :: "int \<Rightarrow> bool \<Rightarrow> bool \<Rightarrow> assert_result" where
  "assert0p fd cb terminate = assert_that (fd \<ge> 0) fd cb terminate"

section \<open>The thread pool\<close>

text \<open>
  \<open>i_thread_ids_using\<close> and \<open>i_thread_ids\<close>; a handle is a number. The results of the
  library's functions (\<open>pthread_create\<close>'s handle, the values returned by \<open>pthread_kill\<close> and
  \<open>pthread_cancel\<close>) are arguments.
\<close>

record thread_pool =
  tp_using :: "int list"
  tp_ids :: "nat list"

definition THREAD_MAX_COUNT :: int where
  "THREAD_MAX_COUNT = 256"

definition ESRCH :: int where
  "ESRCH = 3"

definition getThreadById :: "thread_pool \<Rightarrow> int \<Rightarrow> nat option option" where
  "getThreadById p i = do {
     u \<leftarrow> rd (tp_using p) i;
     (if u \<noteq> 0 then do { h \<leftarrow> rd (tp_ids p) i; Some (Some h) } else Some None) }"

definition thread_cleanup :: "thread_pool \<Rightarrow> int \<Rightarrow> int \<Rightarrow> (int \<times> thread_pool) option" where
  "thread_cleanup p kill_ret i = do {
     h \<leftarrow> getThreadById p i;
     (if h = None then Some (1, p)
      else if kill_ret \<noteq> 0 \<and> kill_ret \<noteq> ESRCH then Some (2, p)
      else do {
        u1 \<leftarrow> wr (tp_using p) i 0;
        n \<leftarrow> rd u1 0;
        u2 \<leftarrow> wr u1 0 (n - 1);
        Some (0, p\<lparr>tp_using := u2\<rparr>) }) }"

text \<open>The search for a free slot: the first one, 0 when there is none.\<close>

fun free_slot :: "int list \<Rightarrow> int list \<Rightarrow> int option" where
  "free_slot u [] = Some 0"
| "free_slot u (i # is) = do { x \<leftarrow> rd u i; (if x = 0 then Some i else free_slot u is) }"

definition thread_slots :: "int list" where
  "thread_slots = [1..THREAD_MAX_COUNT - 1]"

lemma set_thread_slots [simp]: "set thread_slots = {1..255}"
  unfolding thread_slots_def THREAD_MAX_COUNT_def set_upto by simp

definition createThread :: "thread_pool \<Rightarrow> nat \<Rightarrow> (int \<times> thread_pool) option" where
  "createThread p handle = do {
     n \<leftarrow> rd (tp_using p) 0;
     (if n \<ge> THREAD_MAX_COUNT - 1 then Some (0, p)
      else do {
        i \<leftarrow> free_slot (tp_using p) thread_slots;
        (if i = 0 then Some (0, p)
         else do {
           ids \<leftarrow> wr (tp_ids p) i handle;
           u1 \<leftarrow> wr (tp_using p) i 1;
           m \<leftarrow> rd u1 0;
           u2 \<leftarrow> wr u1 0 (m + 1);
           Some (i, \<lparr>tp_using = u2, tp_ids = ids\<rparr>) }) }) }"

definition killThread :: "thread_pool \<Rightarrow> int \<Rightarrow> int \<Rightarrow> int \<Rightarrow> (int \<times> thread_pool) option" where
  "killThread p cancel_ret kill_ret i = do {
     h \<leftarrow> getThreadById p i;
     (if h = None then Some (1, p)
      else if cancel_ret \<noteq> 0 then Some (0, p)
      else do { (_, p') \<leftarrow> thread_cleanup p kill_ret i; Some (2, p') }) }"

definition waitThread :: "thread_pool \<Rightarrow> (nat \<Rightarrow> int) \<Rightarrow> int \<Rightarrow> int option option" where
  "waitThread p join i = do {
     h \<leftarrow> getThreadById p i;
     Some (map_option join h) }"

text \<open>\<open>using[0]\<close> counts the used slots.\<close>

definition pool_ok :: "thread_pool \<Rightarrow> bool" where
  "pool_ok p \<longleftrightarrow> length (tp_using p) = 256 \<and> length (tp_ids p) = 256 \<and>
     set (tl (tp_using p)) \<subseteq> {0, 1} \<and> hd (tp_using p) = sum_list (tl (tp_using p))"

lemma sum_update: "k < length xs \<Longrightarrow> sum_list (xs[k := x]) = sum_list xs + x - (xs ! k :: int)"
  by (induction xs arbitrary: k) (simp_all split: nat.split)

lemma bits_full:
  "set us \<subseteq> {0, 1 :: int} \<Longrightarrow> sum_list us \<le> int (length us) \<and> (sum_list us \<ge> int (length us) \<longrightarrow> set us \<subseteq> {1})"
proof (induction us)
  case (Cons x us)
  then have IH: "sum_list us \<le> int (length us)" "sum_list us \<ge> int (length us) \<longrightarrow> set us \<subseteq> {1}"
    and x: "x = 0 \<or> x = 1" by simp_all
  then show ?case by (elim disjE) auto
qed simp

lemma pool_set:
  assumes "pool_ok p" "1 \<le> i" "i < 256" "x \<in> {0, 1}"
  shows "pool_ok (p\<lparr>tp_using := (tp_using p)[nat i := x, 0 := hd (tp_using p) + x - tp_using p ! nat i]\<rparr>)"
proof (cases "tp_using p")
  case Nil
  with assms(1) show ?thesis by (simp add: pool_ok_def)
next
  case (Cons c us)
  obtain k where k: "nat i = Suc k" "k < 255" using assms(2,3) by (cases "nat i") auto
  have "set (us[k := x]) \<subseteq> insert x (set us)" by (rule set_update_subset_insert)
  with assms(1,4) Cons k show ?thesis by (auto simp: pool_ok_def sum_update)
qed

lemma pool_bit: "pool_ok p \<Longrightarrow> 1 \<le> i \<Longrightarrow> i < 256 \<Longrightarrow> tp_using p ! nat i \<in> {0, 1}"
proof (cases "tp_using p")
  case (Cons c us)
  assume "pool_ok p" "1 \<le> i" "i < 256"
  moreover obtain k where k: "nat i = Suc k" "k < 255" using \<open>1 \<le> i\<close> \<open>i < 256\<close> by (cases "nat i") auto
  moreover from k(2) have "us ! k \<in> set us" using Cons \<open>pool_ok p\<close> by (intro nth_mem) (simp add: pool_ok_def)
  then have "us ! k \<in> {0, 1}" using Cons \<open>pool_ok p\<close> unfolding pool_ok_def by auto
  ultimately show ?thesis using Cons by (auto simp: pool_ok_def)
qed (simp add: pool_ok_def)

lemma free_slot_runs:
  assumes "1 \<le> lo" "hi < int (length u)"
  shows "runs (free_slot u [lo..hi]) (\<lambda>i. if i = 0 then \<forall>j. lo \<le> j \<and> j \<le> hi \<longrightarrow> u ! nat j \<noteq> 0
    else lo \<le> i \<and> i \<le> hi \<and> u ! nat i = 0 \<and> (\<forall>j. lo \<le> j \<and> j < i \<longrightarrow> u ! nat j \<noteq> 0))"
  using assms(1)
proof (induction "nat (hi + 1 - lo)" arbitrary: lo)
  case (Suc k)
  then have lo: "[lo..hi] = lo # [lo + 1..hi]" "k = nat (hi + 1 - (lo + 1))" "lo < int (length u)" using assms(2) by (simp_all add: upto_rec1)
  show ?case
  proof (cases "u ! nat lo = 0")
    case True
    with Suc lo show ?thesis by (simp add: wp)
  next
    case False
    from Suc.hyps(1) [OF lo(2)] Suc.prems obtain i where i: "free_slot u [lo + 1..hi] = Some i"
      "if i = 0 then \<forall>j. lo + 1 \<le> j \<and> j \<le> hi \<longrightarrow> u ! nat j \<noteq> 0
       else lo + 1 \<le> i \<and> i \<le> hi \<and> u ! nat i = 0 \<and> (\<forall>j. lo + 1 \<le> j \<and> j < i \<longrightarrow> u ! nat j \<noteq> 0)"
      by (auto simp: runs_iff)
    have split: "lo \<le> j \<longleftrightarrow> j = lo \<or> lo + 1 \<le> j" for j by auto
    from i lo Suc.prems False show ?thesis by (auto simp: wp split [of "_ :: int"])
  qed
qed simp

lemma cleanup_ok:
  assumes "pool_ok p" "1 \<le> i" "i < 256"
  shows "runs (thread_cleanup p r i) (\<lambda>(s, p'). pool_ok p' \<and> tp_ids p' = tp_ids p \<and>
     (s = 0 \<longleftrightarrow> tp_using p ! nat i = 1 \<and> (r = 0 \<or> r = ESRCH)) \<and>
     (s = 0 \<longrightarrow> tp_using p' ! nat i = 0) \<and> (s \<noteq> 0 \<longrightarrow> p' = p))"
proof -
  have len: "length (tp_using p) = 256" "length (tp_ids p) = 256" using assms(1) by (simp_all add: pool_ok_def)
  then have hd: "(tp_using p)[nat i := 0] ! 0 = hd (tp_using p)"
    using assms(2) by (cases "tp_using p") (auto split: nat.split)
  show ?thesis
    using pool_bit [OF assms] pool_set [OF assms, of 0] assms len hd
    by (auto simp: thread_cleanup_def getThreadById_def wp ESRCH_def)
qed

text \<open>
  C17. In a consistent pool the creation of a thread takes the first free slot, all slots before it are
  used, marks it and stores the handle there; it fails exactly when all 255 slots are used. The count in slot 0 stays
  the number of used slots.
\<close>

theorem createThread_slot:
  assumes "pool_ok p"
  shows "runs (createThread p h) (\<lambda>(i, p'). pool_ok p' \<and>
    (if i = 0 then p' = p \<and> (\<forall>j \<in> {1..255}. tp_using p ! j = 1)
     else 1 \<le> i \<and> i < 256 \<and> tp_using p ! nat i = 0 \<and> (\<forall>j. 1 \<le> j \<and> j < i \<longrightarrow> tp_using p ! nat j = 1) \<and>
       getThreadById p' i = Some (Some h) \<and>
       (\<forall>j. 1 \<le> j \<longrightarrow> j \<noteq> i \<longrightarrow> getThreadById p' j = getThreadById p j)))"
proof -
  let ?u = "tp_using p"
  have len: "length ?u = 256" "length (tp_ids p) = 256" using assms by (simp_all add: pool_ok_def)
  then obtain c us where u: "?u = c # us" by (cases ?u) auto
  have c: "c = sum_list us" "length us = 255" "set us \<subseteq> {0, 1}"
    using assms u by (simp_all add: pool_ok_def)
  have all: "\<forall>j \<in> {1..255}. ?u ! j = 1" if "\<forall>j \<in> {1..255}. ?u ! j \<noteq> 0"
    using pool_bit [OF assms, of "int j" for j] that by force
  show ?thesis
  proof (cases "c \<ge> 255")
    case True
    then have "set us \<subseteq> {1}" using bits_full [OF c(3)] c by simp
    then have "?u ! j = 1" if "j \<in> {1..255}" for j
    proof -
      have "us ! (j - 1) \<in> set us" using that c(2) by (intro nth_mem) auto
      with that \<open>set us \<subseteq> {1}\<close> show ?thesis by (auto simp: u nth_Cons')
    qed
    then show ?thesis using True u len assms by (simp add: createThread_def wp THREAD_MAX_COUNT_def)
  next
    case False
    from free_slot_runs [of 1 255 ?u] obtain i where i: "free_slot ?u thread_slots = Some i"
      "if i = 0 then \<forall>j. 1 \<le> j \<and> j \<le> 255 \<longrightarrow> ?u ! nat j \<noteq> 0
       else 1 \<le> i \<and> i \<le> 255 \<and> ?u ! nat i = 0 \<and> (\<forall>j. 1 \<le> j \<and> j < i \<longrightarrow> ?u ! nat j \<noteq> 0)"
      by (auto simp: runs_iff thread_slots_def THREAD_MAX_COUNT_def len)
    show ?thesis
    proof (cases "i = 0")
      case True
      have "?u ! j \<noteq> 0" if "j \<in> {1..255}" for j
        using i(2) True that by (auto dest: spec [where x = "int j"])
      with all i(1) True False u len assms show ?thesis
        by (simp add: createThread_def wp THREAD_MAX_COUNT_def)
    next
      case ne: False
      with i(2) have r: "1 \<le> i" "i < 256" "?u ! nat i = 0" by auto
      have first: "?u ! nat j \<noteq> 0" if "1 \<le> j" "j < i" for j using i(2) ne that by simp
      have before: "?u ! nat j = 1" if "1 \<le> j" "j < i" for j
        using pool_bit [OF assms, of j] first [OF that] that r(2) by auto
      let ?p' = "\<lparr>tp_using = ?u[nat i := 1, 0 := hd ?u + 1], tp_ids = (tp_ids p)[nat i := h]\<rparr>"
      have hd: "?u[nat i := 1] ! 0 = hd ?u" using r(1) u by (auto split: nat.split)
      have small: "?u ! 0 = hd ?u" "\<not> 255 \<le> hd ?u" using False u by simp_all
      have acc: "rd ?u 0 = Some (hd ?u)" "wr (tp_ids p) i h = Some ((tp_ids p)[nat i := h])"
        "wr ?u i 1 = Some (?u[nat i := 1])" "rd (?u[nat i := 1]) 0 = Some (hd ?u)"
        "wr (?u[nat i := 1]) 0 (hd ?u + 1) = Some (?u[nat i := 1, 0 := hd ?u + 1])"
        unfolding rd_def wr_def length_list_update len hd
        using r(1,2) small(1) by simp_all
      have run: "createThread p h = Some (i, ?p')"
        unfolding createThread_def THREAD_MAX_COUNT_def acc Option.bind.simps i(1) using small(2) ne
        by (simp add: acc)
      have "pool_ok ?p'" using pool_set [OF assms r(1,2), of 1] r(3) len by (simp add: pool_ok_def)
      moreover have "getThreadById ?p' i = Some (Some h)"
        using r len by (simp add: getThreadById_def rd_def)
      moreover have "getThreadById ?p' j = getThreadById p j" if "1 \<le> j" "j \<noteq> i" for j
        using that r(1) by (simp add: getThreadById_def rd_def nat_eq_iff)
      ultimately show ?thesis using run ne r before by simp
    qed
  qed
qed

definition empty_pool :: thread_pool where
  "empty_pool = \<lparr>tp_using = replicate 256 0, tp_ids = replicate 256 0\<rparr>"

lemma empty_pool_ok: "pool_ok empty_pool"
  by (simp add: pool_ok_def empty_pool_def sum_list_replicate)

theorem createThread_slot_witness:
  "runs (createThread empty_pool 9) (\<lambda>(i, p'). pool_ok p' \<and>
    (if i = 0 then p' = empty_pool \<and> (\<forall>j \<in> {1..255}. tp_using empty_pool ! j = 1)
     else 1 \<le> i \<and> i < 256 \<and> tp_using empty_pool ! nat i = 0 \<and> (\<forall>j. 1 \<le> j \<and> j < i \<longrightarrow> tp_using empty_pool ! nat j = 1) \<and>
       getThreadById p' i = Some (Some 9) \<and>
       (\<forall>j. 1 \<le> j \<longrightarrow> j \<noteq> i \<longrightarrow> getThreadById p' j = getThreadById empty_pool j)))"
  by (rule createThread_slot) (rule empty_pool_ok)

text \<open>
  \<open>killThread\<close> returns 0 when the thread could not be cancelled, and 2 when it was, where
  the header promises 0 for success.
\<close>

lemma killThread_status:
  assumes "pool_ok p" "1 \<le> i" "i < 256" "tp_using p ! nat i = 1"
  shows "runs (killThread p cancel_ret kill_ret i)
    (\<lambda>(s, p'). s = (if cancel_ret = 0 then 2 else 0) \<and> pool_ok p' \<and> (cancel_ret \<noteq> 0 \<longrightarrow> p' = p))"
proof -
  have len: "length (tp_using p) = 256" "length (tp_ids p) = 256" using assms(1) by (simp_all add: pool_ok_def)
  have "getThreadById p i = Some (Some (tp_ids p ! nat i))"
    unfolding getThreadById_def rd_def len using assms by simp
  then show ?thesis using cleanup_ok [OF assms(1-3), of kill_ret] assms(1)
    by (auto simp: killThread_def wp elim!: runs_mono)
qed

end
