(* ===== verification/Isdw.thy ===== *)
theory Isdw
  imports Prelude
begin

text \<open>
  libfbpads/isdw.c: the tables of the double-width and of the zero-width characters and the
  binary search in them. The locale \<open>range_table\<close> states what the search needs of a table,
  its two interpretations check that for the tables of the code.
\<close>

definition dwchars :: "(int \<times> int) list" where
  "dwchars = [
    (0x1100, 0x115F), (0x11A3, 0x11A7), (0x11FA, 0x11FF), (0x2329, 0x232A), (0x2E80, 0x2E99),
    (0x2E9B, 0x2EF3), (0x2F00, 0x2FD5), (0x2FF0, 0x2FFB), (0x3000, 0x3029), (0x3030, 0x303E),
    (0x3041, 0x3096), (0x309B, 0x30FF), (0x3105, 0x312D), (0x3131, 0x318E), (0x3190, 0x31B7),
    (0x31C0, 0x31E3), (0x31F0, 0x321E), (0x3220, 0x3247), (0x3250, 0x32FE), (0x3300, 0x4DBF),
    (0x4E00, 0xA48C), (0xA490, 0xA4C6), (0xA960, 0xA97C), (0xAC00, 0xD7A3), (0xD7B0, 0xD7C6),
    (0xD7CB, 0xD7FB), (0xF900, 0xFAFF), (0xFE10, 0xFE19), (0xFE30, 0xFE52), (0xFE54, 0xFE66),
    (0xFE68, 0xFE6B), (0xFF01, 0xFF60), (0xFFE0, 0xFFE6), (0x1F200, 0x1F200), (0x1F210, 0x1F231),
    (0x1F240, 0x1F248), (0x20000, 0x2FFFF)]"

definition zwchars :: "(int \<times> int) list" where
  "zwchars = [
    (0x300, 0x36F), (0x483, 0x489), (0x591, 0x5BD), (0x5BF, 0x5BF), (0x5C1, 0x5C2),
    (0x5C4, 0x5C5), (0x5C7, 0x5C7), (0x610, 0x61A), (0x64B, 0x65E), (0x670, 0x670),
    (0x6D6, 0x6DC), (0x6DE, 0x6E4), (0x6E7, 0x6E8), (0x6EA, 0x6ED), (0x711, 0x711),
    (0x730, 0x74A), (0x7A6, 0x7B0), (0x7EB, 0x7F3), (0x816, 0x819), (0x81B, 0x823),
    (0x825, 0x827), (0x829, 0x82D), (0x900, 0x903), (0x93C, 0x93C), (0x93E, 0x94E),
    (0x951, 0x955), (0x962, 0x963), (0x981, 0x983), (0x9BC, 0x9BC), (0x9BE, 0x9C4),
    (0x9C7, 0x9C8), (0x9CB, 0x9CD), (0x9D7, 0x9D7), (0x9E2, 0x9E3), (0xA01, 0xA03),
    (0xA3C, 0xA3C), (0xA3E, 0xA42), (0xA47, 0xA48), (0xA4B, 0xA4D), (0xA51, 0xA51),
    (0xA70, 0xA71), (0xA75, 0xA75), (0xA81, 0xA83), (0xABC, 0xABC), (0xABE, 0xAC5),
    (0xAC7, 0xAC9), (0xACB, 0xACD), (0xAE2, 0xAE3), (0xB01, 0xB03), (0xB3C, 0xB3C),
    (0xB3E, 0xB44), (0xB47, 0xB48), (0xB4B, 0xB4D), (0xB56, 0xB57), (0xB62, 0xB63),
    (0xB82, 0xB82), (0xBBE, 0xBC2), (0xBC6, 0xBC8), (0xBCA, 0xBCD), (0xBD7, 0xBD7),
    (0xC01, 0xC03), (0xC3E, 0xC44), (0xC46, 0xC48), (0xC4A, 0xC4D), (0xC55, 0xC56),
    (0xC62, 0xC63), (0xC82, 0xC83), (0xCBC, 0xCBC), (0xCBE, 0xCC4), (0xCC6, 0xCC8),
    (0xCCA, 0xCCD), (0xCD5, 0xCD6), (0xCE2, 0xCE3), (0xD02, 0xD03), (0xD3E, 0xD44),
    (0xD46, 0xD48), (0xD4A, 0xD4D), (0xD57, 0xD57), (0xD62, 0xD63), (0xD82, 0xD83),
    (0xDCA, 0xDCA), (0xDCF, 0xDD4), (0xDD6, 0xDD6), (0xDD8, 0xDDF), (0xDF2, 0xDF3),
    (0xE31, 0xE31), (0xE34, 0xE3A), (0xE47, 0xE4E), (0xEB1, 0xEB1), (0xEB4, 0xEB9),
    (0xEBB, 0xEBC), (0xEC8, 0xECD), (0xF18, 0xF19), (0xF35, 0xF35), (0xF37, 0xF37),
    (0xF39, 0xF39), (0xF3E, 0xF3F), (0xF71, 0xF84), (0xF86, 0xF87), (0xF90, 0xF97),
    (0xF99, 0xFBC), (0xFC6, 0xFC6), (0x102B, 0x103E), (0x1056, 0x1059), (0x105E, 0x1060),
    (0x1062, 0x1064), (0x1067, 0x106D), (0x1071, 0x1074), (0x1082, 0x108D), (0x108F, 0x108F),
    (0x109A, 0x109D), (0x135F, 0x135F), (0x1712, 0x1714), (0x1732, 0x1734), (0x1752, 0x1753),
    (0x1772, 0x1773), (0x17B6, 0x17D3), (0x17DD, 0x17DD), (0x180B, 0x180D), (0x18A9, 0x18A9),
    (0x1920, 0x192B), (0x1930, 0x193B), (0x19B0, 0x19C0), (0x19C8, 0x19C9), (0x1A17, 0x1A1B),
    (0x1A55, 0x1A5E), (0x1A60, 0x1A7C), (0x1A7F, 0x1A7F), (0x1B00, 0x1B04), (0x1B34, 0x1B44),
    (0x1B6B, 0x1B73), (0x1B80, 0x1B82), (0x1BA1, 0x1BAA), (0x1C24, 0x1C37), (0x1CD0, 0x1CD2),
    (0x1CD4, 0x1CE8), (0x1CED, 0x1CED), (0x1CF2, 0x1CF2), (0x1DC0, 0x1DE6), (0x1DFD, 0x1DFF),
    (0x200B, 0x200F), (0x20D0, 0x20F0), (0x2CEF, 0x2CF1), (0x2DE0, 0x2DFF), (0x302A, 0x302F),
    (0x3099, 0x309A), (0xA66F, 0xA672), (0xA67C, 0xA67D), (0xA6F0, 0xA6F1), (0xA802, 0xA802),
    (0xA806, 0xA806), (0xA80B, 0xA80B), (0xA823, 0xA827), (0xA880, 0xA881), (0xA8B4, 0xA8C4),
    (0xA8E0, 0xA8F1), (0xA926, 0xA92D), (0xA947, 0xA953), (0xA980, 0xA983), (0xA9B3, 0xA9C0),
    (0xAA29, 0xAA36), (0xAA43, 0xAA43), (0xAA4C, 0xAA4D), (0xAA7B, 0xAA7B), (0xAAB0, 0xAAB0),
    (0xAAB2, 0xAAB4), (0xAAB7, 0xAAB8), (0xAABE, 0xAABF), (0xAAC1, 0xAAC1), (0xABE3, 0xABEA),
    (0xABEC, 0xABED), (0xFB1E, 0xFB1E), (0xFE00, 0xFE0F), (0xFE20, 0xFE26), (0x101FD, 0x101FD),
    (0x10A01, 0x10A03), (0x10A05, 0x10A06), (0x10A0C, 0x10A0F), (0x10A38, 0x10A3A),
    (0x10A3F, 0x10A3F), (0x11080, 0x11082), (0x110B0, 0x110BA), (0x1D165, 0x1D169),
    (0x1D16D, 0x1D172), (0x1D17B, 0x1D182), (0x1D185, 0x1D18B), (0x1D1AA, 0x1D1AD),
    (0x1D242, 0x1D244), (0xE0100, 0xE01EF)]"

lemma mid_bounds:
  assumes "l \<le> (h::int)"
  shows "l \<le> (h + l) sdiv 2" "(h + l) sdiv 2 \<le> h"
  using assms unfolding signed_divide_int_def by (auto simp: sgn_if abs_if)

text \<open>The loop of \<open>find\<close>, and \<open>find\<close>.\<close>

function find_loop :: "int \<Rightarrow> (int \<times> int) list \<Rightarrow> int \<Rightarrow> int \<Rightarrow> bool option" where
  "find_loop c tab l h =
     (if l \<le> h then do {
        let m = (h + l) sdiv 2;
        e \<leftarrow> rd tab m;
        (if fst e \<le> c \<and> c \<le> snd e then Some True
         else if c < fst e then find_loop c tab l (m - 1)
         else find_loop c tab (m + 1) h) }
      else Some False)"
  by pat_completeness auto

termination
  by (relation "measure (\<lambda>(c, tab, l, h). nat (h - l + 1))") (use mid_bounds in \<open>force+\<close>)

declare find_loop.simps [simp del]

definition find :: "int \<Rightarrow> (int \<times> int) list \<Rightarrow> int \<Rightarrow> bool option" where
  "find c tab n = do {
     e \<leftarrow> rd tab 0;
     (if c < fst e then Some False else find_loop c tab 0 (n - 1)) }"

definition isdw :: "int \<Rightarrow> bool option" where
  "isdw c = (if c \<ge> 0x1100 then find c dwchars (int (length dwchars)) else Some False)"

definition iszw :: "int \<Rightarrow> bool option" where
  "iszw c = (if c \<ge> 0x300 then find c zwchars (int (length zwchars)) else Some False)"

text \<open>A character in one of the ranges of a table.\<close>

definition in_ranges :: "int \<Rightarrow> (int \<times> int) list \<Rightarrow> bool" where
  "in_ranges c tab \<longleftrightarrow> (\<exists>(a, b) \<in> set tab. a \<le> c \<and> c \<le> b)"

fun ordered_ranges :: "(int \<times> int) list \<Rightarrow> bool" where
  "ordered_ranges [] = True"
| "ordered_ranges [(a, b)] = (a \<le> b)"
| "ordered_ranges ((a, b) # (a', b') # es) = (a \<le> b \<and> b < a' \<and> ordered_ranges ((a', b') # es))"

section \<open>The search in an ordered table\<close>

locale range_table =
  fixes tab :: "(int \<times> int) list"
  assumes nonempty: "tab \<noteq> []" and ordered: "ordered_ranges tab"
begin

lemma before_head: "ordered_ranges ((a, b) # es) \<Longrightarrow> e \<in> set es \<Longrightarrow> b < fst e"
proof (induction es arbitrary: a b)
  case (Cons e' es)
  obtain a1 b1 where e: "e' = (a1, b1)" by fastforce
  from Cons.prems e have "b < a1" "a1 \<le> b1" by (cases es; auto)+
  moreover from Cons.prems e have "ordered_ranges ((a1, b1) # es)" by simp
  ultimately show ?case using Cons.IH [of a1 b1] Cons.prems(2) e by force
qed simp

lemma table_step: "ordered_ranges es \<Longrightarrow> i < j \<Longrightarrow> j < length es \<Longrightarrow> snd (es ! i) < fst (es ! j)"
proof (induction es arbitrary: i j rule: ordered_ranges.induct)
  case (3 a b a' b' es)
  show ?case
  proof (cases i)
    case 0
    with 3(3,4) have "((a', b') # es) ! (j - 1) \<in> set ((a', b') # es)" by (intro nth_mem) auto
    moreover have "((a, b) # (a', b') # es) ! j = ((a', b') # es) ! (j - 1)" using 0 3(3) by (cases j) auto
    ultimately have "((a, b) # (a', b') # es) ! j \<in> set ((a', b') # es)" by simp
    from before_head [OF 3(2) this] show ?thesis using 0 by simp
  next
    case (Suc k)
    then obtain l where l: "j = Suc l" using 3(3) by (cases j) auto
    have "snd (((a', b') # es) ! k) < fst (((a', b') # es) ! l)"
      by (rule 3(1)) (use 3(2-4) Suc l in simp_all)
    then show ?thesis by (simp only: Suc l nth_Cons_Suc)
  qed
qed auto

lemma entry_valid: "ordered_ranges es \<Longrightarrow> (a, b) \<in> set es \<Longrightarrow> a \<le> b"
  by (induction es rule: ordered_ranges.induct) auto

lemma range_valid: "ordered_ranges es \<Longrightarrow> i < length es \<Longrightarrow> fst (es ! i) \<le> snd (es ! i)"
  using entry_valid [of es "fst (es ! i)" "snd (es ! i)"] by simp

text \<open>The entries outside the bounds of the loop do not contain the character.\<close>

lemma find_loop_correct:
  assumes "0 \<le> l" "h < int (length tab)"
    and "\<And>i. i < length tab \<Longrightarrow> int i < l \<Longrightarrow> snd (tab ! i) < c"
    and "\<And>i. i < length tab \<Longrightarrow> h < int i \<Longrightarrow> c < fst (tab ! i)"
  shows "find_loop c tab l h = Some (in_ranges c tab)"
  using assms
proof (induction "nat (h - l + 1)" arbitrary: l h rule: less_induct)
  case less
  show ?case
  proof (cases "l \<le> h")
    case False
    have "\<not> (fst (tab ! i) \<le> c \<and> c \<le> snd (tab ! i))" if "i < length tab" for i
      using less.prems(3,4) [OF that] False by linarith
    then have "\<not> in_ranges c tab" by (fastforce simp: in_ranges_def in_set_conv_nth)
    with False show ?thesis by (simp add: find_loop.simps)
  next
    case True
    define m where "m = (h + l) sdiv 2"
    have m: "l \<le> m" "m \<le> h" using mid_bounds [OF True] by (simp_all add: m_def)
    have i: "nat m < length tab" using m less.prems(1,2) by linarith
    have at: "rd tab m = Some (tab ! nat m)" using m less.prems by (simp add: rd_def)
    have below: "snd (tab ! i) < fst (tab ! nat m)" if "int i < m" for i
      by (rule table_step [OF ordered _ i]) (use that in linarith)
    have above: "snd (tab ! nat m) < fst (tab ! i)" if "m < int i" "i < length tab" for i
      by (rule table_step [OF ordered _ that(2)]) (use that m less.prems in linarith)
    show ?thesis
    proof (cases "fst (tab ! nat m) \<le> c \<and> c \<le> snd (tab ! nat m)")
      case inside: True
      then have "in_ranges c tab" using nth_mem [OF i] by (force simp: in_ranges_def)
      with True at inside show ?thesis by (simp add: find_loop.simps m_def Let_def)
    next
      case out: False
      show ?thesis
      proof (cases "c < fst (tab ! nat m)")
        case low: True
        have "find_loop c tab l (m - 1) = Some (in_ranges c tab)"
        proof (rule less.hyps)
          show "c < fst (tab ! i)" if "i < length tab" "m - 1 < int i" for i
          proof (cases "int i = m")
            case True
            with low show ?thesis by auto
          next
            case False
            with that above [of i] low range_valid [OF ordered i] show ?thesis by linarith
          qed
        qed (use less.prems m True in auto)
        with True at out low show ?thesis
          by (subst find_loop.simps) (simp add: m_def Let_def)
      next
        case high: False
        have "find_loop c tab (m + 1) h = Some (in_ranges c tab)"
        proof (rule less.hyps)
          show "snd (tab ! i) < c" if "i < length tab" "int i < m + 1" for i
          proof (cases "int i = m")
            case True
            with high out show ?thesis by auto
          next
            case False
            with that below [of i] high show ?thesis by linarith
          qed
        qed (use less.prems m True in auto)
        with True at out high show ?thesis
          by (subst find_loop.simps) (simp add: m_def Let_def)
      qed
    qed
  qed
qed

lemma below_head: "c < fst (hd tab) \<Longrightarrow> \<not> in_ranges c tab"
proof -
  obtain a b es where tab: "tab = (a, b) # es" using nonempty by (cases tab) auto
  have ab: "a \<le> b" using entry_valid [OF ordered, of a b] tab by simp
  have "a \<le> fst e" if "e \<in> set tab" for e
  proof (cases "e = (a, b)")
    case False
    with that tab have "e \<in> set es" by auto
    with before_head [of a b es e] ordered tab have "b < fst e" by blast
    with ab show ?thesis by simp
  qed simp
  then show "c < fst (hd tab) \<Longrightarrow> \<not> in_ranges c tab"
    by (fastforce simp: in_ranges_def tab)
qed

lemma find_correct: "find c tab (int (length tab)) = Some (in_ranges c tab)"
proof -
  have rd0: "rd tab 0 = Some (hd tab)" using nonempty by (simp add: rd_def hd_conv_nth)
  have loop: "find_loop c tab 0 (int (length tab) - 1) = Some (in_ranges c tab)"
    by (rule find_loop_correct; linarith)
  show ?thesis
  proof (cases "c < fst (hd tab)")
    case True
    from below_head [OF this] True show ?thesis by (simp add: find_def rd0)
  next
    case False
    then show ?thesis by (simp add: find_def rd0 loop)
  qed
qed

end

interpretation dw: range_table dwchars
  by unfold_locales (simp_all add: dwchars_def)

interpretation zw: range_table zwchars
  by unfold_locales (simp_all add: zwchars_def)

text \<open>
  C19. The binary searches answer for every character, without leaving the tables, whether it
  lies in one of the ranges; the early exits below the first entries change no answer.
\<close>

theorem widths_correct:
  "isdw c = Some (in_ranges c dwchars) \<and> iszw c = Some (in_ranges c zwchars)"
proof -
  have "\<not> in_ranges c dwchars" if "c < 0x1100"
    by (rule dw.below_head) (use that in \<open>simp add: dwchars_def\<close>)
  moreover have "\<not> in_ranges c zwchars" if "c < 0x300"
    by (rule zw.below_head) (use that in \<open>simp add: zwchars_def\<close>)
  ultimately show ?thesis by (auto simp: isdw_def iszw_def dw.find_correct zw.find_correct)
qed

lemma printable_ascii_width: "0 \<le> c \<Longrightarrow> c < 0x300 \<Longrightarrow> isdw c = Some False \<and> iszw c = Some False"
  by (simp add: isdw_def iszw_def)

end
