(* ===== verification/Term.thy ===== *)
theory Term
  imports Prelude
begin

text \<open>
  The terminal of libfbpads/term.c: the screen with its colours and scrolling history, and
  the drawing and editing operations. The library keeps one loaded terminal: its arrays are
  reached through the globals \<open>screen\<close>, \<open>fgs\<close>, \<open>bgs\<close>, \<open>dirty\<close>, which alias the fields of
  \<open>struct term\<close>; the record \<open>tty\<close> holds them once, beside the globals (\<open>g_\<dots>\<close>) and the
  saved copies in the structure (\<open>t_\<dots>\<close>). \<open>t_prows\<close> and \<open>t_pcols\<close> are \<open>pad_rows()\<close> and
  \<open>pad_cols()\<close>. Calls of \<open>pad_put\<close> and \<open>pad_fill\<close> are recorded in \<open>t_draws\<close>, bytes sent to the
  program in \<open>t_sent\<close>. Signals, processes and the ioctl calls are not modelled.
\<close>

section \<open>Data\<close>

record term_state =
  ts_row :: int
  ts_col :: int
  ts_fg :: int
  ts_bg :: int
  ts_mode :: int

datatype pad_call = PadPut int int int int int | PadFill int int int int int

record tty =
  t_prows :: int
  t_pcols :: int
  t_screen :: "int list"
  t_hist :: "int list"
  t_fgs :: "int list"
  t_bgs :: "int list"
  t_dirty :: "bool list"
  t_cur :: term_state
  t_sav :: term_state
  t_fd :: int
  t_hrow :: int
  t_hpos :: int
  t_lazy :: bool
  t_pid :: int
  t_top :: int
  t_bot :: int
  t_rows :: int
  t_cols :: int
  t_signal :: bool
  g_lazy :: bool
  g_row :: int
  g_col :: int
  g_fg :: int
  g_bg :: int
  g_top :: int
  g_bot :: int
  g_mode :: int
  g_visible :: bool
  t_buf :: "int list"
  t_input :: "int list list"
  t_draws :: "pad_call list"
  t_sent :: string

definition NHIST :: int where "NHIST = 128"
definition MODE_CURSOR :: int where "MODE_CURSOR = 0x01"
definition MODE_WRAP :: int where "MODE_WRAP = 0x02"
definition MODE_ORIGIN :: int where "MODE_ORIGIN = 0x04"
definition MODE_AUTOCR :: int where "MODE_AUTOCR = 0x08"
definition ATTR_BOLD :: int where "ATTR_BOLD = 0x10"
definition ATTR_ITALIC :: int where "ATTR_ITALIC = 0x20"
definition ATTR_REV :: int where "ATTR_REV = 0x40"
definition ATTR_ALL :: int where "ATTR_ALL = or ATTR_BOLD (or ATTR_ITALIC ATTR_REV)"
definition MODE_INSERT :: int where "MODE_INSERT = 0x100"
definition MODE_WRAPREADY :: int where "MODE_WRAPREADY = 0x200"
definition MODE_CLR8 :: int where "MODE_CLR8 = 0x400"
definition FN_I :: int where "FN_I = 0x01000000"
definition FN_B :: int where "FN_B = 0x02000000"
definition FN_C :: int where "FN_C = 0x00ffffff"
definition DWCHAR :: int where "DWCHAR = 0x40000000"

definition limit :: "int \<Rightarrow> int \<Rightarrow> int \<Rightarrow> int" where
  "limit n a b = (if n < a then a else if n > b then b else n)"

definition bit_set :: "int \<Rightarrow> int \<Rightarrow> bool \<Rightarrow> int" where
  "bit_set i b v = (if v then or i b else and i (not b))"

definition flag :: "tty \<Rightarrow> int \<Rightarrow> bool" where
  "flag t b \<longleftrightarrow> and (g_mode t) b \<noteq> 0"

section \<open>Colours\<close>

definition clr16 :: "int list" where
  "clr16 = [0x000000, 0xaa0000, 0x00aa00, 0xaa5500, 0x0000aa, 0xaa00aa, 0x00aaaa, 0xaaaaaa,
     0x555555, 0xff5555, 0x55ff55, 0xffff55, 0x5555ff, 0xff55ff, 0x55ffff, 0xffffff]"

definition FGCOLOR :: int where "FGCOLOR = 0xffffff"
definition BGCOLOR :: int where "BGCOLOR = 0x000000"

definition rgb :: "int \<Rightarrow> int \<Rightarrow> int \<Rightarrow> int" where
  "rgb r g b = or (or (shl r 16) (shl g 8)) b"

definition clrmap :: "int \<Rightarrow> int option" where
  "clrmap c = do {
     g \<leftarrow> c_int ((c - 232) * 10 + 8);
     (if c < 16 then rd clr16 c
      else if c < 232 then
        (let ri = (c - 16) sdiv 36; gi = (c - 16) smod 36 sdiv 6; bi = (c - 16) smod 6;
             rc = (if ri \<noteq> 0 then ri * 40 + 55 else 0);
             gc = (if gi \<noteq> 0 then gi * 40 + 55 else 0);
             bc = (if bi \<noteq> 0 then bi * 40 + 55 else 0)
         in Some (rgb rc gc bc))
      else Some (rgb g g g)) }"

definition term_clrmap :: "int \<Rightarrow> int option" where
  "term_clrmap c = clrmap c"

definition fgcolor :: "tty \<Rightarrow> int" where
  "fgcolor t =
     (let c = (if flag t ATTR_REV then g_bg t else g_fg t);
          c1 = (if flag t ATTR_BOLD then or c FN_B else c)
      in if flag t ATTR_ITALIC then or c1 FN_I else c1)"

definition bgcolor :: "tty \<Rightarrow> int" where
  "bgcolor t = (if flag t ATTR_REV then g_fg t else g_bg t)"

definition term_setfgcolor :: "int \<Rightarrow> tty \<Rightarrow> tty option" where
  "term_setfgcolor color t = do { c \<leftarrow> clrmap color; Some (t\<lparr>g_fg := c\<rparr>) }"

definition term_setbgcolor :: "int \<Rightarrow> tty \<Rightarrow> tty option" where
  "term_setbgcolor color t = do { c \<leftarrow> clrmap color; Some (t\<lparr>g_bg := c\<rparr>) }"

section \<open>Low level drawing and lazy updating\<close>

definition OFFSET :: "tty \<Rightarrow> int \<Rightarrow> int \<Rightarrow> int" where
  "OFFSET t r c = r * t_pcols t + c"

definition pad_emit :: "pad_call \<Rightarrow> tty \<Rightarrow> tty" where
  "pad_emit d t = t\<lparr>t_draws := t_draws t @ [d]\<rparr>"

definition draw_pos :: "int \<Rightarrow> int \<Rightarrow> bool \<Rightarrow> tty \<Rightarrow> tty option" where
  "draw_pos r c cursor t = do {
     let rev = (cursor \<and> flag t MODE_CURSOR);
     let i = OFFSET t r c;
     b \<leftarrow> rd (t_bgs t) i;
     f \<leftarrow> rd (t_fgs t) i;
     ch \<leftarrow> rd (t_screen t) i;
     Some (pad_emit (PadPut ch r c (if rev then b else f) (if rev then f else b)) t) }"

text \<open>
  One iteration of the loop of \<open>_draw_row\<close>; the state holds \<open>fsc\<close>, \<open>fbg\<close> and \<open>cbg\<close>.
\<close>

definition draw_row_step :: "int \<Rightarrow> int \<Rightarrow> int \<times> int \<times> int \<times> tty \<Rightarrow> (int \<times> int \<times> int \<times> tty) option" where
  "draw_row_step r i s = (case s of (fsc, fbg, _, t) \<Rightarrow> do {
     cbg \<leftarrow> rd (t_bgs t) (OFFSET t r i);
     ch \<leftarrow> rd (t_screen t) (OFFSET t r i);
     let cch = (if ch \<noteq> 0 then ch else 32);
     let ends = (fsc \<ge> 0 \<and> (cbg \<noteq> fbg \<or> cch \<noteq> 32));
     let t1 = (if ends then pad_emit (PadFill r (r + 1) fsc i (and fbg FN_C)) t else t);
     let fsc1 = (if ends then - 1 else fsc);
     (if cch \<noteq> 32 then do { t2 \<leftarrow> draw_pos r i False t1; Some (fsc1, fbg, cbg, t2) }
      else if fsc1 < 0 then Some (i, cbg, cbg, t1)
      else Some (fsc1, fbg, cbg, t1)) })"

definition draw_row :: "int \<Rightarrow> tty \<Rightarrow> tty option" where
  "draw_row r t = do {
     (fsc, fbg, cbg, t1) \<leftarrow> for_range 0 (t_pcols t) (draw_row_step r) (- 1, 0, 0, t);
     Some (pad_emit (PadFill r (r + 1) (if fsc \<ge> 0 then fsc else t_pcols t1) (- 1) (and cbg FN_C)) t1) }"

definition mark_dirty :: "int \<Rightarrow> tty \<Rightarrow> tty option" where
  "mark_dirty i t = do { d \<leftarrow> wr (t_dirty t) i True; Some (t\<lparr>t_dirty := d\<rparr>) }"

definition candraw :: "int \<Rightarrow> int \<Rightarrow> tty \<Rightarrow> (bool \<times> tty) option" where
  "candraw sr er t = do {
     t1 \<leftarrow> (if g_lazy t then for_range sr er mark_dirty t else Some t);
     Some (g_visible t1 \<and> \<not> g_lazy t1, t1) }"

definition draw_rows :: "int \<Rightarrow> int \<Rightarrow> tty \<Rightarrow> tty option" where
  "draw_rows sr er t = do {
     (ok, t1) \<leftarrow> candraw sr er t;
     (if ok then for_range sr er draw_row t1 else Some t1) }"

definition draw_cols :: "int \<Rightarrow> int \<Rightarrow> int \<Rightarrow> tty \<Rightarrow> tty option" where
  "draw_cols r sc ec t = do {
     (ok, t1) \<leftarrow> candraw r (r + 1) t;
     (if ok then for_range sc ec (\<lambda>i. draw_pos r i False) t1 else Some t1) }"

definition draw_char :: "int \<Rightarrow> int \<Rightarrow> int \<Rightarrow> tty \<Rightarrow> tty option" where
  "draw_char ch r c t = do {
     let i = OFFSET t r c;
     s \<leftarrow> wr (t_screen t) i ch;
     f \<leftarrow> wr (t_fgs t) i (fgcolor t);
     b \<leftarrow> wr (t_bgs t) i (bgcolor t);
     (ok, t1) \<leftarrow> candraw r (r + 1) (t\<lparr>t_screen := s, t_fgs := f, t_bgs := b\<rparr>);
     (if ok then draw_pos r c False t1 else Some t1) }"

definition term_drawchar :: "int \<Rightarrow> int \<Rightarrow> int \<Rightarrow> tty \<Rightarrow> tty option" where
  "term_drawchar ch r c t = draw_char ch r c t"

definition draw_cursor :: "bool \<Rightarrow> tty \<Rightarrow> tty option" where
  "draw_cursor put t = do {
     (ok, t1) \<leftarrow> candraw (g_row t) (g_row t + 1) t;
     (if ok then draw_pos (g_row t1) (g_col t1) put t1 else Some t1) }"

definition lazy_start :: "tty \<Rightarrow> tty option" where
  "lazy_start t = do {
     d \<leftarrow> mem_fill (t_dirty t) 0 (t_prows t) False;
     Some (t\<lparr>t_dirty := d, g_lazy := True\<rparr>) }"

definition lazy_flush :: "tty \<Rightarrow> tty option" where
  "lazy_flush t =
     (if \<not> g_visible t \<or> \<not> g_lazy t then Some t
      else do {
        t1 \<leftarrow> for_range 0 (t_prows t)
          (\<lambda>i s. do { d \<leftarrow> rd (t_dirty s) i; (if d then draw_row i s else Some s) }) t;
        d \<leftarrow> rd (t_dirty t1) (g_row t1);
        t2 \<leftarrow> (if d then draw_pos (g_row t1) (g_col t1) True t1 else Some t1);
        Some (t2\<lparr>g_lazy := False, t_hpos := 0\<rparr>) })"

definition screen_reset :: "int \<Rightarrow> int \<Rightarrow> tty \<Rightarrow> tty option" where
  "screen_reset i n t = do {
     r1 \<leftarrow> c_div i (t_pcols t);
     r2 \<leftarrow> c_div (i + n) (t_pcols t);
     (_, t1) \<leftarrow> candraw r1 r2 t;
     s \<leftarrow> mem_fill (t_screen t1) i n 0;
     f \<leftarrow> loop_fill (t_fgs t1) i n (g_fg t1);
     b \<leftarrow> loop_fill (t_bgs t1) i n (g_bg t1);
     Some (t1\<lparr>t_screen := s, t_fgs := f, t_bgs := b\<rparr>) }"

definition screen_move :: "int \<Rightarrow> int \<Rightarrow> int \<Rightarrow> tty \<Rightarrow> tty option" where
  "screen_move dst src n t = do {
     srow \<leftarrow> c_div (min src dst + (if n > 0 then 0 else n)) (t_pcols t);
     drow \<leftarrow> c_div (max src dst + (if n > 0 then n else 0)) (t_pcols t);
     (_, t1) \<leftarrow> candraw srow drow t;
     s \<leftarrow> mem_move (t_screen t1) dst src n;
     f \<leftarrow> mem_move (t_fgs t1) dst src n;
     b \<leftarrow> mem_move (t_bgs t1) dst src n;
     Some (t1\<lparr>t_screen := s, t_fgs := f, t_bgs := b\<rparr>) }"

section \<open>Making, saving and loading a terminal\<close>

definition state_zero :: term_state where
  "state_zero = \<lparr>ts_row = 0, ts_col = 0, ts_fg = 0, ts_bg = 0, ts_mode = 0\<rparr>"

definition term_zero :: "tty \<Rightarrow> tty option" where
  "term_zero t = do {
     s \<leftarrow> mem_fill (t_screen t) 0 (t_prows t * t_pcols t) 0;
     h \<leftarrow> mem_fill (t_hist t) 0 (NHIST * t_pcols t) 0;
     f \<leftarrow> mem_fill (t_fgs t) 0 (t_prows t * t_pcols t) 0;
     b \<leftarrow> mem_fill (t_bgs t) 0 (t_prows t * t_pcols t) 0;
     d \<leftarrow> mem_fill (t_dirty t) 0 (t_prows t) False;
     Some (t\<lparr>t_screen := s, t_hist := h, t_fgs := f, t_bgs := b, t_dirty := d,
        t_cur := state_zero, t_sav := state_zero, t_fd := 0, t_hrow := 0, t_hpos := 0, t_lazy := False,
        t_pid := 0, t_top := 0, t_bot := 0, t_rows := 0, t_cols := 0, t_signal := False\<rparr>) }"

text \<open>
  \<open>term_make\<close>: the blocks hold an arbitrary value \<open>g\<close> before they are cleared. The globals
  start as zeros.
\<close>

definition term_make :: "int \<Rightarrow> int \<Rightarrow> int \<Rightarrow> tty option" where
  "term_make g rows cols = term_zero
     \<lparr>t_prows = rows, t_pcols = cols,
      t_screen = replicate (nat (rows * cols)) g, t_hist = replicate (nat (NHIST * cols)) g,
      t_fgs = replicate (nat (rows * cols)) g, t_bgs = replicate (nat (rows * cols)) g,
      t_dirty = replicate (nat rows) True, t_cur = state_zero, t_sav = state_zero,
      t_fd = g, t_hrow = g, t_hpos = g, t_lazy = True, t_pid = g, t_top = g, t_bot = g,
      t_rows = g, t_cols = g, t_signal = True,
      g_lazy = False, g_row = 0, g_col = 0, g_fg = 0, g_bg = 0, g_top = 0, g_bot = 0, g_mode = 0,
      g_visible = False, t_buf = [], t_input = [], t_draws = [], t_sent = []\<rparr>"

definition term_fd :: "tty \<Rightarrow> int" where
  "term_fd t = t_fd t"

definition term_send :: "char \<Rightarrow> tty \<Rightarrow> tty" where
  "term_send c t = (if t_fd t \<noteq> 0 then t\<lparr>t_sent := t_sent t @ [c]\<rparr> else t)"

definition term_sendstr :: "string \<Rightarrow> tty \<Rightarrow> tty" where
  "term_sendstr s t = (if t_fd t \<noteq> 0 then t\<lparr>t_sent := t_sent t @ s\<rparr> else t)"

definition term_blank :: "tty \<Rightarrow> tty option" where
  "term_blank t = do {
     t1 \<leftarrow> screen_reset 0 (t_prows t * t_pcols t) t;
     Some (if g_visible t1 then pad_emit (PadFill 0 (- 1) 0 (- 1) (and (bgcolor t1) FN_C)) t1 else t1) }"

definition term_reset :: "tty \<Rightarrow> tty option" where
  "term_reset t = term_blank (t\<lparr>g_row := 0, g_col := 0, g_top := 0, g_bot := t_prows t,
     g_mode := or MODE_CURSOR (or MODE_WRAP MODE_CLR8), g_fg := FGCOLOR, g_bg := BGCOLOR\<rparr>)"

definition misc_state :: "tty \<Rightarrow> term_state" where
  "misc_state t = \<lparr>ts_row = g_row t, ts_col = g_col t, ts_fg = g_fg t, ts_bg = g_bg t, ts_mode = g_mode t\<rparr>"

text \<open>\<open>misc_save(&term->sav)\<close> and \<open>misc_save(&term->cur)\<close>\<close>

definition misc_save_sav :: "tty \<Rightarrow> tty" where
  "misc_save_sav t = t\<lparr>t_sav := misc_state t\<rparr>"

definition misc_save_cur :: "tty \<Rightarrow> tty" where
  "misc_save_cur t = t\<lparr>t_cur := misc_state t\<rparr>"

definition misc_load :: "term_state \<Rightarrow> tty \<Rightarrow> tty" where
  "misc_load s t = t\<lparr>g_row := ts_row s, g_col := ts_col s, g_fg := ts_fg s, g_bg := ts_bg s, g_mode := ts_mode s\<rparr>"

definition term_save :: "tty \<Rightarrow> tty option" where
  "term_save t = do {
     let t1 = t\<lparr>g_visible := False\<rparr>;
     t2 \<leftarrow> (if \<not> g_lazy t1 then lazy_start t1 else Some t1);
     let t3 = misc_save_cur t2;
     Some (t3\<lparr>t_top := g_top t3, t_bot := g_bot t3, t_lazy := g_lazy t3\<rparr>) }"

definition term_load :: "bool \<Rightarrow> tty \<Rightarrow> tty" where
  "term_load flags t =
     (misc_load (t_cur t) t)\<lparr>g_visible := flags, g_top := t_top t, g_bot := t_bot t, g_lazy := t_lazy t\<rparr>"

definition term_signal :: "tty \<Rightarrow> tty" where
  "term_signal t = t\<lparr>t_signal := True\<rparr>"

text \<open>The body of the loop of \<open>resizeupdate\<close>, and the loop, which runs up or down.\<close>

definition resize_cell :: "int \<Rightarrow> int \<Rightarrow> int \<Rightarrow> int \<Rightarrow> int \<Rightarrow> tty \<Rightarrow> tty option" where
  "resize_cell dr orows oc nc dst t = do {
     r \<leftarrow> c_div dst nc;
     let c = dst smod nc;
     let src = (if dr + r < orows \<and> c < oc then (dr + r) * oc + c else - 1);
     x \<leftarrow> (if src \<ge> 0 then rd (t_screen t) src else Some 0);
     f \<leftarrow> (if src \<ge> 0 then rd (t_fgs t) src else Some (fgcolor t));
     b \<leftarrow> (if src \<ge> 0 then rd (t_bgs t) src else Some (bgcolor t));
     s \<leftarrow> wr (t_screen t) dst x;
     fs \<leftarrow> wr (t_fgs t) dst f;
     bs \<leftarrow> wr (t_bgs t) dst b;
     Some (t\<lparr>t_screen := s, t_fgs := fs, t_bgs := bs\<rparr>) }"

definition resizeupdate :: "int \<Rightarrow> int \<Rightarrow> int \<Rightarrow> int \<Rightarrow> tty \<Rightarrow> tty option" where
  "resizeupdate orows oc nr nc t =
     for_list (resize_cell (if g_row t \<ge> nr then g_row t - nr + 1 else 0) orows oc nc)
       (if nc \<le> oc then [0..nr * nc - 1] else rev [0..nr * nc - 1]) t"

definition term_redraw :: "bool \<Rightarrow> tty \<Rightarrow> tty option" where
  "term_redraw all t =
     (if t_fd t \<noteq> 0 then do {
        t1 \<leftarrow> (if t_rows t \<noteq> t_prows t \<or> t_cols t \<noteq> t_pcols t then do {
            s \<leftarrow> resizeupdate (t_rows t) (t_cols t) (t_prows t) (t_pcols t) t;
            let bot = (if g_bot s = t_rows s then t_prows s else g_bot s);
            let rows = t_prows s;
            let cols = t_pcols s;
            Some (s\<lparr>t_rows := rows, t_cols := cols, g_top := min (g_top s) rows, g_bot := min bot rows,
              g_row := min (g_row s) (rows - 1), g_col := min (g_col s) (cols - 1)\<rparr>) }
          else Some t);
        t2 \<leftarrow> (if all then do {
            s \<leftarrow> lazy_start (pad_emit (PadFill (t_prows t1) (- 1) 0 (- 1) BGCOLOR) t1);
            d \<leftarrow> mem_fill (t_dirty s) 0 (t_prows s) True;
            Some (s\<lparr>t_dirty := d\<rparr>) }
          else Some t1);
        (if all \<or> t_hpos t2 = 0 then lazy_flush t2 else Some t2) }
      else Some (if all then pad_emit (PadFill 0 (- 1) 0 (- 1) 0) t else t))"

definition term_end :: "tty \<Rightarrow> tty option" where
  "term_end t = do {
     t1 \<leftarrow> term_zero t;
     let t2 = term_load (g_visible t1) t1;
     (if g_visible t2 then term_redraw True t2 else Some t2) }"

section \<open>Environment of the program\<close>

text \<open>\<open>envcpy\<close> copies at most \<open>len - 1\<close> variables.\<close>

definition envcpy :: "string list \<Rightarrow> nat \<Rightarrow> string list" where
  "envcpy s len = take (len - 1) s"

text \<open>
  \<open>envset\<close>: the first entry whose bytes differ from the name is replaced (\<open>memcmp\<close> returns
  nonzero for a difference). \<open>memcmp\<close> compares \<open>len\<close> bytes, so an entry that is shorter than
  the name and agrees with it is read behind its end.
\<close>

definition mem_differs :: "string \<Rightarrow> string \<Rightarrow> nat \<Rightarrow> bool option" where
  "mem_differs a b n =
     (if take n (a @ [NUL]) \<noteq> take (min n (length a + 1)) (b @ [NUL]) then Some True
      else if n \<le> length a + 1 then Some False else None)"

fun envset_at :: "string list \<Rightarrow> string \<Rightarrow> nat \<Rightarrow> string list option" where
  "envset_at [] env len = Some [env]"
| "envset_at (d # ds) env len = do {
     b \<leftarrow> mem_differs d env len;
     (if b then Some (env # ds) else do { r \<leftarrow> envset_at ds env len; Some (d # r) }) }"

definition envset :: "string list \<Rightarrow> string \<Rightarrow> string list option" where
  "envset d env =
     (if CHR ''='' \<in> set env then envset_at d env (length (takeWhile (\<lambda>c. c \<noteq> CHR ''='') env)) else None)"

section \<open>Screen shots\<close>

text \<open>\<open>writeutf8\<close>: the bytes of a character; a zero cell is written as a space.\<close>

definition byte :: "int \<Rightarrow> int" where
  "byte c = and c 0xff"

definition writeutf8 :: "int \<Rightarrow> int list" where
  "writeutf8 c =
     (let cont = (\<lambda>l. byte (or 0x80 (and (drop_bit (l * 6) c) 0x3f))) in
      if c > 0xffff then [byte (or 0xf0 (drop_bit 18 c)), cont 2, cont 1, cont 0]
      else if c > 0x7ff then [byte (or 0xe0 (drop_bit 12 c)), cont 1, cont 0]
      else if c > 0x7f then [byte (or 0xc0 (drop_bit 6 c)), cont 0]
      else [if c > 0 then c else 32])"

text \<open>One line of the screen shot: undefined where it does not fit the buffer of 2048 bytes.\<close>

definition shot_cell :: "int \<Rightarrow> tty \<Rightarrow> int \<Rightarrow> int list \<Rightarrow> int list option" where
  "shot_cell i t j s = do {
     x \<leftarrow> rd (t_screen t) (OFFSET t i j);
     (if and x DWCHAR = 0
      then (let s' = s @ writeutf8 x in if length s' \<le> 2048 then Some s' else None)
      else Some s) }"

definition shot_line :: "int \<Rightarrow> tty \<Rightarrow> int list option" where
  "shot_line i t = do {
     s \<leftarrow> for_range 0 (t_pcols t) (shot_cell i t) [];
     (if length s + 1 \<le> 2048 then Some (s @ [10]) else None) }"

definition term_screenshot :: "tty \<Rightarrow> int list option" where
  "term_screenshot t =
     for_range 0 (t_prows t) (\<lambda>i out. do { l \<leftarrow> shot_line i t; Some (out @ l) }) []"

section \<open>High-level drawing\<close>

definition empty_rows :: "int \<Rightarrow> int \<Rightarrow> tty \<Rightarrow> tty option" where
  "empty_rows sr er t = screen_reset (OFFSET t sr 0) ((er - sr) * t_pcols t) t"

definition blank_rows :: "int \<Rightarrow> int \<Rightarrow> tty \<Rightarrow> tty option" where
  "blank_rows sr er t = do {
     t1 \<leftarrow> empty_rows sr er t;
     t2 \<leftarrow> draw_rows sr er t1;
     draw_cursor True t2 }"

text \<open>\<open>HISTROW(pos)\<close> as an offset into \<open>hist\<close>.\<close>

definition HISTROW :: "tty \<Rightarrow> int \<Rightarrow> int" where
  "HISTROW t pos = ((t_hrow t + NHIST - pos) smod NHIST) * t_pcols t"

definition scrl_row :: "int \<Rightarrow> tty \<Rightarrow> tty option" where
  "scrl_row i t = do {
     line \<leftarrow> mem_get (t_screen t) (i * t_pcols t) (t_pcols t);
     h \<leftarrow> mem_put (t_hist t) (HISTROW t 0) line;
     Some (t\<lparr>t_hist := h, t_hrow := (t_hrow t + 1) smod NHIST\<rparr>) }"

definition scrl_rows :: "int \<Rightarrow> tty \<Rightarrow> tty option" where
  "scrl_rows nr t = for_range 0 nr scrl_row t"

definition scrl_draw :: "int \<Rightarrow> int \<Rightarrow> int \<Rightarrow> tty \<Rightarrow> tty option" where
  "scrl_draw hpos i j t = do {
     let off = (i - hpos) * t_pcols t;
     ch \<leftarrow> (if i < hpos then rd (t_hist t) (HISTROW t (hpos - i) + j) else rd (t_screen t) (off + j));
     f \<leftarrow> (if i < hpos then Some BGCOLOR else rd (t_fgs t) (off + j));
     b \<leftarrow> (if i < hpos then Some FGCOLOR else rd (t_bgs t) (off + j));
     Some (pad_emit (PadPut ch i j f b) t) }"

definition term_scrl :: "int \<Rightarrow> tty \<Rightarrow> tty option" where
  "term_scrl scrl t = do {
     p \<leftarrow> c_int (t_hpos t + scrl);
     let hpos = limit p 0 NHIST;
     let t1 = t\<lparr>t_hpos := hpos\<rparr>;
     (if hpos = 0 then lazy_flush t1
      else do {
        t2 \<leftarrow> lazy_start t1;
        d \<leftarrow> mem_fill (t_dirty t2) 0 (t_prows t2) True;
        for_range 0 (t_prows t2) (\<lambda>i. for_range 0 (t_pcols t2) (scrl_draw hpos i)) (t2\<lparr>t_dirty := d\<rparr>) }) }"

definition scroll_screen :: "int \<Rightarrow> int \<Rightarrow> int \<Rightarrow> tty \<Rightarrow> tty option" where
  "scroll_screen sr nr n t = do {
     t1 \<leftarrow> draw_cursor False t;
     t2 \<leftarrow> (if sr + n = 0 then scrl_rows sr t1 else Some t1);
     t3 \<leftarrow> screen_move (OFFSET t2 (sr + n) 0) (OFFSET t2 sr 0) (nr * t_pcols t2) t2;
     t4 \<leftarrow> (if n > 0 then empty_rows sr (sr + n) t3 else empty_rows (sr + nr + n) (sr + nr) t3);
     t5 \<leftarrow> draw_rows (min sr (sr + n)) (max (sr + nr) (sr + nr + n)) t4;
     draw_cursor True t5 }"

definition insert_lines :: "int \<Rightarrow> tty \<Rightarrow> tty option" where
  "insert_lines n t = do {
     let sr = max (g_top t) (g_row t);
     let nr = g_bot t - g_row t - n;
     (if nr > 0 then scroll_screen sr nr n t else Some t) }"

definition delete_lines :: "int \<Rightarrow> tty \<Rightarrow> tty option" where
  "delete_lines n t = do {
     let r = max (g_top t) (g_row t);
     sr \<leftarrow> c_int (r + n);
     let nr = g_bot t - r - n;
     (if nr > 0 then scroll_screen sr nr (- n) t else Some t) }"

definition origin :: "tty \<Rightarrow> bool" where
  "origin t = flag t MODE_ORIGIN"

definition move_cursor :: "int \<Rightarrow> int \<Rightarrow> tty \<Rightarrow> tty option" where
  "move_cursor r c t = do {
     t1 \<leftarrow> draw_cursor False t;
     let tp = (if origin t1 then g_top t1 else 0);
     let b = (if origin t1 then g_bot t1 else t_prows t1);
     let t2 = t1\<lparr>g_row := limit r tp (b - 1), g_col := limit c 0 (t_pcols t1 - 1)\<rparr>;
     t3 \<leftarrow> draw_cursor True t2;
     Some (t3\<lparr>g_mode := bit_set (g_mode t3) MODE_WRAPREADY False\<rparr>) }"

definition term_movecursor :: "int \<Rightarrow> int \<Rightarrow> tty \<Rightarrow> tty option" where
  "term_movecursor r c t = move_cursor r c t"

definition set_region :: "int \<Rightarrow> int \<Rightarrow> tty \<Rightarrow> tty option" where
  "set_region tp b t = do {
     let t1 = t\<lparr>g_top := limit (tp - 1) 0 (t_prows t - 1)\<rparr>;
     let t2 = t1\<lparr>g_bot := limit (if b \<noteq> 0 then b else t_prows t) (g_top t1 + 1) (t_prows t)\<rparr>;
     (if origin t2 then move_cursor (g_top t2) 0 t2 else Some t2) }"

definition setattr :: "int \<Rightarrow> tty \<Rightarrow> tty option" where
  "setattr m t0 = do {
     let t = (if m = 0 \<or> m sdiv 10 = 3 then t0\<lparr>g_mode := or (g_mode t0) MODE_CLR8\<rparr> else t0);
     (if m = 0 then Some (t\<lparr>g_fg := FGCOLOR, g_bg := BGCOLOR, g_mode := and (g_mode t) (not ATTR_ALL)\<rparr>)
      else if m = 1 then Some (t\<lparr>g_mode := or (g_mode t) ATTR_BOLD\<rparr>)
      else if m = 3 then Some (t\<lparr>g_mode := or (g_mode t) ATTR_ITALIC\<rparr>)
      else if m = 7 then Some (t\<lparr>g_mode := or (g_mode t) ATTR_REV\<rparr>)
      else if m = 22 then Some (t\<lparr>g_mode := and (g_mode t) (not ATTR_BOLD)\<rparr>)
      else if m = 23 then Some (t\<lparr>g_mode := and (g_mode t) (not ATTR_ITALIC)\<rparr>)
      else if m = 27 then Some (t\<lparr>g_mode := and (g_mode t) (not ATTR_REV)\<rparr>)
      else if m sdiv 10 = 3 then
        do { c \<leftarrow> (if m > 37 then Some FGCOLOR else clrmap (m - 30)); Some (t\<lparr>g_fg := c\<rparr>) }
      else if m sdiv 10 = 4 then
        do { c \<leftarrow> (if m > 47 then Some BGCOLOR else clrmap (m - 40)); Some (t\<lparr>g_bg := c\<rparr>) }
      else if m sdiv 10 = 9 then do { c \<leftarrow> clrmap (8 + m - 90); Some (t\<lparr>g_fg := c\<rparr>) }
      else if m sdiv 10 = 10 then do { c \<leftarrow> clrmap (8 + m - 100); Some (t\<lparr>g_bg := c\<rparr>) }
      else Some t) }"

definition kill_chars :: "int \<Rightarrow> int \<Rightarrow> tty \<Rightarrow> tty option" where
  "kill_chars sc ec t = do {
     t1 \<leftarrow> for_range sc ec (\<lambda>i s. draw_char 0 (g_row s) i s) t;
     draw_cursor True t1 }"

definition move_chars :: "int \<Rightarrow> int \<Rightarrow> int \<Rightarrow> tty \<Rightarrow> tty option" where
  "move_chars sc nc n t = do {
     t1 \<leftarrow> draw_cursor False t;
     t2 \<leftarrow> screen_move (OFFSET t1 (g_row t1) (sc + n)) (OFFSET t1 (g_row t1) sc) nc t1;
     t3 \<leftarrow> (if n > 0 then screen_reset (OFFSET t2 (g_row t2) sc) n t2
            else screen_reset (OFFSET t2 (g_row t2) (t_pcols t2 + n)) (- n) t2);
     t4 \<leftarrow> draw_cols (g_row t3) (min sc (sc + n)) (t_pcols t3) t3;
     draw_cursor True t4 }"

definition delete_chars :: "int \<Rightarrow> tty \<Rightarrow> tty option" where
  "delete_chars n t = (let sc = g_col t + n; nc = t_pcols t - sc in move_chars sc nc (- n) t)"

definition insert_chars :: "int \<Rightarrow> tty \<Rightarrow> tty option" where
  "insert_chars n t = (let nc = t_pcols t - g_col t - n in move_chars (g_col t) nc n t)"

definition advance :: "int \<Rightarrow> int \<Rightarrow> bool \<Rightarrow> tty \<Rightarrow> tty option" where
  "advance dr dc scrl t = do {
     r \<leftarrow> c_int (g_row t + dr);
     c \<leftarrow> c_int (g_col t + dc);
     t1 \<leftarrow> (if dr \<noteq> 0 \<and> r \<ge> g_bot t \<and> scrl then
              (let n = g_bot t - r - 1; nr = (g_bot t - g_top t) + n
               in if nr > 0 then scroll_screen (g_top t + - n) nr n t else Some t)
            else Some t);
     t2 \<leftarrow> (if dr \<noteq> 0 \<and> r < g_top t1 \<and> scrl then
              (let n = g_top t1 - r; nr = (g_bot t1 - g_top t1) - n
               in if nr > 0 then scroll_screen (g_top t1) nr n t1 else Some t1)
            else Some t1);
     move_cursor (if dr \<noteq> 0 then limit r (g_top t2) (g_bot t2 - 1) else r)
       (limit c 0 (t_pcols t2 - 1)) t2 }"

definition insertchar :: "int \<Rightarrow> tty \<Rightarrow> tty option" where
  "insertchar c t = do {
     t1 \<leftarrow> (if flag t MODE_WRAPREADY then advance 1 (- g_col t) True t else Some t);
     t2 \<leftarrow> (if flag t1 MODE_INSERT then insert_chars 1 t1 else Some t1);
     t3 \<leftarrow> draw_char c (g_row t2) (g_col t2) t2;
     (if g_col t3 = t_pcols t3 - 1
      then Some (t3\<lparr>g_mode := bit_set (g_mode t3) MODE_WRAPREADY True\<rparr>)
      else advance 0 1 True t3) }"

definition term_insertchar :: "int \<Rightarrow> tty \<Rightarrow> tty option" where
  "term_insertchar c t = insertchar c t"

end
