(* ===== verification/Term_Safe.thy ===== *)
theory Term_Safe
  imports Term
begin

text \<open>
  Memory safety of the terminal. \<open>tty_grid\<close> says that the arrays have the sizes that
  \<open>term_make\<close> gives them, \<open>tty_pos\<close> that the cursor, the saved cursor and the scrolling
  region lie inside the screen; \<open>tty_inv\<close> is both. The grid includes that every call of pad_put and
  pad_fill that was made lies inside the pad. \<open>edited t t'\<close> says that only the
  contents of the arrays and the log changed. Every operation has a lemma that it runs
  and what it keeps, under the bounds on its arguments that it needs.
\<close>

section \<open>The invariant\<close>

text \<open>A call that lies inside a pad; a negative end means the end of the pad.\<close>

fun call_inside :: "int \<Rightarrow> int \<Rightarrow> pad_call \<Rightarrow> bool" where
  "call_inside rows cols (PadPut ch r c fg bg) \<longleftrightarrow> 0 \<le> r \<and> r < rows \<and> 0 \<le> c \<and> c < cols"
| "call_inside rows cols (PadFill sr er sc ec col) \<longleftrightarrow>
     0 \<le> sr \<and> er \<le> rows \<and> 0 \<le> sc \<and> ec \<le> cols \<and> sc \<le> (if ec \<ge> 0 then ec else cols)"

definition tty_grid :: "tty \<Rightarrow> bool" where
  "tty_grid t \<longleftrightarrow> 0 < t_prows t \<and> t_prows t < 65536 \<and> 0 < t_pcols t \<and> t_pcols t < 65536 \<and>
     int (length (t_screen t)) = t_prows t * t_pcols t \<and> int (length (t_fgs t)) = t_prows t * t_pcols t \<and>
     int (length (t_bgs t)) = t_prows t * t_pcols t \<and> int (length (t_hist t)) = NHIST * t_pcols t \<and>
     int (length (t_dirty t)) = t_prows t \<and> 0 \<le> t_hrow t \<and> t_hrow t < NHIST \<and>
     (\<forall>d \<in> set (t_draws t). call_inside (t_prows t) (t_pcols t) d)"

definition tty_pos :: "tty \<Rightarrow> bool" where
  "tty_pos t \<longleftrightarrow> 0 \<le> g_row t \<and> g_row t < t_prows t \<and> 0 \<le> g_col t \<and> g_col t < t_pcols t \<and>
     0 \<le> g_top t \<and> g_top t < g_bot t \<and> g_bot t \<le> t_prows t \<and>
     0 \<le> ts_row (t_sav t) \<and> ts_row (t_sav t) < t_prows t \<and>
     0 \<le> ts_col (t_sav t) \<and> ts_col (t_sav t) < t_pcols t"

definition tty_inv :: "tty \<Rightarrow> bool" where
  "tty_inv t \<longleftrightarrow> tty_grid t \<and> tty_pos t"

text \<open>What an operation on the contents leaves alone.\<close>

definition tty_core :: "tty \<Rightarrow> tty" where
  "tty_core t = t\<lparr>t_screen := [], t_fgs := [], t_bgs := [], t_dirty := [], t_hist := [], t_hrow := 0, t_draws := []\<rparr>"

definition edited :: "tty \<Rightarrow> tty \<Rightarrow> bool" where
  "edited t t' \<longleftrightarrow> tty_core t' = tty_core t \<and>
     length (t_screen t') = length (t_screen t) \<and> length (t_fgs t') = length (t_fgs t) \<and>
     length (t_bgs t') = length (t_bgs t) \<and> length (t_dirty t') = length (t_dirty t) \<and>
     length (t_hist t') = length (t_hist t) \<and>
     (0 \<le> t_hrow t \<and> t_hrow t < NHIST \<longrightarrow> 0 \<le> t_hrow t' \<and> t_hrow t' < NHIST) \<and>
     ((\<forall>d \<in> set (t_draws t). call_inside (t_prows t) (t_pcols t) d) \<longrightarrow>
      (\<forall>d \<in> set (t_draws t'). call_inside (t_prows t) (t_pcols t) d))"

lemma core_sel:
  "t_prows (tty_core t) = t_prows t" "t_pcols (tty_core t) = t_pcols t" "t_sav (tty_core t) = t_sav t"
  "t_cur (tty_core t) = t_cur t" "t_fd (tty_core t) = t_fd t" "g_lazy (tty_core t) = g_lazy t"
  "g_row (tty_core t) = g_row t" "g_col (tty_core t) = g_col t" "g_top (tty_core t) = g_top t"
  "g_bot (tty_core t) = g_bot t" "g_mode (tty_core t) = g_mode t" "g_visible (tty_core t) = g_visible t"
  "t_buf (tty_core t) = t_buf t" "t_input (tty_core t) = t_input t" "t_hpos (tty_core t) = t_hpos t"
  "g_fg (tty_core t) = g_fg t" "g_bg (tty_core t) = g_bg t" "t_sent (tty_core t) = t_sent t"
  by (simp_all add: tty_core_def)

lemma core_upd [simp]:
  "tty_core (t\<lparr>t_screen := s\<rparr>) = tty_core t" "tty_core (t\<lparr>t_fgs := s\<rparr>) = tty_core t"
  "tty_core (t\<lparr>t_bgs := s\<rparr>) = tty_core t" "tty_core (t\<lparr>t_dirty := d\<rparr>) = tty_core t"
  "tty_core (t\<lparr>t_hist := s\<rparr>) = tty_core t" "tty_core (t\<lparr>t_hrow := k\<rparr>) = tty_core t"
  "tty_core (t\<lparr>t_draws := l\<rparr>) = tty_core t"
  by (simp_all add: tty_core_def)

lemma edited_sel:
  assumes "edited t t'"
  shows "t_prows t' = t_prows t" "t_pcols t' = t_pcols t" "t_sav t' = t_sav t" "t_cur t' = t_cur t"
    "t_fd t' = t_fd t" "g_lazy t' = g_lazy t" "g_row t' = g_row t" "g_col t' = g_col t"
    "g_top t' = g_top t" "g_bot t' = g_bot t" "g_mode t' = g_mode t" "g_visible t' = g_visible t"
    "t_buf t' = t_buf t" "t_input t' = t_input t" "t_hpos t' = t_hpos t"
    "g_fg t' = g_fg t" "g_bg t' = g_bg t" "t_sent t' = t_sent t"
  using assms core_sel [of t] core_sel [of t'] unfolding edited_def by simp_all

lemma edited_refl [simp, intro]: "edited t t"
  by (simp add: edited_def)

lemma edited_trans [trans]: "edited t u \<Longrightarrow> edited u v \<Longrightarrow> edited t v"
  using edited_sel(1,2) [of t u] by (simp add: edited_def)

lemma edited_inv:
  assumes "edited t t'"
  shows "tty_grid t \<Longrightarrow> tty_grid t'" "tty_pos t' = tty_pos t" "tty_inv t \<Longrightarrow> tty_inv t'"
  using assms edited_sel [OF assms] by (simp_all add: tty_grid_def tty_pos_def tty_inv_def edited_def)

lemma edited_emit [simp]:
  "call_inside (t_prows t) (t_pcols t) d \<Longrightarrow> edited t (pad_emit d u) = edited t u"
  "call_inside (t_prows t) (t_pcols t) d \<Longrightarrow> edited (pad_emit d t) u = edited t u"
  by (auto simp: edited_def pad_emit_def)

lemma emit_sel [simp]:
  "t_prows (pad_emit d t) = t_prows t" "t_pcols (pad_emit d t) = t_pcols t" "t_screen (pad_emit d t) = t_screen t"
  "t_fgs (pad_emit d t) = t_fgs t" "t_bgs (pad_emit d t) = t_bgs t" "t_dirty (pad_emit d t) = t_dirty t"
  "t_hist (pad_emit d t) = t_hist t" "t_hrow (pad_emit d t) = t_hrow t" "g_row (pad_emit d t) = g_row t"
  "g_col (pad_emit d t) = g_col t" "g_lazy (pad_emit d t) = g_lazy t" "g_mode (pad_emit d t) = g_mode t"
  "tty_pos (pad_emit d t) = tty_pos t"
  "tty_grid (pad_emit d t) \<longleftrightarrow> tty_grid t \<and> call_inside (t_prows t) (t_pcols t) d"
  "tty_inv (pad_emit d t) \<longleftrightarrow> tty_inv t \<and> call_inside (t_prows t) (t_pcols t) d"
  by (auto simp: pad_emit_def tty_grid_def tty_pos_def tty_inv_def)

lemma emit_all: "tty_inv t \<Longrightarrow> tty_inv (pad_emit (PadFill 0 (- 1) 0 (- 1) c) t)"
  by (simp, simp add: tty_inv_def tty_grid_def)

text \<open>A computation that only edits, with what holds of its result besides.\<close>

abbreviation edits :: "tty \<Rightarrow> tty option \<Rightarrow> bool" where
  "edits t m \<equiv> runs m (edited t)"

lemma edits_bind:
  assumes "edits t m" "\<And>u. edited t u \<Longrightarrow> edits u (f u)"
  shows "edits t (do { u \<leftarrow> m; f u })"
  using assms by (fastforce simp: wp runs_iff intro: edited_trans)

lemma edits_range:
  assumes "\<And>i u. lo \<le> i \<Longrightarrow> i < hi \<Longrightarrow> edited t u \<Longrightarrow> edits u (f i u)"
  shows "edits t (for_range lo hi f t)"
proof (rule for_range_keeps)
  show "edits t (f i u)" if "lo \<le> i" "i < hi" "edited t u" for i u
    using assms [OF that] by (rule runs_mono) (use that in \<open>blast intro: edited_trans\<close>)
qed simp

section \<open>Drawing\<close>

text \<open>Drawing changes the log and the flags of the changed rows only.\<close>

definition drawn :: "tty \<Rightarrow> tty \<Rightarrow> bool" where
  "drawn t u \<longleftrightarrow> edited t u \<and> t_screen u = t_screen t \<and> t_fgs u = t_fgs t \<and> t_bgs u = t_bgs t \<and>
     t_hist u = t_hist t \<and> t_hrow u = t_hrow t"

lemma drawn_edited: "drawn t u \<Longrightarrow> edited t u"
  by (simp add: drawn_def)

lemmas drawn_sel = edited_sel [OF drawn_edited]
lemmas drawn_inv = edited_inv [OF drawn_edited]

lemma drawn_refl [simp, intro]: "drawn t t"
  by (simp add: drawn_def)

lemma drawn_trans [trans]: "drawn t u \<Longrightarrow> drawn u v \<Longrightarrow> drawn t v"
  by (auto simp: drawn_def intro: edited_trans)

lemma drawn_emit [simp]:
  "call_inside (t_prows t) (t_pcols t) d \<Longrightarrow> drawn t (pad_emit d u) = drawn t u"
  "call_inside (t_prows t) (t_pcols t) d \<Longrightarrow> drawn (pad_emit d t) u = drawn t u"
  by (simp_all add: drawn_def)

abbreviation draws :: "tty \<Rightarrow> tty option \<Rightarrow> bool" where
  "draws t m \<equiv> runs m (drawn t)"

lemma draws_edits: "draws t m \<Longrightarrow> edits t m"
  by (erule runs_mono) (rule drawn_edited)

lemma draws_range:
  assumes "\<And>i u. lo \<le> i \<Longrightarrow> i < hi \<Longrightarrow> drawn t u \<Longrightarrow> draws u (f i u)"
  shows "draws t (for_range lo hi f t)"
proof (rule for_range_keeps)
  show "draws t (f i u)" if "lo \<le> i" "i < hi" "drawn t u" for i u
    using assms [OF that] by (rule runs_mono) (use that in \<open>blast intro: drawn_trans\<close>)
qed simp

lemma offset_bounds:
  assumes "tty_grid t" "0 \<le> r" "r < t_prows t" "0 \<le> c" "c < t_pcols t"
  shows "0 \<le> OFFSET t r c" "OFFSET t r c < t_prows t * t_pcols t"
proof -
  from assms(2,4) have "0 \<le> r * t_pcols t" using assms by simp
  then show "0 \<le> OFFSET t r c" using assms by (simp add: OFFSET_def)
  have "(r + 1) * t_pcols t \<le> t_prows t * t_pcols t" using assms by (intro mult_right_mono) simp_all
  then show "OFFSET t r c < t_prows t * t_pcols t" using assms(5) by (simp add: OFFSET_def algebra_simps)
qed

lemma grid_lengths:
  assumes "tty_grid t"
  shows "int (length (t_screen t)) = t_prows t * t_pcols t" "int (length (t_fgs t)) = t_prows t * t_pcols t"
    "int (length (t_bgs t)) = t_prows t * t_pcols t" "int (length (t_dirty t)) = t_prows t"
    "0 < t_prows t" "0 < t_pcols t"
  using assms by (simp_all add: tty_grid_def)

lemma offset_in:
  assumes "tty_grid t" "0 \<le> r" "r < t_prows t" "0 \<le> c" "c < t_pcols t"
  shows "0 \<le> OFFSET t r c" "OFFSET t r c < int (length (t_screen t))"
    "OFFSET t r c < int (length (t_fgs t))" "OFFSET t r c < int (length (t_bgs t))"
  using offset_bounds [OF assms] grid_lengths [OF assms(1)] by simp_all

lemma draw_pos_runs:
  assumes "tty_grid t" "0 \<le> r" "r < t_prows t" "0 \<le> c" "c < t_pcols t"
  shows "draws t (draw_pos r c put t)"
  using offset_bounds [OF assms] grid_lengths [OF assms(1)] assms
  by (simp add: draw_pos_def Let_def wp)

lemma draw_pos_after:
  assumes "drawn t u" "tty_grid t" "0 \<le> r" "r < t_prows t" "0 \<le> c" "c < t_pcols t"
  shows "draws u (draw_pos r c put u)"
  by (rule draw_pos_runs) (use assms drawn_inv(1) [OF assms(1,2)] drawn_sel(1,2) [OF assms(1)] in simp_all)

lemma draw_row_runs:
  assumes "tty_grid t" "0 \<le> r" "r < t_prows t"
  shows "draws t (draw_row r t)"
proof -
  have cols: "0 \<le> t_pcols t" using assms(1) by (simp add: tty_grid_def)
  have "runs (for_range 0 (t_pcols t) (draw_row_step r) (- 1, 0, 0, t)) (\<lambda>(fsc, fbg, cbg, u). drawn t u \<and> fsc < t_pcols t)"
  proof (rule for_range_inv [where I = "\<lambda>i (fsc, fbg, cbg, u). drawn t u \<and> fsc < i", OF cols], goal_cases)
    case (2 i s)
    obtain fsc fbg cbg u where s: "s = (fsc, fbg, cbg, u)" by (cases s)
    with 2 have u: "drawn t u" and fsc: "fsc < i" by simp_all
    note g = drawn_inv(1) [OF u assms(1)] and e = drawn_sel(1,2) [OF u]
    have b: "0 \<le> r" "r < t_prows u" "0 \<le> i" "i < t_pcols u" using 2 assms e by simp_all
    obtain cb ch where rd: "rd (t_bgs u) (OFFSET u r i) = Some cb" "rd (t_screen u) (OFFSET u r i) = Some ch"
      using offset_in [OF g b] by (simp add: rd_def)
    define c where "c = (if ch \<noteq> 0 then ch else 32)"
    define ends where "ends \<longleftrightarrow> 0 \<le> fsc \<and> (cb \<noteq> fbg \<or> c \<noteq> 32)"
    define w where "w = (if ends then pad_emit (PadFill r (r + 1) fsc i (and fbg FN_C)) u else u)"
    have w: "drawn t w" using u fsc b e by (simp add: w_def ends_def)
    have e2: "t_prows w = t_prows t" "t_pcols w = t_pcols t" using drawn_sel(1,2) [OF w] .
    have "runs (draw_pos r i False w) (drawn w)"
      by (rule draw_pos_runs [OF drawn_inv(1) [OF w assms(1)]]) (use b e e2 in simp_all)
    then have pos: "runs (draw_pos r i False w) (drawn t)"
      by (rule runs_mono) (rule drawn_trans [OF w])
    have "draw_row_step r i s = (if c \<noteq> 32 then do { v \<leftarrow> draw_pos r i False w; Some (if ends then - 1 else fsc, fbg, cb, v) }
        else if (if ends then - 1 else fsc) < 0 then Some (i, cb, cb, w) else Some (if ends then - 1 else fsc, fbg, cb, w))"
      by (simp add: s draw_row_step_def rd Let_def w_def ends_def c_def)
    with pos w fsc 2(1) show ?case by (auto simp: runs_iff)
  qed simp
  then show ?thesis unfolding draw_row_def runs_bind
  proof (rule runs_mono)
    fix x :: "int \<times> int \<times> int \<times> tty"
    assume x: "case x of (fsc, fbg, cbg, u) \<Rightarrow> drawn t u \<and> fsc < t_pcols t"
    obtain fsc fbg cbg u where s: "x = (fsc, fbg, cbg, u)" by (cases x)
    with x have u: "drawn t u" "fsc < t_pcols t" by simp_all
    from u drawn_sel(2) [OF u(1)] assms cols
    show "runs (case x of (fsc, fbg, cbg, t1) \<Rightarrow> Some (pad_emit (PadFill r (r + 1) (if fsc \<ge> 0 then fsc else t_pcols t1) (- 1) (and cbg FN_C)) t1)) (drawn t)"
      by (simp add: s)
  qed
qed

lemma draw_row_after:
  assumes "drawn t u" "tty_grid t" "0 \<le> r" "r < t_prows t"
  shows "draws u (draw_row r u)"
  by (rule draw_row_runs) (use assms drawn_inv(1) [OF assms(1,2)] drawn_sel(1,2) [OF assms(1)] in simp_all)

lemma mark_dirty_runs: "tty_grid t \<Longrightarrow> 0 \<le> i \<Longrightarrow> i < t_prows t \<Longrightarrow> draws t (mark_dirty i t)"
  by (simp add: mark_dirty_def wp drawn_def edited_def tty_grid_def)

text \<open>What \<open>candraw\<close> answers is never used to skip an access that would fail.\<close>

lemma candraw_runs:
  assumes "tty_grid t" "0 \<le> sr" "er \<le> t_prows t"
  shows "runs (candraw sr er t) (\<lambda>(ok, u). drawn t u)"
proof -
  have "draws t (for_range sr er mark_dirty t)"
  proof (rule draws_range, rule mark_dirty_runs)
    fix i u assume i: "sr \<le> i" "i < er" and u: "drawn t u"
    show "tty_grid u" "0 \<le> i" "i < t_prows u"
      using drawn_inv(1) [OF u assms(1)] drawn_sel(1) [OF u] i assms by simp_all
  qed
  then show ?thesis by (auto simp: candraw_def wp elim!: runs_mono)
qed

lemma candraw_bind:
  assumes "tty_grid t" "0 \<le> sr" "er \<le> t_prows t" "\<And>ok u. drawn t u \<Longrightarrow> draws u (f ok u)"
  shows "draws t (do { (ok, u) \<leftarrow> candraw sr er t; f ok u })"
  using candraw_runs [OF assms(1-3)] assms(4) by (fastforce simp: runs_iff intro: drawn_trans)

lemma draw_rows_runs:
  assumes "tty_grid t" "0 \<le> sr" "er \<le> t_prows t"
  shows "draws t (draw_rows sr er t)"
  unfolding draw_rows_def
proof (rule candraw_bind [OF assms])
  fix ok u assume u: "drawn t u"
  have "draws u (for_range sr er draw_row u)"
    by (rule draws_range, rule draw_row_after [OF drawn_trans [OF u] assms(1)]) (use assms in simp_all)
  then show "draws u (if ok then for_range sr er draw_row u else Some u)" by simp
qed

lemma draw_cols_runs:
  assumes "tty_grid t" "0 \<le> r" "r < t_prows t" "0 \<le> sc" "ec \<le> t_pcols t"
  shows "draws t (draw_cols r sc ec t)"
  unfolding draw_cols_def
proof (rule candraw_bind [OF assms(1,2)])
  fix ok u assume u: "drawn t u"
  have "draws u (for_range sc ec (\<lambda>i. draw_pos r i False) u)"
    by (rule draws_range, rule draw_pos_after [OF drawn_trans [OF u] assms(1)]) (use assms in simp_all)
  then show "draws u (if ok then for_range sc ec (\<lambda>i. draw_pos r i False) u else Some u)" by simp
qed (use assms in simp)

lemma draw_cursor_runs:
  assumes "tty_inv t"
  shows "draws t (draw_cursor put t)"
proof -
  from assms have g: "tty_grid t" and b: "0 \<le> g_row t" "g_row t < t_prows t" "0 \<le> g_col t" "g_col t < t_pcols t"
    by (simp_all add: tty_inv_def tty_pos_def)
  show ?thesis unfolding draw_cursor_def
  proof (rule candraw_bind [OF g b(1)])
    show "g_row t + 1 \<le> t_prows t" using b by simp
    show "draws w (if ok then draw_pos (g_row w) (g_col w) put w else Some w)" if w: "drawn t w" for ok w
      using draw_pos_after [OF w g b, of put] drawn_sel(7,8) [OF w] by simp
  qed
qed

lemma candraw_edits:
  assumes "tty_grid t" "0 \<le> sr" "er \<le> t_prows t" "\<And>ok u. edited t u \<Longrightarrow> edits u (f ok u)"
  shows "edits t (do { (ok, u) \<leftarrow> candraw sr er t; f ok u })"
  using candraw_runs [OF assms(1-3)] assms(4) by (fastforce simp: runs_iff dest: drawn_edited intro: edited_trans)

lemma draw_char_runs:
  assumes "tty_grid t" "0 \<le> r" "r < t_prows t" "0 \<le> c" "c < t_pcols t"
  shows "edits t (draw_char ch r c t)"
proof -
  let ?i = "nat (OFFSET t r c)"
  let ?u = "t\<lparr>t_screen := (t_screen t)[?i := ch], t_fgs := (t_fgs t)[?i := fgcolor t], t_bgs := (t_bgs t)[?i := bgcolor t]\<rparr>"
  have u: "edited t ?u" by (simp add: edited_def)
  note g = edited_inv(1) [OF u assms(1)]
  have "edits ?u (do { (ok, t1) \<leftarrow> candraw r (r + 1) ?u; (if ok then draw_pos r c False t1 else Some t1) })"
  proof (rule candraw_edits [OF g])
    show "0 \<le> r" "r + 1 \<le> t_prows ?u" using assms by simp_all
    show "edits w (if ok then draw_pos r c False w else Some w)" if w: "edited ?u w" for ok w
      using draw_pos_runs [OF edited_inv(1) [OF w g], of r c False] edited_sel(1,2) [OF w] assms by (simp add: draws_edits)
  qed
  then have "edits t (do { (ok, t1) \<leftarrow> candraw r (r + 1) ?u; (if ok then draw_pos r c False t1 else Some t1) })"
    by (rule runs_mono) (rule edited_trans [OF u])
  moreover have "wr (t_screen t) (OFFSET t r c) ch = Some ((t_screen t)[?i := ch])"
    "wr (t_fgs t) (OFFSET t r c) (fgcolor t) = Some ((t_fgs t)[?i := fgcolor t])"
    "wr (t_bgs t) (OFFSET t r c) (bgcolor t) = Some ((t_bgs t)[?i := bgcolor t])"
    using offset_in [OF assms] by (simp_all only: wr_def if_True simp_thms)
  ultimately show ?thesis by (simp only: draw_char_def Let_def Option.bind.simps)
qed

lemma lazy_start_runs:
  assumes "tty_grid t"
  shows "runs (lazy_start t) (\<lambda>u. tty_grid u \<and> tty_pos u = tty_pos t \<and> t_prows u = t_prows t \<and>
     t_pcols u = t_pcols t \<and> g_lazy u)"
proof -
  have "length (t_dirty t) = nat (t_prows t)" using grid_lengths(4) [OF assms] by simp
  with assms show ?thesis by (simp add: lazy_start_def wp mem_fill_def tty_grid_def tty_pos_def)
qed

lemma inv_flush [simp]: "tty_inv (t\<lparr>g_lazy := a, t_hpos := b\<rparr>) = tty_inv t"
  by (simp add: tty_inv_def tty_grid_def tty_pos_def)

lemma lazy_flush_runs:
  assumes "tty_inv t"
  shows "runs (lazy_flush t) tty_inv"
proof -
  have "edits t (for_range 0 (t_prows t)
      (\<lambda>i s. do { d \<leftarrow> rd (t_dirty s) i; (if d then draw_row i s else Some s) }) t)"
  proof (rule edits_range)
    fix i u assume i: "0 \<le> i" "i < t_prows t" and u: "edited t u"
    then have g: "tty_grid u" using assms edited_inv(1) by (auto simp: tty_inv_def)
    then show "edits u (do { d \<leftarrow> rd (t_dirty u) i; (if d then draw_row i u else Some u) })"
      using i grid_lengths(4) [OF g] edited_sel(1) [OF u] draws_edits [OF draw_row_runs [OF g i(1)]] by (simp add: wp)
  qed
  then have "edits t (do {
        t1 \<leftarrow> for_range 0 (t_prows t) (\<lambda>i s. do { d \<leftarrow> rd (t_dirty s) i; (if d then draw_row i s else Some s) }) t;
        d \<leftarrow> rd (t_dirty t1) (g_row t1);
        (if d then draw_pos (g_row t1) (g_col t1) True t1 else Some t1) })"
  proof (rule edits_bind)
    fix u assume u: "edited t u"
    from edited_inv(3) [OF u assms] have g: "tty_grid u" and p: "tty_pos u" by (simp_all add: tty_inv_def)
    then show "edits u (do { d \<leftarrow> rd (t_dirty u) (g_row u);
        (if d then draw_pos (g_row u) (g_col u) True u else Some u) })"
      using grid_lengths(4) [OF g] by (auto simp: wp tty_pos_def intro: draw_pos_runs [THEN draws_edits])
  qed
  then have "runs (do {
        t1 \<leftarrow> for_range 0 (t_prows t) (\<lambda>i s. do { d \<leftarrow> rd (t_dirty s) i; (if d then draw_row i s else Some s) }) t;
        d \<leftarrow> rd (t_dirty t1) (g_row t1);
        (if d then draw_pos (g_row t1) (g_col t1) True t1 else Some t1) }) tty_inv"
    by (rule runs_mono) (rule edited_inv(3) [OF _ assms])
  then show ?thesis using assms by (simp add: lazy_flush_def runs_bind)
qed

section \<open>Blanking and moving\<close>

lemma row_of_offset:
  assumes "0 \<le> i" "i \<le> r * c" "0 < (c::int)"
  shows "0 \<le> i sdiv c" "i sdiv c \<le> r"
proof -
  from assms show "0 \<le> i sdiv c" by (simp add: sdiv_pos pos_imp_zdiv_nonneg_iff)
  have "i div c \<le> (r * c) div c" using assms by (intro zdiv_mono1) simp_all
  with assms show "i sdiv c \<le> r" by (simp add: sdiv_pos)
qed

lemma edited_store:
  assumes "length s = length (t_screen t)" "length f = length (t_fgs t)" "length b = length (t_bgs t)"
  shows "edited t (t\<lparr>t_screen := s, t_fgs := f, t_bgs := b\<rparr>)"
  using assms by (simp add: edited_def)

lemma screen_reset_runs:
  assumes "tty_grid t" "0 \<le> i" "0 \<le> n" "i + n \<le> t_prows t * t_pcols t"
  shows "edits t (screen_reset i n t)"
proof -
  note len = grid_lengths [OF assms(1)]
  have r: "0 \<le> i sdiv t_pcols t" "(i + n) sdiv t_pcols t \<le> t_prows t"
    using row_of_offset [of i "t_prows t" "t_pcols t"] row_of_offset [of "i + n" "t_prows t" "t_pcols t"] assms len(6)
    by simp_all
  have "edits t (do { (_, t1) \<leftarrow> candraw (i sdiv t_pcols t) ((i + n) sdiv t_pcols t) t;
     s \<leftarrow> mem_fill (t_screen t1) i n 0;
     f \<leftarrow> loop_fill (t_fgs t1) i n (g_fg t1);
     b \<leftarrow> loop_fill (t_bgs t1) i n (g_bg t1);
     Some (t1\<lparr>t_screen := s, t_fgs := f, t_bgs := b\<rparr>) })"
  proof (rule candraw_edits [OF assms(1) r])
    fix u assume u: "edited t u"
    have b: "i + n \<le> int (length (t_screen u))" "i + n \<le> int (length (t_fgs u))" "i + n \<le> int (length (t_bgs u))"
      using u assms(4) len unfolding edited_def by simp_all
    from b assms(2,3) show "edits u (do { s \<leftarrow> mem_fill (t_screen u) i n 0;
        f \<leftarrow> loop_fill (t_fgs u) i n (g_fg u); b \<leftarrow> loop_fill (t_bgs u) i n (g_bg u);
        Some (u\<lparr>t_screen := s, t_fgs := f, t_bgs := b\<rparr>) })"
      by (simp add: mem_fill_runs loop_fill_runs edited_store)
  qed
  then show ?thesis using len(6) by (simp add: screen_reset_def c_div_def)
qed

lemma screen_move_runs:
  assumes "tty_grid t" "0 \<le> n" "0 \<le> src" "src + n \<le> t_prows t * t_pcols t"
    "0 \<le> dst" "dst + n \<le> t_prows t * t_pcols t"
  shows "edits t (screen_move dst src n t)"
proof -
  note len = grid_lengths [OF assms(1)]
  let ?a = "min src dst + (if n > 0 then 0 else n)" and ?b = "max src dst + (if n > 0 then n else 0)"
  have "0 \<le> ?a" "?a \<le> t_prows t * t_pcols t" "0 \<le> ?b" "?b \<le> t_prows t * t_pcols t" using assms by auto
  then have r: "0 \<le> ?a sdiv t_pcols t" "?b sdiv t_pcols t \<le> t_prows t"
    using row_of_offset [of ?a "t_prows t" "t_pcols t"] row_of_offset [of ?b "t_prows t" "t_pcols t"] len(6)
    by simp_all
  have "edits t (do { (_, t1) \<leftarrow> candraw (?a sdiv t_pcols t) (?b sdiv t_pcols t) t;
     s \<leftarrow> mem_move (t_screen t1) dst src n;
     f \<leftarrow> mem_move (t_fgs t1) dst src n;
     b \<leftarrow> mem_move (t_bgs t1) dst src n;
     Some (t1\<lparr>t_screen := s, t_fgs := f, t_bgs := b\<rparr>) })"
  proof (rule candraw_edits [OF assms(1) r])
    fix u assume u: "edited t u"
    have l: "int (length (t_screen u)) = t_prows t * t_pcols t" "int (length (t_fgs u)) = t_prows t * t_pcols t"
      "int (length (t_bgs u)) = t_prows t * t_pcols t" using u len unfolding edited_def by simp_all
    have mv: "runs (mem_move xs dst src n) (\<lambda>ys. length ys = length xs)"
      if "int (length xs) = t_prows t * t_pcols t" for xs :: "int list"
      by (rule runs_mem_move_length) (use assms that in simp_all)
    from mv [OF l(1)] mv [OF l(2)] mv [OF l(3)] show "edits u (do {
        s \<leftarrow> mem_move (t_screen u) dst src n; f \<leftarrow> mem_move (t_fgs u) dst src n;
        b \<leftarrow> mem_move (t_bgs u) dst src n; Some (u\<lparr>t_screen := s, t_fgs := f, t_bgs := b\<rparr>) })"
      by (auto simp: runs_iff intro: edited_store)
  qed
  then show ?thesis using len(6) by (simp add: screen_move_def c_div_def)
qed

lemma rows_in_grid:
  assumes "tty_grid t" "0 \<le> a" "a \<le> b" "b \<le> t_prows t"
  shows "0 \<le> a * t_pcols t" "a * t_pcols t + (b - a) * t_pcols t \<le> t_prows t * t_pcols t" "0 \<le> (b - a) * t_pcols t"
proof -
  have "b * t_pcols t \<le> t_prows t * t_pcols t"
    using assms(4) grid_lengths(6) [OF assms(1)] by (intro mult_right_mono) simp_all
  then show "a * t_pcols t + (b - a) * t_pcols t \<le> t_prows t * t_pcols t" by (simp add: algebra_simps)
qed (use assms grid_lengths(6) [OF assms(1)] in simp_all)

lemma empty_rows_runs:
  assumes "tty_grid t" "0 \<le> sr" "sr \<le> er" "er \<le> t_prows t"
  shows "edits t (empty_rows sr er t)"
  unfolding empty_rows_def OFFSET_def using rows_in_grid [OF assms]
  by (intro screen_reset_runs [OF assms(1)]) simp_all

lemma blank_rows_runs:
  assumes "tty_inv t" "0 \<le> sr" "sr \<le> er" "er \<le> t_prows t"
  shows "edits t (blank_rows sr er t)"
proof -
  from assms(1) have g: "tty_grid t" by (simp add: tty_inv_def)
  show ?thesis unfolding blank_rows_def
  proof (rule edits_bind [OF empty_rows_runs [OF g assms(2-4)]], rule edits_bind)
    fix u assume u: "edited t u"
    show "edits u (draw_rows sr er u)"
      using draw_rows_runs [OF edited_inv(1) [OF u g] assms(2)] edited_sel(1) [OF u] assms(4) by (simp add: draws_edits)
    show "edits w (draw_cursor True w)" if "edited u w" for w
      by (rule draws_edits, rule draw_cursor_runs) (use edited_inv(3) [OF edited_trans [OF u that] assms(1)] in simp)
  qed
qed

lemma scrl_row_runs:
  assumes "tty_grid t" "0 \<le> i" "i < t_prows t"
  shows "edits t (scrl_row i t)"
proof -
  note len = grid_lengths [OF assms(1)]
  from assms(1) have h: "0 \<le> t_hrow t" "t_hrow t < 128" "int (length (t_hist t)) = 128 * t_pcols t"
    by (simp_all add: tty_grid_def NHIST_def)
  from rows_in_grid [OF assms(1), of i "i + 1"] assms have
    b: "0 \<le> i * t_pcols t" "i * t_pcols t + t_pcols t \<le> int (length (t_screen t))"
    using len(1) by simp_all
  have hr: "HISTROW t 0 = t_hrow t * t_pcols t" using h by (simp add: HISTROW_def NHIST_def smod_pos)
  have "(t_hrow t + 1) * t_pcols t \<le> 128 * t_pcols t" using h len(6) by (intro mult_right_mono) simp_all
  then have "t_hrow t * t_pcols t + t_pcols t \<le> int (length (t_hist t))" using h by (simp add: algebra_simps)
  moreover have "0 \<le> t_hrow t * t_pcols t" using h len(6) by simp
  moreover have "nat (t_pcols t) \<le> length (t_screen t) - nat (i * t_pcols t)" using b len(6) by linarith
  moreover have "0 \<le> (t_hrow t + 1) smod 128 \<and> (t_hrow t + 1) smod 128 < 128" using h by (simp add: smod_pos)
  ultimately show ?thesis using b len(6)
    by (simp add: scrl_row_def wp hr edited_def NHIST_def)
qed

section \<open>Scrolling and editing\<close>

lemma inv_grid: "tty_inv t \<Longrightarrow> tty_grid t"
  by (simp add: tty_inv_def)

lemma inv_pos:
  assumes "tty_inv t"
  shows "0 \<le> g_row t" "g_row t < t_prows t" "0 \<le> g_col t" "g_col t < t_pcols t"
    "0 \<le> g_top t" "g_top t < g_bot t" "g_bot t \<le> t_prows t" "t_prows t < 65536" "t_pcols t < 65536"
  using assms by (simp_all add: tty_inv_def tty_pos_def tty_grid_def)

lemma scrl_rows_runs:
  assumes "tty_grid t" "nr \<le> t_prows t"
  shows "edits t (scrl_rows nr t)"
  unfolding scrl_rows_def
proof (rule edits_range)
  fix i u assume i: "0 \<le> i" "i < nr" and u: "edited t u"
  show "edits u (scrl_row i u)"
    by (rule scrl_row_runs [OF edited_inv(1) [OF u assms(1)] i(1)]) (use i assms edited_sel(1) [OF u] in simp)
qed

lemma scroll_screen_runs:
  assumes inv: "tty_inv t" and b: "0 \<le> sr" "0 \<le> nr" "sr + nr \<le> t_prows t" "0 \<le> sr + n" "sr + n + nr \<le> t_prows t"
  shows "edits t (scroll_screen sr nr n t)"
  unfolding scroll_screen_def
proof (rule edits_bind [OF draws_edits [OF draw_cursor_runs [OF inv]]], goal_cases)
  case (1 t1)
  note e1 = this
  note g1 = inv_grid [OF edited_inv(3) [OF e1 inv]] and p1 = edited_sel(1) [OF e1]
  show ?case
  proof (rule edits_bind, goal_cases)
    case 1
    have "sr \<le> t_prows t1" using b p1 by simp
    then show ?case using scrl_rows_runs [OF g1] by simp
  next
    case (2 t2)
    note e2 = edited_trans [OF e1 2]
    note g2 = inv_grid [OF edited_inv(3) [OF e2 inv]] and p2 = edited_sel(1) [OF e2]
    show ?case
    proof (rule edits_bind, goal_cases)
      case 1
      show ?case
        using rows_in_grid [OF g2, of sr "sr + nr"] rows_in_grid [OF g2, of "sr + n" "sr + n + nr"] b p2
        by (intro screen_move_runs [OF g2]) (simp_all add: OFFSET_def)
    next
      case (2 t3)
      note e3 = edited_trans [OF e2 2]
      note g3 = inv_grid [OF edited_inv(3) [OF e3 inv]] and p3 = edited_sel(1) [OF e3]
      show ?case
      proof (rule edits_bind, goal_cases)
        case 1
        show ?case
          using empty_rows_runs [OF g3, of sr "sr + n"] empty_rows_runs [OF g3, of "sr + nr + n" "sr + nr"] b p3
          by (simp add: algebra_simps)
      next
        case (2 t4)
        note e4 = edited_trans [OF e3 2]
        note g4 = inv_grid [OF edited_inv(3) [OF e4 inv]] and p4 = edited_sel(1) [OF e4]
        show ?case
        proof (rule edits_bind, goal_cases)
          case 1
          show ?case using b p4 by (intro draws_edits draw_rows_runs [OF g4]) simp_all
        next
          case (2 t5)
          show ?case by (rule draws_edits, rule draw_cursor_runs, rule edited_inv(3) [OF edited_trans [OF e4 2] inv])
        qed
      qed
    qed
  qed
qed

lemma insert_lines_runs:
  assumes "tty_inv t" "1 \<le> n" "g_top t \<le> g_row t"
  shows "edits t (insert_lines n t)"
  using inv_pos [OF assms(1)] assms
  by (auto simp: insert_lines_def Let_def max_def intro!: scroll_screen_runs)

lemma delete_lines_runs:
  assumes "tty_inv t" "1 \<le> n" "int_ok (max (g_top t) (g_row t) + n)"
  shows "edits t (delete_lines n t)"
  using inv_pos [OF assms(1)] assms
  by (auto simp: delete_lines_def Let_def wp intro!: scroll_screen_runs)

text \<open>Moving the cursor: the new position, and nothing else but the drawing.\<close>

definition moved :: "int \<Rightarrow> int \<Rightarrow> tty \<Rightarrow> tty \<Rightarrow> bool" where
  "moved r c t u \<longleftrightarrow> tty_inv u \<and> g_row u = r \<and> g_col u = c \<and>
     drawn (t\<lparr>g_row := r, g_col := c, g_mode := bit_set (g_mode t) MODE_WRAPREADY False\<rparr>) u"

lemma drawn_pos_update: "drawn t u \<Longrightarrow> drawn (t\<lparr>g_row := r, g_col := c\<rparr>) (u\<lparr>g_row := r, g_col := c\<rparr>)"
  "drawn t u \<Longrightarrow> drawn (t\<lparr>g_mode := m\<rparr>) (u\<lparr>g_mode := m\<rparr>)"
proof -
  have c: "tty_core (x\<lparr>g_row := r, g_col := c\<rparr>) = (tty_core x)\<lparr>g_row := r, g_col := c\<rparr>"
    "tty_core (x\<lparr>g_mode := m\<rparr>) = (tty_core x)\<lparr>g_mode := m\<rparr>" for x
    by (simp_all add: tty_core_def)
  show "drawn t u \<Longrightarrow> drawn (t\<lparr>g_row := r, g_col := c\<rparr>) (u\<lparr>g_row := r, g_col := c\<rparr>)"
    "drawn t u \<Longrightarrow> drawn (t\<lparr>g_mode := m\<rparr>) (u\<lparr>g_mode := m\<rparr>)"
    by (simp_all add: drawn_def edited_def c)
qed

lemma limit_bounds: "a \<le> b \<Longrightarrow> a \<le> limit n a b \<and> limit n a b \<le> b"
  by (simp add: limit_def)

definition cursor_row :: "int \<Rightarrow> tty \<Rightarrow> int" where
  "cursor_row r t = (if origin t then limit r (g_top t) (g_bot t - 1) else limit r 0 (t_prows t - 1))"

lemma move_cursor_runs:
  assumes inv: "tty_inv t"
  shows "runs (move_cursor r c t) (moved (cursor_row r t) (limit c 0 (t_pcols t - 1)) t)"
proof -
  note p = inv_pos [OF inv]
  let ?r = "cursor_row r t" and ?c = "limit c 0 (t_pcols t - 1)"
  have b: "0 \<le> ?r" "?r < t_prows t" "0 \<le> ?c" "?c < t_pcols t"
    using limit_bounds [of "g_top t" "g_bot t - 1" r] limit_bounds [of 0 "t_prows t - 1" r]
      limit_bounds [of 0 "t_pcols t - 1" c] p by (auto simp: cursor_row_def)
  from draw_cursor_runs [OF inv] obtain t1 where
    t1: "draw_cursor False t = Some t1" "drawn t t1" by (auto simp: runs_iff)
  note e = drawn_sel [OF t1(2)]
  let ?t2 = "t1\<lparr>g_row := ?r, g_col := ?c\<rparr>"
  have "tty_inv t1" by (rule drawn_inv(3) [OF t1(2) inv])
  then have inv2: "tty_inv ?t2" using b e by (simp add: tty_inv_def tty_grid_def tty_pos_def)
  from draw_cursor_runs [OF this] obtain t3 where
    t3: "draw_cursor True ?t2 = Some t3" "drawn ?t2 t3" by (auto simp: runs_iff)
  have "move_cursor r c t = Some (t3\<lparr>g_mode := bit_set (g_mode t3) MODE_WRAPREADY False\<rparr>)"
    using t1(1) t3(1) e by (auto simp: move_cursor_def Let_def origin_def flag_def cursor_row_def split: if_splits)
  moreover have "drawn (t\<lparr>g_row := ?r, g_col := ?c\<rparr>) t3"
    using drawn_pos_update(1) [OF t1(2)] t3(2) by (rule drawn_trans)
  from drawn_pos_update(2) [OF this, of "bit_set (g_mode t) MODE_WRAPREADY False"]
  have "drawn (t\<lparr>g_row := ?r, g_col := ?c, g_mode := bit_set (g_mode t) MODE_WRAPREADY False\<rparr>)
      (t3\<lparr>g_mode := bit_set (g_mode t) MODE_WRAPREADY False\<rparr>)" by simp
  moreover have "tty_inv t3" by (rule drawn_inv(3) [OF t3(2) inv2])
  then have "tty_inv (t3\<lparr>g_mode := bit_set (g_mode t) MODE_WRAPREADY False\<rparr>)"
    by (simp add: tty_inv_def tty_grid_def tty_pos_def)
  ultimately show ?thesis
    using drawn_sel [OF t3(2)] e by (simp add: moved_def)
qed

lemma move_cursor_inv: "tty_inv t \<Longrightarrow> runs (move_cursor r c t) tty_inv"
  by (rule runs_mono [OF move_cursor_runs]) (auto simp: moved_def)

lemma set_region_runs:
  assumes "tty_inv t"
  shows "runs (set_region tp b t) tty_inv"
proof -
  let ?t1 = "t\<lparr>g_top := limit (tp - 1) 0 (t_prows t - 1)\<rparr>"
  let ?t2 = "?t1\<lparr>g_bot := limit (if b \<noteq> 0 then b else t_prows t) (g_top ?t1 + 1) (t_prows t)\<rparr>"
  have "tty_inv ?t2"
    using assms limit_bounds [of 0 "t_prows t - 1" "tp - 1"]
      limit_bounds [of "g_top ?t1 + 1" "t_prows t" "if b \<noteq> 0 then b else t_prows t"] inv_pos [OF assms]
    by (simp add: tty_inv_def tty_grid_def tty_pos_def)
  then show ?thesis
    using move_cursor_inv [of ?t2 "g_top ?t2" 0] by (simp add: set_region_def Let_def)
qed

lemma kill_chars_runs:
  assumes "tty_inv t" "0 \<le> sc" "ec \<le> t_pcols t"
  shows "edits t (kill_chars sc ec t)"
  unfolding kill_chars_def
proof (rule edits_bind)
  show "edits t (for_range sc ec (\<lambda>i s. draw_char 0 (g_row s) i s) t)"
  proof (rule edits_range)
    fix i u assume i: "sc \<le> i" "i < ec" and u: "edited t u"
    note inv = edited_inv(3) [OF u assms(1)]
    show "edits u (draw_char 0 (g_row u) i u)"
      by (rule draw_char_runs [OF inv_grid [OF inv]]) (use inv_pos [OF inv] i assms edited_sel(2) [OF u] in simp_all)
  qed
  show "edits u (draw_cursor True u)" if "edited t u" for u
    by (rule draws_edits, rule draw_cursor_runs, rule edited_inv(3) [OF that assms(1)])
qed

lemma move_chars_runs:
  assumes inv: "tty_inv t" and b: "0 \<le> sc" "0 \<le> nc" "sc + nc \<le> t_pcols t" "0 \<le> sc + n" "sc + n + nc \<le> t_pcols t"
    "sc + nc = t_pcols t \<or> sc + n + nc = t_pcols t"
  shows "edits t (move_chars sc nc n t)"
  unfolding move_chars_def
proof (rule edits_bind [OF draws_edits [OF draw_cursor_runs [OF inv]]], goal_cases)
  case (1 t1)
  note i1 = edited_inv(3) [OF 1 inv] and e1 = edited_sel(2,7) [OF 1]
  have row: "0 \<le> g_row u * t_pcols u" "g_row u * t_pcols u + t_pcols u \<le> t_prows u * t_pcols u" if "tty_inv u" for u
    using rows_in_grid [OF inv_grid [OF that], of "g_row u" "g_row u + 1"] inv_pos [OF that] by simp_all
  show ?case
  proof (rule edits_bind, goal_cases)
    case 1
    show ?case
      by (rule screen_move_runs [OF inv_grid [OF i1]]) (use row [OF i1] b e1 in \<open>simp_all add: OFFSET_def\<close>)
  next
    case (2 t2)
    note i2 = edited_inv(3) [OF 2 i1] and e2 = edited_sel(2,7) [OF 2]
    show ?case
    proof (rule edits_bind, goal_cases)
      case 1
      show ?case
        using row [OF i2] b e1 e2 inv_pos [OF i2]
        by (auto simp: OFFSET_def intro!: screen_reset_runs [OF inv_grid [OF i2]])
    next
      case (2 t3)
      note i3 = edited_inv(3) [OF 2 i2] and e3 = edited_sel(2,7) [OF 2]
      show ?case
      proof (rule edits_bind, goal_cases)
        case 1
        show ?case
          by (intro draws_edits draw_cols_runs [OF inv_grid [OF i3]]) (use inv_pos [OF i3] b in simp_all)
      next
        case (2 t4)
        show ?case by (rule draws_edits, rule draw_cursor_runs, rule edited_inv(3) [OF 2 i3])
      qed
    qed
  qed
qed

lemma delete_chars_runs:
  assumes "tty_inv t" "0 \<le> n" "n \<le> t_pcols t - g_col t"
  shows "edits t (delete_chars n t)"
  unfolding delete_chars_def Let_def using inv_pos [OF assms(1)] assms
  by (intro move_chars_runs) simp_all

lemma insert_chars_runs:
  assumes "tty_inv t" "0 \<le> n" "n \<le> t_pcols t - g_col t"
  shows "edits t (insert_chars n t)"
  unfolding insert_chars_def Let_def using inv_pos [OF assms(1)] assms
  by (intro move_chars_runs) simp_all

lemma advance_runs:
  assumes inv: "tty_inv t" and ints: "int_ok (g_row t + dr)" "int_ok (g_col t + dc)"
  shows "runs (advance dr dc scrl t) tty_inv"
proof -
  note p = inv_pos [OF inv]
  let ?r = "g_row t + dr"
  let ?up = "if dr \<noteq> 0 \<and> ?r \<ge> g_bot t \<and> scrl then
      (let n = g_bot t - ?r - 1; nr = (g_bot t - g_top t) + n
       in if nr > 0 then scroll_screen (g_top t + - n) nr n t else Some t) else Some t"
  let ?down = "\<lambda>t1. if dr \<noteq> 0 \<and> ?r < g_top t1 \<and> scrl then
      (let n = g_top t1 - ?r; nr = (g_bot t1 - g_top t1) - n
       in if nr > 0 then scroll_screen (g_top t1) nr n t1 else Some t1) else Some t1"
  have "edits t ?up" using p by (auto simp: Let_def intro!: scroll_screen_runs [OF inv])
  then have "edits t (do { t1 \<leftarrow> ?up; ?down t1 })"
  proof (rule edits_bind)
    fix u assume u: "edited t u"
    note i = edited_inv(3) [OF u inv]
    show "edits u (?down u)" using inv_pos [OF i] by (auto simp: Let_def intro!: scroll_screen_runs [OF i])
  qed
  then have "runs (do { t1 \<leftarrow> ?up; ?down t1 })
      (\<lambda>t2. runs (move_cursor (if dr \<noteq> 0 then limit ?r (g_top t2) (g_bot t2 - 1) else ?r)
        (limit (g_col t + dc) 0 (t_pcols t2 - 1)) t2) tty_inv)"
    by (rule runs_mono) (intro move_cursor_inv edited_inv(3) [OF _ inv])
  then show ?thesis using ints by (simp add: advance_def c_int_def runs_bind)
qed

lemma small_int_ok: "- 65536 \<le> x \<Longrightarrow> x \<le> 65536 \<Longrightarrow> int_ok x"
  by (simp add: int_ok_def)

lemma inv_mode [simp]: "tty_inv (t\<lparr>g_mode := m\<rparr>) = tty_inv t"
  by (simp add: tty_inv_def tty_grid_def tty_pos_def)

lemma insertchar_runs:
  assumes inv: "tty_inv t"
  shows "runs (insertchar c t) tty_inv"
proof -
  have "runs (if flag t MODE_WRAPREADY then advance 1 (- g_col t) True t else Some t) tty_inv"
    using advance_runs [OF inv, of 1 "- g_col t" True] inv inv_pos [OF inv] by (simp add: small_int_ok)
  then obtain t1 where t1: "(if flag t MODE_WRAPREADY then advance 1 (- g_col t) True t else Some t) = Some t1" "tty_inv t1"
    by (auto simp: runs_iff)
  have "edits t1 (if flag t1 MODE_INSERT then insert_chars 1 t1 else Some t1)"
    using insert_chars_runs [OF t1(2), of 1] inv_pos [OF t1(2)] by simp
  then obtain t2 where t2: "(if flag t1 MODE_INSERT then insert_chars 1 t1 else Some t1) = Some t2" "edited t1 t2"
    by (auto simp: runs_iff)
  note i2 = edited_inv(3) [OF t2(2) t1(2)]
  from draw_char_runs [OF inv_grid [OF i2], of "g_row t2" "g_col t2" c] inv_pos [OF i2]
  obtain t3 where t3: "draw_char c (g_row t2) (g_col t2) t2 = Some t3" "edited t2 t3"
    by (auto simp: runs_iff)
  note i3 = edited_inv(3) [OF t3(2) i2]
  have "runs (advance 0 1 True t3) tty_inv"
    using inv_pos [OF i3] by (intro advance_runs [OF i3] small_int_ok) simp_all
  then show ?thesis using i3 unfolding insertchar_def t1(1) t2(1) t3(1) Option.bind.simps by simp
qed

section \<open>A small terminal\<close>

text \<open>Three rows of four columns, every cell blank, the cursor at \<open>(r, c)\<close>.\<close>

definition small_tty :: "int \<Rightarrow> int \<Rightarrow> tty" where
  "small_tty r c =
     \<lparr>t_prows = 3, t_pcols = 4, t_screen = replicate 12 32, t_hist = replicate 512 0,
      t_fgs = replicate 12 FGCOLOR, t_bgs = replicate 12 BGCOLOR, t_dirty = replicate 3 False,
      t_cur = state_zero, t_sav = state_zero, t_fd = 4, t_hrow = 0, t_hpos = 0, t_lazy = False,
      t_pid = 0, t_top = 0, t_bot = 3, t_rows = 3, t_cols = 4, t_signal = False, g_lazy = False,
      g_row = r, g_col = c, g_fg = FGCOLOR, g_bg = BGCOLOR, g_top = 0, g_bot = 3,
      g_mode = 0x403, g_visible = True, t_buf = [65, 66], t_input = [], t_draws = [], t_sent = []\<rparr>"

lemma small_tty_inv: "0 \<le> r \<Longrightarrow> r < 3 \<Longrightarrow> 0 \<le> c \<Longrightarrow> c < 4 \<Longrightarrow> tty_inv (small_tty r c)"
  by (simp add: tty_inv_def tty_grid_def tty_pos_def small_tty_def state_zero_def NHIST_def)

end
