(* ===== verification/Term_Effect.thy ===== *)
theory Term_Effect
  imports Term_Safe
begin

text \<open>
  What the operations of the terminal do to the contents of the screen: writing a character,
  blanking, and the scrolling of a line feed at the bottom of the scrolling region, with
  the line that goes to the history.
\<close>

definition block_move :: "int \<Rightarrow> int \<Rightarrow> int \<Rightarrow> 'a list \<Rightarrow> 'a list" where
  "block_move dst src n xs = take (nat dst) xs @ take (nat n) (drop (nat src) xs) @ drop (nat (dst + n)) xs"

lemma mem_move_eq:
  assumes "0 \<le> n" "0 \<le> src" "src + n \<le> int (length xs)" "0 \<le> dst" "dst + n \<le> int (length xs)"
  shows "mem_move xs dst src n = Some (block_move dst src n xs)"
proof -
  have "length (take (nat n) (drop (nat src) xs)) = nat n" using assms by simp
  with assms show ?thesis
    by (simp add: mem_move_def mem_get_def mem_put_def block_move_def nat_add_distrib del: length_take)
qed

lemma screen_reset_effect:
  assumes "tty_grid t" "0 \<le> i" "0 \<le> n" "i + n \<le> t_prows t * t_pcols t"
  shows "runs (screen_reset i n t) (\<lambda>u. t_screen u = fill_cells i (i + n) 0 (t_screen t) \<and>
     t_fgs u = fill_cells i (i + n) (g_fg t) (t_fgs t) \<and> t_bgs u = fill_cells i (i + n) (g_bg t) (t_bgs t) \<and>
     t_hist u = t_hist t \<and> t_hrow u = t_hrow t)"
proof -
  note len = grid_lengths [OF assms(1)]
  have r: "0 \<le> i sdiv t_pcols t" "(i + n) sdiv t_pcols t \<le> t_prows t"
    using row_of_offset [of i "t_prows t" "t_pcols t"] row_of_offset [of "i + n" "t_prows t" "t_pcols t"] assms len(6)
    by simp_all
  from candraw_runs [OF assms(1) r] obtain ok u where
    u: "candraw (i sdiv t_pcols t) ((i + n) sdiv t_pcols t) t = Some (ok, u)" "drawn t u"
    by (auto simp: runs_iff)
  have b: "i + n \<le> int (length (t_screen u))" "i + n \<le> int (length (t_fgs u))" "i + n \<le> int (length (t_bgs u))"
    using u(2) assms(4) len unfolding drawn_def by simp_all
  have "screen_reset i n t = Some (u\<lparr>t_screen := fill_cells i (i + n) 0 (t_screen u),
      t_fgs := fill_cells i (i + n) (g_fg u) (t_fgs u), t_bgs := fill_cells i (i + n) (g_bg u) (t_bgs u)\<rparr>)"
    using len(6) u(1) b assms by (simp add: screen_reset_def c_div_def mem_fill_runs loop_fill_runs)
  then show ?thesis using u(2) drawn_sel(16,17) [OF u(2)] by (simp add: drawn_def)
qed

lemma screen_move_effect:
  assumes "tty_grid t" "0 \<le> n" "0 \<le> src" "src + n \<le> t_prows t * t_pcols t"
    "0 \<le> dst" "dst + n \<le> t_prows t * t_pcols t"
  shows "runs (screen_move dst src n t) (\<lambda>u. t_screen u = block_move dst src n (t_screen t) \<and>
     t_fgs u = block_move dst src n (t_fgs t) \<and> t_bgs u = block_move dst src n (t_bgs t) \<and>
     t_hist u = t_hist t \<and> t_hrow u = t_hrow t)"
proof -
  note len = grid_lengths [OF assms(1)]
  let ?a = "min src dst + (if n > 0 then 0 else n)" and ?b = "max src dst + (if n > 0 then n else 0)"
  have "0 \<le> ?a" "?a \<le> t_prows t * t_pcols t" "0 \<le> ?b" "?b \<le> t_prows t * t_pcols t" using assms by auto
  then have r: "0 \<le> ?a sdiv t_pcols t" "?b sdiv t_pcols t \<le> t_prows t"
    using row_of_offset [of ?a "t_prows t" "t_pcols t"] row_of_offset [of ?b "t_prows t" "t_pcols t"] len(6)
    by simp_all
  from candraw_runs [OF assms(1) r] obtain ok u where
    u: "candraw (?a sdiv t_pcols t) (?b sdiv t_pcols t) t = Some (ok, u)" "drawn t u"
    by (auto simp: runs_iff)
  have l: "int (length (t_screen u)) = t_prows t * t_pcols t" "int (length (t_fgs u)) = t_prows t * t_pcols t"
    "int (length (t_bgs u)) = t_prows t * t_pcols t" using u(2) len unfolding drawn_def by simp_all
  have mv: "mem_move xs dst src n = Some (block_move dst src n xs)"
    if "int (length xs) = t_prows t * t_pcols t" for xs :: "int list"
    by (rule mem_move_eq) (use assms that in simp_all)
  have "screen_move dst src n t = Some (u\<lparr>t_screen := block_move dst src n (t_screen u),
      t_fgs := block_move dst src n (t_fgs u), t_bgs := block_move dst src n (t_bgs u)\<rparr>)"
    using len(6) u(1) by (simp add: screen_move_def c_div_def mv [OF l(1)] mv [OF l(2)] mv [OF l(3)])
  then show ?thesis using u(2) by (simp add: drawn_def)
qed

lemma ring_back:
  assumes "0 \<le> h" "h < (128::int)"
  shows "((h + 1) smod 128 + 127) smod 128 = h"
proof (cases "h = 127")
  case False
  with assms have "(h + 1) smod 128 = h + 1" by (simp add: smod_pos)
  with assms show ?thesis by (simp add: smod_pos)
qed (simp add: smod_pos)

lemma slice_hit: "length a = i \<Longrightarrow> length l = k \<Longrightarrow> take k (drop i (a @ l @ c)) = l"
  by simp

text \<open>The first screen row goes to the history row \<open>hrow\<close>, which moves on.\<close>

lemma scrl_row_effect:
  assumes "tty_grid t" "0 \<le> i" "i < t_prows t"
  shows "runs (scrl_row i t) (\<lambda>u. t_screen u = t_screen t \<and> t_fgs u = t_fgs t \<and> t_bgs u = t_bgs t \<and>
     take (nat (t_pcols t)) (drop (nat (HISTROW u 1)) (t_hist u)) =
       take (nat (t_pcols t)) (drop (nat (i * t_pcols t)) (t_screen t)))"
proof -
  note len = grid_lengths [OF assms(1)]
  from assms(1) have h: "0 \<le> t_hrow t" "t_hrow t < 128" "int (length (t_hist t)) = 128 * t_pcols t"
    by (simp_all add: tty_grid_def NHIST_def)
  let ?line = "take (nat (t_pcols t)) (drop (nat (i * t_pcols t)) (t_screen t))"
  let ?p = "t_hrow t * t_pcols t"
  from rows_in_grid [OF assms(1), of i "i + 1"] assms have
    b: "0 \<le> i * t_pcols t" "i * t_pcols t + t_pcols t \<le> int (length (t_screen t))"
    using len(1) by simp_all
  have ll: "length ?line = nat (t_pcols t)" using b len(6) by simp
  have hr: "HISTROW t 0 = ?p" using h by (simp add: HISTROW_def NHIST_def smod_pos)
  have "(t_hrow t + 1) * t_pcols t \<le> 128 * t_pcols t" using h len(6) by (intro mult_right_mono) simp_all
  then have p: "?p + t_pcols t \<le> int (length (t_hist t))" "0 \<le> ?p" using h len(6) by (simp_all add: algebra_simps)
  let ?h = "take (nat ?p) (t_hist t) @ ?line @ drop (nat ?p + nat (t_pcols t)) (t_hist t)"
  have run: "scrl_row i t = Some (t\<lparr>t_hist := ?h, t_hrow := (t_hrow t + 1) smod 128\<rparr>)"
    using b p len(6) by (simp add: scrl_row_def mem_get_def mem_put_def hr ll NHIST_def del: length_take)
  have "((t_hrow t + 1) smod 128 + 127) smod 128 = t_hrow t" by (rule ring_back) (use h in simp_all)
  then have "HISTROW (t\<lparr>t_hist := ?h, t_hrow := (t_hrow t + 1) smod 128\<rparr>) 1 = ?p"
    by (simp add: HISTROW_def NHIST_def add.commute)
  moreover have "length (take (nat ?p) (t_hist t)) = nat ?p"
  proof -
    have "nat ?p \<le> length (t_hist t)" using p len(6) by linarith
    then show ?thesis by simp
  qed
  from slice_hit [OF this ll] have "take (nat (t_pcols t)) (drop (nat ?p) ?h) = ?line" .
  moreover have sel: "t_hist (t\<lparr>t_hist := x, t_hrow := k\<rparr>) = x" "t_screen (t\<lparr>t_hist := x, t_hrow := k\<rparr>) = t_screen t"
    "t_fgs (t\<lparr>t_hist := x, t_hrow := k\<rparr>) = t_fgs t" "t_bgs (t\<lparr>t_hist := x, t_hrow := k\<rparr>) = t_bgs t" for x k
    by simp_all
  ultimately show ?thesis unfolding run runs_Some by (simp only: sel simp_thms)
qed

text \<open>
  \<open>region_up a b w z\<close>: the lines of width \<open>w\<close> from offset \<open>a\<close> to the last one, at offset \<open>b\<close>,
  move up by one, and the last one is filled with \<open>z\<close>.
\<close>

definition region_up :: "int \<Rightarrow> int \<Rightarrow> int \<Rightarrow> 'a \<Rightarrow> 'a list \<Rightarrow> 'a list" where
  "region_up a b w z xs =
     take (nat a) xs @ take (nat (b - a)) (drop (nat (a + w)) xs) @ replicate (nat w) z @ drop (nat (b + w)) xs"

lemma fill_cells_app:
  "length m = nat b \<Longrightarrow> 0 \<le> b \<Longrightarrow> 0 < w \<Longrightarrow>
   fill_cells b (b + w) z (m @ ys) = m @ replicate (nat w) z @ drop (nat w) ys"
  by (simp add: fill_cells_def nat_add_distrib)

lemma region_up_eq:
  assumes "0 \<le> a" "a \<le> b" "0 < w" "b + w \<le> int (length xs)"
  shows "fill_cells b (b + w) z (block_move a (a + w) (b - a) xs) = region_up a b w z xs"
proof -
  let ?m = "take (nat a) xs @ take (nat (b - a)) (drop (nat (a + w)) xs)"
  have "nat (a + w) + nat (b - a) \<le> length xs" "nat a \<le> length xs" using assms by linarith+
  then have "length ?m = nat a + nat (b - a)" by simp
  then have l: "length ?m = nat b" using assms by (simp flip: nat_add_distrib)
  have m: "block_move a (a + w) (b - a) xs = ?m @ drop (nat b) xs" by (simp add: block_move_def)
  have "fill_cells b (b + w) z (?m @ drop (nat b) xs) = ?m @ replicate (nat w) z @ drop (nat w) (drop (nat b) xs)"
    by (rule fill_cells_app [OF l]) (use assms in simp_all)
  also have "drop (nat w) (drop (nat b) xs) = drop (nat (b + w)) xs" using assms by (simp add: nat_add_distrib add.commute)
  finally have "fill_cells b (b + w) z (?m @ drop (nat b) xs) = ?m @ replicate (nat w) z @ drop (nat (b + w)) xs" .
  then show ?thesis by (simp add: m region_up_def)
qed

lemma region_up_length:
  assumes "0 \<le> a" "a \<le> b" "0 < w" "b + w \<le> int (length xs)"
  shows "length (region_up a b w z xs) = length xs"
  using assms by (simp add: region_up_def)

text \<open>Scrolling a region up by a line.\<close>

lemma scroll_up_effect:
  assumes inv: "tty_inv t" and r: "0 \<le> tp" "tp + 1 < bt" "bt \<le> t_prows t"
  defines "a \<equiv> tp * t_pcols t" and "b \<equiv> (bt - 1) * t_pcols t" and "w \<equiv> t_pcols t"
  shows "runs (scroll_screen (tp + 1) (bt - tp - 1) (- 1) t) (\<lambda>u. edited t u \<and>
     t_screen u = region_up a b w 0 (t_screen t) \<and> t_fgs u = region_up a b w (g_fg t) (t_fgs t) \<and>
     t_bgs u = region_up a b w (g_bg t) (t_bgs t) \<and>
     (tp = 0 \<longrightarrow> take (nat w) (drop (nat (HISTROW u 1)) (t_hist u)) = take (nat w) (t_screen t)))"
proof -
  note g = inv_grid [OF inv]
  note len = grid_lengths [OF g]
  have ab: "0 \<le> a" "a \<le> b" "0 < w" "b + w \<le> t_prows t * t_pcols t"
    using rows_in_grid [OF g, of tp "bt - 1"] rows_in_grid [OF g, of "bt - 1" bt] r len(6)
    by (simp_all add: a_def b_def w_def algebra_simps)
  have lin: "(tp + 1) * t_pcols t = a + w" "(bt - tp - 1) * t_pcols t = b - a" "bt * t_pcols t = b + w"
    by (simp_all add: a_def b_def w_def algebra_simps)
  from draw_cursor_runs [OF inv] obtain t1 where t1: "draw_cursor False t = Some t1" "drawn t t1"
    by (auto simp: runs_iff)
  note i1 = drawn_inv(3) [OF t1(2) inv] and s1 = drawn_sel(1,2,16,17) [OF t1(2)]
  define m2 where "m2 = (if tp = 0 then scrl_rows 1 t1 else Some t1)"
  have "runs m2 (\<lambda>t2. edited t1 t2 \<and> t_screen t2 = t_screen t1 \<and> t_fgs t2 = t_fgs t1 \<and> t_bgs t2 = t_bgs t1 \<and>
      (tp = 0 \<longrightarrow> take (nat w) (drop (nat (HISTROW t2 1)) (t_hist t2)) = take (nat w) (t_screen t1)))"
  proof (cases "tp = 0")
    case True
    have z: "0 < t_prows t1" using inv_pos [OF i1] by linarith
    have "runs (scrl_row 0 t1) (\<lambda>u. edited t1 u \<and> (t_screen u = t_screen t1 \<and> t_fgs u = t_fgs t1 \<and> t_bgs u = t_bgs t1 \<and>
        take (nat (t_pcols t1)) (drop (nat (HISTROW u 1)) (t_hist u)) =
          take (nat (t_pcols t1)) (drop (nat (0 * t_pcols t1)) (t_screen t1))))"
      using z by (intro runs_conj scrl_row_runs scrl_row_effect inv_grid [OF i1]) simp_all
    then show ?thesis using True s1 by (auto simp: m2_def scrl_rows_def for_range_unfold wp w_def elim!: runs_mono)
  qed (simp add: m2_def)
  then obtain t2 where t2: "m2 = Some t2" "edited t1 t2" "t_screen t2 = t_screen t1" "t_fgs t2 = t_fgs t1"
    "t_bgs t2 = t_bgs t1" "tp = 0 \<longrightarrow> take (nat w) (drop (nat (HISTROW t2 1)) (t_hist t2)) = take (nat w) (t_screen t1)"
    by (auto simp: runs_iff)
  note i2 = edited_inv(3) [OF t2(2) i1] and s2 = edited_sel(1,2,16,17) [OF t2(2)]
  have "runs (screen_move a (a + w) (b - a) t2) (\<lambda>u. edited t2 u \<and> (t_screen u = block_move a (a + w) (b - a) (t_screen t2) \<and>
     t_fgs u = block_move a (a + w) (b - a) (t_fgs t2) \<and> t_bgs u = block_move a (a + w) (b - a) (t_bgs t2) \<and>
     t_hist u = t_hist t2 \<and> t_hrow u = t_hrow t2))"
    by (intro runs_conj screen_move_runs screen_move_effect inv_grid [OF i2]) (use ab s1 s2 in simp_all)
  then obtain t3 where t3: "screen_move a (a + w) (b - a) t2 = Some t3" "edited t2 t3"
     "t_screen t3 = block_move a (a + w) (b - a) (t_screen t2)" "t_fgs t3 = block_move a (a + w) (b - a) (t_fgs t2)"
     "t_bgs t3 = block_move a (a + w) (b - a) (t_bgs t2)" "t_hist t3 = t_hist t2" "t_hrow t3 = t_hrow t2"
    by (auto simp: runs_iff)
  note i3 = edited_inv(3) [OF t3(2) i2] and s3 = edited_sel(1,2,16,17) [OF t3(2)]
  have "runs (screen_reset b w t3) (\<lambda>u. edited t3 u \<and> (t_screen u = fill_cells b (b + w) 0 (t_screen t3) \<and>
     t_fgs u = fill_cells b (b + w) (g_fg t3) (t_fgs t3) \<and> t_bgs u = fill_cells b (b + w) (g_bg t3) (t_bgs t3) \<and>
     t_hist u = t_hist t3 \<and> t_hrow u = t_hrow t3))"
    by (intro runs_conj screen_reset_runs screen_reset_effect inv_grid [OF i3]) (use ab s1 s2 s3 in simp_all)
  then obtain t4 where t4: "screen_reset b w t3 = Some t4" "edited t3 t4"
     "t_screen t4 = fill_cells b (b + w) 0 (t_screen t3)" "t_fgs t4 = fill_cells b (b + w) (g_fg t3) (t_fgs t3)"
     "t_bgs t4 = fill_cells b (b + w) (g_bg t3) (t_bgs t3)" "t_hist t4 = t_hist t3" "t_hrow t4 = t_hrow t3"
    by (auto simp: runs_iff)
  note i4 = edited_inv(3) [OF t4(2) i3] and s4 = edited_sel(1,2,16,17) [OF t4(2)]
  have "draws t4 (draw_rows tp bt t4)"
    by (rule draw_rows_runs [OF inv_grid [OF i4]]) (use r s1 s2 s3 s4 in simp_all)
  then obtain t5 where t5: "draw_rows tp bt t4 = Some t5" "drawn t4 t5" by (auto simp: runs_iff)
  from draw_cursor_runs [OF drawn_inv(3) [OF t5(2) i4]] obtain t6 where
    t6: "draw_cursor True t5 = Some t6" "drawn t5 t6" by (auto simp: runs_iff)
  have run: "scroll_screen (tp + 1) (bt - tp - 1) (- 1) t = Some t6"
  proof -
    have "(if tp + 1 + - 1 = 0 then scrl_rows (tp + 1) t1 else Some t1) = Some t2"
      using t2(1) by (simp add: m2_def split: if_splits)
    moreover have "screen_move (OFFSET t2 (tp + 1 + - 1) 0) (OFFSET t2 (tp + 1) 0) ((bt - tp - 1) * t_pcols t2) t2 = Some t3"
      using t3(1) s1 s2 lin by (simp add: OFFSET_def a_def)
    moreover have "empty_rows (tp + 1 + (bt - tp - 1) + - 1) (tp + 1 + (bt - tp - 1)) t3 = Some t4"
      using t4(1) s1 s2 s3 by (simp add: empty_rows_def OFFSET_def b_def w_def)
    moreover have "min (tp + 1) (tp + 1 + - 1) = tp" "max (tp + 1 + (bt - tp - 1)) (tp + 1 + (bt - tp - 1) + - 1) = bt"
      by simp_all
    ultimately show ?thesis using t1(1) t5(1) t6(1) by (simp add: scroll_screen_def)
  qed
  have all: "drawn t4 t6" using t5(2) t6(2) by (rule drawn_trans)
  have len': "b + w \<le> int (length (t_screen t))" "b + w \<le> int (length (t_fgs t))" "b + w \<le> int (length (t_bgs t))"
    using ab(4) len by simp_all
  have eq: "t_screen t6 = region_up a b w 0 (t_screen t)" "t_fgs t6 = region_up a b w (g_fg t) (t_fgs t)"
    "t_bgs t6 = region_up a b w (g_bg t) (t_bgs t)"
    using all t1(2) t2(3-5) t3(3-5) t4(3-5) s1 s2 s3 region_up_eq [OF ab(1-3) len'(1)] region_up_eq [OF ab(1-3) len'(2)]
      region_up_eq [OF ab(1-3) len'(3)] by (simp_all add: drawn_def)
  have "HISTROW t6 1 = HISTROW t2 1" "t_hist t6 = t_hist t2"
    using all t4(6,7) t3(6,7) s3 s4 drawn_sel(2) [OF all] by (simp_all add: drawn_def HISTROW_def)
  moreover have "edited t t6"
    using drawn_edited [OF t1(2)] t2(2) t3(2) t4(2) drawn_edited [OF all] by (blast intro: edited_trans)
  ultimately show ?thesis using run eq t2(6) t1(2) by (simp add: drawn_def)
qed

lemma limit_id: "a \<le> n \<Longrightarrow> n \<le> b \<Longrightarrow> limit n a b = n"
  by (simp add: limit_def)

lemma moved_contents:
  assumes "moved r c u w"
  shows "t_screen w = t_screen u" "t_fgs w = t_fgs u" "t_bgs w = t_bgs u" "t_hist w = t_hist u" "t_hrow w = t_hrow u"
    "t_pcols w = t_pcols u" "g_mode w = bit_set (g_mode u) MODE_WRAPREADY False"
proof -
  from assms have d: "drawn (u\<lparr>g_row := r, g_col := c, g_mode := bit_set (g_mode u) MODE_WRAPREADY False\<rparr>) w"
    by (simp add: moved_def)
  show "t_screen w = t_screen u" "t_fgs w = t_fgs u" "t_bgs w = t_bgs u" "t_hist w = t_hist u" "t_hrow w = t_hrow u"
    using d by (simp_all add: drawn_def)
  show "t_pcols w = t_pcols u" "g_mode w = bit_set (g_mode u) MODE_WRAPREADY False"
    using drawn_sel(2,11) [OF d] by simp_all
qed

text \<open>What the history offers for scrolling back by one line.\<close>

definition last_hist_line :: "tty \<Rightarrow> int list" where
  "last_hist_line t = take (nat (t_pcols t)) (drop (nat (HISTROW t 1)) (t_hist t))"

text \<open>
  C20. A line feed in the last row of the scrolling region moves the lines of the region up by
  one and blanks its last line; lines outside the region and the cursor stay, and when the
  region starts at the top the line that leaves the screen is the newest line of the history.
\<close>

theorem line_feed_scrolls:
  assumes inv: "tty_inv t" and row: "g_row t = g_bot t - 1" "g_top t + 1 < g_bot t"
  shows "runs (advance 1 0 True t) (\<lambda>u. tty_inv u \<and> g_row u = g_row t \<and> g_col u = g_col t \<and>
     t_screen u = region_up (g_top t * t_pcols t) (g_row t * t_pcols t) (t_pcols t) 0 (t_screen t) \<and>
     (g_top t = 0 \<longrightarrow> last_hist_line u = take (nat (t_pcols t)) (t_screen t)))"
proof -
  note p = inv_pos [OF inv]
  from scroll_up_effect [OF inv p(5) row(2) p(7)] obtain u where
    u: "scroll_screen (g_top t + 1) (g_bot t - g_top t - 1) (- 1) t = Some u" "edited t u"
      "t_screen u = region_up (g_top t * t_pcols t) (g_row t * t_pcols t) (t_pcols t) 0 (t_screen t)"
      "g_top t = 0 \<longrightarrow> last_hist_line u = take (nat (t_pcols t)) (t_screen t)"
    by (auto simp: runs_iff row(1) last_hist_line_def edited_sel)
  note e = edited_sel [OF u(2)]
  have inv': "tty_inv u" by (rule edited_inv(3) [OF u(2) inv])
  have "cursor_row (g_row t) u = g_row t" "limit (g_col t) 0 (t_pcols u - 1) = g_col t"
    "limit (g_bot t) (g_top t) (g_bot t - 1) = g_row t"
    using p row e by (auto simp: cursor_row_def limit_def)
  moreover have "int_ok (g_bot t)" "int_ok (g_col t)" using p by (simp_all add: small_int_ok)
  ultimately have "advance 1 0 True t = move_cursor (g_row t) (g_col t) u"
    using u(1) row p e by (simp add: advance_def c_int_def Let_def)
  moreover have "runs (move_cursor (g_row t) (g_col t) u) (moved (g_row t) (g_col t) u)"
    using move_cursor_runs [OF inv', of "g_row t" "g_col t"] \<open>cursor_row (g_row t) u = g_row t\<close>
      \<open>limit (g_col t) 0 (t_pcols u - 1) = g_col t\<close> by simp
  moreover have "last_hist_line w = last_hist_line u \<and> t_screen w = t_screen u" if "moved r c u w" for r c w
    using moved_contents [OF that] by (simp add: last_hist_line_def HISTROW_def)
  ultimately show ?thesis using u(3,4) by (auto simp: moved_def elim!: runs_mono)
qed

lemma draw_char_effect:
  assumes "tty_grid t" "0 \<le> r" "r < t_prows t" "0 \<le> c" "c < t_pcols t"
  shows "runs (draw_char ch r c t) (\<lambda>u. t_screen u = (t_screen t)[nat (OFFSET t r c) := ch] \<and>
     t_fgs u = (t_fgs t)[nat (OFFSET t r c) := fgcolor t] \<and> t_bgs u = (t_bgs t)[nat (OFFSET t r c) := bgcolor t])"
proof -
  let ?i = "nat (OFFSET t r c)"
  let ?u = "t\<lparr>t_screen := (t_screen t)[?i := ch], t_fgs := (t_fgs t)[?i := fgcolor t], t_bgs := (t_bgs t)[?i := bgcolor t]\<rparr>"
  have "edited t ?u" by (simp add: edited_def)
  note g = edited_inv(1) [OF this assms(1)]
  have "draws ?u (do { (ok, t1) \<leftarrow> candraw r (r + 1) ?u; (if ok then draw_pos r c False t1 else Some t1) })"
  proof (rule candraw_bind [OF g])
    show "0 \<le> r" "r + 1 \<le> t_prows ?u" using assms by simp_all
    show "draws w (if ok then draw_pos r c False w else Some w)" if w: "drawn ?u w" for ok w
      using draw_pos_after [OF w g assms(2), of c False] assms by simp
  qed
  then have "runs (do { (ok, t1) \<leftarrow> candraw r (r + 1) ?u; (if ok then draw_pos r c False t1 else Some t1) })
     (\<lambda>u. t_screen u = (t_screen t)[?i := ch] \<and> t_fgs u = (t_fgs t)[?i := fgcolor t] \<and>
        t_bgs u = (t_bgs t)[?i := bgcolor t])"
    by (rule runs_mono) (simp add: drawn_def)
  moreover have "wr (t_screen t) (OFFSET t r c) ch = Some ((t_screen t)[?i := ch])"
    "wr (t_fgs t) (OFFSET t r c) (fgcolor t) = Some ((t_fgs t)[?i := fgcolor t])"
    "wr (t_bgs t) (OFFSET t r c) (bgcolor t) = Some ((t_bgs t)[?i := bgcolor t])"
    using offset_in [OF assms] by (simp_all only: wr_def if_True simp_thms)
  ultimately show ?thesis by (simp only: draw_char_def Let_def Option.bind.simps)
qed

lemma bit_set_flag: "and (bit_set m b False) b = 0" "b \<noteq> 0 \<Longrightarrow> and (bit_set m b True) b \<noteq> 0"
proof -
  show "and (bit_set m b False) b = 0" by (simp add: bit_set_def bit_eq_iff bit_simps)
  have "and (bit_set m b True) b = b" by (rule bit_eqI) (auto simp: bit_set_def bit_simps)
  then show "b \<noteq> 0 \<Longrightarrow> and (bit_set m b True) b \<noteq> 0" by simp
qed

lemma flag_other: "and b b' = 0 \<Longrightarrow> and (bit_set m b v) b' = and m b'"
proof (rule bit_eqI)
  fix n assume b: "and b b' = 0"
  have "bit (and b b') n = bit (0::int) n" using b by simp
  then show "bit (and (bit_set m b v) b') n = bit (and m b') n" by (auto simp: bit_set_def bit_simps)
qed

lemma wrap_flags [simp]:
  "flag (t\<lparr>g_mode := bit_set m MODE_WRAPREADY v\<rparr>) MODE_ORIGIN = flag (t\<lparr>g_mode := m\<rparr>) MODE_ORIGIN"
  "flag (t\<lparr>g_mode := bit_set m MODE_WRAPREADY v\<rparr>) MODE_INSERT = flag (t\<lparr>g_mode := m\<rparr>) MODE_INSERT"
  by (simp_all add: flag_def flag_other MODE_WRAPREADY_def MODE_ORIGIN_def MODE_INSERT_def)

text \<open>The modes and the descriptor that the drawing of text leaves alone.\<close>

definition same_modes :: "tty \<Rightarrow> tty \<Rightarrow> bool" where
  "same_modes t u \<longleftrightarrow> flag u MODE_ORIGIN = flag t MODE_ORIGIN \<and> flag u MODE_INSERT = flag t MODE_INSERT \<and>
     t_fd u = t_fd t \<and> t_prows u = t_prows t \<and> t_pcols u = t_pcols t"

lemma same_modes_trans: "same_modes t u \<Longrightarrow> same_modes u w \<Longrightarrow> same_modes t w"
  by (simp add: same_modes_def)

lemma edited_modes: "edited t u \<Longrightarrow> same_modes t u"
  using edited_sel [of t u] by (simp add: same_modes_def flag_def)

lemma moved_modes: "moved r c t u \<Longrightarrow> same_modes t u \<and> \<not> flag u MODE_WRAPREADY"
proof -
  assume "moved r c t u"
  then have d: "drawn (t\<lparr>g_row := r, g_col := c, g_mode := bit_set (g_mode t) MODE_WRAPREADY False\<rparr>) u"
    by (simp add: moved_def)
  have "g_mode u = bit_set (g_mode t) MODE_WRAPREADY False" "t_fd u = t_fd t" "t_prows u = t_prows t" "t_pcols u = t_pcols t"
    using drawn_sel [OF d] by simp_all
  then show ?thesis
    by (simp add: same_modes_def flag_def flag_other bit_set_flag MODE_WRAPREADY_def MODE_ORIGIN_def MODE_INSERT_def)
qed

text \<open>The effect of \<open>insertchar\<close> in replace mode.\<close>

lemma insertchar_effect:
  assumes inv: "tty_inv t" and mode: "\<not> flag t MODE_WRAPREADY" "\<not> flag t MODE_INSERT"
    and region: "origin t \<longrightarrow> g_top t \<le> g_row t \<and> g_row t < g_bot t"
  defines "i \<equiv> nat (g_row t * t_pcols t + g_col t)"
  shows "runs (insertchar c t) (\<lambda>u. (tty_inv u \<and> t_screen u = (t_screen t)[i := c] \<and>
     t_fgs u = (t_fgs t)[i := fgcolor t] \<and> t_bgs u = (t_bgs t)[i := bgcolor t] \<and> g_row u = g_row t \<and>
     g_col u = min (g_col t + 1) (t_pcols t - 1) \<and> (flag u MODE_WRAPREADY \<longleftrightarrow> g_col t = t_pcols t - 1)) \<and>
     same_modes t u)"
proof -
  note p = inv_pos [OF inv] and g = inv_grid [OF inv]
  have "runs (draw_char c (g_row t) (g_col t) t) (\<lambda>u. edited t u \<and> (t_screen u = (t_screen t)[i := c] \<and>
     t_fgs u = (t_fgs t)[i := fgcolor t] \<and> t_bgs u = (t_bgs t)[i := bgcolor t]))"
    unfolding i_def using runs_conj [OF draw_char_runs [OF g p(1-4)] draw_char_effect [OF g p(1-4)]]
    by (simp only: OFFSET_def)
  then obtain u where u: "draw_char c (g_row t) (g_col t) t = Some u" "edited t u" "t_screen u = (t_screen t)[i := c]"
     "t_fgs u = (t_fgs t)[i := fgcolor t]" "t_bgs u = (t_bgs t)[i := bgcolor t]" by (auto simp: runs_iff)
  note e = edited_sel [OF u(2)] and i = edited_inv(3) [OF u(2) inv]
  show ?thesis
  proof (cases "g_col t = t_pcols t - 1")
    case True
    then have "insertchar c t = Some (u\<lparr>g_mode := bit_set (g_mode u) MODE_WRAPREADY True\<rparr>)"
      using u(1) mode e by (simp add: insertchar_def)
    moreover have "flag (u\<lparr>g_mode := bit_set (g_mode u) MODE_WRAPREADY True\<rparr>) MODE_WRAPREADY"
      by (simp add: flag_def bit_set_flag(2) MODE_WRAPREADY_def)
    moreover have "same_modes t (u\<lparr>g_mode := bit_set (g_mode u) MODE_WRAPREADY True\<rparr>)"
      using edited_modes [OF u(2)] by (simp add: same_modes_def flag_def flag_other MODE_WRAPREADY_def MODE_ORIGIN_def MODE_INSERT_def)
    ultimately show ?thesis using u e i True by simp
  next
    case False
    have "int_ok (g_row t)" "int_ok (g_col t + 1)" using p by (simp_all add: small_int_ok)
    then have run: "insertchar c t = move_cursor (g_row t) (g_col t + 1) u"
      using u(1) mode e False p by (simp add: insertchar_def advance_def c_int_def limit_id)
    have "cursor_row (g_row t) u = g_row t" "limit (g_col t + 1) 0 (t_pcols u - 1) = g_col t + 1"
      using p e region False by (auto simp: cursor_row_def limit_def origin_def flag_def)
    with move_cursor_runs [OF i, of "g_row t" "g_col t + 1"]
    have mv: "runs (move_cursor (g_row t) (g_col t + 1) u) (moved (g_row t) (g_col t + 1) u)" by simp
    have after: "t_screen w = t_screen u \<and> t_fgs w = t_fgs u \<and> t_bgs w = t_bgs u \<and> \<not> flag w MODE_WRAPREADY \<and> same_modes t w"
      if "moved r c' u w" for r c' w
      using moved_contents [OF that] moved_modes [OF that] same_modes_trans [OF edited_modes [OF u(2)], of w] by simp
    from mv have "runs (move_cursor (g_row t) (g_col t + 1) u) (\<lambda>w. tty_inv w \<and> t_screen w = (t_screen t)[i := c] \<and>
        t_fgs w = (t_fgs t)[i := fgcolor t] \<and> t_bgs w = (t_bgs t)[i := bgcolor t] \<and> g_row w = g_row t \<and>
        g_col w = g_col t + 1 \<and> \<not> flag w MODE_WRAPREADY \<and> same_modes t w)"
      by (rule runs_mono) (use after u(3-5) in \<open>auto simp: moved_def\<close>)
    with False p show ?thesis unfolding run by (auto elim!: runs_mono)
  qed
qed

text \<open>
  A character inserted in replace mode is stored in the cell of the cursor with the current
  colours, no other cell changes, and the cursor moves on, or, in the last column, stays and
  marks the pending wrap.
\<close>

theorem insertchar_stores:
  assumes inv: "tty_inv t" and mode: "\<not> flag t MODE_WRAPREADY" "\<not> flag t MODE_INSERT"
    and region: "origin t \<longrightarrow> g_top t \<le> g_row t \<and> g_row t < g_bot t"
  defines "i \<equiv> nat (g_row t * t_pcols t + g_col t)"
  shows "runs (insertchar c t) (\<lambda>u. tty_inv u \<and> t_screen u = (t_screen t)[i := c] \<and>
     t_fgs u = (t_fgs t)[i := fgcolor t] \<and> t_bgs u = (t_bgs t)[i := bgcolor t] \<and> g_row u = g_row t \<and>
     g_col u = min (g_col t + 1) (t_pcols t - 1) \<and> (flag u MODE_WRAPREADY \<longleftrightarrow> g_col t = t_pcols t - 1))"
  unfolding i_def by (rule runs_mono [OF insertchar_effect [OF inv mode region]]) simp

theorem line_feed_scrolls_witness:
  "runs (advance 1 0 True (small_tty 2 1)) (\<lambda>u. tty_inv u \<and> g_row u = g_row (small_tty 2 1) \<and>
     g_col u = g_col (small_tty 2 1) \<and>
     t_screen u = region_up (g_top (small_tty 2 1) * t_pcols (small_tty 2 1))
        (g_row (small_tty 2 1) * t_pcols (small_tty 2 1)) (t_pcols (small_tty 2 1)) 0 (t_screen (small_tty 2 1)) \<and>
     (g_top (small_tty 2 1) = 0 \<longrightarrow>
        last_hist_line u = take (nat (t_pcols (small_tty 2 1))) (t_screen (small_tty 2 1))))"
  by (rule line_feed_scrolls [OF small_tty_inv]) (simp_all add: small_tty_def)

theorem insertchar_stores_witness:
  "runs (insertchar 65 (small_tty 1 3)) (\<lambda>u. tty_inv u \<and>
     t_screen u = (t_screen (small_tty 1 3))
       [nat (g_row (small_tty 1 3) * t_pcols (small_tty 1 3) + g_col (small_tty 1 3)) := 65] \<and>
     t_fgs u = (t_fgs (small_tty 1 3))
       [nat (g_row (small_tty 1 3) * t_pcols (small_tty 1 3) + g_col (small_tty 1 3)) := fgcolor (small_tty 1 3)] \<and>
     t_bgs u = (t_bgs (small_tty 1 3))
       [nat (g_row (small_tty 1 3) * t_pcols (small_tty 1 3) + g_col (small_tty 1 3)) := bgcolor (small_tty 1 3)] \<and>
     g_row u = g_row (small_tty 1 3) \<and>
     g_col u = min (g_col (small_tty 1 3) + 1) (t_pcols (small_tty 1 3) - 1) \<and>
     (flag u MODE_WRAPREADY \<longleftrightarrow> g_col (small_tty 1 3) = t_pcols (small_tty 1 3) - 1))"
  by (rule insertchar_stores [OF small_tty_inv])
    (simp_all add: small_tty_def flag_def origin_def MODE_WRAPREADY_def MODE_INSERT_def MODE_ORIGIN_def)

end
