(* ===== verification/Term_Input.thy ===== *)
theory Term_Input
  imports Term_Effect Isdw
begin

text \<open>
  The interpreter of the program's output in libfbpads/term.c: the buffered reading of bytes,
  UTF-8, control characters, escape and control sequences, and \<open>term_read\<close>. \<open>t_buf\<close> is
  the unread part of \<open>ptybuf\<close>; \<open>t_input\<close> holds what the coming refills of the buffer deliver, an
  empty list when there is nothing to read.
\<close>

section \<open>Reading\<close>

definition readpty :: "tty \<Rightarrow> int \<times> tty" where
  "readpty t =
     (case t_buf t of
        b # bs \<Rightarrow> (b, t\<lparr>t_buf := bs\<rparr>)
      | [] \<Rightarrow>
          if t_fd t = 0 then (- 1, t)
          else (case t_input t of
              [] \<Rightarrow> (- 1, t)
            | [] # cs \<Rightarrow> (- 1, t\<lparr>t_input := cs\<rparr>)
            | (b # bs) # cs \<Rightarrow> (b, t\<lparr>t_buf := bs, t_input := cs\<rparr>)))"

text \<open>The bytes of the terminal's input.\<close>

definition input_ok :: "tty \<Rightarrow> bool" where
  "input_ok t \<longleftrightarrow> (\<forall>b \<in> set (t_buf t) \<union> \<Union> (set ` set (t_input t)). 0 \<le> b \<and> b < 256)"

definition input_left :: "tty \<Rightarrow> nat" where
  "input_left t = length (t_buf t) + length (concat (t_input t))"

lemma readpty_left:
  "readpty t = (c, u) \<Longrightarrow> c \<noteq> - 1 \<Longrightarrow> input_left u < input_left t"
  "readpty t = (c, u) \<Longrightarrow> input_left u \<le> input_left t"
  by (auto simp: readpty_def input_left_def split: list.splits if_splits)

lemma readpty_byte: "input_ok t \<Longrightarrow> readpty t = (c, u) \<Longrightarrow> - 1 \<le> c \<and> c < 256 \<and> input_ok u"
  by (fastforce simp: readpty_def input_ok_def split: list.splits if_splits)

text \<open>The continuation bytes of \<open>readutf8\<close>, and the count of leading ones.\<close>

fun utf8_rest :: "nat \<Rightarrow> int \<Rightarrow> tty \<Rightarrow> int \<times> tty" where
  "utf8_rest 0 result t = (result, t)"
| "utf8_rest (Suc l) result t =
     (case readpty t of (b, t1) \<Rightarrow> utf8_rest l (or (shl result 6) (and b 0x3f)) t1)"

function utf8_len :: "int \<Rightarrow> nat \<Rightarrow> nat" where
  "utf8_len c l = (if l < 6 \<and> and c (drop_bit l 0x40) \<noteq> 0 then utf8_len c (l + 1) else l)"
  by pat_completeness auto
termination by (relation "measure (\<lambda>(c, l). 6 - l)") auto

declare utf8_len.simps [simp del]

definition readutf8 :: "int \<Rightarrow> tty \<Rightarrow> int \<times> tty" where
  "readutf8 c t =
     (if and (not c) 0xc0 \<noteq> 0 then (c, t)
      else (let l = utf8_len c 1 in utf8_rest l (and (drop_bit l 0x3f) c) t))"

section \<open>Modes and reports\<close>

definition modeseq :: "int \<Rightarrow> bool \<Rightarrow> tty \<Rightarrow> tty" where
  "modeseq c v t =
     (let upd = (\<lambda>b. t\<lparr>g_mode := bit_set (g_mode t) b v\<rparr>) in
      if c = 0x87 then upd MODE_WRAP
      else if c = 0x99 then upd MODE_CURSOR
      else if c = 0x86 then upd MODE_ORIGIN
      else if c = 0x14 then upd MODE_AUTOCR
      else if c = 0x04 then upd MODE_INSERT
      else t)"

definition csiseq_da :: "int \<Rightarrow> tty \<Rightarrow> tty" where
  "csiseq_da c t = (if c = 0 then term_sendstr (ESC # ''[?6c'') t else t)"

text \<open>A decimal number as \<open>printf("%d")\<close> prints it.\<close>

text \<open>The status report is printed into a buffer of 32 bytes.\<close>

definition csiseq_dsr :: "int \<Rightarrow> tty \<Rightarrow> tty option" where
  "csiseq_dsr c t =
     (if c = 5 then Some (term_sendstr (ESC # ''[0n'') t)
      else if c = 6 then
        (let s = ESC # CHR ''['' # show_int ((if origin t then g_row t - g_top t else g_row t) + 1) @ '';'' @
               show_int (g_col t + 1) @ ''R''
         in if length s < 32 then Some (term_sendstr s t) else None)
      else Some t)"

definition absrow :: "int \<Rightarrow> tty \<Rightarrow> int option" where
  "absrow r t = (if origin t then c_int (g_top t + r) else Some r)"

section \<open>Control sequences\<close>

definition CSIP :: "int \<Rightarrow> bool" where "CSIP c \<longleftrightarrow> and c 0xf0 = 0x30"
definition CSII :: "int \<Rightarrow> bool" where "CSII c \<longleftrightarrow> and c 0xf0 = 0x20"
definition ESCM :: "int \<Rightarrow> bool" where "ESCM c \<longleftrightarrow> and c 0xf0 = 0x20"
definition MAXCSIARGS :: int where "MAXCSIARGS = 32"

definition c_isdigit :: "int \<Rightarrow> bool" where
  "c_isdigit c \<longleftrightarrow> 48 \<le> c \<and> c \<le> 57"

lemma not_minus_one: "CSIP c \<Longrightarrow> c \<noteq> - 1" "CSII c \<Longrightarrow> c \<noteq> - 1" "ESCM c \<Longrightarrow> c \<noteq> - 1" "c_isdigit c \<Longrightarrow> c \<noteq> - 1"
  by (auto simp: CSIP_def CSII_def ESCM_def c_isdigit_def)

text \<open>What is left, with the byte that was read ahead.\<close>

definition ahead :: "int \<Rightarrow> tty \<Rightarrow> nat" where
  "ahead c t = input_left t + (if c = - 1 then 0 else 1)"

lemma ahead_step: "readpty t = (c', u) \<Longrightarrow> c \<noteq> - 1 \<Longrightarrow> ahead c' u < ahead c t"
  using readpty_left [of t c' u] by (auto simp: ahead_def)

function skip_while :: "(int \<Rightarrow> bool) \<Rightarrow> int \<Rightarrow> tty \<Rightarrow> int \<times> tty" where
  "skip_while P c t =
     (if c \<noteq> - 1 \<and> P c then (case readpty t of (c', t') \<Rightarrow> skip_while P c' t') else (c, t))"
  by pat_completeness auto
termination
  by (relation "measure (\<lambda>(P, c, t). ahead c t)") (auto split: prod.split intro: ahead_step)

declare skip_while.simps [simp del]

text \<open>The digits of an argument.\<close>

function csi_digits :: "int \<Rightarrow> int \<Rightarrow> tty \<Rightarrow> (int \<times> int \<times> tty) option" where
  "csi_digits arg c t =
     (if c_isdigit c then do {
        a10 \<leftarrow> c_int (arg * 10);
        a \<leftarrow> c_int (a10 + (c - 48));
        (case readpty t of (c', t') \<Rightarrow> csi_digits a c' t') }
      else Some (arg, c, t))"
  by pat_completeness auto
termination
  by (relation "measure (\<lambda>(arg, c, t). ahead c t)") (auto split: prod.split intro: ahead_step dest: not_minus_one)

declare csi_digits.simps [simp del]

lemma csi_digits_left:
  "csi_digits arg c t = Some (a, c', u) \<Longrightarrow> ahead c' u \<le> ahead c t \<and> (c_isdigit c \<longrightarrow> ahead c' u < ahead c t)"
proof (induction arg c t rule: csi_digits.induct)
  case (1 arg c t)
  show ?case
  proof (cases "c_isdigit c")
    case False
    with 1(2) show ?thesis by (simp add: csi_digits.simps)
  next
    case True
    obtain c1 t1 where r: "readpty t = (c1, t1)" by fastforce
    from 1(2) True r obtain x y where xy: "c_int (arg * 10) = Some x" "c_int (x + (c - 48)) = Some y"
      "csi_digits y c1 t1 = Some (a, c', u)"
      by (subst (asm) csi_digits.simps) (auto split: Option.bind_splits)
    with 1(1) [OF True xy(1,2) r [symmetric]] ahead_step [OF r] not_minus_one(4) [OF True] show ?thesis
      by fastforce
  qed
qed

lemma csi_args_step:
  assumes "CSIP c" "csi_digits 0 c t = Some (arg, c1, t1)" "(if CSIP c1 then readpty t1 else (c1, t1)) = (c2, t2)"
  shows "ahead c2 t2 < ahead c t"
proof -
  note d = csi_digits_left [OF assms(2)]
  show ?thesis
  proof (cases "c_isdigit c")
    case True
    then have "ahead c1 t1 < ahead c t" using d by simp
    moreover have "ahead c2 t2 \<le> ahead c1 t1"
    proof (cases "CSIP c1")
      case c1: True
      then have "readpty t1 = (c2, t2)" using assms(3) by simp
      from ahead_step [OF this not_minus_one(1) [OF c1]] show ?thesis by simp
    qed (use assms(3) in simp)
    ultimately show ?thesis by simp
  next
    case False
    then have "c1 = c" "t1 = t" using assms(2) by (simp_all add: csi_digits.simps)
    then have "readpty t = (c2, t2)" using assms(1,3) by simp
    from ahead_step [OF this not_minus_one(1) [OF assms(1)]] show ?thesis .
  qed
qed

text \<open>The arguments: \<open>args\<close> has 40 entries, the first \<open>n\<close> are given.\<close>

function csi_args :: "int list \<Rightarrow> int \<Rightarrow> int \<Rightarrow> tty \<Rightarrow> (int list \<times> int \<times> int \<times> tty) option" where
  "csi_args args n c t =
     (if CSIP c then do {
        r \<leftarrow> csi_digits 0 c t;
        (case r of (arg, c1, t1) \<Rightarrow>
          (case (if CSIP c1 then readpty t1 else (c1, t1)) of (c2, t2) \<Rightarrow> do {
             args' \<leftarrow> (if n < MAXCSIARGS then wr args n arg else Some args);
             csi_args args' (if n < MAXCSIARGS then n + 1 else n) c2 t2 })) }
      else Some (args, n, c, t))"
  by pat_completeness auto

termination
  by (relation "measure (\<lambda>(args, n, c, t). ahead c t)") (auto split: prod.split dest: csi_args_step)

declare csi_args.simps [simp del]

text \<open>The loop of the SGR sequence, over the arguments from \<open>i\<close> on.\<close>

definition sgr_rgb :: "int list \<Rightarrow> int \<Rightarrow> int option" where
  "sgr_rgb args i = do {
     r \<leftarrow> rd args (i + 2);
     g \<leftarrow> rd args (i + 3);
     b \<leftarrow> rd args (i + 4);
     Some (rgb r g b) }"

definition sgr_one :: "int list \<Rightarrow> int \<Rightarrow> tty \<Rightarrow> (int \<times> tty) option" where
  "sgr_one args i t = do {
     a \<leftarrow> rd args i;
     a1 \<leftarrow> rd args (i + 1);
     (if a = 38 \<and> a1 = 2 then do {
        c \<leftarrow> sgr_rgb args i;
        Some (i + 5 + 1, t\<lparr>g_mode := and (g_mode t) (not MODE_CLR8), g_fg := c\<rparr>) }
      else if a = 38 then do {
        x \<leftarrow> rd args (i + 2);
        c \<leftarrow> clrmap x;
        Some (i + 2 + 1, t\<lparr>g_mode := and (g_mode t) (not MODE_CLR8), g_fg := c\<rparr>) }
      else if a = 48 \<and> a1 = 2 then do {
        c \<leftarrow> sgr_rgb args i;
        Some (i + 5 + 1, t\<lparr>g_bg := c\<rparr>) }
      else if a = 48 then do {
        x \<leftarrow> rd args (i + 2);
        c \<leftarrow> clrmap x;
        Some (i + 2 + 1, t\<lparr>g_bg := c\<rparr>) }
      else do { t1 \<leftarrow> setattr a t; Some (i + 1, t1) }) }"

lemma sgr_one_progress: "sgr_one args i t = Some (j, u) \<Longrightarrow> i < j"
  by (auto simp: sgr_one_def split: if_splits Option.bind_splits)

function sgr_loop :: "int list \<Rightarrow> int \<Rightarrow> int \<Rightarrow> tty \<Rightarrow> tty option" where
  "sgr_loop args n i t =
     (if i < n then do { r \<leftarrow> sgr_one args i t; (case r of (j, t1) \<Rightarrow> sgr_loop args n j t1) } else Some t)"
  by pat_completeness auto
termination
  by (relation "measure (\<lambda>(args, n, i, t). nat (n - i))") (auto dest: sgr_one_progress)

declare sgr_loop.simps [simp del]

text \<open>Bold text in one of the eight basic colours takes the bright one.\<close>

definition brighten_one :: "int \<Rightarrow> tty \<Rightarrow> tty option" where
  "brighten_one i t = do {
     c \<leftarrow> rd clr16 i;
     (if c = g_fg t then do { d \<leftarrow> rd clr16 (8 + i); Some (t\<lparr>g_fg := d\<rparr>) } else Some t) }"

definition csi_sgr :: "int list \<Rightarrow> int \<Rightarrow> tty \<Rightarrow> tty option" where
  "csi_sgr args n t = do {
     t1 \<leftarrow> (if n = 0 then setattr 0 t else Some t);
     t2 \<leftarrow> sgr_loop args n 0 t1;
     (if flag t2 MODE_CLR8 \<and> flag t2 ATTR_BOLD then for_range 0 8 brighten_one t2 else Some t2) }"

definition csi_modes :: "int list \<Rightarrow> int \<Rightarrow> int \<Rightarrow> bool \<Rightarrow> tty \<Rightarrow> tty option" where
  "csi_modes args n priv v t = do {
     t1 \<leftarrow> for_range 0 n (\<lambda>i s. do {
        a \<leftarrow> rd args i; Some (modeseq (if priv = code (CHR ''?'') then or a 0x80 else a) v s) }) t;
     draw_cursor True t1 }"

text \<open>The final byte of a control sequence.\<close>

definition csi_exec :: "int \<Rightarrow> int list \<Rightarrow> int \<Rightarrow> int \<Rightarrow> tty \<Rightarrow> tty option" where
  "csi_exec c args n priv t = do {
     a0 \<leftarrow> rd args 0;
     a1 \<leftarrow> rd args 1;
     let is = (\<lambda>ch. c = code ch);
     (if is (CHR ''H'') \<or> is (CHR ''f'') then do {
        r \<leftarrow> absrow (max 0 (a0 - 1)) t; move_cursor r (max 0 (a1 - 1)) t }
      else if is (CHR ''J'') then
        (if a0 = 0 then do { t1 \<leftarrow> kill_chars (g_col t) (t_pcols t) t; blank_rows (g_row t1 + 1) (t_prows t1) t1 }
         else if a0 = 1 then do { t1 \<leftarrow> kill_chars 0 (g_col t + 1) t; blank_rows 0 (g_row t1 - 1) t1 }
         else if a0 = 2 then term_blank t
         else Some t)
      else if is (CHR ''A'') then advance (- max 1 a0) 0 False t
      else if is (CHR ''e'') \<or> is (CHR ''B'') then advance (max 1 a0) 0 False t
      else if is (CHR ''a'') \<or> is (CHR ''C'') then advance 0 (max 1 a0) False t
      else if is (CHR ''D'') then advance 0 (- max 1 a0) False t
      else if is (CHR ''K'') then
        (if a0 = 0 then kill_chars (g_col t) (t_pcols t) t
         else if a0 = 1 then kill_chars 0 (g_col t + 1) t
         else if a0 = 2 then kill_chars 0 (t_pcols t) t
         else Some t)
      else if is (CHR ''L'') then
        (if g_row t \<ge> g_top t \<and> g_row t < g_bot t then insert_lines (max 1 a0) t else Some t)
      else if is (CHR ''M'') then
        (if g_row t \<ge> g_top t \<and> g_row t < g_bot t then delete_lines (max 1 a0) t else Some t)
      else if is (CHR ''S'') then (let i = max 1 a0 in scroll_screen i (t_prows t - i) (- i) t)
      else if is (CHR ''T'') then (let i = max 1 a0 in scroll_screen 0 (t_prows t - i) i t)
      else if is (CHR ''d'') then do { r \<leftarrow> absrow (max 1 a0 - 1) t; move_cursor r (g_col t) t }
      else if is (CHR ''m'') then csi_sgr args n t
      else if is (CHR ''r'') then set_region a0 a1 t
      else if is (CHR ''c'') then
        Some (csiseq_da (if priv = code (CHR ''?'') then or a0 0x80 else a0) t)
      else if is (CHR ''h'') then csi_modes args n priv True t
      else if is (CHR ''l'') then csi_modes args n priv False t
      else if is (CHR ''P'') then delete_chars (limit a0 1 (t_pcols t - g_col t)) t
      else if is (CHR ''@'') then insert_chars (limit a0 1 (t_pcols t - g_col t)) t
      else if is (CHR ''n'') then csiseq_dsr a0 t
      else if is (CHR ''G'') then advance 0 (max 0 (a0 - 1) - g_col t) False t
      else if is (CHR ''X'') then do {
        e \<leftarrow> c_int (g_col t + max 1 a0); kill_chars (g_col t) (min e (t_pcols t)) t }
      else Some t) }"

text \<open>
  \<open>csiseq\<close>: \<open>strchr\<close> also finds the terminating NUL of its string, so a NUL byte is taken for a
  private marker.
\<close>

definition csiseq :: "tty \<Rightarrow> tty option" where
  "csiseq t = do {
     let (c, t1) = readpty t;
     let marker = (c = 0 \<or> c \<in> {code (CHR ''<''), code (CHR ''=''), code (CHR ''>''), code (CHR ''?'')});
     let priv = (if marker then c else 0);
     let (c1, t2) = (if marker then readpty t1 else (c, t1));
     (args, n, c2, t3) \<leftarrow> csi_args (replicate 40 0) 0 c1 t2;
     let (c3, t4) = skip_while CSII c2 t3;
     csi_exec c3 args n priv t4 }"

section \<open>Escape sequences and control characters\<close>

text \<open>The character set sequences read one byte and ignore it.\<close>

definition escseq_cs :: "tty \<Rightarrow> tty" where
  "escseq_cs t = snd (readpty t)"

definition escseq_g0 :: "tty \<Rightarrow> tty" where "escseq_g0 t = snd (readpty t)"
definition escseq_g1 :: "tty \<Rightarrow> tty" where "escseq_g1 t = snd (readpty t)"
definition escseq_g2 :: "tty \<Rightarrow> tty" where "escseq_g2 t = snd (readpty t)"
definition escseq_g3 :: "tty \<Rightarrow> tty" where "escseq_g3 t = snd (readpty t)"

definition escseq :: "tty \<Rightarrow> tty option" where
  "escseq t0 = do {
     let (b, t1) = readpty t0;
     let (c, t) = skip_while ESCM b t1;
     let is = (\<lambda>ch. c = code ch);
     (if is (CHR ''['') then csiseq t
      else if is (CHR ''%'') then Some (escseq_cs t)
      else if is (CHR ''('') then Some (escseq_g0 t)
      else if is (CHR '')'') then Some (escseq_g1 t)
      else if is (CHR ''*'') then Some (escseq_g2 t)
      else if is (CHR ''+'') then Some (escseq_g3 t)
      else if is (CHR ''7'') then Some (misc_save_sav t)
      else if is (CHR ''8'') then Some (misc_load (t_sav t) t)
      else if is (CHR ''M'') then advance (- 1) 0 True t
      else if is (CHR ''D'') then advance 1 0 True t
      else if is (CHR ''E'') then advance 1 (- g_col t) True t
      else if is (CHR ''c'') then term_reset t
      else Some t) }"

text \<open>A printable character, with its width.\<close>

definition put_wide :: "int \<Rightarrow> tty \<Rightarrow> tty option" where
  "put_wide c t = do {
     dw \<leftarrow> isdw c;
     t1 \<leftarrow> (if dw \<and> g_col t + 1 = t_pcols t \<and> \<not> flag t MODE_WRAPREADY then insertchar 0 t else Some t);
     zw \<leftarrow> iszw c;
     t2 \<leftarrow> (if \<not> zw then insertchar c t1 else Some t1);
     (if dw then insertchar (or c DWCHAR) t2 else Some t2) }"

definition ctlseq :: "tty \<Rightarrow> tty option" where
  "ctlseq t0 = do {
     let (c, t) = readpty t0;
     (if c = 0x09 then advance 0 (8 - g_col t smod 8) False t
      else if c = 0x0a \<or> c = 0x0b \<or> c = 0x0c then
        advance 1 (if flag t MODE_AUTOCR then - g_col t else 0) True t
      else if c = 0x08 then advance 0 (- 1) False t
      else if c = 0x1b then escseq t
      else if c = 0x0d then advance 0 (- g_col t) False t
      else if c = 0x9b then csiseq t
      else if c \<in> {0x00, 0x07, 0x7f} then Some t
      else if c \<in> {0x05, 0x0e, 0x0f, 0x11, 0x13, 0x18, 0x1a} then Some t
      else (case readutf8 c t of (ch, t1) \<Rightarrow> put_wide ch t1)) }"

text \<open>
  The loop of \<open>term_read\<close>: \<^term>\<open>None\<close> when it does not end or runs into undefined behaviour.
\<close>

partial_function (option) term_read_loop :: "tty \<Rightarrow> tty option" where
  "term_read_loop t =
     (if t_buf t = [] then Some t
      else Option.bind (if g_visible t \<and> \<not> g_lazy t \<and> length (t_buf t) > 15 then lazy_start t else Some t)
        (\<lambda>t1. Option.bind (ctlseq t1) term_read_loop))"

definition term_read :: "tty \<Rightarrow> tty option" where
  "term_read t = do { t1 \<leftarrow> ctlseq t; t2 \<leftarrow> term_read_loop t1; lazy_flush t2 }"

section \<open>Which bytes are safe\<close>

lemma readpty_keeps:
  assumes "readpty t = (c, u)"
  shows "tty_inv u = tty_inv t" "g_row u = g_row t" "g_col u = g_col t" "t_prows u = t_prows t"
    "t_pcols u = t_pcols t" "g_mode u = g_mode t" "t_screen u = t_screen t"
  using assms
  by (auto simp: readpty_def tty_inv_def tty_grid_def tty_pos_def split: list.splits if_splits)

lemma inv_upd [simp]:
  "tty_inv (t\<lparr>g_fg := a\<rparr>) = tty_inv t" "tty_inv (t\<lparr>g_bg := a\<rparr>) = tty_inv t"
  "tty_inv (t\<lparr>t_sent := s\<rparr>) = tty_inv t"
  by (simp_all add: tty_inv_def tty_grid_def tty_pos_def)

lemma int_ok_const: "- 2147483648 \<le> x \<Longrightarrow> x < 2147483648 \<Longrightarrow> int_ok x"
  by (simp add: int_ok_def)

lemma clrmap_runs:
  assumes "0 \<le> c" "c \<le> 255"
  shows "\<exists>x. clrmap c = Some x"
proof -
  have g: "c_int ((c - 232) * 10 + 8) = Some ((c - 232) * 10 + 8)"
    using assms by (simp add: c_int_def int_ok_def)
  consider "c < 16" | "16 \<le> c" "c < 232" | "232 \<le> c" by linarith
  then show ?thesis
  proof cases
    case 1
    with assms g show ?thesis by (simp add: clrmap_def rd_def clr16_def)
  next
    case 2
    then show ?thesis using g by (simp add: clrmap_def Let_def)
  next
    case 3
    with g show ?thesis by (simp add: clrmap_def)
  qed
qed

lemma clrmap_bind: "0 \<le> c \<Longrightarrow> c \<le> 255 \<Longrightarrow> (\<And>x. runs (f x) P) \<Longrightarrow> runs (Option.bind (clrmap c) f) P"
  using clrmap_runs [of c] by auto

lemma setattr_runs:
  assumes "tty_inv t" "0 \<le> m" "m \<le> 255"
  shows "runs (setattr m t) tty_inv"
  using assms by (auto simp: setattr_def Let_def sdiv_pos intro!: clrmap_bind)

definition args_shape :: "int list \<Rightarrow> int \<Rightarrow> bool" where
  "args_shape args n \<longleftrightarrow> length args = 40 \<and> 0 \<le> n \<and> n \<le> 32 \<and> (\<forall>a \<in> set args. 0 \<le> a \<and> int_ok a)"

definition colour_args :: "int list \<Rightarrow> bool" where
  "colour_args args \<longleftrightarrow> length args = 40 \<and> (\<forall>a \<in> set args. 0 \<le> a \<and> a \<le> 255)"

lemma colour_rd:
  "colour_args args \<Longrightarrow> 0 \<le> i \<Longrightarrow> i < 40 \<Longrightarrow> (\<And>a. 0 \<le> a \<Longrightarrow> a \<le> 255 \<Longrightarrow> runs (f a) P) \<Longrightarrow>
   runs (Option.bind (rd args i) f) P"
  by (auto simp: wp colour_args_def)

lemma sgr_rgb_runs:
  assumes "colour_args args" "0 \<le> i" "i < 32"
  shows "runs (sgr_rgb args i) (\<lambda>_. True)"
  unfolding sgr_rgb_def
  by (intro colour_rd [OF assms(1)]) (use assms in simp_all)

lemma clrmap_rd_runs:
  assumes "colour_args args" "0 \<le> i" "i < 40"
  shows "runs (rd args i) (\<lambda>x. runs (clrmap x) (\<lambda>_. True))"
proof -
  have "runs (Option.bind (rd args i) clrmap) (\<lambda>_. True)"
  proof (rule colour_rd [OF assms])
    show "runs (clrmap a) (\<lambda>_. True)" if "0 \<le> a" "a \<le> 255" for a
      using clrmap_runs [OF that] by auto
  qed
  then show ?thesis by (simp only: runs_bind)
qed

lemma sgr_one_runs:
  assumes "tty_inv t" "colour_args args" "0 \<le> i" "i < 32"
  shows "runs (sgr_one args i t) (\<lambda>(j, u). tty_inv u)"
  unfolding sgr_one_def
proof (rule colour_rd [OF assms(2,3)], goal_cases)
  case (2 a)
  show ?case
  proof (rule colour_rd [OF assms(2)], goal_cases)
    case (3 a1)
    from setattr_runs [OF assms(1) 2] sgr_rgb_runs [OF assms(2-4)] clrmap_rd_runs [OF assms(2), of "i + 2"] assms
    show ?case by (simp add: runs_bind)
  qed (use assms in simp_all)
qed (use assms in simp)

lemma sgr_loop_runs:
  assumes "tty_inv t" "colour_args args" "0 \<le> i" "n \<le> 32"
  shows "runs (sgr_loop args n i t) tty_inv"
  using assms(1,3)
proof (induction "nat (n - i)" arbitrary: i t rule: less_induct)
  case less
  show ?case
  proof (cases "i < n")
    case True
    with sgr_one_runs [OF less.prems(1) assms(2) less.prems(2)] assms(4) obtain j u where
      ju: "sgr_one args i t = Some (j, u)" "tty_inv u" by (auto simp: runs_iff)
    from sgr_one_progress [OF ju(1)] have "i < j" .
    then have "runs (sgr_loop args n j u) tty_inv" using less True ju(2) by simp
    with True ju(1) show ?thesis by (subst sgr_loop.simps) simp
  qed (use less.prems in \<open>simp add: sgr_loop.simps\<close>)
qed

lemma brighten_runs: "tty_inv t \<Longrightarrow> 0 \<le> i \<Longrightarrow> i < 8 \<Longrightarrow> runs (brighten_one i t) tty_inv"
  by (simp add: brighten_one_def wp clr16_def)

lemma csi_sgr_runs:
  assumes "tty_inv t" "colour_args args" "0 \<le> n" "n \<le> 32"
  shows "runs (csi_sgr args n t) tty_inv"
proof -
  have "runs (if n = 0 then setattr 0 t else Some t) (\<lambda>t1. runs (sgr_loop args n 0 t1) tty_inv)"
    using setattr_runs [OF assms(1), of 0] sgr_loop_runs [OF _ assms(2) _ assms(4), of _ 0] assms(1)
    by (auto elim!: runs_mono)
  moreover have "runs (for_range 0 8 brighten_one u) tty_inv" if "tty_inv u" for u
    by (rule for_range_keeps) (use that brighten_runs in auto)
  ultimately show ?thesis by (auto simp: csi_sgr_def runs_bind elim!: runs_mono)
qed

lemma modeseq_inv [simp]: "tty_inv (modeseq c v t) = tty_inv t"
  by (simp add: modeseq_def Let_def)

lemma csi_modes_runs:
  assumes "tty_inv t" "args_shape args n"
  shows "runs (csi_modes args n priv v t) tty_inv"
proof -
  have "runs (for_range 0 n (\<lambda>i s. do {
      a \<leftarrow> rd args i; Some (modeseq (if priv = code (CHR ''?'') then or a 0x80 else a) v s) }) t) tty_inv"
    by (rule for_range_keeps) (use assms in \<open>auto simp: wp args_shape_def\<close>)
  then show ?thesis unfolding csi_modes_def runs_bind
    by (rule runs_mono) (auto intro: runs_mono [OF draw_cursor_runs] dest: drawn_inv(3))
qed

lemma sendstr_inv [simp]: "tty_inv (term_sendstr s t) = tty_inv t"
  by (simp add: term_sendstr_def)

lemma csiseq_dsr_runs:
  assumes "tty_inv t"
  shows "runs (csiseq_dsr c t) tty_inv"
proof -
  have "length (show_int ((if origin t then g_row t - g_top t else g_row t) + 1)) \<le> 6"
    "length (show_int (g_col t + 1)) \<le> 6"
    using inv_pos [OF assms] by (auto intro!: show_int_length)
  with assms show ?thesis by (simp add: csiseq_dsr_def Let_def)
qed

lemma edits_inv: "tty_inv t \<Longrightarrow> edits t m \<Longrightarrow> runs m tty_inv"
  by (auto elim!: runs_mono intro: edited_inv(3))

lemma term_blank_runs:
  assumes "tty_inv t"
  shows "runs (term_blank t) tty_inv"
proof -
  note g = inv_grid [OF assms]
  have "0 \<le> t_prows t * t_pcols t" using grid_lengths(5,6) [OF g] by simp
  then have "edits t (screen_reset 0 (t_prows t * t_pcols t) t)" by (intro screen_reset_runs [OF g]) simp_all
  then have "runs (screen_reset 0 (t_prows t * t_pcols t) t) tty_inv" by (rule edits_inv [OF assms])
  then show ?thesis
    by (auto simp: term_blank_def wp simp del: emit_sel elim!: runs_mono intro: emit_all)
qed

text \<open>
  When the arguments of a control sequence are harmless: no sum of a position and an argument
  overflows, the display is not erased upwards from the first row, nothing scrolls
  by more than the screen, and colours are in range.
\<close>

definition csi_safe :: "int \<Rightarrow> int list \<Rightarrow> tty \<Rightarrow> bool" where
  "csi_safe c args t \<longleftrightarrow>
     (c \<in> set (map code ''HfBeCaMdX'') \<longrightarrow> args ! 0 < 2 ^ 30) \<and>
     (c = code (CHR ''J'') \<and> args ! 0 = 1 \<longrightarrow> 0 < g_row t) \<and>
     (c \<in> {code (CHR ''S''), code (CHR ''T'')} \<longrightarrow> args ! 0 \<le> t_prows t) \<and>
     (c = code (CHR ''m'') \<longrightarrow> colour_args args)"

lemma erase_display_runs:
  assumes inv: "tty_inv t"
  shows "edits t (do { t1 \<leftarrow> kill_chars (g_col t) (t_pcols t) t; blank_rows (g_row t1 + 1) (t_prows t1) t1 })"
    and "0 < g_row t \<Longrightarrow> edits t (do { t1 \<leftarrow> kill_chars 0 (g_col t + 1) t; blank_rows 0 (g_row t1 - 1) t1 })"
proof -
  note p = inv_pos [OF inv]
  show "edits t (do { t1 \<leftarrow> kill_chars (g_col t) (t_pcols t) t; blank_rows (g_row t1 + 1) (t_prows t1) t1 })"
  proof (rule edits_bind)
    fix u assume "edited t u"
    from edited_inv(3) [OF this inv] show "edits u (blank_rows (g_row u + 1) (t_prows u) u)"
      by (rule blank_rows_runs) (use inv_pos [OF edited_inv(3) [OF \<open>edited t u\<close> inv]] in simp_all)
  qed (rule kill_chars_runs [OF inv]; use p in simp)
  show "edits t (do { t1 \<leftarrow> kill_chars 0 (g_col t + 1) t; blank_rows 0 (g_row t1 - 1) t1 })" if "0 < g_row t"
  proof (rule edits_bind)
    fix u assume u: "edited t u"
    from edited_inv(3) [OF this inv] show "edits u (blank_rows 0 (g_row u - 1) u)"
      by (rule blank_rows_runs) (use inv_pos [OF edited_inv(3) [OF u inv]] edited_sel(7) [OF u] that in simp_all)
  qed (rule kill_chars_runs [OF inv]; use p in simp)
qed

lemma absrow_bind:
  assumes "tty_inv t" "0 \<le> r" "r < 2 ^ 30" "\<And>x. runs (f x) P"
  shows "runs (Option.bind (absrow r t) f) P"
  using assms inv_pos [OF assms(1)] by (auto simp: absrow_def wp int_ok_def)

lemma if_runs: "(b \<Longrightarrow> runs m P) \<Longrightarrow> (\<not> b \<Longrightarrow> runs n P) \<Longrightarrow> runs (if b then m else n) P"
  by simp

lemma advance_small:
  assumes "tty_inv t" "- (2 ^ 31 - 1) \<le> dr" "dr < 2 ^ 30" "- (2 ^ 31 - 1) \<le> dc" "dc < 2 ^ 30"
  shows "runs (advance dr dc scrl t) tty_inv"
  by (rule advance_runs) (use assms inv_pos [OF assms(1)] in \<open>simp_all add: int_ok_def\<close>)

text \<open>
  C21. A control sequence with harmless arguments runs without undefined behaviour and keeps
  the invariant of the terminal, whatever its final byte, marker and number of arguments.
\<close>

theorem csi_exec_safe:
  assumes inv: "tty_inv t" and shape: "args_shape args n" and safe: "csi_safe c args t"
  shows "runs (csi_exec c args n priv t) tty_inv"
proof -
  note p = inv_pos [OF inv]
  have a: "0 \<le> args ! 0" "args ! 0 < 2 ^ 31" "0 \<le> args ! 1" "length args = 40" "0 \<le> n" "n \<le> 32"
    using shape nth_mem [of 0 args] nth_mem [of 1 args] by (auto simp: args_shape_def int_ok_def)
  have rds: "rd args 0 = Some (args ! 0)" "rd args 1 = Some (args ! 1)" using a by (simp_all add: rd_def)
  have lim: "1 \<le> limit (args ! 0) 1 (t_pcols t - g_col t)" "limit (args ! 0) 1 (t_pcols t - g_col t) \<le> t_pcols t - g_col t"
    using limit_bounds [of 1 "t_pcols t - g_col t" "args ! 0"] p by simp_all
  have small: "args ! 0 < 2 ^ 30" if "c \<in> code ` set ''HfBeCaMdX''"
    using safe that by (auto simp: csi_safe_def)
  have da: "tty_inv (csiseq_da x t)" for x using inv by (simp add: csiseq_da_def)
  have g: "max 0 (args ! 0 - 1) - g_col t + g_col t = max 0 (args ! 0 - 1)" by simp
  note edit = edits_inv [OF inv kill_chars_runs [OF inv]] edits_inv [OF inv delete_chars_runs [OF inv]]
    edits_inv [OF inv insert_chars_runs [OF inv]] edits_inv [OF inv erase_display_runs(1) [OF inv]]
    term_blank_runs [OF inv] set_region_runs [OF inv] csi_modes_runs [OF inv shape] csiseq_dsr_runs [OF inv]
  note row = absrow_bind [OF inv] move_cursor_inv [OF inv] advance_small [OF inv]
  show ?thesis unfolding csi_exec_def rds Option.bind.simps Let_def
  proof (intro if_runs, goal_cases)
    case 3
    then have "0 < g_row t" using safe by (simp add: csi_safe_def)
    then show ?case by (rule edits_inv [OF inv erase_display_runs(2) [OF inv]])
  next
    case 14
    then show ?case by (intro edits_inv [OF inv insert_lines_runs [OF inv]]) auto
  next
    case 16
    have s: "args ! 0 < 2 ^ 30" using 16 small by auto
    show ?case by (rule edits_inv [OF inv delete_lines_runs [OF inv]]) (use s p a in \<open>auto simp: int_ok_def\<close>)
  next
    case 18
    then show ?case using safe p by (intro edits_inv [OF inv scroll_screen_runs [OF inv]]) (auto simp: csi_safe_def)
  next
    case 19
    then show ?case using safe p by (intro edits_inv [OF inv scroll_screen_runs [OF inv]]) (auto simp: csi_safe_def)
  next
    case 21
    then show ?case using safe a by (intro csi_sgr_runs [OF inv]) (auto simp: csi_safe_def)
  next
    case 29
    show ?case by (rule advance_runs [OF inv]) (use p a in \<open>auto simp: int_ok_def\<close>)
  next
    case 30
    have s: "args ! 0 < 2 ^ 30" using 30 small by auto
    then have "int_ok (g_col t + max 1 (args ! 0))" using p a by (auto simp: int_ok_def)
    moreover have "runs (kill_chars (g_col t) (min e (t_pcols t)) t) tty_inv" for e by (rule edit) (use p in simp_all)
    ultimately show ?case by (simp add: wp)
  qed (use p a lim inv da small in \<open>auto intro!: edit row\<close>)
qed

theorem csi_exec_safe_witness:
  "runs (csi_exec (code (CHR ''J'')) (replicate 40 1) 1 0 (small_tty 1 2)) tty_inv"
  by (rule csi_exec_safe [OF small_tty_inv])
    (simp_all add: args_shape_def csi_safe_def small_tty_def int_ok_def code_def)

text \<open>
  C23. Erasing from the start of the display with the cursor in the first row (\<open>ESC [ 1 J\<close>) asks
  for a block of negative size: the code blanks the rows from 0 to \<open>row - 1\<close>, exclusive, which
  in the first row is minus one row.
\<close>

theorem erase_above_first_row:
  assumes "tty_inv t" "g_row t = 0" "args_shape args n" "args ! 0 = 1"
  shows "csi_exec (code (CHR ''J'')) args n priv t = None"
proof -
  note p = inv_pos [OF assms(1)]
  have "edits t (kill_chars 0 (g_col t + 1) t)" by (rule kill_chars_runs [OF assms(1)]) (use p in simp_all)
  then obtain u where u: "kill_chars 0 (g_col t + 1) t = Some u" "edited t u" by (auto simp: runs_iff)
  note e = edited_sel(2,6,7) [OF u(2)]
  have "blank_rows 0 (g_row u - 1) u = None"
  proof -
    have "screen_reset (OFFSET u 0 0) ((g_row u - 1 - 0) * t_pcols u) u = None"
      using p e assms(2) by (cases "g_lazy u") (auto simp: screen_reset_def OFFSET_def candraw_def mem_fill_def
          c_div_def split: Option.bind_splits)
    then show ?thesis by (simp add: blank_rows_def empty_rows_def)
  qed
  moreover have "rd args 0 = Some 1" "rd args 1 = Some (args ! 1)"
    using assms(3,4) by (simp_all add: rd_def args_shape_def)
  ultimately show ?thesis using u(1) by (simp add: csi_exec_def Let_def code_def)
qed

theorem erase_above_first_row_witness:
  "csi_exec (code (CHR ''J'')) (replicate 40 1) 1 0 (small_tty 0 2) = None"
  by (rule erase_above_first_row [OF small_tty_inv])
    (simp_all add: args_shape_def small_tty_def int_ok_def)

section \<open>Text\<close>

lemma utf8_rest_inv: "utf8_rest l r t = (c, u) \<Longrightarrow> tty_inv u = tty_inv t"
  by (induction l r t rule: utf8_rest.induct) (auto split: prod.splits dest: readpty_keeps(1))

lemma readutf8_inv: "readutf8 c t = (ch, u) \<Longrightarrow> tty_inv u = tty_inv t"
  by (auto simp: readutf8_def Let_def split: if_splits dest: utf8_rest_inv)

lemma put_wide_runs:
  assumes "tty_inv t"
  shows "runs (put_wide c t) tty_inv"
proof -
  obtain dw zw where w: "isdw c = Some dw" "iszw c = Some zw" using widths_correct by blast
  have "runs (if dw \<and> g_col t + 1 = t_pcols t \<and> \<not> flag t MODE_WRAPREADY then insertchar 0 t else Some t) tty_inv"
    using insertchar_runs [OF assms] assms by simp
  then obtain t1 where t1: "tty_inv t1"
    "(if dw \<and> g_col t + 1 = t_pcols t \<and> \<not> flag t MODE_WRAPREADY then insertchar 0 t else Some t) = Some t1"
    by (auto simp: runs_iff)
  have "runs (if \<not> zw then insertchar c t1 else Some t1) tty_inv"
    using insertchar_runs [OF t1(1)] t1(1) by simp
  then obtain t2 where t2: "tty_inv t2" "(if \<not> zw then insertchar c t1 else Some t1) = Some t2"
    by (auto simp: runs_iff)
  show ?thesis using insertchar_runs [OF t2(1)] t2(1)
    unfolding put_wide_def w Option.bind.simps t1(2) t2(2) by simp
qed

text \<open>
  C22. Every byte that does not start an escape or a control sequence is processed without
  undefined behaviour and keeps the invariant: control characters, ASCII, UTF-8 sequences,
  complete, cut off or malformed, wide and combining characters, and the end of the input.
\<close>

theorem ctlseq_text_safe:
  assumes inv: "tty_inv t0" and c: "readpty t0 = (c, t)" "c \<noteq> 0x1b" "c \<noteq> 0x9b"
  shows "runs (ctlseq t0) tty_inv"
proof -
  have i: "tty_inv t" using readpty_keeps(1) [OF c(1)] inv by simp
  note p = inv_pos [OF i]
  have tab: "0 \<le> g_col t smod 8" "g_col t smod 8 < 8" using p by (simp_all add: smod_pos)
  have adv: "runs (advance dr dc scrl t) tty_inv" if "- 65536 \<le> dr" "dr \<le> 65536" "- 65536 \<le> dc" "dc \<le> 65536" for dr dc scrl
    by (rule advance_small [OF i]) (use that in simp_all)
  have printable: "runs (case readutf8 c t of (ch, t1) \<Rightarrow> put_wide ch t1) tty_inv"
    using i by (auto split: prod.split intro: put_wide_runs simp: readutf8_inv)
  show ?thesis unfolding ctlseq_def c(1) Let_def prod.case
  proof (intro if_runs, goal_cases)
    case 1
    show ?case by (rule adv) (use tab in simp_all)
  next
    case 2
    show ?case by (rule adv) (use p in simp_all)
  next
    case 3
    show ?case by (rule adv) simp_all
  next
    case 4
    then show ?case using c(2) by simp
  next
    case 5
    show ?case by (rule adv) (use p in simp_all)
  next
    case 6
    then show ?case using c(3) by simp
  next
    case 7
    show ?case using i by simp
  next
    case 8
    show ?case using i by simp
  next
    case 9
    show ?case by (rule printable)
  qed
qed

theorem ctlseq_text_safe_witness: "runs (ctlseq (small_tty 2 3)) tty_inv"
proof -
  have "readpty (small_tty 2 3) = (65, (small_tty 2 3)\<lparr>t_buf := [66]\<rparr>)"
    by (simp add: readpty_def small_tty_def)
  then show ?thesis by (rule ctlseq_text_safe [OF small_tty_inv, rotated 4]) simp_all
qed

end
