(* ===== verification/Fbpads.thy ===== *)
theory Fbpads
  imports Vtconsole_Screen Term_Input
begin

text \<open>
  libfbpads/libfbpads.c: the console drawn on the terminal. The console calls \<open>vtc_paint\<close> for
  every cell it changes and \<open>vtc_cursormove\<close> for every move of its cursor; the model replays
  the console's log of these calls on the terminal. The main result is that the terminal's
  screen shows the console's buffer.
\<close>

section \<open>The callbacks\<close>

text \<open>\<open>char\<close> is signed: a byte above 127 becomes a negative \<open>int\<close>.\<close>

definition schar :: "char \<Rightarrow> int" where
  "schar c = (if code c < 128 then code c else code c - 256)"

definition vtc_paint :: "vtcell \<Rightarrow> int \<Rightarrow> int \<Rightarrow> tty \<Rightarrow> tty option" where
  "vtc_paint cell x y t = do {
     f \<leftarrow> term_clrmap (vtcolor_code (va_fg (cell_attr cell)));
     t1 \<leftarrow> term_setfgcolor f t;
     b \<leftarrow> term_clrmap (vtcolor_code (va_bg (cell_attr cell)));
     t2 \<leftarrow> term_setbgcolor b t1;
     t3 \<leftarrow> term_movecursor y x t2;
     t4 \<leftarrow> term_insertchar (schar (cell_c cell)) t3;
     term_redraw False t4 }"

definition vtc_cursormove :: "int \<Rightarrow> int \<Rightarrow> tty \<Rightarrow> tty option" where
  "vtc_cursormove x y t = do { t1 \<leftarrow> term_movecursor y x t; term_redraw False t1 }"

fun replay :: "vtevent list \<Rightarrow> tty \<Rightarrow> tty option" where
  "replay [] t = Some t"
| "replay (Paint cell x y # es) t = do { t1 \<leftarrow> vtc_paint cell x y t; replay es t1 }"
| "replay (Move x y # es) t = do { t1 \<leftarrow> vtc_cursormove x y t; replay es t1 }"

record fbpads =
  vtc_instance :: vtconsole
  term_instance :: tty

definition libfbpads_print :: "string \<Rightarrow> fbpads \<Rightarrow> fbpads option" where
  "libfbpads_print str s = do {
     v \<leftarrow> vtconsole_write ((vtc_instance s)\<lparr>vt_log := []\<rparr>) str;
     t \<leftarrow> replay (vt_log v) (term_instance s);
     Some (s\<lparr>vtc_instance := v, term_instance := t\<rparr>) }"

text \<open>
  \<open>libfbpads_vprintf\<close>; its argument is the text that the format produces. The buffer holds
  255 bytes, so at most 254 characters are printed.
\<close>

definition libfbpads_vprintf :: "string \<Rightarrow> fbpads \<Rightarrow> fbpads option" where
  "libfbpads_vprintf txt s = libfbpads_print (take 254 txt) s"

definition libfbpads_printf :: "string \<Rightarrow> fbpads \<Rightarrow> fbpads option" where
  "libfbpads_printf txt s = libfbpads_vprintf txt s"

definition libfbpads_puts :: "string \<Rightarrow> fbpads \<Rightarrow> fbpads option" where
  "libfbpads_puts str s = libfbpads_printf (str @ [LF]) s"

text \<open>
  \<open>libfbpads_init\<close> after the framebuffer and the fonts are set up, for a pad of \<open>rows\<close> times
  \<open>cols\<close> characters; \<open>g\<close> and \<open>garbage\<close> are the contents of the allocated blocks.
\<close>

definition libfbpads_init :: "int \<Rightarrow> vtcell list \<Rightarrow> int \<Rightarrow> int \<Rightarrow> fbpads option" where
  "libfbpads_init g garbage rows cols = do {
     t0 \<leftarrow> term_make g rows cols;
     t1 \<leftarrow> term_reset (term_load True t0);
     t2 \<leftarrow> term_redraw True t1;
     v \<leftarrow> vtconsole_new garbage cols rows True True;
     t3 \<leftarrow> replay (vt_log v) t2;
     Some \<lparr>vtc_instance = v, term_instance = t3\<rparr> }"

section \<open>The console's log describes its buffer\<close>

fun paint_buf :: "int \<Rightarrow> vtcell list \<Rightarrow> vtevent \<Rightarrow> vtcell list" where
  "paint_buf w b (Paint c x y) = b[nat (x + y * w) := c]"
| "paint_buf w b (Move x y) = b"

fun event_inside :: "int \<Rightarrow> int \<Rightarrow> vtevent \<Rightarrow> bool" where
  "event_inside w h (Paint c x y) = (0 \<le> x \<and> x < w \<and> 0 \<le> y \<and> y < h)"
| "event_inside w h (Move x y) = True"

definition painted :: "int \<Rightarrow> int \<Rightarrow> vtcell list \<Rightarrow> vtconsole \<Rightarrow> bool" where
  "painted w h b0 v \<longleftrightarrow> vt_on_paint v \<and> vt_width v = w \<and> vt_height v = h \<and> vt_grid v \<and> list_all (event_inside w h) (vt_log v) \<and>
     foldl (paint_buf w) b0 (vt_log v) = vt_buffer v"

lemma painted_grid: "painted w h b0 v \<Longrightarrow> vt_grid v"
  by (simp add: painted_def)

lemma painted_keeps [simp]:
  "painted w h b0 (call_move v) = painted w h b0 v" "painted w h b0 (set_x x v) = painted w h b0 v"
  "painted w h b0 (set_y y v) = painted w h b0 v" "painted w h b0 (set_parser p v) = painted w h b0 v"
  "painted w h b0 (v\<lparr>vt_attr := a\<rparr>) = painted w h b0 v"
  by (simp_all add: painted_def call_move_def set_x_def set_y_def set_parser_def vt_grid_def)

lemma painted_put:
  assumes "painted w h b0 v" "0 \<le> x" "x < vt_width v" "0 \<le> y" "y < vt_height v"
  shows "painted w h b0 (call_paint (v\<lparr>vt_buffer := (vt_buffer v)[nat (x + y * vt_width v) := c]\<rparr>) c x y)"
  using assms by (auto simp: painted_def call_paint_def vt_grid_def)

lemma painted_put_index:
  assumes "painted w h b0 v" "wr (vt_buffer v) i c = Some buf"
  shows "painted w h b0 (call_paint (v\<lparr>vt_buffer := buf\<rparr>) c (i smod vt_width v) (i sdiv vt_width v))"
proof -
  from wr_SomeD [OF assms(2)] have b: "buf = (vt_buffer v)[nat i := c]" "0 \<le> i" "i < int (length (vt_buffer v))" by auto
  from painted_grid [OF assms(1)] have g: "0 < vt_width v" "0 < vt_height v"
    "int (length (vt_buffer v)) = vt_width v * vt_height v" by (simp_all add: vt_grid_def)
  have "i < vt_height v * vt_width v" using b(3) g(3) by (simp add: mult.commute)
  then have "i div vt_width v < vt_height v" using g(1) by (rule div_below)
  then have "0 \<le> i smod vt_width v" "i smod vt_width v < vt_width v" "0 \<le> i sdiv vt_width v" "i sdiv vt_width v < vt_height v"
    using b(2) g(1) by (simp_all add: smod_pos sdiv_pos pos_imp_zdiv_nonneg_iff)
  from painted_put [OF assms(1) this, of c] show ?thesis by (simp add: b(1) smod_sdiv_mult_eq)
qed

lemma painted_clear: "painted w h b0 v \<Longrightarrow> vtconsole_clear v fx fy tx ty = Some v' \<Longrightarrow> painted w h b0 v'"
  unfolding vtconsole_clear_def
  by (erule (1) for_range_partial [where I = "painted w h b0", rotated 2])
    (auto split: Option.bind_splits intro: painted_put_index)

lemma painted_scroll:
  assumes "painted w h b0 v" "vtconsole_scroll v n = Some v'"
  shows "painted w h b0 v'"
proof -
  have copy: "painted w h b0 s'" if "painted w h b0 s" "for_range lo hi (scroll_copy k) s = Some s'" for s s' lo hi k
    by (rule for_range_partial [where I = "painted w h b0", OF that(1) _ that(2)])
      (auto simp: scroll_copy_def split: Option.bind_splits intro: painted_put_index)
  have blank: "painted w h b0 s'" if "painted w h b0 s" "for_range lo hi scroll_blank s = Some s'" for s s' lo hi
    by (rule for_range_partial [where I = "painted w h b0", OF that(1) _ that(2)])
      (auto simp: scroll_blank_def split: Option.bind_splits intro: painted_put_index)
  show ?thesis
  proof (cases "n = 0")
    case False
    define k where "k = (if n > vt_height v then vt_height v else n)"
    from assms(2) False obtain v1 v2 where
      v1: "for_range 0 (vt_width v * vt_height v - vt_width v * k) (scroll_copy k) v = Some v1" and
      v2: "for_range (vt_width v * vt_height v - vt_width v * k) (vt_width v * vt_height v) scroll_blank v1 = Some v2" and
      v': "v' = (if cur_y (vt_cursor v2) > 0 then call_move (set_y (if cur_y (vt_cursor v2) - k < 0 then 0
              else cur_y (vt_cursor v2) - k) v2) else v2)"
      unfolding vtconsole_scroll_def Let_def k_def [symmetric] by (auto split: Option.bind_splits)
    from blank [OF copy [OF assms(1) v1] v2] show ?thesis by (simp add: v')
  qed (use assms in \<open>simp add: vtconsole_scroll_def\<close>)
qed

lemma painted_newline:
  assumes "painted w h b0 v" "vtconsole_newline v = Some v'"
  shows "painted w h b0 v'"
proof -
  define u where "u = set_y (cur_y (vt_cursor v) + 1) (set_x 0 v)"
  have u: "painted w h b0 u" using assms(1) by (simp add: u_def)
  from assms(2) obtain v2 where
    v2: "(if cur_y (vt_cursor u) = vt_height u then vtconsole_scroll u 1 else Some u) = Some v2" "v' = call_move v2"
    unfolding vtconsole_newline_def Let_def u_def [symmetric] by (auto split: Option.bind_splits)
  have "painted w h b0 v2"
  proof (cases "cur_y (vt_cursor u) = vt_height u")
    case True
    with v2(1) show ?thesis by (simp add: painted_scroll [OF u])
  next
    case False
    with v2(1) u show ?thesis by simp
  qed
  then show ?thesis by (simp add: v2(2))
qed

lemma painted_append_glyph:
  assumes p: "painted w h b0 v" and c: "cursor_ok v" and r: "append_glyph v ch = Some v'"
  shows "painted w h b0 v'"
proof -
  note g = painted_grid [OF p]
  let ?m = "if cur_x (vt_cursor v) \<ge> vt_width v then vtconsole_newline v else Some v"
  from r obtain v1 where v1: "?m = Some v1" by (auto simp: append_glyph_def split: Option.bind_splits)
  have pv: "painted w h b0 v1 \<and> cursor_ok v1 \<and> cur_x (vt_cursor v1) < vt_width v1"
  proof (cases "cur_x (vt_cursor v) \<ge> vt_width v")
    case True
    then have nl: "vtconsole_newline v = Some v1" using v1 by simp
    from runs_SomeD [OF newline_runs [OF g c] nl] painted_newline [OF p nl] grid_pos [OF g]
    show ?thesis by (auto simp: vt_frame_def)
  next
    case False
    with v1 p c show ?thesis by simp
  qed
  let ?x = "cur_x (vt_cursor v1)" and ?y = "cur_y (vt_cursor v1)"
  let ?cell = "\<lparr>cell_c = ch, cell_attr = vt_attr v1\<rparr>"
  have "0 \<le> ?x" "0 \<le> ?y" "?y < vt_height v1" using pv by (simp_all add: cursor_ok_def)
  then have "painted w h b0 (call_paint (v1\<lparr>vt_buffer := (vt_buffer v1)[nat (?x + ?y * vt_width v1) := ?cell]\<rparr>) ?cell ?x ?y)"
    using pv by (intro painted_put) simp_all
  moreover from r v1 have "v' = call_move (set_x (?x + 1)
      (call_paint (v1\<lparr>vt_buffer := (vt_buffer v1)[nat (?x + ?y * vt_width v1) := ?cell]\<rparr>) ?cell ?x ?y))"
    by (auto simp: append_glyph_def Let_def split: Option.bind_splits dest: wr_SomeD)
  ultimately show ?thesis by simp
qed

lemma painted_append_partial:
  assumes p: "painted w h b0 v" and c: "cursor_ok v" and r: "vtconsole_append v ch = Some v'"
  shows "painted w h b0 v'"
proof -
  have tab: "painted w h b0 z" if "for_range 0 n (\<lambda>_ s. append_glyph s (CHR '' '')) v = Some z" for n z
  proof -
    have "painted w h b0 z \<and> cursor_ok z"
      by (rule for_range_partial [where I = "\<lambda>s. painted w h b0 s \<and> cursor_ok s", OF _ _ that])
        (use p c in \<open>auto dest: painted_append_glyph runs_SomeD [OF append_glyph_runs [OF painted_grid]]\<close>)
    then show ?thesis ..
  qed
  from r p show ?thesis
    by (auto simp: vtconsole_append_def split: if_splits
        dest: painted_newline [OF p] painted_append_glyph [OF p c] tab)
qed

lemma painted_sgr: "painted w h b0 v \<Longrightarrow> vtconsole_csi_sgr v st n = Some v' \<Longrightarrow> painted w h b0 v'"
  unfolding vtconsole_csi_sgr_def
  by (erule (1) for_range_partial [where I = "painted w h b0", rotated 2]) (auto split: Option.bind_splits)

lemma painted_endval:
  assumes p: "painted w h b0 v" and r: "process_endval v c = Some v'"
  shows "painted w h b0 v'"
proof (cases "c = CHR '';''")
  case True
  with assms show ?thesis by (auto simp: process_endval_def Let_def)
next
  case False
  let ?m = "if c = CHR ''H'' then vtconsole_csi_cup v (vp_stack (vt_parser v)) (vp_index (vt_parser v))
      else if c = CHR ''J'' then vtconsole_csi_ed v (vp_stack (vt_parser v)) (vp_index (vt_parser v))
      else if c = CHR ''K'' then vtconsole_csi_el v (vp_stack (vt_parser v)) (vp_index (vt_parser v))
      else if c = CHR ''m'' then vtconsole_csi_sgr v (vp_stack (vt_parser v)) (vp_index (vt_parser v))
      else Some v"
  from r False obtain v1 where v1: "?m = Some v1"
    "v' = set_parser ((vt_parser v1)\<lparr>vp_state := VTSTATE_ESC\<rparr>) v1"
    by (auto simp: process_endval_def Let_def split: Option.bind_splits)
  have "painted w h b0 v1" using v1(1) p
    by (auto simp: vtconsole_csi_cup_def vtconsole_csi_ed_def vtconsole_csi_el_def Let_def
        split: if_splits Option.bind_splits dest: painted_clear painted_sgr)
  then show ?thesis by (simp add: v1(2))
qed

lemma painted_process:
  assumes p: "painted w h b0 v" and c: "cursor_ok v" and r: "vtconsole_process v ch = Some v'"
  shows "painted w h b0 v'"
proof -
  from r obtain v1 where v1: "process_state v ch = Some v1"
    "(if vp_state (vt_parser v1) = VTSTATE_ENDVAL then process_endval v1 ch else Some v1) = Some v'"
    by (auto simp: vtconsole_process_def split: Option.bind_splits)
  have "cursor_ok (set_parser q v)" for q using c by (simp add: cursor_ok_def)
  then have a: "vtconsole_append (set_parser q v) ch = Some z \<Longrightarrow> painted w h b0 z" for q z
    using painted_append_partial [of w h b0 "set_parser q v" ch z] p by simp
  from v1(1) p have "painted w h b0 v1"
    by (auto simp: process_state_def Let_def split: vtansi_state.splits if_splits Option.bind_splits dest: a)
  with v1(2) show ?thesis by (auto split: if_splits dest: painted_endval)
qed

section \<open>The terminal shows the buffer\<close>

text \<open>
  \<open>console_terminal\<close> is what \<open>libfbpads_init\<close> sets up: a terminal of the console's size in
  replace mode, with absolute cursor addresses and no program; \<open>displays\<close> relates its screen to
  a console buffer.
\<close>

definition console_terminal :: "int \<Rightarrow> int \<Rightarrow> tty \<Rightarrow> bool" where
  "console_terminal w h t \<longleftrightarrow> tty_inv t \<and> t_pcols t = w \<and> t_prows t = h \<and>
     \<not> flag t MODE_ORIGIN \<and> \<not> flag t MODE_INSERT \<and> t_fd t = 0"

definition displays :: "vtcell list \<Rightarrow> tty \<Rightarrow> bool" where
  "displays b t \<longleftrightarrow> t_screen t = map (schar \<circ> cell_c) b"

lemma console_terminal_modes:
  "console_terminal w h t \<Longrightarrow> same_modes t u \<Longrightarrow> tty_inv u \<Longrightarrow> console_terminal w h u"
  by (simp add: console_terminal_def same_modes_def)

lemma console_terminal_colour [simp]:
  "console_terminal w h (t\<lparr>g_fg := c\<rparr>) = console_terminal w h t"
  "console_terminal w h (t\<lparr>g_bg := c\<rparr>) = console_terminal w h t"
  "displays b (t\<lparr>g_fg := c\<rparr>) = displays b t" "displays b (t\<lparr>g_bg := c\<rparr>) = displays b t"
  by (simp_all add: console_terminal_def displays_def flag_def)

lemma clrmap_vtcolor: "\<exists>f. clrmap (vtcolor_code k) = Some f \<and> 0 \<le> f \<and> f \<le> 0xaaaaaa"
  by (cases k) (simp_all add: clrmap_def rd_def clr16_def c_int_def int_ok_def)

lemma clrmap_any: "0 \<le> f \<Longrightarrow> f \<le> 0xaaaaaa \<Longrightarrow> \<exists>x. clrmap f = Some x"
proof -
  assume f: "0 \<le> f" "f \<le> 0xaaaaaa"
  then consider "f \<le> 255" | "255 < f" by linarith
  then show ?thesis
  proof cases
    case 2
    have "int_ok ((f - 232) * 10 + 8)" using f by (simp add: int_ok_def)
    with 2 show ?thesis by (simp add: clrmap_def c_int_def)
  qed (use f in \<open>simp add: clrmap_runs\<close>)
qed

lemma cursormove_shows:
  assumes t: "console_terminal w h t" and s: "displays b t"
  shows "runs (vtc_cursormove x y t) (\<lambda>u. console_terminal w h u \<and> displays b u)"
proof -
  have "tty_inv t" using t by (simp add: console_terminal_def)
  from move_cursor_runs [OF this, of y x] obtain u where
    u: "move_cursor y x t = Some u" "moved (cursor_row y t) (limit x 0 (t_pcols t - 1)) t u" by (auto simp: runs_iff)
  have "console_terminal w h u" using moved_modes [OF u(2)] u(2)
    by (intro console_terminal_modes [OF t]) (simp_all add: moved_def)
  moreover have "displays b u" using moved_contents [OF u(2)] s by (simp add: displays_def)
  ultimately show ?thesis using u(1)
    by (simp add: vtc_cursormove_def term_movecursor_def term_redraw_def console_terminal_def)
qed

lemma paint_shows:
  assumes t: "console_terminal w h t" and s: "displays b t" and c: "0 \<le> x" "x < w" "0 \<le> y" "y < h"
  shows "runs (vtc_paint cell x y t) (\<lambda>u. console_terminal w h u \<and> displays (b[nat (x + y * w) := cell]) u)"
proof -
  obtain f ff bg bbg where col: "clrmap (vtcolor_code (va_fg (cell_attr cell))) = Some f" "clrmap f = Some ff"
    "clrmap (vtcolor_code (va_bg (cell_attr cell))) = Some bg" "clrmap bg = Some bbg"
    using clrmap_vtcolor clrmap_any by metis
  let ?t = "t\<lparr>g_fg := ff, g_bg := bbg\<rparr>"
  have t2: "console_terminal w h ?t" "displays b ?t" using t s by simp_all
  then have inv: "tty_inv ?t" by (simp add: console_terminal_def)
  have pos: "cursor_row y ?t = y" "limit x 0 (t_pcols ?t - 1) = x"
    using t c by (simp_all add: cursor_row_def origin_def console_terminal_def limit_def flag_def)
  from move_cursor_runs [OF inv, of y x, unfolded pos] obtain u where
    u: "move_cursor y x ?t = Some u" "moved y x ?t u" by (auto simp: runs_iff)
  have m: "console_terminal w h u" "\<not> flag u MODE_WRAPREADY" using moved_modes [OF u(2)] u(2)
    by (auto intro!: console_terminal_modes [OF t2(1)] simp: moved_def)
  have su: "displays b u" using moved_contents [OF u(2)] t2(2) by (simp add: displays_def)
  have pu: "g_row u = y" "g_col u = x" "t_pcols u = w" "tty_inv u" "\<not> flag u MODE_INSERT" "\<not> origin u"
    using u(2) m by (simp_all add: moved_def console_terminal_def origin_def)
  from insertchar_effect [OF pu(4) m(2) pu(5), of "schar (cell_c cell)"] pu obtain z where
    z: "insertchar (schar (cell_c cell)) u = Some z" "tty_inv z" "same_modes u z"
      "t_screen z = (t_screen u)[nat (y * w + x) := schar (cell_c cell)]"
    by (auto simp: runs_iff)
  have "displays (b[nat (x + y * w) := cell]) z"
    using su z(4) by (simp add: displays_def map_update add.commute)
  with console_terminal_modes [OF m(1) z(3,2)] show ?thesis using u(1) z(1) col
    by (simp add: vtc_paint_def term_clrmap_def term_setfgcolor_def term_setbgcolor_def term_movecursor_def
        term_insertchar_def term_redraw_def console_terminal_def)
qed

definition replay_event :: "vtevent \<Rightarrow> tty \<Rightarrow> tty option" where
  "replay_event e t = (case e of Paint cell x y \<Rightarrow> vtc_paint cell x y t | Move x y \<Rightarrow> vtc_cursormove x y t)"

text \<open>The terminal takes the events of the console, and the buffer of the console is what they mean.\<close>

interpretation shown_events: command_sequence replay replay_event "event_inside w h"
    "\<lambda>b t. console_terminal w h t \<and> displays b t" "paint_buf w" for w h
proof
  show "replay [] t = Some t" for t by simp
  show "replay (e # es) t = do { u \<leftarrow> replay_event e t; replay es u }" for e es t
    by (cases e) (simp_all add: replay_event_def)
  show "runs (replay_event e t) (\<lambda>u. console_terminal w h u \<and> displays (paint_buf w b e) u)"
    if "event_inside w h e" "console_terminal w h t \<and> displays b t" for e b t
    using that paint_shows cursormove_shows by (cases e) (simp_all add: replay_event_def)
qed

lemma replay_shows:
  assumes "console_terminal w h t" "displays b t" "list_all (event_inside w h) es"
  shows "runs (replay es t) (\<lambda>u. console_terminal w h u \<and> displays (foldl (paint_buf w) b es) u)"
  by (rule shown_events.run_all [OF conjI]) (fact assms)+

text \<open>The bytes of a text that the console handles without undefined behaviour.\<close>

fun safe_text :: "vtconsole \<Rightarrow> string \<Rightarrow> bool" where
  "safe_text v [] = True"
| "safe_text v (c # cs) =
     (vt_safe v c \<and> (case vtconsole_process v c of None \<Rightarrow> False | Some v' \<Rightarrow> safe_text v' cs))"

lemma safe_text_painted:
  assumes "vt_inv v" "painted w h b0 v" "safe_text v cs"
  shows "runs (vtconsole_write v cs) (\<lambda>v'. vt_inv v' \<and> painted w h b0 v')"
  using assms
proof (induction cs arbitrary: v)
  case (Cons c cs)
  from Cons.prems(3) have "vt_safe v c" by simp
  with process_exact [OF Cons.prems(1), of c] obtain v1 where
    v1: "vtconsole_process v c = Some v1" "vt_inv v1" by (auto simp: runs_iff)
  have "painted w h b0 v1"
    by (rule painted_process [OF Cons.prems(2) _ v1(1)]) (use Cons.prems(1) in \<open>simp add: vt_inv_def\<close>)
  from Cons.IH [OF v1(2) this] Cons.prems(3) v1 show ?case by simp
qed simp

text \<open>The invariant of the library: the terminal shows what the console holds.\<close>

definition fbpads_inv :: "fbpads \<Rightarrow> bool" where
  "fbpads_inv s \<longleftrightarrow> vt_inv (vtc_instance s) \<and> vt_on_paint (vtc_instance s) \<and>
     console_terminal (vt_width (vtc_instance s)) (vt_height (vtc_instance s)) (term_instance s) \<and>
     displays (vt_buffer (vtc_instance s)) (term_instance s)"

lemma fbpads_sync:
  assumes "console_terminal w h t" "displays b0 t" "vt_inv v" "painted w h b0 v"
  shows "runs (replay (vt_log v) t) (\<lambda>u. fbpads_inv \<lparr>vtc_instance = v, term_instance = u\<rparr>)"
proof -
  have "list_all (event_inside w h) (vt_log v)" using assms(4) by (simp add: painted_def)
  from replay_shows [OF assms(1,2) this] show ?thesis
    by (rule runs_mono) (use assms(3,4) in \<open>auto simp: fbpads_inv_def painted_def\<close>)
qed

lemma log_reset [simp]: "vt_inv (v\<lparr>vt_log := l\<rparr>) = vt_inv v"
  by (simp add: vt_inv_def vt_grid_def cursor_ok_def)

lemma print_keeps:
  assumes "fbpads_inv s" "safe_text ((vtc_instance s)\<lparr>vt_log := []\<rparr>) str"
  shows "runs (libfbpads_print str s) (\<lambda>s'. fbpads_inv s' \<and>
    t_prows (term_instance s') = t_prows (term_instance s) \<and> t_pcols (term_instance s') = t_pcols (term_instance s))"
proof -
  let ?v = "(vtc_instance s)\<lparr>vt_log := []\<rparr>"
  let ?w = "vt_width ?v" and ?h = "vt_height ?v"
  from assms(1) have i: "vt_inv ?v" and t: "console_terminal ?w ?h (term_instance s)" "displays (vt_buffer ?v) (term_instance s)"
    by (simp_all add: fbpads_inv_def)
  from i assms(1) have "painted ?w ?h (vt_buffer ?v) ?v" by (simp add: painted_def fbpads_inv_def vt_inv_def)
  from safe_text_painted [OF i this assms(2)] obtain v where
    v: "vtconsole_write ?v str = Some v" "vt_inv v" "painted ?w ?h (vt_buffer ?v) v" by (auto simp: runs_iff)
  from fbpads_sync [OF t v(2,3)] show ?thesis using v t(1)
    by (auto simp: libfbpads_print_def runs_iff fbpads_inv_def painted_def console_terminal_def)
qed

lemma print_displays:
  assumes "fbpads_inv s" "safe_text ((vtc_instance s)\<lparr>vt_log := []\<rparr>) str"
  shows "runs (libfbpads_print str s) fbpads_inv"
  using print_keeps [OF assms] by (rule runs_mono) simp

text \<open>
  C6. Printing any text that the console accepts ends, keeps the console within its buffer and
  leaves the terminal showing exactly the characters of the console's buffer, however often the
  text wraps, scrolls, erases or moves the cursor.
\<close>

theorem libfbpads_print_displays:
  assumes "fbpads_inv s" "safe_text ((vtc_instance s)\<lparr>vt_log := []\<rparr>) str"
  shows "runs (libfbpads_print str s) fbpads_inv"
  using assms by (rule print_displays)

section \<open>Printing text, and starting up\<close>

lemma plain_safe:
  assumes "vt_idle v" "\<forall>c \<in> set cs. plain_char c"
  shows "safe_text v cs"
  using assms
proof (induction cs arbitrary: v)
  case (Cons c cs)
  from Cons.prems have i: "vt_inv v" and c: "plain_char c" by (simp_all add: vt_idle_def)
  from process_plain [OF Cons.prems(1) c] obtain v1 where
    v1: "vtconsole_process v c = Some v1" "vt_idle v1" by (auto simp: runs_iff)
  then have "runs (vtconsole_process v c) vt_inv" by (simp add: vt_idle_def)
  with process_exact [OF i, of c] Cons v1 show ?case by simp
qed simp

lemma print_idle:
  assumes "fbpads_inv s" "vt_idle (vtc_instance s)" "\<forall>c \<in> set cs. plain_char c"
  shows "runs (libfbpads_print cs s) (\<lambda>s'. fbpads_inv s' \<and> vt_idle (vtc_instance s'))"
proof -
  let ?v = "(vtc_instance s)\<lparr>vt_log := []\<rparr>"
  have idle: "vt_idle ?v" using assms(2) by (simp add: vt_idle_def)
  from vtconsole_write_plain [OF idle assms(3)] obtain v where
    v: "vtconsole_write ?v cs = Some v" "vt_idle v" by (auto simp: runs_iff)
  with print_displays [OF assms(1) plain_safe [OF idle assms(3)]] show ?thesis
    by (auto simp: libfbpads_print_def runs_iff split: Option.bind_splits)
qed

text \<open>
  A line of text without control sequences, of any length, is printed without undefined
  behaviour, truncated to 254 bytes with its line feed, and the terminal shows the console.
\<close>

theorem libfbpads_puts_displays:
  assumes "fbpads_inv s" "vt_idle (vtc_instance s)" "\<forall>c \<in> set str. plain_char c"
  shows "runs (libfbpads_puts str s) (\<lambda>s'. fbpads_inv s' \<and> vt_idle (vtc_instance s'))"
proof -
  have "set (take 254 (str @ [LF])) \<subseteq> insert LF (set str)" using set_take_subset [of 254 "str @ [LF]"] by simp
  moreover have "plain_char LF" by (simp add: plain_char_def)
  ultimately have "\<forall>c \<in> set (take 254 (str @ [LF])). plain_char c" using assms(3) by blast
  from print_idle [OF assms(1,2) this] show ?thesis
    by (simp only: libfbpads_puts_def libfbpads_printf_def libfbpads_vprintf_def)
qed

lemma new_painted:
  assumes "0 < w" "0 < h" "int (length garbage) = w * h" "int (length b0) = w * h"
  shows "runs (vtconsole_new garbage w h True m) (\<lambda>v. vt_idle v \<and> painted w h b0 v)"
proof -
  define v where "v = \<lparr>vt_width = w, vt_height = h, vt_attr = VTC_DEFAULT_ATTR,
        vt_parser = \<lparr>vp_state = VTSTATE_ESC,
          vp_stack = replicate 8 \<lparr>arg_value = 0, arg_empty = False\<rparr>, vp_index = 0\<rparr>,
        vt_buffer = garbage, vt_cursor = \<lparr>cur_x = 0, cur_y = 0\<rparr>,
        vt_on_paint = True, vt_on_move = m, vt_log = []\<rparr>"
  let ?I = "\<lambda>i s. vt_on_paint s \<and> vt_width s = w \<and> vt_height s = h \<and> int (length (vt_buffer s)) = w * h \<and>
     list_all (event_inside w h) (vt_log s) \<and> foldl (paint_buf w) b0 (vt_log s) = fill_cells 0 i blank_cell b0"
  have new: "vtconsole_new garbage w h True m = vtconsole_clear v 0 0 w (h - 1)"
    by (simp add: vtconsole_new_def v_def)
  have whole: "w + (h - 1) * w = w * h" by (simp add: algebra_simps)
  have pos: "0 < w * h" using assms by simp
  have "runs (for_range 0 (w * h)
       (\<lambda>i v. do {
          buf \<leftarrow> wr (vt_buffer v) i blank_cell;
          Some (call_paint (v\<lparr>vt_buffer := buf\<rparr>) blank_cell (i smod vt_width v) (i sdiv vt_width v)) })
       v) (?I (w * h))"
  proof (rule for_range_inv [where I = ?I], goal_cases)
    case (3 i s)
    then have i: "0 \<le> i" "i < w * h" by simp_all
    have "i div w < h" using div_below [of i h w] i assms(1) by (simp add: mult.commute)
    then have b: "0 \<le> i smod w" "i smod w < w" "0 \<le> i sdiv w" "i sdiv w < h"
      using i assms(1) by (simp_all add: smod_pos sdiv_pos pos_imp_zdiv_nonneg_iff)
    show ?case using 3 b i fill_cells_step [of 0 i b0 blank_cell] assms(4)
      by (simp add: wp call_paint_def smod_sdiv_mult_eq)
  qed (use assms pos in \<open>simp_all add: v_def whole fill_cells_def\<close>)
  then have "runs (vtconsole_clear v 0 0 w (h - 1)) (?I (w * h))" by (simp add: vtconsole_clear_def v_def whole)
  with new_blank [OF assms(1-3), of True m] have "runs (vtconsole_new garbage w h True m) (\<lambda>v. (vt_inv v \<and>
     vt_buffer v = replicate (nat (w * h)) blank_cell \<and> vt_width v = w \<and> vt_height v = h \<and>
         cur_x (vt_cursor v) = 0 \<and> cur_y (vt_cursor v) = 0 \<and> vp_state (vt_parser v) = VTSTATE_ESC) \<and> ?I (w * h) v)"
    unfolding new by (rule runs_conj)
  then show ?thesis
    by (rule runs_mono) (use pos assms(4) in \<open>auto simp: painted_def vt_idle_def vt_inv_def fill_cells_def\<close>)
qed

lemma mem_fill_all: "int (length xs) = n \<Longrightarrow> 0 < n \<Longrightarrow> mem_fill xs 0 n v = Some (replicate (nat n) v)"
  by (simp add: mem_fill_runs fill_cells_def)

text \<open>A new terminal, loaded and reset.\<close>

definition fresh_tty :: "int \<Rightarrow> int \<Rightarrow> tty \<Rightarrow> bool" where
  "fresh_tty rows cols t \<longleftrightarrow> t_prows t = rows \<and> t_pcols t = cols \<and> t_screen t = replicate (nat (rows * cols)) 0 \<and>
     length (t_fgs t) = nat (rows * cols) \<and> length (t_bgs t) = nat (rows * cols) \<and>
     length (t_hist t) = nat (NHIST * cols) \<and> length (t_dirty t) = nat rows \<and> t_hrow t = 0 \<and> t_fd t = 0 \<and>
     t_sav t = state_zero \<and> t_draws t = []"

lemma term_make_fresh:
  assumes "0 < rows" "0 < cols"
  shows "runs (term_make g rows cols) (fresh_tty rows cols)"
proof -
  have "0 < rows * cols" "0 < NHIST * cols" using assms by (simp_all add: NHIST_def)
  with assms show ?thesis by (simp add: term_make_def term_zero_def mem_fill_all fresh_tty_def)
qed

lemma term_start:
  assumes "0 < rows" "rows < 65536" "0 < cols" "cols < 65536"
  shows "runs (do { t0 \<leftarrow> term_make g rows cols; t1 \<leftarrow> term_reset (term_load True t0); term_redraw True t1 })
    (\<lambda>t. console_terminal cols rows t \<and> t_screen t = replicate (nat (rows * cols)) 0)"
proof -
  from term_make_fresh [OF assms(1,3), of g] obtain t0 where
    t0: "term_make g rows cols = Some t0" "fresh_tty rows cols t0" by (auto simp: runs_iff)
  define t where "t = (term_load True t0)\<lparr>g_row := 0, g_col := 0, g_top := 0, g_bot := t_prows t0,
     g_mode := or MODE_CURSOR (or MODE_WRAP MODE_CLR8), g_fg := FGCOLOR, g_bg := BGCOLOR\<rparr>"
  have sz: "0 < rows * cols" using assms by simp
  have t: "t_prows t = rows" "t_pcols t = cols" "t_fd t = 0" "t_screen t = replicate (nat (rows * cols)) 0"
    "\<not> flag t MODE_ORIGIN" "\<not> flag t MODE_INSERT"
    using t0(2) by (simp_all add: t_def fresh_tty_def term_load_def misc_load_def flag_def MODE_CURSOR_def MODE_WRAP_def
        MODE_CLR8_def MODE_ORIGIN_def MODE_INSERT_def)
  have inv: "tty_inv t" using t0(2) assms sz
    by (simp add: t_def tty_inv_def tty_grid_def tty_pos_def fresh_tty_def term_load_def misc_load_def state_zero_def NHIST_def)
  note g = inv_grid [OF inv]
  have reset: "term_reset (term_load True t0) = term_blank t"
    by (simp add: term_reset_def t_def term_load_def misc_load_def)
  have all: "fill_cells 0 (0 + rows * cols) 0 (t_screen t) = replicate (nat (rows * cols)) 0"
    using sz t(4) by (simp add: fill_cells_def)
  have "runs (screen_reset 0 (rows * cols) t) (\<lambda>u. edited t u \<and> t_screen u = replicate (nat (rows * cols)) 0)"
    using screen_reset_runs [OF g, of 0 "rows * cols"] screen_reset_effect [OF g, of 0 "rows * cols"] sz t(1,2)
    unfolding all by (auto simp: runs_iff)
  then obtain u where u: "screen_reset 0 (rows * cols) t = Some u" "edited t u" "t_screen u = replicate (nat (rows * cols)) 0"
    by (auto simp: runs_iff)
  have "console_terminal cols rows w" if "same_modes t w" "tty_inv w" for w
    using that t by (simp add: console_terminal_def same_modes_def)
  from this [OF edited_modes [OF u(2)] edited_inv(3) [OF u(2) inv]] have ct: "console_terminal cols rows u" .
  have emit: "console_terminal cols rows (pad_emit d w)" if "console_terminal cols rows w" "call_inside rows cols d" for d w
    using that by (auto simp: console_terminal_def pad_emit_def tty_inv_def tty_grid_def tty_pos_def flag_def)
  have ct': "console_terminal cols rows (pad_emit (PadFill 0 (- 1) 0 (- 1) c) w)" if "console_terminal cols rows w" for c w
    by (rule emit [OF that]) (use assms in simp)
  have "t_fd u = 0" using ct by (simp add: console_terminal_def)
  then have fd: "t_fd (pad_emit d u) = 0" for d by (simp add: pad_emit_def)
  show ?thesis using t0(1) u(1,3) t(1,2) ct ct' fd \<open>t_fd u = 0\<close>
    by (simp add: reset term_blank_def term_redraw_def)
qed

lemma displays_blank: "t_screen t = replicate n 0 \<Longrightarrow> displays (replicate n \<lparr>cell_c = NUL, cell_attr = VTC_DEFAULT_ATTR\<rparr>) t"
  by (simp add: displays_def schar_def code_def)

lemma init_keeps:
  assumes "0 < rows" "rows < 65536" "0 < cols" "cols < 65536" "int (length garbage) = cols * rows"
  shows "runs (libfbpads_init g garbage rows cols) (\<lambda>s. fbpads_inv s \<and> vt_idle (vtc_instance s) \<and>
    t_prows (term_instance s) = rows \<and> t_pcols (term_instance s) = cols)"
proof -
  let ?b0 = "replicate (nat (rows * cols)) \<lparr>cell_c = NUL, cell_attr = VTC_DEFAULT_ATTR\<rparr>"
  from term_start [OF assms(1-4), of g] obtain t0 t1 t2 where
    t: "term_make g rows cols = Some t0" "term_reset (term_load True t0) = Some t1" "term_redraw True t1 = Some t2"
    "console_terminal cols rows t2" "t_screen t2 = replicate (nat (rows * cols)) 0"
    by (auto simp: runs_iff split: Option.bind_splits)
  have "int (length ?b0) = cols * rows" using assms by (simp add: mult.commute)
  from new_painted [OF assms(3,1,5) this] obtain v where
    v: "vtconsole_new garbage cols rows True True = Some v" "vt_idle v" "painted cols rows ?b0 v" by (auto simp: runs_iff)
  then have "vt_inv v" by (simp add: vt_idle_def)
  from fbpads_sync [OF t(4) displays_blank [OF t(5)] this v(3)] t(1-3) v show ?thesis
    by (auto simp: libfbpads_init_def runs_iff fbpads_inv_def painted_def console_terminal_def)
qed

lemma init_displays:
  assumes "0 < rows" "rows < 65536" "0 < cols" "cols < 65536" "int (length garbage) = cols * rows"
  shows "runs (libfbpads_init g garbage rows cols) (\<lambda>s. fbpads_inv s \<and> vt_idle (vtc_instance s))"
  using init_keeps [OF assms] by (rule runs_mono) simp

text \<open>
  Starting the library on a pad of \<open>rows\<close> times \<open>cols\<close> characters gives a console over a
  blank grid and a terminal that shows it, whatever the allocated blocks contain.
\<close>

theorem libfbpads_init_displays:
  assumes "0 < rows" "rows < 65536" "0 < cols" "cols < 65536" "int (length garbage) = cols * rows"
  shows "runs (libfbpads_init g garbage rows cols) (\<lambda>s. fbpads_inv s \<and> vt_idle (vtc_instance s))"
  using assms by (rule init_displays)

text \<open>
  \<open>vtc_paint\<close> maps the colour of a cell twice: on a terminal without attributes, every colour
  but black is drawn in another colour than its entry of the palette.
\<close>

theorem vtc_paint_colour:
  assumes t: "console_terminal w h t" and c: "0 \<le> x" "x < w" "0 \<le> y" "y < h"
    and plain: "\<not> flag t ATTR_BOLD" "\<not> flag t ATTR_ITALIC" "\<not> flag t ATTR_REV"
    and k: "va_fg (cell_attr cell) \<noteq> VTCOLOR_BLACK"
  shows "runs (vtc_paint cell x y t)
    (\<lambda>u. t_fgs u ! nat (y * w + x) \<noteq> clr16 ! nat (vtcolor_code (va_fg (cell_attr cell))))"
proof -
  let ?k = "vtcolor_code (va_fg (cell_attr cell))"
  obtain f ff where f: "clrmap ?k = Some f" "clrmap f = Some ff" "ff \<noteq> clr16 ! nat ?k"
  proof -
    have "\<exists>f ff. clrmap (vtcolor_code q) = Some f \<and> clrmap f = Some ff \<and> ff \<noteq> clr16 ! nat (vtcolor_code q)"
      if "q \<noteq> VTCOLOR_BLACK" for q
      using that by (cases q) (simp_all add: clrmap_def rd_def clr16_def c_int_def int_ok_def rgb_def shl_def Let_def)
    with k that show thesis by blast
  qed
  obtain bg bbg where col: "clrmap (vtcolor_code (va_bg (cell_attr cell))) = Some bg" "clrmap bg = Some bbg"
    using clrmap_vtcolor clrmap_any by metis
  let ?t = "t\<lparr>g_fg := ff, g_bg := bbg\<rparr>"
  have t2: "console_terminal w h ?t" using t by simp
  then have inv: "tty_inv ?t" by (simp add: console_terminal_def)
  have pos: "cursor_row y ?t = y" "limit x 0 (t_pcols ?t - 1) = x"
    using t c by (simp_all add: cursor_row_def origin_def console_terminal_def limit_def flag_def)
  from move_cursor_runs [OF inv, of y x, unfolded pos] obtain u where
    u: "move_cursor y x ?t = Some u" "moved y x ?t u" by (auto simp: runs_iff)
  have d: "drawn (?t\<lparr>g_row := y, g_col := x, g_mode := bit_set (g_mode ?t) MODE_WRAPREADY False\<rparr>) u"
    using u(2) by (simp add: moved_def)
  have "fgcolor u = ff" using drawn_sel [OF d] plain
    by (simp add: fgcolor_def flag_def flag_other ATTR_BOLD_def ATTR_ITALIC_def ATTR_REV_def MODE_WRAPREADY_def Let_def)
  moreover have m: "console_terminal w h u" "\<not> flag u MODE_WRAPREADY" using moved_modes [OF u(2)] u(2)
    by (auto intro!: console_terminal_modes [OF t2] simp: moved_def)
  have pu: "g_row u = y" "g_col u = x" "t_pcols u = w" "tty_inv u" "\<not> flag u MODE_INSERT" "\<not> origin u"
    using u(2) m by (simp_all add: moved_def console_terminal_def origin_def)
  from insertchar_effect [OF pu(4) m(2) pu(5), of "schar (cell_c cell)"] pu obtain z where
    z: "insertchar (schar (cell_c cell)) u = Some z" "same_modes u z" "t_fgs z = (t_fgs u)[nat (y * w + x) := fgcolor u]"
    by (auto simp: runs_iff)
  moreover have "nat (y * w + x) < length (t_fgs u)"
  proof -
    have "0 \<le> y * w + x \<and> y * w + x < int (length (t_fgs u))"
      using offset_in [OF inv_grid [OF pu(4)], of y x] m c by (simp add: OFFSET_def console_terminal_def)
    then show ?thesis by linarith
  qed
  moreover have "t_fd z = 0" using z(2) m(1) by (simp add: same_modes_def console_terminal_def)
  ultimately show ?thesis using u(1) f col
    by (simp add: vtc_paint_def term_clrmap_def term_setfgcolor_def term_setbgcolor_def term_movecursor_def
        term_insertchar_def term_redraw_def)
qed

definition small_fbpads :: fbpads where
  "small_fbpads = the (libfbpads_init 7 (replicate 12 blank_cell) 3 4)"

lemma small_fbpads: "fbpads_inv small_fbpads" "vt_idle (vtc_instance small_fbpads)"
  using init_displays [of 3 4 "replicate 12 blank_cell" 7] unfolding small_fbpads_def runs_iff by auto

theorem libfbpads_print_displays_witness: "runs (libfbpads_print ''LBML3rd'' small_fbpads) fbpads_inv"
  by (rule libfbpads_print_displays [OF small_fbpads(1)], rule plain_safe)
    (use small_fbpads(2) in \<open>simp_all add: vt_idle_def plain_char_def\<close>)

theorem libfbpads_puts_displays_witness:
  "runs (libfbpads_puts ''boot'' small_fbpads) (\<lambda>s'. fbpads_inv s' \<and> vt_idle (vtc_instance s'))"
  by (rule libfbpads_puts_displays [OF small_fbpads]) (simp add: plain_char_def)

theorem libfbpads_init_displays_witness:
  "runs (libfbpads_init 7 (replicate 12 blank_cell) 3 4) (\<lambda>s. fbpads_inv s \<and> vt_idle (vtc_instance s))"
  by (rule libfbpads_init_displays) simp_all

lemma small_tty_console: "console_terminal 4 3 ((small_tty 0 0)\<lparr>t_fd := 0\<rparr>)"
proof -
  have "tty_inv ((small_tty 0 0)\<lparr>t_fd := 0\<rparr>)"
    using small_tty_inv [of 0 0] by (simp add: tty_inv_def tty_grid_def tty_pos_def)
  then show ?thesis by (simp add: console_terminal_def small_tty_def flag_def MODE_ORIGIN_def MODE_INSERT_def)
qed

theorem vtc_paint_colour_witness:
  "runs (vtc_paint \<lparr>cell_c = CHR ''x'', cell_attr = VTC_DEFAULT_ATTR\<rparr> 3 2 ((small_tty 0 0)\<lparr>t_fd := 0\<rparr>))
    (\<lambda>u. t_fgs u ! nat (2 * 4 + 3) \<noteq> clr16 ! nat (vtcolor_code (va_fg (cell_attr
        \<lparr>cell_c = CHR ''x'', cell_attr = VTC_DEFAULT_ATTR\<rparr>))))"
  by (rule vtc_paint_colour [OF small_tty_console])
    (simp_all add: small_tty_def flag_def ATTR_BOLD_def ATTR_ITALIC_def ATTR_REV_def VTC_DEFAULT_ATTR_def)

end
