(* ===== verification/Toml_Value.thy ===== *)
theory Toml_Value
  imports Prelude
begin

text \<open>
  The values of the configuration file (toml.c): the UTF-8 conversions, the unescaping of
  strings, and the conversions of a raw value into a string, a boolean, an integer or a
  timestamp. A raw value is the text that the parser cut out of the file; the null pointer is
  \<^term>\<open>None\<close>. The conversion of floating point numbers is not modelled.
\<close>

section \<open>Characters of a C string\<close>

text \<open>\<open>s[i]\<close>, read at or before the NUL that ends \<open>s\<close>.\<close>

definition chr_at :: "string \<Rightarrow> nat \<Rightarrow> char" where
  "chr_at s i = (case drop i s of [] \<Rightarrow> NUL | c # _ \<Rightarrow> c)"

text \<open>What C sees of a block of bytes with a NUL in it.\<close>

definition c_string :: "string \<Rightarrow> string" where
  "c_string s = takeWhile (\<lambda>c. c \<noteq> NUL) s"

definition control_char :: "char \<Rightarrow> bool" where
  "control_char c \<longleftrightarrow> code c \<le> 8 \<or> 10 \<le> code c \<and> code c \<le> 31 \<or> code c = 127"

section \<open>UTF-8\<close>

text \<open>
  The loops over the continuation bytes; the result is \<^term>\<open>Some None\<close> for -1. The bytes are
  those of the buffer.
\<close>

fun utf8_continue :: "nat \<Rightarrow> int \<Rightarrow> string \<Rightarrow> int option option" where
  "utf8_continue 0 v s = Some (Some v)"
| "utf8_continue (Suc n) v [] = None"
| "utf8_continue (Suc n) v (c # s) =
     (if drop_bit 6 (code c) \<noteq> 2 then Some None
      else utf8_continue n (or (push_bit 6 v) (and (code c) 0x3f)) s)"

definition utf8_tail :: "int \<Rightarrow> nat \<Rightarrow> int \<Rightarrow> string \<Rightarrow> (int \<times> int) option option" where
  "utf8_tail len n v s =
     (if len < int n + 1 then Some None
      else map_option (map_option (\<lambda>r. (r, int n + 1))) (utf8_continue n v s))"

text \<open>The code point and the number of bytes consumed.\<close>

definition toml_utf8_to_ucs :: "string \<Rightarrow> int \<Rightarrow> (int \<times> int) option option" where
  "toml_utf8_to_ucs orig len =
     (case orig of [] \<Rightarrow> None
      | c # s \<Rightarrow>
        (let i = code c in
         if drop_bit 7 i = 0 then (if len < 1 then Some None else Some (Some (i, 1)))
         else if drop_bit 5 i = 0x6 then utf8_tail len 1 (and i 0x1f) s
         else if drop_bit 4 i = 0xE then utf8_tail len 2 (and i 0x0F) s
         else if drop_bit 3 i = 0x1E then utf8_tail len 3 (and i 0x07) s
         else if drop_bit 2 i = 0x3E then utf8_tail len 4 (and i 0x03) s
         else if drop_bit 1 i = 0x7e then utf8_tail len 5 (and i 0x01) s
         else Some None))"

definition lead_byte :: "int \<Rightarrow> int \<Rightarrow> char" where
  "lead_byte mark x = char_of (or mark x)"

definition cont_byte :: "int \<Rightarrow> nat \<Rightarrow> char" where
  "cont_byte c n = char_of (or 0x80 (and (drop_bit n c) 0x3f))"

text \<open>The bytes written into the buffer, \<^term>\<open>None\<close> for -1.\<close>

definition toml_ucs_to_utf8 :: "int \<Rightarrow> string option" where
  "toml_ucs_to_utf8 c =
     (if 0xd800 \<le> c \<and> c \<le> 0xdfff then None
      else if 0xfffe \<le> c \<and> c \<le> 0xffff then None
      else if c < 0 then None
      else if c \<le> 0x7F then Some [char_of c]
      else if c \<le> 0x7FF then Some [lead_byte 0xc0 (drop_bit 6 c), cont_byte c 0]
      else if c \<le> 0xFFFF then Some [lead_byte 0xe0 (drop_bit 12 c), cont_byte c 6, cont_byte c 0]
      else if c \<le> 0x1FFFFF then
        Some [lead_byte 0xf0 (drop_bit 18 c), cont_byte c 12, cont_byte c 6, cont_byte c 0]
      else if c \<le> 0x3FFFFFF then
        Some [lead_byte 0xf8 (drop_bit 24 c), cont_byte c 18, cont_byte c 12, cont_byte c 6, cont_byte c 0]
      else if c \<le> 0x7FFFFFFF then
        Some [lead_byte 0xfc (drop_bit 30 c), cont_byte c 24, cont_byte c 18, cont_byte c 12, cont_byte c 6,
          cont_byte c 0]
      else None)"

section \<open>Unescaping\<close>

text \<open>
  The loops of \<open>norm_lit_str\<close> and \<open>norm_basic_str\<close>: \<open>mx\<close> is the size of the block \<open>dst\<close>,
  which grows before it is full; a byte written behind the block is undefined behaviour. The
  result is \<^term>\<open>Some None\<close> for an invalid string.
\<close>

definition grown :: "string \<Rightarrow> int \<Rightarrow> int" where
  "grown dst mx = (if int (length dst) \<ge> mx - 10 then mx + 50 else mx)"

fun norm_lit_loop :: "bool \<Rightarrow> string \<Rightarrow> string \<Rightarrow> int \<Rightarrow> string option option" where
  "norm_lit_loop multiline [] dst mx =
     (if int (length dst) < grown dst mx then Some (Some dst) else None)"
| "norm_lit_loop multiline (ch # sp) dst mx =
     (if control_char ch \<and> \<not> (multiline \<and> (ch = CR \<or> ch = LF)) then Some None
      else if int (length dst) < grown dst mx then norm_lit_loop multiline sp (dst @ [ch]) (grown dst mx)
      else None)"

definition norm_lit_str :: "string \<Rightarrow> bool \<Rightarrow> string option option" where
  "norm_lit_str src multiline = norm_lit_loop multiline src [] 0"

text \<open>The hexadecimal digits of an escape; small letters are not accepted.\<close>

definition hex_value :: "char \<Rightarrow> int option" where
  "hex_value c =
     (if is_digit c then Some (code c - 48)
      else if 65 \<le> code c \<and> code c \<le> 70 then Some (code c - 65 + 10) else None)"

fun hex_escape :: "nat \<Rightarrow> string \<Rightarrow> int \<Rightarrow> (int \<times> string) option" where
  "hex_escape 0 sp ucs = Some (ucs, sp)"
| "hex_escape (Suc n) [] ucs = None"
| "hex_escape (Suc n) (c # sp) ucs = do { v \<leftarrow> hex_value c; hex_escape n sp (ucs * 16 + v) }"

lemma hex_escape_shorter: "hex_escape n sp ucs = Some (u, sp') \<Longrightarrow> length sp' \<le> length sp"
  by (induction n sp ucs rule: hex_escape.induct) (auto split: Option.bind_splits)

definition escaped_char :: "char \<Rightarrow> char option" where
  "escaped_char c =
     (if c = CHR ''b'' then Some BS else if c = CHR ''t'' then Some TAB else if c = CHR ''n'' then Some LF
      else if c = CHR ''f'' then Some (CHR 0x0C) else if c = CHR ''r'' then Some CR
      else if c = DQUOTE then Some DQUOTE else if c = BACKSLASH then Some BACKSLASH else None)"

text \<open>
  \<open>sp\<close> is what is left of the source up to \<open>sq\<close>, and \<open>behind\<close> the text from \<open>sq\<close> on, which
  \<open>strspn\<close> may look at.
\<close>

definition blank_char :: "char \<Rightarrow> bool" where
  "blank_char c \<longleftrightarrow> c = CHR '' '' \<or> c = TAB \<or> c = CR"

definition line_end :: "string \<Rightarrow> bool" where
  "line_end s = (case dropWhile blank_char s of [] \<Rightarrow> False | c # _ \<Rightarrow> c = LF)"

definition skip_line_end :: "string \<Rightarrow> string \<Rightarrow> string" where
  "skip_line_end sp behind =
     (let r = dropWhile (\<lambda>c. blank_char c \<or> c = LF) (sp @ behind) in take (length r - length behind) r)"

lemma skip_line_end_shorter: "length (skip_line_end sp behind) \<le> length sp"
proof -
  let ?r = "dropWhile (\<lambda>c. blank_char c \<or> c = LF) (sp @ behind)"
  have "length ?r \<le> length (sp @ behind)" by (rule length_dropWhile_le)
  then have "length ?r - length behind \<le> length sp" by simp
  moreover have "length (take (length ?r - length behind) ?r) \<le> length ?r - length behind" by simp
  ultimately show ?thesis unfolding skip_line_end_def Let_def by linarith
qed

function norm_basic_loop :: "bool \<Rightarrow> string \<Rightarrow> string \<Rightarrow> string \<Rightarrow> int \<Rightarrow> string option option" where
  "norm_basic_loop multiline behind sp dst mx =
     (let mx' = grown dst mx; put = (\<lambda>cs. int (length dst) + int (length cs) \<le> mx') in
      case sp of
        [] \<Rightarrow> if put [NUL] then Some (Some dst) else None
      | ch # sp1 \<Rightarrow>
        if ch \<noteq> BACKSLASH then
          (if control_char ch \<and> \<not> (multiline \<and> (ch = CR \<or> ch = LF)) then Some None
           else if put [ch] then norm_basic_loop multiline behind sp1 (dst @ [ch]) mx' else None)
        else if sp1 = [] then Some None
        else if multiline \<and> line_end (sp1 @ behind) then
          norm_basic_loop multiline behind (skip_line_end sp1 behind) dst mx'
        else (case sp1 of [] \<Rightarrow> None
          | e # sp2 \<Rightarrow>
            if e = CHR ''u'' \<or> e = CHR ''U'' then
              (case hex_escape (if e = CHR ''u'' then 4 else 8) sp2 0 of
                 None \<Rightarrow> Some None
               | Some (ucs, sp3) \<Rightarrow>
                 (case toml_ucs_to_utf8 ucs of
                    None \<Rightarrow> Some None
                  | Some cs \<Rightarrow> if put cs then norm_basic_loop multiline behind sp3 (dst @ cs) mx' else None))
            else (case escaped_char e of
                None \<Rightarrow> Some None
              | Some d \<Rightarrow> if put [d] then norm_basic_loop multiline behind sp2 (dst @ [d]) mx' else None)))"
  by pat_completeness auto
termination
  by (relation "measure (\<lambda>(multiline, behind, sp, dst, mx). length sp)")
    (auto simp: less_Suc_eq_le intro: order_trans [OF skip_line_end_shorter] order_trans [OF hex_escape_shorter])

declare norm_basic_loop.simps [simp del]

definition norm_basic_str :: "string \<Rightarrow> string \<Rightarrow> bool \<Rightarrow> string option option" where
  "norm_basic_str src behind multiline = norm_basic_loop multiline behind src [] 0"

section \<open>Raw values\<close>

definition toml_rtos :: "string option \<Rightarrow> string option option" where
  "toml_rtos raw =
     (case raw of None \<Rightarrow> Some None
      | Some src \<Rightarrow>
        (let q = chr_at src 0; n = length src;
             norm = (\<lambda>sp multiline k.
               (let body = take (n - k - sp) (drop sp src); behind = drop (n - k) src in
                map_option (map_option c_string)
                  (if q = SQUOTE then norm_lit_str body multiline else norm_basic_str body behind multiline)))
         in if q \<noteq> SQUOTE \<and> q \<noteq> DQUOTE then Some None
            else if chr_at src 1 = q \<and> chr_at src 2 = q then
              (if n < 6 \<or> drop (n - 3) src \<noteq> [q, q, q] then Some None
               else norm (if chr_at src 3 = LF then 4
                          else if chr_at src 3 = CR \<and> chr_at src 4 = LF then 5 else 3) True 3)
            else (if n < 2 \<or> chr_at src (n - 1) \<noteq> q then Some None else norm 1 False 1)))"

definition toml_rtob :: "string option \<Rightarrow> bool option" where
  "toml_rtob raw =
     (if raw = Some ''true'' then Some True else if raw = Some ''false'' then Some False else None)"

text \<open>\<open>strtoll\<close>: the value, the rest of the string, and whether \<open>errno\<close> is set.\<close>

definition digit_val :: "char \<Rightarrow> int" where
  "digit_val c =
     (if is_digit c then code c - 48
      else if 65 \<le> code c \<and> code c \<le> 90 then code c - 55
      else if 97 \<le> code c \<and> code c \<le> 122 then code c - 87 else 255)"

definition c_isspace :: "char \<Rightarrow> bool" where
  "c_isspace c \<longleftrightarrow> c = CHR '' '' \<or> 9 \<le> code c \<and> code c \<le> 13"

definition horner :: "int \<Rightarrow> string \<Rightarrow> int" where
  "horner base ds = foldl (\<lambda>y c. y * base + digit_val c) 0 ds"

definition strtoll :: "string \<Rightarrow> int \<Rightarrow> int \<times> string \<times> bool" where
  "strtoll s base =
     (let s0 = dropWhile c_isspace s;
          neg = (chr_at s0 0 = CHR ''-'');
          s1 = (if neg \<or> chr_at s0 0 = CHR ''+'' then drop 1 s0 else s0);
          number = (\<lambda>b t.
            (let ok = (\<lambda>c. digit_val c < b); y = horner b (takeWhile ok t); r = dropWhile ok t in
             if y \<ge> 2 ^ 63 \<and> \<not> neg then (2 ^ 63 - 1, r, True)
             else if y > 2 ^ 63 then (- (2 ^ 63), r, True)
             else (if neg then - y else y, r, False)))
      in if (base = 0 \<or> base = 16) \<and> chr_at s1 0 = CHR ''0'' then
           (if chr_at s1 1 = CHR ''x'' \<or> chr_at s1 1 = CHR ''X'' then
              (if digit_val (chr_at s1 2) \<ge> 16 then (0, drop 1 s1, False) else number 16 (drop 2 s1))
            else number (if base = 0 then 8 else base) (drop 1 s1))
         else (let b = (if base = 0 then 10 else base) in
           if digit_val (chr_at s1 0) \<ge> b then (0, s, True) else number b s1))"

text \<open>The copy without underscores into the buffer of 100 bytes; \<^term>\<open>None\<close> for -1.\<close>

fun rtoi_copy :: "string \<Rightarrow> string \<Rightarrow> string option" where
  "rtoi_copy buf [] = (if length buf = 100 then None else Some buf)"
| "rtoi_copy buf (c # s) =
     (if length buf \<ge> 100 then None
      else if c = CHR ''_'' then
        (if chr_at s 0 = CHR ''_'' \<or> chr_at s 0 = NUL then None else rtoi_copy buf s)
      else rtoi_copy (buf @ [c]) s)"

definition toml_rtoi :: "string option \<Rightarrow> int option" where
  "toml_rtoi raw =
     (case raw of None \<Rightarrow> None
      | Some src \<Rightarrow>
        (let signed = (chr_at src 0 = CHR ''+'' \<or> chr_at src 0 = CHR ''-'');
             buf = (if signed then [chr_at src 0] else []);
             s = (if signed then drop 1 src else src);
             convert = (\<lambda>t base. do {
               b \<leftarrow> rtoi_copy buf t;
               (case strtoll b base of (v, r, err) \<Rightarrow> if err \<or> r \<noteq> [] then None else Some v) })
         in if chr_at s 0 = CHR ''_'' then None
            else if chr_at s 0 = CHR ''0'' then
              (if chr_at s 1 = CHR ''x'' then convert (drop 2 s) 16
               else if chr_at s 1 = CHR ''o'' then convert (drop 2 s) 8
               else if chr_at s 1 = CHR ''b'' then convert (drop 2 s) 2
               else if chr_at s 1 = NUL then Some 0 else None)
            else convert s 0))"

section \<open>The unescaping stays in its block\<close>

lemma utf8_length: "toml_ucs_to_utf8 c = Some cs \<Longrightarrow> length cs \<le> 6"
  by (auto simp: toml_ucs_to_utf8_def split: if_splits)

lemma grown_room: "int (length dst) \<le> mx \<Longrightarrow> int (length dst) + 10 < grown dst mx"
  by (simp add: grown_def)

lemma norm_lit_eq:
  "int (length dst) \<le> mx \<Longrightarrow> norm_lit_loop m sp dst mx =
     Some (if \<exists>ch \<in> set sp. control_char ch \<and> \<not> (m \<and> (ch = CR \<or> ch = LF)) then None else Some (dst @ sp))"
proof (induction m sp dst mx rule: norm_lit_loop.induct)
  case (1 m dst mx)
  then show ?case using grown_room [of dst mx] by simp
next
  case (2 m ch sp dst mx)
  from grown_room [OF 2(2)] have g: "int (length dst) < grown dst mx" "int (length (dst @ [ch])) \<le> grown dst mx" by simp_all
  show ?case
  proof (cases "control_char ch \<and> \<not> (m \<and> (ch = CR \<or> ch = LF))")
    case True
    then show ?thesis by simp
  next
    case False
    from 2(1) [OF False g] False g(1) show ?thesis by auto
  qed
qed

lemma norm_basic_defined:
  "int (length dst) \<le> mx \<Longrightarrow> norm_basic_loop m behind sp dst mx \<noteq> None"
proof (induction m behind sp dst mx rule: norm_basic_loop.induct)
  case (1 m behind sp dst mx)
  note room = grown_room [OF 1(5)]
  have u: "int (length dst) + int (length cs) \<le> grown dst mx" if "toml_ucs_to_utf8 c = Some cs" for c cs
    using utf8_length [OF that] room by linarith
  show ?case
  proof (cases sp)
    case Nil
    then show ?thesis using room by (simp add: norm_basic_loop.simps)
  next
    case (Cons ch sp1)
    note IH = 1(1-4) [OF refl refl Cons]
    show ?thesis
    proof (cases "ch = BACKSLASH")
      case False
      then show ?thesis using Cons IH(1) room by (subst norm_basic_loop.simps) (auto simp: Let_def)
    next
      case True
      show ?thesis
      proof (cases sp1)
        case Nil
        then show ?thesis using Cons True by (simp add: norm_basic_loop.simps)
      next
        case (Cons e sp2)
        with True IH(2-4) room u \<open>sp = ch # sp1\<close> show ?thesis
          by (subst norm_basic_loop.simps) (auto simp: Let_def split: option.split prod.split)
      qed
    qed
  qed
qed

text \<open>
  Reading a string value never writes outside the block it unescapes into, whatever the raw
  text is: \<open>toml_rtos\<close> always ends with a string or an error.
\<close>

theorem toml_rtos_defined: "toml_rtos raw \<noteq> None"
proof -
  have d: "\<exists>z. norm_lit_str s m = Some z" "\<exists>z. norm_basic_str s b m = Some z" for s b m
    using norm_basic_defined [of "[]" 0 m b s] by (simp_all add: norm_lit_str_def norm_basic_str_def norm_lit_eq)
  show ?thesis by (simp add: toml_rtos_def Let_def d split: option.split)
qed

text \<open>\<open>strtod\<close> is a parameter: the number it reads, the rest of the text, and whether \<open>errno\<close> is set.\<close>

fun rtod_copy :: "nat \<Rightarrow> string \<Rightarrow> string \<Rightarrow> string option" where
  "rtod_copy buflen buf [] = (if length buf = buflen then None else Some buf)"
| "rtod_copy buflen buf (c # s) =
     (if length buf \<ge> buflen then None
      else if c = CHR ''_'' then
        (if chr_at s 0 = CHR ''_'' \<or> chr_at s 0 = NUL then None else rtod_copy buflen buf s)
      else rtod_copy buflen (buf @ [c]) s)"

definition toml_rtod_ex :: "(string \<Rightarrow> 'd \<times> string \<times> bool) \<Rightarrow> nat \<Rightarrow> string option \<Rightarrow> 'd option" where
  "toml_rtod_ex strtod buflen raw =
     (case raw of None \<Rightarrow> None
      | Some src \<Rightarrow>
        (let signed = (chr_at src 0 = CHR ''+'' \<or> chr_at src 0 = CHR ''-'');
             buf = (if signed then [chr_at src 0] else []);
             s = (if signed then drop 1 src else src);
             k = length (takeWhile (\<lambda>c. c \<noteq> CHR ''.'') s)
         in if chr_at s 0 = CHR ''_'' then None
            else if k < length s \<and> (k = 0 \<or> \<not> is_digit (chr_at s (k - 1)) \<or> \<not> is_digit (chr_at s (k + 1))) then None
            else if chr_at s 0 = CHR ''0'' \<and> chr_at s 1 \<notin> {NUL, CHR ''e'', CHR ''E'', CHR ''.''} then None
            else do {
              b \<leftarrow> rtod_copy buflen buf s;
              (case strtod b of (v, r, err) \<Rightarrow> if err \<or> r \<noteq> [] then None else Some v) }))"

definition toml_rtod :: "(string \<Rightarrow> 'd \<times> string \<times> bool) \<Rightarrow> string option \<Rightarrow> 'd option" where
  "toml_rtod strtod raw = toml_rtod_ex strtod 100 raw"

section \<open>Quoting and reading back\<close>

text \<open>A string as a basic string of the configuration file writes it.\<close>

definition hex_digit :: "int \<Rightarrow> char" where
  "hex_digit d = char_of (if d < 10 then 48 + d else 55 + d)"

definition toml_escape :: "char \<Rightarrow> string" where
  "toml_escape c =
     (if c = DQUOTE \<or> c = BACKSLASH then [BACKSLASH, c]
      else if c = LF then [BACKSLASH, CHR ''n'']
      else if control_char c then
        BACKSLASH # ''u00'' @ [hex_digit (code c div 16), hex_digit (code c mod 16)]
      else [c])"

definition toml_quote :: "string \<Rightarrow> string" where
  "toml_quote s = DQUOTE # concat (map toml_escape s) @ [DQUOTE]"

lemma code_of_char [simp]: "char_of (code c) = c"
  by (simp add: code_def)

lemma code_char_of: "0 \<le> x \<Longrightarrow> x < 256 \<Longrightarrow> code (char_of x) = x"
  unfolding code_def of_nat_of_char of_char_of by simp

lemma hex_value_digit:
  assumes "0 \<le> d" "d < 16"
  shows "hex_value (hex_digit d) = Some d"
proof -
  have "code (hex_digit d) = (if d < 10 then 48 + d else 55 + d)"
    unfolding hex_digit_def by (rule code_char_of) (use assms in auto)
  with assms show ?thesis by (auto simp: hex_value_def is_digit_def)
qed

lemma control_small: "control_char c \<Longrightarrow> code c < 128"
  by (auto simp: control_char_def)

lemma hex_escape_code:
  assumes "code c < 128"
  shows "hex_escape 4 (CHR ''0'' # CHR ''0'' # hex_digit (code c div 16) # hex_digit (code c mod 16) # sp) 0 = Some (code c, sp)"
proof -
  have b: "0 \<le> code c div 16" "code c div 16 < 16" "0 \<le> code c mod 16" "code c mod 16 < 16"
    using assms code_bounds [of c] by (simp_all add: pos_imp_zdiv_nonneg_iff)
  have "hex_value (CHR ''0'') = Some 0" by (simp add: hex_value_def is_digit_def code_def)
  then show ?thesis using hex_value_digit [OF b(1,2)] hex_value_digit [OF b(3,4)]
    by (simp add: numeral_eq_Suc)
qed

lemma basic_step:
  assumes "int (length dst) \<le> mx"
  shows "norm_basic_loop False behind (toml_escape c @ sp) dst mx = norm_basic_loop False behind sp (dst @ [c]) (grown dst mx)"
proof -
  note g = grown_room [OF assms]
  consider "c = DQUOTE" | "c = BACKSLASH" | "c = LF" | "c \<noteq> DQUOTE" "c \<noteq> BACKSLASH" "c \<noteq> LF" "control_char c"
    | "c \<noteq> DQUOTE" "c \<noteq> BACKSLASH" "c \<noteq> LF" "\<not> control_char c" by blast
  then show ?thesis
  proof cases
    case 4
    have "toml_ucs_to_utf8 (code c) = Some [c]"
      using control_small [OF 4(4)] code_bounds(1) [of c] by (simp add: toml_ucs_to_utf8_def)
    with 4 g hex_escape_code [OF control_small [OF 4(4)]] show ?thesis
      by (subst norm_basic_loop.simps) (simp add: toml_escape_def Let_def)
  qed (use g in \<open>subst norm_basic_loop.simps; simp add: toml_escape_def escaped_char_def Let_def\<close>)+
qed

lemma basic_string:
  "int (length dst) \<le> mx \<Longrightarrow> norm_basic_loop False behind (concat (map toml_escape s)) dst mx = Some (Some (dst @ s))"
proof (induction s arbitrary: dst mx)
  case Nil
  then show ?case using grown_room [of dst mx] by (simp add: norm_basic_loop.simps)
next
  case (Cons c s)
  have "int (length (dst @ [c])) \<le> grown dst mx" using grown_room [OF Cons.prems] by simp
  from Cons.IH [OF this] basic_step [OF Cons.prems] show ?case by simp
qed

lemma c_string_id: "NUL \<notin> set s \<Longrightarrow> c_string s = s"
  by (auto simp: c_string_def takeWhile_eq_all_conv)

lemma escape_first: "s \<noteq> [] \<Longrightarrow> \<exists>c r. concat (map toml_escape s) = c # r \<and> c \<noteq> DQUOTE"
  by (cases s) (auto simp: toml_escape_def)

text \<open>
  C27. A string written as a basic string, with its quotes, backslashes and control characters
  escaped, is read back unchanged.
\<close>

theorem toml_quote_roundtrip:
  assumes "NUL \<notin> set s"
  shows "toml_rtos (Some (toml_quote s)) = Some (Some s)"
proof -
  let ?b = "concat (map toml_escape s)"
  let ?src = "toml_quote s"
  have q: "chr_at ?src 0 = DQUOTE" "length ?src = length ?b + 2" by (simp_all add: toml_quote_def chr_at_def)
  have three: "\<not> (chr_at ?src 1 = DQUOTE \<and> chr_at ?src 2 = DQUOTE)"
    using escape_first [of s] by (cases "s = []") (auto simp: toml_quote_def chr_at_def)
  have last: "chr_at ?src (length ?src - 1) = DQUOTE" by (simp add: toml_quote_def chr_at_def)
  have body: "take (length ?src - 1 - 1) (drop 1 ?src) = ?b" by (simp add: toml_quote_def)
  show ?thesis
    using q three last body basic_string [of "[]" 0 _ s] c_string_id [OF assms]
    by (cases "chr_at ?src (Suc 0) = DQUOTE") (simp_all add: toml_rtos_def norm_basic_str_def Let_def)
qed

theorem toml_quote_roundtrip_witness:
  "toml_rtos (Some (toml_quote [CHR ''a'', DQUOTE, LF, CHR 0x01])) = Some (Some [CHR ''a'', DQUOTE, LF, CHR 0x01])"
  by (rule toml_quote_roundtrip) simp

section \<open>UTF-8 reads back what it writes\<close>

lemma mask6: "and x 0x3f = x mod (64::int)"
proof -
  have "and x (mask 6) = take_bit 6 x" by (simp add: take_bit_eq_mask)
  then show ?thesis by (simp add: take_bit_eq_mod mask_eq_exp_minus_1)
qed

lemma or_add:
  assumes "0 \<le> y" "y < 2 ^ k"
  shows "or (push_bit k x) y = push_bit k x + (y::int)"
proof -
  have "take_bit k y = y" using assms by (simp add: take_bit_int_eq_self)
  then have "\<not> bit y n" if "k \<le> n" for n using that by (metis bit_take_bit_iff not_le)
  then show ?thesis by (intro disjunctive_add [symmetric]) (auto simp: bit_push_bit_iff not_le)
qed

lemma mod64: "0 \<le> x mod (64::int)" "x mod 64 < 64"
  by simp_all

lemma cont_byte_code: "code (cont_byte c n) = 128 + drop_bit n c mod 64"
proof -
  have "or 0x80 (and (drop_bit n c) 0x3f) = or (push_bit 6 2) (drop_bit n c mod 64)" by (simp add: mask6)
  also have "\<dots> = 128 + drop_bit n c mod 64" by (subst or_add) simp_all
  finally show ?thesis using mod64 [of "drop_bit n c"] by (simp add: cont_byte_def code_char_of)
qed

lemma cont_parts: "0 \<le> m \<Longrightarrow> m < 64 \<Longrightarrow> (128 + m) div 64 = (2::int) \<and> (128 + m) mod 64 = m"
  using div_is [of 2 64 "128 + m"] by simp

lemma continue_step:
  "utf8_continue (Suc n) v (cont_byte c k # s) = utf8_continue n (64 * v + drop_bit k c mod 64) s"
proof -
  let ?m = "drop_bit k c mod 64"
  note b = mod64 [of "drop_bit k c"]
  have "(128 + ?m) div 64 = 2" "and (128 + ?m) 0x3f = ?m" unfolding mask6 using cont_parts [OF b] by blast+
  moreover have "or (push_bit 6 v) ?m = 64 * v + ?m" using b by (subst or_add) (simp_all add: push_bit_eq_mult)
  ultimately show ?thesis by (simp add: cont_byte_code drop_bit_eq_div)
qed

lemma cont_join: "64 * drop_bit (k + 6) c + drop_bit k c mod 64 = drop_bit k (c::int)"
proof -
  have "drop_bit (k + 6) c = drop_bit k c div 64"
    by (simp add: drop_bit_eq_div power_add zdiv_zmult2_eq)
  then show ?thesis by simp
qed

lemma continue_byte:
  "utf8_continue (Suc n) (drop_bit (k + 6) c) (cont_byte c k # s) = utf8_continue n (drop_bit k c) s"
  unfolding continue_step cont_join ..

lemma lead_code: "0 \<le> x \<Longrightarrow> x < 2 ^ k \<Longrightarrow> m * 2 ^ k + x < 256 \<Longrightarrow> 0 \<le> m \<Longrightarrow> code (lead_byte (push_bit k m) x) = m * 2 ^ k + x"
  unfolding lead_byte_def by (subst or_add) (simp_all add: push_bit_eq_mult code_char_of)

lemma and_masks: "and x 0x1f = x mod (32::int)" "and x 0x0F = x mod (16::int)" "and x 0x07 = x mod (8::int)"
  "and x 0x03 = x mod (4::int)" "and x 0x01 = x mod (2::int)"
proof -
  have "and x (mask k) = x mod 2 ^ k" for k by (simp flip: take_bit_eq_mod add: take_bit_eq_mask)
  from this [of 5] this [of 4] this [of 3] this [of 2] this [of 1]
  show "and x 0x1f = x mod (32::int)" "and x 0x0F = x mod (16::int)" "and x 0x07 = x mod (8::int)"
    "and x 0x03 = x mod (4::int)" "and x 0x01 = x mod (2::int)" by (simp_all add: mask_eq_exp_minus_1)
qed

lemma lead2: "0 \<le> x \<Longrightarrow> x < 32 \<Longrightarrow> (192 + x) div 128 = (1::int) \<and> (192 + x) div 32 = (6::int) \<and> (192 + x) mod 32 = x"
  by (intro conjI div_is(1)) (simp_all add: div_is(2) [of 6 32])
lemma lead3: "0 \<le> x \<Longrightarrow> x < 16 \<Longrightarrow> (224 + x) div 128 = (1::int) \<and> (224 + x) div 32 = (7::int) \<and> (224 + x) div 16 = (14::int) \<and> (224 + x) mod 16 = x"
  by (intro conjI div_is(1)) (simp_all add: div_is(2) [of 14 16])
lemma lead4: "0 \<le> x \<Longrightarrow> x < 8 \<Longrightarrow> (240 + x) div 128 = (1::int) \<and> (240 + x) div 32 = (7::int) \<and> (240 + x) div 16 = (15::int) \<and> (240 + x) div 8 = (30::int) \<and> (240 + x) mod 8 = x"
  by (intro conjI div_is(1)) (simp_all add: div_is(2) [of 30 8])
lemma lead5: "0 \<le> x \<Longrightarrow> x < 4 \<Longrightarrow> (248 + x) div 128 = (1::int) \<and> (248 + x) div 32 = (7::int) \<and> (248 + x) div 16 = (15::int) \<and> (248 + x) div 8 = (31::int) \<and> (248 + x) div 4 = (62::int) \<and> (248 + x) mod 4 = x"
  by (intro conjI div_is(1)) (simp_all add: div_is(2) [of 62 4])
lemma lead6: "0 \<le> x \<Longrightarrow> x < 2 \<Longrightarrow> (252 + x) div 128 = (1::int) \<and> (252 + x) div 32 = (7::int) \<and> (252 + x) div 16 = (15::int) \<and> (252 + x) div 8 = (31::int) \<and> (252 + x) div 4 = (63::int) \<and> (252 + x) div 2 = (126::int) \<and> (252 + x) mod 2 = x"
  by (intro conjI div_is(1)) (simp_all add: div_is(2) [of 126 2])

lemma drop_bit_range: 
  assumes "0 \<le> c" "c < 2 ^ (k + n)"
  shows "0 \<le> drop_bit n c \<and> drop_bit n c < (2::int) ^ k"
proof -
  have "c < 2 ^ k * 2 ^ n" using assms(2) by (simp add: power_add)
  then have "c div 2 ^ n < 2 ^ k" by (rule div_below) simp
  with assms(1) show ?thesis by (simp add: drop_bit_eq_div pos_imp_zdiv_nonneg_iff)
qed

text \<open>
  C29. Decoding the UTF-8 encoding of a code point gives the code point and the number of its
  bytes, for the encodings of every length, whatever follows in the buffer.
\<close>

theorem utf8_roundtrip:
  assumes enc: "toml_ucs_to_utf8 c = Some bs" and len: "int (length bs) \<le> len"
  shows "toml_utf8_to_ucs (bs @ rest) len = Some (Some (c, int (length bs)))"
proof -
  have c: "0 \<le> c" "c \<le> 0x7FFFFFFF" using enc by (auto simp: toml_ucs_to_utf8_def split: if_splits)
  have cont: "utf8_continue (Suc n) (drop_bit k c) (cont_byte c j # s) = utf8_continue n (drop_bit j c) s"
    if "k = j + 6" for n k j s unfolding that by (rule continue_byte)
  have div: "drop_bit 7 x = x div 128" "drop_bit 5 x = x div 32" "drop_bit 4 x = x div 16" "drop_bit 3 x = x div 8"
    "drop_bit 2 x = x div 4" "drop_bit (Suc 0) x = x div 2" for x :: int by (simp_all add: drop_bit_eq_div)
  have suc: "utf8_continue 1 = utf8_continue (Suc 0)" "utf8_continue 2 = utf8_continue (Suc (Suc 0))"
    "utf8_continue 3 = utf8_continue (Suc (Suc (Suc 0)))" "utf8_continue 4 = utf8_continue (Suc (Suc (Suc (Suc 0))))"
    "utf8_continue 5 = utf8_continue (Suc (Suc (Suc (Suc (Suc 0)))))" by (simp_all add: eval_nat_numeral)
  note decode = toml_utf8_to_ucs_def Let_def and_one_eq utf8_tail_def suc cont
  consider "c \<le> 0x7F" | "0x7F < c" "c \<le> 0x7FF" | "0x7FF < c" "c \<le> 0xFFFF" | "0xFFFF < c" "c \<le> 0x1FFFFF"
    | "0x1FFFFF < c" "c \<le> 0x3FFFFFF" | "0x3FFFFFF < c" by linarith
  then show ?thesis
  proof cases
    case 1
    then have "bs = [char_of c]" using enc by (auto simp: toml_ucs_to_utf8_def split: if_splits)
    moreover have "c div 128 = 0" using 1 c by simp
    ultimately show ?thesis using 1 c len by (simp add: toml_utf8_to_ucs_def code_char_of div)
  next
    case 2
    let ?x = "drop_bit 6 c"
    have bs: "bs = [lead_byte 0xc0 ?x, cont_byte c 0]"
      using 2 c enc by (auto simp: toml_ucs_to_utf8_def split: if_splits)
    have r: "0 \<le> ?x" "?x < 32" using drop_bit_range [of c 5 6] 2 c by simp_all
    have "code (lead_byte 0xc0 ?x) = 192 + ?x" using lead_code [of ?x 5 6] r by simp
    with lead2 [OF r] len show ?thesis unfolding bs by (simp add: decode div and_masks del: utf8_continue.simps(3))
  next
    case 3
    let ?x = "drop_bit 12 c"
    have bs: "bs = [lead_byte 0xe0 ?x, cont_byte c 6, cont_byte c 0]"
      using 3 c enc by (auto simp: toml_ucs_to_utf8_def split: if_splits)
    have r: "0 \<le> ?x" "?x < 16" using drop_bit_range [of c 4 12] 3 c by simp_all
    have "code (lead_byte 0xe0 ?x) = 224 + ?x" using lead_code [of ?x 4 14] r by simp
    with lead3 [OF r] len show ?thesis unfolding bs by (simp add: decode div and_masks del: utf8_continue.simps(3))
  next
    case 4
    let ?x = "drop_bit 18 c"
    have bs: "bs = [lead_byte 0xf0 ?x, cont_byte c 12, cont_byte c 6, cont_byte c 0]"
      using 4 c enc by (auto simp: toml_ucs_to_utf8_def split: if_splits)
    have r: "0 \<le> ?x" "?x < 8" using drop_bit_range [of c 3 18] 4 c by simp_all
    have "code (lead_byte 0xf0 ?x) = 240 + ?x" using lead_code [of ?x 3 30] r by simp
    with lead4 [OF r] len show ?thesis unfolding bs by (simp add: decode div and_masks del: utf8_continue.simps(3))
  next
    case 5
    let ?x = "drop_bit 24 c"
    have bs: "bs = [lead_byte 0xf8 ?x, cont_byte c 18, cont_byte c 12, cont_byte c 6, cont_byte c 0]"
      using 5 c enc by (auto simp: toml_ucs_to_utf8_def split: if_splits)
    have r: "0 \<le> ?x" "?x < 4" using drop_bit_range [of c 2 24] 5 c by simp_all
    have "code (lead_byte 0xf8 ?x) = 248 + ?x" using lead_code [of ?x 2 62] r by simp
    with lead5 [OF r] len show ?thesis unfolding bs by (simp add: decode div and_masks del: utf8_continue.simps(3))
  next
    case 6
    let ?x = "drop_bit 30 c"
    have bs: "bs = [lead_byte 0xfc ?x, cont_byte c 24, cont_byte c 18, cont_byte c 12, cont_byte c 6, cont_byte c 0]"
      using 6 c enc by (auto simp: toml_ucs_to_utf8_def split: if_splits)
    have r: "0 \<le> ?x" "?x < 2" using drop_bit_range [of c 1 30] 6 c by simp_all
    have "code (lead_byte 0xfc ?x) = 252 + ?x" using lead_code [of ?x 1 126] r by simp
    with lead6 [OF r] len show ?thesis unfolding bs by (simp add: decode div and_masks del: utf8_continue.simps(3))
  qed
qed

theorem utf8_roundtrip_witness:
  "toml_utf8_to_ucs (the (toml_ucs_to_utf8 0x20ac) @ ''x'') 4 = Some (Some (0x20ac, 3))"
proof -
  have e: "toml_ucs_to_utf8 0x20ac = Some [lead_byte 0xe0 (drop_bit 12 0x20ac), cont_byte 0x20ac 6, cont_byte 0x20ac 0]"
    by (simp add: toml_ucs_to_utf8_def)
  from utf8_roundtrip [OF e, of 4 "''x''"] show ?thesis by (simp add: e)
qed

end
