(* ===== verification/Toml_Data.thy ===== *)
theory Toml_Data
  imports Toml_Value
begin

text \<open>
  The tree that the parser of the configuration file builds (toml.c): tables, arrays and values,
  the look-ups that the boot manager uses, and the functions that add an entry. Tables and
  arrays live in a store, a pointer is an index into it. Allocation does not fail.
\<close>

section \<open>Data\<close>

text \<open>A value without its text is one whose \<open>val\<close> is still the null pointer.\<close>

record toml_table =
  tt_key :: "string option"
  tt_implicit :: bool
  tt_readonly :: bool
  tt_kval :: "(string \<times> string option) list"
  tt_arr :: "nat list"
  tt_tab :: "nat list"

record toml_arritem =
  ai_valtype :: char
  ai_val :: "string option"
  ai_arr :: "nat option"
  ai_tab :: "nat option"

record toml_array =
  ta_key :: "string option"
  ta_kind :: char
  ta_type :: char
  ta_item :: "toml_arritem list"

record toml_store =
  ts_tabs :: "toml_table list"
  ts_arrs :: "toml_array list"

definition empty_table :: toml_table where
  "empty_table = \<lparr>tt_key = None, tt_implicit = False, tt_readonly = False, tt_kval = [], tt_arr = [], tt_tab = []\<rparr>"

definition empty_array :: toml_array where
  "empty_array = \<lparr>ta_key = None, ta_kind = NUL, ta_type = NUL, ta_item = []\<rparr>"

definition empty_item :: toml_arritem where
  "empty_item = \<lparr>ai_valtype = NUL, ai_val = None, ai_arr = None, ai_tab = None\<rparr>"

definition deref :: "'a list \<Rightarrow> nat \<Rightarrow> 'a option" where
  "deref xs i = (if i < length xs then Some (xs ! i) else None)"

definition get_tab :: "toml_store \<Rightarrow> nat \<Rightarrow> toml_table option" where
  "get_tab st i = deref (ts_tabs st) i"

definition get_arr :: "toml_store \<Rightarrow> nat \<Rightarrow> toml_array option" where
  "get_arr st i = deref (ts_arrs st) i"

definition put_tab :: "nat \<Rightarrow> toml_table \<Rightarrow> toml_store \<Rightarrow> toml_store" where
  "put_tab i t st = st\<lparr>ts_tabs := (ts_tabs st)[i := t]\<rparr>"

definition put_arr :: "nat \<Rightarrow> toml_array \<Rightarrow> toml_store \<Rightarrow> toml_store" where
  "put_arr i a st = st\<lparr>ts_arrs := (ts_arrs st)[i := a]\<rparr>"

section \<open>Look-ups\<close>

text \<open>The loops over the children; a child without a key is an access through the null pointer.\<close>

fun find_ptr :: "(nat \<Rightarrow> string option) \<Rightarrow> string \<Rightarrow> nat list \<Rightarrow> nat option option" where
  "find_ptr key k [] = Some None"
| "find_ptr key k (p # ps) = do { s \<leftarrow> key p; (if k = s then Some (Some p) else find_ptr key k ps) }"

definition arr_name :: "toml_store \<Rightarrow> nat \<Rightarrow> string option" where
  "arr_name st p = do { a \<leftarrow> get_arr st p; ta_key a }"

definition tab_name :: "toml_store \<Rightarrow> nat \<Rightarrow> string option" where
  "tab_name st p = do { t \<leftarrow> get_tab st p; tt_key t }"

definition toml_raw_in :: "toml_store \<Rightarrow> nat \<Rightarrow> string \<Rightarrow> string option option" where
  "toml_raw_in st tab k = do {
     t \<leftarrow> get_tab st tab;
     Some (case map_of (tt_kval t) k of None \<Rightarrow> None | Some v \<Rightarrow> v) }"

definition toml_array_in :: "toml_store \<Rightarrow> nat \<Rightarrow> string \<Rightarrow> nat option option" where
  "toml_array_in st tab k = do { t \<leftarrow> get_tab st tab; find_ptr (arr_name st) k (tt_arr t) }"

definition toml_table_in :: "toml_store \<Rightarrow> nat \<Rightarrow> string \<Rightarrow> nat option option" where
  "toml_table_in st tab k = do { t \<leftarrow> get_tab st tab; find_ptr (tab_name st) k (tt_tab t) }"

datatype key_entry = KeyVal | KeyArr nat | KeyTab nat

definition check_key :: "toml_store \<Rightarrow> nat \<Rightarrow> string \<Rightarrow> key_entry option option" where
  "check_key st tab k = do {
     t \<leftarrow> get_tab st tab;
     (if k \<in> fst ` set (tt_kval t) then Some (Some KeyVal)
      else do {
        a \<leftarrow> find_ptr (arr_name st) k (tt_arr t);
        (case a of Some p \<Rightarrow> Some (Some (KeyArr p))
         | None \<Rightarrow> do {
            u \<leftarrow> find_ptr (tab_name st) k (tt_tab t);
            Some (map_option KeyTab u) }) }) }"

definition key_kind :: "toml_store \<Rightarrow> nat \<Rightarrow> string \<Rightarrow> bool option" where
  "key_kind st tab k = map_option (\<lambda>e. e \<noteq> None) (check_key st tab k)"

definition toml_key_exists :: "toml_store \<Rightarrow> nat \<Rightarrow> string \<Rightarrow> bool option" where
  "toml_key_exists st tab k = do {
     t \<leftarrow> get_tab st tab;
     (if k \<in> fst ` set (tt_kval t) then Some True
      else do {
        a \<leftarrow> find_ptr (arr_name st) k (tt_arr t);
        (if a \<noteq> None then Some True
         else do { u \<leftarrow> find_ptr (tab_name st) k (tt_tab t); Some (u \<noteq> None) }) }) }"

definition toml_key_in :: "toml_store \<Rightarrow> nat \<Rightarrow> int \<Rightarrow> string option option" where
  "toml_key_in st tab keyidx = do {
     t \<leftarrow> get_tab st tab;
     let i1 = keyidx - int (length (tt_kval t));
     let i2 = i1 - int (length (tt_arr t));
     (if keyidx < int (length (tt_kval t)) then do { e \<leftarrow> rd (tt_kval t) keyidx; Some (Some (fst e)) }
      else if i1 < int (length (tt_arr t)) then do { p \<leftarrow> rd (tt_arr t) i1; a \<leftarrow> get_arr st p; Some (ta_key a) }
      else if i2 < int (length (tt_tab t)) then do { p \<leftarrow> rd (tt_tab t) i2; u \<leftarrow> get_tab st p; Some (tt_key u) }
      else Some None) }"

definition toml_array_kind :: "toml_array \<Rightarrow> char" where "toml_array_kind a = ta_kind a"

definition toml_array_type :: "toml_array \<Rightarrow> char" where
  "toml_array_type a = (if ta_kind a \<noteq> CHR ''v'' then NUL else if ta_item a = [] then NUL else ta_type a)"

definition toml_array_nelem :: "toml_array \<Rightarrow> int" where "toml_array_nelem a = int (length (ta_item a))"
definition toml_table_nkval :: "toml_table \<Rightarrow> int" where "toml_table_nkval t = int (length (tt_kval t))"
definition toml_table_narr :: "toml_table \<Rightarrow> int" where "toml_table_narr t = int (length (tt_arr t))"
definition toml_table_ntab :: "toml_table \<Rightarrow> int" where "toml_table_ntab t = int (length (tt_tab t))"

definition item_at_idx :: "toml_array \<Rightarrow> int \<Rightarrow> toml_arritem option" where
  "item_at_idx a idx = (if 0 \<le> idx \<and> idx < int (length (ta_item a)) then Some (ta_item a ! nat idx) else None)"

definition toml_raw_at :: "toml_array \<Rightarrow> int \<Rightarrow> string option" where
  "toml_raw_at a idx = Option.bind (item_at_idx a idx) ai_val"

definition toml_array_at :: "toml_array \<Rightarrow> int \<Rightarrow> nat option" where
  "toml_array_at a idx = Option.bind (item_at_idx a idx) ai_arr"

definition toml_table_at :: "toml_array \<Rightarrow> int \<Rightarrow> nat option" where
  "toml_table_at a idx = Option.bind (item_at_idx a idx) ai_tab"

text \<open>The typed look-ups: a datum that is not \<open>ok\<close> is \<^term>\<open>None\<close> inside the \<open>Some\<close>.\<close>

definition toml_string_at :: "toml_array \<Rightarrow> int \<Rightarrow> string option option" where
  "toml_string_at a idx = toml_rtos (toml_raw_at a idx)"

definition toml_bool_at :: "toml_array \<Rightarrow> int \<Rightarrow> bool option" where
  "toml_bool_at a idx = toml_rtob (toml_raw_at a idx)"

definition toml_int_at :: "toml_array \<Rightarrow> int \<Rightarrow> int option" where
  "toml_int_at a idx = toml_rtoi (toml_raw_at a idx)"

definition toml_string_in :: "toml_store \<Rightarrow> nat \<Rightarrow> string \<Rightarrow> string option option" where
  "toml_string_in st tab k = do { r \<leftarrow> toml_raw_in st tab k; toml_rtos r }"

definition toml_bool_in :: "toml_store \<Rightarrow> nat \<Rightarrow> string \<Rightarrow> bool option option" where
  "toml_bool_in st tab k = do { r \<leftarrow> toml_raw_in st tab k; Some (toml_rtob r) }"

definition toml_int_in :: "toml_store \<Rightarrow> nat \<Rightarrow> string \<Rightarrow> int option option" where
  "toml_int_in st tab k = do { r \<leftarrow> toml_raw_in st tab k; Some (toml_rtoi r) }"

definition toml_double_at :: "(string \<Rightarrow> 'd \<times> string \<times> bool) \<Rightarrow> toml_array \<Rightarrow> int \<Rightarrow> 'd option" where
  "toml_double_at strtod a idx = toml_rtod strtod (toml_raw_at a idx)"

definition toml_double_in ::
  "(string \<Rightarrow> 'd \<times> string \<times> bool) \<Rightarrow> toml_store \<Rightarrow> nat \<Rightarrow> string \<Rightarrow> 'd option option" where
  "toml_double_in strtod st tab k = do { r \<leftarrow> toml_raw_in st tab k; Some (toml_rtod strtod r) }"

definition toml_array_key :: "toml_array option \<Rightarrow> string option" where
  "toml_array_key a = Option.bind a ta_key"

definition toml_table_key :: "toml_table option \<Rightarrow> string option" where
  "toml_table_key t = Option.bind t tt_key"

section \<open>Tokens, errors and the parser's state\<close>

datatype tokentype = INVALID | DOT | COMMA | EQUAL | LBRACE | RBRACE | NEWLINE | LBRACKET | RBRACKET | STRING

text \<open>A token is a piece of the source: its place and length.\<close>

record token =
  tk_tok :: tokentype
  tk_line :: int
  tk_ptr :: nat
  tk_len :: nat
  tk_eof :: bool

datatype toml_error = E_read | E_internal | E_syntax int | E_badkey int | E_keyexists int | E_forbid int

record toml_ctx =
  cx_src :: string
  cx_tok :: token
  cx_store :: toml_store
  cx_curtab :: nat
  cx_tpath :: "(string \<times> token) list"

text \<open>A step of the parser: undefined, an error that is reported, or a result.\<close>

type_synonym 'a parse = "(toml_error + 'a) option"

definition ok :: "'a \<Rightarrow> 'a parse" where "ok x = Some (Inr x)"
definition fail :: "toml_error \<Rightarrow> 'a parse" where "fail e = Some (Inl e)"

definition seq :: "'a parse \<Rightarrow> ('a \<Rightarrow> 'b parse) \<Rightarrow> 'b parse" where
  "seq m f = (case m of None \<Rightarrow> None | Some (Inl e) \<Rightarrow> Some (Inl e) | Some (Inr x) \<Rightarrow> f x)"

text \<open>A computation that cannot fail, as a step.\<close>

definition lift :: "'a option \<Rightarrow> 'a parse" where "lift m = map_option Inr m"

section \<open>Keys\<close>

definition bare_char :: "char \<Rightarrow> bool" where
  "bare_char c \<longleftrightarrow> is_digit c \<or> 65 \<le> code c \<and> code c \<le> 90 \<or> 97 \<le> code c \<and> code c \<le> 122 \<or>
     c = CHR ''_'' \<or> c = CHR ''-''"

definition normalize_key :: "string \<Rightarrow> token \<Rightarrow> string parse" where
  "normalize_key src t =
     (let sp = drop (tk_ptr t) src; ch = chr_at sp 0;
          checked = (\<lambda>s. if LF \<in> set s then fail (E_badkey (tk_line t)) else ok s)
      in if ch = SQUOTE \<or> ch = DQUOTE then
           (let multiline = (chr_at sp 1 = ch \<and> chr_at sp 2 = ch); k = (if multiline then 3 else 1);
                n = tk_len t - 2 * k; body = take n (drop k sp); behind = drop n (drop k sp)
            in if ch = SQUOTE then checked body
               else (case norm_basic_str body behind multiline of
                   None \<Rightarrow> None
                 | Some None \<Rightarrow> fail (E_syntax (tk_line t))
                 | Some (Some s) \<Rightarrow> checked (c_string s)))
         else if list_all bare_char (take (tk_len t) sp) then ok (take (tk_len t) sp)
         else fail (E_badkey (tk_line t)))"

section \<open>Adding entries\<close>

text \<open>The new value is the last one of the table.\<close>

definition create_keyval_in_table :: "string \<Rightarrow> toml_store \<Rightarrow> nat \<Rightarrow> token \<Rightarrow> toml_store parse" where
  "create_keyval_in_table src st tab keytok =
     seq (normalize_key src keytok) (\<lambda>newkey.
     seq (lift (key_kind st tab newkey)) (\<lambda>there.
     if there then fail (E_keyexists (tk_line keytok))
     else lift (do {
       t \<leftarrow> get_tab st tab;
       Some (put_tab tab (t\<lparr>tt_kval := tt_kval t @ [(newkey, None)]\<rparr>) st) })))"

definition add_table :: "toml_store \<Rightarrow> nat \<Rightarrow> toml_table \<Rightarrow> (toml_store \<times> nat) option" where
  "add_table st tab child = do {
     t \<leftarrow> get_tab st tab;
     let p = length (ts_tabs st);
     Some (st\<lparr>ts_tabs := (ts_tabs st)[tab := t\<lparr>tt_tab := tt_tab t @ [p]\<rparr>] @ [child]\<rparr>, p) }"

definition create_keytable_in_table :: "string \<Rightarrow> toml_store \<Rightarrow> nat \<Rightarrow> token \<Rightarrow> (toml_store \<times> nat) parse" where
  "create_keytable_in_table src st tab keytok =
     seq (normalize_key src keytok) (\<lambda>newkey.
     seq (lift (check_key st tab newkey)) (\<lambda>e.
     case e of
       Some (KeyTab p) \<Rightarrow>
         seq (lift (get_tab st p)) (\<lambda>d.
         if tt_implicit d then ok (put_tab p (d\<lparr>tt_implicit := False\<rparr>) st, p)
         else fail (E_keyexists (tk_line keytok)))
     | Some _ \<Rightarrow> fail (E_keyexists (tk_line keytok))
     | None \<Rightarrow> lift (add_table st tab (empty_table\<lparr>tt_key := Some newkey\<rparr>))))"

definition create_keyarray_in_table :: "string \<Rightarrow> toml_store \<Rightarrow> nat \<Rightarrow> token \<Rightarrow> char \<Rightarrow> (toml_store \<times> nat) parse" where
  "create_keyarray_in_table src st tab keytok kind =
     seq (normalize_key src keytok) (\<lambda>newkey.
     seq (lift (key_kind st tab newkey)) (\<lambda>there.
     if there then fail (E_keyexists (tk_line keytok))
     else lift (do {
       t \<leftarrow> get_tab st tab;
       let p = length (ts_arrs st);
       Some ((put_tab tab (t\<lparr>tt_arr := tt_arr t @ [p]\<rparr>) st)
           \<lparr>ts_arrs := ts_arrs st @ [empty_array\<lparr>ta_key := Some newkey, ta_kind := kind\<rparr>]\<rparr>, p) })))"

definition add_item :: "toml_store \<Rightarrow> nat \<Rightarrow> toml_arritem \<Rightarrow> toml_store option" where
  "add_item st arr it = do {
     a \<leftarrow> get_arr st arr;
     Some (put_arr arr (a\<lparr>ta_item := ta_item a @ [it]\<rparr>) st) }"

definition create_value_in_array :: "toml_store \<Rightarrow> nat \<Rightarrow> toml_store option" where
  "create_value_in_array st parent = add_item st parent empty_item"

definition create_array_in_array :: "toml_store \<Rightarrow> nat \<Rightarrow> (toml_store \<times> nat) option" where
  "create_array_in_array st parent = do {
     let p = length (ts_arrs st);
     s \<leftarrow> add_item st parent (empty_item\<lparr>ai_arr := Some p\<rparr>);
     Some (s\<lparr>ts_arrs := ts_arrs s @ [empty_array]\<rparr>, p) }"

definition create_table_in_array :: "toml_store \<Rightarrow> nat \<Rightarrow> (toml_store \<times> nat) option" where
  "create_table_in_array st parent = do {
     let p = length (ts_tabs st);
     s \<leftarrow> add_item st parent (empty_item\<lparr>ai_tab := Some p\<rparr>);
     Some (s\<lparr>ts_tabs := ts_tabs s @ [empty_table]\<rparr>, p) }"

section \<open>Every key names one entry\<close>

definition refs_ok :: "toml_store \<Rightarrow> bool" where
  "refs_ok st \<longleftrightarrow> (\<forall>t \<in> set (ts_tabs st). (\<forall>p \<in> set (tt_arr t). arr_name st p \<noteq> None) \<and>
     (\<forall>p \<in> set (tt_tab t). tab_name st p \<noteq> None))"

definition key_list :: "toml_store \<Rightarrow> toml_table \<Rightarrow> string list" where
  "key_list st t = map fst (tt_kval t) @ map (\<lambda>p. the (arr_name st p)) (tt_arr t) @ map (\<lambda>p. the (tab_name st p)) (tt_tab t)"

definition toml_ok :: "toml_store \<Rightarrow> bool" where
  "toml_ok st \<longleftrightarrow> refs_ok st \<and> (\<forall>t \<in> set (ts_tabs st). distinct (key_list st t))"

lemma find_ptr_eq:
  "\<forall>p \<in> set ps. key p \<noteq> None \<Longrightarrow> find_ptr key k ps = Some (List.find (\<lambda>p. the (key p) = k) ps)"
  by (induction ps) auto

lemma get_tab_iff: "get_tab st i = Some t \<longleftrightarrow> i < length (ts_tabs st) \<and> t = ts_tabs st ! i"
  by (auto simp: get_tab_def deref_def)

lemma get_arr_iff: "get_arr st i = Some t \<longleftrightarrow> i < length (ts_arrs st) \<and> t = ts_arrs st ! i"
  by (auto simp: get_arr_def deref_def)

lemma refs_okD:
  assumes "refs_ok st" "get_tab st i = Some t"
  shows "\<forall>p \<in> set (tt_arr t). arr_name st p \<noteq> None" "\<forall>p \<in> set (tt_tab t). tab_name st p \<noteq> None"
  using assms nth_mem [of i "ts_tabs st"] by (auto simp: refs_ok_def get_tab_iff)

lemma check_key_eq:
  assumes "refs_ok st" "get_tab st i = Some t"
  shows "check_key st i k =
     Some (if k \<in> set (map fst (tt_kval t)) then Some KeyVal
       else case List.find (\<lambda>p. the (arr_name st p) = k) (tt_arr t) of Some p \<Rightarrow> Some (KeyArr p)
       | None \<Rightarrow> map_option KeyTab (List.find (\<lambda>p. the (tab_name st p) = k) (tt_tab t)))"
  using assms(2) find_ptr_eq [OF refs_okD(1) [OF assms], of k] find_ptr_eq [OF refs_okD(2) [OF assms], of k]
  by (auto simp: check_key_def split: option.split)

lemma check_key_none:
  assumes "refs_ok st" "get_tab st i = Some t"
  shows "check_key st i k = Some None \<longleftrightarrow> k \<notin> set (key_list st t)"
  unfolding check_key_eq [OF assms]
  by (auto simp: key_list_def find_None_iff find_Some_iff split: option.split)

lemma key_kind_eq:
  assumes "refs_ok st" "get_tab st i = Some t"
  shows "key_kind st i k = Some (k \<in> set (key_list st t))"
  using check_key_none [OF assms, of k] by (auto simp: key_kind_def check_key_eq [OF assms] split: if_splits)

text \<open>What a step may do to the names that are already there: nothing.\<close>

definition names_kept :: "toml_store \<Rightarrow> toml_store \<Rightarrow> bool" where
  "names_kept st st' \<longleftrightarrow> (\<forall>p s. arr_name st p = Some s \<longrightarrow> arr_name st' p = Some s) \<and>
     (\<forall>p s. tab_name st p = Some s \<longrightarrow> tab_name st' p = Some s)"

lemma names_kept_refl [simp]: "names_kept st st" by (simp add: names_kept_def)

lemma names_kept_trans: "names_kept a b \<Longrightarrow> names_kept b c \<Longrightarrow> names_kept a c"
  by (auto simp: names_kept_def)

lemma key_list_kept:
  assumes "names_kept st st'" "\<forall>p \<in> set (tt_arr t). arr_name st p \<noteq> None" "\<forall>p \<in> set (tt_tab t). tab_name st p \<noteq> None"
  shows "key_list st' t = key_list st t"
proof -
  have "arr_name st' p = arr_name st p" if "p \<in> set (tt_arr t)" for p using assms(1,2) that by (fastforce simp: names_kept_def)
  moreover have "tab_name st' p = tab_name st p" if "p \<in> set (tt_tab t)" for p using assms(1,3) that by (fastforce simp: names_kept_def)
  ultimately show ?thesis by (simp add: key_list_def)
qed

text \<open>A step that changes one table and adds fresh, empty ones.\<close>

lemma toml_ok_step:
  assumes ok: "toml_ok st" and kept: "names_kept st st'"
    and tabs: "\<And>u. u \<in> set (ts_tabs st') \<Longrightarrow> u \<in> set (ts_tabs st) \<or> u = t' \<or> tt_kval u = [] \<and> tt_arr u = [] \<and> tt_tab u = []"
    and refs: "\<forall>p \<in> set (tt_arr t'). arr_name st' p \<noteq> None" "\<forall>p \<in> set (tt_tab t'). tab_name st' p \<noteq> None"
    and dist: "distinct (key_list st' t')"
  shows "toml_ok st'"
proof -
  have old: "(\<forall>p \<in> set (tt_arr u). arr_name st p \<noteq> None) \<and> (\<forall>p \<in> set (tt_tab u). tab_name st p \<noteq> None) \<and>
      distinct (key_list st u)" if "u \<in> set (ts_tabs st)" for u
    using ok that by (auto simp: toml_ok_def refs_ok_def)
  have up: "arr_name st p \<noteq> None \<Longrightarrow> arr_name st' p \<noteq> None" "tab_name st p \<noteq> None \<Longrightarrow> tab_name st' p \<noteq> None" for p
    using kept by (auto simp: names_kept_def)
  have "(\<forall>p \<in> set (tt_arr u). arr_name st' p \<noteq> None) \<and> (\<forall>p \<in> set (tt_tab u). tab_name st' p \<noteq> None) \<and>
      distinct (key_list st' u)" if "u \<in> set (ts_tabs st')" for u
    using tabs [OF that]
  proof (elim disjE)
    assume "u \<in> set (ts_tabs st)"
    with old [OF this] key_list_kept [OF kept, of u] up show ?thesis by fastforce
  next
    assume "u = t'"
    with refs dist show ?thesis by blast
  qed (simp add: key_list_def)
  then show ?thesis by (auto simp: toml_ok_def refs_ok_def)
qed

lemma seq_Some: "seq m f = Some (Inr y) \<longleftrightarrow> (\<exists>x. m = Some (Inr x) \<and> f x = Some (Inr y))"
  by (auto simp: seq_def split: option.split sum.split)

lemma lift_Some: "lift m = Some (Inr y) \<longleftrightarrow> m = Some y"
  by (auto simp: lift_def)

lemma ok_fail [simp]: "ok x = Some (Inr y) \<longleftrightarrow> x = y" "fail e \<noteq> Some (Inr y)"
  by (auto simp: ok_def fail_def)

lemma put_tab_names:
  assumes "get_tab st i = Some t" "tt_key t' = tt_key t"
  shows "arr_name (put_tab i t' st) p = arr_name st p" "tab_name (put_tab i t' st) p = tab_name st p"
  using assms by (auto simp: put_tab_def arr_name_def tab_name_def get_arr_def get_tab_def deref_def nth_list_update
      split: if_splits)

lemma put_tab_kept: "get_tab st i = Some t \<Longrightarrow> tt_key t' = tt_key t \<Longrightarrow> names_kept st (put_tab i t' st)"
  by (simp add: names_kept_def put_tab_names)

section \<open>The three creators keep the tree\<close>

lemma create_keyval_ok:
  assumes ok: "toml_ok st" and run: "create_keyval_in_table src st tab tok = Some (Inr st')"
  obtains t k where "get_tab st tab = Some t" "normalize_key src tok = ok k" "k \<notin> set (key_list st t)"
    "st' = put_tab tab (t\<lparr>tt_kval := tt_kval t @ [(k, None)]\<rparr>) st" "toml_ok st'" "names_kept st st'"
proof -
  from run obtain k b t where k: "normalize_key src tok = Some (Inr k)" "key_kind st tab k = Some b" "\<not> b"
    "get_tab st tab = Some t" "st' = put_tab tab (t\<lparr>tt_kval := tt_kval t @ [(k, None)]\<rparr>) st"
    by (auto simp: create_keyval_in_table_def seq_Some lift_Some split: if_splits Option.bind_splits)
  let ?t = "t\<lparr>tt_kval := tt_kval t @ [(k, None)]\<rparr>"
  have r: "refs_ok st" and d: "distinct (key_list st t)"
    using ok nth_mem [of tab "ts_tabs st"] k(4) by (auto simp: toml_ok_def get_tab_iff)
  have new: "k \<notin> set (key_list st t)" using key_kind_eq [OF r k(4), of k] k(2,3) by simp
  have kept: "names_kept st st'" unfolding k(5) using k(4) by (rule put_tab_kept) simp
  have names: "arr_name st' p = arr_name st p" "tab_name st' p = tab_name st p" for p
    unfolding k(5) using put_tab_names [OF k(4), of ?t] by simp_all
  have "toml_ok st'"
  proof (rule toml_ok_step [OF ok kept])
    show "u \<in> set (ts_tabs st) \<or> u = ?t \<or> tt_kval u = [] \<and> tt_arr u = [] \<and> tt_tab u = []"
      if "u \<in> set (ts_tabs st')" for u
      using that set_update_subset_insert [of "ts_tabs st" tab ?t] by (auto simp: k(5) put_tab_def)
    show "\<forall>p \<in> set (tt_arr ?t). arr_name st' p \<noteq> None" "\<forall>p \<in> set (tt_tab ?t). tab_name st' p \<noteq> None"
      using refs_okD [OF r k(4)] by (simp_all add: names)
    show "distinct (key_list st' ?t)" using d new by (auto simp: key_list_def names)
  qed
  with that k new kept show thesis by (simp add: ok_def)
qed

lemma add_table_names:
  assumes "get_tab st i = Some t"
    and st': "st' = st\<lparr>ts_tabs := (ts_tabs st)[i := t\<lparr>tt_tab := x\<rparr>] @ [c]\<rparr>"
  shows "arr_name st' p = arr_name st p" "tab_name st' (length (ts_tabs st)) = tt_key c"
    "p < length (ts_tabs st) \<Longrightarrow> tab_name st' p = tab_name st p" "names_kept st st'"
  using assms by (auto simp: arr_name_def tab_name_def get_arr_def get_tab_def deref_def nth_list_update nth_append
      names_kept_def split: if_splits)

lemma tab_name_valid: "tab_name st p \<noteq> None \<Longrightarrow> p < length (ts_tabs st)"
  by (auto simp: tab_name_def get_tab_def deref_def split: if_splits)

lemma arr_name_valid: "arr_name st p \<noteq> None \<Longrightarrow> p < length (ts_arrs st)"
  by (auto simp: arr_name_def get_arr_def deref_def split: if_splits)

lemma find_snoc: "List.find P xs = None \<Longrightarrow> P y \<Longrightarrow> List.find P (xs @ [y]) = Some y"
  by (induction xs) (auto split: if_splits)

lemma add_table_ok:
  assumes ok: "toml_ok st" and t: "get_tab st tab = Some t" and new: "k \<notin> set (key_list st t)"
    and run: "add_table st tab (empty_table\<lparr>tt_key := Some k, tt_implicit := im\<rparr>) = Some (st', p)"
  shows "toml_ok st' \<and> names_kept st st' \<and> tab_name st' p = Some k \<and> toml_table_in st' tab k = Some (Some p)"
proof -
  let ?n = "length (ts_tabs st)" and ?t = "t\<lparr>tt_tab := tt_tab t @ [length (ts_tabs st)]\<rparr>"
  let ?c = "empty_table\<lparr>tt_key := Some k, tt_implicit := im\<rparr>"
  have st': "st' = st\<lparr>ts_tabs := (ts_tabs st)[tab := ?t] @ [?c]\<rparr>" "p = ?n"
    using run t by (auto simp: add_table_def Let_def)
  note names = add_table_names [OF t st'(1)]
  have r: "refs_ok st" and d: "distinct (key_list st t)"
    using ok nth_mem [of tab "ts_tabs st"] t by (auto simp: toml_ok_def get_tab_iff)
  note refs = refs_okD [OF r t]
  have same: "map (\<lambda>p. the (tab_name st' p)) (tt_tab t) = map (\<lambda>p. the (tab_name st p)) (tt_tab t)"
    using refs(2) tab_name_valid [of st] names(3) by (intro map_cong) auto
  have "toml_ok st'"
  proof (rule toml_ok_step [OF ok names(4)])
    show "u \<in> set (ts_tabs st) \<or> u = ?t \<or> tt_kval u = [] \<and> tt_arr u = [] \<and> tt_tab u = []"
      if "u \<in> set (ts_tabs st')" for u
      using that set_update_subset_insert [of "ts_tabs st" tab ?t] by (auto simp: st'(1) empty_table_def)
    show "\<forall>p \<in> set (tt_arr ?t). arr_name st' p \<noteq> None" using refs(1) names(1) by simp
    show "\<forall>p \<in> set (tt_tab ?t). tab_name st' p \<noteq> None"
      using refs(2) names(2,3) tab_name_valid [of st] by auto
    show "distinct (key_list st' ?t)" using d new by (auto simp: key_list_def names(1,2) same)
  qed
  moreover have "toml_table_in st' tab k = Some (Some p)"
  proof -
    have t': "get_tab st' tab = Some ?t" using t st'(1) by (simp add: get_tab_iff nth_append)
    have "refs_ok st'" using \<open>toml_ok st'\<close> by (simp add: toml_ok_def)
    note refs' = refs_okD(2) [OF this t']
    have "List.find (\<lambda>p. the (tab_name st' p) = k) (tt_tab t) = None"
      unfolding find_None_iff using new same by (auto simp: key_list_def dest: map_eq_conv [THEN iffD1])
    then have "List.find (\<lambda>p. the (tab_name st' p) = k) (tt_tab t @ [?n]) = Some ?n"
      by (rule find_snoc) (simp add: names(2))
    with find_ptr_eq [OF refs', of k] show ?thesis by (simp add: toml_table_in_def t' st'(2))
  qed
  ultimately show ?thesis using names st'(2) by simp
qed

lemma create_keytable_ok:
  assumes ok: "toml_ok st" and run: "create_keytable_in_table src st tab tok = Some (Inr (st', p))"
  obtains k where "normalize_key src tok = ok k" "toml_ok st'" "names_kept st st'" "tab_name st' p = Some k"
    "toml_table_in st' tab k = Some (Some p)"
proof -
  from run obtain k e where k: "normalize_key src tok = Some (Inr k)" "check_key st tab k = Some e"
    "(case e of
       Some (KeyTab p) \<Rightarrow>
         seq (lift (get_tab st p)) (\<lambda>d.
         if tt_implicit d then Toml_Data.ok (put_tab p (d\<lparr>tt_implicit := False\<rparr>) st, p)
         else fail (E_keyexists (tk_line tok)))
     | Some _ \<Rightarrow> fail (E_keyexists (tk_line tok))
     | None \<Rightarrow> lift (add_table st tab (empty_table\<lparr>tt_key := Some k\<rparr>))) = Some (Inr (st', p))"
    by (auto simp: create_keytable_in_table_def seq_Some lift_Some)
  from k(2) obtain t where t: "get_tab st tab = Some t" by (auto simp: check_key_def split: Option.bind_splits)
  have r: "refs_ok st" using ok by (simp add: toml_ok_def)
  show thesis
  proof (cases e)
    case None
    have "k \<notin> set (key_list st t)" using check_key_none [OF r t, of k] k(2) None by simp
    moreover have "add_table st tab (empty_table\<lparr>tt_key := Some k, tt_implicit := False\<rparr>) = Some (st', p)"
      using k(3) None by (simp add: lift_Some empty_table_def)
    ultimately show thesis using add_table_ok [OF ok t] that k(1) by (metis ok_def)
  next
    case (Some x)
    with k(3) obtain q where x: "x = KeyTab q" by (auto split: key_entry.splits)
    have "seq (lift (get_tab st q)) (\<lambda>d. if tt_implicit d then Toml_Data.ok (put_tab q (d\<lparr>tt_implicit := False\<rparr>) st, q)
         else fail (E_keyexists (tk_line tok))) = Some (Inr (st', p))"
      using k(3) by (simp only: Some x option.case key_entry.case)
    then obtain d where d0: "get_tab st q = Some d" "tt_implicit d" "(put_tab q (d\<lparr>tt_implicit := False\<rparr>) st, q) = (st', p)"
      unfolding seq_Some lift_Some by (metis ok_fail)
    then have d: "get_tab st q = Some d" "tt_implicit d" "st' = put_tab q (d\<lparr>tt_implicit := False\<rparr>) st" "p = q"
      by auto
    let ?d = "d\<lparr>tt_implicit := False\<rparr>"
    note kept = put_tab_kept [OF d(1), of ?d]
    note names = put_tab_names [OF d(1), of ?d]
    have dd: "\<forall>p \<in> set (tt_arr d). arr_name st p \<noteq> None" "\<forall>p \<in> set (tt_tab d). tab_name st p \<noteq> None" "distinct (key_list st d)"
      using refs_okD [OF r d(1)] ok nth_mem [of q "ts_tabs st"] d(1) by (auto simp: toml_ok_def get_tab_iff)
    have nk: "names_kept st st'" unfolding d(3) by (rule kept) simp
    have an: "arr_name st' p = arr_name st p" for p unfolding d(3) by (rule names(1)) simp
    have tn: "tab_name st' p = tab_name st p" for p unfolding d(3) by (rule names(2)) simp
    have "toml_ok st'"
    proof (rule toml_ok_step [OF ok nk])
      show "u \<in> set (ts_tabs st) \<or> u = ?d \<or> tt_kval u = [] \<and> tt_arr u = [] \<and> tt_tab u = []"
        if "u \<in> set (ts_tabs st')" for u
        using that set_update_subset_insert [of "ts_tabs st" q ?d] by (auto simp: d(3) put_tab_def)
      show "\<forall>p \<in> set (tt_arr ?d). arr_name st' p \<noteq> None" "\<forall>p \<in> set (tt_tab ?d). tab_name st' p \<noteq> None"
        "distinct (key_list st' ?d)"
        using dd by (simp_all add: an tn key_list_def)
    qed
    moreover have "tab_name st q = Some k"
    proof -
      from k(2) Some x have "List.find (\<lambda>p. the (tab_name st p) = k) (tt_tab t) = Some q"
        unfolding check_key_eq [OF r t] by (auto split: if_splits option.splits)
      then have "q \<in> set (tt_tab t)" "the (tab_name st q) = k" by (auto simp: find_Some_iff)
      with refs_okD(2) [OF r t] show ?thesis by auto
    qed
    moreover have "toml_table_in st' tab k = Some (Some p)"
    proof -
      obtain t' where t': "get_tab st' tab = Some t'" "tt_tab t' = tt_tab t"
        using t d by (cases "tab = q") (auto simp: d(3) get_tab_iff put_tab_def)
      have "List.find (\<lambda>p. the (tab_name st p) = k) (tt_tab t) = Some q"
        using k(2) Some x unfolding check_key_eq [OF r t] by (auto split: if_splits option.splits)
      moreover have "find_ptr (tab_name st') k (tt_tab t) = Some (List.find (\<lambda>p. the (tab_name st p) = k) (tt_tab t))"
        using find_ptr_eq [of "tt_tab t" "tab_name st'" k] refs_okD(2) [OF r t] by (simp add: tn)
      ultimately show ?thesis by (simp add: toml_table_in_def t' d(4))
    qed
    ultimately show thesis
      by (intro that [of k]) (use k(1) nk d(4) in \<open>simp_all add: ok_def tn\<close>)
  qed
qed
lemma create_keyarray_ok:
  assumes ok: "toml_ok st" and run: "create_keyarray_in_table src st tab tok kind = Some (Inr (st', p))"
  obtains k where "normalize_key src tok = Toml_Data.ok k" "toml_ok st'" "names_kept st st'" "arr_name st' p = Some k"
    "toml_array_in st' tab k = Some (Some p)"
proof -
  let ?n = "length (ts_arrs st)"
  from run obtain k b t where k: "normalize_key src tok = Some (Inr k)" "key_kind st tab k = Some b" "\<not> b"
    "get_tab st tab = Some t" "p = ?n"
    "st' = (put_tab tab (t\<lparr>tt_arr := tt_arr t @ [?n]\<rparr>) st)
        \<lparr>ts_arrs := ts_arrs st @ [empty_array\<lparr>ta_key := Some k, ta_kind := kind\<rparr>]\<rparr>"
    by (auto simp: create_keyarray_in_table_def seq_Some lift_Some Let_def split: if_splits Option.bind_splits)
  let ?t = "t\<lparr>tt_arr := tt_arr t @ [?n]\<rparr>"
  have r: "refs_ok st" and d: "distinct (key_list st t)"
    using ok nth_mem [of tab "ts_tabs st"] k(4) by (auto simp: toml_ok_def get_tab_iff)
  note refs = refs_okD [OF r k(4)]
  have new: "k \<notin> set (key_list st t)" using key_kind_eq [OF r k(4), of k] k(2,3) by simp
  have tn: "tab_name st' q = tab_name st q" for q
    using put_tab_names(2) [OF k(4), of ?t q] by (simp add: k(6) tab_name_def get_tab_def)
  have an: "arr_name st' ?n = Some k" "q < ?n \<Longrightarrow> arr_name st' q = arr_name st q" for q
    by (simp_all add: k(6) arr_name_def get_arr_def deref_def nth_append put_tab_def)
  have kept: "names_kept st st'"
    using arr_name_valid [of st] by (auto simp: names_kept_def tn an(2))
  have same: "map (\<lambda>p. the (arr_name st' p)) (tt_arr t) = map (\<lambda>p. the (arr_name st p)) (tt_arr t)"
    using refs(1) arr_name_valid [of st] an(2) by (intro map_cong) auto
  have "toml_ok st'"
  proof (rule toml_ok_step [OF ok kept])
    show "u \<in> set (ts_tabs st) \<or> u = ?t \<or> tt_kval u = [] \<and> tt_arr u = [] \<and> tt_tab u = []"
      if "u \<in> set (ts_tabs st')" for u
      using that set_update_subset_insert [of "ts_tabs st" tab ?t] by (auto simp: k(6) put_tab_def)
    show "\<forall>p \<in> set (tt_arr ?t). arr_name st' p \<noteq> None" using refs(1) an arr_name_valid [of st] by auto
    show "\<forall>p \<in> set (tt_tab ?t). tab_name st' p \<noteq> None" using refs(2) by (simp add: tn)
    show "distinct (key_list st' ?t)" using d new by (auto simp: key_list_def tn an(1) same)
  qed
  moreover have "toml_array_in st' tab k = Some (Some p)"
  proof -
    have t': "get_tab st' tab = Some ?t" using k(4) by (simp add: k(6) get_tab_iff put_tab_def)
    have "refs_ok st'" using \<open>toml_ok st'\<close> by (simp add: toml_ok_def)
    note refs' = refs_okD(1) [OF this t']
    have "List.find (\<lambda>p. the (arr_name st' p) = k) (tt_arr t) = None"
      unfolding find_None_iff using new same by (auto simp: key_list_def dest: map_eq_conv [THEN iffD1])
    then have "List.find (\<lambda>p. the (arr_name st' p) = k) (tt_arr t @ [?n]) = Some ?n"
      by (rule find_snoc) (simp add: an(1))
    with find_ptr_eq [OF refs', of k] show ?thesis by (simp add: toml_array_in_def t' k(5))
  qed
  ultimately show thesis by (intro that [of k]) (use k(1,5) kept an(1) in \<open>simp_all add: ok_def\<close>)
qed

lemma toml_key_exists_eq: "toml_key_exists st tab k = key_kind st tab k"
  by (cases "get_tab st tab")
    (auto simp: toml_key_exists_def key_kind_def check_key_def split: option.split Option.bind_splits)

text \<open>
  C28. Whatever key a token spells, the three functions that add an entry to a table keep every
  key of every table unique, keep the names of all tables and arrays, and leave the new entry to
  be found under its normalized key.
\<close>

theorem create_keeps_keys:
  assumes "toml_ok st"
  shows "(\<forall>s. create_keyval_in_table src st tab tok = Some (Inr s) \<longrightarrow>
        (\<exists>k. normalize_key src tok = Some (Inr k) \<and> toml_ok s \<and> names_kept st s \<and> toml_key_exists s tab k = Some True)) \<and>
     (\<forall>s p. create_keytable_in_table src st tab tok = Some (Inr (s, p)) \<longrightarrow>
        (\<exists>k. normalize_key src tok = Some (Inr k) \<and> toml_ok s \<and> names_kept st s \<and> toml_table_in s tab k = Some (Some p))) \<and>
     (\<forall>s p. create_keyarray_in_table src st tab tok kind = Some (Inr (s, p)) \<longrightarrow>
        (\<exists>k. normalize_key src tok = Some (Inr k) \<and> toml_ok s \<and> names_kept st s \<and> toml_array_in s tab k = Some (Some p)))"
proof (intro conjI allI impI)
  fix s1 assume "create_keyval_in_table src st tab tok = Some (Inr s1)"
  from create_keyval_ok [OF assms this] obtain t k where k: "get_tab st tab = Some t" "normalize_key src tok = ok k"
    "s1 = put_tab tab (t\<lparr>tt_kval := tt_kval t @ [(k, None)]\<rparr>) st" "toml_ok s1" "names_kept st s1" by metis
  have "get_tab s1 tab = Some (t\<lparr>tt_kval := tt_kval t @ [(k, None)]\<rparr>)"
    using k(1) by (simp add: k(3) put_tab_def get_tab_iff)
  then have "toml_key_exists s1 tab k = Some True" by (simp add: toml_key_exists_def)
  with k show "\<exists>k. normalize_key src tok = Some (Inr k) \<and> toml_ok s1 \<and> names_kept st s1 \<and> toml_key_exists s1 tab k = Some True"
    by (auto simp: ok_def)
next
  fix s2 p assume "create_keytable_in_table src st tab tok = Some (Inr (s2, p))"
  from create_keytable_ok [OF assms this]
  show "\<exists>k. normalize_key src tok = Some (Inr k) \<and> toml_ok s2 \<and> names_kept st s2 \<and> toml_table_in s2 tab k = Some (Some p)"
    by (metis ok_def)
next
  fix s3 q assume "create_keyarray_in_table src st tab tok kind = Some (Inr (s3, q))"
  from create_keyarray_ok [OF assms this]
  show "\<exists>k. normalize_key src tok = Some (Inr k) \<and> toml_ok s3 \<and> names_kept st s3 \<and> toml_array_in s3 tab k = Some (Some q)"
    by (metis ok_def)
qed

definition one_table :: toml_store where
  "one_table = \<lparr>ts_tabs = [empty_table], ts_arrs = []\<rparr>"

lemma one_table_ok: "toml_ok one_table"
  by (simp add: one_table_def toml_ok_def refs_ok_def empty_table_def key_list_def)

definition core_token :: token where
  "core_token = \<lparr>tk_tok = STRING, tk_line = 1, tk_ptr = 0, tk_len = 4, tk_eof = False\<rparr>"

theorem create_keeps_keys_witness:
  "\<exists>s p. create_keytable_in_table ''core'' one_table 0 core_token = Some (Inr (s, p)) \<and> toml_ok s \<and>
     (\<exists>k. toml_table_in s 0 k = Some (Some p))"
proof -
  note w = create_keeps_keys [OF one_table_ok, of "''core''" 0 core_token NUL]
  have "\<exists>s p. create_keytable_in_table ''core'' one_table 0 core_token = Some (Inr (s, p))"
    by (simp add: create_keytable_in_table_def normalize_key_def core_token_def chr_at_def bare_char_def code_def ok_def
        seq_def lift_def check_key_def one_table_def get_tab_def deref_def empty_table_def add_table_def Let_def)
  with w show ?thesis by blast
qed

end
