(* ===== verification/Toml_Parse.thy ===== *)
theory Toml_Parse
  imports Toml_Data
begin

text \<open>
  The lexer and the parser of the configuration file (toml.c). A token is a place in the source;
  the parser's steps thread its context. The functions that call each other (\<open>parse_keyval\<close>,
  \<open>parse_array\<close>, \<open>parse_inline_table\<close>) and the loop over the lines run on fuel; running out
  of it is \<^term>\<open>None\<close>, as undefined behaviour is, and the theory proves that
  neither happens when the fuel exceeds twice the length of the source. The texts of the error
  messages are not modelled.
\<close>

section \<open>Dates and times\<close>

fun scan_digits :: "string \<Rightarrow> nat \<Rightarrow> int \<Rightarrow> int" where
  "scan_digits p 0 ret = ret"
| "scan_digits [] (Suc n) ret = - 1"
| "scan_digits (c # p) (Suc n) ret = (if is_digit c then scan_digits p n (10 * ret + (code c - 48)) else - 1)"

lemma c_string_cap: "c_string (s @ [NUL]) = c_string s"
  by (induction s) (simp_all add: c_string_def)

text \<open>The three numbers, -1 from the first that is missing on, and whether all are there.\<close>

definition scan_date :: "string \<Rightarrow> int \<times> int \<times> int \<times> bool" where
  "scan_date p =
     (let year = scan_digits p 4 0;
          month = (if year \<ge> 0 \<and> chr_at p 4 = CHR ''-'' then scan_digits (drop 5 p) 2 0 else - 1);
          day = (if month \<ge> 0 \<and> chr_at p 7 = CHR ''-'' then scan_digits (drop 8 p) 2 0 else - 1)
      in (year, month, day, year \<ge> 0 \<and> month \<ge> 0 \<and> day \<ge> 0))"

definition scan_time :: "string \<Rightarrow> int \<times> int \<times> int \<times> bool" where
  "scan_time p =
     (let hour = scan_digits p 2 0;
          minute = (if hour \<ge> 0 \<and> chr_at p 2 = CHR '':'' then scan_digits (drop 3 p) 2 0 else - 1);
          second = (if minute \<ge> 0 \<and> chr_at p 5 = CHR '':'' then scan_digits (drop 6 p) 2 0 else - 1)
      in (hour, minute, second, hour \<ge> 0 \<and> minute \<ge> 0 \<and> second \<ge> 0))"

definition is_date :: "string \<Rightarrow> bool" where "is_date p = (case scan_date p of (_, _, _, b) \<Rightarrow> b)"
definition is_time :: "string \<Rightarrow> bool" where "is_time p = (case scan_time p of (_, _, _, b) \<Rightarrow> b)"

fun parse_millisec :: "string \<Rightarrow> int \<Rightarrow> int \<Rightarrow> int \<times> string" where
  "parse_millisec [] unit ret = (ret, [])"
| "parse_millisec (c # p) unit ret =
     (if is_digit c then parse_millisec p (unit div 10) (ret + (code c - 48) * unit) else (ret, c # p))"

text \<open>A timestamp has a date, a time with optional milliseconds and a zone, or some of them.\<close>

record toml_timestamp =
  tm_date :: "(int \<times> int \<times> int) option"
  tm_time :: "(int \<times> int \<times> int) option"
  tm_millisec :: "int option"
  tm_z :: "string option"

text \<open>The zone behind a time: the text copied, and what follows it.\<close>

definition parse_zone :: "string \<Rightarrow> (string option \<times> string) option" where
  "parse_zone p =
     (let two = (\<lambda>r. is_digit (chr_at r 0) \<and> is_digit (chr_at r 1)) in
      if p = [] then Some (None, p)
      else if chr_at p 0 = CHR ''Z'' \<or> chr_at p 0 = CHR ''z'' then Some (Some ''Z'', drop 1 p)
      else if chr_at p 0 = CHR ''+'' \<or> chr_at p 0 = CHR ''-'' then
        (if \<not> two (drop 1 p) then None
         else if chr_at p 3 = CHR '':'' then
           (if \<not> two (drop 4 p) then None else Some (Some (take 6 p), drop 6 p))
         else Some (Some (take 3 p), drop 3 p))
      else Some (Some [], p))"

definition toml_rtots :: "string option \<Rightarrow> toml_timestamp option" where
  "toml_rtots raw =
     (case raw of None \<Rightarrow> None
      | Some p0 \<Rightarrow>
        (case scan_date p0 of (year, month, day, dated) \<Rightarrow>
          let p1 = (if dated then drop 10 p0 else p0);
              sep = (dated \<and> p1 \<noteq> []);
              p = (if sep then drop 1 p1 else p1)
          in if sep \<and> chr_at p1 0 \<notin> {CHR ''T'', CHR ''t'', CHR '' ''} then None
             else (case scan_time p of (hour, minute, second, timed) \<Rightarrow>
               let q = drop 8 p;
                   (ms, q1) = (if chr_at q 0 = CHR ''.'' then (case parse_millisec (drop 1 q) 100 0 of (m, r) \<Rightarrow> (Some m, r))
                               else (None, q))
               in (case (if timed then parse_zone q1 else Some (None, p)) of
                     None \<Rightarrow> None
                   | Some (z, r) \<Rightarrow>
                     if r \<noteq> [] \<or> sep \<and> \<not> timed then None
                     else Some \<lparr>tm_date = (if dated then Some (year, month, day) else None),
                        tm_time = (if timed then Some (hour, minute, second) else None),
                        tm_millisec = (if timed then ms else None), tm_z = z\<rparr>))))"

definition toml_timestamp_at :: "toml_array \<Rightarrow> int \<Rightarrow> toml_timestamp option" where
  "toml_timestamp_at a idx = toml_rtots (toml_raw_at a idx)"

definition toml_timestamp_in :: "toml_store \<Rightarrow> nat \<Rightarrow> string \<Rightarrow> toml_timestamp option option" where
  "toml_timestamp_in st tab k = do { r \<leftarrow> toml_raw_in st tab k; Some (toml_rtots r) }"

section \<open>The lexer\<close>

definition mk_token :: "tokentype \<Rightarrow> int \<Rightarrow> nat \<Rightarrow> nat \<Rightarrow> token" where
  "mk_token k lineno p len = \<lparr>tk_tok = k, tk_line = lineno, tk_ptr = p, tk_len = len, tk_eof = False\<rparr>"

definition set_eof :: "string \<Rightarrow> int \<Rightarrow> token" where
  "set_eof src lineno = (mk_token NEWLINE lineno (length src) 0)\<lparr>tk_eof := True\<rparr>"

text \<open>The three quotes that end a multi-line basic string: the first that no backslash precedes.\<close>

fun triple_end :: "char \<Rightarrow> string \<Rightarrow> nat option" where
  "triple_end prev [] = None"
| "triple_end prev (c # s) =
     (if take 3 (c # s) = [DQUOTE, DQUOTE, DQUOTE] \<and> prev \<noteq> BACKSLASH then Some 0
      else map_option Suc (triple_end c s))"

definition hex_char :: "char \<Rightarrow> bool" where
  "hex_char c \<longleftrightarrow> c \<in> set ''0123456789ABCDEF''"

definition escape_char :: "char \<Rightarrow> bool" where
  "escape_char c \<longleftrightarrow> c \<in> set (''btnfr'' @ [DQUOTE, BACKSLASH])"

fun triple_escapes :: "string \<Rightarrow> string \<Rightarrow> bool \<Rightarrow> nat \<Rightarrow> bool" where
  "triple_escapes [] behind esc hexreq = (\<not> esc \<and> hexreq = 0)"
| "triple_escapes (c # b) behind esc hexreq =
     (if esc then
        (if escape_char c then triple_escapes b behind False hexreq
         else if c = CHR ''u'' then triple_escapes b behind False 4
         else if c = CHR ''U'' then triple_escapes b behind False 8
         else if line_end (c # b @ behind) then triple_escapes b behind False hexreq
         else False)
      else if hexreq > 0 then hex_char c \<and> triple_escapes b behind False (hexreq - 1)
      else if c = BACKSLASH then triple_escapes b behind True hexreq
      else triple_escapes b behind False hexreq)"

text \<open>The quote that ends a basic string, \<^term>\<open>None\<close> for the errors of the loop.\<close>

fun dquote_end :: "string \<Rightarrow> bool \<Rightarrow> nat \<Rightarrow> nat option" where
  "dquote_end [] esc hexreq = None"
| "dquote_end (c # s) esc hexreq =
     (if esc then
        (if escape_char c then map_option Suc (dquote_end s False hexreq)
         else if c = CHR ''u'' then map_option Suc (dquote_end s False 4)
         else if c = CHR ''U'' then map_option Suc (dquote_end s False 8)
         else None)
      else if hexreq > 0 then (if hex_char c then map_option Suc (dquote_end s False (hexreq - 1)) else None)
      else if c = BACKSLASH then map_option Suc (dquote_end s True hexreq)
      else if c = SQUOTE then
        (if take 2 s = [SQUOTE, SQUOTE] then None else map_option Suc (dquote_end s False hexreq))
      else if c = LF then None
      else if c = DQUOTE then Some 0
      else map_option Suc (dquote_end s False hexreq))"

definition literal_char :: "bool \<Rightarrow> char \<Rightarrow> bool" where
  "literal_char dotisspecial c \<longleftrightarrow> \<not> (c = CHR ''.'' \<and> dotisspecial) \<and>
     (65 \<le> code c \<and> code c \<le> 90 \<or> 97 \<le> code c \<and> code c \<le> 122 \<or> c \<in> set ''0123456789+-_.'')"

text \<open>The spaces at the end of the text of a timestamp are not part of it.\<close>

definition timestamp_len :: "string \<Rightarrow> nat" where
  "timestamp_len s =
     length (dropWhile (\<lambda>c. c = CHR '' '') (rev (takeWhile (\<lambda>c. c \<in> set ''0123456789.:+-Tt Zz'') s)))"

definition scan_string :: "string \<Rightarrow> nat \<Rightarrow> int \<Rightarrow> bool \<Rightarrow> token parse" where
  "scan_string src p lineno dotisspecial =
     (let s = drop p src; string = (\<lambda>n. ok (mk_token STRING lineno p n)); bad = fail (E_syntax lineno);
          quotes = (\<lambda>q t. length (takeWhile (\<lambda>c. c = q) t))
      in if take 3 s = [SQUOTE, SQUOTE, SQUOTE] then
           (case find_sub [SQUOTE, SQUOTE, SQUOTE] (drop 3 s) of
              None \<Rightarrow> bad
            | Some k \<Rightarrow> string (3 + k + quotes SQUOTE (drop (6 + k) s) + 3))
         else if take 3 s = [DQUOTE, DQUOTE, DQUOTE] then
           (case triple_end DQUOTE (drop 3 s) of
              None \<Rightarrow> bad
            | Some k \<Rightarrow>
              (let n = k + quotes DQUOTE (drop (6 + k) s) in
               if triple_escapes (take n (drop 3 s)) (drop (3 + n) s) False 0 then string (3 + n + 3) else bad))
         else if chr_at s 0 = SQUOTE then
           (let n = length (takeWhile (\<lambda>c. c \<noteq> LF \<and> c \<noteq> SQUOTE) (drop 1 s)) in
            if chr_at s (1 + n) = SQUOTE then string (1 + n + 1) else bad)
         else if chr_at s 0 = DQUOTE then
           (case dquote_end (drop 1 s) False 0 of None \<Rightarrow> bad | Some n \<Rightarrow> string (1 + n + 1))
         else if is_date s \<or> is_time s then string (timestamp_len s)
         else string (length (takeWhile (literal_char dotisspecial) s)))"

function lex :: "string \<Rightarrow> int \<Rightarrow> nat \<Rightarrow> bool \<Rightarrow> token parse" where
  "lex src lineno p dotisspecial =
     (if p < length src then
        (let c = src ! p; one = (\<lambda>k. ok (mk_token k lineno p 1)) in
         if c = CHR ''#'' then
           lex src lineno (p + 1 + length (takeWhile (\<lambda>c. c \<noteq> LF) (drop (p + 1) src))) dotisspecial
         else if dotisspecial \<and> c = CHR ''.'' then one DOT
         else if c = CHR '','' then one COMMA
         else if c = CHR ''='' then one EQUAL
         else if c = CHR ''{'' then one LBRACE
         else if c = CHR ''}'' then one RBRACE
         else if c = CHR ''['' then one LBRACKET
         else if c = CHR '']'' then one RBRACKET
         else if c = LF then one NEWLINE
         else if c = CR \<or> c = CHR '' '' \<or> c = TAB then lex src lineno (p + 1) dotisspecial
         else scan_string src p lineno dotisspecial)
      else ok (set_eof src lineno))"
  by pat_completeness auto
termination by (relation "measure (\<lambda>(src, lineno, p, d). length src - p)") auto

declare lex.simps [simp del]

definition token_text :: "string \<Rightarrow> token \<Rightarrow> string" where
  "token_text src t = take (tk_len t) (drop (tk_ptr t) src)"

definition next_token :: "toml_ctx \<Rightarrow> bool \<Rightarrow> toml_ctx parse" where
  "next_token ctx dotisspecial =
     (let t = cx_tok ctx; src = cx_src ctx;
          lineno = tk_line t + int (length (filter (\<lambda>c. c = LF) (token_text src t)))
      in seq (lex src lineno (tk_ptr t + tk_len t) dotisspecial) (\<lambda>t'. ok (ctx\<lparr>cx_tok := t'\<rparr>)))"

definition eat_token :: "toml_ctx \<Rightarrow> tokentype \<Rightarrow> bool \<Rightarrow> toml_ctx parse" where
  "eat_token ctx typ dotisspecial =
     (if tk_tok (cx_tok ctx) \<noteq> typ then fail E_internal else next_token ctx dotisspecial)"

section \<open>What the lexer consumes\<close>

text \<open>Tokens lie inside the source, one behind the other.\<close>

definition token_in :: "string \<Rightarrow> token \<Rightarrow> bool" where
  "token_in src t \<longleftrightarrow> tk_ptr t + tk_len t \<le> length src"

lemma seq_ok [simp]: "seq (ok x) f = f x" "seq (fail e) f = fail e"
  by (simp_all add: seq_def ok_def fail_def)

lemma triple_end_bound: "triple_end prev s = Some k \<Longrightarrow> k + 3 \<le> length s"
proof (induction prev s arbitrary: k rule: triple_end.induct)
  case (2 prev c s)
  show ?case
  proof (cases "take 3 (c # s) = [DQUOTE, DQUOTE, DQUOTE] \<and> prev \<noteq> BACKSLASH")
    case True
    then have "length (take 3 (c # s)) = 3" by simp
    then have "3 \<le> length (c # s)" by simp
    with 2 True show ?thesis by simp
  qed (use 2 in auto)
qed simp

lemma dquote_end_bound: "dquote_end s esc h = Some k \<Longrightarrow> k < length s"
  by (induction s esc h arbitrary: k rule: dquote_end.induct) (auto split: if_splits)

lemma takeWhile_drop: "k + length (takeWhile P (drop k s)) \<le> max k (length s)"
  using length_takeWhile_le [of P "drop k s"] by (cases "k \<le> length s") simp_all

lemma chr_at_inside: "chr_at s i \<noteq> NUL \<Longrightarrow> i < length s"
  by (auto simp: chr_at_def split: list.splits intro: leI not_le_imp_less)

lemma scan_string_in:
  assumes "p < length src" "scan_string src p lineno d = Some (Inr t)"
  shows "tk_ptr t = p \<and> tk_tok t = STRING \<and> token_in src t \<and> \<not> tk_eof t"
proof -
  let ?s = "drop p src"
  have string: "tk_ptr t = p \<and> tk_tok t = STRING \<and> token_in src t \<and> \<not> tk_eof t"
    if "t = mk_token STRING lineno p n" "n \<le> length ?s" for n
    using that assms(1) by (simp add: mk_token_def token_in_def)
  have ts: "timestamp_len s \<le> length s" for s
  proof -
    let ?w = "takeWhile (\<lambda>c. c \<in> set ''0123456789.:+-Tt Zz'') s"
    have "length (dropWhile (\<lambda>c. c = CHR '' '') (rev ?w)) \<le> length (rev ?w)" by (rule length_dropWhile_le)
    moreover have "length ?w \<le> length s" by (rule length_takeWhile_le)
    ultimately show ?thesis unfolding timestamp_len_def length_rev by linarith
  qed
  have lw: "length (takeWhile P ?s) \<le> length ?s" for P by (rule length_takeWhile_le)
  show ?thesis
  proof (cases "take 3 ?s = [SQUOTE, SQUOTE, SQUOTE]")
    case True
    obtain k where k: "find_sub [SQUOTE, SQUOTE, SQUOTE] (drop 3 ?s) = Some k"
      "t = mk_token STRING lineno p (3 + k + length (takeWhile (\<lambda>c. c = SQUOTE) (drop (6 + k) ?s)) + 3)"
      using assms(2) unfolding scan_string_def Let_def if_P [OF True]
      by (cases "find_sub [SQUOTE, SQUOTE, SQUOTE] (drop 3 ?s)") (simp_all add: ok_def fail_def)
    have "3 + k + 3 \<le> length ?s" using find_sub_bound [OF k(1)] by simp
    with takeWhile_drop [of "6 + k" "\<lambda>c. c = SQUOTE" ?s] string [OF k(2)] show ?thesis by simp
  next
    case s: False
    show ?thesis
    proof (cases "take 3 ?s = [DQUOTE, DQUOTE, DQUOTE]")
      case True
      obtain k where k: "triple_end DQUOTE (drop 3 ?s) = Some k"
        "t = mk_token STRING lineno p (3 + (k + length (takeWhile (\<lambda>c. c = DQUOTE) (drop (6 + k) ?s))) + 3)"
        using assms(2) unfolding scan_string_def Let_def if_not_P [OF s] if_P [OF True]
        by (cases "triple_end DQUOTE (drop 3 ?s)") (simp_all add: ok_def fail_def split: if_splits)
      have "3 + k + 3 \<le> length ?s" using triple_end_bound [OF k(1)] by simp
      with takeWhile_drop [of "6 + k" "\<lambda>c. c = DQUOTE" ?s] string [OF k(2)] show ?thesis by simp
    next
      case False
      have q: "1 + n + 1 \<le> length ?s" if "dquote_end (drop 1 ?s) False 0 = Some n" for n
        using dquote_end_bound [OF that] by simp
      have l: "1 + n + 1 \<le> length ?s" if "chr_at ?s (1 + n) = SQUOTE" for n
        using chr_at_inside [of ?s "1 + n"] that by simp
      note run = assms(2) [unfolded scan_string_def Let_def if_not_P [OF s] if_not_P [OF False]]
      show ?thesis
      proof (cases "chr_at ?s 0 = SQUOTE")
        case sq: True
        let ?n = "length (takeWhile (\<lambda>c. c \<noteq> LF \<and> c \<noteq> SQUOTE) (drop 1 ?s))"
        have "t = mk_token STRING lineno p (1 + ?n + 1)" "chr_at ?s (1 + ?n) = SQUOTE"
          using run unfolding if_P [OF sq] by (cases "chr_at ?s (1 + ?n) = SQUOTE", simp_all add: ok_def fail_def)+
        with string l show ?thesis by blast
      next
        case sq: False
        note run' = run [unfolded if_not_P [OF sq]]
        show ?thesis
        proof (cases "chr_at ?s 0 = DQUOTE")
          case dq: True
          obtain n where n: "dquote_end (drop 1 ?s) False 0 = Some n" "t = mk_token STRING lineno p (1 + n + 1)"
            using run' unfolding if_P [OF dq] by (cases "dquote_end (drop 1 ?s) False 0") (simp_all add: ok_def fail_def)
          from string [OF n(2) q [OF n(1)]] show ?thesis .
        next
          case dq: False
          have "t = mk_token STRING lineno p (timestamp_len ?s) \<or>
              t = mk_token STRING lineno p (length (takeWhile (literal_char d) ?s))"
            using run' unfolding if_not_P [OF dq] by (cases "is_date ?s \<or> is_time ?s") (simp_all add: ok_def)
          with string ts lw show ?thesis by blast
        qed
      qed
    qed
  qed
qed

lemma lex_in:
  "lex src lineno p d = Some (Inr t) \<Longrightarrow> token_in src t \<and> (p \<le> length src \<longrightarrow> p \<le> tk_ptr t) \<and>
     (tk_tok t = STRING \<or> tk_eof t \<or> tk_len t = 1) \<and> (tk_eof t \<longrightarrow> tk_tok t = NEWLINE)"
proof (induction src lineno p d rule: lex.induct)
  case (1 src lineno p d)
  note run = 1(3) and IH = 1(1,2)
  show ?case
  proof (cases "p < length src")
    case False
    with run show ?thesis by (subst (asm) lex.simps) (auto simp: set_eof_def mk_token_def token_in_def)
  next
    case True
    let ?c = "src ! p"
    let ?q = "p + 1 + length (takeWhile (\<lambda>c. c \<noteq> LF) (drop (p + 1) src))"
    have q: "?q \<le> length src" using takeWhile_drop [of "p + 1" "\<lambda>c. c \<noteq> LF" src] True by simp
    consider "?c = CHR ''#''" | "?c = CR \<or> ?c = CHR '' '' \<or> ?c = TAB"
      | "?c \<noteq> CHR ''#''" "\<not> (?c = CR \<or> ?c = CHR '' '' \<or> ?c = TAB)" by blast
    then show ?thesis
    proof cases
      case 1
      with run True have "lex src lineno ?q d = Some (Inr t)"
        by (subst (asm) lex.simps) (simp add: Let_def)
      with IH(1) [OF True refl refl 1] q True show ?thesis by auto
    next
      case 2
      with run True have "lex src lineno (p + 1) d = Some (Inr t)"
        by (subst (asm) lex.simps) (auto simp: Let_def)
      with IH(2) [OF True refl refl] 2 True show ?thesis by auto
    next
      case 3
      with run True show ?thesis
        by (subst (asm) lex.simps)
          (auto simp: Let_def mk_token_def token_in_def split: if_splits dest!: scan_string_in [OF True])
    qed
  qed
qed

lemma seq_cases: "seq m f = Some (Inr y) \<Longrightarrow> (\<And>x. m = Some (Inr x) \<Longrightarrow> f x = Some (Inr y) \<Longrightarrow> thesis) \<Longrightarrow> thesis"
  by (auto simp: seq_Some)

text \<open>What a call of \<open>next_token\<close> does: it changes the token only, and the new one is behind the old one.\<close>

definition left :: "toml_ctx \<Rightarrow> nat" where
  "left ctx = length (cx_src ctx) - tk_ptr (cx_tok ctx)"

definition ctx_in :: "toml_ctx \<Rightarrow> bool" where
  "ctx_in ctx \<longleftrightarrow> token_in (cx_src ctx) (cx_tok ctx) \<and>
     (tk_tok (cx_tok ctx) = STRING \<or> tk_eof (cx_tok ctx) \<or> tk_len (cx_tok ctx) = 1) \<and>
     (tk_eof (cx_tok ctx) \<longrightarrow> tk_tok (cx_tok ctx) = NEWLINE)"

lemma next_token_step:
  assumes "next_token ctx d = Some (Inr c)"
  shows "\<exists>t. c = ctx\<lparr>cx_tok := t\<rparr> \<and> token_in (cx_src ctx) t \<and>
     (token_in (cx_src ctx) (cx_tok ctx) \<longrightarrow> tk_ptr (cx_tok ctx) + tk_len (cx_tok ctx) \<le> tk_ptr t) \<and>
     (tk_tok t = STRING \<or> tk_eof t \<or> tk_len t = 1) \<and> (tk_eof t \<longrightarrow> tk_tok t = NEWLINE)"
proof -
  from assms obtain t where t: "c = ctx\<lparr>cx_tok := t\<rparr>"
    "lex (cx_src ctx) (tk_line (cx_tok ctx) + int (length (filter (\<lambda>c. c = LF) (token_text (cx_src ctx) (cx_tok ctx)))))
       (tk_ptr (cx_tok ctx) + tk_len (cx_tok ctx)) d = Some (Inr t)"
    by (auto simp: next_token_def Let_def seq_Some)
  from lex_in [OF t(2)] t(1) show ?thesis by (auto simp: token_in_def)
qed

text \<open>The newline tokens that \<open>skip_newlines\<close> passes.\<close>

definition newline_measure :: "toml_ctx \<Rightarrow> nat" where
  "newline_measure ctx =
     (if tk_tok (cx_tok ctx) = NEWLINE then 1 + (length (cx_src ctx) - (tk_ptr (cx_tok ctx) + tk_len (cx_tok ctx))) else 0)"

lemma newline_step:
  assumes "tk_tok (cx_tok ctx) = NEWLINE" "next_token ctx d = Some (Inr c)" "\<not> tk_eof (cx_tok c)"
  shows "newline_measure c < newline_measure ctx"
proof -
  from next_token_step [OF assms(2)] assms(3) obtain t where t: "c = ctx\<lparr>cx_tok := t\<rparr>" "token_in (cx_src ctx) t"
    "token_in (cx_src ctx) (cx_tok ctx) \<longrightarrow> tk_ptr (cx_tok ctx) + tk_len (cx_tok ctx) \<le> tk_ptr t"
    "tk_tok t = STRING \<or> tk_len t = 1" by auto
  have "token_in (cx_src ctx) (cx_tok ctx)"
  proof (rule ccontr)
    assume "\<not> token_in (cx_src ctx) (cx_tok ctx)"
    then have "c = ctx\<lparr>cx_tok := set_eof (cx_src ctx) (tk_line (cx_tok ctx) +
        int (length (filter (\<lambda>c. c = LF) (token_text (cx_src ctx) (cx_tok ctx)))))\<rparr>"
      using assms(2) by (auto simp: next_token_def Let_def lex.simps token_in_def ok_def seq_def)
    with assms(3) show False by (simp add: set_eof_def)
  qed
  with t assms(1) show ?thesis by (auto simp: newline_measure_def token_in_def)
qed

function skip_newlines :: "toml_ctx \<Rightarrow> bool \<Rightarrow> toml_ctx parse" where
  "skip_newlines ctx d =
     (if tk_tok (cx_tok ctx) = NEWLINE then
        (case next_token ctx d of
           None \<Rightarrow> None
         | Some (Inl e) \<Rightarrow> fail e
         | Some (Inr c) \<Rightarrow> if tk_eof (cx_tok c) then ok c else skip_newlines c d)
      else ok ctx)"
  by pat_completeness auto
termination by (relation "measure (\<lambda>(ctx, d). newline_measure ctx)") (auto dest: newline_step)

declare skip_newlines.simps [simp del]

section \<open>Values, arrays and inline tables\<close>

text \<open>\<open>is_double\<close> is whether \<open>toml_rtod\<close> accepts the text.\<close>

definition valtype :: "(string \<Rightarrow> bool) \<Rightarrow> string \<Rightarrow> char" where
  "valtype is_double v =
     (if chr_at v 0 = SQUOTE \<or> chr_at v 0 = DQUOTE then CHR ''s''
      else if toml_rtob (Some v) \<noteq> None then CHR ''b''
      else if toml_rtoi (Some v) \<noteq> None then CHR ''i''
      else if is_double v then CHR ''d''
      else (case toml_rtots (Some v) of
          None \<Rightarrow> CHR ''u''
        | Some ts \<Rightarrow> if tm_date ts \<noteq> None \<and> tm_time ts \<noteq> None then CHR ''T''
            else if tm_date ts \<noteq> None then CHR ''D'' else CHR ''t''))"

text \<open>The kind of an array after an element of kind \<open>k\<close>.\<close>

definition mix_kind :: "nat \<Rightarrow> char \<Rightarrow> toml_store \<Rightarrow> toml_store option" where
  "mix_kind arr k st = do {
     a \<leftarrow> get_arr st arr;
     Some (put_arr arr (a\<lparr>ta_kind := (if ta_kind a = NUL then k else if ta_kind a \<noteq> k then CHR ''m'' else ta_kind a)\<rparr>) st) }"

definition set_last_value :: "(string \<Rightarrow> bool) \<Rightarrow> nat \<Rightarrow> string \<Rightarrow> toml_store \<Rightarrow> toml_store option" where
  "set_last_value is_double arr v st = do {
     a \<leftarrow> get_arr st arr;
     let vt = valtype is_double v;
     (if ta_item a = [] then None
      else Some (put_arr arr (a\<lparr>
        ta_item := (ta_item a)[length (ta_item a) - 1 := (last (ta_item a))\<lparr>ai_val := Some v, ai_valtype := vt\<rparr>],
        ta_type := (if length (ta_item a) = 1 then vt else if ta_type a \<noteq> vt then CHR ''m'' else ta_type a)\<rparr>) st)) }"

definition set_last_keyval :: "nat \<Rightarrow> string \<Rightarrow> toml_store \<Rightarrow> toml_store option" where
  "set_last_keyval tab v st = do {
     t \<leftarrow> get_tab st tab;
     (if tt_kval t = [] then None
      else Some (put_tab tab (t\<lparr>tt_kval := (tt_kval t)[length (tt_kval t) - 1 := (fst (last (tt_kval t)), Some v)]\<rparr>) st)) }"

definition set_readonly :: "nat \<Rightarrow> toml_store \<Rightarrow> toml_store option" where
  "set_readonly tab st = do { t \<leftarrow> get_tab st tab; Some (put_tab tab (t\<lparr>tt_readonly := True\<rparr>) st) }"

definition with_store :: "toml_ctx \<Rightarrow> toml_store \<Rightarrow> toml_ctx" where
  "with_store ctx st = ctx\<lparr>cx_store := st\<rparr>"

text \<open>
  \<open>array_loop\<close> and \<open>inline_loop\<close> are the loops of \<open>parse_array\<close> and \<open>parse_inline_table\<close>, behind
  their opening bracket.
\<close>

fun parse_keyval :: "(string \<Rightarrow> bool) \<Rightarrow> nat \<Rightarrow> toml_ctx \<Rightarrow> nat \<Rightarrow> toml_ctx parse"
and array_loop :: "(string \<Rightarrow> bool) \<Rightarrow> nat \<Rightarrow> toml_ctx \<Rightarrow> nat \<Rightarrow> toml_ctx parse"
and inline_loop :: "(string \<Rightarrow> bool) \<Rightarrow> nat \<Rightarrow> toml_ctx \<Rightarrow> nat \<Rightarrow> toml_ctx parse" where
  "parse_keyval dbl 0 ctx tab = None"
| "parse_keyval dbl (Suc n) ctx tab =
     seq (lift (get_tab (cx_store ctx) tab)) (\<lambda>t.
     if tt_readonly t then fail (E_forbid (tk_line (cx_tok ctx)))
     else (let key = cx_tok ctx; src = cx_src ctx in
       seq (eat_token ctx STRING True) (\<lambda>c1.
       if tk_tok (cx_tok c1) = DOT then
         seq (normalize_key src key) (\<lambda>s.
         seq (lift (toml_table_in (cx_store c1) tab s)) (\<lambda>sub.
         seq (case sub of Some p \<Rightarrow> ok (cx_store c1, p)
              | None \<Rightarrow> create_keytable_in_table src (cx_store c1) tab key) (\<lambda>(st, p).
         seq (next_token (with_store c1 st) True) (\<lambda>c3. parse_keyval dbl n c3 p))))
       else if tk_tok (cx_tok c1) \<noteq> EQUAL then fail (E_syntax (tk_line (cx_tok c1)))
       else seq (next_token c1 False) (\<lambda>c2.
         case tk_tok (cx_tok c2) of
           STRING \<Rightarrow>
             seq (create_keyval_in_table src (cx_store c2) tab key) (\<lambda>st.
             seq (lift (set_last_keyval tab (token_text src (cx_tok c2)) st)) (\<lambda>st2.
             next_token (with_store c2 st2) True))
         | LBRACKET \<Rightarrow>
             seq (create_keyarray_in_table src (cx_store c2) tab key NUL) (\<lambda>(st, p).
             seq (eat_token (with_store c2 st) LBRACKET False) (\<lambda>c3. array_loop dbl n c3 p))
         | LBRACE \<Rightarrow>
             seq (create_keytable_in_table src (cx_store c2) tab key) (\<lambda>(st, p).
             seq (eat_token (with_store c2 st) LBRACE True) (\<lambda>c3. inline_loop dbl n c3 p))
         | _ \<Rightarrow> fail (E_syntax (tk_line (cx_tok c2)))))))"
| "array_loop dbl 0 ctx arr = None"
| "array_loop dbl (Suc n) ctx arr =
     seq (skip_newlines ctx False) (\<lambda>c1.
     if tk_tok (cx_tok c1) = RBRACKET then eat_token c1 RBRACKET True
     else seq
       (case tk_tok (cx_tok c1) of
          STRING \<Rightarrow>
            seq (lift (do { s1 \<leftarrow> mix_kind arr (CHR ''v'') (cx_store c1); s2 \<leftarrow> create_value_in_array s1 arr;
                set_last_value dbl arr (token_text (cx_src c1) (cx_tok c1)) s2 })) (\<lambda>st.
            eat_token (with_store c1 st) STRING False)
        | LBRACKET \<Rightarrow>
            seq (lift (do { s1 \<leftarrow> mix_kind arr (CHR ''a'') (cx_store c1); create_array_in_array s1 arr })) (\<lambda>(st, p).
            seq (eat_token (with_store c1 st) LBRACKET False) (\<lambda>c. array_loop dbl n c p))
        | LBRACE \<Rightarrow>
            seq (lift (do { s1 \<leftarrow> mix_kind arr (CHR ''t'') (cx_store c1); create_table_in_array s1 arr })) (\<lambda>(st, p).
            seq (eat_token (with_store c1 st) LBRACE True) (\<lambda>c. inline_loop dbl n c p))
        | _ \<Rightarrow> fail (E_syntax (tk_line (cx_tok c1)))) (\<lambda>c2.
       seq (skip_newlines c2 False) (\<lambda>c3.
       if tk_tok (cx_tok c3) = COMMA then seq (eat_token c3 COMMA False) (\<lambda>c4. array_loop dbl n c4 arr)
       else eat_token c3 RBRACKET True)))"
| "inline_loop dbl 0 ctx tab = None"
| "inline_loop dbl (Suc n) ctx tab =
     (let close = (\<lambda>c. seq (eat_token c RBRACE True) (\<lambda>c'.
            seq (lift (set_readonly tab (cx_store c'))) (\<lambda>st. ok (with_store c' st))))
      in if tk_tok (cx_tok ctx) = NEWLINE then fail (E_syntax (tk_line (cx_tok ctx)))
         else if tk_tok (cx_tok ctx) = RBRACE then close ctx
         else if tk_tok (cx_tok ctx) \<noteq> STRING then fail (E_syntax (tk_line (cx_tok ctx)))
         else seq (parse_keyval dbl n ctx tab) (\<lambda>c1.
           if tk_tok (cx_tok c1) = NEWLINE then fail (E_syntax (tk_line (cx_tok c1)))
           else if tk_tok (cx_tok c1) = COMMA then seq (eat_token c1 COMMA True) (\<lambda>c2. inline_loop dbl n c2 tab)
           else close c1))"

section \<open>Table headers\<close>

text \<open>The path holds at most ten keys; \<open>n\<close> is how many more there is room for.\<close>

fun fill_tabpath_loop :: "nat \<Rightarrow> int \<Rightarrow> toml_ctx \<Rightarrow> toml_ctx parse" where
  "fill_tabpath_loop 0 lineno ctx = fail (E_syntax lineno)"
| "fill_tabpath_loop (Suc n) lineno ctx =
     (if tk_tok (cx_tok ctx) \<noteq> STRING then fail (E_syntax lineno)
      else seq (normalize_key (cx_src ctx) (cx_tok ctx)) (\<lambda>key.
        seq (next_token (ctx\<lparr>cx_tpath := cx_tpath ctx @ [(key, cx_tok ctx)]\<rparr>) True) (\<lambda>c1.
        if tk_tok (cx_tok c1) = RBRACKET then ok c1
        else if tk_tok (cx_tok c1) \<noteq> DOT then fail (E_syntax lineno)
        else seq (next_token c1 True) (\<lambda>c2. fill_tabpath_loop n lineno c2))))"

definition fill_tabpath :: "toml_ctx \<Rightarrow> toml_ctx parse" where
  "fill_tabpath ctx = fill_tabpath_loop 10 (tk_line (cx_tok ctx)) (ctx\<lparr>cx_tpath := []\<rparr>)"

fun walk_path :: "toml_store \<Rightarrow> nat \<Rightarrow> (string \<times> token) list \<Rightarrow> (toml_store \<times> nat) parse" where
  "walk_path st cur [] = ok (st, cur)"
| "walk_path st cur ((k, tk) # path) =
     seq (lift (check_key st cur k)) (\<lambda>e.
     case e of
       Some (KeyTab p) \<Rightarrow> walk_path st p path
     | Some (KeyArr a) \<Rightarrow>
         seq (lift (get_arr st a)) (\<lambda>arr.
         if ta_kind arr \<noteq> CHR ''t'' then fail E_internal
         else if ta_item arr = [] then fail E_internal
         else (case ai_tab (last (ta_item arr)) of None \<Rightarrow> None | Some p \<Rightarrow> walk_path st p path))
     | Some KeyVal \<Rightarrow> fail (E_keyexists (tk_line tk))
     | None \<Rightarrow>
         seq (lift (add_table st cur (empty_table\<lparr>tt_key := Some k, tt_implicit := True\<rparr>))) (\<lambda>(st', p).
         walk_path st' p path))"

definition walk_tabpath :: "toml_ctx \<Rightarrow> toml_ctx parse" where
  "walk_tabpath ctx = seq (walk_path (cx_store ctx) 0 (cx_tpath ctx)) (\<lambda>(st, p). ok (ctx\<lparr>cx_store := st, cx_curtab := p\<rparr>))"

definition next_is :: "toml_ctx \<Rightarrow> char \<Rightarrow> bool" where
  "next_is ctx ch \<longleftrightarrow> tk_ptr (cx_tok ctx) + 1 < length (cx_src ctx) \<and> cx_src ctx ! (tk_ptr (cx_tok ctx) + 1) = ch"

text \<open>The last key of the header: a table, or an array of tables that gets one more.\<close>

definition select_table :: "toml_ctx \<Rightarrow> token \<Rightarrow> toml_ctx parse" where
  "select_table ctx z =
     seq (create_keytable_in_table (cx_src ctx) (cx_store ctx) (cx_curtab ctx) z) (\<lambda>(st, p).
     ok (ctx\<lparr>cx_store := st, cx_curtab := p\<rparr>))"

definition select_array :: "toml_ctx \<Rightarrow> token \<Rightarrow> toml_ctx parse" where
  "select_array ctx z =
     seq (normalize_key (cx_src ctx) z) (\<lambda>zstr.
     seq (lift (toml_array_in (cx_store ctx) (cx_curtab ctx) zstr)) (\<lambda>found.
     seq (case found of Some p \<Rightarrow> ok (cx_store ctx, p)
          | None \<Rightarrow> create_keyarray_in_table (cx_src ctx) (cx_store ctx) (cx_curtab ctx) z (CHR ''t'')) (\<lambda>(st, p).
     seq (lift (get_arr st p)) (\<lambda>a.
     if ta_kind a \<noteq> CHR ''t'' then fail (E_syntax (tk_line z))
     else seq (lift (do {
         (st2, q) \<leftarrow> create_table_in_array st p;
         t \<leftarrow> get_tab st2 q;
         Some (put_tab q (t\<lparr>tt_key := Some ''__anon__''\<rparr>) st2, q) })) (\<lambda>(st3, q).
       ok (ctx\<lparr>cx_store := st3, cx_curtab := q\<rparr>))))))"

definition parse_select :: "toml_ctx \<Rightarrow> toml_ctx parse" where
  "parse_select ctx =
     (if tk_tok (cx_tok ctx) \<noteq> LBRACKET then None
      else (let llb = next_is ctx (CHR ''['') in
        seq (eat_token ctx LBRACKET True) (\<lambda>c0.
        seq (if llb then (if tk_tok (cx_tok c0) \<noteq> LBRACKET then None else eat_token c0 LBRACKET True) else ok c0) (\<lambda>c1.
        seq (fill_tabpath c1) (\<lambda>c2.
        (let z = snd (last (cx_tpath c2)) in
        seq (walk_tabpath (c2\<lparr>cx_tpath := butlast (cx_tpath c2)\<rparr>)) (\<lambda>c3.
        seq (if llb then select_array c3 z else select_table c3 z) (\<lambda>c4.
        if tk_tok (cx_tok c4) \<noteq> RBRACKET then fail (E_syntax (tk_line (cx_tok c4)))
        else seq (if llb then (if \<not> next_is c4 (CHR '']'') then fail (E_syntax (tk_line (cx_tok c4)))
                     else eat_token c4 RBRACKET True) else ok c4) (\<lambda>c5.
        seq (eat_token c5 RBRACKET True) (\<lambda>c6.
        if tk_tok (cx_tok c6) \<noteq> NEWLINE then fail (E_syntax (tk_line (cx_tok c6))) else ok c6))))))))))"

section \<open>The file\<close>

fun toml_lines :: "(string \<Rightarrow> bool) \<Rightarrow> nat \<Rightarrow> toml_ctx \<Rightarrow> toml_ctx parse" where
  "toml_lines dbl 0 ctx = None"
| "toml_lines dbl (Suc n) ctx =
     (if tk_eof (cx_tok ctx) then ok ctx
      else case tk_tok (cx_tok ctx) of
          NEWLINE \<Rightarrow> seq (next_token ctx True) (\<lambda>c. toml_lines dbl n c)
        | STRING \<Rightarrow>
            seq (parse_keyval dbl n ctx (cx_curtab ctx)) (\<lambda>c1.
            if tk_tok (cx_tok c1) \<noteq> NEWLINE then fail (E_syntax (tk_line (cx_tok c1)))
            else seq (eat_token c1 NEWLINE True) (\<lambda>c2. toml_lines dbl n c2))
        | LBRACKET \<Rightarrow> seq (parse_select ctx) (\<lambda>c. toml_lines dbl n c)
        | _ \<Rightarrow> fail (E_syntax (tk_line (cx_tok ctx))))"

text \<open>The root table is the table 0 of the store.\<close>

definition toml_parse :: "(string \<Rightarrow> bool) \<Rightarrow> nat \<Rightarrow> string \<Rightarrow> toml_store parse" where
  "toml_parse dbl n conf =
     seq (toml_lines dbl n \<lparr>cx_src = conf, cx_tok = mk_token NEWLINE 1 0 0,
        cx_store = \<lparr>ts_tabs = [empty_table], ts_arrs = []\<rparr>, cx_curtab = 0, cx_tpath = []\<rparr>)
       (\<lambda>c. ok (cx_store c))"

text \<open>
  Reading the file: \<open>room\<close> is the part of the block behind the bytes read. \<open>fread\<close> gives fewer
  bytes than it was asked for at the end of the file only; \<open>bad k\<close> is whether the call \<open>k\<close> of
  it fails.
\<close>

function toml_read_loop :: "(nat \<Rightarrow> bool) \<Rightarrow> nat \<Rightarrow> string \<Rightarrow> string \<Rightarrow> nat \<Rightarrow> (string \<times> nat) option" where
  "toml_read_loop bad k rest buf room =
     (let space = (if room = 0 then 1000 else room); n = min space (length rest) in
      if bad k then None
      else if n < space then Some (buf @ rest, space - n)
      else toml_read_loop bad (k + 1) (drop n rest) (buf @ take n rest) 0)"
  by pat_completeness auto
termination by (relation "measure (\<lambda>(bad, k, rest, buf, room). length rest)") (auto simp: min_def split: if_splits)

declare toml_read_loop.simps [simp del]

definition toml_parse_file :: "(string \<Rightarrow> bool) \<Rightarrow> nat \<Rightarrow> (nat \<Rightarrow> bool) \<Rightarrow> string \<Rightarrow> toml_store parse" where
  "toml_parse_file dbl n bad file =
     (case toml_read_loop bad 0 file [] 0 of
        None \<Rightarrow> fail E_read
      | Some (buf, room) \<Rightarrow>
          let block = (if room = 0 then length buf + 1 else length buf + room) in
          if length buf < block then toml_parse dbl n (c_string (buf @ [NUL])) else None)"

lemma read_loop_all: "\<not> (\<exists>j. bad j) \<Longrightarrow> \<exists>room. toml_read_loop bad k rest buf r = Some (buf @ rest, room) \<and> 0 < room"
proof (induction bad k rest buf r rule: toml_read_loop.induct)
  case (1 bad k rest buf room)
  obtain space :: nat where s: "space = (if room = 0 then 1000 else room)" by simp
  have b: "\<not> bad k" using 1(2) by blast
  have eq: "toml_read_loop bad k rest buf room =
      (if min space (length rest) < space then Some (buf @ rest, space - min space (length rest))
       else toml_read_loop bad (k + 1) (drop (min space (length rest)) rest) (buf @ take (min space (length rest)) rest) 0)"
    by (subst toml_read_loop.simps) (simp only: Let_def b if_False s)
  show ?case
  proof (cases "min space (length rest) < space")
    case False
    from 1(1) [OF s refl b False 1(2)] show ?thesis
      unfolding eq if_not_P [OF False] append_assoc append_take_drop_id .
  next
    case True
    then have "0 < space - min space (length rest)" by (rule zero_less_diff [THEN iffD2])
    then show ?thesis unfolding eq if_P [OF True] by blast
  qed
qed

end
