(* ===== verification/Toml_Safe.thy ===== *)
theory Toml_Safe
  imports Toml_Parse
begin

text \<open>
  The parser of the configuration file is memory safe and always ends: with the fuel of
  \<open>toml_parse\<close> above twice the length of the source it gives a tree or an error on every
  input, and the tree satisfies \<open>toml_ok\<close> (what the tables refer to) and \<open>arrs_ok\<close> (what the
  items of the arrays refer to).
\<close>

section \<open>Steps that are defined\<close>

definition safe :: "'a parse \<Rightarrow> ('a \<Rightarrow> bool) \<Rightarrow> bool" where
  "safe m Q = (case m of None \<Rightarrow> False | Some (Inl _) \<Rightarrow> True | Some (Inr x) \<Rightarrow> Q x)"

lemma safe_simps [simp]: "safe (ok x) Q = Q x" "safe (fail e) Q" "\<not> safe None Q"
  "safe (lift (Some x)) Q = Q x" "safe (lift m) Q = runs m Q"
  by (auto simp: safe_def ok_def fail_def lift_def runs_def split: option.split)

lemma safe_seq: "safe (seq m f) Q = safe m (\<lambda>x. safe (f x) Q)"
  by (simp add: safe_def seq_def split: option.split sum.split)

lemma safe_mono: "safe m P \<Longrightarrow> (\<And>x. P x \<Longrightarrow> Q x) \<Longrightarrow> safe m Q"
  by (auto simp: safe_def split: option.splits sum.splits)

lemma safe_seqI: "safe m P \<Longrightarrow> (\<And>x. P x \<Longrightarrow> safe (f x) Q) \<Longrightarrow> safe (seq m f) Q"
  unfolding safe_seq by (rule safe_mono)

lemma safeI: "m \<noteq> None \<Longrightarrow> (\<And>x. m = Some (Inr x) \<Longrightarrow> Q x) \<Longrightarrow> safe m Q"
  by (auto simp: safe_def split: option.split sum.split)

lemma lex_defined: "lex src lineno p d \<noteq> None"
proof (induction src lineno p d rule: lex.induct)
  case (1 src lineno p d)
  have s: "scan_string src p lineno d \<noteq> None"
    by (simp add: scan_string_def Let_def ok_def fail_def split: option.split)
  show ?case
  proof (cases "p < length src")
    case True
    then show ?thesis using 1 [OF True refl refl] s
      by (subst lex.simps) (auto simp: Let_def ok_def)
  qed (simp add: lex.simps ok_def)
qed

lemma normalize_defined: "normalize_key src t \<noteq> None"
proof -
  have nb: "norm_basic_str s b m = None \<longleftrightarrow> False" for s b m
    using norm_basic_defined [of "[]" 0 m b s] by (simp add: norm_basic_str_def)
  show ?thesis by (auto simp: normalize_key_def Let_def ok_def fail_def nb split: option.split)
qed

section \<open>The tree\<close>

text \<open>
  An item of an array is a value, an array or a table, and only one of them: what it refers to is there,
  among \<open>nt\<close> tables and \<open>na\<close> arrays, and it is of the kind \<open>k\<close> of its array, or the array is mixed.
\<close>

definition item_ok :: "nat \<Rightarrow> nat \<Rightarrow> char \<Rightarrow> toml_arritem \<Rightarrow> bool" where
  "item_ok nt na k it = (case (ai_val it, ai_arr it, ai_tab it) of
       (Some _, None, None) \<Rightarrow> k = CHR ''v'' \<or> k = CHR ''m''
     | (None, Some p, None) \<Rightarrow> p < na \<and> (k = CHR ''a'' \<or> k = CHR ''m'')
     | (None, None, Some p) \<Rightarrow> p < nt \<and> (k = CHR ''t'' \<or> k = CHR ''m'')
     | _ \<Rightarrow> False)"

definition items_ok :: "nat \<Rightarrow> nat \<Rightarrow> toml_array \<Rightarrow> bool" where
  "items_ok nt na a \<longleftrightarrow> (\<forall>it \<in> set (ta_item a). item_ok nt na (ta_kind a) it)"

definition arrs_ok :: "toml_store \<Rightarrow> bool" where
  "arrs_ok st \<longleftrightarrow> (\<forall>a \<in> set (ts_arrs st). items_ok (length (ts_tabs st)) (length (ts_arrs st)) a)"

definition store_ok :: "toml_store \<Rightarrow> bool" where
  "store_ok st \<longleftrightarrow> toml_ok st \<and> arrs_ok st"

text \<open>Tables and arrays are never removed: a store is below every store that the parser makes of it.\<close>

instantiation toml_store_ext :: (type) preorder
begin

definition less_eq_toml_store_ext :: "'a toml_store_scheme \<Rightarrow> 'a toml_store_scheme \<Rightarrow> bool" where
  "st \<le> st' \<longleftrightarrow> length (ts_tabs st) \<le> length (ts_tabs st') \<and> length (ts_arrs st) \<le> length (ts_arrs st')"

definition less_toml_store_ext :: "'a toml_store_scheme \<Rightarrow> 'a toml_store_scheme \<Rightarrow> bool" where
  "(st :: 'a toml_store_scheme) < st' \<longleftrightarrow> st \<le> st' \<and> \<not> st' \<le> st"

instance
  by standard (auto simp: less_eq_toml_store_ext_def less_toml_store_ext_def)

end

lemmas store_le_def = less_eq_toml_store_ext_def

lemma get_tab_runs [simp]: "runs (get_tab st i) Q \<longleftrightarrow> i < length (ts_tabs st) \<and> Q (ts_tabs st ! i)"
  by (simp add: get_tab_def deref_def)

lemma get_arr_runs [simp]: "runs (get_arr st i) Q \<longleftrightarrow> i < length (ts_arrs st) \<and> Q (ts_arrs st ! i)"
  by (simp add: get_arr_def deref_def)

lemma item_ok_mono:
  assumes "item_ok nt na k it" "nt \<le> mt" "na \<le> ma" "k' = k \<or> k' = CHR ''m''"
  shows "item_ok mt ma k' it"
  using assms by (fastforce simp: item_ok_def split: option.splits)

lemma items_ok_mono: "items_ok nt na a \<Longrightarrow> nt \<le> mt \<Longrightarrow> na \<le> ma \<Longrightarrow> items_ok mt ma a"
  unfolding items_ok_def by (meson item_ok_mono)

lemma items_ok_nul: "items_ok nt na a \<Longrightarrow> ta_kind a = NUL \<Longrightarrow> ta_item a = []"
  by (cases "ta_item a") (auto simp: items_ok_def item_ok_def split: option.splits)

lemma items_ok_nil: "ta_item a = [] \<Longrightarrow> items_ok nt na a"
  by (simp add: items_ok_def)

lemma items_ok_add:
  assumes "items_ok nt na a" "nt \<le> mt" "na \<le> ma" "item_ok mt ma (ta_kind a) it"
  shows "items_ok mt ma (a\<lparr>ta_item := ta_item a @ [it]\<rparr>)"
  using items_ok_mono [OF assms(1-3)] assms(4) by (simp add: items_ok_def)

lemma arrs_ok_tabs:
  assumes "arrs_ok st" "ts_arrs st' = ts_arrs st" "length (ts_tabs st) \<le> length (ts_tabs st')"
  shows "arrs_ok st'"
  using assms unfolding arrs_ok_def by (metis items_ok_mono order_refl)

lemma create_keyval_safe:
  assumes "store_ok st" "tab < length (ts_tabs st)"
  shows "safe (create_keyval_in_table src st tab tok)
     (\<lambda>s. store_ok s \<and> st \<le> s \<and> tt_kval (ts_tabs s ! tab) \<noteq> [])"
proof (rule safeI)
  have ok: "toml_ok st" and r: "refs_ok st" using assms(1) by (simp_all add: store_ok_def toml_ok_def)
  have t: "get_tab st tab = Some (ts_tabs st ! tab)" using assms(2) by (simp add: get_tab_iff)
  show "create_keyval_in_table src st tab tok \<noteq> None"
    using normalize_defined [of src tok]
    by (auto simp: create_keyval_in_table_def seq_def lift_def fail_def key_kind_eq [OF r t] t split: option.split sum.split)
  fix s assume "create_keyval_in_table src st tab tok = Some (Inr s)"
  from create_keyval_ok [OF ok this] obtain u k where u: "get_tab st tab = Some u"
    "s = put_tab tab (u\<lparr>tt_kval := tt_kval u @ [(k, None)]\<rparr>) st" "toml_ok s" by metis
  have "arrs_ok s" by (rule arrs_ok_tabs [of st]) (use assms(1) in \<open>simp_all add: u(2) put_tab_def store_ok_def\<close>)
  with u assms(2) show "store_ok s \<and> st \<le> s \<and> tt_kval (ts_tabs s ! tab) \<noteq> []"
    by (simp add: store_ok_def store_le_def put_tab_def)
qed

lemma put_same_names:
  assumes "store_ok st" "tab < length (ts_tabs st)" "tt_key u = tt_key (ts_tabs st ! tab)"
    "map fst (tt_kval u) = map fst (tt_kval (ts_tabs st ! tab))" "tt_arr u = tt_arr (ts_tabs st ! tab)"
    "tt_tab u = tt_tab (ts_tabs st ! tab)"
  shows "store_ok (put_tab tab u st)" "st \<le> (put_tab tab u st)"
proof -
  have t: "get_tab st tab = Some (ts_tabs st ! tab)" using assms(2) by (simp add: get_tab_iff)
  have ok: "toml_ok st" and r: "refs_ok st" using assms(1) by (simp_all add: store_ok_def toml_ok_def)
  have n: "arr_name (put_tab tab u st) p = arr_name st p" "tab_name (put_tab tab u st) p = tab_name st p" for p
    by (rule put_tab_names [OF t assms(3)])+
  have "toml_ok (put_tab tab u st)"
  proof (rule toml_ok_step [OF ok put_tab_kept [OF t assms(3)], where t' = u])
    show "v \<in> set (ts_tabs st) \<or> v = u \<or> tt_kval v = [] \<and> tt_arr v = [] \<and> tt_tab v = []"
      if "v \<in> set (ts_tabs (put_tab tab u st))" for v
      using that set_update_subset_insert [of "ts_tabs st" tab u] by (auto simp: put_tab_def)
    show "\<forall>p \<in> set (tt_arr u). arr_name (put_tab tab u st) p \<noteq> None" "\<forall>p \<in> set (tt_tab u). tab_name (put_tab tab u st) p \<noteq> None"
      using refs_okD [OF r t] by (simp_all add: n assms)
    show "distinct (key_list (put_tab tab u st) u)"
      using ok nth_mem [OF assms(2)] by (simp add: key_list_def n assms toml_ok_def)
  qed
  moreover have "arrs_ok (put_tab tab u st)"
    by (rule arrs_ok_tabs [of st]) (use assms(1) in \<open>simp_all add: put_tab_def store_ok_def\<close>)
  ultimately show "store_ok (put_tab tab u st)" "st \<le> (put_tab tab u st)"
    by (simp_all add: store_ok_def store_le_def put_tab_def)
qed

lemma set_last_keyval_runs:
  assumes "store_ok st" "tab < length (ts_tabs st)" "tt_kval (ts_tabs st ! tab) \<noteq> []"
  shows "runs (set_last_keyval tab v st) (\<lambda>s. store_ok s \<and> st \<le> s)"
proof -
  let ?k = "tt_kval (ts_tabs st ! tab)"
  have "map fst (?k[length ?k - 1 := (fst (last ?k), Some v)]) = map fst ?k"
    using assms(3) list_update_id [of "map fst ?k" "length ?k - 1"] by (simp add: map_update last_conv_nth)
  with put_same_names [OF assms(1,2), of "(ts_tabs st ! tab)\<lparr>tt_kval := ?k[length ?k - 1 := (fst (last ?k), Some v)]\<rparr>"] assms
  show ?thesis by (simp add: set_last_keyval_def get_tab_def deref_def)
qed

lemma set_readonly_runs:
  assumes "store_ok st" "tab < length (ts_tabs st)"
  shows "runs (set_readonly tab st) (\<lambda>s. store_ok s \<and> st \<le> s)"
  using put_same_names [OF assms, of "(ts_tabs st ! tab)\<lparr>tt_readonly := True\<rparr>"] assms(2)
  by (simp add: set_readonly_def wp)

lemma get_tab_valid: "i < length (ts_tabs st) \<Longrightarrow> get_tab st i = Some (ts_tabs st ! i)"
  by (simp add: get_tab_iff)

lemma check_key_runs:
  assumes "refs_ok st" "tab < length (ts_tabs st)"
  shows "runs (check_key st tab k) (\<lambda>e. (\<forall>p. e = Some (KeyTab p) \<longrightarrow> p < length (ts_tabs st)) \<and>
     (\<forall>p. e = Some (KeyArr p) \<longrightarrow> p < length (ts_arrs st)) \<and>
     (e = None \<longrightarrow> k \<notin> set (key_list st (ts_tabs st ! tab))))"
proof -
  let ?t = "ts_tabs st ! tab"
  note t = get_tab_valid [OF assms(2)]
  note refs = refs_okD [OF assms(1) t]
  have "p < length (ts_tabs st)" if "List.find (\<lambda>p. the (tab_name st p) = k) (tt_tab ?t) = Some p" for p
    using that refs(2) tab_name_valid [of st p] by (auto simp: find_Some_iff)
  moreover have "p < length (ts_arrs st)" if "List.find (\<lambda>p. the (arr_name st p) = k) (tt_arr ?t) = Some p" for p
    using that refs(1) arr_name_valid [of st p] by (auto simp: find_Some_iff)
  ultimately show ?thesis using check_key_none [OF assms(1) t, of k]
    unfolding check_key_eq [OF assms(1) t] by (auto split: option.splits)
qed

lemma add_table_safe:
  assumes "store_ok st" "tab < length (ts_tabs st)" "k \<notin> set (key_list st (ts_tabs st ! tab))"
  shows "runs (add_table st tab (empty_table\<lparr>tt_key := Some k, tt_implicit := im\<rparr>))
    (\<lambda>(s, p). store_ok s \<and> st \<le> s \<and> p < length (ts_tabs s))"
proof -
  have ok: "toml_ok st" using assms(1) by (simp add: store_ok_def)
  note t = get_tab_valid [OF assms(2)]
  obtain s p where r: "add_table st tab (empty_table\<lparr>tt_key := Some k, tt_implicit := im\<rparr>) = Some (s, p)"
    by (simp add: add_table_def t Let_def)
  from add_table_ok [OF ok t assms(3) r] have "toml_ok s" by simp
  moreover have sp: "length (ts_tabs st) \<le> length (ts_tabs s)" "ts_arrs s = ts_arrs st" "p < length (ts_tabs s)"
    using r by (auto simp: add_table_def t Let_def)
  moreover have "arrs_ok s" by (rule arrs_ok_tabs [of st]) (use assms(1) sp in \<open>simp_all add: store_ok_def\<close>)
  ultimately show ?thesis using r by (simp add: store_ok_def store_le_def)
qed

lemma create_keytable_safe:
  assumes "store_ok st" "tab < length (ts_tabs st)"
  shows "safe (create_keytable_in_table src st tab tok) (\<lambda>(s, p). store_ok s \<and> st \<le> s \<and> p < length (ts_tabs s))"
  unfolding create_keytable_in_table_def
proof (rule safe_seqI [OF safeI [OF normalize_defined]], rule TrueI, rule safe_seqI)
  fix k
  have r: "refs_ok st" using assms(1) by (simp add: store_ok_def toml_ok_def)
  show "safe (lift (check_key st tab k)) (\<lambda>e. (\<forall>p. e = Some (KeyTab p) \<longrightarrow> p < length (ts_tabs st)) \<and>
     (\<forall>p. e = Some (KeyArr p) \<longrightarrow> p < length (ts_arrs st)) \<and>
     (e = None \<longrightarrow> k \<notin> set (key_list st (ts_tabs st ! tab))))"
    using check_key_runs [OF r assms(2), of k] by simp
  fix e :: "key_entry option"
  assume e: "(\<forall>p. e = Some (KeyTab p) \<longrightarrow> p < length (ts_tabs st)) \<and>
     (\<forall>p. e = Some (KeyArr p) \<longrightarrow> p < length (ts_arrs st)) \<and> (e = None \<longrightarrow> k \<notin> set (key_list st (ts_tabs st ! tab)))"
  show "safe (case e of Some (KeyTab p) \<Rightarrow>
         seq (lift (get_tab st p)) (\<lambda>d.
         if tt_implicit d then ok (put_tab p (d\<lparr>tt_implicit := False\<rparr>) st, p)
         else fail (E_keyexists (tk_line tok)))
     | Some _ \<Rightarrow> fail (E_keyexists (tk_line tok))
     | None \<Rightarrow> lift (add_table st tab (empty_table\<lparr>tt_key := Some k\<rparr>)))
     (\<lambda>(s, p). store_ok s \<and> st \<le> s \<and> p < length (ts_tabs s))"
  proof (cases e)
    case None
    with e add_table_safe [OF assms, of k False] show ?thesis by (simp add: empty_table_def)
  next
    case (Some x)
    show ?thesis
    proof (cases x)
      case (KeyTab p)
      with Some e have p: "p < length (ts_tabs st)" by simp
      from put_same_names [OF assms(1) p, of "(ts_tabs st ! p)\<lparr>tt_implicit := False\<rparr>"] p
      show ?thesis by (simp add: Some KeyTab safe_seq put_tab_def)
    qed (simp_all add: Some)
  qed
qed

lemma arrays_step:
  assumes "store_ok st" and tabs: "ts_tabs st' = ts_tabs st @ us" "\<forall>u \<in> set us. tt_kval u = [] \<and> tt_arr u = [] \<and> tt_tab u = []"
    and len: "length (ts_arrs st) \<le> length (ts_arrs st')"
    and keys: "\<And>p. p < length (ts_arrs st) \<Longrightarrow> ta_key (ts_arrs st' ! p) = ta_key (ts_arrs st ! p)"
    and arrs: "arrs_ok st'"
  shows "store_ok st' \<and> st \<le> st'"
proof -
  have "toml_ok st'"
  proof (rule toml_ok_step [where st = st and t' = empty_table])
    show "toml_ok st" using assms(1) by (simp add: store_ok_def)
    show "names_kept st st'" using len keys
      by (auto simp: names_kept_def arr_name_def tab_name_def get_arr_def get_tab_def deref_def tabs(1) nth_append
          split: if_splits Option.bind_splits)
    show "u \<in> set (ts_tabs st) \<or> u = empty_table \<or> tt_kval u = [] \<and> tt_arr u = [] \<and> tt_tab u = []"
      if "u \<in> set (ts_tabs st')" for u using that tabs by auto
  qed (simp_all add: empty_table_def key_list_def)
  with arrs len tabs(1) show ?thesis by (simp add: store_ok_def store_le_def)
qed

lemma store_items:
  "store_ok st \<Longrightarrow> i < length (ts_arrs st) \<Longrightarrow> items_ok (length (ts_tabs st)) (length (ts_arrs st)) (ts_arrs st ! i)"
  by (simp add: store_ok_def arrs_ok_def)

text \<open>An array is replaced, and tables and arrays are added behind.\<close>

lemma replace_array:
  assumes ok: "store_ok st" and i: "arr < length (ts_arrs st)" and key: "ta_key a = ta_key (ts_arrs st ! arr)"
    and a: "items_ok (length (ts_tabs st) + length us) (length (ts_arrs st) + length bs) a"
    and us: "\<forall>u \<in> set us. tt_kval u = [] \<and> tt_arr u = [] \<and> tt_tab u = []" and bs: "\<forall>b \<in> set bs. ta_item b = []"
    and st': "st' = \<lparr>ts_tabs = ts_tabs st @ us, ts_arrs = (ts_arrs st)[arr := a] @ bs\<rparr>"
  shows "store_ok st' \<and> st \<le> st'"
proof (rule arrays_step [OF ok _ us])
  show "ts_tabs st' = ts_tabs st @ us" "length (ts_arrs st) \<le> length (ts_arrs st')" by (simp_all add: st')
  show "ta_key (ts_arrs st' ! p) = ta_key (ts_arrs st ! p)" if "p < length (ts_arrs st)" for p
    using that key by (cases "p = arr") (simp_all add: st' nth_append)
  have old: "items_ok (length (ts_tabs st) + length us) (length (ts_arrs st) + length bs) b" if "b \<in> set (ts_arrs st)" for b
    using ok that by (auto simp: store_ok_def arrs_ok_def intro: items_ok_mono)
  show "arrs_ok st'" unfolding arrs_ok_def
  proof
    fix b assume "b \<in> set (ts_arrs st')"
    then have "b \<in> set (ts_arrs st) \<or> b = a \<or> b \<in> set bs"
      using set_update_subset_insert [of "ts_arrs st" arr a] by (auto simp: st')
    with old a bs show "items_ok (length (ts_tabs st')) (length (ts_arrs st')) b" by (auto simp: st' items_ok_def)
  qed
qed

lemma create_keyarray_safe:
  assumes "store_ok st" "tab < length (ts_tabs st)"
  shows "safe (create_keyarray_in_table src st tab tok kind) (\<lambda>(s, p). store_ok s \<and> st \<le> s \<and> p < length (ts_arrs s))"
proof (rule safeI)
  have ok: "toml_ok st" and r: "refs_ok st" using assms(1) by (simp_all add: store_ok_def toml_ok_def)
  note t = get_tab_valid [OF assms(2)]
  show "create_keyarray_in_table src st tab tok kind \<noteq> None"
    using normalize_defined [of src tok]
    by (auto simp: create_keyarray_in_table_def seq_def lift_def fail_def key_kind_eq [OF r t] t Let_def
        split: option.split sum.split)
  fix x assume run: "create_keyarray_in_table src st tab tok kind = Some (Inr x)"
  obtain s p where x: "x = (s, p)" by (cases x)
  from create_keyarray_ok [OF ok run [unfolded x]] have "toml_ok s" by metis
  moreover have s: "ts_arrs s = ts_arrs st @ [empty_array\<lparr>ta_key := ta_key (last (ts_arrs s)), ta_kind := kind\<rparr>]"
    "length (ts_tabs s) = length (ts_tabs st)" "p = length (ts_arrs st)"
    using run x by (auto simp: create_keyarray_in_table_def seq_Some lift_Some put_tab_def Let_def split: if_splits Option.bind_splits)
  have "arrs_ok s"
    using assms(1) unfolding arrs_ok_def store_ok_def s(2)
    by (subst (1 2) s(1)) (auto simp: empty_array_def intro: items_ok_mono items_ok_nil)
  ultimately show "case x of (s, p) \<Rightarrow> store_ok s \<and> st \<le> s \<and> p < length (ts_arrs s)"
    using s by (simp add: x store_ok_def store_le_def) (metis length_append_singleton lessI less_imp_le)
qed

lemma put_arr_alt: "put_arr arr a st = \<lparr>ts_tabs = ts_tabs st @ [], ts_arrs = (ts_arrs st)[arr := a] @ []\<rparr>"
  by (cases st) (simp add: put_arr_def)

text \<open>The element that the loop of \<open>parse_array\<close> adds.\<close>

lemma mix_kind_eq:
  assumes "store_ok st" "arr < length (ts_arrs st)" "k \<noteq> NUL"
  obtains a where "mix_kind arr k st = Some (put_arr arr a st)" "ta_key a = ta_key (ts_arrs st ! arr)"
    "ta_kind a = k \<or> ta_kind a = CHR ''m''" "items_ok (length (ts_tabs st)) (length (ts_arrs st)) a"
proof -
  let ?b = "ts_arrs st ! arr"
  let ?a = "?b\<lparr>ta_kind := (if ta_kind ?b = NUL then k else if ta_kind ?b \<noteq> k then CHR ''m'' else ta_kind ?b)\<rparr>"
  note b = store_items [OF assms(1,2)]
  have "items_ok (length (ts_tabs st)) (length (ts_arrs st)) ?a"
    using b items_ok_nul [OF b] by (auto simp: items_ok_def intro: item_ok_mono)
  moreover have "mix_kind arr k st = Some (put_arr arr ?a st)"
    using assms(2) by (simp add: mix_kind_def get_arr_def deref_def)
  ultimately show thesis using that [of ?a] by auto
qed

lemma put_get_arr [simp]: "arr < length (ts_arrs st) \<Longrightarrow> get_arr (put_arr arr a st) arr = Some a"
  by (simp add: put_arr_def get_arr_def deref_def)

lemma put_put_arr [simp]: "put_arr arr b (put_arr arr a st) = put_arr arr b st"
  by (simp add: put_arr_def)

lemma add_value_runs:
  assumes "store_ok st" "arr < length (ts_arrs st)"
  shows "runs (do { s1 \<leftarrow> mix_kind arr (CHR ''v'') st; s2 \<leftarrow> create_value_in_array s1 arr; set_last_value dbl arr v s2 })
    (\<lambda>s. store_ok s \<and> st \<le> s)"
proof -
  obtain a where a: "mix_kind arr (CHR ''v'') st = Some (put_arr arr a st)" "ta_key a = ta_key (ts_arrs st ! arr)"
    "ta_kind a = CHR ''v'' \<or> ta_kind a = CHR ''m''" "items_ok (length (ts_tabs st)) (length (ts_arrs st)) a"
    by (rule mix_kind_eq [OF assms, of "CHR ''v''"]) auto
  let ?it = "empty_item\<lparr>ai_val := Some v, ai_valtype := valtype dbl v\<rparr>"
  let ?b = "a\<lparr>ta_item := ta_item a @ [empty_item]\<rparr>"
  obtain t where c: "set_last_value dbl arr v (put_arr arr ?b st) =
      Some (put_arr arr (a\<lparr>ta_item := ta_item a @ [?it], ta_type := t\<rparr>) st)"
    using assms(2) by (simp add: set_last_value_def Let_def)
  let ?c = "a\<lparr>ta_item := ta_item a @ [?it], ta_type := t\<rparr>"
  have it: "item_ok (length (ts_tabs st)) (length (ts_arrs st)) (ta_kind a) ?it"
    using a(3) by (auto simp: item_ok_def empty_item_def)
  have "items_ok (length (ts_tabs st) + length ([] :: toml_table list)) (length (ts_arrs st) + length ([] :: toml_array list)) ?c"
    using items_ok_add [OF a(4), of "length (ts_tabs st)" "length (ts_arrs st)" ?it] it by (simp add: items_ok_def)
  then have "store_ok (put_arr arr ?c st) \<and> st \<le> (put_arr arr ?c st)"
    by (rule replace_array [OF assms _ _ _ _ put_arr_alt, rotated]) (simp_all add: a(2))
  with a(1) c assms(2) show ?thesis
    by (simp add: create_value_in_array_def add_item_def)
qed

lemma add_array_runs:
  assumes "store_ok st" "arr < length (ts_arrs st)"
  shows "runs (do { s1 \<leftarrow> mix_kind arr (CHR ''a'') st; create_array_in_array s1 arr })
    (\<lambda>(s, p). store_ok s \<and> st \<le> s \<and> p < length (ts_arrs s))"
proof -
  obtain a where a: "mix_kind arr (CHR ''a'') st = Some (put_arr arr a st)" "ta_key a = ta_key (ts_arrs st ! arr)"
    "ta_kind a = CHR ''a'' \<or> ta_kind a = CHR ''m''" "items_ok (length (ts_tabs st)) (length (ts_arrs st)) a"
    by (rule mix_kind_eq [OF assms, of "CHR ''a''"]) auto
  let ?it = "empty_item\<lparr>ai_arr := Some (length (ts_arrs st))\<rparr>"
  let ?b = "a\<lparr>ta_item := ta_item a @ [?it]\<rparr>"
  let ?s = "\<lparr>ts_tabs = ts_tabs st @ [], ts_arrs = (ts_arrs st)[arr := ?b] @ [empty_array]\<rparr>"
  have "items_ok (length (ts_tabs st) + length ([] :: toml_table list)) (length (ts_arrs st) + length [empty_array]) ?b"
    by (rule items_ok_add [OF a(4)]) (use a(3) in \<open>auto simp: item_ok_def empty_item_def\<close>)
  then have "store_ok ?s \<and> st \<le> ?s"
    by (rule replace_array [OF assms, rotated]) (simp_all add: a(2) empty_array_def)
  moreover have "do { s1 \<leftarrow> mix_kind arr (CHR ''a'') st; create_array_in_array s1 arr } = Some (?s, length (ts_arrs st))"
    using assms(2) unfolding a(1) by (cases st) (simp add: create_array_in_array_def add_item_def put_arr_def get_arr_def deref_def Let_def)
  ultimately show ?thesis by simp
qed

lemma add_tables_item:
  assumes "store_ok st" "arr < length (ts_arrs st)" "a = ts_arrs st ! arr \<or> ta_key a = ta_key (ts_arrs st ! arr)"
    "items_ok (length (ts_tabs st)) (length (ts_arrs st)) a" "ta_kind a = CHR ''t'' \<or> ta_kind a = CHR ''m''"
    and u: "tt_kval u = []" "tt_arr u = []" "tt_tab u = []"
  defines "b \<equiv> a\<lparr>ta_item := ta_item a @ [empty_item\<lparr>ai_tab := Some (length (ts_tabs st))\<rparr>]\<rparr>"
  defines "s \<equiv> \<lparr>ts_tabs = ts_tabs st @ [u], ts_arrs = (ts_arrs st)[arr := b] @ []\<rparr>"
  shows "store_ok s \<and> st \<le> s"
proof -
  have "items_ok (length (ts_tabs st) + length [u]) (length (ts_arrs st) + length ([] :: toml_array list)) b"
    unfolding b_def by (rule items_ok_add [OF assms(4)]) (use assms(5) in \<open>auto simp: item_ok_def empty_item_def\<close>)
  then show ?thesis
    by (rule replace_array [OF assms(1,2), rotated]) (use assms(3) u in \<open>auto simp: b_def s_def\<close>)
qed

lemma add_inline_runs:
  assumes "store_ok st" "arr < length (ts_arrs st)"
  shows "runs (do { s1 \<leftarrow> mix_kind arr (CHR ''t'') st; create_table_in_array s1 arr })
    (\<lambda>(s, p). store_ok s \<and> st \<le> s \<and> p < length (ts_tabs s))"
proof -
  obtain a where a: "mix_kind arr (CHR ''t'') st = Some (put_arr arr a st)" "ta_key a = ta_key (ts_arrs st ! arr)"
    "ta_kind a = CHR ''t'' \<or> ta_kind a = CHR ''m''" "items_ok (length (ts_tabs st)) (length (ts_arrs st)) a"
    by (rule mix_kind_eq [OF assms, of "CHR ''t''"]) auto
  let ?b = "a\<lparr>ta_item := ta_item a @ [empty_item\<lparr>ai_tab := Some (length (ts_tabs st))\<rparr>]\<rparr>"
  let ?s = "\<lparr>ts_tabs = ts_tabs st @ [empty_table], ts_arrs = (ts_arrs st)[arr := ?b] @ []\<rparr>"
  have "store_ok ?s \<and> st \<le> ?s"
    by (rule add_tables_item [OF assms _ a(4,3)]) (simp_all add: a(2) empty_table_def)
  moreover have "do { s1 \<leftarrow> mix_kind arr (CHR ''t'') st; create_table_in_array s1 arr } = Some (?s, length (ts_tabs st))"
    using assms(2) unfolding a(1) by (cases st) (simp add: create_table_in_array_def add_item_def put_arr_def get_arr_def deref_def Let_def)
  ultimately show ?thesis by simp
qed

text \<open>The table that a double bracket adds to an array of tables.\<close>

lemma select_anon_runs:
  assumes "store_ok st" "p < length (ts_arrs st)" "ta_kind (ts_arrs st ! p) = CHR ''t''"
  shows "runs (do { (st2, q) \<leftarrow> create_table_in_array st p; t \<leftarrow> get_tab st2 q;
         Some (put_tab q (t\<lparr>tt_key := Some ''__anon__''\<rparr>) st2, q) })
    (\<lambda>(s, q). store_ok s \<and> st \<le> s \<and> q < length (ts_tabs s))"
proof -
  let ?a = "ts_arrs st ! p"
  let ?u = "empty_table\<lparr>tt_key := Some ''__anon__''\<rparr>"
  let ?b = "?a\<lparr>ta_item := ta_item ?a @ [empty_item\<lparr>ai_tab := Some (length (ts_tabs st))\<rparr>]\<rparr>"
  let ?s = "\<lparr>ts_tabs = ts_tabs st @ [?u], ts_arrs = (ts_arrs st)[p := ?b] @ []\<rparr>"
  have "store_ok ?s \<and> st \<le> ?s"
    by (rule add_tables_item [OF assms(1,2) _ store_items [OF assms(1,2)]]) (simp_all add: assms(3) empty_table_def)
  moreover have "do { (st2, q) \<leftarrow> create_table_in_array st p; t \<leftarrow> get_tab st2 q;
         Some (put_tab q (t\<lparr>tt_key := Some ''__anon__''\<rparr>) st2, q) } = Some (?s, length (ts_tabs st))"
    using assms(2) by (cases st) (simp add: create_table_in_array_def add_item_def put_arr_def put_tab_def get_arr_def get_tab_def
        deref_def Let_def)
  ultimately show ?thesis by simp
qed


section \<open>The context\<close>

definition ctx_ok :: "toml_ctx \<Rightarrow> bool" where
  "ctx_ok ctx \<longleftrightarrow> ctx_in ctx \<and> store_ok (cx_store ctx)"

text \<open>What every step of the parser keeps.\<close>

definition follows :: "toml_ctx \<Rightarrow> toml_ctx \<Rightarrow> bool" where
  "follows ctx c \<longleftrightarrow> cx_src c = cx_src ctx \<and> cx_curtab c = cx_curtab ctx \<and> ctx_ok c \<and> left c \<le> left ctx \<and>
     (cx_store ctx) \<le> (cx_store c)"

lemma follows_trans: "follows a b \<Longrightarrow> follows b c \<Longrightarrow> follows a c"
  by (auto simp: follows_def intro: order_trans)

lemma follows_refl: "ctx_ok a \<Longrightarrow> follows a a"
  by (simp add: follows_def)

lemma follows_ok: "follows a b \<Longrightarrow> ctx_ok b" by (simp add: follows_def)

lemma not_eof: "ctx_ok c \<Longrightarrow> tk_tok (cx_tok c) \<noteq> NEWLINE \<Longrightarrow> \<not> tk_eof (cx_tok c)"
  by (auto simp: ctx_ok_def ctx_in_def)

lemma next_safe:
  assumes "ctx_ok ctx"
  shows "safe (next_token ctx d) (\<lambda>c. follows ctx c \<and> cx_store c = cx_store ctx \<and> cx_tpath c = cx_tpath ctx \<and>
     (tk_tok (cx_tok ctx) \<noteq> STRING \<and> \<not> tk_eof (cx_tok ctx) \<longrightarrow> left c < left ctx))"
proof (rule safeI)
  show "next_token ctx d \<noteq> None" using lex_defined
    by (auto simp: next_token_def Let_def seq_def ok_def split: option.split sum.split)
  fix c assume "next_token ctx d = Some (Inr c)"
  from next_token_step [OF this] obtain t where t: "c = ctx\<lparr>cx_tok := t\<rparr>" "token_in (cx_src ctx) t"
    "token_in (cx_src ctx) (cx_tok ctx) \<longrightarrow> tk_ptr (cx_tok ctx) + tk_len (cx_tok ctx) \<le> tk_ptr t"
    "tk_tok t = STRING \<or> tk_eof t \<or> tk_len t = 1" "tk_eof t \<longrightarrow> tk_tok t = NEWLINE" by blast
  have o: "token_in (cx_src ctx) (cx_tok ctx)"
    "tk_tok (cx_tok ctx) \<noteq> STRING \<and> \<not> tk_eof (cx_tok ctx) \<longrightarrow> tk_len (cx_tok ctx) = 1"
    using assms by (auto simp: ctx_ok_def ctx_in_def)
  have "ctx_ok c" using assms t by (auto simp: ctx_ok_def ctx_in_def)
  with t o show "follows ctx c \<and> cx_store c = cx_store ctx \<and> cx_tpath c = cx_tpath ctx \<and>
     (tk_tok (cx_tok ctx) \<noteq> STRING \<and> \<not> tk_eof (cx_tok ctx) \<longrightarrow> left c < left ctx)"
    by (auto simp: follows_def left_def token_in_def)
qed

lemma eat_safe:
  assumes "ctx_ok ctx"
  shows "safe (eat_token ctx typ d) (\<lambda>c. follows ctx c \<and> cx_store c = cx_store ctx \<and> cx_tpath c = cx_tpath ctx \<and>
     (typ \<notin> {STRING, NEWLINE} \<longrightarrow> left c < left ctx))"
    by (auto simp: eat_token_def not_eof [OF assms] intro: safe_mono [OF next_safe [OF assms]])

lemma skip_newlines_safe: "ctx_ok ctx \<Longrightarrow> safe (skip_newlines ctx d) (follows ctx)"
proof (induction ctx d rule: skip_newlines.induct)
  case (1 ctx d)
  show ?case
  proof (cases "tk_tok (cx_tok ctx) = NEWLINE")
    case True
    have n: "safe (next_token ctx d) (follows ctx)" by (rule safe_mono [OF next_safe [OF 1(2)]]) simp
    show ?thesis
    proof (cases "next_token ctx d")
      case (Some r)
      show ?thesis
      proof (cases r)
        case (Inr c)
        with n Some have f: "follows ctx c" by (simp add: safe_def)
        show ?thesis
        proof (cases "tk_eof (cx_tok c)")
          case False
          have "safe (skip_newlines c d) (follows c)" using 1(1) [OF True Some [unfolded Inr] refl False follows_ok [OF f]] .
          then have "safe (skip_newlines c d) (follows ctx)" by (rule safe_mono) (rule follows_trans [OF f])
          with True Some Inr False show ?thesis by (simp add: skip_newlines.simps)
        qed (use True Some Inr f in \<open>simp add: skip_newlines.simps\<close>)
      qed (use True Some in \<open>simp add: skip_newlines.simps\<close>)
    qed (use n in \<open>simp add: safe_def\<close>)
  qed (use 1(2) in \<open>simp add: skip_newlines.simps follows_refl\<close>)
qed

lemma with_store_follows:
  assumes "follows a c" "store_ok st" "(cx_store c) \<le> st"
  shows "follows a (with_store c st)"
  using assms order_trans [of "cx_store a" "cx_store c" st]
  by (auto simp: follows_def with_store_def ctx_ok_def ctx_in_def left_def)

lemma with_store_sel [simp]:
  "cx_src (with_store c st) = cx_src c" "cx_tok (with_store c st) = cx_tok c" "cx_store (with_store c st) = st"
  "cx_curtab (with_store c st) = cx_curtab c" "left (with_store c st) = left c"
  by (simp_all add: with_store_def left_def)

lemma follows_store: "follows a c \<Longrightarrow> store_ok (cx_store c)"
  by (simp add: follows_def ctx_ok_def)

lemma follows_tab: "follows a c \<Longrightarrow> tab < length (ts_tabs (cx_store a)) \<Longrightarrow> tab < length (ts_tabs (cx_store c))"
  by (simp add: follows_def store_le_def)

lemma follows_arr: "follows a c \<Longrightarrow> arr < length (ts_arrs (cx_store a)) \<Longrightarrow> arr < length (ts_arrs (cx_store c))"
  by (simp add: follows_def store_le_def)

lemma follows_left: "follows a c \<Longrightarrow> left c \<le> left a" by (simp add: follows_def)

text \<open>One entry behind its opening token: the fuel is enough for the rest of the source.\<close>

definition keyval_safe :: "(string \<Rightarrow> bool) \<Rightarrow> nat \<Rightarrow> bool" where
  "keyval_safe dbl n \<longleftrightarrow> (\<forall>ctx tab. ctx_ok ctx \<longrightarrow> tab < length (ts_tabs (cx_store ctx)) \<longrightarrow> 2 * left ctx < n \<longrightarrow>
     safe (parse_keyval dbl n ctx tab) (\<lambda>c. follows ctx c \<and> left c < left ctx))"

definition array_safe :: "(string \<Rightarrow> bool) \<Rightarrow> nat \<Rightarrow> bool" where
  "array_safe dbl n \<longleftrightarrow> (\<forall>ctx arr. ctx_ok ctx \<longrightarrow> arr < length (ts_arrs (cx_store ctx)) \<longrightarrow> 2 * left ctx < n \<longrightarrow>
     safe (array_loop dbl n ctx arr) (follows ctx))"

definition inline_safe :: "(string \<Rightarrow> bool) \<Rightarrow> nat \<Rightarrow> bool" where
  "inline_safe dbl n \<longleftrightarrow> (\<forall>ctx tab. ctx_ok ctx \<longrightarrow> tab < length (ts_tabs (cx_store ctx)) \<longrightarrow> 2 * left ctx + 1 < n \<longrightarrow>
     safe (inline_loop dbl n ctx tab) (follows ctx))"

text \<open>The two loops behind their opening bracket.\<close>

lemma array_call:
  assumes "array_safe dbl n" "follows a c" "arr < length (ts_arrs (cx_store c))" "2 * left c \<le> n"
  shows "safe (seq (eat_token c LBRACKET False) (\<lambda>c'. array_loop dbl n c' arr)) (\<lambda>c'. follows a c' \<and> left c' < left c)"
proof (rule safe_seqI [OF eat_safe [OF follows_ok [OF assms(2)]]])
  fix x assume x: "follows c x \<and> cx_store x = cx_store c \<and> cx_tpath x = cx_tpath c \<and> (LBRACKET \<notin> {STRING, NEWLINE} \<longrightarrow> left x < left c)"
  have "safe (array_loop dbl n x arr) (follows x)"
    using assms(1,3,4) x by (auto simp: array_safe_def follows_def)
  then show "safe (array_loop dbl n x arr) (\<lambda>c'. follows a c' \<and> left c' < left c)"
    by (rule safe_mono) (use x assms(2) in \<open>auto dest: follows_left intro: follows_trans\<close>)
qed

lemma inline_call:
  assumes "inline_safe dbl n" "follows a c" "tab < length (ts_tabs (cx_store c))" "2 * left c \<le> n"
  shows "safe (seq (eat_token c LBRACE True) (\<lambda>c'. inline_loop dbl n c' tab)) (\<lambda>c'. follows a c' \<and> left c' < left c)"
proof (rule safe_seqI [OF eat_safe [OF follows_ok [OF assms(2)]]])
  fix x assume x: "follows c x \<and> cx_store x = cx_store c \<and> cx_tpath x = cx_tpath c \<and> (LBRACE \<notin> {STRING, NEWLINE} \<longrightarrow> left x < left c)"
  have "safe (inline_loop dbl n x tab) (follows x)"
    using assms(1,3,4) x by (auto simp: inline_safe_def follows_def)
  then show "safe (inline_loop dbl n x tab) (\<lambda>c'. follows a c' \<and> left c' < left c)"
    by (rule safe_mono) (use x assms(2) in \<open>auto dest: follows_left intro: follows_trans\<close>)
qed

lemma array_step:
  assumes A: "array_safe dbl n" "inline_safe dbl n"
  shows "array_safe dbl (Suc n)"
  unfolding array_safe_def
proof (intro allI impI)
  fix ctx arr assume ctx: "ctx_ok ctx" and arr: "arr < length (ts_arrs (cx_store ctx))" and n: "2 * left ctx < Suc n"
  show "safe (array_loop dbl (Suc n) ctx arr) (follows ctx)"
    unfolding array_loop.simps
  proof (rule safe_seqI [OF skip_newlines_safe [OF ctx]])
    fix c1 assume f1: "follows ctx c1"
    note s1 = follows_store [OF f1] and a1 = follows_arr [OF f1 arr] and l1 = follows_left [OF f1]
    let ?elem = "case tk_tok (cx_tok c1) of
          STRING \<Rightarrow>
            seq (lift (do { s1 \<leftarrow> mix_kind arr (CHR ''v'') (cx_store c1); s2 \<leftarrow> create_value_in_array s1 arr;
                set_last_value dbl arr (token_text (cx_src c1) (cx_tok c1)) s2 })) (\<lambda>st.
            eat_token (with_store c1 st) STRING False)
        | LBRACKET \<Rightarrow>
            seq (lift (do { s1 \<leftarrow> mix_kind arr (CHR ''a'') (cx_store c1); create_array_in_array s1 arr })) (\<lambda>(st, p).
            seq (eat_token (with_store c1 st) LBRACKET False) (\<lambda>c. array_loop dbl n c p))
        | LBRACE \<Rightarrow>
            seq (lift (do { s1 \<leftarrow> mix_kind arr (CHR ''t'') (cx_store c1); create_table_in_array s1 arr })) (\<lambda>(st, p).
            seq (eat_token (with_store c1 st) LBRACE True) (\<lambda>c. inline_loop dbl n c p))
        | _ \<Rightarrow> fail (E_syntax (tk_line (cx_tok c1)))"
    have elem: "safe ?elem (follows ctx)"
    proof (cases "tk_tok (cx_tok c1)")
      case STRING
      show ?thesis unfolding STRING tokentype.case
      proof (rule safe_seqI)
        show "safe (lift (do { s1 \<leftarrow> mix_kind arr (CHR ''v'') (cx_store c1); s2 \<leftarrow> create_value_in_array s1 arr;
                set_last_value dbl arr (token_text (cx_src c1) (cx_tok c1)) s2 })) (\<lambda>st. store_ok st \<and> (cx_store c1) \<le> st)"
          using add_value_runs [OF s1 a1, of dbl "token_text (cx_src c1) (cx_tok c1)"] by (simp only: safe_simps)
        fix st assume "store_ok st \<and> (cx_store c1) \<le> st"
        then have f: "follows ctx (with_store c1 st)" using f1 by (auto intro: with_store_follows)
        show "safe (eat_token (with_store c1 st) STRING False) (follows ctx)"
          by (rule safe_mono [OF eat_safe [OF follows_ok [OF f]]]) (use f in \<open>auto intro: follows_trans\<close>)
      qed
    next
      case LBRACKET
      show ?thesis unfolding LBRACKET tokentype.case
      proof (rule safe_seqI)
        show "safe (lift (do { s1 \<leftarrow> mix_kind arr (CHR ''a'') (cx_store c1); create_array_in_array s1 arr }))
            (\<lambda>(st, p). store_ok st \<and> (cx_store c1) \<le> st \<and> p < length (ts_arrs st))"
          using add_array_runs [OF s1 a1] by (simp only: safe_simps)
        fix x :: "toml_store \<times> nat" assume x: "case x of (st, p) \<Rightarrow> store_ok st \<and> (cx_store c1) \<le> st \<and> p < length (ts_arrs st)"
        obtain st p where xp: "x = (st, p)" by (cases x)
        with x have f: "follows ctx (with_store c1 st)" using f1 by (auto intro: with_store_follows)
        have "2 * left (with_store c1 st) \<le> n" using l1 n by simp
        from array_call [OF A(1) f _ this, of p] x xp
        show "safe (case x of (st, p) \<Rightarrow> seq (eat_token (with_store c1 st) LBRACKET False) (\<lambda>c. array_loop dbl n c p)) (follows ctx)"
          by (auto elim!: safe_mono)
      qed
    next
      case LBRACE
      show ?thesis unfolding LBRACE tokentype.case
      proof (rule safe_seqI)
        show "safe (lift (do { s1 \<leftarrow> mix_kind arr (CHR ''t'') (cx_store c1); create_table_in_array s1 arr }))
            (\<lambda>(st, p). store_ok st \<and> (cx_store c1) \<le> st \<and> p < length (ts_tabs st))"
          using add_inline_runs [OF s1 a1] by (simp only: safe_simps)
        fix x :: "toml_store \<times> nat" assume x: "case x of (st, p) \<Rightarrow> store_ok st \<and> (cx_store c1) \<le> st \<and> p < length (ts_tabs st)"
        obtain st p where xp: "x = (st, p)" by (cases x)
        with x have f: "follows ctx (with_store c1 st)" using f1 by (auto intro: with_store_follows)
        have "2 * left (with_store c1 st) \<le> n" using l1 n by simp
        from inline_call [OF A(2) f _ this, of p] x xp
        show "safe (case x of (st, p) \<Rightarrow> seq (eat_token (with_store c1 st) LBRACE True) (\<lambda>c. inline_loop dbl n c p)) (follows ctx)"
          by (auto elim!: safe_mono)
      qed
    qed simp_all
    have fin: "safe (eat_token c RBRACKET True) (follows ctx)" if "follows ctx c" for c
      by (rule safe_mono [OF eat_safe [OF follows_ok [OF that]]]) (use that in \<open>auto intro: follows_trans\<close>)
    show "safe (if tk_tok (cx_tok c1) = RBRACKET then eat_token c1 RBRACKET True
       else seq ?elem (\<lambda>c2. seq (skip_newlines c2 False) (\<lambda>c3.
         if tk_tok (cx_tok c3) = COMMA then seq (eat_token c3 COMMA False) (\<lambda>c4. array_loop dbl n c4 arr)
         else eat_token c3 RBRACKET True))) (follows ctx)"
    proof (cases "tk_tok (cx_tok c1) = RBRACKET")
      case False
      show ?thesis unfolding if_not_P [OF False]
      proof (rule safe_seqI [OF elem], rule safe_seqI [OF skip_newlines_safe [OF follows_ok]], assumption)
        fix c2 c3 assume "follows ctx c2" "follows c2 c3"
        then have f3: "follows ctx c3" by (rule follows_trans)
        show "safe (if tk_tok (cx_tok c3) = COMMA then seq (eat_token c3 COMMA False) (\<lambda>c4. array_loop dbl n c4 arr)
           else eat_token c3 RBRACKET True) (follows ctx)"
        proof (cases "tk_tok (cx_tok c3) = COMMA")
          case True
          have "safe (seq (eat_token c3 COMMA False) (\<lambda>c4. array_loop dbl n c4 arr)) (follows ctx)"
          proof (rule safe_seqI [OF eat_safe [OF follows_ok [OF f3]]])
            fix c4 assume c4: "follows c3 c4 \<and> cx_store c4 = cx_store c3 \<and> cx_tpath c4 = cx_tpath c3 \<and>
               (COMMA \<notin> {STRING, NEWLINE} \<longrightarrow> left c4 < left c3)"
            with f3 have f4: "follows ctx c4" by (blast intro: follows_trans)
            have "2 * left c4 < n" using c4 follows_left [OF f3] n by simp
            then have "safe (array_loop dbl n c4 arr) (follows c4)"
              using A(1) follows_ok [OF f4] follows_arr [OF f4 arr] by (simp add: array_safe_def)
            then show "safe (array_loop dbl n c4 arr) (follows ctx)" by (rule safe_mono) (rule follows_trans [OF f4])
          qed
          with True show ?thesis by simp
        qed (use fin [OF f3] in simp)
      qed
    qed (use fin [OF f1] in simp)
  qed
qed


lemma table_in_runs:
  assumes "refs_ok st" "tab < length (ts_tabs st)"
  shows "runs (toml_table_in st tab k) (\<lambda>e. \<forall>p. e = Some p \<longrightarrow> p < length (ts_tabs st))"
    "runs (toml_array_in st tab k) (\<lambda>e. \<forall>p. e = Some p \<longrightarrow> p < length (ts_arrs st))"
proof -
  note t = get_tab_valid [OF assms(2)]
  note refs = refs_okD [OF assms(1) t]
  show "runs (toml_table_in st tab k) (\<lambda>e. \<forall>p. e = Some p \<longrightarrow> p < length (ts_tabs st))"
    using refs(2) tab_name_valid [of st] by (auto simp: toml_table_in_def t find_ptr_eq [OF refs(2)] find_Some_iff)
  show "runs (toml_array_in st tab k) (\<lambda>e. \<forall>p. e = Some p \<longrightarrow> p < length (ts_arrs st))"
    using refs(1) arr_name_valid [of st] by (auto simp: toml_array_in_def t find_ptr_eq [OF refs(1)] find_Some_iff)
qed

lemma follows_step:
  assumes "follows a c" "safe m (\<lambda>c'. follows c c')"
  shows "safe m (follows a)"
  using assms(2) by (rule safe_mono) (rule follows_trans [OF assms(1)])

lemma next_follows:
  assumes "follows a c"
  shows "safe (next_token c d) (\<lambda>c'. follows a c' \<and> left c' \<le> left c \<and>
     (tk_tok (cx_tok c) \<notin> {STRING, NEWLINE} \<longrightarrow> left c' < left c))"
  by (rule safe_mono [OF next_safe [OF follows_ok [OF assms]]])
    (use assms not_eof [OF follows_ok [OF assms]] in \<open>auto intro: follows_trans dest: follows_left\<close>)

lemma eat_follows:
  assumes "follows a c"
  shows "safe (eat_token c typ d) (\<lambda>c'. follows a c' \<and> left c' \<le> left c \<and> (typ \<notin> {STRING, NEWLINE} \<longrightarrow> left c' < left c))"
  by (rule safe_mono [OF eat_safe [OF follows_ok [OF assms]]]) (use assms in \<open>auto intro: follows_trans dest: follows_left\<close>)

lemma keyval_step:
  assumes A: "keyval_safe dbl n" "array_safe dbl n" "inline_safe dbl n"
  shows "keyval_safe dbl (Suc n)"
  unfolding keyval_safe_def
proof (intro allI impI)
  fix ctx tab assume ctx: "ctx_ok ctx" and tab: "tab < length (ts_tabs (cx_store ctx))" and n: "2 * left ctx < Suc n"
  let ?Q = "\<lambda>c. follows ctx c \<and> left c < left ctx"
  let ?key = "cx_tok ctx" and ?src = "cx_src ctx"
  have entry: "safe (case tk_tok (cx_tok c2) of
           STRING \<Rightarrow>
             seq (create_keyval_in_table ?src (cx_store c2) tab ?key) (\<lambda>st.
             seq (lift (set_last_keyval tab (token_text ?src (cx_tok c2)) st)) (\<lambda>st2.
             next_token (with_store c2 st2) True))
         | LBRACKET \<Rightarrow>
             seq (create_keyarray_in_table ?src (cx_store c2) tab ?key NUL) (\<lambda>(st, p).
             seq (eat_token (with_store c2 st) LBRACKET False) (\<lambda>c3. array_loop dbl n c3 p))
         | LBRACE \<Rightarrow>
             seq (create_keytable_in_table ?src (cx_store c2) tab ?key) (\<lambda>(st, p).
             seq (eat_token (with_store c2 st) LBRACE True) (\<lambda>c3. inline_loop dbl n c3 p))
         | _ \<Rightarrow> fail (E_syntax (tk_line (cx_tok c2)))) ?Q" (is "safe (?entry c2) ?Q")
    if f2: "follows ctx c2" and l2: "left c2 < left ctx" for c2
  proof -
    note s2 = follows_store [OF f2] and t2 = follows_tab [OF f2 tab]
    have n2: "2 * left (with_store c2 st) \<le> n" for st using l2 n by simp
    have ws: "follows ctx (with_store c2 st)" if "store_ok st" "(cx_store c2) \<le> st" for st
      using f2 that by (rule with_store_follows)
    show ?thesis
    proof (cases "tk_tok (cx_tok c2)")
      case STRING
      show ?thesis unfolding STRING tokentype.case
      proof (rule safe_seqI [OF create_keyval_safe [OF s2 t2]])
        fix st assume st: "store_ok st \<and> (cx_store c2) \<le> st \<and> tt_kval (ts_tabs st ! tab) \<noteq> []"
        then have "tab < length (ts_tabs st)" using t2 by (simp add: store_le_def)
        with st have r: "runs (set_last_keyval tab (token_text ?src (cx_tok c2)) st) (\<lambda>s. store_ok s \<and> st \<le> s)"
          by (intro set_last_keyval_runs) auto
        show "safe (seq (lift (set_last_keyval tab (token_text ?src (cx_tok c2)) st)) (\<lambda>st2. next_token (with_store c2 st2) True)) ?Q"
        proof (rule safe_seqI)
          show "safe (lift (set_last_keyval tab (token_text ?src (cx_tok c2)) st)) (\<lambda>s. store_ok s \<and> st \<le> s)"
            using r by (simp only: safe_simps)
          fix st2 assume "store_ok st2 \<and> st \<le> st2"
          with st have "follows ctx (with_store c2 st2)" by (blast intro: ws order_trans)
          from next_follows [OF this] show "safe (next_token (with_store c2 st2) True) ?Q"
            by (rule safe_mono) (use l2 in auto)
        qed
      qed
    next
      case LBRACKET
      show ?thesis unfolding LBRACKET tokentype.case
      proof (rule safe_seqI [OF create_keyarray_safe [OF s2 t2]])
        fix x :: "toml_store \<times> nat" assume x: "case x of (st, p) \<Rightarrow> store_ok st \<and> (cx_store c2) \<le> st \<and> p < length (ts_arrs st)"
        obtain st p where xp: "x = (st, p)" by (cases x)
        with x have f: "follows ctx (with_store c2 st)" by (auto intro: ws)
        from array_call [OF A(2) f _ n2, of p] x l2 xp
        show "safe (case x of (st, p) \<Rightarrow> seq (eat_token (with_store c2 st) LBRACKET False) (\<lambda>c. array_loop dbl n c p)) ?Q"
          by (auto elim!: safe_mono)
      qed
    next
      case LBRACE
      show ?thesis unfolding LBRACE tokentype.case
      proof (rule safe_seqI [OF create_keytable_safe [OF s2 t2]])
        fix x :: "toml_store \<times> nat" assume x: "case x of (st, p) \<Rightarrow> store_ok st \<and> (cx_store c2) \<le> st \<and> p < length (ts_tabs st)"
        obtain st p where xp: "x = (st, p)" by (cases x)
        with x have f: "follows ctx (with_store c2 st)" by (auto intro: ws)
        from inline_call [OF A(3) f _ n2, of p] x l2 xp
        show "safe (case x of (st, p) \<Rightarrow> seq (eat_token (with_store c2 st) LBRACE True) (\<lambda>c. inline_loop dbl n c p)) ?Q"
          by (auto elim!: safe_mono)
      qed
    qed simp_all
  qed
  have dot: "safe (seq (normalize_key ?src ?key) (\<lambda>s.
         seq (lift (toml_table_in (cx_store c1) tab s)) (\<lambda>sub.
         seq (case sub of Some p \<Rightarrow> ok (cx_store c1, p)
              | None \<Rightarrow> create_keytable_in_table ?src (cx_store c1) tab ?key) (\<lambda>(st, p).
         seq (next_token (with_store c1 st) True) (\<lambda>c3. parse_keyval dbl n c3 p))))) ?Q"
    if f1: "follows ctx c1" and d1: "tk_tok (cx_tok c1) = DOT" for c1
  proof (rule safe_seqI [OF safeI [OF normalize_defined]], rule TrueI, rule safe_seqI)
    note s1 = follows_store [OF f1] and t1 = follows_tab [OF f1 tab] and l1 = follows_left [OF f1]
    fix s
    have r: "refs_ok (cx_store c1)" using s1 by (simp add: store_ok_def toml_ok_def)
    show "safe (lift (toml_table_in (cx_store c1) tab s)) (\<lambda>e. \<forall>p. e = Some p \<longrightarrow> p < length (ts_tabs (cx_store c1)))"
      using table_in_runs(1) [OF r t1] by (simp only: safe_simps)
    fix sub assume sub: "\<forall>p. sub = Some p \<longrightarrow> p < length (ts_tabs (cx_store c1))"
    have "safe (case sub of Some p \<Rightarrow> ok (cx_store c1, p) | None \<Rightarrow> create_keytable_in_table ?src (cx_store c1) tab ?key)
        (\<lambda>(st, p). store_ok st \<and> (cx_store c1) \<le> st \<and> p < length (ts_tabs st))"
      using sub s1 create_keytable_safe [OF s1 t1] by (cases sub) simp_all
    then show "safe (seq (case sub of Some p \<Rightarrow> ok (cx_store c1, p) | None \<Rightarrow> create_keytable_in_table ?src (cx_store c1) tab ?key)
        (\<lambda>(st, p). seq (next_token (with_store c1 st) True) (\<lambda>c3. parse_keyval dbl n c3 p))) ?Q"
    proof (rule safe_seqI)
      fix x :: "toml_store \<times> nat" assume x: "case x of (st, p) \<Rightarrow> store_ok st \<and> (cx_store c1) \<le> st \<and> p < length (ts_tabs st)"
      obtain st p where xp: "x = (st, p)" by (cases x)
      with x f1 have f: "follows ctx (with_store c1 st)" by (auto intro: with_store_follows)
      have "safe (seq (next_token (with_store c1 st) True) (\<lambda>c3. parse_keyval dbl n c3 p)) ?Q"
      proof (rule safe_seqI [OF next_safe [OF follows_ok [OF f]]])
        fix c3 assume c3: "follows (with_store c1 st) c3 \<and> cx_store c3 = cx_store (with_store c1 st) \<and> cx_tpath c3 = cx_tpath (with_store c1 st) \<and>
          (tk_tok (cx_tok (with_store c1 st)) \<noteq> STRING \<and> \<not> tk_eof (cx_tok (with_store c1 st)) \<longrightarrow>
            left c3 < left (with_store c1 st))"
        then have f3: "follows ctx c3" using f by (blast intro: follows_trans)
        have l3: "left c3 < left ctx" using c3 d1 l1 not_eof [OF follows_ok [OF f1]] by simp
        have "safe (parse_keyval dbl n c3 p) (\<lambda>c. follows c3 c \<and> left c < left c3)"
          using A(1) follows_ok [OF f3] c3 x xp l3 n by (simp add: keyval_safe_def)
        then show "safe (parse_keyval dbl n c3 p) ?Q"
          by (rule safe_mono) (use f3 l3 in \<open>auto intro: follows_trans\<close>)
      qed
      then show "safe (case x of (st, p) \<Rightarrow> seq (next_token (with_store c1 st) True) (\<lambda>c3. parse_keyval dbl n c3 p)) ?Q"
        by (simp add: xp)
    qed
  qed
  have body: "safe (seq (eat_token ctx STRING True) (\<lambda>c1.
       if tk_tok (cx_tok c1) = DOT then
         seq (normalize_key ?src ?key) (\<lambda>s.
         seq (lift (toml_table_in (cx_store c1) tab s)) (\<lambda>sub.
         seq (case sub of Some p \<Rightarrow> ok (cx_store c1, p)
              | None \<Rightarrow> create_keytable_in_table ?src (cx_store c1) tab ?key) (\<lambda>(st, p).
         seq (next_token (with_store c1 st) True) (\<lambda>c3. parse_keyval dbl n c3 p))))
       else if tk_tok (cx_tok c1) \<noteq> EQUAL then fail (E_syntax (tk_line (cx_tok c1)))
       else seq (next_token c1 False) ?entry)) ?Q"
  proof (rule safe_seqI [OF eat_follows [OF follows_refl [OF ctx]]])
    fix c1 assume c1: "follows ctx c1 \<and> left c1 \<le> left ctx \<and> (STRING \<notin> {STRING, NEWLINE} \<longrightarrow> left c1 < left ctx)"
    then have f1: "follows ctx c1" by simp
    consider "tk_tok (cx_tok c1) = DOT" | "tk_tok (cx_tok c1) = EQUAL" | "tk_tok (cx_tok c1) \<notin> {DOT, EQUAL}" by blast
    then show "safe (if tk_tok (cx_tok c1) = DOT then
         seq (normalize_key ?src ?key) (\<lambda>s.
         seq (lift (toml_table_in (cx_store c1) tab s)) (\<lambda>sub.
         seq (case sub of Some p \<Rightarrow> ok (cx_store c1, p)
              | None \<Rightarrow> create_keytable_in_table ?src (cx_store c1) tab ?key) (\<lambda>(st, p).
         seq (next_token (with_store c1 st) True) (\<lambda>c3. parse_keyval dbl n c3 p))))
       else if tk_tok (cx_tok c1) \<noteq> EQUAL then fail (E_syntax (tk_line (cx_tok c1)))
       else seq (next_token c1 False) ?entry) ?Q" (is "safe ?b ?Q")
    proof cases
      case 1
      then show ?thesis using dot [OF f1 1] by (simp only: if_True simp_thms)
    next
      case 2
      have "safe (seq (next_token c1 False) ?entry) ?Q"
        by (rule safe_seqI [OF next_follows [OF f1]], rule entry) (use 2 c1 in auto)
      then show ?thesis using 2 by (simp only: tokentype.distinct if_False simp_thms)
    qed simp
  qed
  show "safe (parse_keyval dbl (Suc n) ctx tab) ?Q"
    unfolding parse_keyval.simps(2)
  proof (rule safe_seqI)
    show "safe (lift (get_tab (cx_store ctx) tab)) (\<lambda>_. True)" using tab by (simp add: get_tab_valid)
    fix t
    show "safe (if tt_readonly t then fail (E_forbid (tk_line (cx_tok ctx)))
       else (let key = ?key; src = ?src in
         seq (eat_token ctx STRING True) (\<lambda>c1.
       if tk_tok (cx_tok c1) = DOT then
         seq (normalize_key src key) (\<lambda>s.
         seq (lift (toml_table_in (cx_store c1) tab s)) (\<lambda>sub.
         seq (case sub of Some p \<Rightarrow> ok (cx_store c1, p)
              | None \<Rightarrow> create_keytable_in_table src (cx_store c1) tab key) (\<lambda>(st, p).
         seq (next_token (with_store c1 st) True) (\<lambda>c3. parse_keyval dbl n c3 p))))
       else if tk_tok (cx_tok c1) \<noteq> EQUAL then fail (E_syntax (tk_line (cx_tok c1)))
       else seq (next_token c1 False) (\<lambda>c2.
         case tk_tok (cx_tok c2) of
           STRING \<Rightarrow>
             seq (create_keyval_in_table src (cx_store c2) tab key) (\<lambda>st.
             seq (lift (set_last_keyval tab (token_text src (cx_tok c2)) st)) (\<lambda>st2.
             next_token (with_store c2 st2) True))
         | LBRACKET \<Rightarrow>
             seq (create_keyarray_in_table src (cx_store c2) tab key NUL) (\<lambda>(st, p).
             seq (eat_token (with_store c2 st) LBRACKET False) (\<lambda>c3. array_loop dbl n c3 p))
         | LBRACE \<Rightarrow>
             seq (create_keytable_in_table src (cx_store c2) tab key) (\<lambda>(st, p).
             seq (eat_token (with_store c2 st) LBRACE True) (\<lambda>c3. inline_loop dbl n c3 p))
         | _ \<Rightarrow> fail (E_syntax (tk_line (cx_tok c2))))))) ?Q"
      using body by (simp only: Let_def split: if_split) simp
  qed
qed

lemma close_safe:
  assumes "follows a c" "tab < length (ts_tabs (cx_store a))"
  shows "safe (seq (eat_token c RBRACE True) (\<lambda>c'.
            seq (lift (set_readonly tab (cx_store c'))) (\<lambda>st. ok (with_store c' st)))) (follows a)"
proof (rule safe_seqI [OF eat_follows [OF assms(1)]])
  fix c' assume "follows a c' \<and> left c' \<le> left c \<and> (RBRACE \<notin> {STRING, NEWLINE} \<longrightarrow> left c' < left c)"
  then have f: "follows a c'" by simp
  show "safe (seq (lift (set_readonly tab (cx_store c'))) (\<lambda>st. ok (with_store c' st))) (follows a)"
  proof (rule safe_seqI)
    show "safe (lift (set_readonly tab (cx_store c'))) (\<lambda>s. store_ok s \<and> (cx_store c') \<le> s)"
      using set_readonly_runs [OF follows_store [OF f] follows_tab [OF f assms(2)]] by (simp only: safe_simps)
  qed (use f in \<open>auto intro: with_store_follows\<close>)
qed

lemma inline_step:
  assumes A: "keyval_safe dbl n" "inline_safe dbl n"
  shows "inline_safe dbl (Suc n)"
  unfolding inline_safe_def
proof (intro allI impI)
  fix ctx tab assume ctx: "ctx_ok ctx" and tab: "tab < length (ts_tabs (cx_store ctx))" and n: "2 * left ctx + 1 < Suc n"
  note close = close_safe [OF _ tab]
  have "safe (parse_keyval dbl n ctx tab) (\<lambda>c. follows ctx c \<and> left c < left ctx)"
    using A(1) ctx tab n by (simp add: keyval_safe_def)
  then have kv: "safe (seq (parse_keyval dbl n ctx tab) (\<lambda>c1.
           if tk_tok (cx_tok c1) = NEWLINE then fail (E_syntax (tk_line (cx_tok c1)))
           else if tk_tok (cx_tok c1) = COMMA then seq (eat_token c1 COMMA True) (\<lambda>c2. inline_loop dbl n c2 tab)
           else seq (eat_token c1 RBRACE True) (\<lambda>c'.
            seq (lift (set_readonly tab (cx_store c'))) (\<lambda>st. ok (with_store c' st))))) (follows ctx)"
  proof (rule safe_seqI)
    fix c1 assume c1: "follows ctx c1 \<and> left c1 < left ctx"
    then have f1: "follows ctx c1" by simp
    have "safe (seq (eat_token c1 COMMA True) (\<lambda>c2. inline_loop dbl n c2 tab)) (follows ctx)"
    proof (rule safe_seqI [OF eat_follows [OF f1]])
      fix c2 assume c2: "follows ctx c2 \<and> left c2 \<le> left c1 \<and> (COMMA \<notin> {STRING, NEWLINE} \<longrightarrow> left c2 < left c1)"
      then have f2: "follows ctx c2" by simp
      have "2 * left c2 + 1 < n" using c1 c2 n by simp
      then have "safe (inline_loop dbl n c2 tab) (follows c2)"
        using A(2) follows_ok [OF f2] follows_tab [OF f2 tab] by (simp add: inline_safe_def)
      then show "safe (inline_loop dbl n c2 tab) (follows ctx)" by (rule follows_step [OF f2])
    qed
    with close [OF f1] show "safe (if tk_tok (cx_tok c1) = NEWLINE then fail (E_syntax (tk_line (cx_tok c1)))
           else if tk_tok (cx_tok c1) = COMMA then seq (eat_token c1 COMMA True) (\<lambda>c2. inline_loop dbl n c2 tab)
           else seq (eat_token c1 RBRACE True) (\<lambda>c'.
            seq (lift (set_readonly tab (cx_store c'))) (\<lambda>st. ok (with_store c' st)))) (follows ctx)"
      by (simp split: if_split)
  qed
  show "safe (inline_loop dbl (Suc n) ctx tab) (follows ctx)"
    using kv close [OF follows_refl [OF ctx]] by (simp only: inline_loop.simps Let_def split: if_split) simp
qed

lemma parts_safe: "keyval_safe dbl n \<and> array_safe dbl n \<and> inline_safe dbl n"
proof (induction n)
  case 0
  show ?case by (simp add: keyval_safe_def array_safe_def inline_safe_def)
next
  case (Suc n)
  then show ?case by (blast intro: keyval_step array_step inline_step)
qed

section \<open>Table headers and lines\<close>

lemma fill_loop_safe:
  "ctx_ok ctx \<Longrightarrow> safe (fill_tabpath_loop n lineno ctx)
     (\<lambda>c. follows ctx c \<and> cx_store c = cx_store ctx \<and> cx_tpath c \<noteq> [])"
proof (induction n arbitrary: ctx)
  case (Suc n)
  have ctx': "ctx_ok (ctx\<lparr>cx_tpath := p\<rparr>)" "follows ctx (ctx\<lparr>cx_tpath := p\<rparr>)" "cx_store (ctx\<lparr>cx_tpath := p\<rparr>) = cx_store ctx" for p
    using Suc.prems by (simp_all add: follows_def ctx_ok_def ctx_in_def left_def)
  have "safe (seq (normalize_key (cx_src ctx) (cx_tok ctx)) (\<lambda>key.
        seq (next_token (ctx\<lparr>cx_tpath := cx_tpath ctx @ [(key, cx_tok ctx)]\<rparr>) True) (\<lambda>c1.
        if tk_tok (cx_tok c1) = RBRACKET then ok c1
        else if tk_tok (cx_tok c1) \<noteq> DOT then fail (E_syntax lineno)
        else seq (next_token c1 True) (\<lambda>c2. fill_tabpath_loop n lineno c2))))
     (\<lambda>c. follows ctx c \<and> cx_store c = cx_store ctx \<and> cx_tpath c \<noteq> [])" (is "safe _ ?Q")
  proof (rule safe_seqI [OF safeI [OF normalize_defined]], rule TrueI, rule safe_seqI [OF next_safe [OF ctx'(1)]])
    fix key c1 let ?c = "ctx\<lparr>cx_tpath := cx_tpath ctx @ [(key, cx_tok ctx)]\<rparr>"
    assume c1: "follows ?c c1 \<and> cx_store c1 = cx_store ?c \<and> cx_tpath c1 = cx_tpath ?c \<and>
      (tk_tok (cx_tok ?c) \<noteq> STRING \<and> \<not> tk_eof (cx_tok ?c) \<longrightarrow> left c1 < left ?c)"
    then have f1: "follows ctx c1" using ctx'(2) by (blast intro: follows_trans)
    have "safe (seq (next_token c1 True) (\<lambda>c2. fill_tabpath_loop n lineno c2)) ?Q"
    proof (rule safe_seqI [OF next_safe [OF follows_ok [OF f1]]])
      fix c2 assume c2: "follows c1 c2 \<and> cx_store c2 = cx_store c1 \<and> cx_tpath c2 = cx_tpath c1 \<and>
        (tk_tok (cx_tok c1) \<noteq> STRING \<and> \<not> tk_eof (cx_tok c1) \<longrightarrow> left c2 < left c1)"
      then have f2: "follows ctx c2" using f1 by (blast intro: follows_trans)
      show "safe (fill_tabpath_loop n lineno c2) ?Q"
        by (rule safe_mono [OF Suc.IH [OF follows_ok [OF f2]]]) (use f2 c1 c2 in \<open>auto intro: follows_trans\<close>)
    qed
    then show "safe (if tk_tok (cx_tok c1) = RBRACKET then ok c1
        else if tk_tok (cx_tok c1) \<noteq> DOT then fail (E_syntax lineno)
        else seq (next_token c1 True) (\<lambda>c2. fill_tabpath_loop n lineno c2)) ?Q"
      using f1 c1 by simp
  qed
  then show ?case by simp
qed simp

lemma walk_path_safe:
  "store_ok st \<Longrightarrow> cur < length (ts_tabs st) \<Longrightarrow>
   safe (walk_path st cur path) (\<lambda>(s, p). store_ok s \<and> st \<le> s \<and> p < length (ts_tabs s))"
proof (induction path arbitrary: st cur)
  case (Cons x path)
  obtain k tk where x: "x = (k, tk)" by (cases x)
  have r: "refs_ok st" using Cons.prems(1) by (simp add: store_ok_def toml_ok_def)
  let ?Q = "\<lambda>(s, p). store_ok s \<and> st \<le> s \<and> p < length (ts_tabs s)"
  show ?case unfolding x walk_path.simps
  proof (rule safe_seqI)
    show "safe (lift (check_key st cur k)) (\<lambda>e. (\<forall>p. e = Some (KeyTab p) \<longrightarrow> p < length (ts_tabs st)) \<and>
     (\<forall>p. e = Some (KeyArr p) \<longrightarrow> p < length (ts_arrs st)) \<and> (e = None \<longrightarrow> k \<notin> set (key_list st (ts_tabs st ! cur))))"
      using check_key_runs [OF r Cons.prems(2)] by (simp only: safe_simps)
    fix e :: "key_entry option"
    assume e: "(\<forall>p. e = Some (KeyTab p) \<longrightarrow> p < length (ts_tabs st)) \<and>
     (\<forall>p. e = Some (KeyArr p) \<longrightarrow> p < length (ts_arrs st)) \<and> (e = None \<longrightarrow> k \<notin> set (key_list st (ts_tabs st ! cur)))"
    consider (new) "e = None" | (val) "e = Some KeyVal" | (arr) a where "e = Some (KeyArr a)" | (tab) p where "e = Some (KeyTab p)"
      by (cases e) (auto elim: key_entry.exhaust)
    then show "safe (case e of
       Some (KeyTab p) \<Rightarrow> walk_path st p path
     | Some (KeyArr a) \<Rightarrow>
         seq (lift (get_arr st a)) (\<lambda>arr.
         if ta_kind arr \<noteq> CHR ''t'' then fail E_internal
         else if ta_item arr = [] then fail E_internal
         else (case ai_tab (last (ta_item arr)) of None \<Rightarrow> None | Some p \<Rightarrow> walk_path st p path))
     | Some KeyVal \<Rightarrow> fail (E_keyexists (tk_line tk))
     | None \<Rightarrow>
         seq (lift (add_table st cur (empty_table\<lparr>tt_key := Some k, tt_implicit := True\<rparr>))) (\<lambda>(st', p).
         walk_path st' p path)) ?Q"
    proof cases
      case new
      have "safe (seq (lift (add_table st cur (empty_table\<lparr>tt_key := Some k, tt_implicit := True\<rparr>))) (\<lambda>(st', p).
         walk_path st' p path)) ?Q"
      proof (rule safe_seqI)
        show "safe (lift (add_table st cur (empty_table\<lparr>tt_key := Some k, tt_implicit := True\<rparr>))) ?Q"
          unfolding safe_simps by (rule add_table_safe [OF Cons.prems]) (use e new in simp)
        fix x :: "toml_store \<times> nat" assume q: "?Q x"
        obtain st' p where xp: "x = (st', p)" by (cases x)
        with q have "safe (walk_path st' p path) (\<lambda>(s, p). store_ok s \<and> st' \<le> s \<and> p < length (ts_tabs s))"
          by (intro Cons.IH) auto
        then have "safe (walk_path st' p path) ?Q"
          by (rule safe_mono) (use q xp in \<open>auto intro: order_trans\<close>)
        with xp show "safe (case x of (st', p) \<Rightarrow> walk_path st' p path) ?Q" by simp
      qed
      with new show ?thesis by simp
    next
      case (arr a)
      with e have a: "a < length (ts_arrs st)" by simp
      let ?a = "ts_arrs st ! a"
      have "safe (if ta_kind ?a \<noteq> CHR ''t'' then fail E_internal
         else if ta_item ?a = [] then fail E_internal
         else (case ai_tab (last (ta_item ?a)) of None \<Rightarrow> None | Some p \<Rightarrow> walk_path st p path)) ?Q"
      proof (cases "ta_kind ?a = CHR ''t'' \<and> ta_item ?a \<noteq> []")
        case True
        with store_items [OF Cons.prems(1) a] have "item_ok (length (ts_tabs st)) (length (ts_arrs st)) (CHR ''t'') (last (ta_item ?a))"
          unfolding items_ok_def by (metis last_in_set)
        then obtain p where "ai_tab (last (ta_item ?a)) = Some p" "p < length (ts_tabs st)"
          by (auto simp: item_ok_def split: option.splits)
        with True Cons.IH [OF Cons.prems(1), of p] show ?thesis by simp
      qed auto
      with arr a show ?thesis by (simp add: get_arr_def deref_def lift_def seq_def)
    next
      case (tab p)
      with e Cons.IH [OF Cons.prems(1), of p] show ?thesis by simp
    qed simp
  qed
qed simp

lemma ctx_store_follows:
  assumes "follows a c" "store_ok st" "(cx_store c) \<le> st"
  shows "ctx_ok (c\<lparr>cx_store := st, cx_curtab := p\<rparr>)" "left (c\<lparr>cx_store := st, cx_curtab := p\<rparr>) = left c"
  using assms by (auto simp: follows_def ctx_ok_def ctx_in_def left_def)

text \<open>A header may also change the current table.\<close>

definition selects :: "toml_ctx \<Rightarrow> toml_ctx \<Rightarrow> bool" where
  "selects a c \<longleftrightarrow> cx_src c = cx_src a \<and> ctx_ok c \<and> left c \<le> left a \<and> cx_curtab c < length (ts_tabs (cx_store c)) \<and>
     cx_tok c = cx_tok a"

lemma select_table_safe:
  assumes "ctx_ok ctx" "cx_curtab ctx < length (ts_tabs (cx_store ctx))"
  shows "safe (select_table ctx z) (selects ctx)"
  unfolding select_table_def
proof (rule safe_seqI [OF create_keytable_safe])
  show "store_ok (cx_store ctx)" using assms(1) by (simp add: ctx_ok_def)
qed (use assms in \<open>auto simp: selects_def ctx_ok_def ctx_in_def left_def\<close>)

lemma select_array_safe:
  assumes "ctx_ok ctx" "cx_curtab ctx < length (ts_tabs (cx_store ctx))"
  shows "safe (select_array ctx z) (selects ctx)"
  unfolding select_array_def
proof (rule safe_seqI [OF safeI [OF normalize_defined]], rule TrueI, rule safe_seqI)
  fix k
  let ?st = "cx_store ctx" and ?tab = "cx_curtab ctx"
  have s: "store_ok ?st" and r: "refs_ok ?st" using assms(1) by (simp_all add: ctx_ok_def store_ok_def toml_ok_def)
  show "safe (lift (toml_array_in ?st ?tab k)) (\<lambda>e. \<forall>p. e = Some p \<longrightarrow> p < length (ts_arrs ?st))"
    using table_in_runs(2) [OF r assms(2)] by (simp only: safe_simps)
  fix found assume found: "\<forall>p. found = Some p \<longrightarrow> p < length (ts_arrs ?st)"
  have "safe (case found of Some p \<Rightarrow> ok (?st, p) | None \<Rightarrow> create_keyarray_in_table (cx_src ctx) ?st ?tab z (CHR ''t''))
      (\<lambda>(st, p). store_ok st \<and> ?st \<le> st \<and> p < length (ts_arrs st))"
    using found s create_keyarray_safe [OF s assms(2)] by (cases found) simp_all
  then show "safe (seq (case found of Some p \<Rightarrow> ok (?st, p) | None \<Rightarrow> create_keyarray_in_table (cx_src ctx) ?st ?tab z (CHR ''t''))
     (\<lambda>(st, p). seq (lift (get_arr st p)) (\<lambda>a.
     if ta_kind a \<noteq> CHR ''t'' then fail (E_syntax (tk_line z))
     else seq (lift (do {
         (st2, q) \<leftarrow> create_table_in_array st p;
         t \<leftarrow> get_tab st2 q;
         Some (put_tab q (t\<lparr>tt_key := Some ''__anon__''\<rparr>) st2, q) })) (\<lambda>(st3, q).
       ok (ctx\<lparr>cx_store := st3, cx_curtab := q\<rparr>))))) (selects ctx)"
  proof (rule safe_seqI)
    fix x :: "toml_store \<times> nat" assume x: "case x of (st, p) \<Rightarrow> store_ok st \<and> ?st \<le> st \<and> p < length (ts_arrs st)"
    obtain st p where xp: "x = (st, p)" by (cases x)
    have "safe (seq (lift (do {
         (st2, q) \<leftarrow> create_table_in_array st p;
         t \<leftarrow> get_tab st2 q;
         Some (put_tab q (t\<lparr>tt_key := Some ''__anon__''\<rparr>) st2, q) })) (\<lambda>(st3, q).
       ok (ctx\<lparr>cx_store := st3, cx_curtab := q\<rparr>))) (selects ctx)" if "ta_kind (ts_arrs st ! p) = CHR ''t''"
    proof (rule safe_seqI)
      show "safe (lift (do {
         (st2, q) \<leftarrow> create_table_in_array st p;
         t \<leftarrow> get_tab st2 q;
         Some (put_tab q (t\<lparr>tt_key := Some ''__anon__''\<rparr>) st2, q) }))
         (\<lambda>(s, q). store_ok s \<and> st \<le> s \<and> q < length (ts_tabs s))"
        unfolding safe_simps by (rule select_anon_runs) (use x xp that in auto)
    qed (use assms(1) in \<open>auto simp: selects_def ctx_ok_def ctx_in_def left_def\<close>)
    with x show "safe (case x of (st, p) \<Rightarrow> seq (lift (get_arr st p)) (\<lambda>a.
     if ta_kind a \<noteq> CHR ''t'' then fail (E_syntax (tk_line z))
     else seq (lift (do {
         (st2, q) \<leftarrow> create_table_in_array st p;
         t \<leftarrow> get_tab st2 q;
         Some (put_tab q (t\<lparr>tt_key := Some ''__anon__''\<rparr>) st2, q) })) (\<lambda>(st3, q).
       ok (ctx\<lparr>cx_store := st3, cx_curtab := q\<rparr>)))) (selects ctx)"
      by (simp add: xp safe_seq)
  qed
qed

text \<open>The two brackets of an array of tables stand together, so the assertion of \<open>eat_token\<close> holds.\<close>

lemma next_bracket:
  assumes "ctx_ok ctx" "tk_tok (cx_tok ctx) = LBRACKET" "next_is ctx (CHR ''['')"
    "next_token ctx d = Some (Inr c)"
  shows "tk_tok (cx_tok c) = LBRACKET"
proof -
  have "tk_len (cx_tok ctx) = 1" using assms(1,2) by (auto simp: ctx_ok_def ctx_in_def)
  with assms(3,4) show ?thesis
    by (auto simp: next_token_def Let_def seq_Some next_is_def lex.simps ok_def mk_token_def)
qed

lemma safe_seqE: "safe m P \<Longrightarrow> (\<And>x. m = Some (Inr x) \<Longrightarrow> P x \<Longrightarrow> safe (f x) Q) \<Longrightarrow> safe (seq m f) Q"
  by (auto simp: safe_def seq_def split: option.splits sum.splits)

definition line_ok :: "toml_ctx \<Rightarrow> toml_ctx \<Rightarrow> bool" where
  "line_ok a c \<longleftrightarrow> cx_src c = cx_src a \<and> ctx_ok c \<and> left c \<le> left a \<and> cx_curtab c < length (ts_tabs (cx_store c))"

lemma line_ok_trans: "line_ok a b \<Longrightarrow> line_ok b c \<Longrightarrow> line_ok a c"
  by (auto simp: line_ok_def)

lemma line_follows: "line_ok a b \<Longrightarrow> follows b c \<Longrightarrow> line_ok a c"
  by (auto simp: line_ok_def follows_def store_le_def)

lemma line_selects: "line_ok a b \<Longrightarrow> selects b c \<Longrightarrow> line_ok a c"
  by (auto simp: line_ok_def selects_def)

lemma line_okD: "line_ok a b \<Longrightarrow> ctx_ok b" "line_ok a b \<Longrightarrow> cx_curtab b < length (ts_tabs (cx_store b))"
  by (simp_all add: line_ok_def)

lemma line_eat:
  assumes "line_ok a c"
  shows "safe (eat_token c typ d) (\<lambda>c'. line_ok a c' \<and> (typ \<notin> {STRING, NEWLINE} \<longrightarrow> left c' < left c))"
  by (rule safe_mono [OF eat_safe [OF line_okD(1) [OF assms]]]) (use assms in \<open>auto intro: line_follows\<close>)

lemma walk_tabpath_safe:
  assumes "line_ok a c"
  shows "safe (walk_tabpath c) (line_ok a)"
  unfolding walk_tabpath_def
proof (rule safe_seqI [OF walk_path_safe])
  show "store_ok (cx_store c)" "0 < length (ts_tabs (cx_store c))"
    using assms by (auto simp: line_ok_def ctx_ok_def)
qed (use assms in \<open>auto simp: line_ok_def ctx_ok_def ctx_in_def left_def\<close>)

lemma second_bracket_safe:
  assumes "ctx_ok ctx" "cx_curtab ctx < length (ts_tabs (cx_store ctx))" "tk_tok (cx_tok ctx) = LBRACKET"
    "llb = next_is ctx (CHR ''['')"
  shows "safe (seq (eat_token ctx LBRACKET True) (\<lambda>c0.
     if llb then (if tk_tok (cx_tok c0) \<noteq> LBRACKET then None else eat_token c0 LBRACKET True) else ok c0))
     (\<lambda>c. line_ok ctx c \<and> left c < left ctx)"
proof (rule safe_seqE [OF line_eat])
  show "line_ok ctx ctx" using assms(1,2) by (simp add: line_ok_def)
  fix c0 assume run: "eat_token ctx LBRACKET True = Some (Inr c0)"
    and c0: "line_ok ctx c0 \<and> (LBRACKET \<notin> {STRING, NEWLINE} \<longrightarrow> left c0 < left ctx)"
  have "next_token ctx True = Some (Inr c0)" using run assms(3) by (simp add: eat_token_def)
  from next_bracket [OF assms(1,3) _ this] have "llb \<Longrightarrow> tk_tok (cx_tok c0) = LBRACKET" using assms(4) by simp
  moreover have "safe (eat_token c0 LBRACKET True) (\<lambda>c. line_ok ctx c \<and> left c < left ctx)"
    by (rule safe_mono [OF line_eat]) (use c0 in auto)
  ultimately show "safe (if llb then (if tk_tok (cx_tok c0) \<noteq> LBRACKET then None else eat_token c0 LBRACKET True) else ok c0)
     (\<lambda>c. line_ok ctx c \<and> left c < left ctx)"
    using c0 by simp
qed

lemma seq_assoc: "seq (seq m f) g = seq m (\<lambda>x. seq (f x) g)"
  by (simp add: seq_def split: option.split sum.split)

lemma closing_safe:
  assumes c4: "line_ok ctx c4"
  shows "safe (if tk_tok (cx_tok c4) \<noteq> RBRACKET then fail (E_syntax (tk_line (cx_tok c4)))
        else seq (if llb then (if \<not> next_is c4 (CHR '']'') then fail (E_syntax (tk_line (cx_tok c4)))
                     else eat_token c4 RBRACKET True) else ok c4) (\<lambda>c5.
        seq (eat_token c5 RBRACKET True) (\<lambda>c6.
        if tk_tok (cx_tok c6) \<noteq> NEWLINE then fail (E_syntax (tk_line (cx_tok c6))) else ok c6))) (line_ok ctx)"
proof -
  have "safe (seq (if llb then (if \<not> next_is c4 (CHR '']'') then fail (E_syntax (tk_line (cx_tok c4)))
                     else eat_token c4 RBRACKET True) else ok c4) (\<lambda>c5.
        seq (eat_token c5 RBRACKET True) (\<lambda>c6.
        if tk_tok (cx_tok c6) \<noteq> NEWLINE then fail (E_syntax (tk_line (cx_tok c6))) else ok c6))) (line_ok ctx)"
  proof (rule safe_seqI)
    show "safe (if llb then (if \<not> next_is c4 (CHR '']'') then fail (E_syntax (tk_line (cx_tok c4)))
                     else eat_token c4 RBRACKET True) else ok c4) (line_ok ctx)"
      using c4 by (auto intro: safe_mono [OF line_eat [OF c4]])
    fix c5 assume c5: "line_ok ctx c5"
    show "safe (seq (eat_token c5 RBRACKET True) (\<lambda>c6.
        if tk_tok (cx_tok c6) \<noteq> NEWLINE then fail (E_syntax (tk_line (cx_tok c6))) else ok c6)) (line_ok ctx)"
      by (rule safe_seqI [OF line_eat [OF c5]]) auto
  qed
  then show ?thesis by simp
qed

lemma parse_select_safe:
  assumes "ctx_ok ctx" "cx_curtab ctx < length (ts_tabs (cx_store ctx))" "tk_tok (cx_tok ctx) = LBRACKET"
  shows "safe (parse_select ctx) (\<lambda>c. line_ok ctx c \<and> left c < left ctx)"
proof -
  let ?llb = "next_is ctx (CHR ''['')"
  have "safe (seq (fill_tabpath c1) (\<lambda>c2.
        (let z = snd (last (cx_tpath c2)) in
        seq (walk_tabpath (c2\<lparr>cx_tpath := butlast (cx_tpath c2)\<rparr>)) (\<lambda>c3.
        seq (if ?llb then select_array c3 z else select_table c3 z) (\<lambda>c4.
        if tk_tok (cx_tok c4) \<noteq> RBRACKET then fail (E_syntax (tk_line (cx_tok c4)))
        else seq (if ?llb then (if \<not> next_is c4 (CHR '']'') then fail (E_syntax (tk_line (cx_tok c4)))
                     else eat_token c4 RBRACKET True) else ok c4) (\<lambda>c5.
        seq (eat_token c5 RBRACKET True) (\<lambda>c6.
        if tk_tok (cx_tok c6) \<noteq> NEWLINE then fail (E_syntax (tk_line (cx_tok c6))) else ok c6)))))))
     (\<lambda>c. line_ok ctx c \<and> left c < left ctx)" (is "safe ?m _")
    if c1: "line_ok ctx c1" "left c1 < left ctx" for c1
  proof -
    have "safe ?m (line_ok c1)" unfolding fill_tabpath_def
    proof (rule safe_seqI [OF fill_loop_safe])
      let ?c = "c1\<lparr>cx_tpath := []\<rparr>"
      show "ctx_ok ?c" using c1(1) by (auto simp: line_ok_def ctx_ok_def ctx_in_def)
      fix c2 assume c2: "follows ?c c2 \<and> cx_store c2 = cx_store ?c \<and> cx_tpath c2 \<noteq> []"
      have "line_ok c1 ?c" using c1(1) by (auto simp: line_ok_def ctx_ok_def ctx_in_def left_def)
      with c2 have "line_ok c1 c2" by (blast intro: line_follows)
      then have "line_ok c1 (c2\<lparr>cx_tpath := butlast (cx_tpath c2)\<rparr>)"
        by (auto simp: line_ok_def ctx_ok_def ctx_in_def left_def)
      note w = walk_tabpath_safe [OF this]
      show "safe (let z = snd (last (cx_tpath c2)) in
        seq (walk_tabpath (c2\<lparr>cx_tpath := butlast (cx_tpath c2)\<rparr>)) (\<lambda>c3.
        seq (if ?llb then select_array c3 z else select_table c3 z) (\<lambda>c4.
        if tk_tok (cx_tok c4) \<noteq> RBRACKET then fail (E_syntax (tk_line (cx_tok c4)))
        else seq (if ?llb then (if \<not> next_is c4 (CHR '']'') then fail (E_syntax (tk_line (cx_tok c4)))
                     else eat_token c4 RBRACKET True) else ok c4) (\<lambda>c5.
        seq (eat_token c5 RBRACKET True) (\<lambda>c6.
        if tk_tok (cx_tok c6) \<noteq> NEWLINE then fail (E_syntax (tk_line (cx_tok c6))) else ok c6))))) (line_ok c1)"
        unfolding Let_def
      proof (rule safe_seqI [OF w], rule safe_seqI)
        fix c3 assume c3: "line_ok c1 c3"
        show "safe (if ?llb then select_array c3 (snd (last (cx_tpath c2))) else select_table c3 (snd (last (cx_tpath c2))))
            (line_ok c1)"
          using safe_mono [OF select_array_safe [OF line_okD [OF c3]] line_selects [OF c3]]
            safe_mono [OF select_table_safe [OF line_okD [OF c3]] line_selects [OF c3]] by simp
      qed (rule closing_safe)
    qed
    then show ?thesis by (rule safe_mono) (use c1 in \<open>auto intro: line_ok_trans simp: line_ok_def\<close>)
  qed
  then have "safe (seq (seq (eat_token ctx LBRACKET True) (\<lambda>c0.
     if ?llb then (if tk_tok (cx_tok c0) \<noteq> LBRACKET then None else eat_token c0 LBRACKET True) else ok c0)) (\<lambda>c1. ?m c1))
     (\<lambda>c. line_ok ctx c \<and> left c < left ctx)"
    by (intro safe_seqI [OF second_bracket_safe [OF assms refl]]) auto
  with assms(3) show ?thesis by (simp only: parse_select_def Let_def seq_assoc if_not_P simp_thms)
qed


section \<open>The whole file\<close>

lemma line_next:
  assumes "line_ok a c" "\<not> tk_eof (cx_tok c)" "tk_tok (cx_tok c) \<noteq> STRING"
  shows "safe (next_token c d) (\<lambda>c'. line_ok a c' \<and> left c' < left c)"
  by (rule safe_mono [OF next_safe [OF line_okD(1) [OF assms(1)]]]) (use assms in \<open>auto intro: line_follows\<close>)

lemma toml_lines_safe:
  "line_ok a ctx \<Longrightarrow> 2 * left ctx + 1 < n \<Longrightarrow> safe (toml_lines dbl n ctx) (line_ok a)"
proof (induction n arbitrary: ctx)
  case (Suc n)
  have ctx: "ctx_ok ctx" "cx_curtab ctx < length (ts_tabs (cx_store ctx))"
    using Suc.prems(1) by (simp_all add: line_ok_def)
  have rest: "safe (toml_lines dbl n c) (line_ok a)" if "line_ok a c" "left c < left ctx" for c
    using that Suc.prems(2) by (intro Suc.IH) auto
  show ?case
  proof (cases "tk_eof (cx_tok ctx)")
    case False
    consider (nl) "tk_tok (cx_tok ctx) = NEWLINE" | (str) "tk_tok (cx_tok ctx) = STRING" | (lb) "tk_tok (cx_tok ctx) = LBRACKET"
      | (other) "tk_tok (cx_tok ctx) \<notin> {NEWLINE, STRING, LBRACKET}" by blast
    then show ?thesis
    proof cases
      case nl
      have "safe (seq (next_token ctx True) (toml_lines dbl n)) (line_ok a)"
        by (rule safe_seqI [OF line_next [OF Suc.prems(1) False]]) (use nl rest in auto)
      with nl False show ?thesis by simp
    next
      case str
      have "2 * left ctx < n" using Suc.prems(2) by simp
      with parts_safe ctx have kv: "safe (parse_keyval dbl n ctx (cx_curtab ctx)) (\<lambda>c. follows ctx c \<and> left c < left ctx)"
        by (simp add: keyval_safe_def)
      have "safe (seq (parse_keyval dbl n ctx (cx_curtab ctx)) (\<lambda>c1.
            if tk_tok (cx_tok c1) \<noteq> NEWLINE then fail (E_syntax (tk_line (cx_tok c1)))
            else seq (eat_token c1 NEWLINE True) (\<lambda>c2. toml_lines dbl n c2))) (line_ok a)"
      proof (rule safe_seqI [OF kv])
        fix c1 assume c1: "follows ctx c1 \<and> left c1 < left ctx"
        with Suc.prems(1) have l1: "line_ok a c1" by (blast intro: line_follows)
        have "safe (seq (eat_token c1 NEWLINE True) (\<lambda>c2. toml_lines dbl n c2)) (line_ok a)"
        proof (rule safe_seqI [OF eat_follows [OF follows_refl [OF line_okD(1) [OF l1]]]])
          fix c2 assume "follows c1 c2 \<and> left c2 \<le> left c1 \<and> (NEWLINE \<notin> {STRING, NEWLINE} \<longrightarrow> left c2 < left c1)"
          with l1 c1 show "safe (toml_lines dbl n c2) (line_ok a)" by (intro rest) (auto intro: line_follows)
        qed
        then show "safe (if tk_tok (cx_tok c1) \<noteq> NEWLINE then fail (E_syntax (tk_line (cx_tok c1)))
            else seq (eat_token c1 NEWLINE True) (\<lambda>c2. toml_lines dbl n c2)) (line_ok a)" by simp
      qed
      with str False show ?thesis by simp
    next
      case lb
      have "safe (seq (parse_select ctx) (toml_lines dbl n)) (line_ok a)"
        by (rule safe_seqI [OF parse_select_safe [OF ctx lb]]) (use rest Suc.prems(1) in \<open>auto intro: line_ok_trans\<close>)
      with lb False show ?thesis by simp
    next
      case other
      then show ?thesis by (cases "tk_tok (cx_tok ctx)") (simp_all add: False)
    qed
  qed (use Suc.prems(1) in simp)
qed simp

lemma first_token:
  assumes "next_token \<lparr>cx_src = conf, cx_tok = mk_token NEWLINE 1 0 0,
     cx_store = \<lparr>ts_tabs = [empty_table], ts_arrs = []\<rparr>, cx_curtab = 0, cx_tpath = []\<rparr> d = Some (Inr c)"
  shows "line_ok c c \<and> left c \<le> length conf"
proof -
  have "store_ok \<lparr>ts_tabs = [empty_table], ts_arrs = []\<rparr>"
    using one_table_ok by (simp add: store_ok_def one_table_def arrs_ok_def)
  with next_token_step [OF assms] show ?thesis
    by (auto simp: line_ok_def ctx_ok_def ctx_in_def left_def)
qed

lemma toml_parse_safe:
  assumes "2 * length conf + 3 < n"
  shows "safe (toml_parse dbl n conf) (\<lambda>st. store_ok st \<and> ts_tabs st \<noteq> [])"
  unfolding toml_parse_def
proof (rule safe_seqI)
  let ?i = "\<lparr>cx_src = conf, cx_tok = mk_token NEWLINE 1 0 0,
     cx_store = \<lparr>ts_tabs = [empty_table], ts_arrs = []\<rparr>, cx_curtab = 0, cx_tpath = []\<rparr>"
  obtain k where n: "n = Suc k" using assms by (cases n) auto
  have def: "next_token ?i True \<noteq> None"
    using lex_defined by (auto simp: next_token_def Let_def seq_def ok_def split: option.split sum.split)
  have "safe (seq (next_token ?i True) (toml_lines dbl k)) (\<lambda>c. store_ok (cx_store c) \<and> ts_tabs (cx_store c) \<noteq> [])"
  proof (rule safe_seqI [OF safeI [OF def]])
    show "line_ok c c \<and> left c \<le> length conf" if "next_token ?i True = Some (Inr c)" for c
      using that by (rule first_token)
    fix c assume c: "line_ok c c \<and> left c \<le> length conf"
    then have "2 * left c + 1 < k" using assms n by linarith
    with c show "safe (toml_lines dbl k c) (\<lambda>c. store_ok (cx_store c) \<and> ts_tabs (cx_store c) \<noteq> [])"
      by (intro safe_mono [OF toml_lines_safe]) (auto simp: line_ok_def ctx_ok_def store_ok_def)
  qed
  then show "safe (toml_lines dbl n ?i) (\<lambda>c. store_ok (cx_store c) \<and> ts_tabs (cx_store c) \<noteq> [])"
    by (simp add: n mk_token_def)
qed simp

text \<open>
  C7. With fuel above twice the length of the source and three, the parser of the configuration
  file ends on every source, without undefined behaviour and without a failing assertion: it
  reports an error or it gives a tree in which every key of every table names one entry, every
  table and array that a table refers to is there, and every item of an array is one value, one array
  or one table that is there, of the kind that the array has unless the array is mixed.
\<close>

theorem toml_parse_total:
  assumes "2 * length conf + 3 < n"
  shows "(\<exists>e. toml_parse dbl n conf = Some (Inl e)) \<or>
    (\<exists>st. toml_parse dbl n conf = Some (Inr st) \<and> toml_ok st \<and> arrs_ok st)"
  using toml_parse_safe [OF assms, of dbl] by (auto simp: safe_def store_ok_def split: option.splits sum.splits)

theorem toml_parse_total_witness:
  "(\<exists>e. toml_parse (\<lambda>_. False) 32 ''[[a]]'' = Some (Inl e)) \<or>
   (\<exists>st. toml_parse (\<lambda>_. False) 32 ''[[a]]'' = Some (Inr st) \<and> toml_ok st \<and> arrs_ok st)"
  by (rule toml_parse_total) simp

text \<open>
  \<open>toml_parse_file\<close> reads a file of any length in blocks of 1000 bytes, caps it inside its
  block, and parses what stands before the first byte that is zero; a failing read is an error.
\<close>

theorem toml_parse_file_reads:
  "((\<forall>k. \<not> bad k) \<longrightarrow> toml_parse_file dbl n bad file = toml_parse dbl n (c_string file)) \<and>
   (bad 0 \<longrightarrow> toml_parse_file dbl n bad file = Some (Inl E_read))"
proof (intro conjI impI)
  assume "\<forall>k. \<not> bad k"
  then have "\<not> (\<exists>j. bad j)" by simp
  from read_loop_all [where k = 0 and rest = "file" and buf = "[]" and r = 0, OF this] obtain room where "toml_read_loop bad 0 file [] 0 = Some (file, room)" "0 < room"
    by auto
  then show "toml_parse_file dbl n bad file = toml_parse dbl n (c_string file)"
    by (simp add: toml_parse_file_def c_string_cap)
next
  assume "bad 0"
  then show "toml_parse_file dbl n bad file = Some (Inl E_read)"
    by (simp add: toml_parse_file_def toml_read_loop.simps Let_def fail_def)
qed

theorem toml_parse_file_reads_witness:
  "toml_parse_file (\<lambda>_. False) 9 (\<lambda>_. False) [NUL, CHR ''x''] = toml_parse (\<lambda>_. False) 9 []"
  using toml_parse_file_reads [of "\<lambda>_. False" "\<lambda>_. False" 9 "[NUL, CHR ''x'']"] by (simp add: c_string_def)

end
