(* ===== verification/Sash_Match.thy ===== *)
theory Sash_Match
  imports Prelude
begin

text \<open>
  File modes, path names and wildcards of the shell (sash/utils.c: \<open>modeString\<close>,
  \<open>buildName\<close>, \<open>match\<close>). A pattern or a text is a string without its terminating
  NUL; \<^term>\<open>None\<close> is an access through a null pointer or behind a string.
\<close>

section \<open>Modes\<close>

definition mode_type :: "int \<Rightarrow> int" where
  "mode_type m = take_bit 4 (drop_bit 12 m)"

definition modeString :: "int \<Rightarrow> string" where
  "modeString m =
     (let b0 = (if mode_type m = 4 then CHR ''d'' else if mode_type m = 2 then CHR ''c''
            else if mode_type m = 6 then CHR ''b'' else if mode_type m = 1 then CHR ''p''
            else if mode_type m = 10 then CHR ''l'' else if mode_type m = 12 then CHR ''s'' else CHR ''-'');
          flag = (\<lambda>k c. if bit m k then c else CHR ''-'');
          magic = (\<lambda>k x lower upper. if bit m k then (if bit m x then lower else upper) else flag x (CHR ''x''))
      in [b0, flag 8 (CHR ''r''), flag 7 (CHR ''w''), magic 11 6 (CHR ''s'') (CHR ''S''),
          flag 5 (CHR ''r''), flag 4 (CHR ''w''), magic 10 3 (CHR ''s'') (CHR ''S''),
          flag 2 (CHR ''r''), flag 1 (CHR ''w''), magic 9 0 (CHR ''t'') (CHR ''T'')])"

text \<open>The bit of the mode that a character at a place of the string stands for.\<close>

definition mode_bit :: "string \<Rightarrow> nat \<Rightarrow> bool" where
  "mode_bit s k =
     (if k = 11 then s ! 3 \<in> {CHR ''s'', CHR ''S''}
      else if k = 10 then s ! 6 \<in> {CHR ''s'', CHR ''S''}
      else if k = 9 then s ! 9 \<in> {CHR ''t'', CHR ''T''}
      else s ! (9 - k) \<in> {CHR ''r'', CHR ''w'', CHR ''x'', CHR ''s'', CHR ''t''})"

lemma below_12:
  "(k::nat) < 12 \<Longrightarrow> k = 0 \<or> k = 1 \<or> k = 2 \<or> k = 3 \<or> k = 4 \<or> k = 5 \<or> k = 6 \<or> k = 7 \<or> k = 8 \<or> k = 9 \<or> k = 10 \<or> k = 11"
  by presburger

lemma mode_bit_string: "k < 12 \<Longrightarrow> mode_bit (modeString m) k \<longleftrightarrow> bit m k"
  by (drule below_12, elim disjE; simp add: mode_bit_def modeString_def Let_def split: if_split)

text \<open>
  The mode string has ten characters and shows all twelve permission bits: each of them can
  be read off the string, the set-user, set-group and sticky bits with and without the execute
  bit below them.
\<close>

theorem modeString_shows:
  "length (modeString m) = 10 \<and> (\<forall>k \<in> {0..<12}. mode_bit (modeString m) k \<longleftrightarrow> bit m k)"
  by (simp add: mode_bit_string) (simp add: modeString_def Let_def)

theorem modeString_shows_witness: "mode_bit (modeString 2541) 11 \<longleftrightarrow> bit (2541 :: int) 11"
  using modeString_shows [of 2541, THEN conjunct2, THEN bspec, of 11] by simp

section \<open>Path names\<close>

text \<open>\<open>buf\<close> has 1024 bytes.\<close>

definition base_name :: "string \<Rightarrow> string" where
  "base_name f = (if CHR ''/'' \<in> set f then rev (takeWhile (\<lambda>c. c \<noteq> CHR ''/'') (rev f)) else f)"

definition buildName :: "string option \<Rightarrow> string \<Rightarrow> string option" where
  "buildName dir file =
     (case dir of None \<Rightarrow> Some file
      | Some d \<Rightarrow> if d = [] then Some file
          else (let s = d @ ''/'' @ base_name file in if length s < 1024 then Some s else None))"

section \<open>Wildcards\<close>

text \<open>
  \<open>bracket c ps found\<close> reads a character class up to its closing bracket: whether \<open>c\<close> is in
  it and what follows; \<^term>\<open>None\<close> when the class is not closed.
\<close>

fun bracket :: "char \<Rightarrow> string \<Rightarrow> bool \<Rightarrow> (bool \<times> string) option" where
  "bracket c [] found = None"
| "bracket c (p # ps) found =
     (if p = CHR '']'' then Some (found, ps)
      else if p = BACKSLASH then (case ps of [] \<Rightarrow> None | q # qs \<Rightarrow> bracket c qs (found \<or> c = q))
      else bracket c ps (found \<or> c = p))"

lemma bracket_shorter: "bracket c ps found = Some (b, r) \<Longrightarrow> length r < length ps"
  by (induction c ps found rule: bracket.induct) (auto split: if_splits list.splits)

text \<open>The character that a pattern starts with when it is not special, quoted or not.\<close>

fun literal :: "string \<Rightarrow> (char \<times> string) option" where
  "literal [] = None"
| "literal (p # ps) = (if p = BACKSLASH then (case ps of [] \<Rightarrow> None | q # qs \<Rightarrow> Some (q, qs)) else Some (p, ps))"

lemma literal_shorter: "literal ps = Some (q, r) \<Longrightarrow> length r < length ps"
  by (cases ps) (auto split: if_splits list.splits)

lemma literal_special: "literal (p # ps) = Some (q, r) \<Longrightarrow> set r \<subseteq> set ps"
  by (auto split: if_splits list.splits)

declare literal.simps [simp del]

text \<open>
  The loop of \<open>match\<close>. \<open>rt\<close> is the text from \<open>retryText\<close> on (before the first star: the whole
  text) and \<open>text\<close> stands \<open>off\<close> characters further; \<open>rp\<close> is \<open>retryPat\<close>.
\<close>

function match_loop :: "string \<Rightarrow> nat \<Rightarrow> string \<Rightarrow> string option \<Rightarrow> bool option" where
  "match_loop rt off pat rp =
     (let text = drop off rt;
          retry = (case rp of None \<Rightarrow> Some False | Some p \<Rightarrow> if rt = [] then None else match_loop (drop 1 rt) 0 p rp)
      in case pat of
          [] \<Rightarrow> if text = [] then Some True else retry
        | p # ps \<Rightarrow>
            if p = CHR ''*'' then match_loop text 0 ps (Some ps)
            else if p = CHR ''['' then
              (case bracket (if text = [] then NUL else hd text) ps False of
                 None \<Rightarrow> Some False
               | Some (True, r) \<Rightarrow> if text = [] then Some False else match_loop rt (off + 1) r rp
               | Some (False, r) \<Rightarrow>
                   (case rp of None \<Rightarrow> None
                    | Some q \<Rightarrow> if rt = [] then None
                        else if drop 1 rt = [] then Some False else match_loop (drop 1 rt) 1 q rp))
            else if p = CHR ''?'' then (if text = [] then Some False else match_loop rt (off + 1) ps rp)
            else (case literal pat of
                None \<Rightarrow> Some False
              | Some (q, qs) \<Rightarrow> if text = [] then Some False
                  else if hd text = q then match_loop rt (off + 1) qs rp else retry))"
  by pat_completeness auto
termination
  by (relation "measures [\<lambda>(rt, off, pat, rp). length rt, \<lambda>(rt, off, pat, rp). length pat]")
    (auto dest: bracket_shorter literal_shorter)

declare match_loop.simps [simp del]

definition match :: "string \<Rightarrow> string \<Rightarrow> bool option" where
  "match text pattern = match_loop text 0 pattern None"


text \<open>What a pattern means: a star stands for any piece of the text.\<close>

function glob :: "string \<Rightarrow> string \<Rightarrow> bool" where
  "glob [] t = (t = [])"
| "glob (p # ps) t =
     (if p = CHR ''*'' then list_ex (\<lambda>k. glob ps (drop k t)) [0..<Suc (length t)]
      else if p = CHR ''['' then
        t \<noteq> [] \<and> (case bracket (hd t) ps False of None \<Rightarrow> False | Some (b, r) \<Rightarrow> b \<and> glob r (tl t))
      else if p = CHR ''?'' then t \<noteq> [] \<and> glob ps (tl t)
      else (case literal (p # ps) of None \<Rightarrow> False | Some (q, r) \<Rightarrow> t \<noteq> [] \<and> hd t = q \<and> glob r (tl t)))"
  by pat_completeness auto
termination
  by (relation "measure (\<lambda>(pat, t). length pat)") (auto dest: bracket_shorter literal_shorter)

lemma glob_star: "glob (CHR ''*'' # ps) t \<longleftrightarrow> (\<exists>k. glob ps (drop k t))"
proof
  assume "\<exists>k. glob ps (drop k t)"
  then obtain k where "glob ps (drop k t)" ..
  then show "glob (CHR ''*'' # ps) t" by (cases "k < length t") (auto simp: list_ex_iff)
next
  assume "glob (CHR ''*'' # ps) t"
  then show "\<exists>k. glob ps (drop k t)" by (auto simp: list_ex_iff simp del: upt_Suc)
qed

definition retries :: "string \<Rightarrow> string \<Rightarrow> string option \<Rightarrow> bool" where
  "retries rt pat rp \<longleftrightarrow> (\<exists>p k. rp = Some p \<and> 1 \<le> k \<and> k \<le> length rt \<and> glob p (drop k rt))"

definition linked :: "string \<Rightarrow> nat \<Rightarrow> string \<Rightarrow> string option \<Rightarrow> bool" where
  "linked rt off pat rp \<longleftrightarrow> (retries rt pat rp \<longrightarrow> (\<exists>j \<ge> 1. glob pat (drop j (drop off rt))))"

lemma linked_step:
  assumes "linked rt off pat rp" "drop off rt \<noteq> []"
    and "\<And>u. glob pat u \<Longrightarrow> glob r (tl u)"
  shows "linked rt (off + 1) r rp"
  unfolding linked_def
proof
  assume "retries rt r rp"
  then have "retries rt pat rp" by (simp add: retries_def)
  with assms(1) obtain j where j: "j \<ge> 1" "glob pat (drop j (drop off rt))" unfolding linked_def by auto
  from assms(3) [OF j(2)] have "glob r (drop j (drop (off + 1) rt))" by (simp add: tl_drop drop_Suc [symmetric] add.commute)
  with j(1) show "\<exists>j \<ge> 1. glob r (drop j (drop (off + 1) rt))" by blast
qed

lemma retries_step:
  assumes "rt \<noteq> []" "rp = Some p"
  shows "glob p (drop 1 rt) \<or> retries (drop 1 rt) p rp \<longleftrightarrow> retries rt q rp"
proof -
  obtain x ys where rt: "rt = x # ys" using assms(1) by (cases rt) auto
  have "retries rt q rp \<longleftrightarrow> (\<exists>k. k \<le> length ys \<and> glob p (drop k ys))"
  proof
    assume "retries rt q rp"
    then obtain k where "1 \<le> k" "k \<le> length rt" "glob p (drop k rt)" using assms(2) by (auto simp: retries_def)
    then show "\<exists>k. k \<le> length ys \<and> glob p (drop k ys)" by (cases k) (auto simp: rt)
  next
    assume "\<exists>k. k \<le> length ys \<and> glob p (drop k ys)"
    then obtain k where "k \<le> length ys" "glob p (drop k ys)" by blast
    then show "retries rt q rp" unfolding retries_def assms(2) by (intro exI [of _ p] exI [of _ "Suc k"]) (simp add: rt)
  qed
  moreover have "(\<exists>k. k \<le> length ys \<and> glob p (drop k ys)) \<longleftrightarrow> glob p ys \<or> (\<exists>k. 1 \<le> k \<and> k \<le> length ys \<and> glob p (drop k ys))"
    by (metis One_nat_def Suc_leI drop0 gr0I le0)
  ultimately show ?thesis using assms(2) by (simp add: rt retries_def)
qed

lemma match_loop_glob:
  "CHR ''['' \<notin> set pat \<Longrightarrow> (\<forall>p. rp = Some p \<longrightarrow> CHR ''['' \<notin> set p) \<Longrightarrow> linked rt off pat rp \<Longrightarrow>
   match_loop rt off pat rp = Some (glob pat (drop off rt) \<or> retries rt pat rp)"
proof (induction rt off pat rp rule: match_loop.induct)
  case (1 rt off pat rp)
  note prems = 1(7-)
  let ?text = "drop off rt"
  let ?retry = "case rp of None \<Rightarrow> Some False | Some p \<Rightarrow> if rt = [] then None else match_loop (drop 1 rt) 0 p rp"
  have fresh: "linked s 0 p (Some p)" for s p by (auto simp: linked_def retries_def)
  have retry: "?retry = Some (retries rt pat rp)" if "rt \<noteq> []"
  proof (cases rp)
    case (Some p)
    have "match_loop (drop 1 rt) 0 p rp = Some (glob p (drop 0 (drop 1 rt)) \<or> retries (drop 1 rt) p rp)"
      using 1(1) [OF refl Some that] prems(2) fresh Some by simp
    with retries_step [OF that Some] that Some show ?thesis by simp
  qed (simp add: retries_def)
  have stuck: "\<not> retries rt pat rp" if "\<And>j. \<not> glob pat (drop j ?text)"
    using prems(3) that by (auto simp: linked_def)
  show ?case
  proof (cases pat)
    case Nil
    show ?thesis
    proof (cases "?text = []")
      case False
      then have "rt \<noteq> []" by auto
      with retry False Nil show ?thesis by (subst match_loop.simps) (simp add: Let_def)
    qed (simp add: match_loop.simps Nil)
  next
    case (Cons p ps)
    have nb: "p \<noteq> CHR ''[''" "CHR ''['' \<notin> set ps" using prems(1) Cons by auto
    consider (star) "p = CHR ''*''" | (one) "p = CHR ''?''" | (lit) "p \<noteq> CHR ''*''" "p \<noteq> CHR ''?''" by blast
    then show ?thesis
    proof cases
      case star
      have "match_loop ?text 0 ps (Some ps) = Some (glob ps (drop 0 ?text) \<or> retries ?text ps (Some ps))"
        using 1(2) [OF refl refl Cons star] nb(2) fresh by simp
      moreover have "glob ps ?text \<or> retries ?text ps (Some ps) \<longleftrightarrow> glob pat ?text"
      proof
        assume "glob pat ?text"
        then obtain k where k: "glob ps (drop k ?text)" unfolding Cons star glob_star by auto
        show "glob ps ?text \<or> retries ?text ps (Some ps)"
        proof (cases "1 \<le> k \<and> k \<le> length ?text")
          case False
          then show ?thesis
          proof (cases "k = 0")
            case False
            with \<open>\<not> (1 \<le> k \<and> k \<le> length ?text)\<close> k have e: "glob ps []" by simp
            show ?thesis
            proof (cases "?text = []")
              case False
              with e show ?thesis unfolding retries_def
                by (intro disjI2 exI [of _ ps] exI [of _ "length ?text"]) (auto simp: Suc_le_eq)
            qed (use e in simp)
          qed (use k in simp)
        qed (use k in \<open>auto simp: retries_def\<close>)
      next
        assume "glob ps ?text \<or> retries ?text ps (Some ps)"
        then have "glob ps (drop 0 ?text) \<or> (\<exists>k. glob ps (drop k ?text))" by (auto simp: retries_def)
        then show "glob pat ?text" unfolding Cons star glob_star by blast
      qed
      moreover have "retries rt pat rp \<Longrightarrow> glob pat ?text"
      proof -
        assume "retries rt pat rp"
        with prems(3) obtain j where "glob pat (drop j ?text)" by (auto simp: linked_def)
        then obtain k where "glob ps (drop k (drop j ?text))" unfolding Cons star glob_star by blast
        then have "glob ps (drop (k + j) ?text)" by (simp add: add.assoc)
        then show "glob pat ?text" unfolding Cons star glob_star by blast
      qed
      moreover have "match_loop rt off pat rp = match_loop ?text 0 ps (Some ps)"
        by (subst match_loop.simps) (simp add: Let_def Cons star)
      ultimately show ?thesis by (simp only: drop0) blast
    next
      case one
      have g: "glob pat u \<longleftrightarrow> u \<noteq> [] \<and> glob ps (tl u)" for u by (simp add: Cons one)
      show ?thesis
      proof (cases "?text = []")
        case True
        have "\<not> retries rt pat rp" by (rule stuck) (simp add: g True)
        with True show ?thesis by (subst match_loop.simps) (simp add: Let_def Cons one)
      next
        case False
        have "linked rt (off + 1) ps rp" by (rule linked_step [OF prems(3) False]) (simp add: g)
        with 1(5) [OF refl refl Cons _ _ one False] nb one prems(2)
        have "match_loop rt (off + 1) ps rp = Some (glob ps (drop (off + 1) rt) \<or> retries rt ps rp)" by simp
        moreover have "drop (off + 1) rt = tl ?text" by (simp add: drop_Suc tl_drop)
        ultimately show ?thesis using False g [of ?text]
          by (subst match_loop.simps) (simp add: Let_def Cons one retries_def)
      qed
    next
      case lit
      have sp: "match_loop rt off pat rp = (case literal pat of None \<Rightarrow> Some False
          | Some (q, qs) \<Rightarrow> if ?text = [] then Some False
              else if hd ?text = q then match_loop rt (off + 1) qs rp else ?retry)"
        using lit nb by (subst match_loop.simps) (simp add: Let_def Cons)
      show ?thesis
      proof (cases "literal pat")
        case None
        have "\<not> glob pat u" for u using None lit nb by (simp add: Cons)
        with stuck None sp show ?thesis by simp
      next
        case (Some x)
        obtain q qs where x: "x = (q, qs)" by (cases x)
        have g: "glob pat u \<longleftrightarrow> u \<noteq> [] \<and> hd u = q \<and> glob qs (tl u)" for u using Some x lit nb by (simp add: Cons)
        show ?thesis
        proof (cases "?text = []")
          case True
          have "\<not> retries rt pat rp" by (rule stuck) (simp add: g True)
          with True g sp Some x show ?thesis by simp
        next
          case txt0: False
          then have rt: "rt \<noteq> []" by auto
          show ?thesis
          proof (cases "hd ?text = q")
            case True
            have "linked rt (off + 1) qs rp" by (rule linked_step [OF prems(3) txt0]) (simp add: g)
            moreover have "CHR ''['' \<notin> set qs" using literal_special [of p ps q qs] Some x nb by (auto simp: Cons)
            ultimately have "match_loop rt (off + 1) qs rp = Some (glob qs (drop (off + 1) rt) \<or> retries rt qs rp)"
              using 1(6) [OF refl refl Cons _ _ _ Some x[symmetric] txt0 True] lit nb prems(2) by simp
            moreover have "drop (off + 1) rt = tl ?text" by (simp add: drop_Suc tl_drop)
            ultimately show ?thesis using txt0 True g [of ?text] sp Some x by (simp add: retries_def)
          next
            case False
            with txt0 retry [OF rt] g [of ?text] sp Some x show ?thesis by simp
          qed
        qed
      qed
    qed
  qed
qed

text \<open>
  C10. On a pattern without character classes \<open>match\<close> ends and gives the meaning of the pattern:
  its single point of return, the last star, is enough, stars and quoted characters in any number.
\<close>

theorem match_is_glob:
  assumes "CHR ''['' \<notin> set pat"
  shows "match text pat = Some (glob pat text)"
  using match_loop_glob [where rp = None and off = 0] assms by (simp add: match_def linked_def retries_def)

theorem match_is_glob_witness: "match ''main.c'' ''*.?'' = Some (glob ''*.?'' ''main.c'')"
  by (rule match_is_glob) simp

text \<open>
  With a character class the loop goes wrong where the class does not hold the character: before
  the first star it reads through a null pointer, and behind a star it passes over a character, so
  a text that the pattern means is refused; an empty text is read behind its end.
\<close>

theorem match_class_fails:
  "match ''a'' ''[b]'' = None \<and> \<not> glob ''[b]'' ''a'' \<and>
   match ''ab'' ''*[b]'' = Some False \<and> glob ''*[b]'' ''ab'' \<and> match [] ''*[b]'' = None"
  by (simp add: match_def match_loop.simps literal.simps)

end
