(* ===== verification/Sash_Args.thy ===== *)
theory Sash_Args
  imports Sash_Match "HOL-Library.List_Lexorder" "HOL-Library.Char_ord"
begin

text \<open>
  The command line of the shell (sash/utils.c): \<open>expandWildCards\<close>, \<open>makeArgs\<close> and
  \<open>makeString\<close>. \<open>makeArgs\<close> works in place on a copy of the command, and its result points
  into that copy; the theory proves it equal to a splitting of the command by recursion on it.
  The files of a directory are a parameter: \<open>ls d\<close> is what \<open>readdir\<close> gives for \<open>d\<close>,
  \<^term>\<open>None\<close> where \<open>opendir\<close> fails. Allocation does not fail.
\<close>

definition isBlank :: "char \<Rightarrow> bool" where
  "isBlank c \<longleftrightarrow> c = CHR '' '' \<or> c = TAB"

definition isWildCard :: "char \<Rightarrow> bool" where
  "isWildCard c \<longleftrightarrow> c = CHR ''*'' \<or> c = CHR ''?'' \<or> c = CHR ''[''"

section \<open>File names\<close>

definition nameSort :: "string \<Rightarrow> string \<Rightarrow> int" where
  "nameSort s1 s2 = (if s1 < s2 then - 1 else if s1 = s2 then 0 else 1)"

text \<open>The files that match, with the directory in front of them.\<close>

fun select_names :: "string \<Rightarrow> string \<Rightarrow> string list \<Rightarrow> string list option" where
  "select_names dir pat [] = Some []"
| "select_names dir pat (f # fs) =
     (if f = ''.'' \<or> f = ''..'' then select_names dir pat fs
      else do {
        m \<leftarrow> match f pat;
        r \<leftarrow> select_names dir pat fs;
        Some (if m then (dir @ f) # r else r) })"

text \<open>\<open>dirName\<close> has 1024 bytes. The count is 0 without wildcards and -1 after an error.\<close>

definition expandWildCards :: "(string \<Rightarrow> string list option) \<Rightarrow> string \<Rightarrow> (int \<times> string list) option" where
  "expandWildCards ls pat =
     (if \<not> list_ex isWildCard pat then Some (0, [])
      else (let last = base_name pat; dir = take (length pat - length last) pat in
        if list_ex isWildCard dir then Some (- 1, [])
        else if length dir > 1024 then None
        else (let name = (if dir = [] then ''.'' else if butlast dir = [] then ''/'' else butlast dir) in
          (case ls name of
             None \<Rightarrow> Some (- 1, [])
           | Some names \<Rightarrow>
              (let bare = (dir = [] \<or> List.last name = CHR ''/'');
                   prefix = (if dir = [] then [] else if bare then name else name @ ''/'') in
               if \<not> bare \<and> length name + 1 \<ge> 1024 then None
               else do {
                 files \<leftarrow> select_names prefix last names;
                 Some (if files = [] then (- 1, []) else (int (length files), sort files)) })))))"

section \<open>The command line in place\<close>

datatype args_error = Bad_quoted_character | Unmatched_quote | Mixed_wildcards | Wildcards_failed

text \<open>An argument points into the copy of the command, or it is a file name.\<close>

datatype arg = In_buffer nat | Chunk string

text \<open>
  The inner loop: \<open>cp\<close> reads and \<open>out\<close> (\<open>cpOut\<close>) writes; it ends behind a blank or at the
  terminating NUL.
\<close>

function collect :: "string \<Rightarrow> nat \<Rightarrow> nat \<Rightarrow> char \<Rightarrow> bool \<Rightarrow> bool \<Rightarrow>
    (args_error + string \<times> nat \<times> nat \<times> char \<times> bool \<times> bool) option" where
  "collect s cp out quote qw uw =
     (if cp < length s then
        (let ch = s ! cp in
         if ch = NUL then Some (Inr (s, cp, out, quote, qw, uw))
         else if isBlank ch \<and> quote = NUL then Some (Inr (s, cp + 1, out, quote, qw, uw))
         else if ch = BACKSLASH then
           (if cp + 1 < length s then
              (let c = s ! (cp + 1) in
               if c = NUL then Some (Inl Bad_quoted_character)
               else if out < length s then collect (s[out := c]) (cp + 2) (out + 1) quote (qw \<or> isWildCard c) uw
               else None)
            else None)
         else
           (let qw' = (qw \<or> isWildCard ch \<and> quote \<noteq> NUL); uw' = (uw \<or> isWildCard ch \<and> quote = NUL) in
            if ch = quote then collect s (cp + 1) out NUL qw' uw'
            else if quote = NUL \<and> (ch = SQUOTE \<or> ch = DQUOTE) then collect s (cp + 1) out ch qw' uw'
            else if out < length s then collect (s[out := ch]) (cp + 1) (out + 1) quote qw' uw'
            else None))
      else None)"
  by pat_completeness auto
termination by (relation "measure (\<lambda>(s, cp, out, quote, qw, uw). length s - cp)") auto

declare collect.simps [simp del]

text \<open>The steps of the loop, one equation for each kind of character.\<close>

lemma collect_NUL: "cp < length s \<Longrightarrow> s ! cp = NUL \<Longrightarrow> collect s cp out quote qw uw = Some (Inr (s, cp, out, quote, qw, uw))"
  by (simp add: collect.simps)

lemma collect_blank:
  "cp < length s \<Longrightarrow> isBlank (s ! cp) \<Longrightarrow> quote = NUL \<Longrightarrow>
   collect s cp out quote qw uw = Some (Inr (s, cp + 1, out, quote, qw, uw))"
  by (subst collect.simps) (auto simp: Let_def isBlank_def)

lemma collect_backslash:
  "cp < length s \<Longrightarrow> s ! cp = BACKSLASH \<Longrightarrow>
   collect s cp out quote qw uw =
     (if cp + 1 < length s then
        (if s ! (cp + 1) = NUL then Some (Inl Bad_quoted_character)
         else if out < length s then
           collect (s[out := s ! (cp + 1)]) (cp + 2) (out + 1) quote (qw \<or> isWildCard (s ! (cp + 1))) uw
         else None)
      else None)"
  by (subst collect.simps) (simp add: Let_def isBlank_def)

lemma collect_plain:
  assumes "cp < length s" "s ! cp \<noteq> NUL" "\<not> (isBlank (s ! cp) \<and> quote = NUL)" "s ! cp \<noteq> BACKSLASH"
  shows "collect s cp out quote qw uw =
     (if s ! cp = quote then
        collect s (cp + 1) out NUL (qw \<or> isWildCard (s ! cp) \<and> quote \<noteq> NUL) (uw \<or> isWildCard (s ! cp) \<and> quote = NUL)
      else if quote = NUL \<and> (s ! cp = SQUOTE \<or> s ! cp = DQUOTE) then
        collect s (cp + 1) out (s ! cp) (qw \<or> isWildCard (s ! cp) \<and> quote \<noteq> NUL) (uw \<or> isWildCard (s ! cp) \<and> quote = NUL)
      else if out < length s then
        collect (s[out := s ! cp]) (cp + 1) (out + 1) quote
          (qw \<or> isWildCard (s ! cp) \<and> quote \<noteq> NUL) (uw \<or> isWildCard (s ! cp) \<and> quote = NUL)
      else None)"
  by (subst collect.simps) (simp only: Let_def assms if_True if_False simp_thms)

lemma collect_forward:
  "collect s cp out quote qw uw = Some (Inr (s', cp', r)) \<Longrightarrow> length s' = length s \<and> cp \<le> cp' \<and> (s ! cp \<noteq> NUL \<longrightarrow> cp < cp')"
proof (induction "length s - cp" arbitrary: s cp out quote qw uw rule: less_induct)
  case less
  have go: "length s' = length s \<and> cp \<le> cp' \<and> (s ! cp \<noteq> NUL \<longrightarrow> cp < cp')"
    if "collect t (cp + k) out' quote' qw' uw' = Some (Inr (s', cp', r))" "0 < k" "cp < length s" "length t = length s"
    for t k out' quote' qw' uw'
  proof -
    have "length t - (cp + k) < length s - cp" using that(2-4) by linarith
    from less.hyps [OF this that(1)] that(2,4) show ?thesis by linarith
  qed
  have inside: "cp < length s" using less.prems by (subst (asm) collect.simps) (auto split: if_splits)
  consider "s ! cp = NUL" | "isBlank (s ! cp)" "quote = NUL" | "s ! cp = BACKSLASH"
    | "s ! cp \<noteq> NUL" "\<not> (isBlank (s ! cp) \<and> quote = NUL)" "s ! cp \<noteq> BACKSLASH" by blast
  then show ?case
  proof cases
    case 1
    with less.prems show ?thesis by (simp add: collect_NUL [OF inside])
  next
    case 2
    with less.prems show ?thesis by (simp add: collect_blank [OF inside])
  next
    case 3
    from less.prems [unfolded collect_backslash [OF inside 3]]
    have "collect (s[out := s ! (cp + 1)]) (cp + 2) (out + 1) quote (qw \<or> isWildCard (s ! (cp + 1))) uw = Some (Inr (s', cp', r))"
      by (simp split: if_splits)
    from go [OF this _ inside] show ?thesis by simp
  next
    case 4
    obtain t out' q' qw' uw' where "collect t (cp + 1) out' q' qw' uw' = Some (Inr (s', cp', r))" "length t = length s"
      using less.prems [unfolded collect_plain [OF inside 4]] length_list_update by (metis option.distinct(1))
    from go [OF this(1) _ inside this(2)] show ?thesis by simp
  qed
qed

function skip_blanks :: "string \<Rightarrow> nat \<Rightarrow> (string \<times> nat) option" where
  "skip_blanks s cp =
     (if cp < length s then (if isBlank (s ! cp) then skip_blanks (s[cp := NUL]) (cp + 1) else Some (s, cp)) else None)"
  by pat_completeness auto
termination by (relation "measure (\<lambda>(s, cp). length s - cp)") auto

declare skip_blanks.simps [simp del]

lemma skip_blanks_forward: "skip_blanks s cp = Some (s', cp') \<Longrightarrow> length s' = length s \<and> cp \<le> cp'"
proof (induction s cp rule: skip_blanks.induct)
  case (1 s cp)
  from 1(2) show ?case
    by (subst (asm) skip_blanks.simps) (auto split: if_splits dest: 1(1))
qed

definition c_text :: "string \<Rightarrow> nat \<Rightarrow> string" where
  "c_text s p = takeWhile (\<lambda>c. c \<noteq> NUL) (drop p s)"

function args_loop :: "(string \<Rightarrow> string list option) \<Rightarrow> string \<Rightarrow> nat \<Rightarrow> arg list \<Rightarrow>
    (args_error + string \<times> arg list) option" where
  "args_loop ls s cp args =
     (if cp < length s then
        (if s ! cp = NUL then Some (Inr (s, args))
         else (case collect s cp cp NUL False False of
             None \<Rightarrow> None
           | Some (Inl e) \<Rightarrow> Some (Inl e)
           | Some (Inr (s1, cp1, out, quote, qw, uw)) \<Rightarrow>
               if quote \<noteq> NUL then Some (Inl Unmatched_quote)
               else (case skip_blanks (if cp1 \<noteq> out then s1[out := NUL] else s1) cp1 of
                   None \<Rightarrow> None
                 | Some (s3, cp3) \<Rightarrow>
                     if qw \<and> uw then Some (Inl Mixed_wildcards)
                     else if uw then
                       (case expandWildCards ls (c_text s3 cp) of
                          None \<Rightarrow> None
                        | Some (n, files) \<Rightarrow>
                            if n \<le> 0 then Some (Inl Wildcards_failed)
                            else args_loop ls s3 cp3 (args @ map Chunk files))
                     else args_loop ls s3 cp3 (args @ [In_buffer cp]))))
      else None)"
  by pat_completeness auto
termination
  by (relation "measure (\<lambda>(ls, s, cp, args). length s - cp)")
    (auto dest!: skip_blanks_forward collect_forward split: if_splits)

declare args_loop.simps [simp del]

fun arg_text :: "string \<Rightarrow> arg \<Rightarrow> string" where
  "arg_text s (In_buffer p) = c_text s p"
| "arg_text s (Chunk f) = f"

text \<open>
  The texts of the arguments. \<open>stale\<close> is what the buffer holds behind the copy of the command, and
  \<open>table\<close> whether the table of the arguments exists already: its end is written to without one.
\<close>

definition makeArgs ::
  "(string \<Rightarrow> string list option) \<Rightarrow> bool \<Rightarrow> string \<Rightarrow> string \<Rightarrow> (args_error + string list) option" where
  "makeArgs ls table stale cmd =
     (case args_loop ls (cmd @ [NUL] @ stale) 0 [] of
        None \<Rightarrow> None
      | Some (Inl e) \<Rightarrow> Some (Inl e)
      | Some (Inr (s, args)) \<Rightarrow> if args = [] \<and> \<not> table then None else Some (Inr (map (arg_text s) args)))"

section \<open>The command line as a list of words\<close>

text \<open>A word: its text, what follows it, the open quote, and whether it has wildcards inside and outside of quotes.\<close>

fun word :: "char \<Rightarrow> bool \<Rightarrow> bool \<Rightarrow> string \<Rightarrow> string \<Rightarrow> args_error + string \<times> string \<times> char \<times> bool \<times> bool" where
  "word quote qw uw acc [] = Inr (acc, [], quote, qw, uw)"
| "word quote qw uw acc (c # cs) =
     (if isBlank c \<and> quote = NUL then Inr (acc, cs, quote, qw, uw)
      else if c = BACKSLASH then
        (case cs of [] \<Rightarrow> Inl Bad_quoted_character | d # ds \<Rightarrow> word quote (qw \<or> isWildCard d) uw (acc @ [d]) ds)
      else
        (let qw' = (qw \<or> isWildCard c \<and> quote \<noteq> NUL); uw' = (uw \<or> isWildCard c \<and> quote = NUL) in
         if c = quote then word NUL qw' uw' acc cs
         else if quote = NUL \<and> (c = SQUOTE \<or> c = DQUOTE) then word c qw' uw' acc cs
         else word quote qw' uw' (acc @ [c]) cs))"

lemma backslash_not_blank [simp]: "\<not> isBlank BACKSLASH"
  by (simp add: isBlank_def)

lemma word_shorter: "word quote qw uw acc cs = Inr (w, r, x) \<Longrightarrow> length r \<le> length cs \<and> (cs \<noteq> [] \<longrightarrow> length r < length cs)"
proof (induction quote qw uw acc cs rule: word.induct)
  case (2 quote qw uw acc c cs)
  show ?case
  proof (cases "c = BACKSLASH \<and> \<not> (isBlank c \<and> quote = NUL)")
    case True
    with 2(5) 2(1) show ?thesis by (cases cs) fastforce+
  next
    case False
    with 2(5) 2(2-4) show ?thesis by (fastforce simp: Let_def split: if_splits)
  qed
qed simp

lemma word_rest: "word quote qw uw acc cs = Inr (w, r, x) \<Longrightarrow> set r \<subseteq> set cs"
proof (induction quote qw uw acc cs rule: word.induct)
  case (2 quote qw uw acc c cs)
  show ?case
  proof (cases "c = BACKSLASH \<and> \<not> (isBlank c \<and> quote = NUL)")
    case True
    then obtain d ds where cs: "cs = d # ds" using 2(5) by (cases cs) auto
    have "set r \<subseteq> set ds" using 2(1) [OF _ _ cs] True 2(5) by (simp add: cs)
    then show ?thesis by (auto simp: cs)
  next
    case False
    with 2(5) 2(2-4) show ?thesis by (fastforce simp: Let_def split: if_splits)
  qed
qed simp

function split_words :: "(string \<Rightarrow> string list option) \<Rightarrow> string \<Rightarrow> (args_error + string list) option" where
  "split_words ls cs =
     (if cs = [] then Some (Inr [])
      else (case word NUL False False [] cs of
          Inl e \<Rightarrow> Some (Inl e)
        | Inr (w, r, quote, qw, uw) \<Rightarrow>
            if quote \<noteq> NUL then Some (Inl Unmatched_quote)
            else if qw \<and> uw then Some (Inl Mixed_wildcards)
            else if uw then
              (case expandWildCards ls w of
                 None \<Rightarrow> None
               | Some (n, files) \<Rightarrow>
                   if n \<le> 0 then Some (Inl Wildcards_failed)
                   else (case split_words ls (dropWhile isBlank r) of
                       Some (Inr ws) \<Rightarrow> Some (Inr (files @ ws)) | res \<Rightarrow> res))
            else (case split_words ls (dropWhile isBlank r) of
                Some (Inr ws) \<Rightarrow> Some (Inr (w # ws)) | res \<Rightarrow> res)))"
  by pat_completeness auto
termination
  by (relation "measure (\<lambda>(ls, cs). length cs)")
    (auto dest!: word_shorter intro: le_less_trans [OF length_dropWhile_le])

declare split_words.simps [simp del]

definition at_text :: "string \<Rightarrow> nat \<Rightarrow> string \<Rightarrow> string \<Rightarrow> bool" where
  "at_text s cp cs st \<longleftrightarrow> cp < length s \<and> drop cp s = cs @ NUL # st"

lemma at_text_Nil: "at_text s cp [] st \<Longrightarrow> cp < length s \<and> s ! cp = NUL"
  by (auto simp: at_text_def nth_via_drop)

lemma at_text_Cons:
  "at_text s cp (c # cs) st \<Longrightarrow> cp < length s \<and> s ! cp = c \<and> at_text s (cp + 1) cs st"
proof -
  assume a: "at_text s cp (c # cs) st"
  then have "drop (cp + 1) s = tl (c # cs @ NUL # st)" by (simp add: at_text_def drop_Suc tl_drop [symmetric])
  then have "drop (cp + 1) s = cs @ NUL # st" by simp
  moreover from this have "cp + 1 < length s" by (metis drop_all list.distinct(1) not_le_imp_less Nil_is_append_conv)
  ultimately show ?thesis using a by (auto simp: at_text_def nth_via_drop)
qed

lemma at_text_write: "at_text s cp cs st \<Longrightarrow> out < cp \<Longrightarrow> at_text (s[out := c]) cp cs st"
  by (simp add: at_text_def)

lemma written_text:
  "a \<le> out \<Longrightarrow> out < length s \<Longrightarrow> drop a (take (out + 1) (s[out := c])) = drop a (take out s) @ [c]"
  by (simp add: take_Suc_conv_app_nth)

lemma collect_word:
  "NUL \<notin> set cs \<Longrightarrow> at_text s cp cs st \<Longrightarrow> a \<le> out \<Longrightarrow> out \<le> cp \<Longrightarrow> acc = drop a (take out s) \<Longrightarrow>
   (case word quote qw uw acc cs of
      Inl e \<Rightarrow> collect s cp out quote qw uw = Some (Inl e)
    | Inr (w, r, q', qw', uw') \<Rightarrow> \<exists>s' cp' out'. collect s cp out quote qw uw = Some (Inr (s', cp', out', q', qw', uw')) \<and>
        length s' = length s \<and> at_text s' cp' r st \<and> take a s' = take a s \<and> drop a (take out' s') = w \<and>
        a \<le> out' \<and> out' \<le> cp' \<and> (out' = cp' \<longrightarrow> r = []))"
proof (induction quote qw uw acc cs arbitrary: s cp out rule: word.induct)
  case (1 quote qw uw acc)
  with collect_NUL at_text_Nil [OF 1(2)] show ?case by simp
next
  case (2 quote qw uw acc c cs)
  note IH = 2(1-4) and nul = 2(5) and at = 2(6) and out = 2(7,8) and acc = 2(9)
  note here = at_text_Cons [OF at]
  then have inside: "cp < length s" and c: "s ! cp = c" and at1: "at_text s (cp + 1) cs st" by simp_all
  have oi: "out < length s" using out inside by simp
  consider (blank) "isBlank c" "quote = NUL" | (bs) "c = BACKSLASH" "\<not> (isBlank c \<and> quote = NUL)"
    | (plain) "\<not> (isBlank c \<and> quote = NUL)" "c \<noteq> BACKSLASH" by blast
  then show ?case
  proof cases
    case blank
    then show ?thesis using collect_blank [OF inside] c at1 out acc by simp
  next
    case bs
    show ?thesis
    proof (cases cs)
      case Nil
      then have "cp + 1 < length s" "s ! (cp + 1) = NUL" using at_text_Nil at1 by auto
      with collect_backslash [OF inside] bs c Nil show ?thesis by simp
    next
      case (Cons d ds)
      note n = at_text_Cons [OF at1 [unfolded Cons]]
      have d: "cp + 1 < length s" "s ! (cp + 1) = d" "at_text s (cp + 2) ds st" using n by simp_all
      have dn: "d \<noteq> NUL" using nul Cons by auto
      let ?s = "s[out := d]"
      have at2: "at_text ?s (cp + 2) ds st" using d(3) out by (intro at_text_write) auto
      have acc2: "acc @ [d] = drop a (take (out + 1) ?s)"
        using written_text [OF out(1) oi] acc by simp
      have nul2: "NUL \<notin> set ds" using nul Cons by auto
      have ao: "a \<le> out + 1" "out + 1 \<le> cp + 2" using out by simp_all
      have ih: "case word quote (qw \<or> isWildCard d) uw (acc @ [d]) ds of
          Inl e \<Rightarrow> collect ?s (cp + 2) (out + 1) quote (qw \<or> isWildCard d) uw = Some (Inl e)
        | Inr (w, r, q', qw', uw') \<Rightarrow> \<exists>s' cp' out'. collect ?s (cp + 2) (out + 1) quote (qw \<or> isWildCard d) uw = Some (Inr (s', cp', out', q', qw', uw')) \<and>
            length s' = length ?s \<and> at_text s' cp' r st \<and> take a s' = take a ?s \<and> drop a (take out' s') = w \<and>
            a \<le> out' \<and> out' \<le> cp' \<and> (out' = cp' \<longrightarrow> r = [])"
        by (rule IH(1) [OF bs(2) bs(1) Cons nul2 at2 ao acc2])
      have eq: "collect s cp out quote qw uw = collect ?s (cp + 2) (out + 1) quote (qw \<or> isWildCard d) uw"
        using collect_backslash [OF inside] bs c d dn oi by simp
      have w: "word quote qw uw acc (c # cs) = word quote (qw \<or> isWildCard d) uw (acc @ [d]) ds"
        using bs Cons by simp
      have tk: "take a ?s = take a s" using out(1) by simp
      show ?thesis using ih unfolding eq w tk length_list_update .
    qed
  next
    case plain
    let ?qw = "qw \<or> isWildCard c \<and> quote \<noteq> NUL" and ?uw = "uw \<or> isWildCard c \<and> quote = NUL"
    have nc: "s ! cp \<noteq> NUL" "NUL \<notin> set cs" using c nul by auto
    have o1: "out \<le> cp + 1" using out(2) by simp
    note eq = collect_plain [OF inside nc(1), unfolded c, OF plain]
    consider (same) "c = quote" | (open_) "c \<noteq> quote" "quote = NUL \<and> (c = SQUOTE \<or> c = DQUOTE)"
      | (store) "c \<noteq> quote" "\<not> (quote = NUL \<and> (c = SQUOTE \<or> c = DQUOTE))" by blast
    then show ?thesis
    proof cases
      case same
      have w: "word quote qw uw acc (c # cs) = word NUL ?qw ?uw acc cs"
        using plain same by (auto simp: Let_def)
      have cl: "collect s cp out quote qw uw = collect s (cp + 1) out NUL ?qw ?uw" using eq same by simp
      show ?thesis unfolding w cl by (rule IH(2) [OF plain refl refl same nc(2) at1 out(1) o1 acc])
    next
      case open_
      have w: "word quote qw uw acc (c # cs) = word c ?qw ?uw acc cs"
        using plain open_ by (auto simp: Let_def)
      have cl: "collect s cp out quote qw uw = collect s (cp + 1) out c ?qw ?uw" using eq open_ by auto
      show ?thesis unfolding w cl by (rule IH(3) [OF plain refl refl open_ nc(2) at1 out(1) o1 acc])
    next
      case store
      let ?s = "s[out := c]"
      have w: "word quote qw uw acc (c # cs) = word quote ?qw ?uw (acc @ [c]) cs"
        using plain store by (auto simp: Let_def)
      have cl: "collect s cp out quote qw uw = collect ?s (cp + 1) (out + 1) quote ?qw ?uw" using eq store oi by auto
      have at2: "at_text ?s (cp + 1) cs st" using at1 out by (intro at_text_write) auto
      have acc2: "acc @ [c] = drop a (take (out + 1) ?s)" using written_text [OF out(1) oi] acc by simp
      have ao: "a \<le> out + 1" "out + 1 \<le> cp + 1" using out by simp_all
      have ih: "case word quote ?qw ?uw (acc @ [c]) cs of
          Inl e \<Rightarrow> collect ?s (cp + 1) (out + 1) quote ?qw ?uw = Some (Inl e)
        | Inr (w, r, q', qw', uw') \<Rightarrow> \<exists>s' cp' out'. collect ?s (cp + 1) (out + 1) quote ?qw ?uw = Some (Inr (s', cp', out', q', qw', uw')) \<and>
            length s' = length ?s \<and> at_text s' cp' r st \<and> take a s' = take a ?s \<and> drop a (take out' s') = w \<and>
            a \<le> out' \<and> out' \<le> cp' \<and> (out' = cp' \<longrightarrow> r = [])"
        by (rule IH(4) [OF plain refl refl store nc(2) at2 ao acc2])
      have tk: "take a ?s = take a s" using out(1) by simp
      show ?thesis using ih unfolding w cl tk length_list_update .
    qed
  qed
qed

text \<open>The blanks between two arguments are overwritten.\<close>

lemma skip_blanks_text:
  "NUL \<notin> set cs \<Longrightarrow> at_text s cp cs st \<Longrightarrow>
   \<exists>s' cp'. skip_blanks s cp = Some (s', cp') \<and> at_text s' cp' (dropWhile isBlank cs) st \<and> take cp s' = take cp s \<and>
     (cp < cp' \<longrightarrow> s' ! cp = NUL) \<and> cp \<le> cp' \<and> (cp = cp' \<longrightarrow> s' = s)"
proof (induction cs arbitrary: s cp)
  case Nil
  from at_text_Nil [OF Nil(2)] Nil show ?case by (subst skip_blanks.simps) (simp add: isBlank_def)
next
  case (Cons c cs)
  from at_text_Cons [OF Cons(3)] have here: "cp < length s" "s ! cp = c" "at_text s (cp + 1) cs st" by simp_all
  show ?case
  proof (cases "isBlank c")
    case True
    have "at_text (s[cp := NUL]) (cp + 1) cs st" using here(3) by (intro at_text_write) simp_all
    from Cons(1) [OF _ this] Cons(2) obtain s' cp' where
      "skip_blanks (s[cp := NUL]) (cp + 1) = Some (s', cp')" "at_text s' cp' (dropWhile isBlank cs) st"
      "take (cp + 1) s' = take (cp + 1) (s[cp := NUL])" "cp + 1 \<le> cp'" by auto
    moreover from this(3) have "take cp s' = take cp s" "s' ! cp = NUL"
    proof -
      assume t: "take (cp + 1) s' = take (cp + 1) (s[cp := NUL])"
      have "take cp s' = take cp (take (cp + 1) s')" by simp
      also have "\<dots> = take cp s" unfolding t by simp
      finally show "take cp s' = take cp s" .
      have "s' ! cp = take (cp + 1) s' ! cp" by simp
      also have "\<dots> = NUL" unfolding t using here(1) by simp
      finally show "s' ! cp = NUL" .
    qed
    moreover have "skip_blanks s cp = skip_blanks (s[cp := NUL]) (cp + 1)"
      using here True by (subst skip_blanks.simps) simp
    ultimately show ?thesis using True by auto
  next
    case False
    with here Cons(3) show ?thesis by (subst skip_blanks.simps) simp
  qed
qed

lemma drop_split: "a \<le> n \<Longrightarrow> n \<le> length s \<Longrightarrow> drop a s = drop a (take n s) @ drop n s"
  using drop_append [of a "take n s" "drop n s"] by (simp add: min_def)

lemma c_text_eq:
  assumes "drop a (take out s) = w" "a \<le> out" "out < length s" "s ! out = NUL" "NUL \<notin> set w"
  shows "c_text s a = w"
proof -
  have "drop a s = drop a (take out s) @ drop out s"
    using assms(2,3) by (intro drop_split) simp_all
  also have "drop out s = NUL # drop (Suc out) s" using assms(3,4) by (simp add: Cons_nth_drop_Suc [symmetric])
  finally have "drop a s = w @ NUL # drop (Suc out) s" using assms(1) by simp
  moreover have "takeWhile (\<lambda>c. c \<noteq> NUL) (w @ NUL # r) = w" for r using assms(5) by (induction w) auto
  ultimately show ?thesis by (simp add: c_text_def)
qed

lemma c_text_stable:
  assumes "take n s' = take n s" "p \<le> q" "q < n" "q < length s" "s ! q = NUL"
  shows "c_text s' p = c_text s p"
proof -
  have c: "c_text t p = takeWhile (\<lambda>c. c \<noteq> NUL) (drop p (take n t))" if "q < length t" "t ! q = NUL" for t
  proof -
    have e: "drop p t = drop p (take n t) @ drop n t"
      using assms(2,3) drop_split [of p n t] by (cases "n \<le> length t") simp_all
    have "NUL \<in> set (drop p (take n t))"
      using that assms(2,3) by (auto simp: in_set_conv_nth intro!: exI [of _ "q - p"])
    then show ?thesis unfolding c_text_def by (subst e) (rule takeWhile_append1, assumption, simp)
  qed
  have "q < length s'" "s' ! q = s ! q"
    using assms by (metis length_take min_less_iff_conj, metis nth_take)
  with c [of s] c [of s'] assms show ?thesis by simp
qed

text \<open>The arguments found so far end before the rest of the command.\<close>

definition ended :: "string \<Rightarrow> nat \<Rightarrow> arg list \<Rightarrow> bool" where
  "ended s cp args \<longleftrightarrow> (\<forall>p. In_buffer p \<in> set args \<longrightarrow> (\<exists>q. p \<le> q \<and> q \<le> cp \<and> q < length s \<and> s ! q = NUL))"

lemma ended_texts:
  assumes "ended s cp args" "s ! cp \<noteq> NUL" "take cp s' = take cp s"
  shows "map (arg_text s') args = map (arg_text s) args"
proof (rule map_cong [OF refl])
  fix x assume x: "x \<in> set args"
  show "arg_text s' x = arg_text s x"
  proof (cases x)
    case (In_buffer p)
    with x assms(1) obtain q where q: "p \<le> q" "q \<le> cp" "q < length s" "s ! q = NUL" by (auto simp: ended_def)
    with assms(2) have "q < cp" by (cases "q = cp") auto
    with c_text_stable [OF assms(3) q(1) _ q(3,4)] In_buffer show ?thesis by simp
  qed simp
qed

lemma word_no_NUL: "NUL \<notin> set cs \<Longrightarrow> NUL \<notin> set acc \<Longrightarrow> word quote qw uw acc cs = Inr (w, r, x) \<Longrightarrow> NUL \<notin> set w"
proof (induction quote qw uw acc cs rule: word.induct)
  case (2 quote qw uw acc c cs)
  show ?case
  proof (cases "c = BACKSLASH \<and> \<not> (isBlank c \<and> quote = NUL)")
    case True
    then obtain d ds where cs: "cs = d # ds" using 2(7) by (cases cs) auto
    then show ?thesis using 2(1) [OF _ _ cs] True 2(5-7) by simp
  next
    case False
    with 2(5-7) 2(2-4) show ?thesis by (fastforce simp: Let_def split: if_splits)
  qed
qed simp

lemma one_word:
  assumes cs: "NUL \<notin> set cs" "cs \<noteq> []" and at: "at_text s cp cs st"
    and w: "word NUL False False [] cs = Inr (w, r, NUL, qw, uw)"
  obtains s1 cp1 out s3 cp3 where "collect s cp cp NUL False False = Some (Inr (s1, cp1, out, NUL, qw, uw))"
    "skip_blanks (if cp1 \<noteq> out then s1[out := NUL] else s1) cp1 = Some (s3, cp3)"
    "at_text s3 cp3 (dropWhile isBlank r) st" "take cp s3 = take cp s" "c_text s3 cp = w"
    "\<exists>q. cp \<le> q \<and> q \<le> cp3 \<and> q < length s3 \<and> s3 ! q = NUL" "cp \<le> cp3" "length s3 = length s"
proof -
  have "drop cp (take cp s) = []" by simp
  from collect_word [OF cs(1) at order.refl order.refl this [symmetric], of NUL False False] w
  obtain s1 cp1 out where c: "collect s cp cp NUL False False = Some (Inr (s1, cp1, out, NUL, qw, uw))"
    "length s1 = length s" "at_text s1 cp1 r st" "take cp s1 = take cp s" "drop cp (take out s1) = w"
    "cp \<le> out" "out \<le> cp1" "out = cp1 \<longrightarrow> r = []" by auto
  have nr: "NUL \<notin> set r" "NUL \<notin> set w" using word_rest [OF w] word_no_NUL [OF cs(1) _ w] cs(1) by auto
  let ?s2 = "if cp1 \<noteq> out then s1[out := NUL] else s1"
  have cp1: "cp1 < length s1" using c(3) by (simp add: at_text_def)
  have s2: "at_text ?s2 cp1 r st" "length ?s2 = length s" "take out ?s2 = take out s1"
    using c(2,3,7) by (auto intro: at_text_write)
  have s2out: "?s2 ! out = NUL"
  proof (cases "cp1 = out")
    case True
    with c(3,8) at_text_Nil [of s1 cp1 st] show ?thesis by auto
  qed (use c(7) cp1 in simp)
  from skip_blanks_text [OF nr(1) s2(1)] obtain s3 cp3 where s3: "skip_blanks ?s2 cp1 = Some (s3, cp3)"
    "at_text s3 cp3 (dropWhile isBlank r) st" "take cp1 s3 = take cp1 ?s2" "cp1 \<le> cp3" "cp1 = cp3 \<longrightarrow> s3 = ?s2"
    "cp1 < cp3 \<longrightarrow> s3 ! cp1 = NUL" by auto
  have len: "length s3 = length s" using skip_blanks_forward [OF s3(1)] s2(2) by simp
  have t: "take n s3 = take n ?s2" if "n \<le> cp1" for n
    using arg_cong [OF s3(3), of "take n"] that by (simp only: take_take min.absorb1)
  have "take cp s3 = take cp s"
    using t [of cp] arg_cong [OF s2(3), of "take cp"] c(4,6,7) by (simp only: take_take min.absorb1 order_trans)
  moreover have end3: "s3 ! out = NUL"
  proof (cases "out < cp1")
    case True
    have "s3 ! out = take cp1 s3 ! out" using True by simp
    also have "\<dots> = ?s2 ! out" unfolding s3(3) using True by simp
    finally show ?thesis using s2out by simp
  next
    case False
    with c(7) have "out = cp1" by simp
    with s3(4-6) s2out show ?thesis by (cases "cp1 = cp3") auto
  qed
  moreover have "c_text s3 cp = w"
  proof (rule c_text_eq [of cp out])
    have "take out s3 = take out s1" using t [OF c(7)] s2(3) by (rule trans)
    then show "drop cp (take out s3) = w" using c(5) by simp
  qed (use c(2,6,7) cp1 len end3 nr(2) in auto)
  ultimately show thesis
    using that [OF c(1) s3(1,2)] c(2,6,7) s3(4) len cp1 by (metis order_trans order_le_less_trans)
qed

lemma args_loop_words:
  "NUL \<notin> set cs \<Longrightarrow> at_text s cp cs st \<Longrightarrow> ended s cp args \<Longrightarrow>
   (case split_words ls cs of
      None \<Rightarrow> args_loop ls s cp args = None
    | Some (Inl e) \<Rightarrow> args_loop ls s cp args = Some (Inl e)
    | Some (Inr ws) \<Rightarrow> \<exists>s' as. args_loop ls s cp args = Some (Inr (s', as)) \<and>
        map (arg_text s') as = map (arg_text s) args @ ws)"
proof (induction ls cs arbitrary: s cp args rule: split_words.induct)
  case (1 ls cs)
  note nul = 1(3) and at = 1(4) and ends = 1(5)
  have inside: "cp < length s" using at by (simp add: at_text_def)
  show ?case
  proof (cases "cs = []")
    case True
    with at at_text_Nil have sc0: "s ! cp = NUL" by blast
    have "args_loop ls s cp args = Some (Inr (s, args))"
      by (rule args_loop.simps [of ls s cp args, unfolded if_P [OF inside] if_P [OF sc0]])
    moreover have "split_words ls cs = Some (Inr [])" using True by (simp add: split_words.simps)
    ultimately show ?thesis by simp
  next
    case ne: False
    obtain c0 cs0 where cs0: "cs = c0 # cs0" using ne by (cases cs) simp_all
    have sc: "s ! cp \<noteq> NUL" using at_text_Cons [OF at [unfolded cs0]] nul [unfolded cs0] by (metis list.set_intros(1))
    have step: "args_loop ls s cp args = (case collect s cp cp NUL False False of
             None \<Rightarrow> None
           | Some (Inl e) \<Rightarrow> Some (Inl e)
           | Some (Inr (s1, cp1, out, quote, qw, uw)) \<Rightarrow>
               if quote \<noteq> NUL then Some (Inl Unmatched_quote)
               else (case skip_blanks (if cp1 \<noteq> out then s1[out := NUL] else s1) cp1 of
                   None \<Rightarrow> None
                 | Some (s3, cp3) \<Rightarrow>
                     if qw \<and> uw then Some (Inl Mixed_wildcards)
                     else if uw then
                       (case expandWildCards ls (c_text s3 cp) of
                          None \<Rightarrow> None
                        | Some (n, files) \<Rightarrow>
                            if n \<le> 0 then Some (Inl Wildcards_failed)
                            else args_loop ls s3 cp3 (args @ map Chunk files))
                     else args_loop ls s3 cp3 (args @ [In_buffer cp])))"
      by (rule args_loop.simps [of ls s cp args, unfolded if_P [OF inside] if_not_P [OF sc]])
    have d: "drop cp (take cp s) = []" by simp
    note cw = collect_word [OF nul at order.refl order.refl d [symmetric], of NUL False False]
    show ?thesis
    proof (cases "word NUL False False [] cs")
      case (Inl e)
      with cw have "collect s cp cp NUL False False = Some (Inl e)" by simp
      with Inl ne show ?thesis by (subst split_words.simps) (simp add: step)
    next
      case (Inr y)
      obtain w r q qw uw where y: "y = (w, r, q, qw, uw)" by (cases y)
      note word = Inr [unfolded y]
      show ?thesis
      proof (cases "q = NUL")
        case False
        from cw word obtain s1 cp1 out where "collect s cp cp NUL False False = Some (Inr (s1, cp1, out, q, qw, uw))" by auto
        with False word ne show ?thesis by (subst split_words.simps) (simp add: step)
      next
        case True
        then have nn: "\<not> q \<noteq> NUL" by simp
        from one_word [OF nul ne at word [unfolded True]] obtain s1 cp1 out s3 cp3 where
          o: "collect s cp cp NUL False False = Some (Inr (s1, cp1, out, NUL, qw, uw))"
            "skip_blanks (if cp1 \<noteq> out then s1[out := NUL] else s1) cp1 = Some (s3, cp3)"
            "at_text s3 cp3 (dropWhile isBlank r) st" "take cp s3 = take cp s" "c_text s3 cp = w"
            "\<exists>q. cp \<le> q \<and> q \<le> cp3 \<and> q < length s3 \<and> s3 ! q = NUL" "cp \<le> cp3" "length s3 = length s" by blast
        have old: "map (arg_text s3) args = map (arg_text s) args" by (rule ended_texts [OF ends sc o(4)])
        have ends3: "ended s3 cp3 args" unfolding ended_def
        proof (intro allI impI)
          fix p assume "In_buffer p \<in> set args"
          with ends obtain q where q: "p \<le> q" "q \<le> cp" "q < length s" "s ! q = NUL" by (auto simp: ended_def)
          with sc have "q < cp" by (cases "q = cp") auto
          then have "s3 ! q = s ! q" by (metis o(4) nth_take)
          with q o(7,8) show "\<exists>q. p \<le> q \<and> q \<le> cp3 \<and> q < length s3 \<and> s3 ! q = NUL" by auto
        qed
        have nr: "NUL \<notin> set (dropWhile isBlank r)"
          using word_rest [OF word] nul set_dropWhileD [of NUL isBlank r] by auto
        have go: "args_loop ls s cp args =
            (if qw \<and> uw then Some (Inl Mixed_wildcards)
             else if uw then
               (case expandWildCards ls w of
                  None \<Rightarrow> None
                | Some (n, files) \<Rightarrow>
                    if n \<le> 0 then Some (Inl Wildcards_failed)
                    else args_loop ls s3 cp3 (args @ map Chunk files))
             else args_loop ls s3 cp3 (args @ [In_buffer cp]))"
          unfolding step o(1) by (simp only: option.case sum.case prod.case o(2) o(5) if_False simp_thms not_True_eq_False)
        have sw: "split_words ls cs =
            (if qw \<and> uw then Some (Inl Mixed_wildcards)
             else if uw then
              (case expandWildCards ls w of
                 None \<Rightarrow> None
               | Some (n, files) \<Rightarrow>
                   if n \<le> 0 then Some (Inl Wildcards_failed)
                   else (case split_words ls (dropWhile isBlank r) of
                       Some (Inr ws) \<Rightarrow> Some (Inr (files @ ws)) | res \<Rightarrow> res))
             else (case split_words ls (dropWhile isBlank r) of
                Some (Inr ws) \<Rightarrow> Some (Inr (w # ws)) | res \<Rightarrow> res))"
          using ne word True by (subst split_words.simps) simp
        consider (mixed) "qw \<and> uw" | (wild) "\<not> (qw \<and> uw)" "uw" | (plain) "\<not> (qw \<and> uw)" "\<not> uw" by blast
        then show ?thesis
        proof cases
          case mixed
          then show ?thesis by (simp add: go sw)
        next
          case wild
          show ?thesis
          proof (cases "expandWildCards ls w")
            case (Some z)
            obtain n files where z: "z = (n, files)" by (cases z)
            show ?thesis
            proof (cases "n \<le> 0")
              case False
              have "ended s3 cp3 (args @ map Chunk files)" using ends3 by (auto simp: ended_def)
              note ih = 1(1) [OF ne word refl refl refl refl nn wild Some z [symmetric] False nr o(3) this]
              have go': "args_loop ls s cp args = args_loop ls s3 cp3 (args @ map Chunk files)"
                using wild Some z False by (simp add: go)
              have sw': "split_words ls cs = (case split_words ls (dropWhile isBlank r) of
                  Some (Inr ws) \<Rightarrow> Some (Inr (files @ ws)) | res \<Rightarrow> res)"
                using wild Some z False by (simp add: sw)
              show ?thesis using ih old unfolding go' sw'
                by (auto simp: comp_def split: option.splits sum.splits)
            qed (use wild Some z in \<open>simp add: go sw\<close>)
          qed (use wild in \<open>simp add: go sw\<close>)
        next
          case plain
          have "ended s3 cp3 (args @ [In_buffer cp])" using ends3 o(6) by (auto simp: ended_def)
          note ih = 1(2) [OF ne word refl refl refl refl nn plain nr o(3) this]
          have go': "args_loop ls s cp args = args_loop ls s3 cp3 (args @ [In_buffer cp])"
            using plain by (simp add: go)
          have sw': "split_words ls cs = (case split_words ls (dropWhile isBlank r) of
              Some (Inr ws) \<Rightarrow> Some (Inr (w # ws)) | res \<Rightarrow> res)"
            using plain by (simp add: sw)
          show ?thesis using ih old unfolding go' sw'
            by (auto simp: o(5) split: option.splits sum.splits)
        qed
      qed
    qed
  qed
qed

lemma expand_some: "expandWildCards ls p = Some (n, []) \<Longrightarrow> n \<le> 0"
proof -
  have "sort x = [] \<longleftrightarrow> x = []" for x :: "string list" by (metis length_0_conv length_sort)
  then show "expandWildCards ls p = Some (n, []) \<Longrightarrow> n \<le> 0"
    by (auto simp: expandWildCards_def Let_def split: if_splits option.splits Option.bind_splits)
qed

lemma makeArgs_words:
  assumes "NUL \<notin> set cmd"
  shows "makeArgs ls table stale cmd =
    (case split_words ls cmd of
       None \<Rightarrow> None
     | Some (Inl e) \<Rightarrow> Some (Inl e)
     | Some (Inr ws) \<Rightarrow> if cmd = [] \<and> \<not> table then None else Some (Inr ws))"
proof -
  let ?s = "cmd @ [NUL] @ stale"
  have at: "at_text ?s 0 cmd stale" by (simp add: at_text_def)
  note w = args_loop_words [OF assms at, of "[]" ls]
  have e: "ended ?s 0 []" by (simp add: ended_def)
  show ?thesis
  proof (cases "split_words ls cmd")
    case (Some res)
    show ?thesis
    proof (cases res)
      case (Inr ws)
      with Some w [OF e] obtain s' as where r: "args_loop ls ?s 0 [] = Some (Inr (s', as))" "map (arg_text s') as = ws" by auto
      have "as = [] \<longleftrightarrow> cmd = []"
      proof
        assume "as = []"
        with r(2) have "ws = []" by simp
        with Some Inr show "cmd = []"
          by (subst (asm) split_words.simps) (auto split: if_splits sum.splits option.splits prod.splits dest: expand_some)
      next
        assume "cmd = []"
        with Some Inr r(2) show "as = []" by (simp add: split_words.simps)
      qed
      with r Some Inr show ?thesis by (simp add: makeArgs_def)
    qed (use Some w [OF e] in \<open>simp add: makeArgs_def\<close>)
  qed (use w [OF e] in \<open>simp add: makeArgs_def\<close>)
qed

text \<open>A word in double quotes.\<close>

definition quote_char :: "char \<Rightarrow> string" where
  "quote_char c = (if c = DQUOTE \<or> c = BACKSLASH then [BACKSLASH, c] else [c])"

definition quote_word :: "string \<Rightarrow> string" where
  "quote_word w = DQUOTE # concat (map quote_char w) @ [DQUOTE]"

fun quote_words :: "string list \<Rightarrow> string" where
  "quote_words [] = []"
| "quote_words [w] = quote_word w"
| "quote_words (w # ws) = quote_word w @ '' '' @ quote_words ws"

lemma word_quoted:
  "NUL \<notin> set w \<Longrightarrow>
   word DQUOTE qw False acc (concat (map quote_char w) @ DQUOTE # r) =
   word NUL (qw \<or> list_ex isWildCard w) False (acc @ w) r"
  by (induction w arbitrary: qw acc) (auto simp: quote_char_def isBlank_def isWildCard_def Let_def)

lemma word_of_quoted:
  assumes "NUL \<notin> set w"
  shows "word NUL False False [] (quote_word w @ r) = word NUL (list_ex isWildCard w) False w r"
  using word_quoted [OF assms, of False "[]" r] by (simp add: quote_word_def isBlank_def isWildCard_def Let_def)

lemma quote_word_ne [simp]: "quote_word w \<noteq> []" "quote_words (w # ws) \<noteq> []"
  by (simp add: quote_word_def, cases ws, simp_all add: quote_word_def)

lemma quote_words_start [simp]: "dropWhile isBlank (quote_words ws) = quote_words ws"
  by (cases ws rule: quote_words.cases) (simp_all add: quote_word_def isBlank_def)

lemma split_quoted: "\<forall>w \<in> set ws. NUL \<notin> set w \<Longrightarrow> split_words ls (quote_words ws) = Some (Inr ws)"
proof (induction ws rule: quote_words.induct)
  case (2 w)
  then have "word NUL False False [] (quote_word w) = Inr (w, [], NUL, list_ex isWildCard w, False)"
    using word_of_quoted [of w "[]"] by simp
  then show ?case by (subst split_words.simps) (simp add: split_words.simps)
next
  case (3 w v ws)
  then have "word NUL False False [] (quote_word w @ '' '' @ quote_words (v # ws)) =
      Inr (w, quote_words (v # ws), NUL, list_ex isWildCard w, False)"
    using word_of_quoted [of w "'' '' @ quote_words (v # ws)"] by (simp add: isBlank_def)
  with 3 show ?case by (subst split_words.simps) simp
qed (simp add: split_words.simps)

text \<open>
  C9. \<open>makeArgs\<close>, which overwrites its copy of the command while it reads it and gives pointers into
  it, computes the words of the command: the text of no argument is lost when a later one is
  read, every access is inside the copy, whatever the buffer holds behind it, and the errors are
  those of the splitting. Only the first command of a process may not be empty.
\<close>

theorem makeArgs_is_split:
  assumes "NUL \<notin> set cmd"
  shows "makeArgs ls table stale cmd =
    (case split_words ls cmd of
       None \<Rightarrow> None
     | Some (Inl e) \<Rightarrow> Some (Inl e)
     | Some (Inr ws) \<Rightarrow> if cmd = [] \<and> \<not> table then None else Some (Inr ws))"
  by (rule makeArgs_words [OF assms])

theorem makeArgs_is_split_witness:
  "makeArgs (\<lambda>_. None) False ''old'' (''ls '' @ [DQUOTE, DQUOTE] @ '' -l'') = Some (Inr [''ls'', [], ''-l''])"
proof -
  have w: "split_words (\<lambda>_. None) (''ls '' @ [DQUOTE, DQUOTE] @ '' -l'') = Some (Inr [''ls'', [], ''-l''])"
    by (simp add: split_words.simps isBlank_def isWildCard_def Let_def)
  show ?thesis by (subst makeArgs_is_split, simp, subst w, simp)
qed

lemma quote_words_nul: "\<forall>w \<in> set ws. NUL \<notin> set w \<Longrightarrow> NUL \<notin> set (quote_words ws)"
  by (induction ws rule: quote_words.induct) (auto simp: quote_word_def quote_char_def)

lemma makeArgs_quoted:
  assumes "ws \<noteq> []" "\<forall>w \<in> set ws. NUL \<notin> set w"
  shows "makeArgs ls table stale (quote_words ws) = Some (Inr ws)"
proof -
  have "NUL \<notin> set (quote_words ws)"
    using assms(2) by (rule quote_words_nul)
  moreover have "quote_words ws \<noteq> []" using assms(1) by (cases ws) simp_all
  ultimately show ?thesis using split_quoted [OF assms(2), of ls] by (simp add: makeArgs_words)
qed

text \<open>
  C30. The words of any non-empty list, in double quotes and with their quotes and backslashes
  escaped, are given back by \<open>makeArgs\<close> one by one: empty words, blanks and wildcards in them
  included.
\<close>

theorem makeArgs_roundtrip:
  assumes "ws \<noteq> []" "\<forall>w \<in> set ws. NUL \<notin> set w"
  shows "makeArgs ls table stale (quote_words ws) = Some (Inr ws)"
  using assms by (rule makeArgs_quoted)

theorem makeArgs_roundtrip_witness:
  "makeArgs (\<lambda>_. None) False [] (quote_words [''cp'', ''a b'', ''*'']) = Some (Inr [''cp'', ''a b'', ''*''])"
  by (rule makeArgs_roundtrip) simp_all

section \<open>The arguments as one string\<close>

text \<open>\<open>buf\<close> holds what is written so far and \<open>bufLen\<close> is the room the code thinks is left; \<open>cap\<close> is its real size.\<close>

fun makeString_loop :: "nat \<Rightarrow> string list \<Rightarrow> string \<Rightarrow> int \<Rightarrow> string option option" where
  "makeString_loop cap [] buf bufLen = (if length buf < cap then Some (Some buf) else None)"
| "makeString_loop cap (w # ws) buf bufLen =
     (if int (length w) \<ge> bufLen then Some None
      else if length buf + length w \<ge> cap then None
      else if ws = [] then makeString_loop cap ws (buf @ w) (bufLen - int (length w) - 1)
      else makeString_loop cap ws (buf @ w @ '' '') (bufLen - int (length w) - 1))"

definition makeString :: "string list \<Rightarrow> nat \<Rightarrow> string option option" where
  "makeString argv bufLen = makeString_loop bufLen argv [] (int bufLen)"

fun join_words :: "string list \<Rightarrow> string" where
  "join_words [] = []"
| "join_words [w] = w"
| "join_words (w # ws) = w @ '' '' @ join_words ws"

lemma makeString_loop_eq:
  "int cap = int (length buf) + bufLen \<Longrightarrow> 0 < bufLen \<or> ws \<noteq> [] \<Longrightarrow> 0 \<le> bufLen \<Longrightarrow>
   makeString_loop cap ws buf bufLen =
     (if length buf + length (join_words ws) < cap then Some (Some (buf @ join_words ws)) else Some None)"
proof (induction ws arbitrary: buf bufLen rule: join_words.induct)
  case (2 w)
  then show ?case by auto
next
  case (3 w v ws)
  show ?case
  proof (cases "int (length w) \<ge> bufLen")
    case False
    then have "makeString_loop cap (w # v # ws) buf bufLen = makeString_loop cap (v # ws) (buf @ w @ '' '') (bufLen - int (length w) - 1)"
      using 3(2) by simp
    also have "\<dots> = (if length (buf @ w @ '' '') + length (join_words (v # ws)) < cap
        then Some (Some ((buf @ w @ '' '') @ join_words (v # ws))) else Some None)"
      by (rule 3(1)) (use 3(2) False in auto)
    finally show ?thesis by simp
  qed (use 3(2) in simp)
qed simp

lemma makeString_eq:
  "0 < cap \<Longrightarrow> makeString ws cap = Some (if length (join_words ws) < cap then Some (join_words ws) else None)"
  by (simp add: makeString_def makeString_loop_eq)

text \<open>A word that the splitting leaves as it is.\<close>

definition plain_char :: "char \<Rightarrow> bool" where
  "plain_char c \<longleftrightarrow> c \<noteq> NUL \<and> \<not> isBlank c \<and> \<not> isWildCard c \<and> c \<notin> {BACKSLASH, SQUOTE, DQUOTE}"

definition plain_word :: "string \<Rightarrow> bool" where
  "plain_word w \<longleftrightarrow> w \<noteq> [] \<and> list_all plain_char w"

lemma plain_word_start: "plain_word w \<Longrightarrow> dropWhile isBlank (w @ r) = w @ r"
  by (cases w) (simp_all add: plain_word_def plain_char_def)

lemma word_plain: "list_all plain_char w \<Longrightarrow> word NUL False False acc (w @ r) = word NUL False False (acc @ w) r"
  by (induction w arbitrary: acc) (auto simp: plain_char_def Let_def)

lemma join_start: "list_all plain_word ws \<Longrightarrow> dropWhile isBlank (join_words ws) = join_words ws"
proof (induction ws rule: join_words.induct)
  case (2 w)
  then show ?case using plain_word_start [of w "[]"] by simp
next
  case (3 w v ws)
  then show ?case using plain_word_start [of w "'' '' @ join_words (v # ws)"] by simp
qed simp

lemma split_plain: "list_all plain_word ws \<Longrightarrow> split_words ls (join_words ws) = Some (Inr ws)"
proof (induction ws rule: join_words.induct)
  case (2 w)
  then have "w \<noteq> []" "word NUL False False [] w = Inr (w, [], NUL, False, False)"
    using word_plain [of w "[]" "[]"] by (simp_all add: plain_word_def)
  then show ?case by (subst split_words.simps) (simp add: split_words.simps)
next
  case (3 w v ws)
  then have "w \<noteq> []" "word NUL False False [] (w @ '' '' @ join_words (v # ws)) = Inr (w, join_words (v # ws), NUL, False, False)"
    using word_plain [of w "[]" "'' '' @ join_words (v # ws)"] by (simp_all add: plain_word_def isBlank_def)
  moreover have "dropWhile isBlank (join_words (v # ws)) = join_words (v # ws)" using 3(2) by (intro join_start) simp
  ultimately show ?case using 3 by (subst split_words.simps) simp
qed (simp add: split_words.simps)

lemma plain_no_NUL: "list_all plain_word ws \<Longrightarrow> NUL \<notin> set (join_words ws)"
  by (induction ws rule: join_words.induct) (auto simp: plain_word_def plain_char_def list_all_iff)

text \<open>
  C31. \<open>makeString\<close> never writes behind its buffer, whatever the arguments (none, empty ones, ones with
  blanks or quotes): it gives the arguments with blanks between them, or reports that they do not
  fit, exactly when the text and its end do not fit. \<open>makeArgs\<close> gives arguments back that are not
  empty and have no special characters.
\<close>

theorem makeString_fits:
  assumes "0 < cap"
  shows "makeString ws cap = Some (if length (join_words ws) < cap then Some (join_words ws) else None) \<and>
    (ws \<noteq> [] \<and> list_all plain_word ws \<longrightarrow> makeArgs ls table stale (join_words ws) = Some (Inr ws))"
proof -
  have "makeArgs ls table stale (join_words ws) = Some (Inr ws)" if ws: "ws \<noteq> []" "list_all plain_word ws"
  proof -
    have "join_words ws \<noteq> []" using ws by (cases ws rule: join_words.cases) (auto simp: plain_word_def)
    then show ?thesis
      using makeArgs_words [OF plain_no_NUL [OF ws(2)], of ls table stale] split_plain [OF ws(2), of ls] by simp
  qed
  then show ?thesis by (simp add: makeString_eq [OF assms(1)])
qed

theorem makeString_fits_witness:
  "makeString [''ls'', ''-l''] 6 = Some (Some ''ls -l'') \<and> makeArgs (\<lambda>_. None) False [] ''ls -l'' = Some (Inr [''ls'', ''-l''])"
  using makeString_fits [of 6 "[''ls'', ''-l'']" "\<lambda>_. None" False "[]"]
  by (simp add: plain_word_def plain_char_def isBlank_def isWildCard_def)

section \<open>Writing and reading everything\<close>

text \<open>
  \<open>cs\<close> are the results of the calls of \<open>write\<close> or \<open>read\<close>; \<^term>\<open>None\<close> is a loop that has not
  ended when they are used up, or a call that claims more than it was given.
\<close>

fun fullWrite :: "int list \<Rightarrow> string \<Rightarrow> int \<Rightarrow> string \<Rightarrow> (int \<times> string) option" where
  "fullWrite cs [] tot written = Some (tot, written)"
| "fullWrite [] buf tot written = None"
| "fullWrite (c # cs) buf tot written =
     (if c < 0 then Some (- 1, written)
      else if c > int (length buf) then None
      else fullWrite cs (drop (nat c) buf) (tot + c) (written @ take (nat c) buf))"

fun fullRead :: "(int \<times> string) list \<Rightarrow> int \<Rightarrow> string \<Rightarrow> (int \<times> string) option" where
  "fullRead cs len buf =
     (if len \<le> 0 then Some (int (length buf), buf)
      else case cs of
          [] \<Rightarrow> None
        | (c, block) # cs' \<Rightarrow>
            if c < 0 then Some (- 1, buf)
            else if c = 0 then Some (int (length buf), buf)
            else if c \<noteq> int (length block) \<or> c > len then None
            else fullRead cs' (len - c) (buf @ block))"

lemma fullWrite_all:
  "\<forall>c \<in> set cs. 0 < c \<Longrightarrow> sum_list cs = int (length buf) \<Longrightarrow>
   fullWrite cs buf tot written = Some (tot + int (length buf), written @ buf)"
proof (induction cs buf tot written rule: fullWrite.induct)
  case (3 c cs b buf tot written)
  have "0 \<le> sum_list cs" using 3(2) by (intro sum_list_nonneg) auto
  with 3(3) have le: "c \<le> int (length (b # buf))" by simp
  have "fullWrite cs (drop (nat c) (b # buf)) (tot + c) (written @ take (nat c) (b # buf)) =
      Some (tot + c + int (length (drop (nat c) (b # buf))), (written @ take (nat c) (b # buf)) @ drop (nat c) (b # buf))"
    by (rule 3(1)) (use 3(2,3) le in auto)
  also have "int (length (drop (nat c) (b # buf))) = int (length (b # buf)) - c"
    using le 3(2) by (simp add: of_nat_diff nat_le_iff)
  finally have "fullWrite cs (drop (nat c) (b # buf)) (tot + c) (written @ take (nat c) (b # buf)) =
      Some (tot + int (length (b # buf)), written @ b # buf)"
    by (simp only: append_assoc append_take_drop_id) simp
  with 3(2) le show ?case by simp
next
  case (1 cs tot written)
  then show ?case by simp
qed simp

text \<open>
  C32. However the system splits the data, \<open>fullWrite\<close> writes all of it in order and gives its
  length, as long as every call writes something.
\<close>

theorem fullWrite_complete:
  assumes "\<forall>c \<in> set cs. 0 < c" "sum_list cs = int (length buf)"
  shows "fullWrite cs buf 0 [] = Some (int (length buf), buf)"
  using fullWrite_all [OF assms, of 0 "[]"] by simp

theorem fullWrite_complete_witness: "fullWrite [1, 2] ''abc'' 0 [] = Some (3, ''abc'')"
  using fullWrite_complete [of "[1, 2]" "''abc''"] by simp

end
