(* ===== verification/Sash_Shell.thy ===== *)
theory Sash_Shell
  imports Sash_Args "HOL-Library.Multiset"
begin

text \<open>
  The shell's commands (sash/sash.c): the table of the built-in commands, aliases, environment
  variables in a command line, and \<open>command\<close>, which decides what a line runs. The
  environment is a parameter, and so are the directories that wildcards are matched against.
  The built-in commands of the other files are values of the outcome; \<open>alias\<close>,
  \<open>aliasall\<close>, \<open>unalias\<close>, \<open>prompt\<close> and \<open>help\<close> are run.
\<close>

section \<open>The table of commands\<close>

abbreviation INFINITE_ARGS :: int where "INFINITE_ARGS \<equiv> 2147483647"
abbreviation CMD_LEN :: nat where "CMD_LEN \<equiv> 10240"

record CommandEntry =
  ce_name :: string
  ce_minArgs :: int
  ce_maxArgs :: int
  ce_description :: string
  ce_usage :: string

definition command_entry :: "string \<Rightarrow> int \<Rightarrow> int \<Rightarrow> string \<Rightarrow> string \<Rightarrow> CommandEntry" where
  "command_entry name lo hi descr use =
     \<lparr>ce_name = name, ce_minArgs = lo, ce_maxArgs = hi, ce_description = descr, ce_usage = use\<rparr>"

definition commandEntryTable :: "CommandEntry list" where
  "commandEntryTable = [
    command_entry ''alias'' 1 INFINITE_ARGS ''Define a command alias'' ''[name [command]]'',
    command_entry ''aliasall'' 1 1 ''Define aliases for all of the build-in commands'' [],
    command_entry ''-ar'' 3 INFINITE_ARGS ''Extract or list files from an AR file'' ''[txp]v arFileName fileName ...'',
    command_entry ''cd'' 1 2 ''Change current directory'' ''[dirName]'',
    command_entry ''-chattr'' 3 INFINITE_ARGS ''Change ext2 file attributes'' ''[+i] [-i] [+a] [-a] fileName ...'',
    command_entry ''-chgrp'' 3 INFINITE_ARGS ''Change the group id of some files'' ''gid fileName ...'',
    command_entry ''-chmod'' 3 INFINITE_ARGS ''Change the protection of some files'' ''mode fileName ...'',
    command_entry ''-chown'' 3 INFINITE_ARGS ''Change the owner id of some files'' ''uid fileName ...'',
    command_entry ''-cmp'' 3 3 ''Compare two files for equality'' ''fileName1 fileName2'',
    command_entry ''-cp'' 3 INFINITE_ARGS ''Copy files'' ''srcName ... destName'',
    command_entry ''-chroot'' 2 2 ''change root file system'' ''new_root_dir'',
    command_entry ''-dd'' 3 INFINITE_ARGS ''Copy data between two files'' ''if=name of=name [bs=n] [count=n] [skip=n] [seek=n]'',
    command_entry ''-echo'' 1 INFINITE_ARGS ''Echo the arguments'' ''[args] ...'',
    command_entry ''-ed'' 1 2 ''Edit a fileName using simple line mode commands'' ''[fileName]'',
    command_entry ''exec'' 2 INFINITE_ARGS ''Execute another program in place of this sash process'' ''fileName [args]'',
    command_entry ''exit'' 1 2 ''Exit from sash'' ''[exit value]'',
    command_entry ''-file'' 1 INFINITE_ARGS ''Describe information about files'' ''fileName ...'',
    command_entry ''-find'' 2 INFINITE_ARGS ''Find files in a directory tree meeting some conditions'' ''dirName [-xdev] [-type chars] [-name pattern] [-size minSize]'',
    command_entry ''-grep'' 3 INFINITE_ARGS ''Look for lines containing a word in some files'' ''[-in] word fileName ...'',
    command_entry ''-gunzip'' 2 INFINITE_ARGS ''Uncompress files which were saved in GZIP or compress format'' ''fileName ... [-o outputPath]'',
    command_entry ''-gzip'' 2 INFINITE_ARGS ''Compress files into GZIP format'' ''fileName ... [-o outputPath]'',
    command_entry ''help'' 1 2 ''Print help about a command'' ''[word]'',
    command_entry ''-kill'' 2 INFINITE_ARGS ''Send a signal to the specified process'' ''[-sig] pid ...'',
    command_entry ''-losetup'' 3 3 (''Associate a loopback device with a file'') (''[-d] device'' @ [LF] @ ''       -losetup device filename''),
    command_entry ''-ln'' 3 INFINITE_ARGS ''Link one fileName to another'' ''[-s] srcName ... destName'',
    command_entry ''-ls'' 1 INFINITE_ARGS ''List information about files or directories'' ''[-lidFC] fileName ...'',
    command_entry ''-lsattr'' 2 INFINITE_ARGS ''List ext2 file attributes'' ''fileName ...'',
    command_entry ''-mkdir'' 2 INFINITE_ARGS ''Create a directory'' ''dirName ...'',
    command_entry ''-mknod'' 5 5 ''Create a special type of file'' ''fileName type major minor'',
    command_entry ''-more'' 2 INFINITE_ARGS ''Type file contents page by page'' ''fileName ...'',
    command_entry ''-mount'' 3 INFINITE_ARGS ''Mount or remount a filesystem on a directory'' ''[-t type] [-r] [-s] [-e] [-m] devName dirName'',
    command_entry ''-mv'' 3 INFINITE_ARGS ''Move or rename files'' ''srcName ... destName'',
    command_entry ''-pivot_root'' 3 3 ''pivot the root file system'' ''new_dir old_dir'',
    command_entry ''-printenv'' 1 2 ''Print environment variables'' ''[name]'',
    command_entry ''prompt'' 2 INFINITE_ARGS ''Set the prompt string for sash'' ''string'',
    command_entry ''-pwd'' 1 1 ''Print the current working directory'' [],
    command_entry ''quit'' 1 1 ''Exit from sash'' [],
    command_entry ''-rm'' 2 INFINITE_ARGS ''Remove the specified files'' ''fileName ...'',
    command_entry ''-rmdir'' 2 INFINITE_ARGS ''Remove the specified empty directories'' ''dirName ...'',
    command_entry ''setenv'' 3 3 ''Set an environment variable value'' ''name value'',
    command_entry ''source'' 2 2 ''Read commands from the specified file'' ''fileName'',
    command_entry ''-sum'' 2 INFINITE_ARGS ''Calculate checksums of the specified files'' ''fileName ...'',
    command_entry ''-sync'' 1 1 ''Sync the disks to force cached data to them'' [],
    command_entry ''-tar'' 2 INFINITE_ARGS ''Create, extract, or list files from a TAR file'' ''[cxtv]f tarFileName fileName ...'',
    command_entry ''-touch'' 2 INFINITE_ARGS ''Update times or create the specified files'' ''fileName ...'',
    command_entry ''umask'' 1 2 ''Set the umask value for file protections'' ''[mask]'',
    command_entry ''-umount'' 2 2 ''Unmount a filesystem'' ''fileName'',
    command_entry ''unalias'' 2 2 ''Remove a command alias'' ''name'',
    command_entry ''-where'' 2 2 ''Type the location of a program'' ''program''  ]"

definition find_entry :: "string \<Rightarrow> CommandEntry option" where
  "find_entry name = List.find (\<lambda>e. ce_name e = name) commandEntryTable"

section \<open>Aliases\<close>

text \<open>\<open>sh_table\<close> is whether \<open>makeArgs\<close> has its table already.\<close>

record shell =
  sh_aliases :: "(string \<times> string) list"
  sh_prompt :: "string option"
  sh_table :: bool

definition findAlias :: "string \<Rightarrow> shell \<Rightarrow> string option" where
  "findAlias name sh = map_of (sh_aliases sh) name"

text \<open>A new value for the first entry of a name.\<close>

fun set_value :: "string \<Rightarrow> string \<Rightarrow> (string \<times> string) list \<Rightarrow> (string \<times> string) list" where
  "set_value name v [] = []"
| "set_value name v ((n, w) # al) = (if name = n then (n, v) # al else (n, w) # set_value name v al)"

text \<open>The text that is printed and the result; the messages of errors are not modelled.\<close>

definition do_alias :: "string list \<Rightarrow> shell \<Rightarrow> (shell \<times> string \<times> int) option" where
  "do_alias argv sh =
     (if length argv < 2 then
        Some (sh, concat (map (\<lambda>(n, v). n @ [TAB] @ v @ [LF]) (sh_aliases sh)), 0)
      else (let name = argv ! 1 in
        if length argv = 2 then
          (case findAlias name sh of Some v \<Rightarrow> Some (sh, v @ [LF], 0) | None \<Rightarrow> Some (sh, [], 1))
        else if name = ''alias'' then Some (sh, [], 1)
        else (case makeString (drop 2 argv) CMD_LEN of
            None \<Rightarrow> None
          | Some None \<Rightarrow> Some (sh, [], 1)
          | Some (Some v) \<Rightarrow>
              Some (sh\<lparr>sh_aliases := (if findAlias name sh \<noteq> None then set_value name v (sh_aliases sh)
                 else sh_aliases sh @ [(name, v)])\<rparr>, [], 0))))"

text \<open>The last alias takes the place of the one that is removed.\<close>

fun alias_index :: "string \<Rightarrow> (string \<times> string) list \<Rightarrow> nat option" where
  "alias_index name [] = None"
| "alias_index name ((n, v) # al) = (if name = n then Some 0 else map_option Suc (alias_index name al))"

definition remove_alias :: "string \<Rightarrow> (string \<times> string) list \<Rightarrow> (string \<times> string) list" where
  "remove_alias name al = (case alias_index name al of None \<Rightarrow> al | Some i \<Rightarrow> butlast (al[i := last al]))"

definition do_unalias :: "string list \<Rightarrow> shell \<Rightarrow> shell \<times> string \<times> int" where
  "do_unalias argv sh = (sh\<lparr>sh_aliases := fold remove_alias (tl argv) (sh_aliases sh)\<rparr>, [], 0)"

fun alias_entries :: "CommandEntry list \<Rightarrow> shell \<Rightarrow> shell option" where
  "alias_entries [] sh = Some sh"
| "alias_entries (e # es) sh =
     (if ce_name e = [] \<or> hd (ce_name e) \<noteq> CHR ''-'' then alias_entries es sh
      else do {
        (sh', out, r) \<leftarrow> do_alias [''alias'', tl (ce_name e), ce_name e] sh;
        alias_entries es sh' })"

definition do_aliasall :: "shell \<Rightarrow> (shell \<times> string \<times> int) option" where
  "do_aliasall sh = do { sh' \<leftarrow> alias_entries commandEntryTable sh; Some (sh', [], 0) }"

definition do_prompt :: "string list \<Rightarrow> shell \<Rightarrow> (shell \<times> string \<times> int) option" where
  "do_prompt argv sh =
     (case makeString (drop 1 argv) CMD_LEN of
        None \<Rightarrow> None
      | Some None \<Rightarrow> Some (sh, [], 1)
      | Some (Some s) \<Rightarrow> Some (sh\<lparr>sh_prompt := Some (s @ '' '')\<rparr>, [], 0))"

definition showPrompt :: "shell \<Rightarrow> string" where
  "showPrompt sh = (case sh_prompt sh of None \<Rightarrow> ''> '' | Some p \<Rightarrow> p)"

definition pad10 :: "string \<Rightarrow> string" where
  "pad10 s = s @ replicate (10 - length s) (CHR '' '')"

definition do_help :: "string list \<Rightarrow> string" where
  "do_help argv =
     (let str = (if length argv = 2 then Some (argv ! 1) else None);
          short = concat (map (\<lambda>e. pad10 (ce_name e) @ '' '' @ ce_usage e @ [LF])
            (filter (\<lambda>e. case str of None \<Rightarrow> True
               | Some s \<Rightarrow> find_sub s (ce_name e) \<noteq> None \<or> find_sub s (ce_usage e) \<noteq> None) commandEntryTable))
      in (case str of
            None \<Rightarrow> short
          | Some s \<Rightarrow> (case find_entry s of
              Some e \<Rightarrow> ce_description e @ [LF] @ ''usage: '' @ ce_name e @ '' '' @ ce_usage e @ [LF]
            | None \<Rightarrow> short)))"

section \<open>Environment variables\<close>

text \<open>The command is rewritten in its own buffer of \<open>room\<close> bytes, by way of a copy of 10240.\<close>

definition expandVariable :: "(string \<Rightarrow> string option) \<Rightarrow> nat \<Rightarrow> string \<Rightarrow> string option" where
  "expandVariable env room cmd =
     (if length cmd \<ge> CMD_LEN then None
      else (case find_sub ''$('' cmd of
          None \<Rightarrow> Some cmd
        | Some k \<Rightarrow>
           (let rest = drop (k + 2) cmd; name = takeWhile (\<lambda>c. c \<noteq> CHR '')'') rest;
                s = take k cmd @ (case env name of None \<Rightarrow> [] | Some v \<Rightarrow> v) @ drop (length name + 1) rest
            in if length s < room then Some s else None)))"

text \<open>The loop of \<open>command\<close>: \<^term>\<open>None\<close> if it does not end, and \<open>Some None\<close> if a buffer overflows.\<close>

partial_function (option) expand_all :: "(string \<Rightarrow> string option) \<Rightarrow> nat \<Rightarrow> string \<Rightarrow> string option option" where
  "expand_all env room cmd =
     (if find_sub ''$('' cmd = None then Some (Some cmd)
      else (case expandVariable env room cmd of None \<Rightarrow> Some None | Some c \<Rightarrow> expand_all env room c))"

section \<open>Running a line\<close>

datatype outcome =
    Ignored
  | Loops
  | Builtin string "string list" string int
  | Call string "string list"
  | Args_error args_error
  | Usage string
  | System string
  | Execute "args_error + string list"

definition finish :: "string \<Rightarrow> string list \<Rightarrow> (shell \<times> string \<times> int) option \<Rightarrow> (shell \<times> outcome) option" where
  "finish name argv m = do { (sh, out, r) \<leftarrow> m; Some (sh, Builtin name argv out r) }"

definition run_builtin :: "string \<Rightarrow> string list \<Rightarrow> shell \<Rightarrow> (shell \<times> outcome) option" where
  "run_builtin name argv sh =
     (if name = ''alias'' then finish name argv (do_alias argv sh)
      else if name = ''aliasall'' then finish name argv (do_aliasall sh)
      else if name = ''unalias'' then finish name argv (Some (do_unalias argv sh))
      else if name = ''prompt'' then finish name argv (do_prompt argv sh)
      else if name = ''help'' then finish name argv (Some (sh, do_help argv, 0))
      else Some (sh, Call name argv))"

text \<open>\<^term>\<open>None\<close> inside the result: not a built-in command.\<close>

definition tryBuiltIn :: "(string \<Rightarrow> string list option) \<Rightarrow> shell \<Rightarrow> string \<Rightarrow> (shell \<times> outcome) option option" where
  "tryBuiltIn ls sh cmd =
     (let name = takeWhile (\<lambda>c. \<not> isBlank c) cmd in
      if length name \<ge> CMD_LEN then None
      else (case find_entry name of
          None \<Rightarrow> Some None
        | Some e \<Rightarrow>
           (case makeArgs ls (sh_table sh) [] cmd of
              None \<Rightarrow> None
            | Some (Inl err) \<Rightarrow> Some (Some (sh, Args_error err))
            | Some (Inr argv) \<Rightarrow>
                let sh' = sh\<lparr>sh_table := True\<rparr> in
                if int (length argv) < ce_minArgs e \<or> int (length argv) > ce_maxArgs e then Some (Some (sh', Usage (ce_name e)))
                else map_option Some (run_builtin (ce_name e) argv sh'))))"

definition no_magic :: "char \<Rightarrow> bool" where
  "no_magic c \<longleftrightarrow> 97 \<le> code c \<and> code c \<le> 122 \<or> 65 \<le> code c \<and> code c \<le> 90 \<or> is_digit c \<or> isBlank c \<or>
     c \<in> set (''./-+=_:,'' @ [SQUOTE, DQUOTE])"

text \<open>
  A line with special characters goes to the system's shell; the others are executed by a child,
  whose argument list is that of \<open>makeArgs\<close>.
\<close>

definition runCmd :: "(string \<Rightarrow> string list option) \<Rightarrow> shell \<Rightarrow> string \<Rightarrow> (shell \<times> outcome) option" where
  "runCmd ls sh cmd =
     (if \<not> list_all no_magic cmd then Some (sh, System cmd)
      else do { r \<leftarrow> makeArgs ls (sh_table sh) [] cmd; Some (sh, Execute r) })"

text \<open>\<open>room\<close> is the size of the buffer that holds the line.\<close>

definition command :: "(string \<Rightarrow> string list option) \<Rightarrow> (string \<Rightarrow> string option) \<Rightarrow> nat \<Rightarrow> string \<Rightarrow> shell \<Rightarrow>
    (shell \<times> outcome) option" where
  "command ls env room line sh =
     (let c = dropWhile isBlank line; name = takeWhile (\<lambda>c. \<not> isBlank c) c; rest = drop (length name) c in
      if c = [] \<or> hd c = CHR ''#'' then Some (sh, Ignored)
      else if length name \<ge> CMD_LEN then None
      else do {
        (c1, room1) \<leftarrow> (case findAlias name sh of
            Some v \<Rightarrow> if length v + length rest < CMD_LEN then Some (v @ rest, CMD_LEN) else None
          | None \<Rightarrow> Some (c, room - (length line - length c)));
        (case expand_all env room1 c1 of
           None \<Rightarrow> Some (sh, Loops)
         | Some None \<Rightarrow> None
         | Some (Some c2) \<Rightarrow> do {
             b \<leftarrow> tryBuiltIn ls sh c2;
             (case b of Some r \<Rightarrow> Some r | None \<Rightarrow> runCmd ls sh c2) }) })"

section \<open>The aliases are a map\<close>

definition aliases_ok :: "shell \<Rightarrow> bool" where
  "aliases_ok sh \<longleftrightarrow> distinct (map fst (sh_aliases sh))"

definition alias_map :: "shell \<Rightarrow> string \<rightharpoonup> string" where
  "alias_map sh = map_of (sh_aliases sh)"

lemma set_value_map: "map_of al name \<noteq> None \<Longrightarrow> map_of (set_value name v al) = (map_of al)(name \<mapsto> v)"
  by (induction name v al rule: set_value.induct) (auto split: if_splits)

lemma set_value_names [simp]: "map fst (set_value name v al) = map fst al"
  by (induction name v al rule: set_value.induct) auto

lemma single_add: "m name = None \<Longrightarrow> [name \<mapsto> v] ++ m = m(name \<mapsto> v)"
  by (auto simp: map_add_def fun_eq_iff split: option.split)

lemma do_alias_sets:
  assumes "aliases_ok sh" "3 \<le> length argv" "argv ! 1 \<noteq> ''alias''" "length (join_words (drop 2 argv)) < CMD_LEN"
  shows "\<exists>sh'. do_alias argv sh = Some (sh', [], 0) \<and> aliases_ok sh' \<and>
    alias_map sh' = (alias_map sh)(argv ! 1 \<mapsto> join_words (drop 2 argv)) \<and> sh_table sh' = sh_table sh"
proof -
  let ?n = "argv ! 1" and ?v = "join_words (drop 2 argv)"
  have m: "makeString (drop 2 argv) CMD_LEN = Some (Some ?v)" using assms(4) by (simp add: makeString_eq)
  show ?thesis
  proof (cases "map_of (sh_aliases sh) ?n")
    case None
    with assms m show ?thesis
      by (auto simp: do_alias_def findAlias_def Let_def aliases_ok_def alias_map_def single_add map_of_eq_None_iff)
  next
    case (Some w)
    then have "map_of (sh_aliases sh) ?n \<noteq> None" by simp
    from set_value_map [OF this, of ?v] assms m Some show ?thesis
      by (simp add: do_alias_def findAlias_def Let_def aliases_ok_def alias_map_def)
  qed
qed

lemma alias_index_Some:
  "alias_index name al = Some i \<Longrightarrow> \<exists>xs v ys. al = xs @ (name, v) # ys \<and> i = length xs"
proof (induction name al arbitrary: i rule: alias_index.induct)
  case (2 name n v al)
  show ?case
  proof (cases "name = n")
    case True
    with 2 show ?thesis by (auto intro: exI [of _ "[]"])
  next
    case False
    with 2(2) obtain j where j: "alias_index name al = Some j" "i = Suc j" by auto
    from 2(1) [OF False j(1)] obtain xs w ys where "al = xs @ (name, w) # ys" "j = length xs" by blast
    with j(2) show ?thesis by (intro exI [of _ "(n, v) # xs"]) auto
  qed
qed simp

lemma alias_index_None: "alias_index name al = None \<longleftrightarrow> name \<notin> fst ` set al"
  by (induction name al rule: alias_index.induct) auto

lemma remove_alias_map:
  assumes "distinct (map fst al)"
  shows "map_of (remove_alias name al) = (map_of al)(name := None) \<and> distinct (map fst (remove_alias name al))"
proof (cases "alias_index name al")
  case None
  then have "remove_alias name al = al" by (simp add: remove_alias_def)
  moreover have "map_of al name = None" using None by (simp add: alias_index_None map_of_eq_None_iff)
  ultimately show ?thesis using assms by (simp add: fun_upd_idem)
next
  case (Some i)
  from alias_index_Some [OF Some] obtain xs v ys where al: "al = xs @ (name, v) # ys" "i = length xs" by blast
  have "\<exists>bs. mset bs = mset xs + mset ys \<and> remove_alias name al = bs"
  proof (cases ys rule: rev_cases)
    case Nil
    with al Some show ?thesis by (simp add: remove_alias_def)
  next
    case (snoc zs l)
    then have "remove_alias name al = xs @ l # zs"
      using al Some by (simp add: remove_alias_def butlast_append)
    with snoc show ?thesis by simp
  qed
  then obtain bs where bs: "mset bs = mset xs + mset ys" "remove_alias name al = bs" by blast
  have "mset bs = mset (xs @ ys)" using bs(1) by simp
  then have s: "set bs = set (xs @ ys)" "mset (map fst bs) = mset (map fst (xs @ ys))"
    by (metis mset_eq_setD, metis mset_map)
  have d: "distinct (map fst (xs @ ys))" "name \<notin> fst ` set (xs @ ys)" using assms al(1) by auto
  then have db: "distinct (map fst bs)" using s(2) by (metis mset_eq_imp_distinct_iff)
  have "map_of bs = map_of (xs @ ys)" using s(1) db d(1) by (metis map_of_inject_set)
  moreover have "map_of xs name = None" "map_of ys name = None" using d(2) by (auto simp: map_of_eq_None_iff)
  then have "map_of (xs @ ys) = (map_of al)(name := None)"
    by (auto simp: al(1) fun_eq_iff map_add_def split: option.split)
  ultimately show ?thesis using bs(2) db by simp
qed

definition set_alias :: "string \<Rightarrow> string \<Rightarrow> shell \<Rightarrow> shell option" where
  "set_alias name v sh = map_option fst (do_alias [''alias'', name, v] sh)"

definition drop_alias :: "string \<Rightarrow> shell \<Rightarrow> shell" where
  "drop_alias name sh = sh\<lparr>sh_aliases := remove_alias name (sh_aliases sh)\<rparr>"

interpretation aliases: map_store "\<lambda>sh. aliases_ok sh \<and> sh_table sh = tb" alias_map
    "\<lambda>name v. name \<noteq> ''alias'' \<and> length v < CMD_LEN" set_alias drop_alias for tb
proof
  fix sh :: shell and name v :: string
  assume sh: "aliases_ok sh \<and> sh_table sh = tb"
  show "(aliases_ok (drop_alias name sh) \<and> sh_table (drop_alias name sh) = tb) \<and>
      alias_map (drop_alias name sh) = (alias_map sh)(name := None)"
    using sh remove_alias_map [of "sh_aliases sh" name] by (simp add: drop_alias_def aliases_ok_def alias_map_def)
  assume "name \<noteq> ''alias'' \<and> length v < CMD_LEN"
  with do_alias_sets [of sh "[''alias'', name, v]"] sh
  show "runs (set_alias name v sh) (\<lambda>t. (aliases_ok t \<and> sh_table t = tb) \<and> alias_map t = (alias_map sh)(name \<mapsto> v))"
    by (auto simp: set_alias_def)
qed

lemma do_unalias_drops: "do_unalias argv sh = (fold drop_alias (tl argv) sh, [], 0)"
proof -
  have "fold drop_alias ns sh = sh\<lparr>sh_aliases := fold remove_alias ns (sh_aliases sh)\<rparr>" for ns
    by (induction ns arbitrary: sh) (simp_all add: drop_alias_def)
  then show ?thesis by (simp add: do_unalias_def)
qed

text \<open>
  C34. The aliases are a finite map: \<open>alias\<close> sets one entry of it to the text of its remaining
  arguments, and \<open>unalias\<close>, which fills the place of a removed entry with the last one, removes
  exactly the given names. No name is ever there twice.
\<close>

theorem aliases_are_a_map:
  assumes "aliases_ok sh"
  shows "(3 \<le> length argv \<and> argv ! 1 \<noteq> ''alias'' \<and> length (join_words (drop 2 argv)) < CMD_LEN \<longrightarrow>
      (\<exists>sh'. do_alias argv sh = Some (sh', [], 0) \<and> aliases_ok sh' \<and>
         alias_map sh' = (alias_map sh)(argv ! 1 \<mapsto> join_words (drop 2 argv)))) \<and>
    (\<exists>sh'. do_unalias argv sh = (sh', [], 0) \<and> aliases_ok sh' \<and> alias_map sh' = alias_map sh |` (- set (tl argv)))"
  using do_alias_sets [OF assms, of argv] aliases.del_all [of sh "sh_table sh" "tl argv"] assms
  by (auto simp: do_unalias_drops)

theorem aliases_are_a_map_witness:
  "\<exists>sh'. do_unalias [''unalias'', ''b''] \<lparr>sh_aliases = [(''a'', ''x''), (''b'', ''y''), (''c'', ''z'')], sh_prompt = None, sh_table = True\<rparr> =
     (sh', [], 0) \<and> alias_map sh' ''c'' = Some ''z'' \<and> alias_map sh' ''b'' = None"
  using aliases_are_a_map [of "\<lparr>sh_aliases = [(''a'', ''x''), (''b'', ''y''), (''c'', ''z'')], sh_prompt = None, sh_table = True\<rparr>"
      "[''unalias'', ''b'']"]
  by (auto simp: aliases_ok_def alias_map_def)

section \<open>Variables\<close>

lemma find_sub_at: "find_sub pat s = Some k \<Longrightarrow> take (length pat) (drop k s) = pat"
proof (induction s arbitrary: k)
  case (Cons c s)
  then show ?case by (cases "take (length pat) (c # s) = pat") auto
qed (simp split: if_splits)

lemma find_sub_parts:
  assumes "find_sub ''$('' s = Some k"
  obtains r where "s = take k s @ ''$('' @ r" "r = drop (k + 2) s"
proof -
  have "drop k s = take 2 (drop k s) @ drop (k + 2) s" by (metis append_take_drop_id drop_drop add.commute)
  moreover have "take 2 (drop k s) = ''$(''" using find_sub_at [OF assms] by (simp add: numeral_2_eq_2)
  ultimately have "s = take k s @ ''$('' @ drop (k + 2) s" by (metis append_take_drop_id)
  then show thesis using that by blast
qed












definition variable :: "string \<Rightarrow> string" where
  "variable x = ''$('' @ x @ '')''"






section \<open>The standard commands\<close>

definition dash_names :: "CommandEntry list \<Rightarrow> string list" where
  "dash_names es = map tl (filter (\<lambda>n. n \<noteq> [] \<and> hd n = CHR ''-'') (map ce_name es))"

lemma alias_entries_put:
  "alias_entries es sh = put_all set_alias (map (\<lambda>n. (n, CHR ''-'' # n)) (dash_names es)) sh"
proof (induction es arbitrary: sh)
  case (Cons e es)
  show ?case
  proof (cases "ce_name e = [] \<or> hd (ce_name e) \<noteq> CHR ''-''")
    case True
    with Cons show ?thesis by (auto simp: dash_names_def)
  next
    case False
    then obtain n where n: "ce_name e = CHR ''-'' # n" by (cases "ce_name e") auto
    with Cons show ?thesis
      by (cases "do_alias [''alias'', n, CHR ''-'' # n] sh") (auto simp: dash_names_def set_alias_def)
  qed
qed (simp add: dash_names_def)

lemma alias_entries_map:
  assumes "aliases_ok sh" "\<forall>n \<in> set (dash_names es). n \<noteq> ''alias'' \<and> length n + 1 < CMD_LEN"
  shows "\<exists>sh'. alias_entries es sh = Some sh' \<and> aliases_ok sh' \<and> sh_table sh' = sh_table sh \<and>
    (\<forall>n. alias_map sh' n = (if n \<in> set (dash_names es) then Some (CHR ''-'' # n) else alias_map sh n))"
  using aliases.put_same_view [of sh "sh_table sh" "dash_names es" "\<lambda>n. CHR ''-'' # n"] assms
  by (auto simp: alias_entries_put runs_iff)

lemma table_names:
  "dash_names commandEntryTable = [''ar'', ''chattr'', ''chgrp'', ''chmod'', ''chown'', ''cmp'', ''cp'', ''chroot'', ''dd'',
     ''echo'', ''ed'', ''file'', ''find'', ''grep'', ''gunzip'', ''gzip'', ''kill'', ''losetup'', ''ln'', ''ls'', ''lsattr'',
     ''mkdir'', ''mknod'', ''more'', ''mount'', ''mv'', ''pivot_root'', ''printenv'', ''pwd'', ''rm'', ''rmdir'', ''sum'',
     ''sync'', ''tar'', ''touch'', ''umount'', ''where'']"
  by (simp add: dash_names_def commandEntryTable_def command_entry_def)

lemma do_aliasall_map:
  assumes "aliases_ok sh"
  shows "\<exists>sh'. do_aliasall sh = Some (sh', [], 0) \<and> aliases_ok sh' \<and> sh_table sh' = sh_table sh \<and>
    (\<forall>n. alias_map sh' n = (if n \<in> set (dash_names commandEntryTable) then Some (CHR ''-'' # n) else alias_map sh n))"
proof -
  have "\<forall>n \<in> set (dash_names commandEntryTable). n \<noteq> ''alias'' \<and> length n + 1 < CMD_LEN"
    unfolding table_names by simp
  from alias_entries_map [OF assms this] show ?thesis by (auto simp: do_aliasall_def)
qed

lemma dash_name_plain:
  assumes "n \<in> set (dash_names commandEntryTable)"
  shows "plain_word n" "hd n \<noteq> CHR ''#''" "CHR ''$'' \<notin> set n" "length n < 20"
  using assms unfolding table_names
  by (auto simp: plain_word_def plain_char_def isBlank_def isWildCard_def)

text \<open>A command of the table that is not run by this file.\<close>

lemma run_builtin_call: "run_builtin (CHR ''-'' # n) argv sh = Some (sh, Call (CHR ''-'' # n) argv)"
  by (simp add: run_builtin_def)

lemma no_dollar_paren: "CHR ''$'' \<notin> set s \<Longrightarrow> find_sub ''$('' s = None"
proof (cases "find_sub ''$('' s")
  case (Some k)
  assume "CHR ''$'' \<notin> set s"
  moreover obtain r where "s = take k s @ ''$('' @ r" using find_sub_parts [OF Some] by metis
  then have "CHR ''$'' \<in> set s" by (metis in_set_conv_decomp append_Cons)
  ultimately show ?thesis by simp
qed

lemma join_first: "plain_word w \<Longrightarrow> takeWhile (\<lambda>c. \<not> isBlank c) (join_words (w # ws)) = w"
proof -
  assume w: "plain_word w"
  have "\<forall>c \<in> set w. \<not> isBlank c" using w by (auto simp: plain_word_def plain_char_def list_all_iff)
  then have "takeWhile (\<lambda>c. \<not> isBlank c) (w @ r) = w @ takeWhile (\<lambda>c. \<not> isBlank c) r" for r by simp
  from this [of "[]"] this [of "'' '' @ join_words ws"] show ?thesis by (cases ws) (simp_all add: isBlank_def)
qed

lemma join_dash: "join_words ((c # w) # ws) = c # join_words (w # ws)"
  by (cases ws) simp_all

lemma command_standard:
  assumes al: "alias_map sh n = Some (CHR ''-'' # n)" and n: "n \<in> set (dash_names commandEntryTable)"
    and ws: "list_all plain_word ws" "\<forall>w \<in> set ws. CHR ''$'' \<notin> set w"
    and len: "length (join_words (n # ws)) + 1 < CMD_LEN"
    and e: "find_entry (CHR ''-'' # n) = Some e" "ce_minArgs e \<le> int (length ws) + 1" "int (length ws) + 1 \<le> ce_maxArgs e"
  shows "command ls env room (join_words (n # ws)) sh =
    Some (sh\<lparr>sh_table := True\<rparr>, Call (CHR ''-'' # n) ((CHR ''-'' # n) # ws))"
proof -
  note np = dash_name_plain [OF n]
  let ?d = "CHR ''-'' # n"
  have all: "list_all plain_word (n # ws)" "list_all plain_word (?d # ws)"
    using np(1) ws(1) by (simp_all add: plain_word_def plain_char_def isBlank_def isWildCard_def)
  have ne: "join_words (n # ws) \<noteq> []" using np(1) by (cases ws) (auto simp: plain_word_def)
  have hd: "hd (join_words (n # ws)) = hd n" using np(1) by (cases ws) (auto simp: plain_word_def)
  let ?rest = "drop (length n) (join_words (n # ws))"
  have split: "join_words (n # ws) = n @ ?rest" by (cases ws) simp_all
  have line: "?d @ ?rest = join_words (?d # ws)" using split by (simp add: join_dash)
  have l: "length ?d + length ?rest < CMD_LEN"
  proof -
    have "length (n @ ?rest) + 1 < CMD_LEN" using len split by simp
    then show ?thesis by simp
  qed
  have "CHR ''$'' \<notin> set (join_words (?d # ws))"
  proof -
    have "CHR ''$'' \<in> set (join_words vs) \<Longrightarrow> \<exists>v \<in> set vs. CHR ''$'' \<in> set v" for vs
      by (induction vs rule: join_words.induct) auto
    with ws(2) np(3) show ?thesis by fastforce
  qed
  then have ex: "expand_all env CMD_LEN (join_words (?d # ws)) = Some (Some (join_words (?d # ws)))"
    by (simp add: expand_all.simps [of env CMD_LEN "join_words (?d # ws)"] no_dollar_paren)
  have name: "takeWhile (\<lambda>c. \<not> isBlank c) (join_words (?d # ws)) = ?d" using all(2) by (intro join_first) simp
  have "makeArgs ls (sh_table sh) [] (join_words (?d # ws)) = Some (Inr (?d # ws))"
    using makeArgs_words [OF plain_no_NUL [OF all(2)], of ls "sh_table sh" "[]"] split_plain [OF all(2), of ls]
    by (simp add: join_dash)
  then have b: "tryBuiltIn ls sh (join_words (?d # ws)) = Some (Some (sh\<lparr>sh_table := True\<rparr>, Call ?d (?d # ws)))"
    using name e np(4) run_builtin_call [of n "?d # ws" "sh\<lparr>sh_table := True\<rparr>"]
    by (simp add: tryBuiltIn_def Let_def) (auto simp: find_entry_def find_Some_iff)
  show ?thesis
    using al np(2,4) hd ne join_start [OF all(1)] join_first [OF np(1), of ws] l ex b line
    by (simp add: command_def Let_def findAlias_def alias_map_def)
qed

text \<open>
  C33. After \<open>aliasall\<close>, which the option \<open>-a\<close> runs, a line of plain words that starts with the name of a
  standard command, and gives as many arguments as the table allows, calls that built-in command
  with exactly these words: through the alias, the expansion of variables, the table and
  \<open>makeArgs\<close>.
\<close>

theorem standard_command_runs:
  assumes "aliases_ok sh" "do_aliasall sh = Some (sh', out, r)" "n \<in> set (dash_names commandEntryTable)"
    "list_all plain_word ws" "\<forall>w \<in> set ws. CHR ''$'' \<notin> set w" "length (join_words (n # ws)) + 1 < CMD_LEN"
    "find_entry (CHR ''-'' # n) = Some e" "ce_minArgs e \<le> int (length ws) + 1" "int (length ws) + 1 \<le> ce_maxArgs e"
  shows "command ls env room (join_words (n # ws)) sh' =
    Some (sh'\<lparr>sh_table := True\<rparr>, Call (CHR ''-'' # n) ((CHR ''-'' # n) # ws))"
proof -
  from do_aliasall_map [OF assms(1)] assms(2,3) have "alias_map sh' n = Some (CHR ''-'' # n)" by auto
  from command_standard [OF this assms(3-9)] show ?thesis .
qed

theorem standard_command_runs_witness:
  "\<exists>sh'. command (\<lambda>_. None) (\<lambda>_. None) 255 ''ls /dev'' sh' = Some (sh'\<lparr>sh_table := True\<rparr>, Call ''-ls'' [''-ls'', ''/dev''])"
proof -
  let ?sh = "\<lparr>sh_aliases = [], sh_prompt = None, sh_table = False\<rparr>"
  have ok: "aliases_ok ?sh" by (simp add: aliases_ok_def)
  from do_aliasall_map [OF this] obtain sh' where sh': "do_aliasall ?sh = Some (sh', [], 0)" by auto
  obtain e where e: "find_entry ''-ls'' = Some e" "ce_minArgs e = 1" "ce_maxArgs e = INFINITE_ARGS"
    by (simp add: find_entry_def commandEntryTable_def command_entry_def)
  have "command (\<lambda>_. None) (\<lambda>_. None) 255 (join_words [''ls'', ''/dev'']) sh' =
      Some (sh'\<lparr>sh_table := True\<rparr>, Call ''-ls'' [''-ls'', ''/dev''])"
    by (rule standard_command_runs [OF ok sh' _ _ _ _ e(1)])
      (simp_all add: table_names plain_word_def plain_char_def isBlank_def isWildCard_def e(2,3))
  then show ?thesis by auto
qed

section \<open>Lines of a file and the options\<close>

text \<open>What \<open>readFile\<close> makes of a line as \<open>fgets\<close> gives it: it reads before an empty one.\<close>

definition trim_line :: "string \<Rightarrow> string option" where
  "trim_line buf =
     (if buf = [] then None
      else (let s = (if last buf = LF then butlast buf else buf) in
        Some (rev (dropWhile isBlank (rev s)))))"

fun run_lines :: "(string \<Rightarrow> string list option) \<Rightarrow> (string \<Rightarrow> string option) \<Rightarrow> string list \<Rightarrow> shell \<Rightarrow>
    (shell \<times> outcome list) option" where
  "run_lines ls env [] sh = Some (sh, [])"
| "run_lines ls env (l # lines) sh = do {
     c \<leftarrow> trim_line l;
     (sh1, out) \<leftarrow> command ls env CMD_LEN c sh;
     (if out = Loops then Some (sh1, [Loops])
      else do { (sh2, outs) \<leftarrow> run_lines ls env lines sh1; Some (sh2, out # outs) }) }"

record options =
  op_singleCommand :: "string option"
  op_commandFile :: "string option"
  op_quiet :: bool
  op_alias :: bool
  op_interactive :: bool
  op_prompt :: "string option"

datatype option_error = Print_usage | Unknown_option char

text \<open>The letters of one option word; some take the next argument.\<close>

fun option_letters :: "string \<Rightarrow> string list \<Rightarrow> options \<Rightarrow> option_error + string list \<times> options" where
  "option_letters [] argv opts = Inr (argv, opts)"
| "option_letters (c # cs) argv opts =
     (if c = CHR ''-'' then option_letters cs argv opts
      else if c = CHR ''c'' then
        (case argv of [a] \<Rightarrow>
            if op_singleCommand opts \<noteq> None \<or> op_interactive opts then Inl Print_usage
            else option_letters cs [] (opts\<lparr>op_singleCommand := Some a\<rparr>)
         | _ \<Rightarrow> Inl Print_usage)
      else if c = CHR ''f'' then
        (case argv of [a] \<Rightarrow>
            if op_commandFile opts \<noteq> None then Inl Print_usage
            else option_letters cs [] (opts\<lparr>op_quiet := True, op_commandFile := Some a\<rparr>)
         | _ \<Rightarrow> Inl Print_usage)
      else if c = CHR ''i'' then
        (if op_singleCommand opts \<noteq> None then Inl Print_usage
         else option_letters cs argv (opts\<lparr>op_interactive := True\<rparr>))
      else if c = CHR ''p'' then
        (case argv of [] \<Rightarrow> Inl Print_usage
         | a # as \<Rightarrow>
            if a \<noteq> [] \<and> hd a = CHR ''-'' then Inl Print_usage
            else option_letters cs as (opts\<lparr>op_prompt := Some a\<rparr>))
      else if c = CHR ''q'' then option_letters cs argv (opts\<lparr>op_quiet := True\<rparr>)
      else if c = CHR ''a'' then option_letters cs argv (opts\<lparr>op_alias := True\<rparr>)
      else if c = CHR ''h'' \<or> c = CHR ''?'' then Inl Print_usage
      else Inl (Unknown_option c))"

lemma option_letters_fewer: "option_letters cs argv opts = Inr (as, opts') \<Longrightarrow> length as \<le> length argv"
  by (induction cs argv opts rule: option_letters.induct) (auto split: if_splits list.splits)

function option_words :: "string list \<Rightarrow> options \<Rightarrow> option_error + string list \<times> options" where
  "option_words argv opts =
     (case argv of
        (CHR ''-'' # cs) # as \<Rightarrow>
          (case option_letters cs as opts of Inl e \<Rightarrow> Inl e | Inr (bs, opts') \<Rightarrow> option_words bs opts')
      | _ \<Rightarrow> Inr (argv, opts))"
  by pat_completeness auto
termination by (relation "measure (\<lambda>(argv, opts). length argv)") (auto dest: option_letters_fewer)

declare option_words.simps [simp del]

datatype shell_run = Bad_options option_error | Single outcome | Read_file "string option" "string option"

definition default_path :: "(string \<Rightarrow> string option) \<Rightarrow> string \<Rightarrow> string option" where
  "default_path env = (if env ''PATH'' = None then env(''PATH'' \<mapsto> ''/bin:/usr/bin:/sbin:/usr/sbin:/etc'') else env)"

text \<open>
  \<open>room\<close> is the size of the buffer of the single command. When there is none, the shell reads the
  alias file and then the command file or its input; the names of the two are the outcome.
\<close>

definition sash_main :: "(string \<Rightarrow> string list option) \<Rightarrow> (string \<Rightarrow> string option) \<Rightarrow> nat \<Rightarrow> string list \<Rightarrow> shell \<Rightarrow>
    (shell \<times> shell_run) option" where
  "sash_main ls env room argv sh =
     (case option_words (drop 1 argv) \<lparr>op_singleCommand = None, op_commandFile = None, op_quiet = False, op_alias = False,
        op_interactive = False, op_prompt = None\<rparr> of
        Inl e \<Rightarrow> Some (sh, Bad_options e)
      | Inr (rest, opts) \<Rightarrow>
          if rest \<noteq> [] then Some (sh, Bad_options Print_usage)
          else do {
            let sh1 = (case op_prompt opts of None \<Rightarrow> sh | Some p \<Rightarrow> sh\<lparr>sh_prompt := Some p\<rparr>);
            sh2 \<leftarrow> (if op_alias opts then map_option fst (do_aliasall sh1) else Some sh1);
            (case op_singleCommand opts of
               Some c \<Rightarrow> do { (sh3, out) \<leftarrow> command ls (default_path env) room c sh2; Some (sh3, Single out) }
             | None \<Rightarrow>
                (case env ''HOME'' of
                   None \<Rightarrow> Some (sh2, Read_file None (op_commandFile opts))
                 | Some h \<Rightarrow>
                    if length (h @ ''/.aliasrc'') \<ge> 1024 then None
                    else Some (sh2, Read_file (Some (h @ ''/.aliasrc'')) (op_commandFile opts)))) })"

lemma sash_main_command:
  assumes "aliases_ok sh"
  shows "\<exists>sh'. aliases_ok sh' \<and> sh_table sh' = sh_table sh \<and>
    (\<forall>n. alias_map sh' n = (if n \<in> set (dash_names commandEntryTable) then Some (CHR ''-'' # n) else alias_map sh n)) \<and>
    sash_main ls env room [''sash'', ''-a'', ''-c'', cmd] sh =
      do { (sh3, out) \<leftarrow> command ls (default_path env) room cmd sh'; Some (sh3, Single out) }"
proof -
  from do_aliasall_map [OF assms] obtain sh' where sh': "do_aliasall sh = Some (sh', [], 0)" "aliases_ok sh'"
    "sh_table sh' = sh_table sh"
    "\<forall>n. alias_map sh' n = (if n \<in> set (dash_names commandEntryTable) then Some (CHR ''-'' # n) else alias_map sh n)"
    by blast
  moreover have "sash_main ls env room [''sash'', ''-a'', ''-c'', cmd] sh =
      do { (sh3, out) \<leftarrow> command ls (default_path env) room cmd sh'; Some (sh3, Single out) }"
    by (simp add: sash_main_def option_words.simps sh'(1))
  ultimately show ?thesis by blast
qed

end
