(* ===== verification/Boot_Screen.thy ===== *)
theory Boot_Screen
  imports Jurt
begin

unbundle bit_operations_syntax

text \<open>
  The output of the boot manager (the first half of main.c): what is printed on the terminal and
  on the frame buffer console, the packing of positions, messages in the middle of the screen,
  the boot logo.

  A display record holds everything the two devices were sent. The sizes of the devices, the
  clock and the decoded picture of the logo are given. \<open>log_center_exact\<close> shows that a message
  appears as its lines, wrapped at the width of the device and centred.
\<close>

section \<open>The devices\<close>

definition LBML_DD_MASK_TERM :: int where "LBML_DD_MASK_TERM = 1"
definition LBML_DD_MASK_FB :: int where "LBML_DD_MASK_FB = 2"
definition LBML_DD_MASK_ALL :: int where "LBML_DD_MASK_ALL = 3"

text \<open>
  \<open>ds_mask\<close> is \<open>config_display_device\<close>; sizes are columns and rows; \<open>ds_pans\<close> counts the
  \<open>FBIOPAN_DISPLAY\<close> calls.
\<close>

record display =
  ds_mask :: int
  ds_term_size :: "int \<times> int"
  ds_fb_size :: "int \<times> int"
  ds_term :: string
  ds_fb :: string
  ds_next_flush :: "64 word"
  ds_pans :: nat

definition LBML_HAS_TERM :: "'a display_scheme \<Rightarrow> bool" where
  "LBML_HAS_TERM d \<longleftrightarrow> bit (ds_mask d) 0"

definition LBML_HAS_FB :: "'a display_scheme \<Rightarrow> bool" where
  "LBML_HAS_FB d \<longleftrightarrow> bit (ds_mask d) 1"

section \<open>Printing\<close>

text \<open>
  The frame buffer's part goes through \<open>libfbpads_vprintf\<close>, which formats into a buffer of 255
  bytes: what is longer is cut. \<open>emit\<close> is the printing without a limit.
\<close>

definition lbml_printf :: "int \<Rightarrow> string \<Rightarrow> 'a display_scheme \<Rightarrow> 'a display_scheme" where
  "lbml_printf dev s d =
     d\<lparr>ds_term := ds_term d @ (if bit dev 0 then s else []), ds_fb := ds_fb d @ (if bit dev 1 then take 254 s else [])\<rparr>"

definition emit :: "int \<Rightarrow> string \<Rightarrow> 'a display_scheme \<Rightarrow> 'a display_scheme" where
  "emit dev s d = d\<lparr>ds_term := ds_term d @ (if bit dev 0 then s else []), ds_fb := ds_fb d @ (if bit dev 1 then s else [])\<rparr>"

text \<open>The loops that print one character at a time.\<close>

fun lbml_chars :: "int \<Rightarrow> nat \<Rightarrow> char \<Rightarrow> 'a display_scheme \<Rightarrow> 'a display_scheme" where
  "lbml_chars dev 0 c d = d"
| "lbml_chars dev (Suc n) c d = lbml_chars dev n c (lbml_printf dev [c] d)"

definition lbml_puts :: "int \<Rightarrow> string \<Rightarrow> 'a display_scheme \<Rightarrow> 'a display_scheme" where
  "lbml_puts dev s d = lbml_printf dev (s @ [LF]) d"

definition lbml_flush :: "'a display_scheme \<Rightarrow> 'a display_scheme" where
  "lbml_flush d = (if LBML_HAS_FB d then d\<lparr>ds_pans := ds_pans d + 1\<rparr> else d)"

text \<open>\<open>t1\<close> and \<open>t2\<close> are what the two calls of \<open>nanos\<close> return; 0 where the clock cannot be read.\<close>

definition nanos :: "(int \<times> int) option \<Rightarrow> 64 word" where
  "nanos ts = (case ts of None \<Rightarrow> 0 | Some (sec, nsec) \<Rightarrow> word_of_int (sec * 1000000000 + nsec))"

definition lbml_lazy_flush :: "64 word \<Rightarrow> 64 word \<Rightarrow> 'a display_scheme \<Rightarrow> 'a display_scheme" where
  "lbml_lazy_flush t1 t2 d =
     (if 0 < ds_next_flush d \<and> ds_next_flush d < t1
      then (lbml_flush d)\<lparr>ds_next_flush := t2 + word_of_int (1000000000 sdiv 15)\<rparr> else d)"

definition fb_fits :: "int \<Rightarrow> nat \<Rightarrow> bool" where
  "fb_fits dev n \<longleftrightarrow> (bit dev 1 \<longrightarrow> n \<le> 254)"

lemma printf_emit: "fb_fits dev (length s) \<Longrightarrow> lbml_printf dev s d = emit dev s d"
  by (auto simp: lbml_printf_def emit_def fb_fits_def)

lemma fb_fits_short [simp]: "n \<le> 254 \<Longrightarrow> fb_fits dev n"
  by (simp add: fb_fits_def)

lemma emit_emit: "emit m t (emit m s d) = emit m (s @ t) d"
  by (simp add: emit_def)

lemma emit_empty [simp]: "emit m [] d = d" "emit 0 s d = d"
  by (simp_all add: emit_def)

lemma chars_emit: "lbml_chars dev n c d = emit dev (replicate n c) d"
proof (induction n arbitrary: d)
  case (Suc n)
  have "lbml_printf dev [c] d = emit dev [c] d" by (rule printf_emit) simp
  with Suc show ?case by (simp add: emit_emit)
qed simp

lemma emit_keeps [simp]:
  "ds_mask (emit m s d) = ds_mask d" "ds_term_size (emit m s d) = ds_term_size d"
  "ds_fb_size (emit m s d) = ds_fb_size d" "ds_next_flush (emit m s d) = ds_next_flush d"
  "ds_pans (emit m s d) = ds_pans d" "display.more (emit m s d) = display.more d"
  by (simp_all add: emit_def)

lemma printf_keeps [simp]:
  "ds_mask (lbml_printf m s d) = ds_mask d" "ds_term_size (lbml_printf m s d) = ds_term_size d"
  "ds_fb_size (lbml_printf m s d) = ds_fb_size d" "ds_next_flush (lbml_printf m s d) = ds_next_flush d"
  "ds_pans (lbml_printf m s d) = ds_pans d" "display.more (lbml_printf m s d) = display.more d"
  by (simp_all add: lbml_printf_def)

text \<open>The messages of \<open>l_inf\<close> and \<open>l_err\<close> go to the terminal; \<open>args\<close> prints the arguments.\<close>

definition log_to_term :: "string option \<Rightarrow> 'a display_scheme \<Rightarrow> 'a display_scheme option" where
  "log_to_term m d = do { s \<leftarrow> m; Some (lbml_printf LBML_DD_MASK_TERM s d) }"

section \<open>Positions\<close>

definition mkPoint :: "int \<Rightarrow> int \<Rightarrow> 32 word" where
  "mkPoint x y = (word_of_int x AND 0xffff) OR push_bit 16 (word_of_int y AND 0xffff)"

definition PX :: "32 word \<Rightarrow> int" where "PX n = uint (n AND 0xffff)"
definition PY :: "32 word \<Rightarrow> int" where "PY n = uint (drop_bit 16 n AND 0xffff)"

lemma low_half: "x AND 0xffff = take_bit 16 (x :: 32 word)"
  by (simp add: take_bit_eq_mask mask_eq_exp_minus_1)

lemma uint_low_half: "uint (take_bit 16 (word_of_int x :: 32 word)) = x mod 65536"
proof -
  have "uint (take_bit 16 (word_of_int x :: 32 word)) = take_bit 16 (take_bit 32 x)"
    by (simp only: unsigned_take_bit_eq uint_word_of_int_eq len_bit0 len_num1 len_of_numeral_defs numeral_Bit0) simp
  also have "\<dots> = take_bit 16 x" by (subst take_bit_take_bit) (simp only: min_def, simp)
  also have "\<dots> = x mod 65536" by (simp add: take_bit_eq_mod)
  finally show ?thesis .
qed

lemma PX_mkPoint: "PX (mkPoint x y) = x mod 65536"
proof -
  have "take_bit 16 (mkPoint x y) = take_bit 16 (word_of_int x)"
    by (rule bit_word_eqI) (auto simp: mkPoint_def low_half bit_simps)
  then show ?thesis unfolding PX_def low_half by (simp only: uint_low_half)
qed

lemma PY_mkPoint: "PY (mkPoint x y) = y mod 65536"
proof -
  have "take_bit 16 (drop_bit 16 (mkPoint x y)) = take_bit 16 (word_of_int y)"
    by (rule bit_word_eqI) (auto simp: mkPoint_def low_half bit_simps)
  then show ?thesis unfolding PY_def low_half by (simp only: uint_low_half)
qed

lemma mkPoint_halves:
  "0 \<le> x \<Longrightarrow> x < 65536 \<Longrightarrow> PX (mkPoint x y) = x" "0 \<le> y \<Longrightarrow> y < 65536 \<Longrightarrow> PY (mkPoint x y) = y"
  by (simp_all add: PX_mkPoint PY_mkPoint)

text \<open>The size of one of the two devices.\<close>

definition get_terminal_size :: "int \<Rightarrow> 'a display_scheme \<Rightarrow> 32 word" where
  "get_terminal_size dd d =
     (if dd = LBML_DD_MASK_FB then mkPoint (fst (ds_fb_size d)) (snd (ds_fb_size d))
      else mkPoint (fst (ds_term_size d)) (snd (ds_term_size d)))"

definition reset_pointer :: "'a display_scheme \<Rightarrow> 'a display_scheme" where
  "reset_pointer d = lbml_puts (ds_mask d) (ESC # ''[0;0H'') d"

definition clear_screen :: "'a display_scheme \<Rightarrow> 'a display_scheme" where
  "clear_screen d = lbml_puts (ds_mask d) (ESC # ''[2J'') d"

definition set_cursor_pos :: "int \<Rightarrow> int \<Rightarrow> int \<Rightarrow> 'a display_scheme \<Rightarrow> 'a display_scheme option" where
  "set_cursor_pos dd x y d =
     (let x0 = (if x < 0 then 0 else x); y0 = (if y < 0 then 0 else y) in do {
        r \<leftarrow> c_int (y0 + 1);
        c \<leftarrow> c_int (x0 + 1);
        Some (lbml_printf dd (ESC # ''['' @ show_int r @ '';'' @ show_int c @ ''H'') d) })"

section \<open>Messages in the middle of the screen\<close>

text \<open>
  The loop that splits a text: \<open>rest\<close> is the text from the index \<open>i\<close>. After a line feed the
  character behind it is skipped as well, it belongs to the next line whatever it is.
\<close>

fun split_loop :: "int \<Rightarrow> int \<Rightarrow> int \<Rightarrow> string \<Rightarrow> DynamicArray \<Rightarrow> (DynamicArray \<times> int \<times> int) option" where
  "split_loop w i last_start [] da = Some (da, i, last_start)"
| "split_loop w i last_start (c # rest) da =
     (if c = LF \<or> i - last_start \<ge> w then do {
        da' \<leftarrow> DA_push_word da (mkPoint last_start i);
        (if c = LF then split_loop w (i + 2) (i + 1) (drop 1 rest) da'
         else split_loop w (i + 1) i rest da') }
      else split_loop w (i + 1) last_start rest da)"

text \<open>\<open>printf("%.*s", n, s)\<close>; a negative precision is no precision.\<close>

definition prefix_text :: "int \<Rightarrow> string \<Rightarrow> string" where
  "prefix_text n s = (if n < 0 then s else take (nat n) s)"

definition line_colours :: "bool \<Rightarrow> string" where
  "line_colours white_bg = (if white_bg then ''30;36'' else ''37;40'')"

definition show_line :: "int \<Rightarrow> string \<Rightarrow> int \<Rightarrow> bool \<Rightarrow> DynamicArray \<Rightarrow> int \<Rightarrow> 'a display_scheme \<Rightarrow> 'a display_scheme option" where
  "show_line dd msg w white_bg ls l d = do {
     str_inf \<leftarrow> DA_get_int ls l;
     let start = PX str_inf;
     let str_len = PY str_inf - start;
     (if int (length msg) < start then None
      else Some (lbml_puts dd [] (lbml_printf dd
        (ESC # ''['' @ line_colours white_bg @ ''m'' @ prefix_text str_len (drop (nat start) msg) @ ESC # ''[0;0m'')
        (lbml_chars dd (nat ((w - str_len) sdiv 2)) (CHR '' '') d)))) }"

definition log_center_on :: "int \<Rightarrow> string \<Rightarrow> bool \<Rightarrow> 'a display_scheme \<Rightarrow> 'a display_scheme option" where
  "log_center_on dd msg white_bg d =
     (let siz = get_terminal_size dd d; w = PX siz; h = PY siz in do {
        created \<leftarrow> DA_create True True 4;
        da0 \<leftarrow> created;
        (da1, i, last_start) \<leftarrow> split_loop w 1 0 (drop 1 msg) da0;
        da \<leftarrow> (if last_start < i then DA_push_word da1 (mkPoint last_start i) else Some da1);
        d1 \<leftarrow> set_cursor_pos dd 0 ((h - da_len da) sdiv 2) d;
        for_range 0 (da_len da) (show_line dd msg w white_bg da) d1 })"

definition log_center :: "int \<Rightarrow> string \<Rightarrow> bool \<Rightarrow> 'a display_scheme \<Rightarrow> 'a display_scheme option" where
  "log_center dev msg white_bg d = do {
     let d0 = clear_screen d;
     d1 \<leftarrow> (if bit dev 0 then log_center_on LBML_DD_MASK_TERM msg white_bg d0 else Some d0);
     (if bit dev 1 then log_center_on LBML_DD_MASK_FB msg white_bg d1 else Some d1) }"

definition log_center_whitebg :: "string \<Rightarrow> 'a display_scheme \<Rightarrow> 'a display_scheme option" where
  "log_center_whitebg msg d = log_center (ds_mask d) msg True d"

definition log_center_blackbg :: "string \<Rightarrow> 'a display_scheme \<Rightarrow> 'a display_scheme option" where
  "log_center_blackbg msg d = log_center (ds_mask d) msg False d"

section \<open>The logo\<close>

definition ascii_mapper :: string where
  "ascii_mapper = '' .'' @ [SQUOTE, CHR 0x60, CHR ''^'', DQUOTE] @
     '',:;Il!i><~+_-?][}{1)(|'' @ [BACKSLASH] @ ''/tfjrxnuvczXYUJCLQ0OZmwqpdbkhao*#MW&8%B@$''"

text \<open>The value of the array's size: the NUL at its end included.\<close>

definition MAPPER_AT :: "int \<Rightarrow> char option" where
  "MAPPER_AT v = str_at ascii_mapper (v * int (length ascii_mapper) sdiv 255)"

text \<open>
  One row of the picture. \<open>pic\<close> is the decoded picture, already scaled to the device: its width,
  its height and its grey values.
\<close>

definition logo_row :: "int \<Rightarrow> int \<times> int \<times> int list \<Rightarrow> int \<Rightarrow> int \<Rightarrow> int \<Rightarrow> 'a display_scheme \<Rightarrow> 'a display_scheme option" where
  "logo_row dd pic paddx paddy y d = (case pic of (width, height, pixels) \<Rightarrow> do {
     d1 \<leftarrow> set_cursor_pos dd 0 (paddy + y) d;
     for_range 0 width (\<lambda>x d. do {
       v \<leftarrow> rd pixels (y * width + x);
       ch \<leftarrow> MAPPER_AT v;
       Some (lbml_printf dd [ch, ch] d) }) (lbml_chars dd (nat paddx) (CHR '' '') d1) })"

text \<open>
  \<open>pic\<close> is \<^term>\<open>None\<close> where the picture cannot be decoded. \<open>stop y\<close> is whether \<open>going_exit\<close>
  is set after the row \<open>y\<close>: the signal handler can set it at any time.
\<close>

fun logo_rows :: "int \<Rightarrow> int \<times> int \<times> int list \<Rightarrow> int \<Rightarrow> int \<Rightarrow> (int \<Rightarrow> bool) \<Rightarrow> int list \<Rightarrow>
    'a display_scheme \<Rightarrow> (bool \<times> 'a display_scheme) option" where
  "logo_rows dd pic paddx paddy stop [] d = Some (False, d)"
| "logo_rows dd pic paddx paddy stop (y # ys) d = do {
     d1 \<leftarrow> logo_row dd pic paddx paddy y d;
     (if stop y then Some (True, d1) else logo_rows dd pic paddx paddy stop ys d1) }"

definition display_logo_on :: "int \<Rightarrow> (int \<times> int \<times> int list) option \<Rightarrow> (int \<Rightarrow> bool) \<Rightarrow> 'a display_scheme \<Rightarrow>
    (int \<times> 'a display_scheme) option" where
  "display_logo_on dd picture stop d =
     (let siz = get_terminal_size dd d; tw = PX siz; th = PY siz; itw = tw sdiv 2 in
      case picture of
        None \<Rightarrow> do { d1 \<leftarrow> log_to_term (l_err ''failed to load logo'') d; Some (1, d1) }
      | Some (width, height, pixels) \<Rightarrow> do {
          let paddx = itw - width;
          let paddy = (th - height) sdiv 2;
          d1 \<leftarrow> set_cursor_pos dd 0 paddy d;
          (stopped, d2) \<leftarrow> logo_rows dd (width, height, pixels) paddx paddy stop [0..height - 1] d1;
          (if stopped then Some (1, d2) else Some (0, lbml_flush d2)) })"

text \<open>
  The last path of \<open>display_logo\<close> reaches the end of the function without a \<open>return\<close>:
  \<open>junk\<close> is the value that its caller reads then.
\<close>

definition display_logo :: "int \<Rightarrow> (int \<Rightarrow> (int \<times> int \<times> int list) option) \<Rightarrow> (int \<Rightarrow> int \<Rightarrow> bool) \<Rightarrow> 'a display_scheme \<Rightarrow>
    (int \<times> 'a display_scheme) option" where
  "display_logo junk pic stop d = do {
     d0 \<leftarrow> log_center_blackbg ''loading logo...'' d;
     (r1, d1) \<leftarrow> (if LBML_HAS_TERM d0 then display_logo_on LBML_DD_MASK_TERM (pic LBML_DD_MASK_TERM) (stop LBML_DD_MASK_TERM) d0
       else Some (0, d0));
     (if r1 \<noteq> 0 then Some (1, d1) else do {
        (r2, d2) \<leftarrow> (if LBML_HAS_FB d1 then display_logo_on LBML_DD_MASK_FB (pic LBML_DD_MASK_FB) (stop LBML_DD_MASK_FB) d1
          else Some (0, d1));
        Some (if r2 \<noteq> 0 then (1, d2) else (junk, d2)) }) }"

text \<open>Every grey value has a character; only full white has the NUL behind the table.\<close>

lemma MAPPER_AT_grey:
  assumes "0 \<le> v" "v \<le> 255"
  shows "MAPPER_AT v = Some ((ascii_mapper @ [NUL]) ! nat (v * 70 div 255))" "v * 70 div 255 = 70 \<longleftrightarrow> v = 255"
proof -
  have len: "length ascii_mapper = 70" by (simp add: ascii_mapper_def)
  have b: "0 \<le> v * 70 div 255" "v * 70 div 255 \<le> 70" using assms by auto
  have "v * 70 sdiv 255 = v * 70 div 255" using assms by (intro sdiv_pos) auto
  then show "MAPPER_AT v = Some ((ascii_mapper @ [NUL]) ! nat (v * 70 div 255))"
    using b by (simp add: MAPPER_AT_def str_at_def rd_def len)
  show "v * 70 div 255 = 70 \<longleftrightarrow> v = 255" using assms by auto
qed

section \<open>The lines of a message\<close>

text \<open>
  What a reader expects of a message: lines end at line feeds and after \<open>w\<close> characters. The
  code agrees with it when no line of the text is empty.
\<close>

fun wrap_from :: "nat \<Rightarrow> string \<Rightarrow> string \<Rightarrow> string list" where
  "wrap_from w cur [] = (if cur = [] then [] else [cur])"
| "wrap_from w cur (c # s) =
     (if c = LF then cur # wrap_from w [] s
      else if w \<le> length cur then cur # wrap_from w [c] s
      else wrap_from w (cur @ [c]) s)"

definition wrap :: "nat \<Rightarrow> string \<Rightarrow> string list" where
  "wrap w s = wrap_from w [] s"

fun no_empty_line :: "string \<Rightarrow> bool" where
  "no_empty_line [] = False"
| "no_empty_line [c] = (c \<noteq> LF)"
| "no_empty_line (a # b # s) = (a \<noteq> LF \<and> (if b = LF then no_empty_line s else no_empty_line (b # s)))"

definition centred :: "int \<Rightarrow> bool \<Rightarrow> string \<Rightarrow> string" where
  "centred w white_bg s =
     replicate (nat ((w - int (length s)) sdiv 2)) (CHR '' '') @
     ESC # ''['' @ line_colours white_bg @ ''m'' @ s @ ESC # ''[0;0m'' @ [LF]"

text \<open>The positions at which the code cuts the text.\<close>

fun cuts :: "int \<Rightarrow> int \<Rightarrow> int \<Rightarrow> string \<Rightarrow> (int \<times> int) list" where
  "cuts w i last_start [] = (if last_start < i then [(last_start, i)] else [])"
| "cuts w i last_start (c # rest) =
     (if c = LF \<or> i - last_start \<ge> w
      then (last_start, i) # (if c = LF then cuts w (i + 2) (i + 1) (drop 1 rest) else cuts w (i + 1) i rest)
      else cuts w (i + 1) last_start rest)"

lemma split_loop_cuts:
  "do { (da1, i', l') \<leftarrow> split_loop w i l rest da;
        (if l' < i' then DA_push_word da1 (mkPoint l' i') else Some da1) } =
   push_all DA_push_word (map (\<lambda>(a, b). mkPoint a b) (cuts w i l rest)) da"
proof (induction w i l rest arbitrary: da rule: cuts.induct)
  case (1 w i l)
  then show ?case by (cases "DA_push_word da (mkPoint l i)") simp_all
next
  case (2 w i l c rest)
  then show ?case by (cases "DA_push_word da (mkPoint l i)") (auto simp del: drop_Suc_Cons)
qed

lemma no_empty_line_suffix:
  "no_empty_line (cur @ c # s) \<Longrightarrow> LF \<notin> set cur \<Longrightarrow> cur \<noteq> [] \<Longrightarrow> no_empty_line (if c = LF then s else c # s)"
proof (induction cur)
  case (Cons a cur)
  show ?case
  proof (cases cur)
    case Nil
    with Cons.prems show ?thesis by (auto split: if_splits)
  next
    case (Cons b bs)
    with Cons.prems Cons.IH show ?thesis by auto
  qed
qed simp

lemma no_empty_line_hd: "no_empty_line s \<Longrightarrow> \<exists>c s'. s = c # s' \<and> c \<noteq> LF"
  by (cases s rule: no_empty_line.cases) auto

lemma cuts_wrap:
  assumes "t = pre @ cur @ rest" "l = int (length pre)" "i = l + int (length cur)"
    and "cur \<noteq> []" "LF \<notin> set cur" "no_empty_line (cur @ rest)" "0 < w"
  shows "map (\<lambda>(a, b). take (nat (b - a)) (drop (nat a) t)) (cuts w i l rest) = wrap_from (nat w) cur rest \<and>
    (\<forall>(a, b) \<in> set (cuts w i l rest). 0 \<le> a \<and> a < b \<and> b \<le> int (length t))"
  using assms
proof (induction w i l rest arbitrary: pre cur rule: cuts.induct)
  case (1 w i l)
  then show ?case by simp
next
  case (2 w i l c rest)
  have cut: "take (nat (i - l)) (drop (nat l) t) = cur" "0 \<le> l" "l < i" "i < int (length t)"
    using 2(4-7) by auto
  have len: "i - l = int (length cur)" using 2(6) by simp
  show ?case
  proof (cases "c = LF")
    case True
    from no_empty_line_suffix [OF 2(9) 2(8) 2(7)] True have r: "no_empty_line rest" by simp
    then obtain d s where d: "rest = d # s" "d \<noteq> LF" using no_empty_line_hd by blast
    have "map (\<lambda>(a, b). take (nat (b - a)) (drop (nat a) t)) (cuts w (i + 2) (i + 1) (drop 1 rest)) =
        wrap_from (nat w) [d] (drop 1 rest) \<and>
      (\<forall>(a, b) \<in> set (cuts w (i + 2) (i + 1) (drop 1 rest)). 0 \<le> a \<and> a < b \<and> b \<le> int (length t))"
      by (rule 2(1) [of "pre @ cur @ [c]" "[d]"]) (use True d r 2(4-6,10) in auto)
    with True d cut 2(10) show ?thesis by simp
  next
    case False
    show ?thesis
    proof (cases "i - l \<ge> w")
      case full: True
      have "map (\<lambda>(a, b). take (nat (b - a)) (drop (nat a) t)) (cuts w (i + 1) i rest) = wrap_from (nat w) [c] rest \<and>
        (\<forall>(a, b) \<in> set (cuts w (i + 1) i rest). 0 \<le> a \<and> a < b \<and> b \<le> int (length t))"
        by (rule 2(2) [of "pre @ cur" "[c]"])
          (use full False 2(4-6,10) no_empty_line_suffix [OF 2(9) 2(8) 2(7)] in auto)
      with False full cut len show ?thesis by (simp add: nat_le_iff)
    next
      case room: False
      have "map (\<lambda>(a, b). take (nat (b - a)) (drop (nat a) t)) (cuts w (i + 1) l rest) = wrap_from (nat w) (cur @ [c]) rest \<and>
        (\<forall>(a, b) \<in> set (cuts w (i + 1) l rest). 0 \<le> a \<and> a < b \<and> b \<le> int (length t))"
        by (rule 2(3) [of pre "cur @ [c]"]) (use room False 2(4-10) in auto)
      with False room len show ?thesis by (simp add: nat_le_iff)
    qed
  qed
qed

text \<open>A loop each of whose rounds prints one text.\<close>

lemma for_range_prints:
  assumes "\<And>i s. 0 \<le> i \<Longrightarrow> i < int (length ss) \<Longrightarrow> f i (emit dd s d) = Some (emit dd (s @ ss ! nat i) d)"
  shows "for_range 0 (int (length ss)) f (emit dd s d) = Some (emit dd (s @ concat ss) d)"
proof -
  have "runs (for_range 0 (int (length ss)) f (emit dd s d))
      (\<lambda>e. e = emit dd (s @ concat (take (nat (int (length ss))) ss)) d)"
  proof (rule for_range_inv [where I = "\<lambda>i e. e = emit dd (s @ concat (take (nat i) ss)) d"])
    fix i e assume i: "0 \<le> i" "i < int (length ss)" "e = emit dd (s @ concat (take (nat i) ss)) d"
    have "take (nat (i + 1)) ss = take (nat i) ss @ [ss ! nat i]"
      using i by (simp add: nat_add_distrib take_Suc_conv_app_nth)
    then show "runs (f i e) (\<lambda>e. e = emit dd (s @ concat (take (nat (i + 1)) ss)) d)"
      using assms [of i] i by simp
  qed simp_all
  then show ?thesis by (auto simp: runs_iff)
qed

lemma set_cursor_pos_runs:
  assumes "y < 65536"
  shows "set_cursor_pos dd 0 y d = Some (emit dd (ESC # ''['' @ show_int (max 0 y + 1) @ '';1H'') d)"
proof -
  have one: "show_int 1 = ''1''" by code_simp
  have "length (show_int (max 0 y + 1)) \<le> 6" by (rule show_int_length) (use assms in auto)
  then have "lbml_printf dd (ESC # ''['' @ show_int (max 0 y + 1) @ '';1H'') d =
      emit dd (ESC # ''['' @ show_int (max 0 y + 1) @ '';1H'') d" by (intro printf_emit) simp
  with assms show ?thesis by (cases "y < 0") (simp_all add: set_cursor_pos_def Let_def c_int_def int_ok_def max_def one)
qed

definition device_size :: "int \<Rightarrow> 'a display_scheme \<Rightarrow> int \<times> int" where
  "device_size dd d = (if dd = LBML_DD_MASK_FB then ds_fb_size d else ds_term_size d)"

definition centred_text :: "int \<Rightarrow> int \<Rightarrow> string \<Rightarrow> bool \<Rightarrow> string" where
  "centred_text w h msg white_bg =
     (let ls = wrap (nat w) msg in
      ESC # ''['' @ show_int (max 0 ((h - int (length ls)) sdiv 2) + 1) @ '';1H'' @ concat (map (centred w white_bg) ls))"

lemma wrap_start: "wrap w (c # s) = (if c = LF then [] # wrap_from w [] s else if w = 0 then [] # wrap_from w [c] s else wrap_from w [c] s)"
  by (simp add: wrap_def)

lemma log_center_on_runs:
  fixes d :: "'b display_scheme"
  assumes size: "device_size dd d = (w, h)" "0 < w" "w < 65536" "0 \<le> h" "h < 65536"
    and msg: "no_empty_line msg" "length msg < 65536" "fb_fits dd (length msg + 14)"
  shows "log_center_on dd msg white_bg d = Some (emit dd (centred_text w h msg white_bg) d)"
proof -
  obtain c s where c: "msg = c # s" "c \<noteq> LF" using no_empty_line_hd [OF msg(1)] by blast
  let ?cs = "cuts w 1 0 s"
  have cw: "map (\<lambda>(a, b). take (nat (b - a)) (drop (nat a) msg)) ?cs = wrap_from (nat w) [c] s \<and>
      (\<forall>(a, b) \<in> set ?cs. 0 \<le> a \<and> a < b \<and> b \<le> int (length msg))"
    by (rule cuts_wrap [where pre = "[]"]) (use c size msg in auto)
  have wr: "wrap_from (nat w) [c] s = wrap (nat w) msg" using c size by (simp add: wrap_start)
  let ?ls = "wrap (nat w) msg"
  let ?ws = "map (\<lambda>(a, b). mkPoint a b) ?cs"
  have n: "length ?cs = length ?ls" using arg_cong [OF cw [THEN conjunct1], of length] wr by simp
  have short: "length (cuts w i l r) \<le> length r + 1" for i l r
    by (induction w i l r rule: cuts.induct) auto
  have n1: "length ?ls < 65536" using short [of 1 0 s] n c msg(2) by simp
  have "runs (DA_create True True 4) (\<lambda>r. \<exists>da. r = Some da \<and>
    runs (push_all DA_push_word ?ws da) (\<lambda>da'. da_len da' = int (length ?ws) \<and>
      (\<forall>i. DA_get_int da' i = Some (if 0 \<le> i \<and> i < int (length ?ws) then ?ws ! nat i else - 1))))"
    by (rule push_words_read) (use n n1 in simp)
  then obtain da da' where da: "DA_create True True 4 = Some (Some da)" "push_all DA_push_word ?ws da = Some da'"
    "da_len da' = int (length ?ls)"
    "\<And>i. 0 \<le> i \<Longrightarrow> i < int (length ?ls) \<Longrightarrow> DA_get_int da' i = Some (?ws ! nat i)"
    by (auto simp: runs_iff n)
  have line: "show_line dd msg w white_bg da' i (emit dd t e) =
      Some (emit dd (t @ map (centred w white_bg) ?ls ! nat i) e)"
    if i: "0 \<le> i" "i < int (length (map (centred w white_bg) ?ls))" for i t and e :: "'b display_scheme"
  proof -
    from i have ni: "nat i < length ?cs" by (simp add: n)
    obtain a b where ab: "?cs ! nat i = (a, b)" by fastforce
    then have "(a, b) \<in> set ?cs" using ni nth_mem by metis
    with cw have bd: "0 \<le> a" "a < b" "b \<le> int (length msg)" by auto
    have sl: "?ls ! nat i = take (nat (b - a)) (drop (nat a) msg)"
      using arg_cong [OF cw [THEN conjunct1], of "\<lambda>xs. xs ! nat i"] ni ab by (simp add: wr)
    then have ll: "int (length (?ls ! nat i)) = b - a" using bd by auto
    have g: "DA_get_int da' i = Some (mkPoint a b)" using da(4) i ni ab by simp
    have p: "PX (mkPoint a b) = a" "PY (mkPoint a b) = b" using bd msg(2) by (simp_all add: mkPoint_halves)
    have len: "length (?ls ! nat i) \<le> length msg" by (simp add: sl)
    have out: "lbml_printf dd (ESC # ''['' @ line_colours white_bg @ ''m'' @ ?ls ! nat i @ ESC # ''[0;0m'') u =
        emit dd (ESC # ''['' @ line_colours white_bg @ ''m'' @ ?ls ! nat i @ ESC # ''[0;0m'') u" for u :: "'b display_scheme"
      by (rule printf_emit) (use len msg(3) in \<open>auto simp: fb_fits_def line_colours_def\<close>)
    have lf: "lbml_puts dd [] u = emit dd [LF] u" for u :: "'b display_scheme" by (simp add: lbml_puts_def printf_emit)
    have "show_line dd msg w white_bg da' i (emit dd t e) = Some (lbml_puts dd [] (lbml_printf dd
        (ESC # ''['' @ line_colours white_bg @ ''m'' @ ?ls ! nat i @ ESC # ''[0;0m'')
        (lbml_chars dd (nat ((w - int (length (?ls ! nat i))) sdiv 2)) (CHR '' '') (emit dd t e))))"
      using bd by (simp add: show_line_def g p prefix_text_def sl [symmetric] ll)
    then have "show_line dd msg w white_bg da' i (emit dd t e) = Some (emit dd [LF] (emit dd
        (ESC # ''['' @ line_colours white_bg @ ''m'' @ ?ls ! nat i @ ESC # ''[0;0m'')
        (emit dd (replicate (nat ((w - int (length (?ls ! nat i))) sdiv 2)) (CHR '' '')) (emit dd t e))))"
      unfolding lf out chars_emit .
    then show ?thesis using i by (simp add: emit_emit centred_def)
  qed
  let ?y = "(h - int (length ?ls)) sdiv 2"
  have y: "?y < 65536"
  proof (cases "0 \<le> h - int (length ?ls)")
    case True
    then show ?thesis using size by (simp add: sdiv_pos)
  next
    case False
    then have "?y \<le> 0" by (simp add: signed_divide_int_def sgn_if)
    then show ?thesis by simp
  qed
  have sz: "PX (get_terminal_size dd d) = w" "PY (get_terminal_size dd d) = h"
    using size by (auto simp: get_terminal_size_def device_size_def mkPoint_halves split: if_splits)
  have split: "do { (da1, i', l') \<leftarrow> split_loop w 1 0 s da;
      (if l' < i' then DA_push_word da1 (mkPoint l' i') else Some da1) } = Some da'"
    using split_loop_cuts [of w 1 0 s da] da(2) by simp
  then obtain da1 i' l' where sp: "split_loop w 1 0 s da = Some (da1, i', l')"
    "(if l' < i' then DA_push_word da1 (mkPoint l' i') else Some da1) = Some da'"
    by (auto split: Option.bind_splits)
  have loop: "for_range 0 (int (length ?ls)) (show_line dd msg w white_bg da') e =
      Some (emit dd (concat (map (centred w white_bg) ?ls)) e)" for e :: "'b display_scheme"
    using for_range_prints [OF line, of "[]" e] by simp
  have "log_center_on dd msg white_bg d =
      do { d1 \<leftarrow> set_cursor_pos dd 0 ?y d; for_range 0 (int (length ?ls)) (show_line dd msg w white_bg da') d1 }"
    using sp(2) da(3) by (simp add: log_center_on_def Let_def sz da(1) c(1) sp(1))
  then show ?thesis
    by (simp add: set_cursor_pos_runs [OF y] loop emit_emit centred_text_def Let_def)
qed

text \<open>Wrapping loses nothing but the line feeds, and no line is wider than the device.\<close>

lemma wrap_from_lines:
  "0 < w \<Longrightarrow> length cur \<le> w \<Longrightarrow> LF \<notin> set cur \<Longrightarrow> concat (wrap_from w cur s) = cur @ filter (\<lambda>c. c \<noteq> LF) s \<and>
    (\<forall>l \<in> set (wrap_from w cur s). length l \<le> w \<and> LF \<notin> set l)"
proof (induction w cur s rule: wrap_from.induct)
  case (1 w cur)
  then show ?case by simp
next
  case (2 w cur c s)
  consider "c = LF" | "c \<noteq> LF" "w \<le> length cur" | "c \<noteq> LF" "\<not> w \<le> length cur" by blast
  then show ?case
  proof cases
    case 1
    with 2 show ?thesis by simp
  next
    case 2
    with "2.IH"(2) "2.prems" show ?thesis by auto
  next
    case 3
    with "2.IH"(3) "2.prems" show ?thesis by simp
  qed
qed

lemma device_bits [simp]:
  "bit LBML_DD_MASK_TERM 0" "\<not> bit LBML_DD_MASK_TERM 1" "\<not> bit LBML_DD_MASK_FB 0" "bit LBML_DD_MASK_FB 1"
  "\<not> bit LBML_DD_MASK_TERM (Suc 0)" "bit LBML_DD_MASK_FB (Suc 0)"
  by (simp_all add: LBML_DD_MASK_TERM_def LBML_DD_MASK_FB_def bit_numeral_rec bit_1_iff)

lemma fb_fits_term [simp]: "fb_fits LBML_DD_MASK_TERM n"
  by (simp add: fb_fits_def)

lemma clear_screen_keeps [simp]:
  "ds_mask (clear_screen d) = ds_mask d" "ds_term_size (clear_screen d) = ds_term_size d"
  "ds_fb_size (clear_screen d) = ds_fb_size d"
  by (simp_all add: clear_screen_def lbml_puts_def)

definition size_ok :: "int \<times> int \<Rightarrow> bool" where
  "size_ok s \<longleftrightarrow> 0 < fst s \<and> fst s < 65536 \<and> 0 \<le> snd s \<and> snd s < 65536"

text \<open>What \<open>log_center\<close> leaves on the two devices.\<close>

definition message_shown :: "int \<Rightarrow> string \<Rightarrow> bool \<Rightarrow> 'a display_scheme \<Rightarrow> 'a display_scheme" where
  "message_shown dev msg white_bg d =
     (let d0 = clear_screen d;
          d1 = emit (if bit dev 0 then LBML_DD_MASK_TERM else 0)
            (centred_text (fst (ds_term_size d)) (snd (ds_term_size d)) msg white_bg) d0
      in emit (if bit dev 1 then LBML_DD_MASK_FB else 0)
            (centred_text (fst (ds_fb_size d)) (snd (ds_fb_size d)) msg white_bg) d1)"

lemma log_center_runs:
  assumes "bit dev 0 \<Longrightarrow> size_ok (ds_term_size d)" "bit dev 1 \<Longrightarrow> size_ok (ds_fb_size d)"
    and "no_empty_line msg" "length msg < 65536" "fb_fits dev (length msg + 14)"
  shows "log_center dev msg white_bg d = Some (message_shown dev msg white_bg d)"
proof -
  have t: "log_center_on LBML_DD_MASK_TERM msg white_bg (clear_screen d) =
      Some (emit LBML_DD_MASK_TERM (centred_text (fst (ds_term_size d)) (snd (ds_term_size d)) msg white_bg) (clear_screen d))"
    if "bit dev 0"
    by (rule log_center_on_runs)
      (use assms that in \<open>auto simp: device_size_def size_ok_def LBML_DD_MASK_TERM_def LBML_DD_MASK_FB_def fb_fits_def bit_1_iff\<close>)
  have f: "log_center_on LBML_DD_MASK_FB msg white_bg e =
      Some (emit LBML_DD_MASK_FB (centred_text (fst (ds_fb_size d)) (snd (ds_fb_size d)) msg white_bg) e)"
    if "bit dev 1" "ds_fb_size e = ds_fb_size d" for e :: "'a display_scheme"
    by (rule log_center_on_runs)
      (use assms that in \<open>auto simp: device_size_def size_ok_def LBML_DD_MASK_TERM_def LBML_DD_MASK_FB_def fb_fits_def\<close>)
  show ?thesis using t f by (auto simp: log_center_def message_shown_def Let_def)
qed

text \<open>
  C36. A message none of whose lines is empty appears on every device that the mask names: the
  screen is cleared, the cursor is put on the row that centres the block, and the lines of the
  text, wrapped at the width of that device, are printed in order, each centred (on the frame
  buffer if it is short enough for the library's buffer). The wrapped
  lines are no wider than the device and hold all the characters of the text.
\<close>

theorem log_center_exact:
  assumes "bit dev 0 \<Longrightarrow> size_ok (ds_term_size d)" "bit dev 1 \<Longrightarrow> size_ok (ds_fb_size d)"
    and "no_empty_line msg" "length msg < 65536" "fb_fits dev (length msg + 14)"
  shows "log_center dev msg white_bg d = Some (message_shown dev msg white_bg d) \<and>
    (\<forall>w > 0. concat (wrap w msg) = filter (\<lambda>c. c \<noteq> LF) msg \<and> (\<forall>l \<in> set (wrap w msg). length l \<le> w))"
proof (intro conjI allI impI)
  show "log_center dev msg white_bg d = Some (message_shown dev msg white_bg d)"
    using assms by (rule log_center_runs)
  fix w :: nat assume "0 < w"
  from wrap_from_lines [OF this, of "[]" msg]
  show "concat (wrap w msg) = filter (\<lambda>c. c \<noteq> LF) msg" "\<forall>l \<in> set (wrap w msg). length l \<le> w"
    by (simp_all add: wrap_def)
qed

definition blank_display :: display where
  "blank_display = \<lparr>ds_mask = LBML_DD_MASK_TERM, ds_term_size = (8, 5), ds_fb_size = (0, 0), ds_term = [], ds_fb = [],
     ds_next_flush = 1, ds_pans = 0\<rparr>"

theorem log_center_exact_witness:
  "log_center LBML_DD_MASK_TERM ''Cannot execute'' True blank_display =
     Some (message_shown LBML_DD_MASK_TERM ''Cannot execute'' True blank_display) \<and>
   wrap 8 ''Cannot execute'' = [''Cannot e'', ''xecute'']"
proof
  show "log_center LBML_DD_MASK_TERM ''Cannot execute'' True blank_display =
     Some (message_shown LBML_DD_MASK_TERM ''Cannot execute'' True blank_display)"
    by (rule log_center_exact [THEN conjunct1]) (simp_all add: blank_display_def size_ok_def)
qed (simp add: wrap_def)

section \<open>What printing leaves alone\<close>

text \<open>\<open>prints d d'\<close>: at most the two outputs of the display and the counters of the flushes differ.\<close>

definition prints :: "'a display_scheme \<Rightarrow> 'a display_scheme \<Rightarrow> bool" where
  "prints d d' \<longleftrightarrow> (\<exists>t f n p. d' = d\<lparr>ds_term := t, ds_fb := f, ds_next_flush := n, ds_pans := p\<rparr>)"

lemma printsI: "d' = d\<lparr>ds_term := t, ds_fb := f, ds_next_flush := n, ds_pans := p\<rparr> \<Longrightarrow> prints d d'"
  unfolding prints_def by blast

lemma printsE:
  assumes "prints d d'"
  obtains t f n p where "d' = d\<lparr>ds_term := t, ds_fb := f, ds_next_flush := n, ds_pans := p\<rparr>"
  using assms unfolding prints_def by blast

lemma prints_refl [intro, simp]: "prints d d"
  by (rule printsI [where t = "ds_term d" and f = "ds_fb d" and n = "ds_next_flush d" and p = "ds_pans d"]) simp

lemma prints_trans [trans]: "prints a b \<Longrightarrow> prints b c \<Longrightarrow> prints a c"
  by (elim printsE) (rule printsI, simp)

lemma prints_printf [intro, simp]: "prints d (lbml_printf dev s d)"
  by (rule printsI [where n = "ds_next_flush d" and p = "ds_pans d"]) (simp add: lbml_printf_def)

lemma prints_flush [intro, simp]: "prints d (lbml_flush d)" "prints d (lbml_lazy_flush t1 t2 d)"
proof -
  show "prints d (lbml_flush d)"
    unfolding lbml_flush_def by (rule printsI [where t = "ds_term d" and f = "ds_fb d" and n = "ds_next_flush d"
      and p = "if LBML_HAS_FB d then ds_pans d + 1 else ds_pans d"]) simp
  then have "prints d ((lbml_flush d)\<lparr>ds_next_flush := n\<rparr>)" for n
  proof (rule printsE)
    fix t f n' p assume "lbml_flush d = d\<lparr>ds_term := t, ds_fb := f, ds_next_flush := n', ds_pans := p\<rparr>"
    then show ?thesis by (intro printsI [where t = t and f = f and n = n and p = p]) simp
  qed
  then show "prints d (lbml_lazy_flush t1 t2 d)" by (simp add: lbml_lazy_flush_def)
qed

lemma prints_emit [intro, simp]: "prints d (emit dev s d)"
  by (rule printsI [where n = "ds_next_flush d" and p = "ds_pans d"]) (simp add: emit_def)

lemma prints_chars [intro, simp]: "prints d (lbml_chars dev n c d)"
  by (simp add: chars_emit)

lemma prints_puts [intro, simp]: "prints d (lbml_puts dev s d)"
  by (simp add: lbml_puts_def)

lemma prints_screen [intro, simp]: "prints d (clear_screen d)" "prints d (reset_pointer d)"
  by (simp_all add: clear_screen_def reset_pointer_def)

lemma prints_log: "log_to_term m d = Some d' \<Longrightarrow> prints d d'"
  by (auto simp: log_to_term_def split: Option.bind_splits)

lemma prints_cursor: "set_cursor_pos dd x y d = Some d' \<Longrightarrow> prints d d'"
  by (auto simp: set_cursor_pos_def Let_def split: Option.bind_splits)

lemma prints_line: "show_line dd msg w wb ls l d = Some d' \<Longrightarrow> prints d d'"
  by (auto simp: show_line_def Let_def split: Option.bind_splits if_splits intro: prints_trans [OF prints_printf prints_puts]
      prints_trans [OF prints_chars prints_trans [OF prints_printf prints_puts]])

lemma prints_range:
  assumes "for_range lo hi f d = Some d'" "\<And>i e e'. f i e = Some e' \<Longrightarrow> prints e e'"
  shows "prints d d'"
  by (rule for_range_partial [where I = "prints d", OF _ _ assms(1)]) (auto dest: assms(2) intro: prints_trans)

lemma prints_center_on: "log_center_on dd msg wb d = Some d' \<Longrightarrow> prints d d'"
  by (auto simp: log_center_on_def Let_def split: Option.bind_splits
      dest!: prints_cursor prints_range [where f = "show_line dd msg w wb da" for w da] intro: prints_line prints_trans)

lemma prints_center: "log_center dev msg wb d = Some d' \<Longrightarrow> prints d d'"
  by (auto simp: log_center_def Let_def split: Option.bind_splits if_splits dest!: prints_center_on
      intro: prints_trans [OF prints_screen(1)] prints_trans)

lemma prints_centered:
  "log_center_whitebg msg d = Some d' \<Longrightarrow> prints d d'" "log_center_blackbg msg d = Some d' \<Longrightarrow> prints d d'"
  by (auto simp: log_center_whitebg_def log_center_blackbg_def dest: prints_center)

text \<open>The logo: it prints, and the frame buffer is panned at most once for each device.\<close>

lemma prints_logo_row: "logo_row dd pic px py y d = Some d' \<Longrightarrow> prints d d'"
  by (cases pic) (auto simp: logo_row_def split: Option.bind_splits dest!: prints_cursor prints_range
      intro: prints_trans [OF prints_trans [OF _ prints_chars]])

lemma prints_logo_rows: "logo_rows dd pic px py stop ys d = Some (b, d') \<Longrightarrow> prints d d'"
  by (induction ys arbitrary: d) (auto split: Option.bind_splits if_splits dest: prints_logo_row intro: prints_trans)


lemma prints_logo_on: "display_logo_on dd picture stop d = Some (r, d') \<Longrightarrow> prints d d'"
  by (auto simp: display_logo_on_def Let_def Option.bind_eq_Some_conv split: option.split_asm if_splits
      dest!: prints_log prints_cursor prints_logo_rows)
    (meson prints_trans prints_flush)+

lemma prints_logo:
  assumes "display_logo junk pic stop d = Some (r, d')"
  shows "prints d d'"
proof -
  from assms obtain d0 r1 d1 where d0: "log_center_blackbg ''loading logo...'' d = Some d0" and
    d1: "(if LBML_HAS_TERM d0 then display_logo_on LBML_DD_MASK_TERM (pic LBML_DD_MASK_TERM) (stop LBML_DD_MASK_TERM) d0
       else Some (0, d0)) = Some (r1, d1)" and
    rest: "(if r1 \<noteq> 0 then Some (1, d1) else do {
        (r2, d2) \<leftarrow> (if LBML_HAS_FB d1 then display_logo_on LBML_DD_MASK_FB (pic LBML_DD_MASK_FB) (stop LBML_DD_MASK_FB) d1
          else Some (0, d1));
        Some (if r2 \<noteq> 0 then (1, d2) else (junk, d2)) }) = Some (r, d')"
    unfolding display_logo_def by (auto simp: Option.bind_eq_Some_conv)
  have "prints d d0" using d0 by (rule prints_centered)
  also have "prints d0 d1" using d1 by (auto split: if_splits dest: prints_logo_on)
  also have "prints d1 d'" using rest by (auto simp: Option.bind_eq_Some_conv split: if_splits dest: prints_logo_on)
  finally show ?thesis .
qed

end
