(* ===== verification/Boot_Config.thy ===== *)
theory Boot_Config
  imports Boot_Screen Toml_Safe
begin

text \<open>
  The menu of the boot manager and its configuration file (main.c): the entries with their
  fixed buffers, and the reading of them from the tree that the parser of toml.c builds.

  A buffer is the list of its characters, a copy that does not fit in it is undefined.
  \<open>boot_entry\<close> says what an entry of the file means without any buffers; \<open>config_refines\<close> shows
  that the loaded menu is exactly that, in the order of the file, whenever everything fits.
\<close>

section \<open>Buffers\<close>

definition zeros :: "nat \<Rightarrow> string" where "zeros n = replicate n NUL"

text \<open>\<open>strncpy\<close> pads with NULs up to \<open>n\<close>, and writes no NUL when the text has \<open>n\<close> characters.\<close>

definition strncpy :: "string \<Rightarrow> string \<Rightarrow> int \<Rightarrow> string option" where
  "strncpy dest src n = mem_put dest 0 (take (nat n) (src @ replicate (nat n - length src) NUL))"

definition strcpy :: "string \<Rightarrow> string \<Rightarrow> string option" where
  "strcpy dest src = mem_put dest 0 (src @ [NUL])"

text \<open>Reading a buffer as a string: undefined without a NUL in it.\<close>

definition buffer_string :: "string \<Rightarrow> string option" where
  "buffer_string b = (if NUL \<in> set b then Some (c_string b) else None)"

lemma buffer_string_put:
  assumes "NUL \<notin> set s" "length s < n"
  shows "buffer_string (s @ replicate (n - length s) NUL) = Some s"
proof -
  have "takeWhile (\<lambda>c. c \<noteq> NUL) (s @ t) = s @ takeWhile (\<lambda>c. c \<noteq> NUL) t" for t
    using assms(1) by (intro takeWhile_append2) auto
  then show ?thesis using assms(2) by (simp add: buffer_string_def c_string_def)
qed

lemma strncpy_zeros:
  "strncpy (zeros n) s (int (length s)) = (if length s \<le> n then Some (s @ replicate (n - length s) NUL) else None)"
  by (simp add: strncpy_def mem_put_def zeros_def)

lemma strcpy_zeros:
  "strcpy (zeros n) s = (if length s < n then Some (s @ replicate (n - length s) NUL) else None)"
proof (cases "length s < n")
  case True
  then have "n - length s = Suc (n - Suc (length s))" by simp
  with True show ?thesis by (simp add: strcpy_def mem_put_def zeros_def)
qed (simp add: strcpy_def mem_put_def zeros_def)

section \<open>The menu\<close>

datatype entry_type = entry_type_init | entry_type_kexec | entry_type_shell

record menu_entry =
  me_title :: string
  me_type :: entry_type
  me_exe_path :: string
  me_cmdline :: string
  me_param_str :: string

definition DEFAULT_INIT_PATH :: string where "DEFAULT_INIT_PATH = ''/init''"
definition DEFAULT_KEXEC_PATH :: string where "DEFAULT_KEXEC_PATH = ''/sbin/kexec''"

text \<open>The entries are \<open>menu_entries[0..menu_entries_count - 1]\<close>; the array has 32 of them.\<close>

record boot = display +
  bt_show_splash :: bool
  bt_title :: string
  bt_entries :: "menu_entry list"
  bt_sel :: int
  bt_sel_changed :: bool

definition MENU_ENTRIES :: nat where "MENU_ENTRIES = 32"

definition add_entry :: "menu_entry \<Rightarrow> 'a boot_scheme \<Rightarrow> 'a boot_scheme option" where
  "add_entry e b = (if length (bt_entries b) < MENU_ENTRIES then Some (b\<lparr>bt_entries := bt_entries b @ [e]\<rparr>) else None)"

section \<open>Reading an entry\<close>

definition entry_kind :: "string \<Rightarrow> entry_type option" where
  "entry_kind s = (if s = ''init'' then Some entry_type_init else if s = ''kexec'' then Some entry_type_kexec
     else if s = ''shell'' then Some entry_type_shell else None)"

definition default_exe_path :: "entry_type \<Rightarrow> string" where
  "default_exe_path k =
     (case k of entry_type_init \<Rightarrow> DEFAULT_INIT_PATH | entry_type_kexec \<Rightarrow> DEFAULT_KEXEC_PATH | entry_type_shell \<Rightarrow> [])"

text \<open>The three buffers behind the type.\<close>

definition entry_cmdline :: "toml_store \<Rightarrow> nat \<Rightarrow> entry_type \<Rightarrow> string option option" where
  "entry_cmdline st entry k =
     (if k = entry_type_shell then do {
        cmdline \<leftarrow> toml_string_in st entry ''cmdline'';
        (case cmdline of None \<Rightarrow> Some None | Some s \<Rightarrow> map_option Some (strcpy (zeros 255) s)) }
      else Some (Some (zeros 255)))"

definition entry_exe_path :: "toml_store \<Rightarrow> nat \<Rightarrow> entry_type \<Rightarrow> string option" where
  "entry_exe_path st entry k = do {
     exe_path \<leftarrow> toml_string_in st entry ''exe_path'';
     (case exe_path of Some s \<Rightarrow> strncpy (zeros 255) s (int (length s))
      | None \<Rightarrow> strcpy (zeros 255) (default_exe_path k)) }"

definition entry_params :: "toml_store \<Rightarrow> nat \<Rightarrow> string option" where
  "entry_params st entry = do {
     params \<leftarrow> toml_string_in st entry ''params'';
     (case params of Some s \<Rightarrow> strncpy (zeros 512) s (int (length s)) | None \<Rightarrow> Some (zeros 512)) }"

definition entry_title :: "toml_store \<Rightarrow> nat \<Rightarrow> string \<Rightarrow> string option" where
  "entry_title st entry entry_id = do {
     title \<leftarrow> toml_string_in st entry ''title'';
     (case title of Some s \<Rightarrow> strncpy (zeros 255) s (int (length s))
      | None \<Rightarrow> strcpy (zeros 255) (''['' @ entry_id @ '']'')) }"

text \<open>
  A message of \<open>l_err\<close> or \<open>l_inf\<close> with one string argument: they wrap the format, and
  \<open>vprintf\<close> prints the argument for the \<open>%s\<close> in it.
\<close>

definition put_arg :: "string \<Rightarrow> string \<Rightarrow> string" where
  "put_arg fmt arg = (case find_sub ''%s'' fmt of None \<Rightarrow> fmt | Some k \<Rightarrow> take k fmt @ arg @ drop (k + 2) fmt)"

definition say :: "(string \<Rightarrow> string option) \<Rightarrow> string \<Rightarrow> string \<Rightarrow> 'a display_scheme \<Rightarrow> 'a display_scheme option" where
  "say level fmt arg d = log_to_term (map_option (\<lambda>f. put_arg f arg) (level fmt)) d"

definition parse_menu_config_entry :: "toml_store \<Rightarrow> nat \<Rightarrow> string \<Rightarrow> 'a boot_scheme \<Rightarrow> 'a boot_scheme option" where
  "parse_menu_config_entry st conf entry_id b = do {
     e \<leftarrow> toml_table_in st conf entry_id;
     (case e of None \<Rightarrow> say l_err ''cannot parse entry %s'' entry_id b
      | Some entry \<Rightarrow> do {
          title \<leftarrow> entry_title st entry entry_id;
          ty \<leftarrow> toml_string_in st entry ''type'';
          (case ty of None \<Rightarrow> say l_err ''no type param in entry %s'' entry_id b
           | Some s \<Rightarrow> (case entry_kind s of None \<Rightarrow> say l_inf ''invalid type in entry %s'' entry_id b
              | Some k \<Rightarrow> do {
                  cmdline \<leftarrow> entry_cmdline st entry k;
                  (case cmdline of None \<Rightarrow> say l_err ''cannot get script path in entry %s'' entry_id b
                   | Some c \<Rightarrow> do {
                       exe_path \<leftarrow> entry_exe_path st entry k;
                       params \<leftarrow> entry_params st entry;
                       add_entry \<lparr>me_title = title, me_type = k, me_exe_path = exe_path, me_cmdline = c,
                         me_param_str = params\<rparr> b }) })) }) }"

text \<open>The loop over the names: it ends at the first item that is not a string.\<close>

lemma string_at_range: "toml_string_at a i = Some (Some s) \<Longrightarrow> i < int (length (ta_item a))"
  by (auto simp: toml_string_at_def toml_raw_at_def item_at_idx_def toml_rtos_def split: if_splits)

function parse_entries :: "toml_store \<Rightarrow> nat \<Rightarrow> toml_array \<Rightarrow> int \<Rightarrow> 'a boot_scheme \<Rightarrow> 'a boot_scheme option" where
  "parse_entries st conf entries i b =
     (case toml_string_at entries i of
        None \<Rightarrow> None
      | Some None \<Rightarrow> Some b
      | Some (Some name) \<Rightarrow>
          (case parse_menu_config_entry st conf name b of None \<Rightarrow> None
           | Some b1 \<Rightarrow> parse_entries st conf entries (i + 1) b1))"
  by pat_completeness auto
termination
  by (relation "measure (\<lambda>(st, conf, entries, i, b). nat (int (length (ta_item entries)) - i))")
    (auto dest: string_at_range)

declare parse_entries.simps [simp del]

section \<open>Reading the file\<close>

definition display_of :: "string \<Rightarrow> int option" where
  "display_of v = (if v = ''console'' then Some LBML_DD_MASK_TERM else if v = ''framebuffer'' then Some LBML_DD_MASK_FB
     else if v = ''all'' then Some LBML_DD_MASK_ALL else None)"

definition parse_core :: "toml_store \<Rightarrow> nat \<Rightarrow> nat \<Rightarrow> 'a boot_scheme \<Rightarrow> 'a boot_scheme option" where
  "parse_core st conf core b0 = do {
     let b1 = b0\<lparr>bt_entries := []\<rparr>;
     show_splash \<leftarrow> toml_bool_in st core ''show_splash'';
     let b2 = (case show_splash of Some v \<Rightarrow> b1\<lparr>bt_show_splash := v\<rparr> | None \<Rightarrow> b1);
     title \<leftarrow> toml_string_in st core ''title'';
     b3 \<leftarrow> (case title of None \<Rightarrow> Some b2
       | Some s \<Rightarrow> map_option (\<lambda>t. b2\<lparr>bt_title := t\<rparr>) (strncpy (bt_title b2) s (int (length s) + 1)));
     display_device \<leftarrow> toml_string_in st core ''display_device'';
     let b4 = (case Option.bind display_device display_of of Some v \<Rightarrow> b3\<lparr>ds_mask := v\<rparr> | None \<Rightarrow> b3);
     entries \<leftarrow> toml_array_in st core ''entries'';
     (case entries of
        None \<Rightarrow> log_to_term (l_inf ''no entries config found'') b4
      | Some p \<Rightarrow> do { a \<leftarrow> get_arr st p; parse_entries st conf a 0 b4 }) }"

text \<open>
  \<open>opened\<close> is the file as it is read, if it can be opened; \<open>dbl\<close>, \<open>n\<close> and \<open>bad\<close> are those of
  \<open>toml_parse_file\<close>. The result is 1 for an error.
\<close>

definition parse_menu_config :: "(string \<Rightarrow> bool) \<Rightarrow> nat \<Rightarrow> (nat \<Rightarrow> bool) \<Rightarrow> string \<Rightarrow> string option \<Rightarrow> 'a boot_scheme \<Rightarrow>
    (int \<times> 'a boot_scheme) option" where
  "parse_menu_config dbl n bad path opened b = do {
     b0 \<leftarrow> log_center_blackbg ''loading config...'' b;
     (case opened of
        None \<Rightarrow> do { b1 \<leftarrow> say l_err ''cannot open config file %s'' path b0; Some (1, b1) }
      | Some content \<Rightarrow> do {
          r \<leftarrow> toml_parse_file dbl n bad content;
          (case r of
             Inl _ \<Rightarrow> do { b1 \<leftarrow> say l_err ''failed to parse config file %s'' path b0; Some (1, b1) }
           | Inr st \<Rightarrow> do {
               core \<leftarrow> toml_table_in st 0 ''core'';
               (case core of None \<Rightarrow> Some (0, b0)
                | Some t \<Rightarrow> do { b1 \<leftarrow> parse_core st 0 t b0; Some (0, b1) }) }) }) }"

section \<open>What the file means\<close>

record boot_entry =
  be_title :: string
  be_type :: entry_type
  be_exe_path :: string
  be_cmdline :: string
  be_params :: string

text \<open>The string under a key, if it is there and is a string.\<close>

definition string_of :: "toml_store \<Rightarrow> nat \<Rightarrow> string \<Rightarrow> string option" where
  "string_of st t k = (case toml_string_in st t k of Some r \<Rightarrow> r | None \<Rightarrow> None)"

definition table_of :: "toml_store \<Rightarrow> nat \<Rightarrow> string \<Rightarrow> nat option" where
  "table_of st t k = (case toml_table_in st t k of Some r \<Rightarrow> r | None \<Rightarrow> None)"

definition text_or :: "string \<Rightarrow> string option \<Rightarrow> string" where
  "text_or d s = (case s of Some x \<Rightarrow> x | None \<Rightarrow> d)"

text \<open>An entry of the file, or none where the code refuses it.\<close>

definition entry_spec :: "toml_store \<Rightarrow> nat \<Rightarrow> string \<Rightarrow> boot_entry option" where
  "entry_spec st conf name =
     (case table_of st conf name of None \<Rightarrow> None
      | Some t \<Rightarrow> (case Option.bind (string_of st t ''type'') entry_kind of None \<Rightarrow> None
         | Some k \<Rightarrow>
             if k = entry_type_shell \<and> string_of st t ''cmdline'' = None then None
             else Some \<lparr>be_title = text_or (''['' @ name @ '']'') (string_of st t ''title''), be_type = k,
               be_exe_path = text_or (default_exe_path k) (string_of st t ''exe_path''),
               be_cmdline = (if k = entry_type_shell then text_or [] (string_of st t ''cmdline'') else []),
               be_params = text_or [] (string_of st t ''params'')\<rparr>))"

text \<open>When the texts of an entry fit in the buffers; the title is copied before the entry is checked.\<close>

definition entry_fits :: "toml_store \<Rightarrow> nat \<Rightarrow> string \<Rightarrow> bool" where
  "entry_fits st conf name \<longleftrightarrow>
     (case table_of st conf name of None \<Rightarrow> True
      | Some t \<Rightarrow>
         (case string_of st t ''title'' of Some s \<Rightarrow> length s \<le> 255 | None \<Rightarrow> length name + 2 < 255) \<and>
         (case entry_spec st conf name of None \<Rightarrow> True
          | Some e \<Rightarrow> length (be_cmdline e) < 255 \<and> length (be_exe_path e) \<le> 255 \<and> length (be_params e) \<le> 512))"

definition stored :: "nat \<Rightarrow> string \<Rightarrow> string" where
  "stored n s = s @ replicate (n - length s) NUL"

definition menu_of :: "boot_entry \<Rightarrow> menu_entry" where
  "menu_of e = \<lparr>me_title = stored 255 (be_title e), me_type = be_type e, me_exe_path = stored 255 (be_exe_path e),
     me_cmdline = stored 255 (be_cmdline e), me_param_str = stored 512 (be_params e)\<rparr>"

lemma string_in_defined: "t < length (ts_tabs st) \<Longrightarrow> toml_string_in st t k = Some (string_of st t k)"
  using toml_rtos_defined by (auto simp: string_of_def toml_string_in_def toml_raw_in_def get_tab_valid split: option.split)

lemma table_in_defined:
  assumes "toml_ok st" "t < length (ts_tabs st)"
  shows "toml_table_in st t k = Some (table_of st t k)" "table_of st t k = Some p \<Longrightarrow> p < length (ts_tabs st)"
proof -
  have "refs_ok st" using assms(1) by (simp add: toml_ok_def)
  from table_in_runs(1) [OF this assms(2), of k]
  show "toml_table_in st t k = Some (table_of st t k)" "table_of st t k = Some p \<Longrightarrow> p < length (ts_tabs st)"
    by (auto simp: runs_iff table_of_def)
qed

lemma zeros_stored: "zeros n = stored n []"
  by (simp add: zeros_def stored_def)

lemma copies:
  "strncpy (zeros n) s (int (length s)) = (if length s \<le> n then Some (stored n s) else None)"
  "strcpy (zeros n) s = (if length s < n then Some (stored n s) else None)"
  by (simp_all add: strncpy_zeros strcpy_zeros stored_def)

lemma say_runs: "\<exists>out. say l_err fmt arg d = Some (d\<lparr>ds_term := out\<rparr>)" "\<exists>out. say l_inf fmt arg d = Some (d\<lparr>ds_term := out\<rparr>)"
proof -
  have "l_err fmt \<noteq> None" "l_inf fmt \<noteq> None" by (simp_all add: l_err_def l_inf_def sprintf_into_def)
  then obtain s t where "l_err fmt = Some s" "l_inf fmt = Some t" by auto
  then show "\<exists>out. say l_err fmt arg d = Some (d\<lparr>ds_term := out\<rparr>)" "\<exists>out. say l_inf fmt arg d = Some (d\<lparr>ds_term := out\<rparr>)"
    by (auto simp: say_def log_to_term_def lbml_printf_def LBML_DD_MASK_TERM_def)
qed

lemma parse_entry_exact:
  assumes "toml_ok st" "conf < length (ts_tabs st)"
  shows "\<not> entry_fits st conf name \<Longrightarrow> parse_menu_config_entry st conf name b = None"
    "entry_fits st conf name \<Longrightarrow> entry_spec st conf name = None \<Longrightarrow>
       \<exists>out. parse_menu_config_entry st conf name b = Some (b\<lparr>ds_term := out\<rparr>)"
    "entry_fits st conf name \<Longrightarrow> entry_spec st conf name = Some e \<Longrightarrow>
       parse_menu_config_entry st conf name b = add_entry (menu_of e) b"
proof -
  note tab = table_in_defined [OF assms]
  have goal: "(if \<not> entry_fits st conf name then parse_menu_config_entry st conf name b = None
    else case entry_spec st conf name of
        None \<Rightarrow> \<exists>out. parse_menu_config_entry st conf name b = Some (b\<lparr>ds_term := out\<rparr>)
      | Some e \<Rightarrow> parse_menu_config_entry st conf name b = add_entry (menu_of e) b)"
  proof (cases "table_of st conf name")
    case None
    then show ?thesis using say_runs
      by (simp add: parse_menu_config_entry_def tab(1) entry_fits_def entry_spec_def)
  next
    case (Some t)
    from tab(2) [OF Some] have str: "toml_string_in st t k = Some (string_of st t k)" for k
      by (rule string_in_defined)
    let ?title = "case string_of st t ''title'' of Some s \<Rightarrow> length s \<le> 255 | None \<Rightarrow> length name + 2 < 255"
    have title: "entry_title st t name =
        (if ?title then Some (stored 255 (text_or (''['' @ name @ '']'') (string_of st t ''title''))) else None)"
      by (cases "string_of st t ''title''") (simp_all add: entry_title_def str copies text_or_def)
    show ?thesis
    proof (cases ?title)
      case False
      then have "\<not> entry_fits st conf name" using Some by (auto simp: entry_fits_def)
      moreover have "parse_menu_config_entry st conf name b = None"
        by (simp add: parse_menu_config_entry_def tab(1) Some title False)
      ultimately show ?thesis by simp
    next
      case fits: True
      show ?thesis
      proof (cases "Option.bind (string_of st t ''type'') entry_kind")
        case None
        then show ?thesis using say_runs fits
          by (cases "string_of st t ''type''")
            (simp_all add: parse_menu_config_entry_def tab(1) Some title fits str entry_fits_def entry_spec_def)
      next
        case kind: (Some k)
        then obtain ty where ty: "string_of st t ''type'' = Some ty" "entry_kind ty = Some k"
          by (auto split: Option.bind_splits)
        have cmd: "entry_cmdline st t k = (if k = entry_type_shell then
            (case string_of st t ''cmdline'' of None \<Rightarrow> Some None
             | Some s \<Rightarrow> if length s < 255 then Some (Some (stored 255 s)) else None)
           else Some (Some (stored 255 [])))"
          by (simp add: entry_cmdline_def str copies [unfolded zeros_stored] zeros_stored split: option.split)
        have path: "entry_exe_path st t k = (let s = text_or (default_exe_path k) (string_of st t ''exe_path'') in
            if length s \<le> 255 then Some (stored 255 s) else None)"
          by (cases k) (simp_all add: entry_exe_path_def str copies Let_def text_or_def default_exe_path_def
              DEFAULT_INIT_PATH_def DEFAULT_KEXEC_PATH_def split: option.split)
        have params: "entry_params st t = (let s = text_or [] (string_of st t ''params'') in
            if length s \<le> 512 then Some (stored 512 s) else None)"
          by (simp add: entry_params_def str copies [unfolded zeros_stored] Let_def text_or_def zeros_stored split: option.split)
        have run: "parse_menu_config_entry st conf name b = do {
             cmdline \<leftarrow> entry_cmdline st t k;
             (case cmdline of None \<Rightarrow> say l_err ''cannot get script path in entry %s'' name b
              | Some c \<Rightarrow> do {
                  exe_path \<leftarrow> entry_exe_path st t k;
                  params \<leftarrow> entry_params st t;
                  add_entry \<lparr>me_title = stored 255 (text_or (CHR ''['' # name @ '']'') (string_of st t ''title'')), me_type = k,
                    me_exe_path = exe_path, me_cmdline = c, me_param_str = params\<rparr> b }) }"
          by (simp add: parse_menu_config_entry_def tab(1) Some title fits str ty)
        show ?thesis
        proof (cases "k = entry_type_shell \<and> string_of st t ''cmdline'' = None")
          case True
          then have "entry_cmdline st t k = Some None" unfolding cmd by simp
          then have "parse_menu_config_entry st conf name b = say l_err ''cannot get script path in entry %s'' name b"
            by (simp add: run)
          then show ?thesis using say_runs(1) fits True by (simp add: entry_fits_def entry_spec_def Some kind)
        next
          case False
          then obtain e where e: "entry_spec st conf name = Some e"
            "e = \<lparr>be_title = text_or (''['' @ name @ '']'') (string_of st t ''title''), be_type = k,
               be_exe_path = text_or (default_exe_path k) (string_of st t ''exe_path''),
               be_cmdline = (if k = entry_type_shell then text_or [] (string_of st t ''cmdline'') else []),
               be_params = text_or [] (string_of st t ''params'')\<rparr>"
            by (auto simp: entry_spec_def Some kind)
          have cmd': "entry_cmdline st t k = (if length (be_cmdline e) < 255 then Some (Some (stored 255 (be_cmdline e))) else None)"
            using False by (auto simp: cmd e(2) text_or_def split: option.split)
          have "entry_fits st conf name \<longleftrightarrow>
              length (be_cmdline e) < 255 \<and> length (be_exe_path e) \<le> 255 \<and> length (be_params e) \<le> 512"
            using fits by (simp add: entry_fits_def Some e(1))
          then show ?thesis
            by (auto simp: run cmd' path params Let_def e menu_of_def)
        qed
      qed
    qed
  qed
  show "\<not> entry_fits st conf name \<Longrightarrow> parse_menu_config_entry st conf name b = None"
    "entry_fits st conf name \<Longrightarrow> entry_spec st conf name = None \<Longrightarrow>
       \<exists>out. parse_menu_config_entry st conf name b = Some (b\<lparr>ds_term := out\<rparr>)"
    "entry_fits st conf name \<Longrightarrow> entry_spec st conf name = Some e \<Longrightarrow>
       parse_menu_config_entry st conf name b = add_entry (menu_of e) b"
    using goal by simp_all
qed

section \<open>The menu is the one of the file\<close>

text \<open>The names in the array \<open>entries\<close>, up to the first item that is not a string.\<close>

definition item_texts :: "toml_array \<Rightarrow> string option list" where
  "item_texts a = map (\<lambda>it. the (toml_rtos (ai_val it))) (ta_item a)"

definition entry_names :: "toml_array \<Rightarrow> string list" where
  "entry_names a = map the (takeWhile (\<lambda>x. x \<noteq> None) (item_texts a))"

fun parse_names :: "toml_store \<Rightarrow> nat \<Rightarrow> string list \<Rightarrow> 'a boot_scheme \<Rightarrow> 'a boot_scheme option" where
  "parse_names st conf [] b = Some b"
| "parse_names st conf (name # names) b = do {
     b1 \<leftarrow> parse_menu_config_entry st conf name b;
     parse_names st conf names b1 }"

lemma string_at_texts:
  "toml_string_at a (int k) = Some (if k < length (item_texts a) then item_texts a ! k else None)"
  using toml_rtos_defined
  by (auto simp: toml_string_at_def toml_raw_at_def item_at_idx_def item_texts_def toml_rtos_def)

lemma parse_entries_names:
  fixes b :: "'a boot_scheme"
  shows "parse_entries st conf a (int k) b = parse_names st conf (map the (takeWhile (\<lambda>x. x \<noteq> None) (drop k (item_texts a)))) b"
proof (induction "length (item_texts a) - k" arbitrary: k b)
  case 0
  then show ?case by (simp add: parse_entries.simps string_at_texts)
next
  case (Suc n)
  then have k: "k < length (item_texts a)" by simp
  then have d: "drop k (item_texts a) = item_texts a ! k # drop (Suc k) (item_texts a)"
    by (simp add: Cons_nth_drop_Suc)
  have ih: "parse_entries st conf a (int k + 1) b1 =
      parse_names st conf (map the (takeWhile (\<lambda>x. x \<noteq> None) (drop (Suc k) (item_texts a)))) b1" for b1 :: "'a boot_scheme"
    using Suc.hyps(1) [of "Suc k" b1] Suc.hyps(2) by (simp add: add.commute)
  show ?case
    by (subst parse_entries.simps) (auto simp: string_at_texts k d ih split: option.split)
qed

definition menu_entries_of :: "toml_store \<Rightarrow> nat \<Rightarrow> string list \<Rightarrow> menu_entry list" where
  "menu_entries_of st conf names = map menu_of (List.map_filter (entry_spec st conf) names)"

lemma menu_entries_of_simps [simp]:
  "menu_entries_of st conf [] = []"
  "menu_entries_of st conf (name # names) =
     (case entry_spec st conf name of None \<Rightarrow> menu_entries_of st conf names
      | Some e \<Rightarrow> menu_of e # menu_entries_of st conf names)"
  by (simp_all add: menu_entries_of_def List.map_filter_simps split: option.split)

lemma parse_names_exact:
  assumes "toml_ok st" "conf < length (ts_tabs st)"
  shows "length (bt_entries b) \<le> MENU_ENTRIES \<Longrightarrow>
    (if list_all (entry_fits st conf) names \<and> length (bt_entries b) + length (menu_entries_of st conf names) \<le> MENU_ENTRIES
     then \<exists>out. parse_names st conf names b = Some (b\<lparr>ds_term := out, bt_entries := bt_entries b @ menu_entries_of st conf names\<rparr>)
     else parse_names st conf names b = None)"
proof (induction names arbitrary: b)
  case Nil
  then show ?case by (simp, intro exI [of _ "ds_term b"]) simp
next
  case (Cons name names)
  show ?case
  proof (cases "entry_fits st conf name")
    case False
    then show ?thesis using parse_entry_exact(1) [OF assms False, of b] by simp
  next
    case fits: True
    show ?thesis
    proof (cases "entry_spec st conf name")
      case None
      from parse_entry_exact(2) [OF assms fits None, of b] obtain out where
        out: "parse_menu_config_entry st conf name b = Some (b\<lparr>ds_term := out\<rparr>)" by blast
      from Cons.IH [of "b\<lparr>ds_term := out\<rparr>"] Cons.prems show ?thesis
        by (simp add: out fits None split: if_splits)
    next
      case (Some e)
      have run: "parse_menu_config_entry st conf name b = add_entry (menu_of e) b"
        by (rule parse_entry_exact(3) [OF assms fits Some])
      show ?thesis
      proof (cases "length (bt_entries b) < MENU_ENTRIES")
        case True
        with Cons.IH [of "b\<lparr>bt_entries := bt_entries b @ [menu_of e]\<rparr>"] show ?thesis
          by (simp add: run fits Some add_entry_def split: if_splits)
      next
        case False
        with Cons.prems show ?thesis by (simp add: run fits Some add_entry_def)
      qed
    qed
  qed
qed

text \<open>The table \<open>core\<close>: the names of its array \<open>entries\<close>, and when everything in it fits.\<close>

definition core_names :: "toml_store \<Rightarrow> nat \<Rightarrow> string list" where
  "core_names st core =
     (case toml_array_in st core ''entries'' of Some (Some p) \<Rightarrow> entry_names (ts_arrs st ! p) | _ \<Rightarrow> [])"

definition config_fits :: "toml_store \<Rightarrow> nat \<Rightarrow> nat \<Rightarrow> bool" where
  "config_fits st conf core \<longleftrightarrow>
     length (text_or [] (string_of st core ''title'')) < 255 \<and>
     list_all (entry_fits st conf) (core_names st core) \<and>
     length (menu_entries_of st conf (core_names st core)) \<le> MENU_ENTRIES"

definition bool_of :: "toml_store \<Rightarrow> nat \<Rightarrow> string \<Rightarrow> bool option" where
  "bool_of st t k = (case toml_bool_in st t k of Some r \<Rightarrow> r | None \<Rightarrow> None)"

text \<open>The settings that the table \<open>core\<close> asks for, on top of those of \<open>b\<close>.\<close>

definition configured :: "toml_store \<Rightarrow> nat \<Rightarrow> nat \<Rightarrow> 'a boot_scheme \<Rightarrow> 'c boot_scheme \<Rightarrow> bool" where
  "configured st conf core b b' \<longleftrightarrow>
     bt_entries b' = menu_entries_of st conf (core_names st core) \<and>
     bt_show_splash b' = (case bool_of st core ''show_splash'' of Some v \<Rightarrow> v | None \<Rightarrow> bt_show_splash b) \<and>
     bt_title b' = (case string_of st core ''title'' of Some s \<Rightarrow> s @ NUL # drop (length s + 1) (bt_title b) | None \<Rightarrow> bt_title b) \<and>
     ds_mask b' = (case Option.bind (string_of st core ''display_device'') display_of of Some v \<Rightarrow> v | None \<Rightarrow> ds_mask b)"

lemma bool_in_defined: "t < length (ts_tabs st) \<Longrightarrow> toml_bool_in st t k = Some (bool_of st t k)"
  by (auto simp: bool_of_def toml_bool_in_def toml_raw_in_def get_tab_valid split: option.split)

lemma strncpy_title:
  "strncpy dest s (int (length s) + 1) =
     (if length s < length dest then Some (s @ NUL # drop (length s + 1) dest) else None)"
  by (simp add: strncpy_def mem_put_def nat_add_distrib)

lemma parse_core_exact:
  fixes b :: "'a boot_scheme"
  assumes ok: "toml_ok st" "conf < length (ts_tabs st)" "core < length (ts_tabs st)" and len: "length (bt_title b) = 255"
  shows "if config_fits st conf core then \<exists>b'. parse_core st conf core b = Some b' \<and> configured st conf core b b'
     else parse_core st conf core b = None"
proof -
  note str = string_in_defined [OF ok(3)]
  define dv where "dv = Option.bind (string_of st core ''display_device'') display_of"
  let ?b2 = "b\<lparr>bt_entries := [], bt_show_splash := (case bool_of st core ''show_splash'' of Some v \<Rightarrow> v | None \<Rightarrow> bt_show_splash b)\<rparr>"
  let ?t = "case string_of st core ''title'' of Some s \<Rightarrow> s @ NUL # drop (length s + 1) (bt_title b) | None \<Rightarrow> bt_title b"
  let ?m = "case dv of Some v \<Rightarrow> v | None \<Rightarrow> ds_mask b"
  let ?b4 = "?b2\<lparr>bt_title := ?t, ds_mask := ?m\<rparr>"
  have arr: "runs (toml_array_in st core ''entries'') (\<lambda>e. \<forall>p. e = Some p \<longrightarrow> p < length (ts_arrs st))"
    by (rule table_in_runs(2)) (use ok in \<open>simp_all add: toml_ok_def\<close>)
  then obtain e where e: "toml_array_in st core ''entries'' = Some e" "\<And>p. e = Some p \<Longrightarrow> p < length (ts_arrs st)"
    by (auto simp: runs_iff)
  have upd: "b1\<lparr>bt_show_splash := bt_show_splash b1\<rparr> = b1" "b1\<lparr>bt_title := bt_title b1\<rparr> = b1" "b1\<lparr>ds_mask := ds_mask b1\<rparr> = b1"
    for b1 :: "'a boot_scheme" by simp_all
  let ?fits = "length (text_or [] (string_of st core ''title'')) < 255"
  have title: "(case string_of st core ''title'' of None \<Rightarrow> Some ?b2
       | Some s \<Rightarrow> map_option (\<lambda>t. ?b2\<lparr>bt_title := t\<rparr>) (strncpy (bt_title ?b2) s (int (length s) + 1))) =
      (if ?fits then Some (?b2\<lparr>bt_title := ?t\<rparr>) else None)"
    using len by (cases "string_of st core ''title''") (simp_all add: strncpy_title text_or_def)
  have splash: "(case bool_of st core ''show_splash'' of Some v \<Rightarrow> b\<lparr>bt_entries := []\<rparr>\<lparr>bt_show_splash := v\<rparr> | None \<Rightarrow> b\<lparr>bt_entries := []\<rparr>) = ?b2"
    by (cases "bool_of st core ''show_splash''") simp_all
  have run: "parse_core st conf core b = (if ?fits then
      (case e of None \<Rightarrow> log_to_term (l_inf ''no entries config found'') ?b4
       | Some p \<Rightarrow> do { a \<leftarrow> get_arr st p; parse_entries st conf a 0 ?b4 }) else None)"
    unfolding parse_core_def Let_def bool_in_defined [OF ok(3)] str bind.bind_lunit splash title e(1) dv_def [symmetric]
    by (cases dv; cases e) simp_all
  show ?thesis
  proof (cases ?fits)
    case False
    then show ?thesis by (simp add: run config_fits_def)
  next
    case fits: True
    show ?thesis
    proof (cases e)
      case None
      then have "core_names st core = []" by (simp add: core_names_def e(1))
      moreover have "parse_core st conf core b = log_to_term (l_inf ''no entries config found'') ?b4"
        using fits None by (simp add: run)
      ultimately show ?thesis using fits
        by (simp add: config_fits_def configured_def dv_def log_to_term_def l_inf_def sprintf_into_def lbml_printf_def)
    next
      case (Some p)
      then have p: "get_arr st p = Some (ts_arrs st ! p)" using e(2) by (simp add: get_arr_iff)
      have names: "core_names st core = entry_names (ts_arrs st ! p)" by (simp add: core_names_def e(1) Some)
      have "parse_core st conf core b = parse_names st conf (core_names st core) ?b4"
        using parse_entries_names [of st conf "ts_arrs st ! p" 0 ?b4] fits
        by (simp add: run Some p names entry_names_def)
      then show ?thesis
        using parse_names_exact [OF ok(1,2), of ?b4 "core_names st core"] fits
        by (auto simp: config_fits_def configured_def dv_def split: if_splits)
    qed
  qed
qed

text \<open>The configuration part of the state is not touched by what is printed.\<close>

lemma boot_emit [simp]:
  "bt_entries (emit dev s b) = bt_entries b" "bt_title (emit dev s b) = bt_title b"
  "bt_show_splash (emit dev s b) = bt_show_splash b" "bt_sel (emit dev s b) = bt_sel b"
  "bt_sel_changed (emit dev s b) = bt_sel_changed b"
  by (simp_all add: emit_def)

lemma boot_printf [simp]:
  "bt_entries (lbml_printf dev s b) = bt_entries b" "bt_title (lbml_printf dev s b) = bt_title b"
  "bt_show_splash (lbml_printf dev s b) = bt_show_splash b" "bt_sel (lbml_printf dev s b) = bt_sel b"
  "bt_sel_changed (lbml_printf dev s b) = bt_sel_changed b"
  by (simp_all add: lbml_printf_def)

lemma boot_clear [simp]:
  "bt_entries (clear_screen b) = bt_entries b" "bt_title (clear_screen b) = bt_title b"
  "bt_show_splash (clear_screen b) = bt_show_splash b" "bt_sel (clear_screen b) = bt_sel b"
  "bt_sel_changed (clear_screen b) = bt_sel_changed b"
  by (simp_all add: clear_screen_def lbml_puts_def)

lemma boot_message [simp]:
  "bt_entries (message_shown dev s w b) = bt_entries b" "bt_title (message_shown dev s w b) = bt_title b"
  "bt_show_splash (message_shown dev s w b) = bt_show_splash b" "bt_sel (message_shown dev s w b) = bt_sel b"
  "bt_sel_changed (message_shown dev s w b) = bt_sel_changed b" "ds_mask (message_shown dev s w b) = ds_mask b"
  "ds_term_size (message_shown dev s w b) = ds_term_size b" "ds_fb_size (message_shown dev s w b) = ds_fb_size b"
  by (simp_all add: message_shown_def Let_def)

lemma configured_message [simp]:
  "configured st conf core (message_shown dev s w b) b' = configured st conf core b b'"
  by (simp add: configured_def cong: option.case_cong)

definition sizes_ok :: "'a display_scheme \<Rightarrow> bool" where
  "sizes_ok d \<longleftrightarrow> (bit (ds_mask d) 0 \<longrightarrow> size_ok (ds_term_size d)) \<and> (bit (ds_mask d) 1 \<longrightarrow> size_ok (ds_fb_size d))"

lemma whitebg_runs:
  "sizes_ok d \<Longrightarrow> no_empty_line msg \<Longrightarrow> length msg \<le> 240 \<Longrightarrow>
     log_center_whitebg msg d = Some (message_shown (ds_mask d) msg True d)"
  "sizes_ok d \<Longrightarrow> no_empty_line msg \<Longrightarrow> length msg \<le> 240 \<Longrightarrow>
     log_center_blackbg msg d = Some (message_shown (ds_mask d) msg False d)"
  by (unfold log_center_whitebg_def log_center_blackbg_def; rule log_center_runs; simp add: sizes_ok_def fb_fits_def)+

text \<open>
  C3. Loading the configuration file, for every content of it. A file that does not parse leaves
  the menu as it was and reports the error; a tree without the table \<open>core\<close> changes nothing.
  Otherwise the loading is defined exactly when every text fits in its buffer and the menu
  has room, and then the menu holds the entries that the file describes and no others, in
  their order, each in its buffers, with the title, the splash flag and the device of the file.
\<close>

theorem config_refines:
  assumes "2 * length (c_string content) + 3 < n" "\<forall>k. \<not> bad k" "sizes_ok b" "length (bt_title b) = 255"
  shows "case toml_parse dbl n (c_string content) of
     None \<Rightarrow> False
   | Some (Inl _) \<Rightarrow> \<exists>b'. parse_menu_config dbl n bad path (Some content) b = Some (1, b') \<and> bt_entries b' = bt_entries b
   | Some (Inr st) \<Rightarrow> (case table_of st 0 ''core'' of
        None \<Rightarrow> \<exists>b'. parse_menu_config dbl n bad path (Some content) b = Some (0, b') \<and> bt_entries b' = bt_entries b
      | Some core \<Rightarrow> if config_fits st 0 core
          then \<exists>b'. parse_menu_config dbl n bad path (Some content) b = Some (0, b') \<and> configured st 0 core b b'
          else parse_menu_config dbl n bad path (Some content) b = None)"
proof -
  let ?b0 = "message_shown (ds_mask b) ''loading config...'' False b"
  have shown: "log_center_blackbg ''loading config...'' b = Some ?b0" by (rule whitebg_runs(2)) (use assms in simp_all)
  have content: "toml_parse_file dbl n bad content = toml_parse dbl n (c_string content)"
  proof -
    from assms(2) have "\<not> (\<exists>j. bad j)" by simp
    from read_loop_all [where k = 0 and rest = content and buf = "[]" and r = 0, OF this] obtain room
      where "toml_read_loop bad 0 content [] 0 = Some (content, room)" "0 < room" by auto
    then show ?thesis by (simp add: toml_parse_file_def c_string_cap)
  qed
  from toml_parse_safe [OF assms(1), of dbl] consider e where "toml_parse dbl n (c_string content) = Some (Inl e)"
    | st where "toml_parse dbl n (c_string content) = Some (Inr st)" "toml_ok st" "ts_tabs st \<noteq> []"
    by (auto simp: safe_def store_ok_def split: option.splits sum.splits)
  then show ?thesis
  proof cases
    case 1
    from say_runs(1) [of "''failed to parse config file %s''" path ?b0] 1 show ?thesis
      by (auto simp: parse_menu_config_def shown content)
  next
    case (2 st)
    then have root: "0 < length (ts_tabs st)" by simp
    note tab = table_in_defined [OF 2(2) root, of "''core''"]
    show ?thesis
    proof (cases "table_of st 0 ''core''")
      case None
      with 2(1) show ?thesis by (simp add: parse_menu_config_def shown content tab(1))
    next
      case (Some core)
      have "length (bt_title ?b0) = 255" using assms(4) by simp
      from parse_core_exact [OF 2(2) root tab(2) [OF Some] this] 2(1) Some show ?thesis
        by (auto simp: parse_menu_config_def shown content tab(1) split: if_splits)
    qed
  qed
qed

definition boot_start :: boot where
  "boot_start = \<lparr>ds_mask = LBML_DD_MASK_TERM, ds_term_size = (80, 25), ds_fb_size = (0, 0), ds_term = [], ds_fb = [],
     ds_next_flush = 1, ds_pans = 0, bt_show_splash = True, bt_title = stored 255 ''LBML Boot Manager v1.0'',
     bt_entries = [], bt_sel = 0, bt_sel_changed = False\<rparr>"

lemma boot_start_ok: "sizes_ok boot_start" "length (bt_title boot_start) = 255" "ds_mask boot_start = LBML_DD_MASK_TERM"
  by (simp_all add: boot_start_def sizes_ok_def size_ok_def stored_def)

text \<open>A file with one entry, read to the end.\<close>

definition sample_file :: string where
  "sample_file = ''[core]'' @ [LF] @ ''entries=['' @ [SQUOTE] @ ''a'' @ [SQUOTE] @ '']'' @ [LF] @
     ''[a]'' @ [LF] @ ''type='' @ [SQUOTE] @ ''init'' @ [SQUOTE, LF]"

definition sample_entry :: menu_entry where
  "sample_entry = menu_of \<lparr>be_title = ''[a]'', be_type = entry_type_init, be_exe_path = ''/init'', be_cmdline = [], be_params = []\<rparr>"

definition sample_loads :: bool where
  "sample_loads = (case toml_parse (\<lambda>_. False) 100 sample_file of
      Some (Inr st) \<Rightarrow> table_of st 0 ''core'' = Some 1 \<and> config_fits st 0 1 \<and>
        menu_entries_of st 0 (core_names st 1) = [sample_entry]
    | _ \<Rightarrow> False)"

lemma sample_loads: "sample_loads"
  by code_simp

lemma sample_text: "c_string sample_file = sample_file" "2 * length sample_file + 3 < 100"
  by (simp_all add: sample_file_def c_string_def)

theorem config_refines_witness:
  "\<exists>b'. parse_menu_config (\<lambda>_. False) 100 (\<lambda>_. False) ''/lbml.toml'' (Some sample_file) boot_start = Some (0, b') \<and>
     bt_entries b' = [sample_entry]"
proof -
  from sample_loads obtain st where st: "toml_parse (\<lambda>_. False) 100 sample_file = Some (Inr st)"
    "table_of st 0 ''core'' = Some 1" "config_fits st 0 1" "menu_entries_of st 0 (core_names st 1) = [sample_entry]"
    by (auto simp: sample_loads_def split: option.splits sum.splits)
  have "2 * length (c_string sample_file) + 3 < 100" using sample_text by simp
  from config_refines [OF this, of "\<lambda>_. False" boot_start "\<lambda>_. False" "''/lbml.toml''"] boot_start_ok st sample_text(1)
  obtain b' where "parse_menu_config (\<lambda>_. False) 100 (\<lambda>_. False) ''/lbml.toml'' (Some sample_file) boot_start = Some (0, b')"
    "configured st 0 1 boot_start b'" by auto
  then show ?thesis using st(4) by (auto simp: configured_def)
qed

section \<open>What the loading leaves alone\<close>

text \<open>The selection, and what a program keeps beside the configuration.\<close>

definition loads :: "'a boot_scheme \<Rightarrow> 'a boot_scheme \<Rightarrow> bool" where
  "loads b b' \<longleftrightarrow> bt_sel b' = bt_sel b \<and> bt_sel_changed b' = bt_sel_changed b \<and> boot.more b' = boot.more b"

lemma loads_refl [simp]: "loads b b" by (simp add: loads_def)

lemma loads_trans [trans]: "loads a b \<Longrightarrow> loads b c \<Longrightarrow> loads a c" by (simp add: loads_def)

lemma loads_prints: "prints b b' \<Longrightarrow> loads b b'"
  by (elim printsE) (simp add: loads_def)

lemma loads_log: "log_to_term msg b = Some b' \<Longrightarrow> loads b b'"
  by (rule loads_prints [OF prints_log])

lemma loads_say: "say level fmt arg b = Some b' \<Longrightarrow> loads b b'"
  by (auto simp: say_def dest: loads_log)

lemma loads_entry: "holds_if (parse_menu_config_entry st conf name b) (loads b)"
proof -
  have says: "holds_if (say level fmt arg b) (loads b)" for level fmt arg by (rule holds_ifI) (rule loads_say)
  have adds: "holds_if (add_entry e b) (loads b)" for e by (rule holds_ifI) (auto simp: add_entry_def loads_def split: if_splits)
  show ?thesis unfolding parse_menu_config_entry_def
    by (intro holds_any holds_case says adds)
qed

lemma loads_entries: "holds_if (parse_entries st conf a i b) (loads b)"
proof (induction st conf a i b rule: parse_entries.induct)
  case (1 st conf a i b)
  have "holds_if (parse_entries st conf a (i + 1) b1) (loads b)"
    if at: "toml_string_at a i = Some (Some name)" and b1: "parse_menu_config_entry st conf name b = Some b1" for name b1
  proof (rule holds_mono [OF 1 [OF at refl b1]])
    fix b2 assume "loads b1 b2"
    with holds_ifD [OF b1 loads_entry] show "loads b b2" by (rule loads_trans)
  qed
  then show ?case by (subst parse_entries.simps) (intro holds_case; simp)
qed

lemma loads_set:
  assumes "loads b b1"
  shows "loads b (b1\<lparr>ds_mask := v\<rparr>)" "loads b (b1\<lparr>bt_title := t\<rparr>)" "loads b (b1\<lparr>bt_show_splash := x\<rparr>)"
    "loads b (b1\<lparr>bt_entries := e\<rparr>)"
  using assms by (simp_all add: loads_def)

lemma loads_core: "holds_if (parse_core st conf core b) (loads b)"
proof -
  have ends: "holds_if (case e of None \<Rightarrow> log_to_term (l_inf ''no entries config found'') b4
      | Some p \<Rightarrow> do { a \<leftarrow> get_arr st p; parse_entries st conf a 0 b4 }) (loads b)" if "loads b b4" for e b4
    using that by (intro holds_case holds_any holds_mono [OF loads_entries] holds_ifI)
      (auto dest: loads_log intro: loads_trans)
  let ?dev = "\<lambda>dv b3. case Option.bind dv display_of of Some v \<Rightarrow> b3\<lparr>ds_mask := v\<rparr> | None \<Rightarrow> b3"
  let ?splash = "\<lambda>s. case s of Some v \<Rightarrow> b\<lparr>bt_entries := []\<rparr>\<lparr>bt_show_splash := v\<rparr> | None \<Rightarrow> b\<lparr>bt_entries := []\<rparr>"
  have dev: "loads b (?dev dv b3)" if "loads b b3" for dv b3 using that by (auto simp: loads_set split: option.split)
  have splash: "loads b (?splash s)" for s by (auto simp: loads_def split: option.split)
  have title: "holds_if (case t of None \<Rightarrow> Some (?splash s)
      | Some x \<Rightarrow> map_option (\<lambda>t. (?splash s)\<lparr>bt_title := t\<rparr>) (strncpy (bt_title (?splash s)) x (int (length x) + 1))) (loads b)" for t s
    by (intro holds_case) (use splash in \<open>auto simp: loads_set intro: holds_ifI\<close>)
  show ?thesis unfolding parse_core_def Let_def
    by (intro holds_any holds_bind [OF title] ends dev)
qed

lemma loads_config: "holds_if (parse_menu_config dbl n bad path opened b) (\<lambda>(r, b'). loads b b')"
proof -
  have says: "holds_if (say level fmt arg b0) (loads b)" if "loads b b0" for level fmt arg b0
    by (rule holds_ifI) (rule loads_trans [OF that loads_say])
  have shown: "holds_if (log_center_blackbg msg b) (loads b)" for msg
    by (rule holds_ifI) (rule loads_prints [OF prints_centered(2)])
  have core: "holds_if (parse_core st 0 t b0) (loads b)" if "loads b b0" for st t b0
    by (rule holds_mono [OF loads_core loads_trans [OF that]])
  show ?thesis unfolding parse_menu_config_def
    by (intro holds_bind [OF shown] holds_case holds_sum holds_any holds_bind [OF says] holds_bind [OF core]) simp_all
qed

end
