(* ===== verification/Boot_Menu.thy ===== *)
theory Boot_Menu
  imports Boot_Config Sash_Shell
begin

text \<open>
  The menu of the boot manager (the rest of main.c): the input devices, the selection, the
  entries that are started, and the main loop.

  The loop is a step relation \<open>boot_step\<close>. A state is the place the program waits at
  (\<open>phase\<close>) with everything it keeps (\<open>machine\<close>); what the system answers during one step is
  the record \<open>input\<close>, and it is not determined. The theorems are about all reachable states.
\<close>

section \<open>Keys and input devices\<close>

definition KEY_ENTER :: int where "KEY_ENTER = 28"
definition KEY_POWER :: int where "KEY_POWER = 116"
definition KEY_UP :: int where "KEY_UP = 103"
definition KEY_DOWN :: int where "KEY_DOWN = 108"
definition KEY_VOLUMEUP :: int where "KEY_VOLUMEUP = 115"
definition KEY_VOLUMEDOWN :: int where "KEY_VOLUMEDOWN = 114"
definition KEY_C :: int where "KEY_C = 46"
definition KEY_R :: int where "KEY_R = 19"
definition KEY_CONFIRM :: int where "KEY_CONFIRM = push_bit 16 KEY_ENTER"
definition EV_KEY :: int where "EV_KEY = 1"

definition EVINPUT_MAXCOUNT :: nat where "EVINPUT_MAXCOUNT = 16"

lemmas key_defs = KEY_ENTER_def KEY_POWER_def KEY_UP_def KEY_DOWN_def KEY_VOLUMEUP_def KEY_VOLUMEDOWN_def
  KEY_C_def KEY_R_def KEY_CONFIRM_def EV_KEY_def

text \<open>What the system answers while the program makes one step.\<close>

datatype read_result = No_event | Broken int | Event int int int

datatype child_result = Fork_failed | Shell_status int | Wait_failed

record sys_answers =
  sa_lstat :: "string \<Rightarrow> (int \<times> int) option"
  sa_stat :: "string \<Rightarrow> (int \<times> int) option"
  sa_isdir :: "string \<Rightarrow> bool"
  sa_isdev :: "string \<Rightarrow> bool"
  sa_mkdir :: "string \<Rightarrow> bool"
  sa_mount :: "string \<Rightarrow> bool"
  sa_mknod :: "string \<Rightarrow> bool"
  sa_udev :: bool
  sa_enumerate :: bool
  sa_devices :: "string list option"

text \<open>What becomes of a built-in command that the shell calls: it returns, or the process ends in it.\<close>

datatype call_end = Returns | Exits int | Becomes string "string list"

record input =
  in_reads :: "read_result list"
  in_tcget :: bool
  in_tcset :: int
  in_exec :: int
  in_status :: int
  in_call :: call_end
  in_child :: child_result
  in_reboots :: bool
  in_sys :: sys_answers
  in_names :: "string list option"
  in_open :: "string \<Rightarrow> int"
  in_t1 :: "64 word"
  in_t2 :: "64 word"

record machine = boot +
  mt_fds :: "int list"
  mt_going_exit :: bool
  mt_echo :: bool
  mt_shell :: shell

text \<open>The key of one event; \<^term>\<open>None\<close> for the events that are passed over.\<close>

definition event_key :: "int \<Rightarrow> int \<Rightarrow> int \<Rightarrow> int option" where
  "event_key ty cd v =
     (if ty = EV_KEY \<and> v \<noteq> 0 then
        (if cd = KEY_ENTER \<or> cd = KEY_POWER then Some KEY_CONFIRM
         else if cd \<in> {KEY_UP, KEY_DOWN, KEY_VOLUMEUP, KEY_VOLUMEDOWN, KEY_C} then Some cd
         else None)
      else None)"

text \<open>One read for each device, until one gives a key.\<close>

fun evinput_get :: "read_result list \<Rightarrow> 'a display_scheme \<Rightarrow> (int \<times> 'a display_scheme) option" where
  "evinput_get [] d = Some (0, d)"
| "evinput_get (No_event # rs) d = evinput_get rs d"
| "evinput_get (Broken n # rs) d = do { d1 \<leftarrow> log_to_term (l_inf ''broken input code'') d; evinput_get rs d1 }"
| "evinput_get (Event ty cd v # rs) d =
     (case event_key ty cd v of Some k \<Rightarrow> Some (k, d) | None \<Rightarrow> evinput_get rs d)"

text \<open>
  The directories that must be mounted. \<open>lstat\<close> and \<open>stat\<close> give the device and the inode of a
  path, the other answers are whether a call succeeds.
\<close>

definition ismountpoint :: "sys_answers \<Rightarrow> string \<Rightarrow> bool" where
  "ismountpoint sys path =
     (case sa_lstat sys path of None \<Rightarrow> False
      | Some (dev1, ino1) \<Rightarrow>
         (case sa_stat sys (path @ ''/..'') of None \<Rightarrow> False
          | Some (dev2, ino2) \<Rightarrow> \<not> (dev1 = dev2 \<and> ino1 \<noteq> ino2)))"

definition do_premkdir :: "sys_answers \<Rightarrow> string \<Rightarrow> bool" where
  "do_premkdir sys path \<longleftrightarrow> sa_stat sys path \<noteq> None \<and> sa_isdir sys path \<or> sa_mkdir sys path"

definition premountpoints :: "string list" where
  "premountpoints = [''/sys'', ''/dev'']"

fun do_premount :: "sys_answers \<Rightarrow> string list \<Rightarrow> 'a display_scheme \<Rightarrow> (bool \<times> 'a display_scheme) option" where
  "do_premount sys [] d = Some (True, d)"
| "do_premount sys (dest # ds) d =
     (if ismountpoint sys dest then do_premount sys ds d
      else do {
        d1 \<leftarrow> say l_inf ''targ=%s'' dest d;
        (if \<not> do_premkdir sys dest then Some (False, d1)
         else if \<not> sa_mount sys dest then Some (False, d1)
         else do_premount sys ds d1) })"

text \<open>A node for every input device that has none.\<close>

definition isfileexists :: "sys_answers \<Rightarrow> string \<Rightarrow> bool" where
  "isfileexists sys path \<longleftrightarrow> sa_lstat sys path \<noteq> None \<and> sa_isdev sys path"

fun make_nodes :: "sys_answers \<Rightarrow> string list \<Rightarrow> 'a display_scheme \<Rightarrow> 'a display_scheme option" where
  "make_nodes sys [] d = Some d"
| "make_nodes sys (p # ps) d = do {
     d1 \<leftarrow> (if \<not> isfileexists sys p \<and> \<not> sa_mknod sys p then say l_err ''cannot mknod for %s'' p d else Some d);
     make_nodes sys ps d1 }"

definition udevzero_scan :: "sys_answers \<Rightarrow> 'a display_scheme \<Rightarrow> (bool \<times> 'a display_scheme) option" where
  "udevzero_scan sys d = do {
     let failed = (\<lambda>m d. map_option (Pair False) (log_to_term m d));
     (mounted, d1) \<leftarrow> do_premount sys premountpoints d;
     (if \<not> mounted then failed (l_err ''cannot initialize mountpoints'') d1
      else if \<not> do_premkdir sys ''/dev/input'' then failed (l_inf ''cannot create /dev/input'') d1
      else if \<not> sa_udev sys then failed (l_err ''cannot initialize udev'') d1
      else if \<not> sa_enumerate sys then failed (l_err ''cannot create enumerate context'') d1
      else case sa_devices sys of
          None \<Rightarrow> failed (l_err ''cannot scan for devices'') d1
        | Some devs \<Rightarrow> map_option (Pair True) (make_nodes sys devs d1)) }"

text \<open>Opening the devices: \<open>names\<close> is what \<open>readdir\<close> gives, \<open>opn\<close> what \<open>open\<close> returns for a path.\<close>

fun open_devices :: "(string \<Rightarrow> int) \<Rightarrow> string list \<Rightarrow> 'a machine_scheme \<Rightarrow> 'a machine_scheme option" where
  "open_devices opn [] m = Some m"
| "open_devices opn (name # names) m =
     (if take 5 name \<noteq> ''event'' then open_devices opn names m
      else (let path = take 254 (''/dev/input/'' @ name); fd = opn path in
        if fd < 0 then do { m1 \<leftarrow> say l_inf ''cannot open device %s'' path m; open_devices opn names m1 }
        else if length (mt_fds m) < EVINPUT_MAXCOUNT then open_devices opn names (m\<lparr>mt_fds := mt_fds m @ [fd]\<rparr>)
        else None))"

text \<open>Closing: the mounts of \<open>do_premount\<close> are undone, too; they are not part of the state.\<close>

definition evinput_deinit :: "'a machine_scheme \<Rightarrow> 'a machine_scheme" where
  "evinput_deinit m = m\<lparr>mt_fds := []\<rparr>"

definition evinput_init :: "input \<Rightarrow> 'a machine_scheme \<Rightarrow> 'a machine_scheme option" where
  "evinput_init i m = do {
     m0 \<leftarrow> (if mt_fds m \<noteq> [] then Some (evinput_deinit m)
       else map_option snd (udevzero_scan (in_sys i) m));
     (case in_names i of
        None \<Rightarrow> log_to_term (l_err ''cannot read /dev/input/'') m0
      | Some names \<Rightarrow> do {
          m1 \<leftarrow> open_devices (in_open i) names (m0\<lparr>mt_fds := []\<rparr>);
          (if mt_fds m1 = [] then log_to_term (l_inf ''cannot open any input device'') m1 else Some m1) }) }"

definition evinput_reload :: "input \<Rightarrow> 'a machine_scheme \<Rightarrow> 'a machine_scheme option" where
  "evinput_reload i m = evinput_init i (evinput_deinit m)"

section \<open>The terminal\<close>

text \<open>
  The result of \<open>tcsetattr\<close> is compared with \<open>EINTR\<close>, a value it never has, so a failure of it
  goes unnoticed.
\<close>

definition EINTR :: int where "EINTR = 4"

definition set_echo_enabled :: "input \<Rightarrow> bool \<Rightarrow> 'a machine_scheme \<Rightarrow> 'a machine_scheme option" where
  "set_echo_enabled i on m =
     (if \<not> in_tcget i then log_to_term (l_err ''cannot get attrs from terminal'') m
      else do {
        let m1 = (if in_tcset i = 0 then m\<lparr>mt_echo := on\<rparr> else m);
        (if in_tcset i = EINTR then log_to_term (l_err ''cannot set the attrs of terminal'') m1
         else Some (lbml_printf (ds_mask m1) (ESC # ''[?25'' @ (if on then ''h'' else ''l'')) m1)) })"

definition shut_down :: "input \<Rightarrow> 'a machine_scheme \<Rightarrow> 'a machine_scheme option" where
  "shut_down i m = do { m1 \<leftarrow> set_echo_enabled i True m; Some (evinput_deinit m1) }"

section \<open>The menu on the screen\<close>

definition menu_sel_rel :: "int \<Rightarrow> 'a boot_scheme \<Rightarrow> 'a boot_scheme option" where
  "menu_sel_rel dir m = do {
     s \<leftarrow> c_int (bt_sel m + dir);
     let n = int (length (bt_entries m));
     Some (m\<lparr>bt_sel_changed := True, bt_sel := (if s < 0 then 0 else if s \<ge> n then n - 1 else s)\<rparr>) }"

definition menu_footer :: string where
  "menu_footer = ''Use Up/Down/VolumeUp/VolumeDown to highlight item'' @ LF # ''Press ENTER to BOOT'' @ LF #
     ''R to REBOOT'' @ LF # ''or C into SASH'' @ [LF]"

definition print_item :: "int \<Rightarrow> 'a boot_scheme \<Rightarrow> 'a boot_scheme option" where
  "print_item i m = do {
     e \<leftarrow> rd (bt_entries m) i;
     t \<leftarrow> buffer_string (me_title e);
     let m1 = lbml_printf (ds_mask m) (ESC # (if bt_sel m = i then ''[30;47m'' else ''[37;40m'') @ t) m;
     Some (lbml_puts (ds_mask m) (ESC # ''[0;0m'' @ [LF]) m1) }"

definition printUI :: "'a boot_scheme \<Rightarrow> 'a boot_scheme option" where
  "printUI m = do {
     let m1 = reset_pointer (clear_screen m);
     header \<leftarrow> buffer_string (bt_title m);
     let m2 = lbml_printf (ds_mask m) (header @ [LF]) m1;
     let m3 = lbml_chars (ds_mask m) (length header) (CHR ''='') m2;
     let m4 = lbml_puts (ds_mask m) [LF] m3;
     m5 \<leftarrow> for_range 0 (int (length (bt_entries m))) print_item m4;
     Some (lbml_puts (ds_mask m) menu_footer m5) }"

text \<open>The end of a round of the loop.\<close>

definition end_round :: "input \<Rightarrow> 'a boot_scheme \<Rightarrow> 'a boot_scheme option" where
  "end_round i m = do {
     m1 \<leftarrow> (if bt_sel_changed m then map_option (\<lambda>u. u\<lparr>bt_sel_changed := False\<rparr>) (printUI m) else Some m);
     Some (lbml_lazy_flush (in_t1 i) (in_t2 i) m1) }"

section \<open>Starting an entry\<close>

text \<open>
  The argument list for \<open>execv\<close>: an array of 16, the path first, NULL last. With 14 words a
  message says that the parameters are too long, and the rest is dropped.
\<close>

definition exec_args :: "string \<Rightarrow> string list \<Rightarrow> string list" where
  "exec_args exe_path argv = exe_path # take 14 argv"

definition exec_cut :: "string list \<Rightarrow> bool" where
  "exec_cut argv \<longleftrightarrow> 14 \<le> length argv"

datatype run_end = Executed string "string list" | Exited int | Hangs | Rebooted

text \<open>Where the program waits: in the menu, or for the confirm key at one of four places.\<close>

datatype phase = Menu | Wait_config | Wait_params | Wait_shell | Wait_entry | Ended run_end

text \<open>\<open>exec_params\<close> and what \<open>do_entry\<close> does with its result; \<open>makeArgs\<close> has its table from its first call on.\<close>

definition table_made :: "string \<Rightarrow> 'a machine_scheme \<Rightarrow> 'a machine_scheme" where
  "table_made params m = (if params = [] then m else m\<lparr>mt_shell := (mt_shell m)\<lparr>sh_table := True\<rparr>\<rparr>)"

definition exec_words :: "input \<Rightarrow> string \<Rightarrow> string list \<Rightarrow> 'a machine_scheme \<Rightarrow> (phase \<times> 'a machine_scheme) option" where
  "exec_words i exe_path argv m = do {
     m1 \<leftarrow> (if exec_cut argv then log_to_term (l_inf ''params out of length'') m else Some m);
     (if in_exec i = 0 then Some (Ended (Executed exe_path (exec_args exe_path argv)), m1)
      else do {
        m2 \<leftarrow> set_echo_enabled i False m1;
        map_option (Pair Wait_entry) (log_center_whitebg ''Cannot execute INIT'' m2) }) }"

definition exec_params :: "(string \<Rightarrow> string list option) \<Rightarrow> input \<Rightarrow> string \<Rightarrow> string \<Rightarrow> 'a machine_scheme \<Rightarrow>
    (phase \<times> 'a machine_scheme) option" where
  "exec_params ls i exe_path params m = do {
     r \<leftarrow> (if params = [] then Some (Inr []) else makeArgs ls (sh_table (mt_shell m)) [] params);
     (case r of
        Inl _ \<Rightarrow> map_option (Pair Wait_params) (log_center_whitebg ''cannot parse params'' m)
      | Inr argv \<Rightarrow> exec_words i exe_path argv (table_made params m)) }"

text \<open>
  The value that \<open>command\<close> returns: 0 for every built-in command that returns, whatever it did, and for
  a program its status, or that of the shell that its child starts when \<open>makeArgs\<close> fails.
\<close>

definition command_status :: "int \<Rightarrow> outcome \<Rightarrow> int" where
  "command_status status out = (case out of System _ \<Rightarrow> status | Execute _ \<Rightarrow> status | _ \<Rightarrow> 0)"

definition call_ends :: "call_end \<Rightarrow> outcome \<Rightarrow> run_end option" where
  "call_ends c out =
     (case out of
        Call _ _ \<Rightarrow> (case c of Returns \<Rightarrow> None | Exits st \<Rightarrow> Some (Exited st) | Becomes path argv \<Rightarrow> Some (Executed path argv))
      | _ \<Rightarrow> None)"

definition outcome_text :: "outcome \<Rightarrow> string" where
  "outcome_text out = (case out of Builtin _ _ s _ \<Rightarrow> s | _ \<Rightarrow> [])"

text \<open>The shell runs inside the boot manager; where its command returns 0, the manager exits.\<close>

definition sash_execCommand :: "(string \<Rightarrow> string list option) \<Rightarrow> (string \<Rightarrow> string option) \<Rightarrow> input \<Rightarrow> string \<Rightarrow>
    'a machine_scheme \<Rightarrow> (phase \<times> 'a machine_scheme) option" where
  "sash_execCommand ls env i cmd m = do {
     m1 \<leftarrow> set_echo_enabled i True m;
     (sh, run) \<leftarrow> sash_main ls env 255 [''sash'', ''-a'', ''-c'', cmd] (mt_shell m1);
     let m2 = m1\<lparr>mt_shell := sh\<rparr>;
     (case run of
        Single out \<Rightarrow>
          if out = Loops then Some (Ended Hangs, m2)
          else (case call_ends (in_call i) out of
            Some e \<Rightarrow> Some (Ended e, m2)
          | None \<Rightarrow> do {
              let m3 = lbml_printf LBML_DD_MASK_TERM (outcome_text out) m2;
              (if command_status (in_status i) out = 0
               then map_option (Pair (Ended (Exited 0))) (shut_down i m3)
               else Some (Wait_shell, m3)) })
      | _ \<Rightarrow> Some (Ended (Exited 1), m2)) }"

definition do_entry :: "(string \<Rightarrow> string list option) \<Rightarrow> (string \<Rightarrow> string option) \<Rightarrow> input \<Rightarrow> int \<Rightarrow>
    'a machine_scheme \<Rightarrow> (phase \<times> 'a machine_scheme) option" where
  "do_entry ls env i sel m = do {
     e \<leftarrow> rd (bt_entries m) sel;
     (case me_type e of
        entry_type_init \<Rightarrow> do {
          m1 \<leftarrow> set_echo_enabled i True m;
          path \<leftarrow> buffer_string (me_exe_path e);
          params \<leftarrow> buffer_string (me_param_str e);
          exec_params ls i path params m1 }
      | entry_type_kexec \<Rightarrow>
          map_option (Pair Wait_entry) (log_center_whitebg ''IMPLEMENT THIS FUNCTION FOR ENTRY_TYPE_KEXEC'' m)
      | entry_type_shell \<Rightarrow> do {
          cmd \<leftarrow> buffer_string (me_cmdline e);
          sash_execCommand ls env i cmd m }) }"

text \<open>What follows the confirm key at each of the four places.\<close>

definition resume :: "input \<Rightarrow> phase \<Rightarrow> 'a machine_scheme \<Rightarrow> (phase \<times> 'a machine_scheme) option" where
  "resume i ph m =
     (case ph of
        Wait_config \<Rightarrow> map_option (Pair (Ended (Exited 0))) (shut_down i m)
      | Wait_params \<Rightarrow> map_option (Pair Wait_entry) (set_echo_enabled i False m)
      | Wait_shell \<Rightarrow> do {
          m1 \<leftarrow> set_echo_enabled i False m;
          map_option (Pair Wait_entry) (log_center_whitebg ''Shell script may fail'' m1) }
      | Wait_entry \<Rightarrow> do { m1 \<leftarrow> printUI m; map_option (Pair Menu) (end_round i m1) }
      | _ \<Rightarrow> Some (ph, m))"

text \<open>The interactive shell: it reads its lines from the standard input.\<close>

definition enter_shell :: "(string \<Rightarrow> string list option) \<Rightarrow> (string \<Rightarrow> string option) \<Rightarrow> input \<Rightarrow>
    'a machine_scheme \<Rightarrow> (shell_run \<times> 'a machine_scheme) option" where
  "enter_shell ls env i m = do {
     m1 \<leftarrow> set_echo_enabled i True (reset_pointer (clear_screen m));
     (sh, run) \<leftarrow> sash_main ls env 0 [''sash'', ''-a'', ''-p'', ''sash> '', ''-i''] (mt_shell m1);
     m2 \<leftarrow> set_echo_enabled i False (m1\<lparr>mt_shell := sh\<rparr>);
     Some (run, m2) }"

text \<open>The shell in a child process; the parent waits for it.\<close>

definition run_child :: "input \<Rightarrow> 'a machine_scheme \<Rightarrow> 'a machine_scheme option" where
  "run_child i m =
     (case in_child i of
        Fork_failed \<Rightarrow> log_to_term (l_inf ''cannot fork'') m
      | w \<Rightarrow> do {
          m1 \<leftarrow> (case w of
              Shell_status st \<Rightarrow>
                if take_bit 7 st = 0 then Some m
                else say l_inf ''shell exited with code %s'' (show_int (take_bit 7 st)) m
            | _ \<Rightarrow> log_to_term (l_inf ''shell may not exit'') m);
          m2 \<leftarrow> evinput_reload i (m1\<lparr>mt_going_exit := False\<rparr>);
          m3 \<leftarrow> set_echo_enabled i False m2;
          printUI m3 })"

section \<open>The main loop\<close>

definition handle_key :: "(string \<Rightarrow> string list option) \<Rightarrow> (string \<Rightarrow> string option) \<Rightarrow> input \<Rightarrow> int \<Rightarrow>
    'a machine_scheme \<Rightarrow> (phase \<times> 'a machine_scheme) option" where
  "handle_key ls env i key m =
     (let stay = (\<lambda>u. do { u1 \<leftarrow> u; map_option (Pair Menu) (end_round i u1) }) in
      if key = KEY_UP \<or> key = KEY_VOLUMEUP then stay (menu_sel_rel (- 1) m)
      else if key = KEY_DOWN \<or> key = KEY_VOLUMEDOWN then stay (menu_sel_rel 1 m)
      else if key = KEY_CONFIRM then do_entry ls env i (bt_sel m) (reset_pointer (clear_screen m))
      else if key = KEY_R then do {
        m1 \<leftarrow> shut_down i m;
        m2 \<leftarrow> log_to_term (l_inf ''Rebooting'') m1;
        (if in_reboots i then Some (Ended Rebooted, m2) else stay (Some m2)) }
      else if key = KEY_C then stay (run_child i m)
      else stay (Some m))"

definition handle_event_loop :: "(string \<Rightarrow> string list option) \<Rightarrow> (string \<Rightarrow> string option) \<Rightarrow> input \<Rightarrow>
    'a machine_scheme \<Rightarrow> (phase \<times> 'a machine_scheme) option" where
  "handle_event_loop ls env i m =
     (if bt_entries m = [] then Some (Menu, m)
      else do { (key, m1) \<leftarrow> evinput_get (in_reads i) m; handle_key ls env i key m1 })"

definition waiting :: "phase \<Rightarrow> bool" where
  "waiting ph \<longleftrightarrow> ph = Wait_config \<or> ph = Wait_params \<or> ph = Wait_shell \<or> ph = Wait_entry"

fun ended :: "phase \<Rightarrow> bool" where
  "ended (Ended _) = True"
| "ended _ = False"

text \<open>One round of the loop, one round of \<open>wait_enter\<close>, or the interrupt signal.\<close>

inductive boot_step :: "(string \<Rightarrow> string list option) \<Rightarrow> (string \<Rightarrow> string option) \<Rightarrow>
    phase \<times> machine \<Rightarrow> phase \<times> machine \<Rightarrow> bool" for ls :: "string \<Rightarrow> string list option" and env :: "string \<Rightarrow> string option" where
  round: "\<not> mt_going_exit m \<Longrightarrow> handle_event_loop ls env i m = Some r \<Longrightarrow> boot_step ls env (Menu, m) r"
| quit: "mt_going_exit m \<Longrightarrow> shut_down i m = Some m' \<Longrightarrow> boot_step ls env (Menu, m) (Ended (Exited 0), m')"
| poll: "waiting ph \<Longrightarrow> evinput_get (in_reads (i :: input)) m = Some (key, m') \<Longrightarrow> key \<noteq> KEY_CONFIRM \<Longrightarrow>
     boot_step ls env (ph, m) (ph, m')"
| confirm: "waiting ph \<Longrightarrow> evinput_get (in_reads i) m = Some (KEY_CONFIRM, m') \<Longrightarrow> resume i ph m' = Some r \<Longrightarrow>
     boot_step ls env (ph, m) r"
| signal: "\<not> ended ph \<Longrightarrow> boot_step ls env (ph, m) (ph, m\<lparr>mt_going_exit := True\<rparr>)"

inductive_cases menu_stepE: "boot_step ls env (Menu, m) r"
inductive_cases ended_stepE [elim!]: "boot_step ls env (Ended e, m) r"
inductive_simps boot_step_iff: "boot_step ls env (ph, m) (ph', m')"



inductive reachable :: "(string \<Rightarrow> string list option) \<Rightarrow> (string \<Rightarrow> string option) \<Rightarrow>
    (phase \<times> machine) \<Rightarrow> phase \<times> machine \<Rightarrow> bool" for ls :: "string \<Rightarrow> string list option" and env :: "string \<Rightarrow> string option" and start :: "phase \<times> machine" where
  start: "reachable ls env start start"
| step: "reachable ls env start s \<Longrightarrow> boot_step ls env s t \<Longrightarrow> reachable ls env start t"

section \<open>What the operations leave alone\<close>

text \<open>
  \<open>settled m m'\<close>: the configuration, the menu and the selection of \<open>m'\<close> are those of \<open>m\<close>, and
  the table of the devices stays within its bound.
\<close>

definition settled :: "'a machine_scheme \<Rightarrow> 'a machine_scheme \<Rightarrow> bool" where
  "settled m m' \<longleftrightarrow> bt_entries m' = bt_entries m \<and> bt_title m' = bt_title m \<and> bt_sel m' = bt_sel m \<and>
     bt_sel_changed m' = bt_sel_changed m \<and> ds_mask m' = ds_mask m \<and> ds_term_size m' = ds_term_size m \<and>
     ds_fb_size m' = ds_fb_size m \<and> (length (mt_fds m) \<le> EVINPUT_MAXCOUNT \<longrightarrow> length (mt_fds m') \<le> EVINPUT_MAXCOUNT)"

lemma settled_refl [intro, simp]: "settled m m"
  by (simp add: settled_def)



























section \<open>The menu in every reachable state\<close>

definition menu_ok :: "'a machine_scheme \<Rightarrow> bool" where
  "menu_ok m \<longleftrightarrow> 0 \<le> bt_sel m \<and> (bt_entries m \<noteq> [] \<longrightarrow> bt_sel m < int (length (bt_entries m))) \<and>
     \<not> bt_sel_changed m \<and> length (mt_fds m) \<le> EVINPUT_MAXCOUNT"





definition clamp :: "int \<Rightarrow> int \<Rightarrow> int" where
  "clamp n s = (if s < 0 then 0 else if s \<ge> n then n - 1 else s)"

lemma menu_sel_rel_eq:
  "menu_sel_rel dir m = Some m1 \<longleftrightarrow> int_ok (bt_sel m + dir) \<and>
     m1 = m\<lparr>bt_sel_changed := True, bt_sel := clamp (int (length (bt_entries m))) (bt_sel m + dir)\<rparr>"
  by (auto simp: menu_sel_rel_def clamp_def Let_def c_int_def)

lemma clamp_bounds: "0 < n \<Longrightarrow> 0 \<le> clamp n s \<and> clamp n s < n"
  by (simp add: clamp_def)


lemma event_keys: "event_key ty cd v = Some k \<Longrightarrow> k \<noteq> KEY_R"
  by (auto simp: event_key_def key_defs split: if_splits)

text \<open>The key for the reboot is never read.\<close>

lemma no_reboot_key: "evinput_get rs d = Some (k, d') \<Longrightarrow> k \<noteq> KEY_R"
proof (induction rs d arbitrary: d' rule: evinput_get.induct)
  case (4 ty cd v rs d)
  show ?case
  proof (cases "event_key ty cd v")
    case (Some k')
    with 4(2) have "k' = k" by simp
    with Some event_keys show ?thesis by blast
  qed (use 4 in simp)
qed (auto simp: key_defs Option.bind_eq_Some_conv)







section \<open>From the start of the program\<close>













text \<open>A start with one input device and the file \<open>sample_file\<close>, without the logo.\<close>

definition sample_sys :: sys_answers where
  "sample_sys = \<lparr>sa_lstat = (\<lambda>_. None), sa_stat = (\<lambda>_. None), sa_isdir = (\<lambda>_. False), sa_isdev = (\<lambda>_. False),
     sa_mkdir = (\<lambda>_. True), sa_mount = (\<lambda>_. True), sa_mknod = (\<lambda>_. True), sa_udev = True, sa_enumerate = True,
     sa_devices = Some [''/dev/input/event0'']\<rparr>"

definition sample_input :: "read_result list \<Rightarrow> input" where
  "sample_input rs = \<lparr>in_reads = rs, in_tcget = True, in_tcset = 0, in_exec = 0, in_status = 0, in_call = Returns, in_child = Fork_failed,
     in_reboots = True, in_sys = sample_sys, in_names = Some [''.'', ''event0''], in_open = (\<lambda>_. 3), in_t1 = 0, in_t2 = 0\<rparr>"

definition sample_machine :: machine where
  "sample_machine = \<lparr>ds_mask = LBML_DD_MASK_TERM, ds_term_size = (80, 25), ds_fb_size = (0, 0), ds_term = [], ds_fb = [],
     ds_next_flush = 1, ds_pans = 0, bt_show_splash = False, bt_title = stored 255 ''LBML Boot Manager v1.0'',
     bt_entries = [], bt_sel = 0, bt_sel_changed = False, mt_fds = [], mt_going_exit = False, mt_echo = True,
     mt_shell = \<lparr>sh_aliases = [], sh_prompt = None, sh_table = False\<rparr>\<rparr>"





section \<open>The menu on the screen\<close>

text \<open>What \<open>printUI\<close> sends to the devices.\<close>

definition item_text :: "int \<Rightarrow> menu_entry list \<Rightarrow> int \<Rightarrow> string" where
  "item_text sel es i = ESC # (if sel = i then ''[30;47m'' else ''[37;40m'') @ c_string (me_title (es ! nat i)) @
     ESC # ''[0;0m'' @ [LF, LF]"

definition ui_text :: "'a boot_scheme \<Rightarrow> string" where
  "ui_text m = ESC # ''[2J'' @ LF # ESC # ''[0;0H'' @ LF # c_string (bt_title m) @ LF #
     replicate (length (c_string (bt_title m))) (CHR ''='') @ [LF, LF] @
     concat (map (item_text (bt_sel m) (bt_entries m)) [0..int (length (bt_entries m)) - 1]) @ menu_footer @ [LF]"

text \<open>
  The texts have an end, and where the frame buffer is used they are short enough for the buffer
  that the library prints through.
\<close>

definition readable :: "'a boot_scheme \<Rightarrow> bool" where
  "readable m \<longleftrightarrow> NUL \<in> set (bt_title m) \<and> fb_fits (ds_mask m) (length (c_string (bt_title m)) + 1) \<and>
     (\<forall>e \<in> set (bt_entries m). NUL \<in> set (me_title e) \<and> fb_fits (ds_mask m) (length (c_string (me_title e)) + 9))"

lemma printUI_runs:
  fixes m :: "'a boot_scheme"
  assumes "readable m"
  shows "printUI m = Some (emit (ds_mask m) (ui_text m) m)"
proof -
  let ?n = "length (bt_entries m)" and ?dd = "ds_mask m"
  let ?ss = "map (item_text (bt_sel m) (bt_entries m)) [0..int ?n - 1]"
  have n: "length ?ss = ?n" by simp
  have nth: "?ss ! nat i = item_text (bt_sel m) (bt_entries m) i" if "0 \<le> i" "i < int ?n" for i
    using that by (simp add: nth_upto)
  have puts: "lbml_puts dd x u = emit dd (x @ [LF]) u" if "fb_fits dd (length x + 1)" for dd x and u :: "'a boot_scheme"
    unfolding lbml_puts_def by (rule printf_emit) (use that in simp)
  have item: "print_item i (emit ?dd s m) = Some (emit ?dd (s @ ?ss ! nat i) m)"
    if i: "0 \<le> i" "i < int (length ?ss)" for i s
  proof -
    let ?t = "c_string (me_title (bt_entries m ! nat i))"
    let ?x = "ESC # (if bt_sel m = i then ''[30;47m'' else ''[37;40m'') @ ?t"
    have "bt_entries m ! nat i \<in> set (bt_entries m)" using i by (intro nth_mem) auto
    with assms have t: "buffer_string (me_title (bt_entries m ! nat i)) = Some ?t" "fb_fits ?dd (length ?t + 9)"
      by (auto simp: readable_def buffer_string_def)
    have x: "lbml_printf ?dd ?x u = emit ?dd ?x u" for u :: "'a boot_scheme"
      by (rule printf_emit) (use t(2) in \<open>auto simp: fb_fits_def\<close>)
    have "print_item i (emit ?dd s m) = Some (lbml_puts ?dd (ESC # ''[0;0m'' @ [LF]) (lbml_printf ?dd ?x (emit ?dd s m)))"
      using i by (simp add: print_item_def rd_def t(1))
    then have "print_item i (emit ?dd s m) = Some (emit ?dd (s @ ?x @ (ESC # ''[0;0m'' @ [LF]) @ [LF]) m)"
      unfolding x by (simp add: puts emit_emit)
    with i show ?thesis by (simp add: nth item_text_def)
  qed
  have header: "buffer_string (bt_title m) = Some (c_string (bt_title m))" and fits: "fb_fits ?dd (length (c_string (bt_title m)) + 1)"
    using assms by (simp_all add: readable_def buffer_string_def)
  let ?s = "ESC # ''[2J'' @ LF # ESC # ''[0;0H'' @ LF # c_string (bt_title m) @ LF #
     replicate (length (c_string (bt_title m))) (CHR ''='') @ [LF, LF]"
  have title: "lbml_printf ?dd (c_string (bt_title m) @ [LF]) u = emit ?dd (c_string (bt_title m) @ [LF]) u" for u :: "'a boot_scheme"
    by (rule printf_emit) (use fits in simp)
  have head: "lbml_puts ?dd [LF] (lbml_chars ?dd (length (c_string (bt_title m))) (CHR ''='')
      (lbml_printf ?dd (c_string (bt_title m) @ [LF]) (reset_pointer (clear_screen m)))) = emit ?dd ?s m"
    unfolding title by (simp add: puts reset_pointer_def clear_screen_def chars_emit emit_emit)
  have loop: "for_range 0 (int ?n) print_item (emit ?dd ?s m) = Some (emit ?dd (?s @ concat ?ss) m)"
    using for_range_prints [OF item, of ?s] by (simp only: n)
  have foot: "lbml_puts ?dd menu_footer u = emit ?dd (menu_footer @ [LF]) u" for u :: "'a boot_scheme"
    by (rule puts) (simp add: menu_footer_def)
  have "printUI m = do {
      m5 \<leftarrow> for_range 0 (int ?n) print_item (lbml_puts ?dd [LF] (lbml_chars ?dd (length (c_string (bt_title m))) (CHR ''='')
        (lbml_printf ?dd (c_string (bt_title m) @ [LF]) (reset_pointer (clear_screen m)))));
      Some (lbml_puts ?dd menu_footer m5) }"
    unfolding printUI_def Let_def header by simp
  also have "\<dots> = Some (emit ?dd (menu_footer @ [LF]) (emit ?dd (?s @ concat ?ss) m))"
    unfolding head loop foot by simp
  finally show ?thesis by (simp add: emit_emit ui_text_def)
qed

text \<open>The last thing on every device in use is the menu with the current selection.\<close>

definition shows_menu :: "'a boot_scheme \<Rightarrow> bool" where
  "shows_menu m \<longleftrightarrow> (bit (ds_mask m) 0 \<longrightarrow> (\<exists>t. ds_term m = t @ ui_text m)) \<and>
     (bit (ds_mask m) 1 \<longrightarrow> (\<exists>t. ds_fb m = t @ ui_text m))"

lemma printed_shows:
  "shows_menu (emit (ds_mask m) (ui_text m) m)"
  by (auto simp: shows_menu_def emit_def ui_text_def)

section \<open>The selection as an abstract machine\<close>

text \<open>The main loop over the answers of the system, as long as it stays in the menu.\<close>

fun main_loop :: "(string \<Rightarrow> string list option) \<Rightarrow> (string \<Rightarrow> string option) \<Rightarrow> input list \<Rightarrow> machine \<Rightarrow>
    (phase \<times> machine) option" where
  "main_loop ls env [] m = Some (Menu, m)"
| "main_loop ls env (i # is) m =
     (if mt_going_exit m then map_option (Pair (Ended (Exited 0))) (shut_down i m)
      else do {
        (ph, m1) \<leftarrow> handle_event_loop ls env i m;
        (if ph = Menu then main_loop ls env is m1 else Some (ph, m1)) })"

lemma main_loop_steps:
  "main_loop ls env is m = Some s \<Longrightarrow> reachable ls env s0 (Menu, m) \<Longrightarrow> reachable ls env s0 s"
proof (induction ls env "is" m rule: main_loop.induct)
  case (2 ls env i "is" m)
  show ?case
  proof (cases "mt_going_exit m")
    case True
    with 2(2) obtain m' where m': "shut_down i m = Some m'" "s = (Ended (Exited 0), m')" by auto
    from boot_step.quit [OF True m'(1)] m'(2) 2(3) show ?thesis by (metis reachable.step)
  next
    case False
    with 2(2) obtain ph m1 where r: "handle_event_loop ls env i m = Some (ph, m1)"
      "(if ph = Menu then main_loop ls env is m1 else Some (ph, m1)) = Some s"
      by (auto simp: Option.bind_eq_Some_conv)
    from reachable.step [OF 2(3) boot_step.round [OF False r(1)]] have next1: "reachable ls env s0 (ph, m1)" .
    show ?thesis
    proof (cases "ph = Menu")
      case True
      with 2(1) [OF False r(1) refl True] r(2) next1 show ?thesis by simp
    qed (use r(2) next1 in simp)
  qed
qed simp

text \<open>The key of a round, and its effect on the number of the selected entry.\<close>

fun key_of :: "read_result list \<Rightarrow> int" where
  "key_of [] = 0"
| "key_of (Event ty cd v # rs) = (case event_key ty cd v of Some k \<Rightarrow> k | None \<Rightarrow> key_of rs)"
| "key_of (_ # rs) = key_of rs"

definition move_key :: "int \<Rightarrow> int \<Rightarrow> int \<Rightarrow> int" where
  "move_key n key s =
     (if key = KEY_UP \<or> key = KEY_VOLUMEUP then clamp n (s - 1)
      else if key = KEY_DOWN \<or> key = KEY_VOLUMEDOWN then clamp n (s + 1) else s)"

fun whole_read :: "read_result \<Rightarrow> bool" where
  "whole_read (Broken _) = False"
| "whole_read _ = True"

definition browsing :: "input \<Rightarrow> bool" where
  "browsing i \<longleftrightarrow> list_all whole_read (in_reads i) \<and> key_of (in_reads i) \<noteq> KEY_CONFIRM \<and> key_of (in_reads i) \<noteq> KEY_C"

lemma get_key: "list_all whole_read rs \<Longrightarrow> evinput_get rs d = Some (key_of rs, d)"
  by (induction rs d rule: evinput_get.induct) (auto split: option.split)

lemma shows_flush: "shows_menu (lbml_lazy_flush t1 t2 m) = shows_menu m"
proof -
  have "ds_mask (lbml_lazy_flush t1 t2 m) = ds_mask m" "ds_term (lbml_lazy_flush t1 t2 m) = ds_term m"
    "ds_fb (lbml_lazy_flush t1 t2 m) = ds_fb m" "ui_text (lbml_lazy_flush t1 t2 m) = ui_text m"
    by (simp_all add: lbml_lazy_flush_def lbml_flush_def ui_text_def)
  then show ?thesis by (simp add: shows_menu_def)
qed

lemma end_round_moved:
  assumes "readable m" "\<not> bt_sel_changed m"
  shows "\<exists>m'. end_round i (m\<lparr>bt_sel_changed := True, bt_sel := s\<rparr>) = Some m' \<and> prints (m\<lparr>bt_sel := s\<rparr>) m' \<and> shows_menu m'"
proof -
  let ?m = "m\<lparr>bt_sel_changed := True, bt_sel := s\<rparr>"
  let ?p = "(emit (ds_mask ?m) (ui_text ?m) ?m)\<lparr>bt_sel_changed := False\<rparr>"
  have "printUI ?m = Some (emit (ds_mask ?m) (ui_text ?m) ?m)"
    by (rule printUI_runs) (use assms(1) in \<open>simp add: readable_def\<close>)
  then have run: "end_round i ?m = Some (lbml_lazy_flush (in_t1 i) (in_t2 i) ?p)"
    by (simp add: end_round_def)
  have p: "?p = emit (ds_mask m) (ui_text (m\<lparr>bt_sel := s\<rparr>)) (m\<lparr>bt_sel := s\<rparr>)"
    using assms(2) by (cases m) (simp add: emit_def ui_text_def)
  have "prints (m\<lparr>bt_sel := s\<rparr>) ?p" unfolding p by simp
  moreover have "shows_menu ?p"
    using printed_shows [of "m\<lparr>bt_sel := s\<rparr>"] unfolding p by simp
  ultimately show ?thesis using run by (auto simp: shows_flush intro: prints_trans)
qed

lemma browse_round:
  fixes m :: machine
  assumes m: "readable m" "menu_ok m" "bt_entries m \<noteq> []" "length (bt_entries m) \<le> MENU_ENTRIES" "shows_menu m"
    and i: "browsing i"
  shows "\<exists>m'. handle_event_loop ls env i m = Some (Menu, m') \<and>
     prints (m\<lparr>bt_sel := move_key (int (length (bt_entries m))) (key_of (in_reads i)) (bt_sel m)\<rparr>) m' \<and> shows_menu m'"
proof -
  let ?n = "int (length (bt_entries m))" and ?k = "key_of (in_reads i)"
  have un: "\<not> bt_sel_changed m" using m(2) by (simp add: menu_ok_def)
  have get: "evinput_get (in_reads i) m = Some (?k, m)" using i by (simp add: browsing_def get_key)
  have ok: "int_ok (bt_sel m + d)" if "d = 1 \<or> d = - 1" for d
    using m(2-4) that by (auto simp: menu_ok_def int_ok_def MENU_ENTRIES_def)
  have rel: "menu_sel_rel d m = Some (m\<lparr>bt_sel_changed := True, bt_sel := clamp ?n (bt_sel m + d)\<rparr>)" if "d = 1 \<or> d = - 1" for d
    using ok [OF that] by (simp add: menu_sel_rel_eq)
  note moved = end_round_moved [OF m(1) un, of i]
  have run: "handle_event_loop ls env i m = handle_key ls env i ?k m"
    using m(3) by (simp add: handle_event_loop_def get)
  consider "?k = KEY_UP \<or> ?k = KEY_VOLUMEUP" | "?k = KEY_DOWN \<or> ?k = KEY_VOLUMEDOWN"
    | "?k \<notin> {KEY_UP, KEY_VOLUMEUP, KEY_DOWN, KEY_VOLUMEDOWN, KEY_CONFIRM, KEY_C}"
    using i by (auto simp: browsing_def)
  then show ?thesis
  proof cases
    case 1
    then have "handle_key ls env i ?k m = map_option (Pair Menu) (end_round i (m\<lparr>bt_sel_changed := True, bt_sel := clamp ?n (bt_sel m + (- 1))\<rparr>))"
      by (auto simp: handle_key_def Let_def rel)
    moreover have "move_key ?n ?k (bt_sel m) = clamp ?n (bt_sel m + (- 1))" using 1 by (auto simp: move_key_def)
    ultimately show ?thesis using moved [of "clamp ?n (bt_sel m + (- 1))"] by (auto simp: run)
  next
    case 2
    then have "handle_key ls env i ?k m = map_option (Pair Menu) (end_round i (m\<lparr>bt_sel_changed := True, bt_sel := clamp ?n (bt_sel m + 1)\<rparr>))"
      by (auto simp: handle_key_def Let_def rel key_defs)
    moreover have "move_key ?n ?k (bt_sel m) = clamp ?n (bt_sel m + 1)" using 2 by (auto simp: move_key_def key_defs)
    ultimately show ?thesis using moved [of "clamp ?n (bt_sel m + 1)"] by (auto simp: run)
  next
    case 3
    have "?k \<noteq> KEY_R" using no_reboot_key [OF get] .
    with 3 have "handle_key ls env i ?k m = map_option (Pair Menu) (end_round i m)" by (simp add: handle_key_def Let_def)
    moreover have "end_round i m = Some (lbml_lazy_flush (in_t1 i) (in_t2 i) m)" using un by (simp add: end_round_def)
    moreover have "move_key ?n ?k (bt_sel m) = bt_sel m" using 3 by (simp add: move_key_def)
    ultimately show ?thesis using m(5) by (simp add: run shows_flush)
  qed
qed

text \<open>The rounds that stay in the menu, as commands of which every key that moves is one.\<close>

definition browse_one :: "(string \<Rightarrow> string list option) \<Rightarrow> (string \<Rightarrow> string option) \<Rightarrow> input \<Rightarrow> machine \<Rightarrow> machine option" where
  "browse_one ls env i m =
     (if mt_going_exit m then None else case handle_event_loop ls env i m of Some (Menu, m1) \<Rightarrow> Some m1 | _ \<Rightarrow> None)"

definition browse_all :: "(string \<Rightarrow> string list option) \<Rightarrow> (string \<Rightarrow> string option) \<Rightarrow> input list \<Rightarrow> machine \<Rightarrow> machine option" where
  "browse_all ls env is m = (case main_loop ls env is m of Some (Menu, m1) \<Rightarrow> Some m1 | _ \<Rightarrow> None)"

definition in_menu :: "menu_entry list \<Rightarrow> int \<Rightarrow> machine \<Rightarrow> bool" where
  "in_menu es sel m \<longleftrightarrow> readable m \<and> menu_ok m \<and> bt_entries m = es \<and> bt_sel m = sel \<and> es \<noteq> [] \<and> length es \<le> MENU_ENTRIES \<and>
     shows_menu m \<and> \<not> mt_going_exit m"

lemma browse_one_moves:
  assumes "browsing i" "in_menu es sel m"
  shows "runs (browse_one ls env i m) (in_menu es (move_key (int (length es)) (key_of (in_reads i)) sel))"
proof -
  let ?s = "move_key (int (length es)) (key_of (in_reads i)) sel"
  have m: "readable m" "menu_ok m" "bt_entries m = es" "bt_sel m = sel" "es \<noteq> []" "length es \<le> MENU_ENTRIES" "shows_menu m" "\<not> mt_going_exit m"
    using assms(2) by (simp_all add: in_menu_def)
  from browse_round [OF m(1,2) _ _ m(7) assms(1), of ls env] m obtain m1 where
    m1: "handle_event_loop ls env i m = Some (Menu, m1)" "prints (m\<lparr>bt_sel := ?s\<rparr>) m1" "shows_menu m1" by auto
  from m1(2) have f: "bt_entries m1 = es" "bt_title m1 = bt_title m" "bt_sel m1 = ?s"
    "bt_sel_changed m1 = bt_sel_changed m" "mt_fds m1 = mt_fds m" "\<not> mt_going_exit m1" "ds_mask m1 = ds_mask m"
    using m(3,8) by (elim printsE, simp)+
  have "0 \<le> ?s \<and> ?s < int (length es)"
    using m(2-5) clamp_bounds [of "int (length es)"] by (auto simp: move_key_def menu_ok_def)
  then have "in_menu es ?s m1" using m m1(3) by (simp add: in_menu_def readable_def menu_ok_def f)
  then show ?thesis by (simp add: browse_one_def m(8) m1(1))
qed

interpretation browser: command_sequence "browse_all ls env" "browse_one ls env" browsing "in_menu es"
    "\<lambda>sel i. move_key (int (length es)) (key_of (in_reads i)) sel" for ls env es
proof
  show "browse_all ls env [] m = Some m" for m by (simp add: browse_all_def)
  show "browse_all ls env (i # is) m = do { t \<leftarrow> browse_one ls env i m; browse_all ls env is t }" for i "is" m
    by (cases "handle_event_loop ls env i m") (auto simp: browse_all_def browse_one_def split: phase.split option.split)
qed (rule browse_one_moves)

text \<open>
  C2. Browsing refines an abstract machine that only counts: over any sequence of rounds with
  movements (or other events, but neither the confirm key nor the key of the shell), the loop
  stays in the menu, the selection is the one that the clamped counter gives, and the last
  thing on every device is the menu with exactly that selection highlighted.
\<close>

theorem browsing_refines:
  assumes "readable m" "menu_ok m" "bt_entries m \<noteq> []" "length (bt_entries m) \<le> MENU_ENTRIES" "shows_menu m"
    and "\<not> mt_going_exit m" "list_all browsing is"
  shows "\<exists>m'. main_loop ls env is m = Some (Menu, m') \<and> shows_menu m' \<and> bt_entries m' = bt_entries m \<and>
     bt_sel m' = foldl (\<lambda>s k. move_key (int (length (bt_entries m))) k s) (bt_sel m) (map (\<lambda>i. key_of (in_reads i)) is)"
proof -
  have "in_menu (bt_entries m) (bt_sel m) m" using assms by (simp add: in_menu_def)
  from browser.run_all [OF this assms(7), of ls env] show ?thesis
    by (auto simp: browse_all_def in_menu_def runs_iff foldl_map split: option.splits prod.splits phase.splits)
qed

text \<open>Two entries on the screen, and the key that moves to the second.\<close>

definition two_entries :: machine where
  "two_entries = sample_machine\<lparr>bt_entries := [sample_entry, sample_entry]\<rparr>"

theorem browsing_refines_witness:
  "\<exists>m'. main_loop (\<lambda>_. None) (\<lambda>_. None) [sample_input [No_event, Event EV_KEY KEY_DOWN 1], sample_input []]
     (emit (ds_mask two_entries) (ui_text two_entries) two_entries) = Some (Menu, m') \<and> shows_menu m' \<and> bt_sel m' = 1"
proof -
  let ?m = "emit (ds_mask two_entries) (ui_text two_entries) two_entries"
  let ?is = "[sample_input [No_event, Event EV_KEY KEY_DOWN 1], sample_input []]"
  have m: "readable ?m" "menu_ok ?m" "bt_entries ?m \<noteq> []" "length (bt_entries ?m) \<le> MENU_ENTRIES" "\<not> mt_going_exit ?m"
    by (simp_all add: readable_def menu_ok_def two_entries_def sample_machine_def sample_entry_def menu_of_def stored_def
        MENU_ENTRIES_def EVINPUT_MAXCOUNT_def emit_def)
  have k: "event_key EV_KEY KEY_DOWN 1 = Some KEY_DOWN" by (simp add: event_key_def key_defs)
  have br: "list_all browsing ?is" by (simp add: browsing_def sample_input_def k) (simp add: key_defs)
  have sel: "foldl (\<lambda>s k. move_key (int (length (bt_entries ?m))) k s) (bt_sel ?m) (map (\<lambda>i. key_of (in_reads i)) ?is) = 1"
    by (simp add: sample_input_def k two_entries_def sample_machine_def) (simp add: move_key_def key_defs clamp_def)
  from browsing_refines [OF m(1-4) printed_shows m(5) br, of "\<lambda>_. None" "\<lambda>_. None"] sel show ?thesis by auto
qed

section \<open>Starting an entry\<close>

lemma log_runs: "\<exists>d'. log_to_term (l_err fmt) d = Some d'" "\<exists>d'. log_to_term (l_inf fmt) d = Some d'"
  by (simp_all add: log_to_term_def l_err_def l_inf_def sprintf_into_def)

lemma echo_runs: "\<exists>m'. set_echo_enabled i on m = Some m'"
  using log_runs by (auto simp: set_echo_enabled_def Let_def)



text \<open>
  C37. An entry of type \<open>init\<close> whose parameters are written as quoted words runs its program with
  exactly these words as the arguments, behind the path, and at most 14 of them.
\<close>

theorem init_entry_runs:
  assumes e: "rd (bt_entries m) sel = Some e" "me_type e = entry_type_init"
    and path: "me_exe_path e = stored 255 path" "length path < 255" "NUL \<notin> set path"
    and params: "me_param_str e = stored 512 (quote_words ws)" "length (quote_words ws) < 512" "\<forall>w \<in> set ws. NUL \<notin> set w"
    and exec: "in_exec i = 0"
  shows "\<exists>m'. do_entry ls env i sel m = Some (Ended (Executed path (path # take 14 ws)), m')"
proof -
  obtain m1 where m1: "set_echo_enabled i True m = Some m1" using echo_runs by blast
  have p: "buffer_string (me_exe_path e) = Some path" unfolding path(1) stored_def by (rule buffer_string_put) (use path in auto)
  have nn: "NUL \<notin> set (quote_words ws)" using params(3) by (rule quote_words_nul)
  then have q: "buffer_string (me_param_str e) = Some (quote_words ws)"
    unfolding params(1) stored_def by (rule buffer_string_put) (use params in auto)
  have words: "(if quote_words ws = [] then Some (Inr []) else makeArgs ls t [] (quote_words ws)) = Some (Inr ws)" for t
    using makeArgs_quoted [OF _ params(3), of ls t "[]"] by (cases ws) auto
  have run: "\<exists>m'. exec_words i path ws u = Some (Ended (Executed path (path # take 14 ws)), m')" for u
    using log_runs(2) [of "''params out of length''" u] by (auto simp: exec_words_def exec exec_args_def)
  show ?thesis using run by (simp add: do_entry_def e m1 p q exec_params_def words)
qed

theorem init_entry_runs_witness:
  "\<exists>m'. do_entry (\<lambda>_. None) (\<lambda>_. None) (sample_input []) 0
     (sample_machine\<lparr>bt_entries := [menu_of \<lparr>be_title = ''x'', be_type = entry_type_init, be_exe_path = ''/bin/sh'',
        be_cmdline = [], be_params = quote_words [''-c'', ''echo a'']\<rparr>]\<rparr>) =
     Some (Ended (Executed ''/bin/sh'' [''/bin/sh'', ''-c'', ''echo a'']), m')"
proof -
  let ?m = "sample_machine\<lparr>bt_entries := [menu_of \<lparr>be_title = ''x'', be_type = entry_type_init, be_exe_path = ''/bin/sh'',
        be_cmdline = [], be_params = quote_words [''-c'', ''echo a'']\<rparr>]\<rparr>"
  have "\<exists>m'. do_entry (\<lambda>_. None) (\<lambda>_. None) (sample_input []) 0 ?m =
      Some (Ended (Executed ''/bin/sh'' (''/bin/sh'' # take 14 [''-c'', ''echo a''])), m')"
    by (rule init_entry_runs, simp add: rd_def menu_of_def) (simp_all add: sample_input_def quote_word_def quote_char_def)
  then show ?thesis by simp
qed



end
