(* ===== verification/Font.thy ===== *)
theory Font
  imports Isdw
begin

text \<open>
  libfbpads/font.c: a font in the tinyfont format, read from the bytes that the linker put into
  the program. A pointer into these bytes is an offset, a read outside them is undefined.
  The comment above \<open>struct tinyfont\<close> describes the format: a header of 24 bytes, the codes
  of the glyphs, their bitmaps. \<open>glyph_of\<close> is the map from codes to bitmaps that such a file
  stands for, and \<open>font_bitmap\<close> implements it, by binary search, when the codes are in order.
\<close>

section \<open>The code\<close>

record font =
  fn_rows :: int
  fn_cols :: int
  fn_n :: int
  fn_glyphs :: int
  fn_bits :: int
  fn_file :: "8 word list"

definition int_at :: "8 word list \<Rightarrow> int \<Rightarrow> int option" where
  "int_at bs p = do { b \<leftarrow> mem_get bs p 4; Some (sint (of_le_bytes b)) }"

text \<open>
  \<open>got\<close> tells whether \<open>malloc\<close> returns a block; its result is used without a test. The pointers
  into \<open>data\<close> are never null, so the function never returns a null pointer.
\<close>

definition font_open_static :: "bool \<Rightarrow> 8 word list \<Rightarrow> font option" where
  "font_open_static got data = do {
     n \<leftarrow> int_at data 12;
     rows \<leftarrow> int_at data 16;
     cols \<leftarrow> int_at data 20;
     _ \<leftarrow> (if got then Some () else None);
     let glyphs = 24;
     let bits = 24 + n * 4;
     part \<leftarrow> c_int (n * rows);
     _ \<leftarrow> c_int (part * cols);
     Some \<lparr>fn_rows = rows, fn_cols = cols, fn_n = n, fn_glyphs = glyphs, fn_bits = bits, fn_file = data\<rparr> }"

definition glyph_at :: "font \<Rightarrow> int \<Rightarrow> int option" where
  "glyph_at f i = int_at (fn_file f) (fn_glyphs f + i * 4)"

lemma half_bounds:
  assumes "l < (h::int)"
  shows "l \<le> (l + h) div 2" "(l + h) div 2 < h"
  using assms by simp_all

text \<open>The bounds of the search are never negative, so the division of C is \<^term>\<open>(div)\<close>.\<close>

function glyph_loop :: "font \<Rightarrow> int \<Rightarrow> int \<Rightarrow> int \<Rightarrow> int option" where
  "glyph_loop f c l h =
     (if l < h then do {
        let m = (l + h) div 2;
        g \<leftarrow> glyph_at f m;
        (if g = c then Some m
         else if c < g then glyph_loop f c l m
         else glyph_loop f c (m + 1) h) }
      else Some (- 1))"
  by pat_completeness auto

termination
  by (relation "measure (\<lambda>(f, c, l, h). nat (h - l))") (use half_bounds in \<open>force+\<close>)

declare glyph_loop.simps [simp del]

definition find_glyph :: "font \<Rightarrow> int \<Rightarrow> int option" where
  "find_glyph f c = glyph_loop f c 0 (fn_n f)"

text \<open>The bitmap of a character is copied to \<open>dst\<close>; the result 1 says that there is none.\<close>

definition font_bitmap :: "font \<Rightarrow> 8 word list \<Rightarrow> int \<Rightarrow> (8 word list \<times> int) option" where
  "font_bitmap f dst c = do {
     i \<leftarrow> find_glyph f c;
     let len = fn_rows f * fn_cols f;
     (if i < 0 then Some (dst, 1)
      else do {
        b \<leftarrow> mem_get (fn_file f) (fn_bits f + i * len) len;
        d \<leftarrow> mem_put dst 0 b;
        Some (d, 0) }) }"

section \<open>What the file stands for\<close>

definition code_at :: "font \<Rightarrow> int \<Rightarrow> int" where
  "code_at f i = sint (of_le_bytes (take 4 (drop (nat (fn_glyphs f + i * 4)) (fn_file f))))"

definition bits_at :: "font \<Rightarrow> int \<Rightarrow> 8 word list" where
  "bits_at f i =
     take (nat (fn_rows f * fn_cols f)) (drop (nat (fn_bits f + i * (fn_rows f * fn_cols f))) (fn_file f))"

definition glyph_of :: "font \<Rightarrow> int \<Rightarrow> 8 word list option" where
  "glyph_of f c = map_of (map (\<lambda>i. (code_at f i, bits_at f i)) [0..fn_n f - 1]) c"

text \<open>The tables lie in the file, and the codes are in order.\<close>

definition font_ok :: "font \<Rightarrow> bool" where
  "font_ok f \<longleftrightarrow>
     0 \<le> fn_n f \<and> 0 \<le> fn_rows f \<and> 0 \<le> fn_cols f \<and> 0 \<le> fn_glyphs f \<and> 0 \<le> fn_bits f \<and>
     fn_glyphs f + fn_n f * 4 \<le> int (length (fn_file f)) \<and>
     fn_bits f + fn_n f * (fn_rows f * fn_cols f) \<le> int (length (fn_file f)) \<and>
     sorted_wrt (<) (map (code_at f) [0..fn_n f - 1])"

lemma glyph_at_code:
  assumes "font_ok f" "0 \<le> i" "i < fn_n f"
  shows "glyph_at f i = Some (code_at f i)"
proof -
  have "i * 4 + 4 \<le> fn_n f * 4" using assms by simp
  with assms show ?thesis by (simp add: glyph_at_def int_at_def mem_get_def code_at_def font_ok_def)
qed

lemma codes_less:
  assumes "font_ok f" "0 \<le> i" "i < j" "j < fn_n f"
  shows "code_at f i < code_at f j"
proof -
  have "sorted_wrt (<) (map (code_at f) [0..fn_n f - 1])" using assms(1) by (simp add: font_ok_def)
  from sorted_wrt_nth_less [OF this, of "nat i" "nat j"] assms show ?thesis by simp
qed

lemma codes_inj:
  assumes "font_ok f" "0 \<le> i" "i < fn_n f" "0 \<le> j" "j < fn_n f" "code_at f i = code_at f j"
  shows "i = j"
  using codes_less [OF assms(1), of i j] codes_less [OF assms(1), of j i] assms by linarith

lemma glyph_of_code:
  assumes "font_ok f" "0 \<le> i" "i < fn_n f"
  shows "glyph_of f (code_at f i) = Some (bits_at f i)"
proof -
  have "inj_on (code_at f) (set [0..fn_n f - 1])"
    by (rule inj_onI) (use codes_inj [OF assms(1)] in auto)
  then have "distinct (map fst (map (\<lambda>i. (code_at f i, bits_at f i)) [0..fn_n f - 1]))"
    by (simp add: distinct_map comp_def)
  moreover have "(code_at f i, bits_at f i) \<in> set (map (\<lambda>i. (code_at f i, bits_at f i)) [0..fn_n f - 1])"
    using assms by auto
  ultimately show ?thesis unfolding glyph_of_def by (rule map_of_is_SomeI)
qed

lemma glyph_of_none: "(\<And>i. 0 \<le> i \<Longrightarrow> i < fn_n f \<Longrightarrow> code_at f i \<noteq> c) \<Longrightarrow> glyph_of f c = None"
  by (fastforce simp: glyph_of_def map_of_eq_None_iff)

section \<open>The search is correct\<close>

lemma glyph_loop_correct:
  assumes "font_ok f" "0 \<le> l" "l \<le> h" "h \<le> fn_n f"
    and "\<And>i. 0 \<le> i \<Longrightarrow> i < l \<Longrightarrow> code_at f i < c"
    and "\<And>i. h \<le> i \<Longrightarrow> i < fn_n f \<Longrightarrow> c < code_at f i"
  shows "\<exists>i. glyph_loop f c l h = Some i \<and>
    (if i < 0 then \<forall>j. 0 \<le> j \<and> j < fn_n f \<longrightarrow> code_at f j \<noteq> c else i < fn_n f \<and> code_at f i = c)"
  using assms(2-)
proof (induction "nat (h - l)" arbitrary: l h rule: less_induct)
  case less
  show ?case
  proof (cases "l < h")
    case False
    have "code_at f j \<noteq> c" if "0 \<le> j" "j < fn_n f" for j
      using less.prems(4,5) [of j] that False by linarith
    with False show ?thesis by (auto simp: glyph_loop.simps)
  next
    case True
    define m where "m = (l + h) div 2"
    have m: "l \<le> m" "m < h" using half_bounds [OF True] by (simp_all add: m_def)
    have at: "glyph_at f m = Some (code_at f m)" using m less.prems by (intro glyph_at_code assms) auto
    have step: "glyph_loop f c l h = (if code_at f m = c then Some m else if c < code_at f m
        then glyph_loop f c l m else glyph_loop f c (m + 1) h)"
      using True at by (subst glyph_loop.simps) (simp add: m_def [symmetric] Let_def)
    show ?thesis
    proof (cases "code_at f m" c rule: linorder_cases)
      case equal
      with step m less.prems show ?thesis by auto
    next
      case greater
      have "c < code_at f i" if "m \<le> i" "i < fn_n f" for i
        using greater codes_less [OF assms(1), of m i] that m less.prems by (cases "i = m") auto
      then have "\<exists>i. glyph_loop f c l m = Some i \<and>
          (if i < 0 then \<forall>j. 0 \<le> j \<and> j < fn_n f \<longrightarrow> code_at f j \<noteq> c else i < fn_n f \<and> code_at f i = c)"
        using m less.prems by (intro less.hyps) auto
      with step greater show ?thesis by auto
    next
      case lower: less
      have "code_at f i < c" if "0 \<le> i" "i < m + 1" for i
        using lower codes_less [OF assms(1), of i m] that m less.prems by (cases "i = m") auto
      then have "\<exists>i. glyph_loop f c (m + 1) h = Some i \<and>
          (if i < 0 then \<forall>j. 0 \<le> j \<and> j < fn_n f \<longrightarrow> code_at f j \<noteq> c else i < fn_n f \<and> code_at f i = c)"
        using m less.prems by (intro less.hyps) auto
      with step lower show ?thesis by auto
    qed
  qed
qed

lemma length_bits_at:
  assumes "font_ok f" "0 \<le> i" "i < fn_n f"
  shows "int (length (bits_at f i)) = fn_rows f * fn_cols f"
    "mem_get (fn_file f) (fn_bits f + i * (fn_rows f * fn_cols f)) (fn_rows f * fn_cols f) = Some (bits_at f i)"
proof -
  let ?n = "fn_rows f * fn_cols f"
  have n: "0 \<le> ?n" using assms by (simp add: font_ok_def)
  have "(i + 1) * ?n \<le> fn_n f * ?n" using assms n by (intro mult_right_mono) auto
  then have "i * ?n + ?n \<le> fn_n f * ?n" by (simp add: algebra_simps)
  then have up: "fn_bits f + i * ?n + ?n \<le> int (length (fn_file f))" using assms by (simp add: font_ok_def)
  have lo: "0 \<le> fn_bits f + i * ?n" using assms n by (simp add: font_ok_def)
  from up lo n show "int (length (bits_at f i)) = ?n" by (simp add: bits_at_def nat_le_iff)
  from up lo n show "mem_get (fn_file f) (fn_bits f + i * ?n) ?n = Some (bits_at f i)"
    by (simp add: mem_get_def bits_at_def)
qed

lemma glyph_of_length:
  assumes "font_ok f" "glyph_of f c = Some b"
  shows "int (length b) = fn_rows f * fn_cols f"
proof -
  from map_of_SomeD [OF assms(2) [unfolded glyph_of_def]]
  obtain i where "0 \<le> i" "i < fn_n f" "b = bits_at f i" by auto
  with length_bits_at(1) [OF assms(1)] show ?thesis by simp
qed

text \<open>\<open>font_bitmap\<close> implements the map.\<close>

lemma font_bitmap_correct:
  assumes ok: "font_ok f" and room: "fn_rows f * fn_cols f \<le> int (length dst)"
  shows "font_bitmap f dst c =
    Some (case glyph_of f c of None \<Rightarrow> (dst, 1) | Some b \<Rightarrow> (b @ drop (length b) dst, 0))"
proof -
  from glyph_loop_correct [OF ok, of 0 "fn_n f" c] ok
  obtain i where i: "find_glyph f c = Some i"
    "if i < 0 then \<forall>j. 0 \<le> j \<and> j < fn_n f \<longrightarrow> code_at f j \<noteq> c else i < fn_n f \<and> code_at f i = c"
    by (auto simp: find_glyph_def font_ok_def)
  show ?thesis
  proof (cases "i < 0")
    case True
    with i have "glyph_of f c = None" by (intro glyph_of_none) auto
    with i True show ?thesis by (simp add: font_bitmap_def)
  next
    case False
    then have r: "0 \<le> i" "i < fn_n f" "glyph_of f c = Some (bits_at f i)"
      using i glyph_of_code [OF ok, of i] by auto
    from length_bits_at [OF ok r(1,2)] room r i False show ?thesis
      by (simp add: font_bitmap_def mem_put_def Let_def)
  qed
qed


end
