(* ===== verification/Fb_Draw.thy ===== *)
theory Fb_Draw
  imports Prelude
begin

text \<open>
  libfbpads/draw.c: the frame buffer device, its colours, and the region of the screen that the
  program draws in. The mapped memory is a list of bytes, a pointer into it is an offset, and
  the answers of the system (\<open>open\<close>, the two queries, \<open>mmap\<close>) are arguments of \<open>fb_init\<close>.
  Unsigned arithmetic wraps at 32 bits (\<open>u32\<close>).

  \<open>fb_ok\<close> says that the region lies in the memory, \<open>paint\<close> is the picture that one expects of an
  operation that draws a rectangle, pixel by pixel.
\<close>

section \<open>The device\<close>

text \<open>The parts of the structures of linux/fb.h that the code uses.\<close>

record fb_bits =
  bf_offset :: int
  bf_length :: int

record fb_var =
  vi_xres :: int
  vi_yres :: int
  vi_yres_virtual :: int
  vi_xoffset :: int
  vi_yoffset :: int
  vi_bits_per_pixel :: int
  vi_red :: fb_bits
  vi_green :: fb_bits
  vi_blue :: fb_bits

record fb_fix =
  fi_line_length :: int
  fi_visual :: int

definition FB_VISUAL_TRUECOLOR :: int where "FB_VISUAL_TRUECOLOR = 2"
definition NLEVELS :: int where "NLEVELS = 256"
definition FBDEV :: string where "FBDEV = ''/dev/fb0''"

text \<open>A colour map: one list for each channel, \<^term>\<open>None\<close> for an entry that was never set.\<close>

record cmap =
  cm_red :: "int option list"
  cm_green :: "int option list"
  cm_blue :: "int option list"

record fbuf =
  fb_vinfo :: fb_var
  fb_finfo :: fb_fix
  fb_name :: string
  fb_file :: int
  fb_map :: "8 word list"
  fb_pan :: int
  fb_bpp :: int
  fb_nr :: int
  fb_ng :: int
  fb_nb :: int
  fb_rl :: int
  fb_rr :: int
  fb_gl :: int
  fb_gr :: int
  fb_bl :: int
  fb_br :: int
  fb_xres :: int
  fb_yres :: int
  fb_xoff :: int
  fb_yoff :: int
  fb_saved :: cmap
  fb_device :: cmap

definition u32 :: "int \<Rightarrow> int" where
  "u32 x = take_bit 32 x"

definition i32 :: "int \<Rightarrow> int" where
  "i32 x = signed_take_bit 31 x"

definition fb_len :: "fbuf \<Rightarrow> int" where
  "fb_len f = i32 (u32 (fi_line_length (fb_finfo f) * vi_yres_virtual (fb_vinfo f)))"

section \<open>Colour maps\<close>

definition cmap_len :: "fbuf \<Rightarrow> int" where
  "cmap_len f = max (fb_nr f) (max (fb_ng f) (fb_nb f))"

text \<open>
  The kernel copies the first \<open>len\<close> entries of the arrays of the program, which have
  \<open>NLEVELS\<close> elements, to the device or back. It refuses a longer map than the device has, and
  the code does not look at the answer.
\<close>

definition copy_levels :: "int \<Rightarrow> 'a list \<Rightarrow> 'a list \<Rightarrow> 'a list" where
  "copy_levels n from into =
     (if n \<le> int (length from) \<and> n \<le> int (length into) then take (nat n) from @ drop (nat n) into else into)"

definition copy_cmap :: "int \<Rightarrow> cmap \<Rightarrow> cmap \<Rightarrow> cmap" where
  "copy_cmap n from into =
     \<lparr>cm_red = copy_levels n (cm_red from) (cm_red into),
      cm_green = copy_levels n (cm_green from) (cm_green into),
      cm_blue = copy_levels n (cm_blue from) (cm_blue into)\<rparr>"

definition fb_cmap_save :: "bool \<Rightarrow> fbuf \<Rightarrow> fbuf option" where
  "fb_cmap_save save f =
     (if fi_visual (fb_finfo f) = FB_VISUAL_TRUECOLOR then Some f
      else if cmap_len f \<le> NLEVELS then
        Some (if save then f\<lparr>fb_saved := copy_cmap (cmap_len f) (fb_device f) (fb_saved f)\<rparr>
              else f\<lparr>fb_device := copy_cmap (cmap_len f) (fb_saved f) (fb_device f)\<rparr>)
      else None)"

definition cmap_ramp :: "int \<Rightarrow> int option list option" where
  "cmap_ramp n = for_range 0 n
     (\<lambda>i a. do { q \<leftarrow> c_div 65535 (n - 1); wr a i (Some ((q * i) mod 65536)) })
     (replicate (nat NLEVELS) None)"

definition fb_cmap :: "fbuf \<Rightarrow> fbuf option" where
  "fb_cmap f =
     (if fi_visual (fb_finfo f) = FB_VISUAL_TRUECOLOR then Some f
      else do {
        red \<leftarrow> cmap_ramp (fb_nr f);
        green \<leftarrow> cmap_ramp (fb_ng f);
        blue \<leftarrow> cmap_ramp (fb_nb f);
        Some (f\<lparr>fb_device :=
          copy_cmap (cmap_len f) \<lparr>cm_red = red, cm_green = green, cm_blue = blue\<rparr> (fb_device f)\<rparr>) })"

definition fb_mode :: "fbuf \<Rightarrow> int" where
  "fb_mode f = u32 (or (or (or (or (or (or
      (push_bit 22 (of_bool (fb_rl f < fb_gl f)))
      (push_bit 21 (of_bool (fb_rl f < fb_bl f))))
      (push_bit 20 (of_bool (fb_gl f < fb_bl f))))
      (push_bit 16 (fb_bpp f)))
      (push_bit 8 (bf_length (vi_red (fb_vinfo f)))))
      (push_bit 4 (bf_length (vi_green (fb_vinfo f)))))
      (bf_length (vi_blue (fb_vinfo f))))"

definition FBM_BPP :: "int \<Rightarrow> int" where
  "FBM_BPP m = take_bit 4 (drop_bit 16 m)"

text \<open>A shift by a count outside the word is undefined.\<close>

definition c_shl :: "int \<Rightarrow> int \<Rightarrow> int option" where
  "c_shl x n = (if 0 \<le> n \<and> n < 32 then Some (shl x (nat n)) else None)"

definition c_shr :: "int \<Rightarrow> int \<Rightarrow> int option" where
  "c_shr x n = (if 0 \<le> n \<and> n < 32 then Some (drop_bit (nat n) x) else None)"

definition init_colors :: "fbuf \<Rightarrow> fbuf option" where
  "init_colors f = (let v = fb_vinfo f in do {
     nr \<leftarrow> c_shl 1 (bf_length (vi_red v));
     ng \<leftarrow> c_shl 1 (bf_length (vi_blue v));
     nb \<leftarrow> c_shl 1 (bf_length (vi_green v));
     Some (f\<lparr>fb_nr := nr, fb_ng := ng, fb_nb := nb,
       fb_rr := 8 - bf_length (vi_red v), fb_rl := bf_offset (vi_red v),
       fb_gr := 8 - bf_length (vi_green v), fb_gl := bf_offset (vi_green v),
       fb_br := 8 - bf_length (vi_blue v), fb_bl := bf_offset (vi_blue v)\<rparr>) })"

definition fb_val :: "fbuf \<Rightarrow> int \<Rightarrow> int \<Rightarrow> int \<Rightarrow> 32 word option" where
  "fb_val f r g b = do {
     r1 \<leftarrow> c_shr r (fb_rr f);
     r2 \<leftarrow> c_shl r1 (fb_rl f);
     g1 \<leftarrow> c_shr g (fb_gr f);
     g2 \<leftarrow> c_shl g1 (fb_gl f);
     b1 \<leftarrow> c_shr b (fb_br f);
     b2 \<leftarrow> c_shl b1 (fb_bl f);
     Some (word_of_int (or (or r2 g2) b2)) }"

section \<open>The region\<close>

definition fb_setypan :: "int \<Rightarrow> fbuf \<Rightarrow> fbuf" where
  "fb_setypan iy f =
     f\<lparr>fb_pan := u32 (u32 (iy * fi_line_length (fb_finfo f)) * vi_yres (fb_vinfo f))\<rparr>"

definition fb_rows :: "fbuf \<Rightarrow> int" where
  "fb_rows f = (if fb_yres f \<noteq> 0 then fb_yres f else vi_yres (fb_vinfo f))"

definition fb_cols :: "fbuf \<Rightarrow> int" where
  "fb_cols f = (if fb_xres f \<noteq> 0 then fb_xres f else vi_xres (fb_vinfo f))"

definition fb_mem :: "fbuf \<Rightarrow> int \<Rightarrow> int" where
  "fb_mem f r = fb_pan f +
     u32 (u32 (r + vi_yoffset (fb_vinfo f) + fb_yoff f) * fi_line_length (fb_finfo f)) +
     u32 (u32 (vi_xoffset (fb_vinfo f) + fb_xoff f) * fb_bpp f)"

definition fb_write :: "int \<Rightarrow> 8 word list \<Rightarrow> fbuf \<Rightarrow> fbuf option" where
  "fb_write p bs f = do { m \<leftarrow> mem_put (fb_map f) p bs; Some (f\<lparr>fb_map := m\<rparr>) }"

section \<open>Opening the device\<close>

text \<open>
  \<open>%d\<close> of \<open>sscanf\<close>: blanks, a sign, digits; a number outside \<open>int\<close> is undefined. The conversions
  stop at the first one that fails, and the variables of the others keep their values.
\<close>

definition scan_blank :: "char \<Rightarrow> bool" where
  "scan_blank c \<longleftrightarrow> c = CHR '' '' \<or> 9 \<le> code c \<and> code c \<le> 13"

definition digits_value :: "string \<Rightarrow> int" where
  "digits_value ds = foldl (\<lambda>v c. v * 10 + (code c - 48)) 0 ds"

definition scan_digits :: "string \<Rightarrow> (int \<times> string) option" where
  "scan_digits s =
     (if takeWhile is_digit s = [] then None
      else Some (digits_value (takeWhile is_digit s), dropWhile is_digit s))"

definition scan_int :: "string \<Rightarrow> (int \<times> string) option" where
  "scan_int s =
     (case dropWhile scan_blank s of
        c # r \<Rightarrow>
          if c = CHR ''-'' then map_option (\<lambda>(v, r). (- v, r)) (scan_digits r)
          else if c = CHR ''+'' then scan_digits r
          else scan_digits (c # r)
      | [] \<Rightarrow> None)"

definition scan_into :: "(int \<Rightarrow> fbuf \<Rightarrow> fbuf) \<Rightarrow> string \<Rightarrow> (fbuf \<Rightarrow> string \<Rightarrow> fbuf option) \<Rightarrow> fbuf \<Rightarrow> fbuf option" where
  "scan_into set_to s further f =
     (case scan_int s of
        None \<Rightarrow> Some f
      | Some (v, r) \<Rightarrow> do { x \<leftarrow> c_int v; further (set_to x f) r })"

definition scan_geom :: "string \<Rightarrow> fbuf \<Rightarrow> fbuf option" where
  "scan_geom s = scan_into (\<lambda>x. fb_xres_update (\<lambda>_. x)) s (\<lambda>f r.
     (case r of
        c # r1 \<Rightarrow> if c = CHR ''x'' then
          scan_into (\<lambda>x. fb_yres_update (\<lambda>_. x)) r1 (\<lambda>f r2.
            scan_into (\<lambda>x. fb_xoff_update (\<lambda>_. x)) r2 (\<lambda>f r3.
              scan_into (\<lambda>x. fb_yoff_update (\<lambda>_. x)) r3 (\<lambda>f _. Some f) f) f) f
          else Some f
      | [] \<Rightarrow> Some f))"

record fb_answers =
  an_open :: int
  an_var :: "fb_var option"
  an_fix :: "fb_fix option"
  an_map :: "8 word list option"

text \<open>
  The part of \<open>dev\<close> before the first colon is the path, what is behind it is the region. On the
  error paths the values read so far stay in the variables.
\<close>

definition fb_open :: "string option \<Rightarrow> fbuf \<Rightarrow> fbuf option" where
  "fb_open dev f = do {
     f1 \<leftarrow> (case dev of
              None \<Rightarrow> Some f
            | Some d \<Rightarrow> if CHR '':'' \<in> set d then scan_geom (drop 1 (dropWhile (\<lambda>c. c \<noteq> CHR '':'') d)) f else Some f);
     let path = (case dev of None \<Rightarrow> FBDEV | Some d \<Rightarrow> takeWhile (\<lambda>c. c \<noteq> CHR '':'') d);
     Some (f1\<lparr>fb_name := take 1023 path\<rparr>) }"

definition fb_setup :: "fbuf \<Rightarrow> fbuf option" where
  "fb_setup f = do {
     f1 \<leftarrow> init_colors (f\<lparr>fb_pan := 0\<rparr>);
     f2 \<leftarrow> fb_cmap_save True f1;
     fb_cmap f2 }"

definition fb_init :: "fb_answers \<Rightarrow> string option \<Rightarrow> fbuf \<Rightarrow> (fbuf \<times> int) option" where
  "fb_init an dev f = do {
     f1 \<leftarrow> fb_open dev f;
     let f2 = f1\<lparr>fb_file := an_open an\<rparr>;
     (if an_open an < 0 then Some (f2, 1)
      else case an_var an of
        None \<Rightarrow> Some (f2, 1)
      | Some v \<Rightarrow>
          let f3 = f2\<lparr>fb_vinfo := v\<rparr>
          in case an_fix an of
               None \<Rightarrow> Some (f3, 1)
             | Some x \<Rightarrow>
                 let f4 = f3\<lparr>fb_finfo := x, fb_bpp := drop_bit 3 (u32 (vi_bits_per_pixel v + 7))\<rparr>
                 in case an_map an of
                      None \<Rightarrow> Some (f4, 1)
                    | Some m \<Rightarrow> do { f5 \<leftarrow> fb_setup (f4\<lparr>fb_map := m\<rparr>); Some (f5, 0) }) }"

definition fb_free :: "fbuf \<Rightarrow> fbuf option" where
  "fb_free f = do { f1 \<leftarrow> fb_cmap_save False f; Some (f1\<lparr>fb_map := []\<rparr>) }"

section \<open>Pixels\<close>

definition fb_pitch :: "fbuf \<Rightarrow> int" where
  "fb_pitch f = fi_line_length (fb_finfo f)"

definition fb_base :: "fbuf \<Rightarrow> int" where
  "fb_base f = fb_pan f + (vi_yoffset (fb_vinfo f) + fb_yoff f) * fb_pitch f +
     (vi_xoffset (fb_vinfo f) + fb_xoff f) * fb_bpp f"

text \<open>The region lies in the lines of the mapped memory.\<close>

definition fb_ok :: "fbuf \<Rightarrow> bool" where
  "fb_ok f \<longleftrightarrow>
     0 < fb_bpp f \<and> fb_bpp f \<le> 4 \<and> 0 < fb_pitch f \<and> 0 \<le> fb_pan f \<and> 0 \<le> fb_rows f \<and> 0 \<le> fb_cols f \<and>
     0 \<le> vi_xoffset (fb_vinfo f) + fb_xoff f \<and> 0 \<le> vi_yoffset (fb_vinfo f) + fb_yoff f \<and>
     (vi_xoffset (fb_vinfo f) + fb_xoff f + fb_cols f) * fb_bpp f \<le> fb_pitch f \<and>
     fb_pan f + (vi_yoffset (fb_vinfo f) + fb_yoff f + fb_rows f) * fb_pitch f \<le> int (length (fb_map f)) \<and>
     int (length (fb_map f)) < 2 ^ 31"

text \<open>The row, the column and the byte of a pixel that an offset belongs to.\<close>

definition row_of :: "fbuf \<Rightarrow> int \<Rightarrow> int" where
  "row_of f p = (p - fb_base f) div fb_pitch f"

definition col_of :: "fbuf \<Rightarrow> int \<Rightarrow> int" where
  "col_of f p = (p - fb_base f) mod fb_pitch f div fb_bpp f"

definition byte_of :: "fbuf \<Rightarrow> int \<Rightarrow> int" where
  "byte_of f p = (p - fb_base f) mod fb_pitch f mod fb_bpp f"

text \<open>
  A picture says for each pixel the bytes that it gets, or that it stays. \<open>box\<close> is a picture of a
  rectangle, \<open>over\<close> lays a picture over another.
\<close>

type_synonym picture = "int \<Rightarrow> int \<Rightarrow> 8 word list option"

definition paint :: "picture \<Rightarrow> fbuf \<Rightarrow> fbuf" where
  "paint img f = f\<lparr>fb_map := map (\<lambda>p.
     case img (row_of f (int p)) (col_of f (int p)) of
       None \<Rightarrow> fb_map f ! p
     | Some b \<Rightarrow> b ! nat (byte_of f (int p))) [0..<length (fb_map f)]\<rparr>"

definition box :: "int \<Rightarrow> int \<Rightarrow> int \<Rightarrow> int \<Rightarrow> (int \<Rightarrow> int \<Rightarrow> 8 word list) \<Rightarrow> picture" where
  "box sr er sc ec g y x = (if sr \<le> y \<and> y < er \<and> sc \<le> x \<and> x < ec then Some (g y x) else None)"

definition over :: "picture \<Rightarrow> picture \<Rightarrow> picture" where
  "over upper lower y x = (case upper y x of None \<Rightarrow> lower y x | Some b \<Rightarrow> Some b)"

definition pixel :: "fbuf \<Rightarrow> int \<Rightarrow> int \<Rightarrow> 8 word list" where
  "pixel f y x = take (nat (fb_bpp f)) (drop (nat (fb_base f + y * fb_pitch f + x * fb_bpp f)) (fb_map f))"

lemma paint_map: "length (fb_map (paint img f)) = length (fb_map f)"
  by (simp add: paint_def)

lemma paint_nth:
  assumes "i < length (fb_map f)"
  shows "fb_map (paint img f) ! i = (case img (row_of f (int i)) (col_of f (int i)) of
    None \<Rightarrow> fb_map f ! i | Some b \<Rightarrow> b ! nat (byte_of f (int i)))"
  using assms by (simp add: paint_def split: option.split)

lemma paint_keeps [simp]:
  "fb_vinfo (paint img f) = fb_vinfo f" "fb_finfo (paint img f) = fb_finfo f" "fb_pan (paint img f) = fb_pan f"
  "fb_bpp (paint img f) = fb_bpp f" "fb_base (paint img f) = fb_base f" "fb_pitch (paint img f) = fb_pitch f"
  "fb_rows (paint img f) = fb_rows f" "fb_cols (paint img f) = fb_cols f" "fb_mode (paint img f) = fb_mode f"
  "fb_val (paint img f) = fb_val f" "fb_mem (paint img f) = fb_mem f" "row_of (paint img f) = row_of f"
  "col_of (paint img f) = col_of f" "byte_of (paint img f) = byte_of f"
  by (auto simp: paint_def fb_base_def fb_pitch_def fb_rows_def fb_cols_def fb_mode_def fb_val_def fb_mem_def
      row_of_def col_of_def byte_of_def fun_eq_iff)

lemma paint_ok [simp]: "fb_ok (paint img f) = fb_ok f"
  by (simp add: fb_ok_def paint_map) (simp add: paint_def)

lemma paint_paint: "paint upper (paint lower f) = paint (over upper lower) f"
  by (auto simp: paint_def over_def row_of_def col_of_def byte_of_def fb_base_def fb_pitch_def
      intro!: map_cong split: option.splits)

lemma paint_nothing: "paint (\<lambda>_ _. None) f = f"
  by (simp add: paint_def map_nth)

lemma box_empty: "er \<le> sr \<Longrightarrow> paint (box sr er sc ec g) f = f"
proof -
  assume "er \<le> sr"
  then have "box sr er sc ec g = (\<lambda>_ _. None)" by (auto simp: box_def fun_eq_iff)
  then show ?thesis by (simp add: paint_nothing)
qed

lemma u32_small: "0 \<le> x \<Longrightarrow> x < 2 ^ 31 \<Longrightarrow> u32 x = x"
  by (simp add: u32_def take_bit_int_eq_self)

lemma le_times: "0 \<le> a \<Longrightarrow> 0 < b \<Longrightarrow> a \<le> a * (b::int)"
  by (cases "a = 0") (simp_all add: mult_le_cancel_left1)

lemma fb_okD:
  assumes "fb_ok f"
  shows "0 < fb_bpp f" "fb_bpp f \<le> 4" "0 < fb_pitch f" "0 \<le> fb_base f"
    "fb_cols f * fb_bpp f \<le> fb_pitch f"
    "fb_base f + (fb_rows f - 1) * fb_pitch f + fb_cols f * fb_bpp f \<le> int (length (fb_map f))"
proof -
  define A where "A = vi_yoffset (fb_vinfo f) + fb_yoff f"
  define C where "C = vi_xoffset (fb_vinfo f) + fb_xoff f"
  have f: "0 < fb_bpp f" "fb_bpp f \<le> 4" "0 < fb_pitch f" "0 \<le> fb_pan f" "0 \<le> A" "0 \<le> C"
      "C * fb_bpp f + fb_cols f * fb_bpp f \<le> fb_pitch f"
      "fb_pan f + (A * fb_pitch f + fb_rows f * fb_pitch f) \<le> int (length (fb_map f))"
    using assms by (auto simp: fb_ok_def A_def C_def distrib_right)
  have base: "fb_base f = fb_pan f + A * fb_pitch f + C * fb_bpp f" by (simp add: fb_base_def A_def C_def)
  have pos: "0 \<le> A * fb_pitch f" "0 \<le> C * fb_bpp f" using f by auto
  show "0 < fb_bpp f" "fb_bpp f \<le> 4" "0 < fb_pitch f" by fact+
  show "0 \<le> fb_base f" using base pos f by linarith
  show "fb_cols f * fb_bpp f \<le> fb_pitch f" using pos f by linarith
  show "fb_base f + (fb_rows f - 1) * fb_pitch f + fb_cols f * fb_bpp f \<le> int (length (fb_map f))"
    using base f by (simp only: left_diff_distrib mult_1)
qed

lemma fb_mem_eq:
  assumes ok: "fb_ok f" and y: "0 \<le> y" "y < fb_rows f"
  shows "fb_mem f y = fb_base f + y * fb_pitch f"
proof -
  define A where "A = vi_yoffset (fb_vinfo f) + fb_yoff f"
  define C where "C = vi_xoffset (fb_vinfo f) + fb_xoff f"
  define L where "L = fb_pitch f"
  have f: "0 < fb_bpp f" "0 < L" "0 \<le> A" "0 \<le> C" "0 \<le> fb_pan f" "0 \<le> fb_cols f"
      "(C + fb_cols f) * fb_bpp f \<le> L" "fb_pan f + (A + fb_rows f) * L < 2 ^ 31"
    using ok by (auto simp: fb_ok_def A_def C_def L_def)
  have up: "(y + A + 1) * L \<le> (A + fb_rows f) * L" using y f by (intro mult_right_mono) auto
  have row: "0 \<le> (y + A) * L" "(y + A) * L + L < 2 ^ 31" using up f y by (auto simp: algebra_simps)
  have idx: "y + A \<le> (y + A) * L" using f y by (intro le_times) auto
  have "0 \<le> fb_cols f * fb_bpp f" using f by simp
  moreover have "0 \<le> C * fb_bpp f" using f by simp
  ultimately have col: "0 \<le> C * fb_bpp f" "C * fb_bpp f \<le> L" using f(7) by (simp_all only: distrib_right)
  have "C \<le> C * fb_bpp f" using f by (intro le_times) auto
  with row idx col y f have "u32 (u32 (y + A) * L) = (y + A) * L" "u32 (u32 C * fb_bpp f) = C * fb_bpp f"
    by (simp_all add: u32_small)
  then show ?thesis
    by (simp add: fb_mem_def fb_base_def A_def C_def L_def fb_pitch_def algebra_simps)
qed

lemma span_iff:
  assumes "0 < L" "0 < B" "0 \<le> sc" "ec * B \<le> (L::int)"
  shows "y * L + sc * B \<le> q \<and> q < y * L + ec * B \<longleftrightarrow> q div L = y \<and> sc \<le> q mod L div B \<and> q mod L div B < ec"
    (is "?in \<longleftrightarrow> ?at")
proof -
  have col: "sc \<le> w div B \<longleftrightarrow> sc * B \<le> w" "w div B < ec \<longleftrightarrow> w < ec * B" for w
    using div_less_iff [OF assms(2)] by simp_all
  show ?thesis
  proof
    assume at: ?in
    moreover have "0 \<le> sc * B" using assms by simp
    ultimately have "y * L \<le> q" "q < y * L + L" using assms by linarith+
    from div_is [OF this] at show ?at by (simp add: col)
  next
    assume ?at
    moreover have "q = q div L * L + q mod L" by simp
    ultimately show ?in by (auto simp: col)
  qed
qed

text \<open>One row of pixels, written by one copy.\<close>

definition row_pixel :: "int \<Rightarrow> int \<Rightarrow> 8 word list \<Rightarrow> int \<Rightarrow> int \<Rightarrow> 8 word list" where
  "row_pixel bpp sc bs y x = take (nat bpp) (drop (nat ((x - sc) * bpp)) bs)"

lemma fb_write_row:
  assumes ok: "fb_ok f" and y: "0 \<le> y" "y < fb_rows f" and x: "0 \<le> sc" "sc \<le> ec" "ec \<le> fb_cols f"
    and bs: "int (length bs) = (ec - sc) * fb_bpp f"
  shows "fb_write (fb_mem f y + sc * fb_bpp f) bs f = Some (paint (box y (y + 1) sc ec (row_pixel (fb_bpp f) sc bs)) f)"
proof -
  define B where "B = fb_bpp f"
  define L where "L = fb_pitch f"
  define p0 where "p0 = fb_base f + y * L + sc * B"
  have f: "0 < B" "0 < L" "0 \<le> fb_base f" "fb_cols f * B \<le> L"
      "fb_base f + (fb_rows f - 1) * L + fb_cols f * B \<le> int (length (fb_map f))"
    using fb_okD [OF ok] y by (auto simp: B_def L_def)
  have ecB: "ec * B \<le> fb_cols f * B" using x f by (intro mult_right_mono) auto
  have yL: "y * L \<le> (fb_rows f - 1) * L" "0 \<le> y * L" using y f by (auto intro: mult_right_mono)
  have lo: "0 \<le> p0" using f x yL by (simp add: p0_def)
  have "p0 + int (length bs) = fb_base f + y * L + ec * B" using bs by (simp add: p0_def B_def algebra_simps)
  with ecB yL f have hi: "p0 + int (length bs) \<le> int (length (fb_map f))" by linarith
  let ?new = "take (nat p0) (fb_map f) @ bs @ drop (nat p0 + length bs) (fb_map f)"
  let ?img = "box y (y + 1) sc ec (row_pixel B sc bs)"
  have "?new = fb_map (paint ?img f)"
  proof (rule nth_equalityI)
    show len: "length ?new = length (fb_map (paint ?img f))" using lo hi by (simp add: paint_map)
    fix i assume "i < length ?new"
    with len have i: "i < length (fb_map f)" by (simp add: paint_map)
    let ?q = "int i - fb_base f"
    have inside: "p0 \<le> int i \<and> int i < p0 + int (length bs) \<longleftrightarrow>
        row_of f (int i) = y \<and> sc \<le> col_of f (int i) \<and> col_of f (int i) < ec"
    proof -
      have "p0 \<le> int i \<longleftrightarrow> y * L + sc * B \<le> ?q" unfolding p0_def by linarith
      moreover have "int i < p0 + int (length bs) \<longleftrightarrow> ?q < y * L + ec * B"
        unfolding p0_def bs B_def [symmetric] by (simp only: left_diff_distrib) linarith
      moreover have "ec * B \<le> L" using ecB f by linarith
      ultimately show ?thesis
        using span_iff [of L B sc ec y ?q] f x by (simp add: row_of_def col_of_def B_def L_def)
    qed
    have nth: "?new ! i = (if nat p0 \<le> i \<and> i < nat p0 + length bs then bs ! (i - nat p0) else fb_map f ! i)"
      by (rule nth_block) (use lo hi i in linarith)+
    show "?new ! i = fb_map (paint ?img f) ! i"
    proof (cases "p0 \<le> int i \<and> int i < p0 + int (length bs)")
      case True
      then have at: "row_of f (int i) = y" "sc \<le> col_of f (int i)" "col_of f (int i) < ec"
        using inside by blast+
      have k: "0 \<le> byte_of f (int i)" "byte_of f (int i) < B" using f by (simp_all add: byte_of_def B_def)
      have "?q = y * L + (col_of f (int i) * B + byte_of f (int i))"
      proof -
        have "?q div L * L + ?q mod L = ?q" by (rule div_mult_mod_eq)
        moreover have "?q div L = y" using at(1) by (simp add: row_of_def L_def)
        moreover have "?q mod L = col_of f (int i) * B + byte_of f (int i)"
          by (simp add: col_of_def byte_of_def B_def L_def)
        ultimately show ?thesis by simp
      qed
      then have off: "int i - p0 = (col_of f (int i) - sc) * B + byte_of f (int i)"
        unfolding p0_def left_diff_distrib by linarith
      have pos: "0 \<le> (col_of f (int i) - sc) * B" using at f by simp
      have "nat p0 \<le> i \<and> i < nat p0 + length bs" "nat (int i - p0) = i - nat p0" using True lo by linarith+
      then have new: "?new ! i = bs ! nat (int i - p0)" using nth by simp
      have room: "nat ((col_of f (int i) - sc) * B) + nat (byte_of f (int i)) < length bs"
        using off True pos k by linarith
      have "fb_map (paint ?img f) ! i = row_pixel B sc bs y (col_of f (int i)) ! nat (byte_of f (int i))"
        using at i by (simp add: paint_nth box_def)
      also have "\<dots> = bs ! (nat ((col_of f (int i) - sc) * B) + nat (byte_of f (int i)))"
        using k room by (simp add: row_pixel_def)
      also have "\<dots> = bs ! nat (int i - p0)" using off pos k by (simp add: nat_add_distrib)
      finally show ?thesis using new by simp
    next
      case False
      then have "\<not> (nat p0 \<le> i \<and> i < nat p0 + length bs)" using lo by linarith
      then have "?new ! i = fb_map f ! i" using nth by (simp only: if_False)
      moreover have "?img (row_of f (int i)) (col_of f (int i)) = None"
        using False inside by (auto simp: box_def)
      ultimately show ?thesis using i by (simp add: paint_nth)
    qed
  qed
  moreover have "fb_mem f y + sc * fb_bpp f = p0" using fb_mem_eq [OF ok y] by (simp add: p0_def L_def B_def)
  ultimately show ?thesis using lo hi
    by (simp add: fb_write_def mem_put_def B_def [symmetric]) (simp add: paint_def)
qed

text \<open>A loop that writes the rows of a rectangle paints the rectangle.\<close>

lemma fb_write_rows:
  assumes ok: "fb_ok f" and y: "0 \<le> sr" "er \<le> fb_rows f" and x: "0 \<le> sc" "sc \<le> ec" "ec \<le> fb_cols f"
    and bs: "\<And>y. sr \<le> y \<Longrightarrow> y < er \<Longrightarrow> int (length (bs y)) = (ec - sc) * fb_bpp f"
  shows "for_range sr er (\<lambda>y g. fb_write (fb_mem g y + sc * fb_bpp g) (bs y) g) f =
    Some (paint (box sr er sc ec (\<lambda>y. row_pixel (fb_bpp f) sc (bs y) y)) f)"
proof (cases "sr \<le> er")
  case False
  then show ?thesis by (simp add: box_empty)
next
  case True
  let ?img = "\<lambda>i. box sr i sc ec (\<lambda>y. row_pixel (fb_bpp f) sc (bs y) y)"
  have "runs (for_range sr er (\<lambda>y g. fb_write (fb_mem g y + sc * fb_bpp g) (bs y) g) f) (\<lambda>g. g = paint (?img er) f)"
  proof (rule for_range_inv [where I = "\<lambda>i g. g = paint (?img i) f"], goal_cases)
    case 1
    from True show ?case .
  next
    case 2
    show ?case by (simp add: box_empty)
  next
    case (3 i g)
    have "over (box i (i + 1) sc ec (row_pixel (fb_bpp f) sc (bs i))) (?img i) = ?img (i + 1)"
      using 3(1) by (auto simp: over_def box_def fun_eq_iff row_pixel_def)
    then have "paint (box i (i + 1) sc ec (row_pixel (fb_bpp f) sc (bs i))) g = paint (?img (i + 1)) f"
      using 3(3) by (simp add: paint_paint)
    with fb_write_row [of g i sc ec "bs i"] 3 y x ok bs [of i] show ?case by simp
  qed
  then show ?thesis by (auto simp: runs_iff)
qed

text \<open>What one sees after painting.\<close>

lemma pixel_at:
  assumes ok: "fb_ok f" and y: "0 \<le> y" "y < fb_rows f" and x: "0 \<le> x" "x < fb_cols f"
  shows "mem_get (fb_map f) (fb_mem f y + x * fb_bpp f) (fb_bpp f) = Some (pixel f y x)"
    "int (length (pixel f y x)) = fb_bpp f"
proof -
  have f: "0 < fb_bpp f" "0 < fb_pitch f" "0 \<le> fb_base f"
      "fb_base f + (fb_rows f - 1) * fb_pitch f + fb_cols f * fb_bpp f \<le> int (length (fb_map f))"
    using fb_okD [OF ok] by auto
  have "(x + 1) * fb_bpp f \<le> fb_cols f * fb_bpp f" using x f by (intro mult_right_mono) auto
  moreover have "y * fb_pitch f \<le> (fb_rows f - 1) * fb_pitch f" "0 \<le> y * fb_pitch f" "0 \<le> x * fb_bpp f"
    using y x f by (auto intro: mult_right_mono)
  ultimately have r: "0 \<le> fb_base f + y * fb_pitch f + x * fb_bpp f"
      "fb_base f + y * fb_pitch f + x * fb_bpp f + fb_bpp f \<le> int (length (fb_map f))"
    using f by (simp_all only: distrib_right mult_1)
  with f show "int (length (pixel f y x)) = fb_bpp f" by (simp add: pixel_def)
  from r f show "mem_get (fb_map f) (fb_mem f y + x * fb_bpp f) (fb_bpp f) = Some (pixel f y x)"
    by (simp add: fb_mem_eq [OF ok y] mem_get_def pixel_def)
qed

lemma pixel_paint:
  assumes ok: "fb_ok f" and y: "0 \<le> y" "y < fb_rows f" and x: "0 \<le> x" "x < fb_cols f"
    and img: "\<And>b. img y x = Some b \<Longrightarrow> int (length b) = fb_bpp f"
  shows "pixel (paint img f) y x = (case img y x of None \<Rightarrow> pixel f y x | Some b \<Rightarrow> b)"
proof (rule nth_equalityI)
  let ?p = "fb_base f + y * fb_pitch f + x * fb_bpp f"
  have f: "0 < fb_bpp f" "0 < fb_pitch f" "0 \<le> fb_base f" "fb_cols f * fb_bpp f \<le> fb_pitch f"
    using fb_okD [OF ok] by auto
  have len: "int (length (pixel (paint img f) y x)) = fb_bpp f" "int (length (pixel f y x)) = fb_bpp f"
    using pixel_at(2) [of "paint img f" y x] pixel_at(2) [OF ok y x] ok y x by auto
  then show "length (pixel (paint img f) y x) = length (case img y x of None \<Rightarrow> pixel f y x | Some b \<Rightarrow> b)"
    using img by (auto split: option.split)
  fix k assume "k < length (pixel (paint img f) y x)"
  then have k: "int k < fb_bpp f" using len by simp
  have pos: "0 \<le> y * fb_pitch f" "0 \<le> x * fb_bpp f" using y x f by auto
  define i where "i = nat ?p + k"
  have i: "int i - fb_base f = y * fb_pitch f + (x * fb_bpp f + int k)" using pos f by (simp add: i_def)
  have "(x + 1) * fb_bpp f \<le> fb_cols f * fb_bpp f" using x f by (intro mult_right_mono) auto
  then have "x * fb_bpp f + int k < fb_pitch f" using k f(4) by (simp only: distrib_right mult_1)
  with i pos have at: "row_of f (int i) = y" "(int i - fb_base f) mod fb_pitch f = x * fb_bpp f + int k"
    using div_is [of y "fb_pitch f" "int i - fb_base f"] by (simp_all add: row_of_def)
  from k have at2: "col_of f (int i) = x" "byte_of f (int i) = int k"
    using at(2) div_is [of x "fb_bpp f" "x * fb_bpp f + int k"] by (simp_all add: col_of_def byte_of_def)
  have "k < length (pixel f y x)" using k len by simp
  then have room: "i < length (fb_map f)" unfolding pixel_def i_def by simp linarith
  have "pixel (paint img f) y x ! k = fb_map (paint img f) ! i" using k room by (simp add: pixel_def i_def paint_map)
  also have "\<dots> = (case img y x of None \<Rightarrow> fb_map f ! i | Some b \<Rightarrow> b ! k)"
    using room at at2 by (simp add: paint_nth split: option.split)
  also have "\<dots> = (case img y x of None \<Rightarrow> pixel f y x | Some b \<Rightarrow> b) ! k"
    using k room by (simp add: pixel_def i_def split: option.split)
  finally show "pixel (paint img f) y x ! k = (case img y x of None \<Rightarrow> pixel f y x | Some b \<Rightarrow> b) ! k" .
qed

section \<open>Mode and colours\<close>

lemma mode_bpp:
  assumes "0 \<le> fb_bpp f" "fb_bpp f < 16" "\<And>c. c \<in> {vi_red, vi_green, vi_blue} \<Longrightarrow>
    0 \<le> bf_length (c (fb_vinfo f)) \<and> bf_length (c (fb_vinfo f)) < 16"
  shows "FBM_BPP (fb_mode f) = fb_bpp f"
proof -
  have len: "take_bit 4 (bf_length (c (fb_vinfo f))) = bf_length (c (fb_vinfo f))"
    if "c \<in> {vi_red, vi_green, vi_blue}" for c
    using assms(3) [OF that] by (simp add: take_bit_int_eq_self)
  have clear: "\<not> bit (bf_length (c (fb_vinfo f))) n" if "c \<in> {vi_red, vi_green, vi_blue}" "4 \<le> n" for c n
    using len [OF that(1)] that(2) by (metis bit_take_bit_iff leD)
  have "take_bit 4 (fb_bpp f) = fb_bpp f" using assms by (simp add: take_bit_int_eq_self)
  moreover have "FBM_BPP (fb_mode f) = take_bit 4 (fb_bpp f)"
    by (rule bit_eqI)
      (auto simp: FBM_BPP_def fb_mode_def u32_def bit_take_bit_iff bit_drop_bit_eq bit_or_iff bit_push_bit_iff
        bit_of_bool_iff clear)
  ultimately show ?thesis by simp
qed

definition colours_ok :: "fbuf \<Rightarrow> bool" where
  "colours_ok f \<longleftrightarrow>
     (\<forall>n \<in> {fb_rl f, fb_rr f, fb_gl f, fb_gr f, fb_bl f, fb_br f}. 0 \<le> n \<and> n < 32)"

definition colour_word :: "fbuf \<Rightarrow> int \<Rightarrow> int \<Rightarrow> int \<Rightarrow> 32 word" where
  "colour_word f r g b = word_of_int (or (or
     (shl (drop_bit (nat (fb_rr f)) r) (nat (fb_rl f)))
     (shl (drop_bit (nat (fb_gr f)) g) (nat (fb_gl f))))
     (shl (drop_bit (nat (fb_br f)) b) (nat (fb_bl f))))"

lemma fb_val_eq: "colours_ok f \<Longrightarrow> fb_val f r g b = Some (colour_word f r g b)"
  by (simp add: colours_ok_def fb_val_def c_shr_def c_shl_def colour_word_def)

lemma init_colors_ok:
  assumes "\<And>c. c \<in> {vi_red, vi_green, vi_blue} \<Longrightarrow> 0 \<le> bf_length (c (fb_vinfo f)) \<and> bf_length (c (fb_vinfo f)) \<le> 8 \<and>
      0 \<le> bf_offset (c (fb_vinfo f)) \<and> bf_offset (c (fb_vinfo f)) < 32"
  shows "runs (init_colors f) colours_ok"
  using assms [of vi_red] assms [of vi_green] assms [of vi_blue]
  by (simp add: init_colors_def c_shl_def colours_ok_def Let_def)

end
