(* ===== verification/Pad.thy ===== *)
theory Pad
  imports Font Fb_Draw Term
begin

text \<open>
  libfbpads/pad.c: characters on the frame buffer. The state \<open>pad\<close> holds the static variables of
  the file and the frame buffer below them: the region of the pad, the fonts, the cache of
  rendered glyphs with its keys, and the two static buffers. A pointer into the cache is an
  offset. The bits of a colour for the fonts (fbpad.h) come from the theory \<open>Term\<close>. The functions for the drawing of a rectangle and of a character are followed with
  their loops and their copies; what they draw is shown in the theory \<open>Pad_Draw\<close>.
\<close>

section \<open>State\<close>

record pad =
  pd_fb :: fbuf
  pd_fbroff :: int
  pd_fbcoff :: int
  pd_fbrows :: int
  pd_fbcols :: int
  pd_rows :: int
  pd_cols :: int
  pd_fnrows :: int
  pd_fncols :: int
  pd_bpp :: int
  pd_fonts :: "font option list"
  gc_mem :: "8 word list"
  gc_next :: "int list"
  gc_glyph :: "int list"
  gc_bg :: "int list"
  gc_fg :: "int list"
  pd_bits :: "8 word list"
  pd_row :: "8 word list"


definition pad_conf :: "int \<Rightarrow> int \<Rightarrow> int \<Rightarrow> int \<Rightarrow> pad \<Rightarrow> pad option" where
  "pad_conf roff coff nrows ncols s = do {
     rs \<leftarrow> c_div nrows (pd_fnrows s);
     cs \<leftarrow> c_div ncols (pd_fncols s);
     Some (s\<lparr>pd_fbroff := roff, pd_fbcoff := coff, pd_fbrows := nrows, pd_fbcols := ncols,
       pd_rows := rs, pd_cols := cs\<rparr>) }"

section \<open>Colours\<close>

definition red_of :: "int \<Rightarrow> int" where "red_of a = take_bit 8 (drop_bit 16 a)"
definition green_of :: "int \<Rightarrow> int" where "green_of a = take_bit 8 (drop_bit 8 a)"
definition blue_of :: "int \<Rightarrow> int" where "blue_of a = take_bit 8 a"

text \<open>
  \<open>COLORMERGE\<close>: the difference is an \<open>int\<close>, the product and the shift are unsigned, and the
  assignment to an \<open>unsigned char\<close> keeps the low byte.
\<close>

definition COLORMERGE :: "int \<Rightarrow> int \<Rightarrow> 32 word \<Rightarrow> 8 word" where
  "COLORMERGE f b c = ucast (word_of_int b + drop_bit 8 (word_of_int (f - b) * c))"

definition mixed_color :: "pad \<Rightarrow> int \<Rightarrow> int \<Rightarrow> 32 word \<Rightarrow> 32 word option" where
  "mixed_color s fg bg val = (
     let r = COLORMERGE (red_of fg) (red_of bg) val;
         g = COLORMERGE (green_of fg) (green_of bg) val;
         b = COLORMERGE (blue_of fg) (blue_of bg) val
     in fb_val (pd_fb s) (uint r) (uint g) (uint b))"

definition color2fb :: "pad \<Rightarrow> int \<Rightarrow> 32 word option" where
  "color2fb s c = fb_val (pd_fb s) (red_of c) (green_of c) (blue_of c)"

section \<open>The cache of glyphs\<close>

definition GCLCNT :: int where "GCLCNT = 128"
definition GCLLEN :: int where "GCLLEN = 16"
definition GCN :: int where "GCN = GCLCNT * GCLLEN"

definition GCGLEN :: "pad \<Rightarrow> int" where
  "GCGLEN s = pd_fnrows s * pd_fncols s * 4"

definition GCIDX :: "int \<Rightarrow> int" where
  "GCIDX c = and c (GCLCNT - 1)"

text \<open>The block that \<open>malloc\<close> returns, or that it returns none.\<close>

definition gc_init :: "8 word list option \<Rightarrow> pad \<Rightarrow> pad \<times> int" where
  "gc_init got s = (case got of None \<Rightarrow> (s\<lparr>gc_mem := []\<rparr>, 1) | Some m \<Rightarrow> (s\<lparr>gc_mem := m\<rparr>, 0))"

fun gc_search :: "pad \<Rightarrow> int \<Rightarrow> int \<Rightarrow> int \<Rightarrow> int list \<Rightarrow> int option option" where
  "gc_search s c fg bg [] = Some None"
| "gc_search s c fg bg (i # is) = do {
     g \<leftarrow> rd (gc_glyph s) i;
     f \<leftarrow> rd (gc_fg s) i;
     b \<leftarrow> rd (gc_bg s) i;
     (if g = c \<and> f = fg \<and> b = bg then Some (Some (i * GCGLEN s)) else gc_search s c fg bg is) }"

definition gc_get :: "pad \<Rightarrow> int \<Rightarrow> int \<Rightarrow> int \<Rightarrow> int option option" where
  "gc_get s c fg bg = (let idx = GCIDX c * GCLLEN in gc_search s c fg bg [idx..idx + GCLLEN - 1])"

definition gc_put :: "int \<Rightarrow> int \<Rightarrow> int \<Rightarrow> pad \<Rightarrow> (pad \<times> int) option" where
  "gc_put c fg bg s = do {
     let lst = GCIDX c;
     pos \<leftarrow> rd (gc_next s) lst;
     n1 \<leftarrow> wr (gc_next s) lst (pos + 1);
     let idx = lst * GCLLEN + pos;
     n2 \<leftarrow> (if pos + 1 \<ge> GCLLEN then wr n1 lst 0 else Some n1);
     g \<leftarrow> wr (gc_glyph s) idx c;
     f \<leftarrow> wr (gc_fg s) idx fg;
     b \<leftarrow> wr (gc_bg s) idx bg;
     Some (s\<lparr>gc_next := n2, gc_glyph := g, gc_fg := f, gc_bg := b\<rparr>, idx * GCGLEN s) }"

definition pad_free :: "pad \<Rightarrow> pad" where
  "pad_free s = s\<lparr>gc_mem := []\<rparr>"

text \<open>\<open>for (k = 0; k < bpp; k++) *p++ = (c >> (k * 8)) & 0xff\<close>\<close>

definition store_pixel :: "int \<Rightarrow> 32 word \<Rightarrow> 8 word list \<times> int \<Rightarrow> (8 word list \<times> int) option" where
  "store_pixel bpp c = for_range 0 bpp
     (\<lambda>k (m, p). do {
        m1 \<leftarrow> (if k * 8 < 32 then wr m p (ucast (drop_bit (nat (k * 8)) c)) else None);
        Some (m1, p + 1) })"

definition bmp_pixel :: "pad \<Rightarrow> 8 word list \<Rightarrow> int \<Rightarrow> int \<Rightarrow> int \<Rightarrow> int \<Rightarrow> int \<Rightarrow> int \<Rightarrow>
    8 word list \<times> int \<Rightarrow> (8 word list \<times> int) option" where
  "bmp_pixel s bits fg bg nr nc i j at = do {
     v \<leftarrow> (if i < nr \<and> j < nc then rd bits (i * nc + j) else Some 0);
     c \<leftarrow> mixed_color s fg bg (ucast v);
     store_pixel (pd_bpp s) c at }"

definition bmp2fb :: "pad \<Rightarrow> int \<Rightarrow> 8 word list \<Rightarrow> int \<Rightarrow> int \<Rightarrow> int \<Rightarrow> int \<Rightarrow> pad option" where
  "bmp2fb s d bits fg bg nr nc = do {
     m \<leftarrow> for_range 0 (pd_fnrows s)
       (\<lambda>i m. do {
          (m1, _) \<leftarrow> for_range 0 (pd_fncols s) (bmp_pixel s bits fg bg nr nc i)
            (m, d + i * pd_fncols s * pd_bpp s);
          Some m1 })
       (gc_mem s);
     Some (s\<lparr>gc_mem := m\<rparr>) }"

definition not_shown :: "int \<Rightarrow> bool" where
  "not_shown c \<longleftrightarrow> c < 0 \<or> (c < 128 \<and> (\<not> (32 \<le> c \<and> c < 127) \<or> c = 32 \<or> (9 \<le> c \<and> c \<le> 13)))"

definition ch2fb :: "int \<Rightarrow> int \<Rightarrow> int \<Rightarrow> int \<Rightarrow> pad \<Rightarrow> (pad \<times> int option) option" where
  "ch2fb fn c fg bg s =
     (if not_shown c then Some (s, None)
      else do {
        hit \<leftarrow> gc_get s c fg bg;
        (case hit of
           Some p \<Rightarrow> Some (s, Some p)
         | None \<Rightarrow> do {
             fo \<leftarrow> rd (pd_fonts s) fn;
             f \<leftarrow> fo;
             (bits, failed) \<leftarrow> font_bitmap f (pd_bits s) c;
             let s1 = s\<lparr>pd_bits := bits\<rparr>;
             (if failed \<noteq> 0 then Some (s1, None)
              else do {
                (s2, p) \<leftarrow> gc_put c fg bg s1;
                s3 \<leftarrow> bmp2fb s2 p bits (and fg FN_C) (and bg FN_C) (fn_rows f) (fn_cols f);
                Some (s3, Some p) }) }) })"

section \<open>Drawing\<close>

text \<open>\<open>fb_set\<close> copies \<open>len\<close> pixels from offset \<open>at\<close> of \<open>mem\<close>.\<close>

definition fb_set :: "int \<Rightarrow> int \<Rightarrow> 8 word list \<Rightarrow> int \<Rightarrow> int \<Rightarrow> pad \<Rightarrow> pad option" where
  "fb_set r c mem at len s = do {
     b \<leftarrow> mem_get mem at (len * pd_bpp s);
     f \<leftarrow> fb_write (fb_mem (pd_fb s) (pd_fbroff s + r) + (pd_fbcoff s + c) * pd_bpp s) b (pd_fb s);
     Some (s\<lparr>pd_fb := f\<rparr>) }"

definition rowbuf :: "32 word \<Rightarrow> int \<Rightarrow> pad \<Rightarrow> pad option" where
  "rowbuf c len s = do {
     (row, _) \<leftarrow> for_range 0 len (\<lambda>i at. store_pixel (pd_bpp s) c at) (pd_row s, 0);
     Some (s\<lparr>pd_row := row\<rparr>) }"

definition fb_box :: "int \<Rightarrow> int \<Rightarrow> int \<Rightarrow> int \<Rightarrow> 32 word \<Rightarrow> pad \<Rightarrow> pad option" where
  "fb_box sr er sc ec val s = do {
     s1 \<leftarrow> rowbuf val (ec - sc) s;
     for_range sr er (\<lambda>i s. fb_set i sc (pd_row s) 0 (ec - sc) s) s1 }"

definition pad_border :: "int \<Rightarrow> int \<Rightarrow> pad \<Rightarrow> pad option" where
  "pad_border c wid s = do {
     v \<leftarrow> color2fb s (and c FN_C);
     (if pd_fbroff s < wid \<or> pd_fbcoff s < wid then Some s
      else do {
        s1 \<leftarrow> fb_box (- wid) 0 (- wid) (pd_fbcols s + wid) v s;
        s2 \<leftarrow> fb_box (pd_fbrows s) (pd_fbrows s + wid) (- wid) (pd_fbcols s + wid) v s1;
        s3 \<leftarrow> fb_box (- wid) (pd_fbrows s + wid) (- wid) 0 v s2;
        fb_box (- wid) (pd_fbrows s + wid) (pd_fbcols s) (pd_fbcols s + wid) v s3 }) }"

definition fnsel :: "int \<Rightarrow> int \<Rightarrow> pad \<Rightarrow> int option" where
  "fnsel fg bg s =
     (if and (or fg bg) FN_B \<noteq> 0 then do {
        b \<leftarrow> rd (pd_fonts s) 2;
        Some (if b \<noteq> None then 2 else 0) }
      else if and (or fg bg) FN_I \<noteq> 0 then do {
        i \<leftarrow> rd (pd_fonts s) 1;
        Some (if i \<noteq> None then 1 else 0) }
      else Some 0)"

definition pad_put :: "int \<Rightarrow> int \<Rightarrow> int \<Rightarrow> int \<Rightarrow> int \<Rightarrow> pad \<Rightarrow> pad option" where
  "pad_put ch r c fg bg s = do {
     let sr = pd_fnrows s * r;
     let sc = pd_fncols s * c;
     fn \<leftarrow> fnsel fg bg s;
     (s1, bits) \<leftarrow> ch2fb fn ch fg bg s;
     (s2, bits) \<leftarrow> (if bits = None then ch2fb 0 ch fg bg s1 else Some (s1, bits));
     (case bits of
        None \<Rightarrow> do {
          v \<leftarrow> color2fb s2 (and bg FN_C);
          fb_box sr (sr + pd_fnrows s2) sc (sc + pd_fncols s2) v s2 }
      | Some p \<Rightarrow> for_range 0 (pd_fnrows s2)
          (\<lambda>i s. fb_set (sr + i) sc (gc_mem s) (p + i * pd_fncols s * pd_bpp s) (pd_fncols s) s) s2) }"

definition pad_fill :: "int \<Rightarrow> int \<Rightarrow> int \<Rightarrow> int \<Rightarrow> int \<Rightarrow> pad \<Rightarrow> pad option" where
  "pad_fill sr er sc ec c s = do {
     let fber = (if er \<ge> 0 then er * pd_fnrows s else pd_fbrows s);
     let fbec = (if ec \<ge> 0 then ec * pd_fncols s else pd_fbcols s);
     v \<leftarrow> color2fb s (and c FN_C);
     fb_box (sr * pd_fnrows s) fber (sc * pd_fncols s) fbec v s }"

section \<open>Start, and the environment of the programs\<close>

text \<open>The bytes of the three fonts; the second and the third may be absent. \<open>got\<close>: the allocations.\<close>

definition open_optional :: "bool \<Rightarrow> 8 word list option \<Rightarrow> font option option" where
  "open_optional got data =
     (case data of None \<Rightarrow> Some None | Some d \<Rightarrow> map_option Some (font_open_static got d))"

definition pad_font_static :: "bool \<Rightarrow> 8 word list option \<Rightarrow> 8 word list option \<Rightarrow> 8 word list option \<Rightarrow>
    pad \<Rightarrow> (pad \<times> int) option" where
  "pad_font_static got fr fi fb s = do {
     r \<leftarrow> open_optional got fr;
     (case r of
        None \<Rightarrow> Some (s, 1)
      | Some f \<Rightarrow> do {
          i \<leftarrow> open_optional got fi;
          b \<leftarrow> open_optional got fb;
          Some (s\<lparr>pd_fonts := [Some f, i, b], pd_fnrows := fn_rows f, pd_fncols := fn_cols f\<rparr>, 0) }) }"

definition pad_init :: "bool \<Rightarrow> 8 word list option \<Rightarrow> 8 word list \<Rightarrow> 8 word list \<Rightarrow> 8 word list \<Rightarrow>
    pad \<Rightarrow> (pad \<times> int) option" where
  "pad_init got cache fr fi fb s = do {
     (s1, failed) \<leftarrow> pad_font_static got (Some fr) (Some fi) (Some fb) s;
     (if failed \<noteq> 0 then Some (s1, 1)
      else let (s2, none) = gc_init cache s1 in
        if none \<noteq> 0 then Some (s2, 1)
        else do {
          rs \<leftarrow> c_div (fb_rows (pd_fb s2)) (pd_fnrows s2);
          cs \<leftarrow> c_div (fb_cols (pd_fb s2)) (pd_fncols s2);
          let s3 = s2\<lparr>pd_rows := rs, pd_cols := cs, pd_bpp := FBM_BPP (fb_mode (pd_fb s2))\<rparr>;
          s4 \<leftarrow> pad_conf 0 0 (fb_rows (pd_fb s3)) (fb_cols (pd_fb s3)) s3;
          Some (s4, 0) }) }"

definition show_signed :: "int \<Rightarrow> string" where
  "show_signed i = (if i < 0 then show_int i else CHR ''+'' # show_int i)"

definition pad_fbdev :: "pad \<Rightarrow> string" where
  "pad_fbdev s = take 1023 (''FBDEV='' @ fb_name (pd_fb s) @ '':'' @ show_int (pd_fbcols s) @ ''x'' @
     show_int (pd_fbrows s) @ show_signed (pd_fbcoff s) @ show_signed (pd_fbroff s))"

end
