(* ===== verification/Blocks.thy ===== *)
theory Blocks
  imports Prelude
begin

text \<open>
  Blocks of an array: what is read from a block after another one was written, the chunks of a
  concatenation, and loops that write block after block through a moving pointer.
\<close>

lemma mem_put_length: "mem_put m p bs = Some m' \<Longrightarrow> length m' = length m"
  by (auto simp: mem_put_def split: if_splits)

lemma mem_put_fits:
  "0 \<le> p \<Longrightarrow> p + int (length bs) \<le> int (length m) \<Longrightarrow>
     mem_put m p bs = Some (take (nat p) m @ bs @ drop (nat p + length bs) m)"
  by (simp add: mem_put_def)

lemma mem_put_same:
  assumes "mem_put m p bs = Some m'"
  shows "mem_get m' p (int (length bs)) = Some bs"
proof -
  from assms have "0 \<le> p" "p + int (length bs) \<le> int (length m)" "m' = take (nat p) m @ bs @ drop (nat p + length bs) m"
    by (auto simp: mem_put_def split: if_splits)
  then show ?thesis by (simp add: mem_get_def)
qed

lemma mem_put_other:
  assumes put: "mem_put m p bs = Some m'" and apart: "q + n \<le> p \<or> p + int (length bs) \<le> q"
  shows "mem_get m' q n = mem_get m q n"
proof (cases "0 \<le> n \<and> 0 \<le> q \<and> q + n \<le> int (length m)")
  case False
  with mem_put_length [OF put] show ?thesis by (auto simp: mem_get_def)
next
  case True
  from put have fits: "0 \<le> p" "p + int (length bs) \<le> int (length m)"
    and m': "m' = take (nat p) m @ bs @ drop (nat p + length bs) m"
    by (auto simp: mem_put_def split: if_splits)
  have len: "length m' = length m" by (rule mem_put_length [OF put])
  have "take (nat n) (drop (nat q) m') = take (nat n) (drop (nat q) m)"
  proof (rule nth_equalityI)
    show "length (take (nat n) (drop (nat q) m')) = length (take (nat n) (drop (nat q) m))" using len by simp
    fix i assume "i < length (take (nat n) (drop (nat q) m'))"
    with len have i: "i < nat n" "nat q + i < length m" by auto
    have out: "\<not> (nat p \<le> nat q + i \<and> nat q + i < nat p + length bs)" using apart i True fits(1) by linarith
    have "m' ! (nat q + i) = m ! (nat q + i)"
      unfolding m' using nth_block [of "nat p" bs m "nat q + i"] fits i(2) out by (simp only: if_False)
    with i len show "take (nat n) (drop (nat q) m') ! i = take (nat n) (drop (nat q) m) ! i"
      by (simp add: nat_le_iff)
  qed
  with True len show ?thesis by (simp add: mem_get_def)
qed

lemma mem_put_append:
  assumes "mem_put m p xs = Some m1" "mem_put m1 (p + int (length xs)) ys = Some m2"
  shows "mem_put m p (xs @ ys) = Some m2"
proof -
  from assms(1) have fits: "0 \<le> p" "p + int (length xs) \<le> int (length m)"
    and m1: "m1 = take (nat p) m @ xs @ drop (nat p + length xs) m"
    by (auto simp: mem_put_def split: if_splits)
  have n: "nat (p + int (length xs)) = nat p + length xs" using fits(1) by (simp add: nat_add_distrib)
  from assms(2) mem_put_length [OF assms(1)] have fits2: "p + int (length xs) + int (length ys) \<le> int (length m)"
    and m2: "m2 = take (nat p + length xs) m1 @ ys @ drop (nat p + length xs + length ys) m1"
    by (auto simp: mem_put_def n split: if_splits)
  have "length (take (nat p) m) = nat p" using fits by simp
  then have "take (nat p + length xs) m1 = take (nat p) m @ xs"
    "drop (nat p + length xs + length ys) m1 = drop (nat p + length xs + length ys) m"
    unfolding m1 by (simp_all add: add.assoc add.commute)
  with m2 fits fits2 show ?thesis by (simp add: mem_put_def add.assoc)
qed

lemma mem_get_inner:
  assumes "mem_get m p n = Some b" "0 \<le> k" "0 \<le> w" "k + w \<le> n"
  shows "mem_get m (p + k) w = Some (take (nat w) (drop (nat k) b))"
proof -
  from assms(1) have p: "0 \<le> p" "p + n \<le> int (length m)" "b = take (nat n) (drop (nat p) m)"
    by (auto simp: mem_get_def split: if_splits)
  have "nat (p + k) = nat k + nat p" using p(1) assms(2) by linarith
  moreover have "min (nat w) (nat n - nat k) = nat w" using assms by linarith
  ultimately show ?thesis using p assms by (simp add: mem_get_def drop_take)
qed

text \<open>Chunks of equal length.\<close>

lemma concat_chunk:
  assumes "\<And>i. 0 \<le> i \<Longrightarrow> i < n \<Longrightarrow> length (g i) = w" "0 \<le> i" "i < n"
  shows "take w (drop (nat i * w) (concat (map g [0..n - 1]))) = g i"
proof -
  have split: "[0..n - 1] = [0..i - 1] @ i # [i + 1..n - 1]"
  proof -
    have "[0..n - 1] = [0..i - 1] @ [i..n - 1]" using assms(2,3) by (intro upto_split1) auto
    also have "[i..n - 1] = i # [i + 1..n - 1]" using assms(2,3) by (intro upto_rec1) auto
    finally show ?thesis .
  qed
  have "length (concat (map g [0..j - 1])) = nat j * w" if "0 \<le> j" "j \<le> n" for j
    using that
  proof (induction "nat j" arbitrary: j)
    case 0
    then show ?case by simp
  next
    case (Suc k)
    then have "[0..j - 1] = [0..j - 2] @ [j - 1]" by (simp add: upto_rec2)
    moreover have "length (concat (map g [0..(j - 1) - 1])) = nat (j - 1) * w" using Suc by (intro Suc.hyps(1)) auto
    moreover have "nat j = Suc (nat (j - 1))" using Suc by simp
    ultimately show ?case using Suc assms(1) [of "j - 1"] by simp
  qed
  from this [of i] have "length (concat (map g [0..i - 1])) = nat i * w" using assms by simp
  moreover have "length (g i) = w" using assms by simp
  ultimately show ?thesis unfolding split by simp
qed

lemma length_chunks:
  assumes "\<And>i. 0 \<le> i \<Longrightarrow> i < n \<Longrightarrow> length (g i) = w"
  shows "length (concat (map g [0..n - 1])) = nat n * w"
proof -
  have "map (length \<circ> g) [0..n - 1] = replicate (nat n) w"
    using assms by (intro replicate_eqI) (auto simp: comp_def)
  then show ?thesis by (simp add: length_concat comp_def sum_list_replicate)
qed

text \<open>A loop whose step writes a block at the pointer and moves the pointer behind it.\<close>

lemma write_loop:
  assumes "\<And>i m p. lo \<le> i \<Longrightarrow> i < hi \<Longrightarrow> 0 \<le> p \<Longrightarrow> p + int (length (g i)) \<le> int (length m) \<Longrightarrow>
      body i (m, p) = map_option (\<lambda>m1. (m1, p + int (length (g i)))) (mem_put m p (g i))"
    and "0 \<le> p" "p + int (length (concat (map g [lo..hi - 1]))) \<le> int (length m)"
  shows "for_range lo hi body (m, p) =
    map_option (\<lambda>m1. (m1, p + int (length (concat (map g [lo..hi - 1]))))) (mem_put m p (concat (map g [lo..hi - 1])))"
  using assms
proof (induction "nat (hi - lo)" arbitrary: lo m p)
  case 0
  then show ?case by (simp add: mem_put_def)
next
  case (Suc k)
  then have lt: "lo < hi" by simp
  have bs: "concat (map g [lo..hi - 1]) = g lo @ concat (map g [lo + 1..hi - 1])"
    using lt by (simp add: upto_rec1)
  obtain m1 where m1: "mem_put m p (g lo) = Some m1" using Suc.prems bs by (simp add: mem_put_def)
  have len: "length m1 = length m" by (rule mem_put_length [OF m1])
  have "body lo (m, p) = Some (m1, p + int (length (g lo)))" using Suc.prems lt bs m1 by simp
  moreover have "for_range (lo + 1) hi body (m1, p + int (length (g lo))) =
      map_option (\<lambda>m2. (m2, p + int (length (g lo)) + int (length (concat (map g [lo + 1..hi - 1])))))
        (mem_put m1 (p + int (length (g lo))) (concat (map g [lo + 1..hi - 1])))"
    using Suc.hyps(2) Suc.prems bs len by (intro Suc.hyps(1)) auto
  moreover obtain m2 where m2: "mem_put m1 (p + int (length (g lo))) (concat (map g [lo + 1..hi - 1])) = Some m2"
    using Suc.prems bs len by (simp add: mem_put_def)
  moreover have "mem_put m p (concat (map g [lo..hi - 1])) = Some m2"
    unfolding bs by (rule mem_put_append [OF m1 m2])
  ultimately show ?case using lt by (simp add: for_range_step bs)
qed

end
