(* ===== verification/Pad_Draw.thy ===== *)
theory Pad_Draw
  imports Pad Blocks
begin

text \<open>
  What libfbpads/pad.c draws. \<open>cell_image\<close> is the picture of a character: its glyph, from the
  font that its attributes select or else from the regular one, each grey value blended from
  the colour of the background to that of the text. The invariant \<open>pad_ok\<close> says that every
  entry of the cache holds the picture of its key, so that the drawing does not depend on
  what the cache contains.
\<close>

section \<open>Colours\<close>

definition blend :: "int \<Rightarrow> int \<Rightarrow> int \<Rightarrow> int" where
  "blend f b v = b + (f - b) * v div 256"

lemma blend_bounds:
  assumes "0 \<le> v" "v \<le> 255"
  shows "min f b \<le> blend f b v" "blend f b v \<le> max f b" "blend f b 0 = b"
proof -
  have "blend f b v \<le> max f b \<and> min f b \<le> blend f b v"
  proof (cases "b \<le> f")
    case True
    have "(f - b) * v \<le> (f - b) * 256" using True assms by (intro mult_left_mono) auto
    then have "(f - b) * v div 256 \<le> f - b" using zdiv_mono1 [of "(f - b) * v" "(f - b) * 256" 256] by simp
    moreover have "0 \<le> (f - b) * v div 256" using True assms by (simp add: pos_imp_zdiv_nonneg_iff)
    ultimately show ?thesis using True by (simp add: blend_def)
  next
    case False
    have "(f - b) * 256 \<le> (f - b) * v" using False assms by (intro mult_left_mono_neg) auto
    then have "f - b \<le> (f - b) * v div 256" using zdiv_mono1 [of "(f - b) * 256" "(f - b) * v" 256] by simp
    moreover have "(f - b) * v \<le> 0" using False assms by (simp add: mult_nonpos_nonneg)
    then have "(f - b) * v div 256 \<le> 0" using zdiv_mono1 [of "(f - b) * v" 0 256] by simp
    ultimately show ?thesis using False by (simp add: blend_def)
  qed
  then show "min f b \<le> blend f b v" "blend f b v \<le> max f b" by blast+
  show "blend f b 0 = b" by (simp add: blend_def)
qed

lemma merge_blend:
  assumes "0 \<le> f" "f \<le> 255" "0 \<le> b" "b \<le> 255"
  shows "uint (COLORMERGE f b (ucast (v :: 8 word))) = blend f b (uint v)"
proof -
  define x where "x = (f - b) * uint v"
  have v: "0 \<le> uint v" "uint v \<le> 255" using uint_lt2p [of v] by simp_all
  have "(word_of_int (f - b) * ucast v :: 32 word) = word_of_int x" by (simp add: x_def unsigned_ucast_eq)
  then have "uint (COLORMERGE f b (ucast v)) =
      take_bit 8 (take_bit 32 (take_bit 32 b + drop_bit 8 (take_bit 32 x)))"
  proof -
    have "take_bit 32 y = y mod 4294967296" for y :: int by (simp add: take_bit_eq_mod)
    with \<open>word_of_int (f - b) * ucast v = word_of_int x\<close> show ?thesis
      by (simp add: COLORMERGE_def unsigned_ucast_eq unsigned_drop_bit_eq uint_word_of_int uint_word_ariths)
  qed
  also have "\<dots> = take_bit 8 (b + drop_bit 8 x)"
  proof -
    have "take_bit 8 (drop_bit 8 (take_bit 32 x)) = take_bit 8 (drop_bit 8 x)" by (simp add: drop_bit_take_bit)
    then have "take_bit 8 (take_bit 8 (take_bit 32 b) + take_bit 8 (drop_bit 8 (take_bit 32 x))) =
        take_bit 8 (take_bit 8 b + take_bit 8 (drop_bit 8 x))" by simp
    then show ?thesis by (simp only: take_bit_add) simp
  qed
  also have "b + drop_bit 8 x = blend f b (uint v)" by (simp add: blend_def x_def drop_bit_eq_div)
  also have "take_bit 8 (blend f b (uint v)) = blend f b (uint v)"
    using blend_bounds(1,2) [OF v, of f b] assms by (intro take_bit_int_eq_self) auto
  finally show ?thesis .
qed

text \<open>A colour of the frame buffer between two colours of the terminal.\<close>

definition mix :: "pad \<Rightarrow> int \<Rightarrow> int \<Rightarrow> int \<Rightarrow> 32 word" where
  "mix s fg bg v = colour_word (pd_fb s) (blend (red_of fg) (red_of bg) v)
     (blend (green_of fg) (green_of bg) v) (blend (blue_of fg) (blue_of bg) v)"

lemma channel_bounds: "0 \<le> red_of c" "red_of c \<le> 255" "0 \<le> green_of c" "green_of c \<le> 255"
    "0 \<le> blue_of c" "blue_of c \<le> 255"
proof -
  have "take_bit 8 x \<le> (255::int)" for x using take_bit_int_less_exp [of 8 x] by simp
  then show "0 \<le> red_of c" "red_of c \<le> 255" "0 \<le> green_of c" "green_of c \<le> 255" "0 \<le> blue_of c" "blue_of c \<le> 255"
    by (simp_all add: red_of_def green_of_def blue_of_def)
qed

lemma mixed_color_eq:
  "colours_ok (pd_fb s) \<Longrightarrow> mixed_color s fg bg (ucast (v :: 8 word)) = Some (mix s fg bg (uint v))"
  by (simp add: mixed_color_def mix_def merge_blend channel_bounds fb_val_eq)

definition pen :: "pad \<Rightarrow> int \<Rightarrow> 32 word" where
  "pen s c = colour_word (pd_fb s) (red_of c) (green_of c) (blue_of c)"

lemma color2fb_eq: "colours_ok (pd_fb s) \<Longrightarrow> color2fb s c = Some (pen s c)"
  by (simp add: color2fb_def pen_def fb_val_eq)

section \<open>Pictures\<close>

definition pixel_bytes :: "int \<Rightarrow> 32 word \<Rightarrow> 8 word list" where
  "pixel_bytes bpp c = map (\<lambda>k. ucast (drop_bit (nat (k * 8)) c)) [0..bpp - 1]"

definition glyph_in :: "pad \<Rightarrow> int \<Rightarrow> int \<Rightarrow> (font \<times> 8 word list) option" where
  "glyph_in s fn c = (case pd_fonts s ! nat fn of None \<Rightarrow> None | Some f \<Rightarrow> map_option (Pair f) (glyph_of f c))"

definition font_choice :: "pad \<Rightarrow> int \<Rightarrow> int \<Rightarrow> int" where
  "font_choice s fg bg =
     (if and (or fg bg) FN_B \<noteq> 0 then (if pd_fonts s ! 2 \<noteq> None then 2 else 0)
      else if and (or fg bg) FN_I \<noteq> 0 then (if pd_fonts s ! 1 \<noteq> None then 1 else 0)
      else 0)"

definition shown_glyph :: "pad \<Rightarrow> int \<Rightarrow> int \<Rightarrow> int \<Rightarrow> (font \<times> 8 word list) option" where
  "shown_glyph s c fg bg =
     (if not_shown c then None
      else case glyph_in s (font_choice s fg bg) c of Some g \<Rightarrow> Some g | None \<Rightarrow> glyph_in s 0 c)"

definition grey_at :: "font \<Rightarrow> 8 word list \<Rightarrow> int \<Rightarrow> int \<Rightarrow> int" where
  "grey_at f b i j = (if i < fn_rows f \<and> j < fn_cols f then uint (b ! nat (i * fn_cols f + j)) else 0)"

definition cell_pixel :: "pad \<Rightarrow> int \<Rightarrow> int \<Rightarrow> font \<Rightarrow> 8 word list \<Rightarrow> int \<Rightarrow> int \<Rightarrow> 8 word list" where
  "cell_pixel s fg bg f b i j = pixel_bytes (pd_bpp s) (mix s (and fg FN_C) (and bg FN_C) (grey_at f b i j))"

definition cell_row :: "pad \<Rightarrow> int \<Rightarrow> int \<Rightarrow> font \<Rightarrow> 8 word list \<Rightarrow> int \<Rightarrow> 8 word list" where
  "cell_row s fg bg f b i = concat (map (cell_pixel s fg bg f b i) [0..pd_fncols s - 1])"

definition cell_image :: "pad \<Rightarrow> int \<Rightarrow> int \<Rightarrow> font \<Rightarrow> 8 word list \<Rightarrow> 8 word list" where
  "cell_image s fg bg f b = concat (map (cell_row s fg bg f b) [0..pd_fnrows s - 1])"

definition image_len :: "pad \<Rightarrow> int" where
  "image_len s = pd_fnrows s * pd_fncols s * pd_bpp s"

lemma length_pixel_bytes [simp]: "length (pixel_bytes bpp c) = nat bpp"
  by (simp add: pixel_bytes_def)

lemma length_cell_pixel [simp]: "length (cell_pixel s fg bg f b i j) = nat (pd_bpp s)"
  by (simp add: cell_pixel_def)

lemma length_cell_row [simp]: "length (cell_row s fg bg f b i) = nat (pd_fncols s) * nat (pd_bpp s)"
  unfolding cell_row_def by (rule length_chunks) simp

lemma length_cell_image [simp]:
  "length (cell_image s fg bg f b) = nat (pd_fnrows s) * (nat (pd_fncols s) * nat (pd_bpp s))"
  unfolding cell_image_def by (rule length_chunks) simp

lemma store_pixel_eq:
  assumes "0 \<le> bpp" "bpp \<le> 4" "0 \<le> p" "p + bpp \<le> int (length m)"
  shows "store_pixel bpp c (m, p) = map_option (\<lambda>m1. (m1, p + bpp)) (mem_put m p (pixel_bytes bpp c))"
proof -
  let ?g = "\<lambda>k. [ucast (drop_bit (nat (k * 8)) c) :: 8 word]"
  have bs: "concat (map ?g [0..bpp - 1]) = pixel_bytes bpp c" by (simp add: pixel_bytes_def)
  have one: "wr m p x = mem_put m p [x]" if "0 \<le> p" "p + 1 \<le> int (length m)" for m p and x :: "8 word"
  proof -
    from that have n: "nat p < length m" and lt: "p < int (length m)" by linarith+
    have "m[nat p := x] = take (nat p) m @ [x] @ drop (nat p + length [x]) m"
      using upd_conv_take_nth_drop [OF n, of x] by simp
    moreover have "wr m p x = Some (m[nat p := x])" using that(1) lt by (simp add: wr_def)
    moreover have "mem_put m p [x] = Some (take (nat p) m @ [x] @ drop (nat p + length [x]) m)"
      by (rule mem_put_fits) (use that in simp_all)
    ultimately show ?thesis by (simp only:)
  qed
  have "store_pixel bpp c (m, p) =
      map_option (\<lambda>m1. (m1, p + int (length (concat (map ?g [0..bpp - 1]))))) (mem_put m p (concat (map ?g [0..bpp - 1])))"
    unfolding store_pixel_def
  proof (rule write_loop, goal_cases)
    case (1 k m p)
    with assms show ?case by (simp add: one mem_put_def)
  qed (use assms in \<open>simp_all add: bs\<close>)
  with assms show ?thesis unfolding bs by simp
qed

section \<open>A glyph is rendered as its picture\<close>

lemma bmp_pixel_eq:
  assumes col: "colours_ok (pd_fb s)" and bpp: "0 \<le> pd_bpp s" "pd_bpp s \<le> 4"
    and b: "int (length b) = fn_rows f * fn_cols f" and bits: "take (length b) bits = b" and ij: "0 \<le> i" "0 \<le> j"
    and p: "0 \<le> p" "p + pd_bpp s \<le> int (length m)"
  shows "bmp_pixel s bits (and fg FN_C) (and bg FN_C) (fn_rows f) (fn_cols f) i j (m, p) =
    map_option (\<lambda>m1. (m1, p + int (length (cell_pixel s fg bg f b i j)))) (mem_put m p (cell_pixel s fg bg f b i j))"
proof -
  have read: "(if i < fn_rows f \<and> j < fn_cols f then rd bits (i * fn_cols f + j) else Some 0) =
      Some (if i < fn_rows f \<and> j < fn_cols f then b ! nat (i * fn_cols f + j) else 0)"
  proof (cases "i < fn_rows f \<and> j < fn_cols f")
    case True
    then have "(i + 1) * fn_cols f \<le> fn_rows f * fn_cols f" using ij by (intro mult_right_mono) auto
    then have lt: "i * fn_cols f + j < int (length b)" using True b unfolding distrib_right mult_1 by linarith
    have pos: "0 \<le> i * fn_cols f + j" using ij True by simp
    have "length b \<le> length bits" using bits by (metis length_take min.cobounded1)
    moreover have "b ! nat (i * fn_cols f + j) = bits ! nat (i * fn_cols f + j)"
      using bits lt pos by (metis nat_less_iff nth_take)
    ultimately show ?thesis using True lt pos by (simp add: rd_def)
  next
    case False
    then show ?thesis by (simp only: if_False)
  qed
  have "uint (if i < fn_rows f \<and> j < fn_cols f then b ! nat (i * fn_cols f + j) else 0) = grey_at f b i j"
    by (simp add: grey_at_def)
  then show ?thesis
    using mixed_color_eq [OF col] store_pixel_eq [OF bpp p] bpp
    by (simp add: bmp_pixel_def read cell_pixel_def)
qed

lemma bmp2fb_eq:
  assumes col: "colours_ok (pd_fb s)" and bpp: "0 \<le> pd_bpp s" "pd_bpp s \<le> 4" and fn: "0 \<le> pd_fnrows s" "0 \<le> pd_fncols s"
    and b: "int (length b) = fn_rows f * fn_cols f" and bits: "take (length b) bits = b"
    and d: "0 \<le> d" "d + image_len s \<le> int (length (gc_mem s))"
  shows "\<exists>m. bmp2fb s d bits (and fg FN_C) (and bg FN_C) (fn_rows f) (fn_cols f) = Some (s\<lparr>gc_mem := m\<rparr>) \<and>
    mem_put (gc_mem s) d (cell_image s fg bg f b) = Some m"
proof -
  let ?w = "pd_fncols s * pd_bpp s"
  let ?body = "\<lambda>i m. do {
          (m1, _) \<leftarrow> for_range 0 (pd_fncols s) (bmp_pixel s bits (and fg FN_C) (and bg FN_C) (fn_rows f) (fn_cols f) i)
            (m, d + i * pd_fncols s * pd_bpp s);
          Some m1 }"
  let ?rows = "\<lambda>i. concat (map (cell_row s fg bg f b) [0..i - 1])"
  have w: "0 \<le> ?w" using fn bpp by simp
  have len: "int (length (?rows i)) = i * ?w" if "0 \<le> i" for i
    using length_chunks [of i "cell_row s fg bg f b" "nat (pd_fncols s) * nat (pd_bpp s)"] that fn bpp by simp
  have "runs (for_range 0 (pd_fnrows s) ?body (gc_mem s)) (\<lambda>m. mem_put (gc_mem s) d (?rows (pd_fnrows s)) = Some m)"
  proof (rule for_range_inv [where I = "\<lambda>i m. mem_put (gc_mem s) d (?rows i) = Some m"], goal_cases)
    case 1
    from fn(1) show ?case .
  next
    case 2
    have "0 \<le> image_len s" using fn bpp by (simp add: image_len_def)
    with d show ?case by (simp add: mem_put_def)
  next
    case (3 i m)
    have up: "(i + 1) * ?w \<le> pd_fnrows s * ?w" using 3 w by (intro mult_right_mono) auto
    have iw: "0 \<le> i * ?w" using 3 w by simp
    have room: "d + i * ?w + ?w \<le> int (length m)"
      using up d(2) mem_put_length [OF 3(3)] unfolding image_len_def by (simp only: distrib_right mult_1 mult.assoc)
    have row: "length (cell_row s fg bg f b i) = nat ?w" using fn bpp by (simp add: nat_mult_distrib)
    have "for_range 0 (pd_fncols s) (bmp_pixel s bits (and fg FN_C) (and bg FN_C) (fn_rows f) (fn_cols f) i)
        (m, d + i * ?w) = map_option (\<lambda>m1. (m1, d + i * ?w + int (length (cell_row s fg bg f b i))))
        (mem_put m (d + i * ?w) (cell_row s fg bg f b i))"
      unfolding cell_row_def
    proof (rule write_loop, goal_cases)
      case (1 j m p)
      with bmp_pixel_eq [OF col bpp b bits _ _ \<open>0 \<le> p\<close>] \<open>0 \<le> i\<close> bpp show ?case by simp
    next
      case 2
      from d iw show ?case by simp
    next
      case 3
      from room row w show ?case by (simp add: cell_row_def [symmetric])
    qed
    moreover obtain m1 where m1: "mem_put m (d + i * ?w) (cell_row s fg bg f b i) = Some m1"
      using room row w d iw by (simp add: mem_put_def)
    ultimately have body: "?body i m = Some m1" by (simp add: mult.assoc)
    have "[0..(i + 1) - 1] = [0..i - 1] @ [i]" using 3 by (simp add: upto_rec2)
    then have grown: "?rows (i + 1) = ?rows i @ cell_row s fg bg f b i" by simp
    have "mem_put (gc_mem s) d (?rows (i + 1)) = Some m1"
      unfolding grown using 3 m1 len [of i] by (intro mem_put_append [OF 3(3)]) simp
    with body show ?case by simp
  qed
  then show ?thesis by (auto simp: runs_iff bmp2fb_def cell_image_def)
qed

section \<open>The invariant\<close>

definition settings :: "pad \<Rightarrow> (int \<times> int \<times> int \<times> int) \<times> (int \<times> int \<times> int \<times> int) \<times> int \<times> font option list" where
  "settings s = ((pd_fbroff s, pd_fbcoff s, pd_fbrows s, pd_fbcols s),
     (pd_rows s, pd_cols s, pd_fnrows s, pd_fncols s), pd_bpp s, pd_fonts s)"

definition region_ok :: "pad \<Rightarrow> bool" where
  "region_ok s \<longleftrightarrow>
     0 \<le> pd_fbroff s \<and> 0 \<le> pd_fbcoff s \<and> 0 \<le> pd_fbrows s \<and> 0 \<le> pd_fbcols s \<and>
     pd_fbroff s + pd_fbrows s \<le> fb_rows (pd_fb s) \<and> pd_fbcoff s + pd_fbcols s \<le> fb_cols (pd_fb s) \<and>
     pd_rows s = pd_fbrows s div pd_fnrows s \<and> pd_cols s = pd_fbcols s div pd_fncols s"

definition fonts_ok :: "pad \<Rightarrow> bool" where
  "fonts_ok s \<longleftrightarrow>
     length (pd_fonts s) = 3 \<and> pd_fonts s ! 0 \<noteq> None \<and>
     (\<forall>f. Some f \<in> set (pd_fonts s) \<longrightarrow> font_ok f \<and> fn_rows f * fn_cols f \<le> 4096)"

text \<open>Entry \<open>i\<close> of the cache: an entry that was used holds the picture of its key.\<close>

definition entry_ok :: "pad \<Rightarrow> nat \<Rightarrow> bool" where
  "entry_ok s i \<longleftrightarrow> (gc_glyph s ! i \<noteq> 0 \<longrightarrow>
     (\<exists>f b. shown_glyph s (gc_glyph s ! i) (gc_fg s ! i) (gc_bg s ! i) = Some (f, b) \<and>
        mem_get (gc_mem s) (int i * GCGLEN s) (image_len s) =
          Some (cell_image s (gc_fg s ! i) (gc_bg s ! i) f b)))"

definition cache_ok :: "pad \<Rightarrow> bool" where
  "cache_ok s \<longleftrightarrow>
     length (gc_next s) = 128 \<and> (\<forall>n \<in> set (gc_next s). 0 \<le> n \<and> n < 16) \<and>
     length (gc_glyph s) = 2048 \<and> length (gc_fg s) = 2048 \<and> length (gc_bg s) = 2048 \<and>
     int (length (gc_mem s)) = GCN * GCGLEN s \<and> (\<forall>i < 2048. entry_ok s i)"

definition pad_ok :: "pad \<Rightarrow> bool" where
  "pad_ok s \<longleftrightarrow>
     fb_ok (pd_fb s) \<and> colours_ok (pd_fb s) \<and> pd_bpp s = fb_bpp (pd_fb s) \<and>
     0 < pd_fnrows s \<and> 0 < pd_fncols s \<and> region_ok s \<and> fonts_ok s \<and> cache_ok s \<and>
     length (pd_bits s) = 4096 \<and> length (pd_row s) = 32768 \<and> fb_cols (pd_fb s) * pd_bpp s \<le> 32768"

text \<open>
  The pictures depend on the settings and on the colours of the frame buffer. \<open>same_pad\<close>: neither
  has changed, only the pixels, the cache and the buffers may have.
\<close>

definition same_pad :: "pad \<Rightarrow> pad \<Rightarrow> bool" where
  "same_pad s t \<longleftrightarrow> settings t = settings s \<and> (\<exists>img. pd_fb t = paint img (pd_fb s))"

lemma same_refl: "same_pad s s"
  unfolding same_pad_def using paint_nothing [symmetric] by blast

lemma same_trans: "same_pad s t \<Longrightarrow> same_pad t u \<Longrightarrow> same_pad s u"
  unfolding same_pad_def by (metis paint_paint)

lemma paint_colours [simp]: "colour_word (paint img f) = colour_word f" "colours_ok (paint img f) = colours_ok f"
  by (simp_all add: fun_eq_iff colour_word_def colours_ok_def paint_def)

lemma same_settings:
  assumes "same_pad s t"
  shows "pd_fbroff t = pd_fbroff s" "pd_fbcoff t = pd_fbcoff s" "pd_fbrows t = pd_fbrows s" "pd_fbcols t = pd_fbcols s"
    "pd_rows t = pd_rows s" "pd_cols t = pd_cols s" "pd_fnrows t = pd_fnrows s" "pd_fncols t = pd_fncols s"
    "pd_bpp t = pd_bpp s" "pd_fonts t = pd_fonts s"
    "colour_word (pd_fb t) = colour_word (pd_fb s)" "colours_ok (pd_fb t) = colours_ok (pd_fb s)"
    "fb_ok (pd_fb t) = fb_ok (pd_fb s)" "fb_rows (pd_fb t) = fb_rows (pd_fb s)" "fb_cols (pd_fb t) = fb_cols (pd_fb s)"
    "fb_bpp (pd_fb t) = fb_bpp (pd_fb s)"
  using assms by (auto simp: same_pad_def settings_def)

lemma same_pictures:
  assumes "same_pad s t"
  shows "glyph_in t = glyph_in s" "font_choice t = font_choice s" "shown_glyph t = shown_glyph s" "mix t = mix s"
    "pen t = pen s" "cell_pixel t = cell_pixel s" "cell_row t = cell_row s" "cell_image t = cell_image s"
    "image_len t = image_len s" "GCGLEN t = GCGLEN s" "region_ok t = region_ok s" "fonts_ok t = fonts_ok s"
proof -
  note s = same_settings [OF assms]
  show eq: "glyph_in t = glyph_in s" "font_choice t = font_choice s" "mix t = mix s" "pen t = pen s"
    by (auto simp: fun_eq_iff glyph_in_def font_choice_def mix_def pen_def s)
  show "shown_glyph t = shown_glyph s" by (intro ext) (simp only: shown_glyph_def eq)
  show px: "cell_pixel t = cell_pixel s" by (intro ext) (simp only: cell_pixel_def eq s)
  show row: "cell_row t = cell_row s" by (intro ext) (simp only: cell_row_def px s)
  show "cell_image t = cell_image s" by (intro ext) (simp only: cell_image_def row s)
  show "image_len t = image_len s" "GCGLEN t = GCGLEN s" "region_ok t = region_ok s" "fonts_ok t = fonts_ok s"
    by (simp_all add: image_len_def GCGLEN_def region_ok_def fonts_ok_def s)
qed

lemma pad_okD:
  assumes "pad_ok s"
  shows "fb_ok (pd_fb s)" "colours_ok (pd_fb s)" "pd_bpp s = fb_bpp (pd_fb s)" "0 < pd_bpp s" "pd_bpp s \<le> 4"
    "0 < pd_fnrows s" "0 < pd_fncols s" "region_ok s" "fonts_ok s" "cache_ok s" "0 < image_len s" "image_len s \<le> GCGLEN s"
proof -
  from assms show *: "fb_ok (pd_fb s)" "colours_ok (pd_fb s)" "pd_bpp s = fb_bpp (pd_fb s)" "0 < pd_fnrows s"
    "0 < pd_fncols s" "region_ok s" "fonts_ok s" "cache_ok s" by (auto simp: pad_ok_def)
  with fb_okD(1,2) [OF *(1)] show bpp: "0 < pd_bpp s" "pd_bpp s \<le> 4" by auto
  with * show "0 < image_len s" by (simp add: image_len_def)
  from bpp * show "image_len s \<le> GCGLEN s" unfolding image_len_def GCGLEN_def by (intro mult_left_mono) auto
qed

lemma length_image:
  "pad_ok s \<Longrightarrow> int (length (cell_image s fg bg f b)) = image_len s"
  using pad_okD(4,6,7) [of s] by (simp add: image_len_def)

lemma GCIDX_bounds: "0 \<le> c \<Longrightarrow> 0 \<le> GCIDX c \<and> GCIDX c < 128"
proof -
  have "GCIDX c = take_bit 7 c" by (simp add: GCIDX_def GCLCNT_def take_bit_eq_mask mask_eq_exp_minus_1)
  then show ?thesis using take_bit_int_less_exp [of 7 c] by simp
qed

text \<open>A hit in the cache is the picture of its key.\<close>

lemma gc_search_hit:
  assumes "cache_ok s" "\<And>i. i \<in> set is \<Longrightarrow> 0 \<le> i \<and> i < 2048"
  shows "\<exists>hit. gc_search s c fg bg is = Some hit \<and>
    (case hit of None \<Rightarrow> True | Some p \<Rightarrow> \<exists>i. i < 2048 \<and> p = int i * GCGLEN s \<and>
      gc_glyph s ! i = c \<and> gc_fg s ! i = fg \<and> gc_bg s ! i = bg)"
  using assms(2)
proof (induction "is")
  case (Cons i "is")
  have i: "0 \<le> i" "i < 2048" using Cons.prems [of i] by auto
  with assms(1) have at: "rd (gc_glyph s) i = Some (gc_glyph s ! nat i)" "rd (gc_fg s) i = Some (gc_fg s ! nat i)"
      "rd (gc_bg s) i = Some (gc_bg s ! nat i)" by (simp_all add: cache_ok_def rd_def)
  show ?case
  proof (cases "gc_glyph s ! nat i = c \<and> gc_fg s ! nat i = fg \<and> gc_bg s ! nat i = bg")
    case True
    with i at show ?thesis by (auto intro!: exI [of _ "nat i"])
  next
    case False
    with at have "gc_search s c fg bg (i # is) = gc_search s c fg bg is" by auto
    with Cons show ?thesis by simp
  qed
qed simp

lemma gc_get_hit:
  assumes ok: "pad_ok s" and c: "0 < c"
  shows "\<exists>hit. gc_get s c fg bg = Some hit \<and> (case hit of None \<Rightarrow> True | Some p \<Rightarrow>
    \<exists>f b. shown_glyph s c fg bg = Some (f, b) \<and> mem_get (gc_mem s) p (image_len s) = Some (cell_image s fg bg f b))"
proof -
  have cache: "cache_ok s" by (rule pad_okD(10) [OF ok])
  have range: "0 \<le> i \<and> i < 2048" if "i \<in> set [GCIDX c * 16..GCIDX c * 16 + 15]" for i
    using that GCIDX_bounds [of c] c by auto
  from gc_search_hit [OF cache range, of "[GCIDX c * 16..GCIDX c * 16 + 15]" c fg bg]
  obtain hit where hit: "gc_get s c fg bg = Some hit" "case hit of None \<Rightarrow> True | Some p \<Rightarrow> \<exists>i. i < 2048 \<and>
      p = int i * GCGLEN s \<and> gc_glyph s ! i = c \<and> gc_fg s ! i = fg \<and> gc_bg s ! i = bg"
    by (auto simp: gc_get_def GCLLEN_def Let_def add.commute)
  show ?thesis
  proof (cases hit)
    case (Some p)
    with hit obtain i where i: "i < 2048" "p = int i * GCGLEN s" "gc_glyph s ! i = c" "gc_fg s ! i = fg" "gc_bg s ! i = bg"
      by auto
    with cache have "entry_ok s i" by (simp add: cache_ok_def)
    with i c Some hit show ?thesis by (auto simp: entry_ok_def)
  qed (use hit in simp)
qed

lemma same_padI: "settings t = settings s \<Longrightarrow> pd_fb t = paint img (pd_fb s) \<Longrightarrow> same_pad s t"
  unfolding same_pad_def by blast

lemma same_fbI: "settings t = settings s \<Longrightarrow> pd_fb t = pd_fb s \<Longrightarrow> same_pad s t"
  by (rule same_padI [where img = "\<lambda>_ _. None"]) (simp_all add: paint_nothing)

lemma pad_ok_same:
  assumes same: "same_pad s t" and gc: "gc_mem t = gc_mem s" "gc_next t = gc_next s" "gc_glyph t = gc_glyph s"
      "gc_fg t = gc_fg s" "gc_bg t = gc_bg s"
  shows "cache_ok t = cache_ok s"
    "length (pd_bits t) = length (pd_bits s) \<Longrightarrow> length (pd_row t) = length (pd_row s) \<Longrightarrow> pad_ok t = pad_ok s"
proof -
  show c: "cache_ok t = cache_ok s" by (simp add: cache_ok_def entry_ok_def gc same_pictures [OF same])
  then show "pad_ok t = pad_ok s" if "length (pd_bits t) = length (pd_bits s)" "length (pd_row t) = length (pd_row s)"
    using that by (simp add: pad_ok_def same_settings [OF same] same_pictures [OF same])
qed

text \<open>A new entry takes a slot of its list.\<close>

lemma gc_put_runs:
  assumes cache: "cache_ok s" and c: "0 < c"
  shows "\<exists>nx i. gc_put c fg bg s = Some (s\<lparr>gc_next := nx, gc_glyph := (gc_glyph s)[i := c],
      gc_fg := (gc_fg s)[i := fg], gc_bg := (gc_bg s)[i := bg]\<rparr>, int i * GCGLEN s) \<and>
    i < 2048 \<and> length nx = 128 \<and> (\<forall>n \<in> set nx. 0 \<le> n \<and> n < 16)"
proof -
  define l where "l = GCIDX c"
  define pos where "pos = gc_next s ! nat l"
  have l: "0 \<le> l" "l < 128" using GCIDX_bounds [of c] c by (auto simp: l_def)
  have len: "length (gc_next s) = 128" "length (gc_glyph s) = 2048" "length (gc_fg s) = 2048" "length (gc_bg s) = 2048"
    using cache by (auto simp: cache_ok_def)
  have "gc_next s ! nat l \<in> set (gc_next s)" using l len by (intro nth_mem) simp
  then have pos: "0 \<le> pos" "pos < 16" using cache by (auto simp: cache_ok_def pos_def)
  define i where "i = nat (l * 16 + pos)"
  have i: "i < 2048" "l * 16 + pos = int i" using l pos by (auto simp: i_def)
  define nx where "nx = (gc_next s)[nat l := if pos + 1 \<ge> 16 then 0 else pos + 1]"
  have "length nx = 128" by (simp add: nx_def len)
  moreover have "\<forall>n \<in> set nx. 0 \<le> n \<and> n < 16"
    using cache pos set_update_subset_insert [of "gc_next s" "nat l" "if pos + 1 \<ge> 16 then 0 else pos + 1"]
    by (auto simp: cache_ok_def nx_def)
  moreover have "gc_put c fg bg s = Some (s\<lparr>gc_next := nx, gc_glyph := (gc_glyph s)[i := c],
      gc_fg := (gc_fg s)[i := fg], gc_bg := (gc_bg s)[i := bg]\<rparr>, int i * GCGLEN s)"
    using l len pos i by (simp add: gc_put_def l_def [symmetric] rd_def wr_def pos_def [symmetric] GCLLEN_def nx_def Let_def)
  ultimately show ?thesis using i(1) by blast
qed

lemma new_entry_ok:
  assumes ok: "pad_ok s" and i: "i < 2048" and nx: "length nx = 128" "\<forall>n \<in> set nx. 0 \<le> n \<and> n < 16"
    and shown: "shown_glyph s c fg bg = Some (f, b)"
    and put: "mem_put (gc_mem s) (int i * GCGLEN s) (cell_image s fg bg f b) = Some m" and bits: "length bits = 4096"
    and t: "t = s\<lparr>pd_bits := bits, gc_next := nx, gc_glyph := (gc_glyph s)[i := c],
      gc_fg := (gc_fg s)[i := fg], gc_bg := (gc_bg s)[i := bg], gc_mem := m\<rparr>"
  shows "pad_ok t" "mem_get (gc_mem t) (int i * GCGLEN s) (image_len s) = Some (cell_image s fg bg f b)"
proof -
  have fields: "settings t = settings s" "pd_fb t = pd_fb s" by (simp_all add: t settings_def)
  then have same: "same_pad s t" by (rule same_fbI)
  note pics = same_pictures [OF same] and sets = same_settings [OF same]
  have il: "int (length (cell_image s fg bg f b)) = image_len s" "0 < image_len s" "image_len s \<le> GCGLEN s"
    using length_image [OF ok] pad_okD(11,12) [OF ok] by auto
  from mem_put_same [OF put] show got: "mem_get (gc_mem t) (int i * GCGLEN s) (image_len s) = Some (cell_image s fg bg f b)"
    unfolding il(1) by (simp add: t)
  have cache: "cache_ok s" by (rule pad_okD(10) [OF ok])
  have entry: "entry_ok t j" if j: "j < 2048" for j
  proof (cases "j = i")
    case True
    with got shown i cache show ?thesis by (simp add: entry_ok_def pics) (simp add: t cache_ok_def)
  next
    case False
    have "int j * GCGLEN s + image_len s \<le> int i * GCGLEN s \<or> int i * GCGLEN s + int (length (cell_image s fg bg f b)) \<le> int j * GCGLEN s"
    proof (cases "j < i")
      case True
      then have "(int j + 1) * GCGLEN s \<le> int i * GCGLEN s" using il by (intro mult_right_mono) auto
      with il show ?thesis unfolding distrib_right mult_1 by linarith
    next
      case False
      with \<open>j \<noteq> i\<close> have "(int i + 1) * GCGLEN s \<le> int j * GCGLEN s" using il by (intro mult_right_mono) auto
      with il show ?thesis unfolding distrib_right mult_1 by linarith
    qed
    from mem_put_other [OF put this] have "mem_get (gc_mem t) (int j * GCGLEN s) (image_len s) =
        mem_get (gc_mem s) (int j * GCGLEN s) (image_len s)" by (simp add: t)
    moreover have "entry_ok s j" using cache j by (simp add: cache_ok_def)
    moreover have "gc_glyph t ! j = gc_glyph s ! j" "gc_fg t ! j = gc_fg s ! j" "gc_bg t ! j = gc_bg s ! j"
      using False by (simp_all add: t)
    ultimately show ?thesis by (simp add: entry_ok_def pics)
  qed
  have "cache_ok t"
    using cache nx entry mem_put_length [OF put] by (simp add: cache_ok_def pics(10)) (simp add: t)
  moreover have "length (pd_bits t) = 4096" "pd_row t = pd_row s" by (simp_all add: t bits)
  ultimately show "pad_ok t" using ok by (auto simp: pad_ok_def pics sets)
qed

text \<open>The look-up of a character in one font.\<close>

lemma ch2fb_runs:
  assumes ok: "pad_ok s" and fn: "fn \<in> {0, 1, 2}" "pd_fonts s ! nat fn \<noteq> None"
    and shown: "\<And>g. \<not> not_shown c \<Longrightarrow> glyph_in s fn c = Some g \<Longrightarrow> shown_glyph s c fg bg = Some g"
  shows "\<exists>t hit. ch2fb fn c fg bg s = Some (t, hit) \<and> pad_ok t \<and> same_pad s t \<and> pd_fb t = pd_fb s \<and>
    (case hit of None \<Rightarrow> not_shown c \<or> glyph_in s fn c = None
     | Some p \<Rightarrow> \<exists>f b. shown_glyph s c fg bg = Some (f, b) \<and>
         mem_get (gc_mem t) p (image_len s) = Some (cell_image s fg bg f b))"
proof (cases "not_shown c")
  case True
  with ok same_refl show ?thesis by (simp add: ch2fb_def)
next
  case shows_it: False
  then have c: "0 < c" by (auto simp: not_shown_def split: if_splits)
  from gc_get_hit [OF ok c, of fg bg] obtain hit where hit: "gc_get s c fg bg = Some hit" "case hit of None \<Rightarrow> True | Some p \<Rightarrow>
      \<exists>f b. shown_glyph s c fg bg = Some (f, b) \<and> mem_get (gc_mem s) p (image_len s) = Some (cell_image s fg bg f b)"
    by blast
  show ?thesis
  proof (cases hit)
    case (Some p)
    with hit ok shows_it same_refl show ?thesis by (simp add: ch2fb_def)
  next
    case None
    have fonts: "fonts_ok s" by (rule pad_okD(9) [OF ok])
    obtain f where f: "pd_fonts s ! nat fn = Some f" using fn by auto
    with fn fonts have rd: "rd (pd_fonts s) fn = Some (Some f)" by (auto simp: rd_def fonts_ok_def)
    have "Some f \<in> set (pd_fonts s)" using f fn fonts by (auto simp: fonts_ok_def intro!: nth_mem [of "nat fn" "pd_fonts s", simplified f])
    with fonts have fok: "font_ok f" "fn_rows f * fn_cols f \<le> 4096" by (auto simp: fonts_ok_def)
    have len: "length (pd_bits s) = 4096" using ok by (simp add: pad_ok_def)
    with fok have bitmap: "font_bitmap f (pd_bits s) c =
        Some (case glyph_of f c of None \<Rightarrow> (pd_bits s, 1) | Some b \<Rightarrow> (b @ drop (length b) (pd_bits s), 0))"
      by (intro font_bitmap_correct) auto
    show ?thesis
    proof (cases "glyph_of f c")
      case none: None
      then have "glyph_in s fn c = None" by (simp add: glyph_in_def f)
      with shows_it hit None rd bitmap none ok same_refl show ?thesis by (simp add: ch2fb_def)
    next
      case (Some b)
      then have gs: "shown_glyph s c fg bg = Some (f, b)" by (intro shown shows_it) (simp add: glyph_in_def f)
      have blen: "int (length b) = fn_rows f * fn_cols f" by (rule glyph_of_length [OF fok(1) Some])
      define bits where "bits = b @ drop (length b) (pd_bits s)"
      have bl: "length bits = 4096" using blen fok(2) len by (simp add: bits_def)
      define s1 where "s1 = s\<lparr>pd_bits := bits\<rparr>"
      have "same_pad s s1" by (rule same_fbI) (simp_all add: s1_def settings_def)
      then have "cache_ok s1 = cache_ok s" by (rule pad_ok_same) (simp_all add: s1_def)
      with pad_okD(10) [OF ok] have "cache_ok s1" by simp
      from gc_put_runs [OF this c, of fg bg] obtain nx i where put: "gc_put c fg bg s1 = Some (s1\<lparr>gc_next := nx, gc_glyph := (gc_glyph s)[i := c],
          gc_fg := (gc_fg s)[i := fg], gc_bg := (gc_bg s)[i := bg]\<rparr>, int i * GCGLEN s)"
        and nx: "i < 2048" "length nx = 128" "\<forall>n \<in> set nx. 0 \<le> n \<and> n < 16"
        by (auto simp: s1_def GCGLEN_def)
      define s2 where "s2 = s1\<lparr>gc_next := nx, gc_glyph := (gc_glyph s)[i := c], gc_fg := (gc_fg s)[i := fg], gc_bg := (gc_bg s)[i := bg]\<rparr>"
      have same2: "same_pad s s2" by (rule same_fbI) (simp_all add: s2_def s1_def settings_def)
      note D = pad_okD [OF ok] and pics = same_pictures [OF same2] and sets = same_settings [OF same2]
      have "(int i + 1) * GCGLEN s \<le> 2048 * GCGLEN s" using nx(1) D by (intro mult_right_mono) auto
      moreover have "int (length (gc_mem s2)) = 2048 * GCGLEN s"
        using D(10) by (simp add: cache_ok_def GCN_def GCLCNT_def GCLLEN_def s2_def s1_def)
      ultimately have room: "int i * GCGLEN s + image_len s2 \<le> int (length (gc_mem s2))"
        using D(12) unfolding distrib_right mult_1 pics by linarith
      have low: "0 \<le> int i * GCGLEN s" using D by simp
      from bmp2fb_eq [of s2 b f bits "int i * GCGLEN s" fg bg] room low D blen
      obtain m where m: "bmp2fb s2 (int i * GCGLEN s) bits (and fg FN_C) (and bg FN_C) (fn_rows f) (fn_cols f) = Some (s2\<lparr>gc_mem := m\<rparr>)"
          "mem_put (gc_mem s) (int i * GCGLEN s) (cell_image s fg bg f b) = Some m"
        by (auto simp: pics sets bits_def) (auto simp: s2_def s1_def)
      have t: "s2\<lparr>gc_mem := m\<rparr> = s\<lparr>pd_bits := bits, gc_next := nx, gc_glyph := (gc_glyph s)[i := c],
          gc_fg := (gc_fg s)[i := fg], gc_bg := (gc_bg s)[i := bg], gc_mem := m\<rparr>"
        by (simp add: s2_def s1_def)
      have "same_pad s (s2\<lparr>gc_mem := m\<rparr>)" by (rule same_fbI) (simp_all add: t settings_def)
      moreover have "ch2fb fn c fg bg s = Some (s2\<lparr>gc_mem := m\<rparr>, Some (int i * GCGLEN s))"
        using shows_it hit None rd bitmap Some put m(1) by (simp add: ch2fb_def bits_def s1_def s2_def)
      moreover note new_entry_ok [OF ok nx gs m(2) bl t]
      ultimately show ?thesis using gs by (auto simp: t)
    qed
  qed
qed

section \<open>Rows and rectangles\<close>

lemma box_cong:
  "(\<And>y x. sr \<le> y \<Longrightarrow> y < er \<Longrightarrow> sc \<le> x \<Longrightarrow> x < ec \<Longrightarrow> g y x = h y x) \<Longrightarrow> box sr er sc ec g = box sr er sc ec h"
  by (auto simp: box_def fun_eq_iff)

lemma row_pixel_chunk:
  assumes "\<And>j. 0 \<le> j \<Longrightarrow> j < n \<Longrightarrow> length (g j) = nat bpp" "0 < bpp" "sc \<le> x" "x < sc + n"
  shows "row_pixel bpp sc (concat (map g [0..n - 1])) y x = g (x - sc)"
  using concat_chunk [of n g "nat bpp" "x - sc"] assms by (simp add: row_pixel_def nat_mult_distrib)

lemma fb_set_eq:
  assumes ok: "fb_ok (pd_fb s)" "pd_bpp s = fb_bpp (pd_fb s)"
    and y: "0 \<le> pd_fbroff s + r" "pd_fbroff s + r < fb_rows (pd_fb s)"
    and x: "0 \<le> pd_fbcoff s + c" "0 \<le> len" "pd_fbcoff s + c + len \<le> fb_cols (pd_fb s)"
    and b: "mem_get mem at (len * pd_bpp s) = Some b"
  shows "fb_set r c mem at len s = Some (s\<lparr>pd_fb := paint (box (pd_fbroff s + r) (pd_fbroff s + r + 1)
      (pd_fbcoff s + c) (pd_fbcoff s + c + len) (row_pixel (pd_bpp s) (pd_fbcoff s + c) b)) (pd_fb s)\<rparr>)"
proof -
  have "0 \<le> len * pd_bpp s" using x(2) ok fb_okD(1) [OF ok(1)] by simp
  moreover from b have "b = take (nat (len * pd_bpp s)) (drop (nat at) mem)" "at + len * pd_bpp s \<le> int (length mem)" "0 \<le> at"
    by (auto simp: mem_get_def split: if_splits)
  ultimately have "int (length b) = len * pd_bpp s" by simp
  with fb_write_row [OF ok(1) y x(1) _ x(3), of b] x(2) ok(2) b show ?thesis by (simp add: fb_set_def)
qed

lemma fb_set_rows:
  assumes ok: "fb_ok (pd_fb s)" "pd_bpp s = fb_bpp (pd_fb s)"
    and y: "0 \<le> pd_fbroff s + r0 + lo" "pd_fbroff s + r0 + hi \<le> fb_rows (pd_fb s)"
    and x: "0 \<le> pd_fbcoff s + c" "0 \<le> len" "pd_fbcoff s + c + len \<le> fb_cols (pd_fb s)"
    and body: "\<And>i F. lo \<le> i \<Longrightarrow> i < hi \<Longrightarrow> body i (s\<lparr>pd_fb := F\<rparr>) = fb_set (r0 + i) c (mem i) (at i) len (s\<lparr>pd_fb := F\<rparr>)"
    and got: "\<And>i. lo \<le> i \<Longrightarrow> i < hi \<Longrightarrow> mem_get (mem i) (at i) (len * pd_bpp s) = Some (bs i)"
  shows "for_range lo hi body s = Some (s\<lparr>pd_fb := paint (box (pd_fbroff s + r0 + lo) (pd_fbroff s + r0 + hi)
      (pd_fbcoff s + c) (pd_fbcoff s + c + len)
      (\<lambda>y. row_pixel (pd_bpp s) (pd_fbcoff s + c) (bs (y - pd_fbroff s - r0)) y)) (pd_fb s)\<rparr>)"
proof (cases "lo \<le> hi")
  case False
  then show ?thesis by (simp add: box_empty)
next
  case True
  let ?y = "pd_fbroff s + r0" and ?x = "pd_fbcoff s + c"
  let ?img = "\<lambda>i. box (?y + lo) (?y + i) ?x (?x + len) (\<lambda>y. row_pixel (pd_bpp s) ?x (bs (y - pd_fbroff s - r0)) y)"
  have "runs (for_range lo hi body s) (\<lambda>t. t = s\<lparr>pd_fb := paint (?img hi) (pd_fb s)\<rparr>)"
  proof (rule for_range_inv [where I = "\<lambda>i t. t = s\<lparr>pd_fb := paint (?img i) (pd_fb s)\<rparr>"], goal_cases)
    case 1
    from True show ?case .
  next
    case 2
    show ?case by (simp add: box_empty)
  next
    case (3 i t)
    let ?one = "box (?y + i) (?y + i + 1) ?x (?x + len) (row_pixel (pd_bpp s) ?x (bs i))"
    have "over ?one (?img i) = ?img (i + 1)"
      using 3(1) by (auto simp: over_def box_def fun_eq_iff row_pixel_def split: if_splits intro!: arg_cong [where f = bs])
    then have "paint ?one (paint (?img i) (pd_fb s)) = paint (?img (i + 1)) (pd_fb s)" by (simp add: paint_paint)
    moreover have "fb_set (r0 + i) c (mem i) (at i) len t = Some (t\<lparr>pd_fb := paint ?one (pd_fb t)\<rparr>)"
      using fb_set_eq [of t "r0 + i" c len "mem i" "at i" "bs i"] 3 ok y x got [of i] fb_okD(1) [OF ok(1)]
      by (simp add: add.assoc)
    ultimately show ?case using 3 body [of i] by simp
  qed
  then show ?thesis by (auto simp: runs_iff)
qed

lemma rowbuf_eq:
  assumes bpp: "0 < pd_bpp s" "pd_bpp s \<le> 4" and len: "0 \<le> len" "len * pd_bpp s \<le> int (length (pd_row s))"
  shows "\<exists>row. rowbuf v len s = Some (s\<lparr>pd_row := row\<rparr>) \<and> length row = length (pd_row s) \<and>
    mem_get row 0 (len * pd_bpp s) = Some (concat (map (\<lambda>_. pixel_bytes (pd_bpp s) v) [0..len - 1]))"
proof -
  let ?g = "\<lambda>_::int. pixel_bytes (pd_bpp s) v"
  have bs: "int (length (concat (map ?g [0..len - 1]))) = len * pd_bpp s"
    using length_chunks [of len ?g "nat (pd_bpp s)"] bpp len by simp
  have "for_range 0 len (\<lambda>i at. store_pixel (pd_bpp s) v at) (pd_row s, 0) =
      map_option (\<lambda>m1. (m1, 0 + int (length (concat (map ?g [0..len - 1]))))) (mem_put (pd_row s) 0 (concat (map ?g [0..len - 1])))"
  proof (rule write_loop, goal_cases)
    case (1 i m p)
    with bpp show ?case by (simp add: store_pixel_eq)
  next
    case 3
    from bs len show ?case by simp
  qed simp
  moreover obtain row where row: "mem_put (pd_row s) 0 (concat (map ?g [0..len - 1])) = Some row"
    using bs len by (simp add: mem_put_def)
  ultimately have "rowbuf v len s = Some (s\<lparr>pd_row := row\<rparr>)" by (simp add: rowbuf_def)
  with mem_put_same [OF row] mem_put_length [OF row] show ?thesis unfolding bs by blast
qed

lemma fb_box_eq:
  assumes ok: "pad_ok s" and y: "0 \<le> pd_fbroff s + sr" "pd_fbroff s + er \<le> fb_rows (pd_fb s)"
    and x: "0 \<le> pd_fbcoff s + sc" "sc \<le> ec" "pd_fbcoff s + ec \<le> fb_cols (pd_fb s)"
  shows "\<exists>t. fb_box sr er sc ec v s = Some t \<and> pad_ok t \<and> settings t = settings s \<and>
    pd_fb t = paint (box (pd_fbroff s + sr) (pd_fbroff s + er) (pd_fbcoff s + sc) (pd_fbcoff s + ec)
      (\<lambda>_ _. pixel_bytes (pd_bpp s) v)) (pd_fb s)"
proof -
  note D = pad_okD [OF ok]
  have "(ec - sc) * pd_bpp s \<le> fb_cols (pd_fb s) * pd_bpp s" using x D by (intro mult_right_mono) auto
  moreover have "length (pd_row s) = 32768" "fb_cols (pd_fb s) * pd_bpp s \<le> 32768" using ok by (auto simp: pad_ok_def)
  ultimately have room: "(ec - sc) * pd_bpp s \<le> int (length (pd_row s))" by simp
  define bs where "bs = concat (map (\<lambda>_. pixel_bytes (pd_bpp s) v) [0..(ec - sc) - 1])"
  from rowbuf_eq [OF D(4,5) _ room, of v] x obtain row where row: "rowbuf v (ec - sc) s = Some (s\<lparr>pd_row := row\<rparr>)"
      "length row = length (pd_row s)" "mem_get row 0 ((ec - sc) * pd_bpp s) = Some bs"
    by (auto simp: bs_def)
  let ?s1 = "s\<lparr>pd_row := row\<rparr>"
  let ?img = "box (pd_fbroff s + sr) (pd_fbroff s + er) (pd_fbcoff s + sc) (pd_fbcoff s + ec)"
  have "for_range sr er (\<lambda>i s. fb_set i sc (pd_row s) 0 (ec - sc) s) ?s1 =
      Some (?s1\<lparr>pd_fb := paint (?img (\<lambda>y. row_pixel (pd_bpp s) (pd_fbcoff s + sc) bs y)) (pd_fb s)\<rparr>)"
    using fb_set_rows [of ?s1 0 sr er sc "ec - sc" "\<lambda>i s. fb_set i sc (pd_row s) 0 (ec - sc) s" "\<lambda>_. row" "\<lambda>_. 0" "\<lambda>_. bs"]
      D x y row(3) by simp
  moreover have "?img (\<lambda>y. row_pixel (pd_bpp s) (pd_fbcoff s + sc) bs y) = ?img (\<lambda>_ _. pixel_bytes (pd_bpp s) v)"
    unfolding bs_def by (rule box_cong, rule row_pixel_chunk) (use D in auto)
  ultimately have box: "fb_box sr er sc ec v s = Some (?s1\<lparr>pd_fb := paint (?img (\<lambda>_ _. pixel_bytes (pd_bpp s) v)) (pd_fb s)\<rparr>)"
    by (simp add: fb_box_def row(1))
  let ?t = "?s1\<lparr>pd_fb := paint (?img (\<lambda>_ _. pixel_bytes (pd_bpp s) v)) (pd_fb s)\<rparr>"
  have set: "settings ?t = settings s" by (simp add: settings_def)
  then have "same_pad s ?t" by (rule same_padI) simp
  then have "pad_ok ?t = pad_ok s" by (rule pad_ok_same(2)) (simp_all add: row(2))
  with ok box set show ?thesis by auto
qed

section \<open>Characters\<close>

definition shown_pixel :: "pad \<Rightarrow> int \<Rightarrow> int \<Rightarrow> int \<Rightarrow> int \<Rightarrow> int \<Rightarrow> 8 word list" where
  "shown_pixel s ch fg bg i j =
     (case shown_glyph s ch fg bg of
        Some (f, b) \<Rightarrow> cell_pixel s fg bg f b i j
      | None \<Rightarrow> pixel_bytes (pd_bpp s) (pen s (and bg FN_C)))"

definition cell_picture :: "pad \<Rightarrow> int \<Rightarrow> int \<Rightarrow> int \<Rightarrow> int \<Rightarrow> int \<Rightarrow> picture" where
  "cell_picture s ch r c fg bg = (
     let y0 = pd_fbroff s + pd_fnrows s * r; x0 = pd_fbcoff s + pd_fncols s * c
     in box y0 (y0 + pd_fnrows s) x0 (x0 + pd_fncols s) (\<lambda>y x. shown_pixel s ch fg bg (y - y0) (x - x0)))"

lemma cell_bounds:
  assumes ok: "pad_ok s" and r: "0 \<le> r" "r < pd_rows s" and c: "0 \<le> c" "c < pd_cols s"
  shows "0 \<le> pd_fnrows s * r" "pd_fnrows s * r + pd_fnrows s \<le> pd_fbrows s"
    "0 \<le> pd_fncols s * c" "pd_fncols s * c + pd_fncols s \<le> pd_fbcols s"
proof -
  have R: "region_ok s" "0 < pd_fnrows s" "0 < pd_fncols s" using pad_okD [OF ok] by auto
  have "(r + 1) * pd_fnrows s \<le> pd_fbrows s" "(c + 1) * pd_fncols s \<le> pd_fbcols s"
    using R r c div_less_iff(2) [of "pd_fnrows s" "r + 1" "pd_fbrows s"] div_less_iff(2) [of "pd_fncols s" "c + 1" "pd_fbcols s"]
    by (simp_all add: region_ok_def)
  then show "pd_fnrows s * r + pd_fnrows s \<le> pd_fbrows s" "pd_fncols s * c + pd_fncols s \<le> pd_fbcols s"
    by (simp_all add: algebra_simps)
  from R r c show "0 \<le> pd_fnrows s * r" "0 \<le> pd_fncols s * c" by simp_all
qed

lemma fnsel_eq:
  assumes "fonts_ok s"
  shows "fnsel fg bg s = Some (font_choice s fg bg)" "font_choice s fg bg \<in> {0, 1, 2}"
    "pd_fonts s ! nat (font_choice s fg bg) \<noteq> None"
  using assms by (simp_all add: fnsel_def font_choice_def rd_def fonts_ok_def)

text \<open>The two look-ups of \<open>pad_put\<close>, with the regular font as the fallback.\<close>

lemma both_lookups:
  assumes ok: "pad_ok s"
  shows "\<exists>t hit. (do { (s1, bits) \<leftarrow> ch2fb (font_choice s fg bg) ch fg bg s;
      (if bits = None then ch2fb 0 ch fg bg s1 else Some (s1, bits)) }) = Some (t, hit) \<and>
    pad_ok t \<and> same_pad s t \<and> pd_fb t = pd_fb s \<and>
    (case hit of None \<Rightarrow> shown_glyph s ch fg bg = None
     | Some p \<Rightarrow> \<exists>f b. shown_glyph s ch fg bg = Some (f, b) \<and>
         mem_get (gc_mem t) p (image_len s) = Some (cell_image s fg bg f b))"
proof -
  have fonts: "fonts_ok s" by (rule pad_okD(9) [OF ok])
  have "shown_glyph s ch fg bg = Some g" if "\<not> not_shown ch" "glyph_in s (font_choice s fg bg) ch = Some g" for g
    using that by (simp add: shown_glyph_def)
  from ch2fb_runs [OF ok fnsel_eq(2,3) [OF fonts] this]
  obtain s1 h where one: "ch2fb (font_choice s fg bg) ch fg bg s = Some (s1, h)" "pad_ok s1" "same_pad s s1" "pd_fb s1 = pd_fb s"
      "case h of None \<Rightarrow> not_shown ch \<or> glyph_in s (font_choice s fg bg) ch = None
       | Some p \<Rightarrow> \<exists>f b. shown_glyph s ch fg bg = Some (f, b) \<and> mem_get (gc_mem s1) p (image_len s) = Some (cell_image s fg bg f b)"
    by blast
  show ?thesis
  proof (cases h)
    case (Some p)
    with one show ?thesis by auto
  next
    case None
    note pics = same_pictures [OF one(3)]
    have font0: "pd_fonts s1 ! nat 0 \<noteq> None" using fonts by (simp add: fonts_ok_def same_settings [OF one(3)])
    have "shown_glyph s1 ch fg bg = Some g" if "\<not> not_shown ch" "glyph_in s1 0 ch = Some g" for g
      using that None one(5) by (simp add: pics shown_glyph_def)
    from ch2fb_runs [OF one(2) _ font0 this]
    obtain t h2 where two': "ch2fb 0 ch fg bg s1 = Some (t, h2)" "pad_ok t" "same_pad s1 t" "pd_fb t = pd_fb s1"
        "case h2 of None \<Rightarrow> not_shown ch \<or> glyph_in s 0 ch = None
         | Some p \<Rightarrow> \<exists>f b. shown_glyph s ch fg bg = Some (f, b) \<and> mem_get (gc_mem t) p (image_len s) = Some (cell_image s fg bg f b)"
      unfolding pics by blast
    note two = two' [unfolded one(4)]
    have "shown_glyph s ch fg bg = None" if "h2 = None"
      using that None one(5) two(5) by (auto simp: shown_glyph_def)
    with two None one same_trans [OF one(3) two(3)] show ?thesis by (cases h2) auto
  qed
qed

lemma image_row:
  assumes ok: "pad_ok s" and m: "mem_get m p (image_len s) = Some (cell_image s fg bg f b)" and i: "0 \<le> i" "i < pd_fnrows s"
  shows "mem_get m (p + i * pd_fncols s * pd_bpp s) (pd_fncols s * pd_bpp s) = Some (cell_row s fg bg f b i)"
proof -
  have D: "0 < pd_bpp s" "0 < pd_fncols s" using pad_okD [OF ok] by auto
  let ?w = "pd_fncols s * pd_bpp s"
  have "(i + 1) * ?w \<le> pd_fnrows s * ?w" using i D by (intro mult_right_mono) auto
  then have "i * ?w + ?w \<le> image_len s" unfolding image_len_def distrib_right mult_1 by (simp only: mult.assoc)
  moreover have "0 \<le> i * ?w" "0 \<le> ?w" using i D by simp_all
  ultimately have "mem_get m (p + i * ?w) ?w = Some (take (nat ?w) (drop (nat (i * ?w)) (cell_image s fg bg f b)))"
    by (intro mem_get_inner [OF m]) auto
  moreover have "nat ?w = nat (pd_fncols s) * nat (pd_bpp s)" "nat (i * ?w) = nat i * (nat (pd_fncols s) * nat (pd_bpp s))"
    using D i by (simp_all add: nat_mult_distrib)
  ultimately show ?thesis using concat_chunk [of "pd_fnrows s" "cell_row s fg bg f b" "nat (pd_fncols s) * nat (pd_bpp s)" i] i
    by (simp add: cell_image_def mult.assoc)
qed

lemma pad_put_paints:
  assumes ok: "pad_ok s" and r: "0 \<le> r" "r < pd_rows s" and c: "0 \<le> c" "c < pd_cols s"
  shows "\<exists>t. pad_put ch r c fg bg s = Some t \<and> pad_ok t \<and> settings t = settings s \<and>
    pd_fb t = paint (cell_picture s ch r c fg bg) (pd_fb s)"
proof -
  note D = pad_okD [OF ok]
  from both_lookups [OF ok, of fg bg ch] obtain t hit where look: "(do { (s1, bits) \<leftarrow> ch2fb (font_choice s fg bg) ch fg bg s;
      (if bits = None then ch2fb 0 ch fg bg s1 else Some (s1, bits)) }) = Some (t, hit)"
    and t: "pad_ok t" "same_pad s t" "pd_fb t = pd_fb s" and hit: "case hit of None \<Rightarrow> shown_glyph s ch fg bg = None
     | Some p \<Rightarrow> \<exists>f b. shown_glyph s ch fg bg = Some (f, b) \<and> mem_get (gc_mem t) p (image_len s) = Some (cell_image s fg bg f b)"
    by blast
  note sets = same_settings [OF t(2)] and pics = same_pictures [OF t(2)] and E = pad_okD [OF t(1)]
  let ?r = "pd_fnrows s * r" and ?c = "pd_fncols s * c"
  have put: "pad_put ch r c fg bg s = (case hit of
        None \<Rightarrow> do { v \<leftarrow> color2fb t (and bg FN_C); fb_box ?r (?r + pd_fnrows t) ?c (?c + pd_fncols t) v t }
      | Some p \<Rightarrow> for_range 0 (pd_fnrows t)
          (\<lambda>i s. fb_set (?r + i) ?c (gc_mem s) (p + i * pd_fncols s * pd_bpp s) (pd_fncols s) s) t)"
    using look by (auto simp: pad_put_def fnsel_eq(1) [OF D(9)] Let_def Option.bind_eq_Some_conv)
  have reg: "0 \<le> pd_fbroff s" "0 \<le> pd_fbcoff s" "pd_fbroff s + pd_fbrows s \<le> fb_rows (pd_fb s)"
      "pd_fbcoff s + pd_fbcols s \<le> fb_cols (pd_fb s)" using D(8) by (auto simp: region_ok_def)
  note bounds = cell_bounds [OF ok r c]
  have settings: "settings t = settings s" using t(2) by (simp add: same_pad_def)
  show ?thesis
  proof (cases hit)
    case None
    have "color2fb t (and bg FN_C) = Some (pen s (and bg FN_C))" using color2fb_eq [OF E(2)] by (simp add: pics)
    moreover from fb_box_eq [OF t(1), of ?r "?r + pd_fnrows s" ?c "?c + pd_fncols s" "pen s (and bg FN_C)"] reg bounds D(7)
    obtain u where u: "fb_box ?r (?r + pd_fnrows s) ?c (?c + pd_fncols s) (pen s (and bg FN_C)) t = Some u" "pad_ok u"
        "settings u = settings t" "pd_fb u = paint (box (pd_fbroff s + ?r) (pd_fbroff s + (?r + pd_fnrows s))
          (pd_fbcoff s + ?c) (pd_fbcoff s + (?c + pd_fncols s)) (\<lambda>_ _. pixel_bytes (pd_bpp s) (pen s (and bg FN_C)))) (pd_fb s)"
      by (auto simp: sets t(3))
    moreover have "cell_picture s ch r c fg bg = box (pd_fbroff s + ?r) (pd_fbroff s + (?r + pd_fnrows s))
          (pd_fbcoff s + ?c) (pd_fbcoff s + (?c + pd_fncols s)) (\<lambda>_ _. pixel_bytes (pd_bpp s) (pen s (and bg FN_C)))"
      using hit None by (simp add: cell_picture_def shown_pixel_def Let_def add.assoc)
    ultimately show ?thesis using put None settings by (simp add: sets)
  next
    case (Some p)
    then obtain f b where fb: "shown_glyph s ch fg bg = Some (f, b)"
        "mem_get (gc_mem t) p (image_len s) = Some (cell_image s fg bg f b)" using hit by auto
    let ?body = "\<lambda>i s. fb_set (?r + i) ?c (gc_mem s) (p + i * pd_fncols s * pd_bpp s) (pd_fncols s) s"
    have got: "mem_get (gc_mem t) (p + i * pd_fncols s * pd_bpp s) (pd_fncols s * pd_bpp t) = Some (cell_row s fg bg f b i)"
      if "0 \<le> i" "i < pd_fnrows s" for i
      using image_row [OF ok fb(2) that] by (simp add: sets)
    let ?u = "t\<lparr>pd_fb := paint (box (pd_fbroff t + ?r + 0) (pd_fbroff t + ?r + pd_fnrows s) (pd_fbcoff t + ?c) (pd_fbcoff t + ?c + pd_fncols s)
        (\<lambda>y. row_pixel (pd_bpp t) (pd_fbcoff t + ?c) (cell_row s fg bg f b (y - pd_fbroff t - ?r)) y)) (pd_fb t)\<rparr>"
    have "for_range 0 (pd_fnrows s) ?body t = Some ?u"
    proof (rule fb_set_rows [where mem = "\<lambda>_. gc_mem t" and at = "\<lambda>i. p + i * pd_fncols s * pd_bpp s"], goal_cases)
      case (9 i)
      from got [OF 9] show ?case .
    qed (use E D reg bounds in \<open>simp_all add: sets t(3)\<close>)
    moreover have "paint (box (pd_fbroff t + ?r + 0) (pd_fbroff t + ?r + pd_fnrows s) (pd_fbcoff t + ?c) (pd_fbcoff t + ?c + pd_fncols s)
        (\<lambda>y. row_pixel (pd_bpp t) (pd_fbcoff t + ?c) (cell_row s fg bg f b (y - pd_fbroff t - ?r)) y)) (pd_fb t) =
        paint (cell_picture s ch r c fg bg) (pd_fb s)"
    proof -
      have "row_pixel (pd_bpp s) (pd_fbcoff s + ?c) (cell_row s fg bg f b (y - pd_fbroff s - ?r)) y x =
          cell_pixel s fg bg f b (y - (pd_fbroff s + ?r)) (x - (pd_fbcoff s + ?c))"
        if "pd_fbcoff s + ?c \<le> x" "x < pd_fbcoff s + ?c + pd_fncols s" for y x
        unfolding cell_row_def using that D(4) by (subst row_pixel_chunk) (auto simp: diff_diff_eq)
      then show ?thesis unfolding sets t(3) cell_picture_def Let_def
        by (intro arg_cong2 [where f = paint] refl, simp only: add_0_right, intro box_cong) (simp add: shown_pixel_def fb(1))
    qed
    moreover have "settings ?u = settings s" using settings by (simp add: settings_def)
    moreover have "pad_ok ?u"
    proof -
      have "same_pad t ?u" by (rule same_padI) (simp_all add: settings_def)
      then have "pad_ok ?u = pad_ok t" by (rule pad_ok_same(2)) simp_all
      with t(1) show ?thesis by simp
    qed
    ultimately show ?thesis using put Some by (simp add: sets)
  qed
qed

section \<open>Filled rectangles and the border\<close>

definition fill_picture :: "pad \<Rightarrow> int \<Rightarrow> int \<Rightarrow> int \<Rightarrow> int \<Rightarrow> int \<Rightarrow> picture" where
  "fill_picture s sr er sc ec c =
     box (pd_fbroff s + sr * pd_fnrows s) (pd_fbroff s + (if er \<ge> 0 then er * pd_fnrows s else pd_fbrows s))
       (pd_fbcoff s + sc * pd_fncols s) (pd_fbcoff s + (if ec \<ge> 0 then ec * pd_fncols s else pd_fbcols s))
       (\<lambda>_ _. pixel_bytes (pd_bpp s) (pen s (and c FN_C)))"

lemma cells_fit:
  assumes ok: "pad_ok s" 
  shows "k \<le> pd_rows s \<Longrightarrow> k * pd_fnrows s \<le> pd_fbrows s" "k \<le> pd_cols s \<Longrightarrow> k * pd_fncols s \<le> pd_fbcols s"
  using pad_okD(6,7,8) [OF ok] div_less_iff(2) [of "pd_fnrows s" k "pd_fbrows s"] div_less_iff(2) [of "pd_fncols s" k "pd_fbcols s"]
  by (simp_all add: region_ok_def)

lemma pad_fill_paints:
  assumes ok: "pad_ok s" and r: "0 \<le> sr" "er \<le> pd_rows s" and c: "0 \<le> sc" "sc \<le> (if ec \<ge> 0 then ec else pd_cols s)" "ec \<le> pd_cols s"
  shows "\<exists>t. pad_fill sr er sc ec col s = Some t \<and> pad_ok t \<and> settings t = settings s \<and>
    pd_fb t = paint (fill_picture s sr er sc ec col) (pd_fb s)"
proof -
  note D = pad_okD [OF ok]
  have reg: "0 \<le> pd_fbroff s" "0 \<le> pd_fbcoff s" "pd_fbroff s + pd_fbrows s \<le> fb_rows (pd_fb s)"
      "pd_fbcoff s + pd_fbcols s \<le> fb_cols (pd_fb s)" using D(8) by (auto simp: region_ok_def)
  have "(if er \<ge> 0 then er * pd_fnrows s else pd_fbrows s) \<le> pd_fbrows s" using cells_fit(1) [OF ok r(2)] by simp
  moreover have "(if ec \<ge> 0 then ec * pd_fncols s else pd_fbcols s) \<le> pd_fbcols s" using cells_fit(2) [OF ok c(3)] by simp
  moreover have "sc * pd_fncols s \<le> (if ec \<ge> 0 then ec * pd_fncols s else pd_fbcols s)"
    using c(2) D(7) cells_fit(2) [OF ok, of sc] by (auto intro: mult_right_mono)
  moreover have "0 \<le> sr * pd_fnrows s" "0 \<le> sc * pd_fncols s" using r c D by simp_all
  ultimately obtain t where "fb_box (sr * pd_fnrows s) (if er \<ge> 0 then er * pd_fnrows s else pd_fbrows s)
      (sc * pd_fncols s) (if ec \<ge> 0 then ec * pd_fncols s else pd_fbcols s) (pen s (and col FN_C)) s = Some t"
      "pad_ok t" "settings t = settings s" "pd_fb t = paint (fill_picture s sr er sc ec col) (pd_fb s)"
    using fb_box_eq [OF ok, of "sr * pd_fnrows s" "if er \<ge> 0 then er * pd_fnrows s else pd_fbrows s"
        "sc * pd_fncols s" "if ec \<ge> 0 then ec * pd_fncols s else pd_fbcols s" "pen s (and col FN_C)"] reg
    unfolding fill_picture_def by auto
  then show ?thesis by (simp add: pad_fill_def Let_def color2fb_eq [OF D(2)])
qed

text \<open>The frame of width \<open>wid\<close> around the region.\<close>

definition frame_picture :: "pad \<Rightarrow> int \<Rightarrow> int \<Rightarrow> picture" where
  "frame_picture s c wid y x = (
     let y0 = pd_fbroff s; y1 = pd_fbroff s + pd_fbrows s; x0 = pd_fbcoff s; x1 = pd_fbcoff s + pd_fbcols s
     in if y0 - wid \<le> y \<and> y < y1 + wid \<and> x0 - wid \<le> x \<and> x < x1 + wid \<and>
           \<not> (y0 \<le> y \<and> y < y1 \<and> x0 \<le> x \<and> x < x1)
        then Some (pixel_bytes (pd_bpp s) (pen s (and c FN_C))) else None)"

lemma pad_border_paints:
  assumes ok: "pad_ok s" and wid: "0 \<le> wid" "wid \<le> pd_fbroff s" "wid \<le> pd_fbcoff s"
    and fits: "pd_fbroff s + pd_fbrows s + wid \<le> fb_rows (pd_fb s)" "pd_fbcoff s + pd_fbcols s + wid \<le> fb_cols (pd_fb s)"
  shows "\<exists>t. pad_border c wid s = Some t \<and> pad_ok t \<and> settings t = settings s \<and>
    pd_fb t = paint (frame_picture s c wid) (pd_fb s)"
proof -
  let ?v = "pen s (and c FN_C)"
  let ?box = "\<lambda>sr er sc ec. box (pd_fbroff s + sr) (pd_fbroff s + er) (pd_fbcoff s + sc) (pd_fbcoff s + ec)
      (\<lambda>_ _. pixel_bytes (pd_bpp s) ?v)"
  have reg: "0 \<le> pd_fbrows s" "0 \<le> pd_fbcols s" using pad_okD(8) [OF ok] by (auto simp: region_ok_def)
  have step: "\<exists>u. fb_box sr er sc ec ?v t = Some u \<and> pad_ok u \<and> settings u = settings s \<and> pd_fb u = paint (?box sr er sc ec) (pd_fb t)"
    if t: "pad_ok t" "settings t = settings s" "fb_rows (pd_fb t) = fb_rows (pd_fb s)" "fb_cols (pd_fb t) = fb_cols (pd_fb s)"
      and b: "0 \<le> pd_fbroff s + sr" "pd_fbroff s + er \<le> fb_rows (pd_fb s)" "0 \<le> pd_fbcoff s + sc" "sc \<le> ec"
        "pd_fbcoff s + ec \<le> fb_cols (pd_fb s)" for t sr er sc ec
    using fb_box_eq [OF t(1), of sr er sc ec ?v] b t(2-) by (simp add: settings_def)
  from step [of s "- wid" 0 "- wid" "pd_fbcols s + wid"] ok wid fits reg obtain s1 where
    s1: "fb_box (- wid) 0 (- wid) (pd_fbcols s + wid) ?v s = Some s1" "pad_ok s1" "settings s1 = settings s"
      "pd_fb s1 = paint (?box (- wid) 0 (- wid) (pd_fbcols s + wid)) (pd_fb s)" by auto
  from step [of s1 "pd_fbrows s" "pd_fbrows s + wid" "- wid" "pd_fbcols s + wid"] s1 wid fits reg obtain s2 where
    s2: "fb_box (pd_fbrows s) (pd_fbrows s + wid) (- wid) (pd_fbcols s + wid) ?v s1 = Some s2" "pad_ok s2" "settings s2 = settings s"
      "pd_fb s2 = paint (?box (pd_fbrows s) (pd_fbrows s + wid) (- wid) (pd_fbcols s + wid)) (pd_fb s1)" by auto
  from step [of s2 "- wid" "pd_fbrows s + wid" "- wid" 0] s1(4) s2 wid fits reg obtain s3 where
    s3: "fb_box (- wid) (pd_fbrows s + wid) (- wid) 0 ?v s2 = Some s3" "pad_ok s3" "settings s3 = settings s"
      "pd_fb s3 = paint (?box (- wid) (pd_fbrows s + wid) (- wid) 0) (pd_fb s2)" by auto
  from step [of s3 "- wid" "pd_fbrows s + wid" "pd_fbcols s" "pd_fbcols s + wid"] s1(4) s2(4) s3 wid fits reg obtain s4 where
    s4: "fb_box (- wid) (pd_fbrows s + wid) (pd_fbcols s) (pd_fbcols s + wid) ?v s3 = Some s4" "pad_ok s4" "settings s4 = settings s"
      "pd_fb s4 = paint (?box (- wid) (pd_fbrows s + wid) (pd_fbcols s) (pd_fbcols s + wid)) (pd_fb s3)" by auto
  have same: "pd_fbcols s1 = pd_fbcols s" "pd_fbrows s1 = pd_fbrows s" "pd_fbcols s2 = pd_fbcols s" "pd_fbrows s2 = pd_fbrows s"
      "pd_fbcols s3 = pd_fbcols s" "pd_fbrows s3 = pd_fbrows s"
    using s1(3) s2(3) s3(3) by (simp_all add: settings_def)
  have "over (?box (- wid) (pd_fbrows s + wid) (pd_fbcols s) (pd_fbcols s + wid))
      (over (?box (- wid) (pd_fbrows s + wid) (- wid) 0)
        (over (?box (pd_fbrows s) (pd_fbrows s + wid) (- wid) (pd_fbcols s + wid)) (?box (- wid) 0 (- wid) (pd_fbcols s + wid))))
      = frame_picture s c wid"
    using wid reg by (auto simp: fun_eq_iff over_def box_def frame_picture_def Let_def)
  then have "pd_fb s4 = paint (frame_picture s c wid) (pd_fb s)"
    by (simp add: s4(4) s3(4) s2(4) s1(4) paint_paint)
  moreover have "pad_border c wid s = Some s4"
    using s1(1) s2(1) s3(1) s4(1) wid by (simp add: pad_border_def color2fb_eq [OF pad_okD(2) [OF ok]])
  ultimately show ?thesis using s4 by blast
qed

section \<open>The start establishes the invariant\<close>

text \<open>The static variables before \<open>pad_init\<close>.\<close>

definition pad_static :: "fbuf \<Rightarrow> pad" where
  "pad_static f = \<lparr>pd_fb = f, pd_fbroff = 0, pd_fbcoff = 0, pd_fbrows = 0, pd_fbcols = 0, pd_rows = 0, pd_cols = 0,
     pd_fnrows = 0, pd_fncols = 0, pd_bpp = 0, pd_fonts = [None, None, None], gc_mem = [],
     gc_next = replicate 128 0, gc_glyph = replicate 2048 0, gc_bg = replicate 2048 0, gc_fg = replicate 2048 0,
     pd_bits = replicate 4096 0, pd_row = replicate 32768 0\<rparr>"

definition usable_font :: "8 word list \<Rightarrow> font \<Rightarrow> bool" where
  "usable_font data f \<longleftrightarrow> font_open_static True data = Some f \<and> font_ok f \<and> fn_rows f * fn_cols f \<le> 4096"

text \<open>A device with the depths of colour and the size that the static buffers are made for.\<close>

definition device_ok :: "fbuf \<Rightarrow> bool" where
  "device_ok f \<longleftrightarrow> fb_ok f \<and> colours_ok f \<and> fb_cols f * fb_bpp f \<le> 32768 \<and>
     (\<forall>c \<in> {vi_red, vi_green, vi_blue}. 0 \<le> bf_length (c (fb_vinfo f)) \<and> bf_length (c (fb_vinfo f)) < 16)"

lemma pad_init_ok:
  assumes dev: "device_ok f" and fr: "usable_font fr f0" and fi: "usable_font fi f1" and fb: "usable_font fb f2"
    and dims: "0 < fn_rows f0" "0 < fn_cols f0" and cache: "int (length cache) = 2048 * (fn_rows f0 * fn_cols f0 * 4)"
  shows "\<exists>s. pad_init True (Some cache) fr fi fb (pad_static f) = Some (s, 0) \<and> pad_ok s \<and> pd_fb s = f \<and>
    pd_rows s = fb_rows f div fn_rows f0 \<and> pd_cols s = fb_cols f div fn_cols f0 \<and> pd_fonts s = [Some f0, Some f1, Some f2] \<and>
    pd_fnrows s = fn_rows f0 \<and> pd_fncols s = fn_cols f0"
proof -
  define s where "s = (pad_static f)\<lparr>pd_fonts := [Some f0, Some f1, Some f2], pd_fnrows := fn_rows f0, pd_fncols := fn_cols f0,
      gc_mem := cache, pd_rows := fb_rows f div fn_rows f0, pd_cols := fb_cols f div fn_cols f0, pd_bpp := fb_bpp f,
      pd_fbrows := fb_rows f, pd_fbcols := fb_cols f\<rparr>"
  have F: "fb_ok f" "colours_ok f" "fb_cols f * fb_bpp f \<le> 32768" "0 < fb_bpp f" "fb_bpp f \<le> 4" "0 \<le> fb_rows f" "0 \<le> fb_cols f"
    using dev by (auto simp: device_ok_def fb_ok_def)
  have mode: "FBM_BPP (fb_mode f) = fb_bpp f"
    by (rule mode_bpp) (use F dev in \<open>auto simp: device_ok_def\<close>)
  have div: "c_div (fb_rows f) (fn_rows f0) = Some (fb_rows f div fn_rows f0)" "c_div (fb_cols f) (fn_cols f0) = Some (fb_cols f div fn_cols f0)"
    using F dims by (simp_all add: c_div_def sdiv_pos)
  have init: "pad_init True (Some cache) fr fi fb (pad_static f) = Some (s, 0)"
    using fr fi fb by (simp add: pad_init_def pad_font_static_def open_optional_def usable_font_def gc_init_def pad_conf_def
        pad_static_def div mode s_def Let_def)
  have "fonts_ok s" using fr fi fb by (auto simp: fonts_ok_def s_def usable_font_def)
  moreover have "region_ok s" using F by (simp add: region_ok_def s_def pad_static_def)
  moreover have "cache_ok s" using cache
    by (simp add: cache_ok_def s_def pad_static_def entry_ok_def GCN_def GCLCNT_def GCLLEN_def GCGLEN_def)
  ultimately have "pad_ok s" using F dims by (simp add: pad_ok_def s_def pad_static_def)
  with init show ?thesis by (auto simp: s_def pad_static_def)
qed

lemma pad_conf_ok:
  assumes ok: "pad_ok s" and r: "0 \<le> roff" "0 \<le> nrows" "roff + nrows \<le> fb_rows (pd_fb s)"
    and c: "0 \<le> coff" "0 \<le> ncols" "coff + ncols \<le> fb_cols (pd_fb s)"
  shows "\<exists>t. pad_conf roff coff nrows ncols s = Some t \<and> pad_ok t \<and> pd_fb t = pd_fb s \<and> pd_fbroff t = roff \<and>
    pd_fbcoff t = coff \<and> pd_fbrows t = nrows \<and> pd_fbcols t = ncols \<and> pd_rows t = nrows div pd_fnrows s \<and>
    pd_cols t = ncols div pd_fncols s \<and> pd_fonts t = pd_fonts s \<and> pd_fnrows t = pd_fnrows s \<and> pd_fncols t = pd_fncols s"
proof -
  note D = pad_okD [OF ok]
  define t where "t = s\<lparr>pd_fbroff := roff, pd_fbcoff := coff, pd_fbrows := nrows, pd_fbcols := ncols,
      pd_rows := nrows div pd_fnrows s, pd_cols := ncols div pd_fncols s\<rparr>"
  have "pad_conf roff coff nrows ncols s = Some t"
    using D r c by (simp add: pad_conf_def c_div_def sdiv_pos t_def)
  moreover have "shown_glyph t = shown_glyph s" "cell_image t = cell_image s"
    by (auto simp: fun_eq_iff shown_glyph_def glyph_in_def font_choice_def cell_image_def cell_row_def cell_pixel_def mix_def t_def
        intro!: arg_cong [where f = concat] split: option.split)
  then have "entry_ok t = entry_ok s" by (simp add: fun_eq_iff entry_ok_def) (simp add: t_def image_len_def GCGLEN_def)
  then have "cache_ok t = cache_ok s" by (simp add: cache_ok_def) (simp add: t_def GCGLEN_def)
  then have "pad_ok t" using ok D r c by (auto simp: pad_ok_def) (simp_all add: t_def region_ok_def fonts_ok_def)
  ultimately show ?thesis by (auto simp: t_def)
qed

section \<open>The drawing operations\<close>

text \<open>
  C4. A character that \<open>pad_put\<close> draws in a cell of the pad changes exactly the pixels of this cell, to
  its glyph (from the font that the attributes select, else from the regular one, else only the
  background) blended between the two colours, whatever was drawn and cached before; the
  cache stays correct.
\<close>

theorem pad_put_draws:
  assumes "pad_ok s" "0 \<le> r" "r < pd_rows s" "0 \<le> c" "c < pd_cols s"
  shows "\<exists>t. pad_put ch r c fg bg s = Some t \<and> pad_ok t \<and> settings t = settings s \<and>
    pd_fb t = paint (cell_picture s ch r c fg bg) (pd_fb s)"
  by (rule pad_put_paints [OF assms])

text \<open>
  The border of a region is a frame of the given width around it, of which no pixel lies inside the region.
\<close>

theorem pad_border_draws:
  assumes "pad_ok s" "0 \<le> wid" "wid \<le> pd_fbroff s" "wid \<le> pd_fbcoff s"
    "pd_fbroff s + pd_fbrows s + wid \<le> fb_rows (pd_fb s)" "pd_fbcoff s + pd_fbcols s + wid \<le> fb_cols (pd_fb s)"
  shows "\<exists>t. pad_border c wid s = Some t \<and> pad_ok t \<and> settings t = settings s \<and>
    pd_fb t = paint (frame_picture s c wid) (pd_fb s)"
  by (rule pad_border_paints [OF assms])

text \<open>
  C26. The colour of a grey value lies, in each channel, between the colours of the background and of
  the text, the grey value 0 is exactly the background, and the unsigned arithmetic of the
  code, which wraps for a text darker than its background, computes it.
\<close>

theorem mixed_color_between:
  assumes "colours_ok (pd_fb s)"
  shows "mixed_color s fg bg (ucast (v :: 8 word)) = Some (mix s fg bg (uint v)) \<and>
    (\<forall>ch \<in> {red_of, green_of, blue_of}. min (ch fg) (ch bg) \<le> blend (ch fg) (ch bg) (uint v) \<and>
       blend (ch fg) (ch bg) (uint v) \<le> max (ch fg) (ch bg)) \<and>
    mixed_color s fg bg 0 = color2fb s bg"
proof -
  have v: "0 \<le> uint v" "uint v \<le> 255" using uint_lt2p [of v] by simp_all
  have "mixed_color s fg bg 0 = Some (mix s fg bg 0)" using mixed_color_eq [OF assms, of fg bg 0] by simp
  moreover have "mix s fg bg 0 = pen s bg" by (simp add: mix_def pen_def blend_def)
  ultimately have "mixed_color s fg bg 0 = color2fb s bg" using color2fb_eq [OF assms] by simp
  with mixed_color_eq [OF assms] blend_bounds(1,2) [OF v] show ?thesis by auto
qed

section \<open>An example\<close>

definition sample_font_data :: "8 word list" where
  "sample_font_data = map word_of_int [116, 105, 110, 121, 102, 111, 110, 116, 0, 0, 0, 0, 1, 0, 0, 0, 2, 0, 0, 0, 2, 0, 0, 0,
     65, 0, 0, 0, 0, 255, 128, 64]"

definition sample_font :: font where
  "sample_font = \<lparr>fn_rows = 2, fn_cols = 2, fn_n = 1, fn_glyphs = 24, fn_bits = 28, fn_file = sample_font_data\<rparr>"

definition sample_var :: fb_var where
  "sample_var = \<lparr>vi_xres = 4, vi_yres = 4, vi_yres_virtual = 4, vi_xoffset = 0, vi_yoffset = 0, vi_bits_per_pixel = 32,
     vi_red = \<lparr>bf_offset = 16, bf_length = 8\<rparr>, vi_green = \<lparr>bf_offset = 8, bf_length = 8\<rparr>, vi_blue = \<lparr>bf_offset = 0, bf_length = 8\<rparr>\<rparr>"

definition sample_cmap :: cmap where
  "sample_cmap = \<lparr>cm_red = [], cm_green = [], cm_blue = []\<rparr>"

definition fb_static :: fbuf where
  "fb_static = \<lparr>fb_vinfo = sample_var, fb_finfo = \<lparr>fi_line_length = 0, fi_visual = 0\<rparr>, fb_name = [], fb_file = 0, fb_map = [],
     fb_pan = 0, fb_bpp = 0, fb_nr = 0, fb_ng = 0, fb_nb = 0, fb_rl = 0, fb_rr = 0, fb_gl = 0, fb_gr = 0, fb_bl = 0, fb_br = 0,
     fb_xres = 0, fb_yres = 0, fb_xoff = 0, fb_yoff = 0, fb_saved = sample_cmap, fb_device = sample_cmap\<rparr>"

definition sample_answers :: fb_answers where
  "sample_answers = \<lparr>an_open = 3, an_var = Some sample_var, an_fix = Some \<lparr>fi_line_length = 16, fi_visual = 2\<rparr>,
     an_map = Some (replicate 64 0)\<rparr>"

definition sample_fb :: fbuf where
  "sample_fb = fb_static\<lparr>fb_name := ''/dev/fb0'', fb_file := 3, fb_finfo := \<lparr>fi_line_length = 16, fi_visual = 2\<rparr>,
     fb_bpp := 4, fb_map := replicate 64 0, fb_nr := 256, fb_ng := 256, fb_nb := 256, fb_rl := 16, fb_gl := 8\<rparr>"

lemma sample_fb_init: "fb_init sample_answers None fb_static = Some (sample_fb, 0)"
  by (simp add: fb_init_def fb_open_def fb_setup_def init_colors_def fb_cmap_save_def fb_cmap_def sample_answers_def sample_fb_def
      fb_static_def sample_var_def c_shl_def shl_def FBDEV_def FB_VISUAL_TRUECOLOR_def u32_def Let_def)

lemma sample_device: "device_ok sample_fb"
  by (simp add: device_ok_def fb_ok_def colours_ok_def sample_fb_def fb_static_def sample_var_def fb_pitch_def fb_rows_def fb_cols_def)

lemma sample_font_usable: "usable_font sample_font_data sample_font"
proof -
  have "font_open_static True sample_font_data = Some sample_font"
    by (simp add: font_open_static_def int_at_def mem_get_def sample_font_data_def sample_font_def of_le_bytes_def c_int_def int_ok_def Let_def)
  then show ?thesis by (simp add: usable_font_def font_ok_def sample_font_def sample_font_data_def)
qed

lemma sample_pad:
  obtains s where "pad_init True (Some (replicate 32768 0)) sample_font_data sample_font_data sample_font_data (pad_static sample_fb) = Some (s, 0)"
    "pad_ok s" "pd_fb s = sample_fb" "pd_rows s = 2" "pd_cols s = 2" "pd_fonts s = [Some sample_font, Some sample_font, Some sample_font]"
    "pd_fnrows s = 2" "pd_fncols s = 2"
  using pad_init_ok [OF sample_device sample_font_usable sample_font_usable sample_font_usable, of "replicate 32768 0"]
  by (auto simp: sample_font_def sample_fb_def fb_static_def sample_var_def fb_rows_def fb_cols_def)

theorem pad_put_draws_witness:
  "\<exists>s t. fb_init sample_answers None fb_static = Some (sample_fb, 0) \<and>
    pad_init True (Some (replicate 32768 0)) sample_font_data sample_font_data sample_font_data (pad_static sample_fb) = Some (s, 0) \<and>
    pad_put 65 0 1 0xffffff 0 s = Some t \<and> pad_ok t"
proof -
  obtain s where s: "pad_init True (Some (replicate 32768 0)) sample_font_data sample_font_data sample_font_data (pad_static sample_fb) = Some (s, 0)"
    "pad_ok s" "pd_rows s = 2" "pd_cols s = 2" using sample_pad by metis
  from pad_put_draws [OF s(2), of 0 1 65 "0xffffff" 0] s(3,4) obtain t where
    "pad_put 65 0 1 0xffffff 0 s = Some t" "pad_ok t" by auto
  with s(1) sample_fb_init show ?thesis by blast
qed

theorem pad_border_draws_witness:
  "\<exists>s t. pad_conf 1 1 2 2 s = Some t \<and> pad_ok t \<and> (\<exists>u. pad_border 0xff 1 t = Some u \<and> pad_ok u)"
proof -
  obtain s where s: "pad_ok s" "pd_fb s = sample_fb" using sample_pad by metis
  have dims: "fb_rows sample_fb = 4" "fb_cols sample_fb = 4"
    by (simp_all add: sample_fb_def fb_static_def sample_var_def fb_rows_def fb_cols_def)
  from pad_conf_ok [OF s(1), of 1 2 1 2] obtain t where t: "pad_conf 1 1 2 2 s = Some t" "pad_ok t" "pd_fb t = sample_fb"
      "pd_fbroff t = 1" "pd_fbcoff t = 1" "pd_fbrows t = 2" "pd_fbcols t = 2"
    using s(2) dims by auto
  from pad_border_draws [OF t(2), of 1 "0xff"] t dims obtain u where "pad_border 0xff 1 t = Some u" "pad_ok u" by auto
  with t show ?thesis by blast
qed

theorem mixed_color_between_witness:
  "mixed_color (pad_static sample_fb) 0xff8000 0x0000ff 0 = color2fb (pad_static sample_fb) 0x0000ff"
proof -
  have "colours_ok (pd_fb (pad_static sample_fb))" using sample_device by (simp add: device_ok_def pad_static_def)
  from mixed_color_between [OF this] show ?thesis by blast
qed

end
