(* ===== verification/Scrsnap.thy ===== *)
theory Scrsnap
  imports Pad_Draw
begin

text \<open>
  libfbpads/scrsnap.c: pictures of the screen, kept for the tags of fbpad. The table of blocks is a
  list, and \<open>got\<close> is the block that \<open>malloc\<close> returns, if it returns one. A negative index is not
  checked by the code.
\<close>

section \<open>The code\<close>

definition NSCRS :: int where "NSCRS = 128"

definition rowsz :: "fbuf \<Rightarrow> int" where
  "rowsz f = FBM_BPP (fb_mode f) * fb_cols f"

definition save_row :: "fbuf \<Rightarrow> int \<Rightarrow> 8 word list \<Rightarrow> 8 word list option" where
  "save_row f i m = do { row \<leftarrow> mem_get (fb_map f) (fb_mem f i) (rowsz f); mem_put m (i * rowsz f) row }"

definition scr_snap :: "8 word list option \<Rightarrow> int \<Rightarrow> fbuf \<Rightarrow> 8 word list option list \<Rightarrow> 8 word list option list option" where
  "scr_snap got idx f scrs =
     (if idx < NSCRS then do {
        old \<leftarrow> rd scrs idx;
        scrs1 \<leftarrow> (if old = None then wr scrs idx got else Some scrs);
        block \<leftarrow> rd scrs1 idx;
        (case block of
           None \<Rightarrow> Some scrs1
         | Some m \<Rightarrow> do { m1 \<leftarrow> for_range 0 (fb_rows f) (save_row f) m; wr scrs1 idx (Some m1) }) }
      else Some scrs)"

definition scr_free :: "int \<Rightarrow> 8 word list option list \<Rightarrow> 8 word list option list option" where
  "scr_free idx scrs = (if idx < NSCRS then wr scrs idx None else Some scrs)"

definition load_row :: "8 word list \<Rightarrow> int \<Rightarrow> fbuf \<Rightarrow> fbuf option" where
  "load_row m i f = do { row \<leftarrow> mem_get m (i * rowsz f) (rowsz f); fb_write (fb_mem f i) row f }"

definition scr_load :: "int \<Rightarrow> fbuf \<Rightarrow> 8 word list option list \<Rightarrow> (fbuf \<times> int) option" where
  "scr_load idx f scrs =
     (if idx < NSCRS then do {
        block \<leftarrow> rd scrs idx;
        (case block of
           None \<Rightarrow> Some (f, 0)
         | Some m \<Rightarrow> do { f1 \<leftarrow> for_range 0 (fb_rows f) (load_row m) f; Some (f1, 0) }) }
      else Some (f, 0))"

section \<open>A picture is restored\<close>

definition screen_row :: "fbuf \<Rightarrow> int \<Rightarrow> 8 word list" where
  "screen_row f y = take (nat (fb_cols f * fb_bpp f)) (drop (nat (fb_base f + y * fb_pitch f)) (fb_map f))"

definition screen_image :: "fbuf \<Rightarrow> 8 word list" where
  "screen_image f = concat (map (screen_row f) [0..fb_rows f - 1])"

text \<open>The whole region, as it is in \<open>f\<close>.\<close>

definition screen_picture :: "fbuf \<Rightarrow> picture" where
  "screen_picture f = box 0 (fb_rows f) 0 (fb_cols f) (pixel f)"

lemma screen_row_bounds:
  assumes ok: "fb_ok f" and y: "0 \<le> y" "y < fb_rows f"
  shows "mem_get (fb_map f) (fb_mem f y) (fb_cols f * fb_bpp f) = Some (screen_row f y)"
    "int (length (screen_row f y)) = fb_cols f * fb_bpp f"
proof -
  note F = fb_okD [OF ok]
  have c: "0 \<le> fb_cols f" using ok by (simp add: fb_ok_def)
  have "y * fb_pitch f \<le> (fb_rows f - 1) * fb_pitch f" "0 \<le> y * fb_pitch f" "0 \<le> fb_cols f * fb_bpp f"
    using y F c by (auto intro: mult_right_mono)
  then have r: "0 \<le> fb_base f + y * fb_pitch f" "0 \<le> fb_cols f * fb_bpp f"
      "fb_base f + y * fb_pitch f + fb_cols f * fb_bpp f \<le> int (length (fb_map f))" using F by linarith+
  then show "mem_get (fb_map f) (fb_mem f y) (fb_cols f * fb_bpp f) = Some (screen_row f y)"
    "int (length (screen_row f y)) = fb_cols f * fb_bpp f"
    by (simp_all add: fb_mem_eq [OF ok y] mem_get_def screen_row_def)
qed

lemma screen_row_pixel:
  assumes ok: "fb_ok f" and y: "0 \<le> y" "y < fb_rows f" and x: "0 \<le> x" "x < fb_cols f"
  shows "row_pixel (fb_bpp f) 0 (screen_row f y) y x = pixel f y x"
proof -
  have "(x + 1) * fb_bpp f \<le> fb_cols f * fb_bpp f" using x fb_okD(1) [OF ok] by (intro mult_right_mono) auto
  then have "x * fb_bpp f + fb_bpp f \<le> fb_cols f * fb_bpp f" unfolding distrib_right by simp
  moreover have "0 \<le> x * fb_bpp f" "0 < fb_bpp f" using x fb_okD(1) [OF ok] by auto
  ultimately have "mem_get (fb_map f) (fb_mem f y + x * fb_bpp f) (fb_bpp f) =
      Some (take (nat (fb_bpp f)) (drop (nat (x * fb_bpp f)) (screen_row f y)))"
    by (intro mem_get_inner [OF screen_row_bounds(1) [OF ok y]]) auto
  with pixel_at(1) [OF ok y x] show ?thesis by (simp add: row_pixel_def)
qed

lemma scr_snap_saves:
  assumes ok: "fb_ok f" and mode: "FBM_BPP (fb_mode f) = fb_bpp f" and idx: "0 \<le> idx" "idx < 128"
    and scrs: "length scrs = 128" "scrs ! nat idx = None" and m: "int (length m) = fb_rows f * (fb_bpp f * fb_cols f)"
  shows "scr_snap (Some m) idx f scrs = Some (scrs[nat idx := Some (screen_image f)])"
proof -
  let ?w = "fb_cols f * fb_bpp f"
  have c: "0 \<le> ?w" "0 \<le> fb_rows f" using ok fb_okD(1) [OF ok] by (auto simp: fb_ok_def)
  have w: "rowsz f = ?w" by (simp add: rowsz_def mode)
  let ?rows = "\<lambda>i. concat (map (screen_row f) [0..i - 1])"
  have len: "int (length (?rows i)) = i * ?w" if "0 \<le> i" "i \<le> fb_rows f" for i
    using length_chunks [of i "screen_row f" "nat ?w"] screen_row_bounds(2) [OF ok] that c by (fastforce simp: nat_eq_iff2)
  have "runs (for_range 0 (fb_rows f) (save_row f) m) (\<lambda>m1. mem_put m 0 (?rows (fb_rows f)) = Some m1)"
  proof (rule for_range_inv [where I = "\<lambda>i m1. mem_put m 0 (?rows i) = Some m1"], goal_cases)
    case 1
    from c show ?case by simp
  next
    case 2
    show ?case by (simp add: mem_put_def)
  next
    case (3 i m1)
    have "(i + 1) * ?w \<le> fb_rows f * ?w" using 3 c by (intro mult_right_mono) auto
    then have room: "i * ?w + ?w \<le> int (length m1)" "0 \<le> i * ?w"
      using mem_put_length [OF 3(3)] m 3 c unfolding distrib_right mult_1 by (simp_all add: mult.commute)
    note row = screen_row_bounds [OF ok 3(1,2)]
    obtain m2 where m2: "mem_put m1 (i * ?w) (screen_row f i) = Some m2" using room row(2) by (simp add: mem_put_def)
    have "[0..(i + 1) - 1] = [0..i - 1] @ [i]" using 3 by (simp add: upto_rec2)
    then have grown: "?rows (i + 1) = ?rows i @ screen_row f i" by simp
    have "mem_put m 0 (?rows (i + 1)) = Some m2"
      unfolding grown using 3 m2 len [of i] by (intro mem_put_append [OF 3(3)]) simp
    with m2 row show ?case by (simp add: save_row_def w)
  qed
  moreover have "length (?rows (fb_rows f)) = length m" using len [of "fb_rows f"] c m by (simp add: mult.commute)
  ultimately have "for_range 0 (fb_rows f) (save_row f) m = Some (screen_image f)"
    by (auto simp: runs_iff mem_put_def screen_image_def split: if_splits)
  with idx scrs show ?thesis by (simp add: scr_snap_def NSCRS_def rd_def wr_def)
qed

lemma scr_load_restores:
  assumes ok: "fb_ok f" and mode: "FBM_BPP (fb_mode f) = fb_bpp f" and idx: "0 \<le> idx" "idx < 128"
    and scrs: "length scrs = 128" "scrs ! nat idx = Some (screen_image f)"
  shows "scr_load idx (paint img f) scrs = Some (paint (screen_picture f) (paint img f), 0)"
proof -
  let ?g = "paint img f" and ?w = "fb_cols f * fb_bpp f"
  have c: "0 \<le> ?w" "0 \<le> fb_rows f" "0 \<le> fb_cols f" using ok fb_okD(1) [OF ok] by (auto simp: fb_ok_def)
  have row: "mem_get (screen_image f) (y * ?w) ?w = Some (screen_row f y)" if y: "0 \<le> y" "y < fb_rows f" for y
  proof -
    have len: "length (screen_row f i) = nat ?w" if "0 \<le> i" "i < fb_rows f" for i
      using screen_row_bounds(2) [OF ok that] by (simp add: nat_eq_iff2)
    have "int (length (screen_image f)) = fb_rows f * ?w"
      unfolding screen_image_def using length_chunks [of "fb_rows f" "screen_row f" "nat ?w"] len c by simp
    moreover have "(y + 1) * ?w \<le> fb_rows f * ?w" using y c by (intro mult_right_mono) auto
    then have "y * ?w + ?w \<le> fb_rows f * ?w" unfolding distrib_right by simp
    moreover have "0 \<le> y * ?w" using y c by simp
    moreover have "nat (y * ?w) = nat y * nat ?w" using y by (simp add: nat_mult_distrib)
    ultimately show ?thesis
      using concat_chunk [of "fb_rows f" "screen_row f" "nat ?w" y] len y c by (simp add: mem_get_def screen_image_def)
  qed
  have "for_range 0 (fb_rows f) (load_row (screen_image f)) ?g =
      for_range 0 (fb_rows f) (\<lambda>y g. fb_write (fb_mem g y + 0 * fb_bpp g) (screen_row f y) g) ?g" if "fb_ok f"
  proof -
    have "for_list (load_row (screen_image f)) ys g = for_list (\<lambda>y g. fb_write (fb_mem g y + 0 * fb_bpp g) (screen_row f y) g) ys g"
      if "set ys \<subseteq> {0..<fb_rows f}" "fb_cols g = fb_cols f" "fb_mode g = fb_mode f" for ys g
      using that
    proof (induction ys arbitrary: g)
      case (Cons y ys)
      have "load_row (screen_image f) y g = fb_write (fb_mem g y) (screen_row f y) g"
        using Cons.prems row [of y] by (simp add: load_row_def rowsz_def mode mult.commute)
      moreover have "fb_cols g' = fb_cols g \<and> fb_mode g' = fb_mode g" if "fb_write p b g = Some g'" for p b g'
        using that by (auto simp: fb_write_def fb_cols_def fb_mode_def Option.bind_eq_Some_conv)
      ultimately show ?case using Cons by (cases "fb_write (fb_mem g y) (screen_row f y) g") auto
    qed simp
    then show ?thesis by (simp add: for_range_def subset_iff)
  qed
  also have "\<dots> = Some (paint (box 0 (fb_rows f) 0 (fb_cols f) (\<lambda>y. row_pixel (fb_bpp f) 0 (screen_row f y) y)) ?g)"
    using fb_write_rows [of ?g 0 "fb_rows f" 0 "fb_cols f" "screen_row f"] ok screen_row_bounds(2) [OF ok] c by simp
  also have "box 0 (fb_rows f) 0 (fb_cols f) (\<lambda>y. row_pixel (fb_bpp f) 0 (screen_row f y) y) = screen_picture f"
    unfolding screen_picture_def by (rule box_cong) (rule screen_row_pixel [OF ok])
  finally show ?thesis using ok idx scrs by (simp add: scr_load_def NSCRS_def rd_def)
qed

text \<open>
  C24. A snapshot that was taken into a free slot brings every pixel of the region back, whatever was
  drawn in between, and changes nothing outside the region.
\<close>

theorem snapshot_roundtrip:
  assumes "fb_ok f" "FBM_BPP (fb_mode f) = fb_bpp f" "0 \<le> idx" "idx < 128" "length scrs = 128" "scrs ! nat idx = None"
    "int (length m) = fb_rows f * (fb_bpp f * fb_cols f)"
  shows "\<exists>scrs'. scr_snap (Some m) idx f scrs = Some scrs' \<and>
    (\<forall>img. \<exists>g. scr_load idx (paint img f) scrs' = Some (g, 0) \<and> g = paint (screen_picture f) (paint img f) \<and>
      (\<forall>y x. 0 \<le> y \<and> y < fb_rows f \<and> 0 \<le> x \<and> x < fb_cols f \<longrightarrow> pixel g y x = pixel f y x))"
proof -
  have "scr_load idx (paint img f) (scrs[nat idx := Some (screen_image f)]) = Some (paint (screen_picture f) (paint img f), 0)" for img
    using assms by (intro scr_load_restores) auto
  moreover have "pixel (paint (screen_picture f) (paint img f)) y x = pixel f y x"
    if "0 \<le> y" "y < fb_rows f" "0 \<le> x" "x < fb_cols f" for img y x
    using that assms(1) pixel_at(2) [OF assms(1) that]
    by (subst pixel_paint) (auto simp: screen_picture_def box_def split: if_splits)
  ultimately show ?thesis using scr_snap_saves [OF assms] by auto
qed

lemma device_mode: "device_ok f \<Longrightarrow> FBM_BPP (fb_mode f) = fb_bpp f"
  by (rule mode_bpp) (auto simp: device_ok_def fb_ok_def)

theorem snapshot_roundtrip_witness:
  "\<exists>scrs'. scr_snap (Some (replicate 64 0)) 5 sample_fb (replicate 128 None) = Some scrs' \<and>
    (\<exists>g. scr_load 5 (paint (\<lambda>_ _. Some [1, 2, 3, 4]) sample_fb) scrs' = Some (g, 0) \<and> pixel g 1 2 = pixel sample_fb 1 2)"
proof -
  have "fb_ok sample_fb" "FBM_BPP (fb_mode sample_fb) = fb_bpp sample_fb"
    using sample_device device_mode by (auto simp: device_ok_def)
  moreover have "fb_rows sample_fb = 4" "fb_cols sample_fb = 4" "fb_bpp sample_fb = 4"
    by (simp_all add: sample_fb_def fb_static_def sample_var_def fb_rows_def fb_cols_def)
  ultimately show ?thesis
    using snapshot_roundtrip [of sample_fb 5 "replicate 128 None" "replicate 64 0"] by fastforce
qed

end
