(* ===== verification/Pad_Env.thy ===== *)
theory Pad_Env
  imports Pad_Draw
begin

text \<open>
  The region that a terminal hands to the program it runs: \<open>pad_fbdev\<close> (libfbpads/pad.c) prints it
  into the variable FBDEV, \<open>fb_init\<close> (libfbpads/draw.c) of a program that draws on the frame buffer
  itself scans it. What is scanned is what was printed, and the rows of the program are the
  rows of the region of its terminal.
\<close>

section \<open>Numbers\<close>

lemma code_digit: "k < 10 \<Longrightarrow> code (char_of (48 + k)) = int (48 + k)"
  by (simp add: code_def)

lemma nat_digits_digits: "\<forall>c \<in> set (nat_digits n). is_digit c"
proof (induction n rule: nat_digits.induct)
  case (1 n)
  have "is_digit (char_of (48 + k))" if "k < 10" for k :: nat using code_digit [OF that] that by (simp add: is_digit_def)
  with 1 show ?case by (subst nat_digits.simps) auto
qed

lemma nat_digits_not_empty: "nat_digits n \<noteq> []"
  by (subst nat_digits.simps) simp

lemma digits_value_digits: "digits_value (nat_digits n) = int n"
proof (induction n rule: nat_digits.induct)
  case (1 n)
  show ?case
  proof (cases "n < 10")
    case True
    then show ?thesis by (subst nat_digits.simps) (simp add: digits_value_def code_digit)
  next
    case False
    then have ih: "digits_value (nat_digits (n div 10)) = int (n div 10)" by (rule 1)
    have "digits_value (nat_digits n) = digits_value (nat_digits (n div 10)) * 10 + (code (char_of (48 + n mod 10)) - 48)"
      using False by (subst nat_digits.simps) (simp add: digits_value_def)
    also have "\<dots> = int (n div 10) * 10 + int (n mod 10)" unfolding ih by (subst code_digit) simp_all
    also have "\<dots> = int n" by (simp add: zdiv_int zmod_int)
    finally show ?thesis .
  qed
qed

definition ends_number :: "string \<Rightarrow> bool" where
  "ends_number r \<longleftrightarrow> r = [] \<or> \<not> is_digit (hd r)"

lemma scan_digits_shown: "ends_number r \<Longrightarrow> scan_digits (nat_digits n @ r) = Some (int n, r)"
proof -
  assume r: "ends_number r"
  have stop: "takeWhile is_digit r = []" "dropWhile is_digit r = r"
    using r by (cases r; simp add: ends_number_def)+
  have "takeWhile is_digit (nat_digits n @ r) = nat_digits n @ takeWhile is_digit r"
    "dropWhile is_digit (nat_digits n @ r) = dropWhile is_digit r"
    using nat_digits_digits [of n] by (simp_all add: takeWhile_append2 dropWhile_append2)
  with stop show ?thesis by (simp add: scan_digits_def nat_digits_not_empty digits_value_digits)
qed

lemma digits_first: "nat_digits n @ r = c # t \<Longrightarrow> is_digit c"
  using nat_digits_digits [of n] nat_digits_not_empty [of n] by (cases "nat_digits n") auto

lemma digit_plain: "is_digit c \<Longrightarrow> \<not> scan_blank c \<and> c \<noteq> CHR ''-'' \<and> c \<noteq> CHR ''+''"
  by (auto simp: is_digit_def scan_blank_def code_def)

lemma scan_nat: "ends_number r \<Longrightarrow> scan_int (nat_digits n @ r) = Some (int n, r)"
proof -
  assume r: "ends_number r"
  obtain c t where ct: "nat_digits n @ r = c # t" using nat_digits_not_empty [of n] by (cases "nat_digits n") auto
  from digit_plain [OF digits_first [OF ct]] scan_digits_shown [OF r, of n] ct show ?thesis by (simp add: scan_int_def)
qed

lemma scan_shown:
  assumes "ends_number r"
  shows "scan_int (show_int i @ r) = Some (i, r)" "scan_int (show_signed i @ r) = Some (i, r)"
proof -
  have minus: "scan_int (CHR ''-'' # nat_digits (nat (- i)) @ r) = Some (i, r)" if "i < 0"
    using that scan_digits_shown [OF assms, of "nat (- i)"] by (simp add: scan_int_def scan_blank_def code_def)
  have plus: "scan_int (CHR ''+'' # nat_digits (nat i) @ r) = Some (i, r)" if "0 \<le> i"
    using that scan_digits_shown [OF assms, of "nat i"] by (simp add: scan_int_def scan_blank_def code_def)
  show "scan_int (show_int i @ r) = Some (i, r)"
    using minus scan_nat [OF assms, of "nat i"] by (cases "i < 0") (simp_all add: show_int_def)
  show "scan_int (show_signed i @ r) = Some (i, r)"
    using minus plus by (cases "i < 0") (simp_all add: show_int_def show_signed_def)
qed

lemma signed_starts: "ends_number (show_signed i @ r)"
  by (simp add: ends_number_def show_signed_def show_int_def is_digit_def code_def)

section \<open>The region\<close>

definition geometry :: "int \<Rightarrow> int \<Rightarrow> int \<Rightarrow> int \<Rightarrow> string" where
  "geometry w h x y = show_int w @ ''x'' @ show_int h @ show_signed x @ show_signed y"

lemma scan_geometry:
  assumes "int_ok w" "int_ok h" "int_ok x" "int_ok y"
  shows "scan_geom (geometry w h x y) f = Some (f\<lparr>fb_xres := w, fb_yres := h, fb_xoff := x, fb_yoff := y\<rparr>)"
proof -
  have x: "ends_number (CHR ''x'' # r)" for r by (simp add: ends_number_def is_digit_def code_def)
  have e: "ends_number []" by (simp add: ends_number_def)
  show ?thesis using assms
    by (simp add: scan_geom_def scan_into_def geometry_def scan_shown(1) [OF x] scan_shown(1) [OF signed_starts]
        scan_shown(2) [OF signed_starts [where r = "[]", simplified]] scan_shown(2) [OF e, simplified] c_int_def)
qed

definition plain_name :: "string \<Rightarrow> bool" where
  "plain_name n \<longleftrightarrow> CHR '':'' \<notin> set n"

lemma open_printed:
  assumes "plain_name n" "length n \<le> 1023" "int_ok w" "int_ok h" "int_ok x" "int_ok y"
  shows "fb_open (Some (n @ '':'' @ geometry w h x y)) f =
    Some (f\<lparr>fb_xres := w, fb_yres := h, fb_xoff := x, fb_yoff := y, fb_name := n\<rparr>)"
proof -
  have "dropWhile (\<lambda>c. c \<noteq> CHR '':'') (n @ '':'' @ geometry w h x y) = CHR '':'' # geometry w h x y"
    "takeWhile (\<lambda>c. c \<noteq> CHR '':'') (n @ '':'' @ geometry w h x y) = n"
    using assms(1) by (simp_all add: plain_name_def dropWhile_append3 takeWhile_append2 takeWhile_tail)
      (induction n, auto)+
  with assms show ?thesis by (simp add: fb_open_def scan_geometry)
qed

section \<open>The program below the terminal\<close>

text \<open>
  The same device as the parent has mapped: the same answers to the queries, and a mapping of the
  same size.
\<close>

definition same_device :: "fbuf \<Rightarrow> fb_answers \<Rightarrow> bool" where
  "same_device f an \<longleftrightarrow> 0 \<le> an_open an \<and> an_var an = Some (fb_vinfo f) \<and> an_fix an = Some (fb_finfo f) \<and>
     (\<exists>m. an_map an = Some m \<and> length m = length (fb_map f)) \<and> fb_bpp f = drop_bit 3 (u32 (vi_bits_per_pixel (fb_vinfo f) + 7)) \<and>
     fi_visual (fb_finfo f) = FB_VISUAL_TRUECOLOR"

lemma init_opened:
  assumes "same_device f an" "fb_open dev g = Some g1"
    and "\<And>c. c \<in> {vi_red, vi_green, vi_blue} \<Longrightarrow> 0 \<le> bf_length (c (fb_vinfo f)) \<and> bf_length (c (fb_vinfo f)) < 32"
  shows "\<exists>h. fb_init an dev g = Some (h, 0) \<and> fb_vinfo h = fb_vinfo f \<and> fb_finfo h = fb_finfo f \<and> fb_bpp h = fb_bpp f \<and>
    fb_pan h = 0 \<and> fb_xres h = fb_xres g1 \<and> fb_yres h = fb_yres g1 \<and> fb_xoff h = fb_xoff g1 \<and> fb_yoff h = fb_yoff g1 \<and>
    fb_name h = fb_name g1 \<and> length (fb_map h) = length (fb_map f)"
proof -
  from assms(1) obtain m where m: "an_map an = Some m" "length m = length (fb_map f)" by (auto simp: same_device_def)
  have "c_shl 1 (bf_length (c (fb_vinfo f))) = Some (shl 1 (nat (bf_length (c (fb_vinfo f)))))" if "c \<in> {vi_red, vi_green, vi_blue}" for c
    using assms(3) [OF that] by (simp add: c_shl_def)
  then show ?thesis using assms(1,2) m
    by (simp add: fb_init_def fb_setup_def init_colors_def fb_cmap_save_def fb_cmap_def same_device_def Let_def)
qed

text \<open>How far the own region of a frame buffer lies behind the start of its device.\<close>

definition displacement :: "fbuf \<Rightarrow> int" where
  "displacement f = fb_pan f + fb_yoff f * fb_pitch f + fb_xoff f * fb_bpp f"

text \<open>
  C25. A program that opens the frame buffer with the value of FBDEV that its terminal gives it gets a
  region of the size of the terminal's, inside the memory; the address of every pixel in it is the one
  that the terminal computes for this pixel of its region, less the displacement of the
  terminal's own region on the device. So the program draws in the region of the terminal exactly when
  the terminal has no displacement itself, which means offsets 0 and no panning; otherwise it draws
  too far up and left. The value of FBDEV must fit its buffer and the name has no colon.
\<close>

theorem region_of_child:
  assumes ok: "fb_ok (pd_fb s)" "region_ok s"
    and own: "0 \<le> fb_xoff (pd_fb s)" "0 \<le> fb_yoff (pd_fb s)" "0 \<le> vi_xoffset (fb_vinfo (pd_fb s))" "0 \<le> vi_yoffset (fb_vinfo (pd_fb s))"
    and name: "plain_name (fb_name (pd_fb s))" "length (pad_fbdev s) < 1023"
    and size: "0 < pd_fbrows s" "0 < pd_fbcols s" "int_ok (fb_rows (pd_fb s))" "int_ok (fb_cols (pd_fb s))"
    and dev: "same_device (pd_fb s) an"
    and depth: "\<forall>c \<in> {vi_red, vi_green, vi_blue}. 0 \<le> bf_length (c (fb_vinfo (pd_fb s))) \<and> bf_length (c (fb_vinfo (pd_fb s))) < 32"
  shows "\<exists>h. fb_init an (Some (drop 6 (pad_fbdev s))) g = Some (h, 0) \<and> fb_ok h \<and>
    fb_rows h = pd_fbrows s \<and> fb_cols h = pd_fbcols s \<and> fb_name h = fb_name (pd_fb s) \<and>
    (\<forall>y x. 0 \<le> y \<and> y < fb_rows h \<longrightarrow>
      fb_mem h y + x * fb_bpp h = fb_mem (pd_fb s) (pd_fbroff s + y) + (pd_fbcoff s + x) * fb_bpp (pd_fb s) - displacement (pd_fb s)) \<and>
    0 \<le> displacement (pd_fb s) \<and>
    (displacement (pd_fb s) = 0 \<longleftrightarrow> fb_pan (pd_fb s) = 0 \<and> fb_yoff (pd_fb s) = 0 \<and> fb_xoff (pd_fb s) = 0)"
proof -
  let ?f = "pd_fb s" and ?g = "geometry (pd_fbcols s) (pd_fbrows s) (pd_fbcoff s) (pd_fbroff s)"
  have R: "0 \<le> pd_fbroff s" "0 \<le> pd_fbcoff s" "pd_fbroff s + pd_fbrows s \<le> fb_rows ?f" "pd_fbcoff s + pd_fbcols s \<le> fb_cols ?f"
    using ok(2) by (auto simp: region_ok_def)
  have full: "pad_fbdev s = ''FBDEV='' @ fb_name ?f @ '':'' @ ?g"
    using name(2) by (auto simp: pad_fbdev_def geometry_def min_def split: if_splits)
  then have len: "length (fb_name ?f) \<le> 1023" using name(2) by simp
  have ints: "int_ok (pd_fbcols s)" "int_ok (pd_fbrows s)" "int_ok (pd_fbcoff s)" "int_ok (pd_fbroff s)"
    using R size by (auto simp: int_ok_def)
  from init_opened [OF dev open_printed [OF name(1) len ints, of g]] depth obtain h where
    h: "fb_init an (Some (drop 6 (pad_fbdev s))) g = Some (h, 0)" "fb_vinfo h = fb_vinfo ?f" "fb_finfo h = fb_finfo ?f"
      "fb_bpp h = fb_bpp ?f" "fb_pan h = 0" "fb_xres h = pd_fbcols s" "fb_yres h = pd_fbrows s" "fb_xoff h = pd_fbcoff s"
      "fb_yoff h = pd_fbroff s" "fb_name h = fb_name ?f" "length (fb_map h) = length (fb_map ?f)"
    by (auto simp: full)
  have dims: "fb_rows h = pd_fbrows s" "fb_cols h = pd_fbcols s" "fb_pitch h = fb_pitch ?f"
    using h size by (simp_all add: fb_rows_def fb_cols_def fb_pitch_def)
  have F: "0 < fb_bpp ?f" "0 < fb_pitch ?f" using fb_okD [OF ok(1)] by auto
  have "fb_ok h"
  proof -
    have *: "(vi_xoffset (fb_vinfo ?f) + fb_xoff ?f + fb_cols ?f) * fb_bpp ?f \<le> fb_pitch ?f"
        "(vi_yoffset (fb_vinfo ?f) + fb_yoff ?f + fb_rows ?f) * fb_pitch ?f \<le> int (length (fb_map ?f))"
      using ok(1) by (auto simp: fb_ok_def)
    have "(vi_xoffset (fb_vinfo ?f) + pd_fbcoff s + pd_fbcols s) * fb_bpp ?f \<le> fb_pitch ?f"
      by (rule order_trans [OF mult_right_mono *(1)]) (use R F own in auto)
    moreover have "(vi_yoffset (fb_vinfo ?f) + pd_fbroff s + pd_fbrows s) * fb_pitch ?f \<le> int (length (fb_map ?f))"
      by (rule order_trans [OF mult_right_mono *(2)]) (use R F own in auto)
    ultimately show ?thesis using ok(1) h R size own unfolding fb_ok_def dims by simp
  qed
  moreover have "fb_mem h y + x * fb_bpp h = fb_mem ?f (pd_fbroff s + y) + (pd_fbcoff s + x) * fb_bpp ?f - displacement ?f"
    if "0 \<le> y" "y < fb_rows h" for y x
  proof -
    have "fb_mem h y = fb_base h + y * fb_pitch ?f" using fb_mem_eq [OF \<open>fb_ok h\<close> that] dims by simp
    moreover have "fb_mem ?f (pd_fbroff s + y) = fb_base ?f + (pd_fbroff s + y) * fb_pitch ?f"
      using fb_mem_eq [OF ok(1), of "pd_fbroff s + y"] that R dims by simp
    moreover have "fb_base h = fb_base ?f + pd_fbroff s * fb_pitch ?f + pd_fbcoff s * fb_bpp ?f - displacement ?f"
      using h dims by (simp add: fb_base_def displacement_def algebra_simps)
    ultimately show ?thesis using h by (simp add: algebra_simps)
  qed
  moreover have d: "0 \<le> fb_yoff ?f * fb_pitch ?f" "0 \<le> fb_xoff ?f * fb_bpp ?f" "0 \<le> fb_pan ?f"
    using own F ok(1) by (simp_all add: fb_ok_def)
  then have "displacement ?f = 0 \<longleftrightarrow> fb_pan ?f = 0 \<and> fb_yoff ?f = 0 \<and> fb_xoff ?f = 0"
    using F unfolding displacement_def by (auto simp: add_nonneg_eq_0_iff)
  moreover have "0 \<le> displacement ?f" using d by (simp add: displacement_def)
  ultimately show ?thesis using h dims by blast
qed

theorem region_of_child_witness:
  "\<exists>s t h. pad_ok s \<and> pad_conf 1 1 2 2 s = Some t \<and> fb_init sample_answers (Some ''/dev/fb0:2x2+1+1'') fb_static = Some (h, 0) \<and> fb_ok h"
proof -
  obtain s where s: "pad_ok s" "pd_fb s = sample_fb" using sample_pad by metis
  have f: "fb_rows sample_fb = 4" "fb_cols sample_fb = 4" "fb_name sample_fb = ''/dev/fb0''" "fb_xoff sample_fb = 0"
      "fb_yoff sample_fb = 0" "fb_pan sample_fb = 0" "fb_vinfo sample_fb = sample_var"
    by (simp_all add: sample_fb_def fb_static_def sample_var_def fb_rows_def fb_cols_def)
  from pad_conf_ok [OF s(1), of 1 2 1 2] obtain t where t: "pad_conf 1 1 2 2 s = Some t" "pad_ok t" "pd_fb t = sample_fb"
      "pd_fbroff t = 1" "pd_fbcoff t = 1" "pd_fbrows t = 2" "pd_fbcols t = 2"
    using s(2) f by auto
  have "char_of (50 :: nat) = CHR ''2''" "char_of (49 :: nat) = CHR ''1''" by code_simp+
  then have print: "pad_fbdev t = ''FBDEV=/dev/fb0:2x2+1+1''"
    using t f by (simp add: pad_fbdev_def show_signed_def show_int_def nat_digits.simps)
  have dev: "same_device (pd_fb t) sample_answers"
    using t by (simp add: same_device_def sample_answers_def sample_fb_def fb_static_def sample_var_def u32_def FB_VISUAL_TRUECOLOR_def)
  have "\<exists>h. fb_init sample_answers (Some (drop 6 (pad_fbdev t))) fb_static = Some (h, 0) \<and> fb_ok h"
    using region_of_child [OF _ _ _ _ _ _ _ _ _ _ _ _ dev, of fb_static] pad_okD(1,8) [OF t(2)] t f print
    by (auto simp: plain_name_def int_ok_def sample_var_def)
  with s t print show ?thesis by auto
qed

end
