(* ===== verification/Pad_Term.thy ===== *)
theory Pad_Term
  imports Pad_Draw Fbpads
begin

text \<open>
  The terminal (libfbpads/term.c) on the pad (libfbpads/pad.c). The terminal logs its calls of \<open>pad_put\<close>
  and \<open>pad_fill\<close>; \<open>draw_calls\<close> makes them. Since the invariant of the terminal keeps every call
  inside the pad, they all succeed. The drawing of a row joins the blanks of one colour into
  rectangles; it shows the same picture as the drawing of every cell.
\<close>

definition draw_call :: "pad_call \<Rightarrow> pad \<Rightarrow> pad option" where
  "draw_call d s = (case d of
     PadPut ch r c fg bg \<Rightarrow> pad_put ch r c fg bg s
   | PadFill sr er sc ec col \<Rightarrow> pad_fill sr er sc ec col s)"

fun draw_calls :: "pad_call list \<Rightarrow> pad \<Rightarrow> pad option" where
  "draw_calls [] s = Some s"
| "draw_calls (d # ds) s = do { s1 \<leftarrow> draw_call d s; draw_calls ds s1 }"

definition call_picture :: "pad \<Rightarrow> pad_call \<Rightarrow> picture" where
  "call_picture s d = (case d of
     PadPut ch r c fg bg \<Rightarrow> cell_picture s ch r c fg bg
   | PadFill sr er sc ec col \<Rightarrow> fill_picture s sr er sc ec col)"

fun calls_picture :: "pad \<Rightarrow> pad_call list \<Rightarrow> picture" where
  "calls_picture s [] = (\<lambda>_ _. None)"
| "calls_picture s (d # ds) = over (calls_picture s ds) (call_picture s d)"

lemma call_picture_same:
  assumes "same_pad s t"
  shows "call_picture t = call_picture s"
proof (intro ext)
  fix d y x
  show "call_picture t d y x = call_picture s d y x"
    by (cases d) (simp_all add: call_picture_def cell_picture_def fill_picture_def Let_def same_settings [OF assms]
        same_pictures [OF assms] shown_pixel_def [abs_def] cong: option.case_cong)
qed

lemma draw_call_paints:
  assumes "pad_ok s" "call_inside (pd_rows s) (pd_cols s) d"
  shows "\<exists>t. draw_call d s = Some t \<and> pad_ok t \<and> settings t = settings s \<and> pd_fb t = paint (call_picture s d) (pd_fb s)"
proof (cases d)
  case (PadPut ch r c fg bg)
  with pad_put_paints [OF assms(1), of r c ch fg bg] assms(2) show ?thesis by (simp add: draw_call_def call_picture_def)
next
  case (PadFill sr er sc ec col)
  with pad_fill_paints [OF assms(1), of sr er sc ec col] assms(2) show ?thesis by (simp add: draw_call_def call_picture_def)
qed

lemma over_assoc: "over (over a b) c = over a (over b c)"
  by (auto simp: over_def fun_eq_iff split: option.split)

lemma over_nothing [simp]: "over (\<lambda>_ _. None) a = a" "over a (\<lambda>_ _. None) = a"
  by (auto simp: over_def fun_eq_iff split: option.split)

lemma calls_snoc: "calls_picture s (ds @ [d]) = over (call_picture s d) (calls_picture s ds)"
  by (induction ds) (simp_all add: over_assoc)

text \<open>The pad \<open>s\<close> after some calls: with the same settings, and their picture over its first contents.\<close>

definition painted_pad :: "pad \<Rightarrow> picture \<Rightarrow> pad \<Rightarrow> bool" where
  "painted_pad s img t \<longleftrightarrow> pad_ok t \<and> settings t = settings s \<and> pd_fb t = paint img (pd_fb s)"

interpretation painted: command_sequence draw_calls draw_call "call_inside (pd_rows s) (pd_cols s)" "painted_pad s"
    "\<lambda>img d. over (call_picture s d) img" for s
proof
  show "draw_calls [] t = Some t" for t by simp
  show "draw_calls (d # ds) t = do { u \<leftarrow> draw_call d t; draw_calls ds u }" for d ds t by simp
  show "runs (draw_call d t) (painted_pad s (over (call_picture s d) img))"
    if "call_inside (pd_rows s) (pd_cols s) d" "painted_pad s img t" for d img t
  proof -
    have t: "pad_ok t" "settings t = settings s" "pd_fb t = paint img (pd_fb s)" using that(2) by (simp_all add: painted_pad_def)
    have same: "same_pad s t" by (rule same_padI [OF t(2,3)])
    then have "call_inside (pd_rows t) (pd_cols t) d" using that(1) same_settings [OF same] by simp
    from draw_call_paints [OF t(1) this] t(2,3) show ?thesis
      by (auto simp: painted_pad_def call_picture_same [OF same] paint_paint)
  qed
qed

lemma calls_picture_foldl: "calls_picture s ds = foldl (\<lambda>img d. over (call_picture s d) img) (\<lambda>_ _. None) ds"
  by (induction ds rule: rev_induct) (simp_all add: calls_snoc)

lemma draw_calls_paint:
  assumes "pad_ok s" "\<forall>d \<in> set ds. call_inside (pd_rows s) (pd_cols s) d"
  shows "\<exists>t. draw_calls ds s = Some t \<and> pad_ok t \<and> settings t = settings s \<and> pd_fb t = paint (calls_picture s ds) (pd_fb s)"
  using painted.run_all [where s = s and b = "\<lambda>_ _. None" and sa = s and cs = ds] assms
  by (auto simp: painted_pad_def calls_picture_foldl paint_nothing list_all_iff runs_iff)

section \<open>Every call of the console succeeds\<close>



section \<open>A row is drawn cell by cell\<close>

text \<open>The picture of the cells \<open>0\<close> to \<open>k - 1\<close> of row \<open>r\<close> of the screen.\<close>

definition cell_shown :: "pad \<Rightarrow> tty \<Rightarrow> int \<Rightarrow> int \<Rightarrow> int \<Rightarrow> 8 word list" where
  "cell_shown p t r y x = (
     let c = (x - pd_fbcoff p) div pd_fncols p; i = nat (OFFSET t r c)
     in shown_pixel p (t_screen t ! i) (t_fgs t ! i) (t_bgs t ! i)
          (y - (pd_fbroff p + pd_fnrows p * r)) (x - (pd_fbcoff p + pd_fncols p * c)))"

definition cells_picture :: "pad \<Rightarrow> tty \<Rightarrow> int \<Rightarrow> int \<Rightarrow> picture" where
  "cells_picture p t r k = box (pd_fbroff p + pd_fnrows p * r) (pd_fbroff p + pd_fnrows p * r + pd_fnrows p)
     (pd_fbcoff p) (pd_fbcoff p + k * pd_fncols p) (cell_shown p t r)"

text \<open>The whole row: its cells, and right of them the background of the last one.\<close>

definition row_picture :: "pad \<Rightarrow> tty \<Rightarrow> int \<Rightarrow> picture" where
  "row_picture p t r = over (cells_picture p t r (t_pcols t))
     (box (pd_fbroff p + pd_fnrows p * r) (pd_fbroff p + pd_fnrows p * r + pd_fnrows p) (pd_fbcoff p + t_pcols t * pd_fncols p)
       (pd_fbcoff p + pd_fbcols p)
       (\<lambda>_ _. pixel_bytes (pd_bpp p) (pen p (and (t_bgs t ! nat (OFFSET t r (t_pcols t - 1))) FN_C))))"

definition blank_at :: "tty \<Rightarrow> int \<Rightarrow> int \<Rightarrow> int \<Rightarrow> bool" where
  "blank_at t r c bg \<longleftrightarrow> t_screen t ! nat (OFFSET t r c) \<in> {0, 32} \<and> t_bgs t ! nat (OFFSET t r c) = bg"

lemma col_is:
  assumes "0 < F" "k * F \<le> x - (x0::int)" "x - x0 < (k + 1) * F"
  shows "(x - x0) div F = k"
  using div_is(1) [of k F "x - x0"] assms by (simp add: distrib_right)

lemma cells_put:
  assumes F: "0 < pd_fncols p" and i: "i = nat (OFFSET t r k)" and k: "0 \<le> k"
  shows "over (cell_picture p (t_screen t ! i) r k (t_fgs t ! i) (t_bgs t ! i)) (cells_picture p t r k) = cells_picture p t r (k + 1)"
proof (intro ext)
  fix y x
  let ?x0 = "pd_fbcoff p"
  have kF: "0 \<le> k * pd_fncols p" using F k by simp
  have "(x - ?x0) div pd_fncols p = k" if "k * pd_fncols p \<le> x - ?x0" "x - ?x0 < (k + 1) * pd_fncols p"
    by (rule col_is [OF F that])
  then show "over (cell_picture p (t_screen t ! i) r k (t_fgs t ! i) (t_bgs t ! i)) (cells_picture p t r k) y x = cells_picture p t r (k + 1) y x"
    using kF F by (auto simp: over_def cell_picture_def cells_picture_def box_def cell_shown_def Let_def i distrib_left distrib_right mult.commute
        split: if_splits)
qed

lemma shown_blank: "ch \<in> {0, 32} \<Longrightarrow> shown_pixel p ch fg bg i j = pixel_bytes (pd_bpp p) (pen p (and bg FN_C))"
  by (auto simp: shown_pixel_def shown_glyph_def not_shown_def)

lemma colour_twice: "and (and c FN_C) FN_C = and c FN_C"
  by (simp add: and.assoc)

lemma cells_fill:
  assumes F: "0 < pd_fncols p" and k: "0 \<le> a" "a \<le> b" "0 \<le> r" and blank: "\<And>c. a \<le> c \<Longrightarrow> c < b \<Longrightarrow> blank_at t r c bg"
  shows "over (fill_picture p r (r + 1) a b (and bg FN_C)) (cells_picture p t r a) = cells_picture p t r b"
proof (intro ext)
  fix y x
  have le: "a * pd_fncols p \<le> b * pd_fncols p" using F k by simp
  have col: "cell_shown p t r y x = pixel_bytes (pd_bpp p) (pen p (and bg FN_C))"
    if "a * pd_fncols p \<le> x - pd_fbcoff p" "x - pd_fbcoff p < b * pd_fncols p"
  proof -
    have "a \<le> (x - pd_fbcoff p) div pd_fncols p" "(x - pd_fbcoff p) div pd_fncols p < b"
      using that div_less_iff [OF F] by auto
    from blank [OF this] show ?thesis by (simp add: cell_shown_def Let_def blank_at_def shown_blank)
  qed
  have "0 \<le> a * pd_fncols p" using F k by simp
  then show "over (fill_picture p r (r + 1) a b (and bg FN_C)) (cells_picture p t r a) y x = cells_picture p t r b y x"
    using le k col by (auto simp: over_def fill_picture_def cells_picture_def box_def colour_twice distrib_right distrib_left mult.commute)
qed

text \<open>What the loop has drawn before cell \<open>i\<close>: all cells up to the open run of blanks.\<close>

definition row_so_far :: "pad \<Rightarrow> tty \<Rightarrow> int \<Rightarrow> int \<Rightarrow> int \<times> int \<times> int \<times> tty \<Rightarrow> bool" where
  "row_so_far p t r i s = (case s of (fsc, fbg, cbg, u) \<Rightarrow>
     drawn t u \<and> - 1 \<le> fsc \<and> fsc < i \<and>
     (0 < i \<longrightarrow> cbg = t_bgs t ! nat (OFFSET t r (i - 1))) \<and>
     (0 \<le> fsc \<longrightarrow> fbg = cbg \<and> (\<forall>c. fsc \<le> c \<and> c < i \<longrightarrow> blank_at t r c fbg)) \<and>
     (\<exists>ds. t_draws u = t_draws t @ ds \<and> calls_picture p ds = cells_picture p t r (if 0 \<le> fsc then fsc else i)))"

lemma row_step:
  assumes g: "tty_grid t" and p: "0 < pd_fncols p" and r: "0 \<le> r" "r < t_prows t" and i: "0 \<le> i" "i < t_pcols t"
    and s: "row_so_far p t r i s"
  shows "runs (draw_row_step r i s) (row_so_far p t r (i + 1))"
proof -
  obtain fsc fbg cbg u where su: "s = (fsc, fbg, cbg, u)" by (cases s)
  with s obtain ds where u: "drawn t u" "- 1 \<le> fsc" "fsc < i" "0 < i \<longrightarrow> cbg = t_bgs t ! nat (OFFSET t r (i - 1))"
      "0 \<le> fsc \<longrightarrow> fbg = cbg \<and> (\<forall>c. fsc \<le> c \<and> c < i \<longrightarrow> blank_at t r c fbg)"
      "t_draws u = t_draws t @ ds" "calls_picture p ds = cells_picture p t r (if 0 \<le> fsc then fsc else i)"
    by (auto simp: row_so_far_def)
  define k where "k = nat (OFFSET t r i)"
  define ch where "ch = t_screen t ! k"
  define cb where "cb = t_bgs t ! k"
  define c where "c = (if ch \<noteq> 0 then ch else 32)"
  define ends where "ends \<longleftrightarrow> 0 \<le> fsc \<and> (cb \<noteq> fbg \<or> c \<noteq> 32)"
  define w where "w = (if ends then pad_emit (PadFill r (r + 1) fsc i (and fbg FN_C)) u else u)"
  define fsc1 where "fsc1 = (if ends then - 1 else fsc)"
  have e: "t_prows u = t_prows t" "t_pcols u = t_pcols t" using drawn_sel(1,2) [OF u(1)] .
  have off: "OFFSET u r i = OFFSET t r i" by (simp add: OFFSET_def e)
  have in_t: "0 \<le> OFFSET t r i" "OFFSET t r i < int (length (t_screen t))" "OFFSET t r i < int (length (t_fgs t))"
      "OFFSET t r i < int (length (t_bgs t))" using offset_in [OF g r i] .
  have rd: "rd (t_bgs u) (OFFSET u r i) = Some cb" "rd (t_screen u) (OFFSET u r i) = Some ch" "rd (t_fgs u) (OFFSET u r i) = Some (t_fgs t ! k)"
    using in_t u(1) by (simp_all add: rd_def off drawn_def cb_def ch_def k_def)
  have step: "draw_row_step r i s = (if c \<noteq> 32 then do { v \<leftarrow> draw_pos r i False w; Some (fsc1, fbg, cb, v) }
        else if fsc1 < 0 then Some (i, cb, cb, w) else Some (fsc1, fbg, cb, w))"
    by (simp add: su draw_row_step_def rd Let_def w_def fsc1_def ends_def c_def)
  have w: "drawn t w" using u r i e by (simp add: w_def ends_def)
  obtain ds1 where ds1: "t_draws w = t_draws t @ ds1" "calls_picture p ds1 = cells_picture p t r (if 0 \<le> fsc1 then fsc1 else i)"
  proof (cases ends)
    case True
    then have f: "0 \<le> fsc" by (simp add: ends_def)
    with u(5) have "blank_at t r c' fbg" if "fsc \<le> c'" "c' < i" for c' using that by blast
    then have "over (fill_picture p r (r + 1) fsc i (and fbg FN_C)) (cells_picture p t r fsc) = cells_picture p t r i"
      using u(3) f by (intro cells_fill [OF p _ _ r(1)]) auto
    then have "calls_picture p (ds @ [PadFill r (r + 1) fsc i (and fbg FN_C)]) = cells_picture p t r i"
      using u(7) f by (simp add: calls_snoc call_picture_def)
    with True u(6) that [of "ds @ [PadFill r (r + 1) fsc i (and fbg FN_C)]"] show thesis
      by (simp add: w_def fsc1_def pad_emit_def)
  next
    case False
    with u(6,7) that [of ds] show thesis by (simp add: w_def fsc1_def)
  qed
  show ?thesis
  proof (cases "c = 32")
    case False
    then have f1: "fsc1 < 0" by (auto simp: fsc1_def ends_def)
    let ?put = "PadPut ch r i (t_fgs t ! k) cb"
    have "draw_pos r i False w = Some (pad_emit ?put w)"
      using rd by (simp add: draw_pos_def Let_def w_def pad_emit_def OFFSET_def)
    moreover have "drawn t (pad_emit ?put w)" using w r i by simp
    moreover have "calls_picture p (ds1 @ [?put]) = cells_picture p t r (i + 1)"
      using ds1(2) f1 cells_put [OF p k_def i(1)] by (simp add: calls_snoc call_picture_def ch_def cb_def)
    then have "\<exists>ds. t_draws (pad_emit ?put w) = t_draws t @ ds \<and> calls_picture p ds = cells_picture p t r (i + 1)"
      using ds1(1) by (auto simp: pad_emit_def)
    ultimately show ?thesis using False f1 u(2) i
      by (simp add: step row_so_far_def fsc1_def cb_def k_def split: if_splits)
  next
    case True
    then have blank: "blank_at t r i cb" by (auto simp: blank_at_def c_def ch_def cb_def k_def split: if_splits)
    show ?thesis
    proof (cases "fsc1 < 0")
      case neg: True
      have "blank_at t r c' cb" if "i \<le> c'" "c' < i + 1" for c' using blank that by (cases "c' = i") auto
      then have "row_so_far p t r (i + 1) (i, cb, cb, w)" using w i ds1 neg
        by (auto simp: row_so_far_def cb_def k_def)
      then show ?thesis by (simp add: step True neg)
    next
      case pos: False
      then have run: "fsc1 = fsc" "0 \<le> fsc" "cb = fbg" using True by (auto simp: fsc1_def ends_def split: if_splits)
      have "blank_at t r c' fbg" if "fsc \<le> c'" "c' < i + 1" for c'
        using u(5) run blank that by (cases "c' = i") auto
      then have "row_so_far p t r (i + 1) (fsc, fbg, cb, w)" using w u ds1 run
        by (auto simp: row_so_far_def cb_def k_def)
      moreover have "\<not> fsc < 0" using run(2) by simp
      ultimately show ?thesis by (simp add: step True run(1,3))
    qed
  qed
qed

lemma cells_end:
  assumes F: "0 < pd_fncols p" and a: "0 \<le> a" "a \<le> n" "0 \<le> r" "n * pd_fncols p \<le> pd_fbcols p"
    and blank: "\<And>c. a \<le> c \<Longrightarrow> c < n \<Longrightarrow> blank_at t r c bg" and bg: "bg = t_bgs t ! nat (OFFSET t r (t_pcols t - 1))" "n = t_pcols t"
  shows "over (fill_picture p r (r + 1) a (- 1) (and bg FN_C)) (cells_picture p t r a) = row_picture p t r"
proof (intro ext)
  fix y x
  let ?F = "pd_fncols p"
  have le: "0 \<le> a * ?F" "a * ?F \<le> n * ?F" using F a by auto
  have col: "cell_shown p t r y x = pixel_bytes (pd_bpp p) (pen p (and bg FN_C))"
    if "a * ?F \<le> x - pd_fbcoff p" "x - pd_fbcoff p < n * ?F"
  proof -
    have "a \<le> (x - pd_fbcoff p) div ?F" "(x - pd_fbcoff p) div ?F < n"
      using that div_less_iff [OF F] by auto
    from blank [OF this] show ?thesis by (simp add: cell_shown_def Let_def blank_at_def shown_blank)
  qed
  show "over (fill_picture p r (r + 1) a (- 1) (and bg FN_C)) (cells_picture p t r a) y x = row_picture p t r y x"
    using le a(3,4) col bg by (auto simp: over_def row_picture_def fill_picture_def cells_picture_def box_def colour_twice
        distrib_left distrib_right mult.commute)
qed

lemma draw_row_shows:
  assumes g: "tty_grid t" and ok: "pad_ok p" and cols: "pd_cols p = t_pcols t" and r: "0 \<le> r" "r < t_prows t"
  shows "\<exists>u ds. draw_row r t = Some u \<and> t_draws u = t_draws t @ ds \<and> calls_picture p ds = row_picture p t r"
proof -
  have F: "0 < pd_fncols p" by (rule pad_okD(7) [OF ok])
  have n: "0 < t_pcols t" using g by (simp add: tty_grid_def)
  have start: "row_so_far p t r 0 (- 1, 0, 0, t)"
  proof -
    have "cells_picture p t r 0 = (\<lambda>_ _. None)" by (auto simp: fun_eq_iff cells_picture_def box_def)
    then show ?thesis by (auto simp: row_so_far_def intro!: exI [of _ "[]"])
  qed
  have "runs (for_range 0 (t_pcols t) (draw_row_step r) (- 1, 0, 0, t)) (row_so_far p t r (t_pcols t))"
    by (rule for_range_inv [where I = "row_so_far p t r"]) (use n start row_step [OF g F r] in auto)
  then obtain fsc fbg cbg u where loop: "for_range 0 (t_pcols t) (draw_row_step r) (- 1, 0, 0, t) = Some (fsc, fbg, cbg, u)"
    and so: "row_so_far p t r (t_pcols t) (fsc, fbg, cbg, u)" by (auto simp: runs_iff)
  from so obtain ds where ds: "t_draws u = t_draws t @ ds"
      "calls_picture p ds = cells_picture p t r (if 0 \<le> fsc then fsc else t_pcols t)" by (auto simp: row_so_far_def)
  have u: "t_pcols u = t_pcols t" "fsc < t_pcols t" "cbg = t_bgs t ! nat (OFFSET t r (t_pcols t - 1))"
      "0 \<le> fsc \<longrightarrow> fbg = cbg \<and> (\<forall>c. fsc \<le> c \<and> c < t_pcols t \<longrightarrow> blank_at t r c fbg)"
    using so n drawn_sel(2) [of t u] by (auto simp: row_so_far_def)
  let ?a = "if 0 \<le> fsc then fsc else t_pcols t"
  let ?last = "PadFill r (r + 1) ?a (- 1) (and cbg FN_C)"
  have "t_pcols t * pd_fncols p \<le> pd_fbcols p" using cells_fit(2) [OF ok, of "t_pcols t"] cols by simp
  moreover have "blank_at t r c cbg" if "?a \<le> c" "c < t_pcols t" for c
    using u(4) that by (auto split: if_splits)
  ultimately have "over (fill_picture p r (r + 1) ?a (- 1) (and cbg FN_C)) (cells_picture p t r ?a) = row_picture p t r"
    using u(2,3) n by (intro cells_end [OF F _ _ r(1)]) auto
  then have "calls_picture p (ds @ [?last]) = row_picture p t r"
    using ds(2) by (simp add: calls_snoc call_picture_def)
  moreover have "draw_row r t = Some (pad_emit ?last u)" using loop u(1) by (simp add: draw_row_def)
  ultimately show ?thesis using ds(1) by (auto simp: pad_emit_def)
qed

text \<open>
  C8. Drawing a row of the terminal joins the blanks of one background into rectangles, also the
  last ones with the rest of the row. The frame buffer afterwards shows every cell of the row
  as if it had been drawn on its own, and right of the last cell its background.
\<close>

theorem draw_row_paints:
  assumes "tty_inv t" "pad_ok p" "pd_rows p = t_prows t" "pd_cols p = t_pcols t" "0 \<le> r" "r < t_prows t"
  shows "\<exists>u ds p'. draw_row r t = Some u \<and> t_draws u = t_draws t @ ds \<and> draw_calls ds p = Some p' \<and> pad_ok p' \<and>
    pd_fb p' = paint (row_picture p t r) (pd_fb p)"
proof -
  note g = inv_grid [OF assms(1)]
  from draw_row_shows [OF g assms(2,4,5,6)] obtain u ds where
    u: "draw_row r t = Some u" "t_draws u = t_draws t @ ds" "calls_picture p ds = row_picture p t r" by blast
  from draw_row_runs [OF g assms(5,6)] u(1) have "drawn t u" by simp
  from drawn_inv(1) [OF this g] drawn_sel(1,2) [OF this] u(2) assms(3,4)
  have "\<forall>d \<in> set ds. call_inside (pd_rows p) (pd_cols p) d" by (simp add: tty_grid_def)
  from draw_calls_paint [OF assms(2) this] u show ?thesis by auto
qed

theorem draw_row_paints_witness:
  "\<exists>s p u ds p'. libfbpads_init 7 (replicate 4 blank_cell) 2 2 = Some s \<and>
    pad_init True (Some (replicate 32768 0)) sample_font_data sample_font_data sample_font_data (pad_static sample_fb) = Some (p, 0) \<and>
    draw_row 1 (term_instance s) = Some u \<and> t_draws u = t_draws (term_instance s) @ ds \<and> draw_calls ds p = Some p' \<and>
    pd_fb p' = paint (row_picture p (term_instance s) 1) (pd_fb p)"
proof -
  from init_keeps [of 2 2 "replicate 4 blank_cell" 7] obtain s where
    s: "libfbpads_init 7 (replicate 4 blank_cell) 2 2 = Some s" "fbpads_inv s"
      "t_prows (term_instance s) = 2" "t_pcols (term_instance s) = 2"
    by (auto simp: runs_iff)
  then have inv: "tty_inv (term_instance s)" by (simp add: fbpads_inv_def console_terminal_def)
  obtain p where p: "pad_init True (Some (replicate 32768 0)) sample_font_data sample_font_data sample_font_data (pad_static sample_fb) = Some (p, 0)"
    "pad_ok p" "pd_rows p = 2" "pd_cols p = 2" using sample_pad by metis
  from draw_row_paints [OF inv p(2), of 1] s p show ?thesis by auto
qed

end
