(* ===== verification/Ed.thy ===== *)
theory Ed
  imports Sash_Args
begin

text \<open>
  sash/cmd_ed.c: the line editor of the shell. The lines are a circular list of blocks on the
  heap, linked in both directions through the static block \<open>lines\<close>; the editor keeps the number
  and the address of the current line and walks from there.

  The heap is a map from addresses to blocks: 0 is the null pointer, 1 the address of \<open>lines\<close>, and
  \<open>malloc\<close> returns addresses that were never used, so an access to a block that was freed is
  undefined (\<^term>\<open>None\<close>). What the system answers comes from queues in the state, each with a
  default for its end: \<open>malloc\<close> (a block), the flag of the interrupt key (not pressed), \<open>open\<close> (fails),
  the results of \<open>creat\<close>, \<open>write\<close> and \<open>close\<close> (success). An open file is its remaining content with
  limits for the next reads; without a limit \<open>read\<close> fills the buffer as for a regular file.
  Messages go to a log, what is written to files to \<open>ed_files\<close>. The standard input is a string.
\<close>

section \<open>State\<close>

definition USERSIZE :: int where "USERSIZE = 1024"
definition INITBUF_SIZE :: int where "INITBUF_SIZE = 1024"

abbreviation (input) NULL :: nat where "NULL \<equiv> 0"
definition LINES :: nat where "LINES = 1"

text \<open>\<open>ln_data\<close> is the block behind \<open>data\<close>, of which \<open>ln_len\<close> bytes are in use.\<close>

record LINE =
  ln_next :: nat
  ln_prev :: nat
  ln_len :: int
  ln_data :: string

datatype ed_event = Out string | Err string

record ed =
  ed_heap :: "nat \<Rightarrow> LINE option"
  ed_brk :: nat
  ed_curLine :: nat
  ed_curNum :: int
  ed_lastNum :: int
  ed_marks :: "int list"
  ed_dirty :: bool
  ed_fileName :: "string option"
  ed_search :: string
  ed_buf :: "string option"
  ed_mallocs :: "bool list"
  ed_ints :: "bool list"
  ed_opens :: "(string \<times> int list) option list"
  ed_writes :: "int list"
  ed_files :: "(string \<times> string) list"
  ed_log :: "ed_event list"

definition say :: "ed_event \<Rightarrow> ed \<Rightarrow> ed" where
  "say e s = s\<lparr>ed_log := ed_log s @ [e]\<rparr>"

definition set_next :: "nat \<Rightarrow> nat \<Rightarrow> ed \<Rightarrow> ed option" where
  "set_next p q s = do { b \<leftarrow> ed_heap s p; Some (s\<lparr>ed_heap := (ed_heap s)(p \<mapsto> b\<lparr>ln_next := q\<rparr>)\<rparr>) }"

definition set_prev :: "nat \<Rightarrow> nat \<Rightarrow> ed \<Rightarrow> ed option" where
  "set_prev p q s = do { b \<leftarrow> ed_heap s p; Some (s\<lparr>ed_heap := (ed_heap s)(p \<mapsto> b\<lparr>ln_prev := q\<rparr>)\<rparr>) }"

definition free_line :: "nat \<Rightarrow> ed \<Rightarrow> ed option" where
  "free_line p s = do {
     _ \<leftarrow> ed_heap s p;
     (if p = LINES then None else Some (s\<lparr>ed_heap := (ed_heap s)(p := None)\<rparr>)) }"

text \<open>Whether \<open>malloc\<close> finds memory; a line with its text, the null pointer when there is none.\<close>

definition alloc :: "ed \<Rightarrow> ed \<times> bool" where
  "alloc s = (s\<lparr>ed_mallocs := tl (ed_mallocs s)\<rparr>, ed_mallocs s = [] \<or> hd (ed_mallocs s))"

definition malloc_line :: "string \<Rightarrow> ed \<Rightarrow> ed \<times> nat" where
  "malloc_line data s =
     (let (s1, ok) = alloc s in
      if ok then
        (s1\<lparr>ed_brk := ed_brk s1 + 1, ed_heap := (ed_heap s1)(ed_brk s1 \<mapsto>
           \<lparr>ln_next = NULL, ln_prev = NULL, ln_len = int (length data), ln_data = data\<rparr>)\<rparr>, ed_brk s1)
      else (s1, NULL))"

definition interrupted :: "ed \<Rightarrow> ed \<times> bool" where
  "interrupted s = (s\<lparr>ed_ints := tl (ed_ints s)\<rparr>, ed_ints s \<noteq> [] \<and> hd (ed_ints s))"

section \<open>The current line\<close>

definition findLine :: "int \<Rightarrow> ed \<Rightarrow> (ed \<times> nat) option" where
  "findLine num s =
     (if num < 1 \<or> num > ed_lastNum s
      then Some (say (Err (''Line number '' @ show_int num @ '' does not exist'')) s, NULL)
      else do {
        head \<leftarrow> ed_heap s LINES;
        let s1 = (if ed_curNum s \<le> 0 then s\<lparr>ed_curNum := 1, ed_curLine := ln_next head\<rparr> else s);
        (if num = ed_curNum s1 then Some (s1, ed_curLine s1)
         else do {
           sum \<leftarrow> c_int (ed_curNum s1 + ed_lastNum s1);
           let (lp, lnum) =
             (if num < ed_curNum s1 sdiv 2 then (ln_next head, 1)
              else if num > sum sdiv 2 then (ln_prev head, ed_lastNum s1)
              else (ed_curLine s1, ed_curNum s1));
           lp1 \<leftarrow> for_range lnum num (\<lambda>_ p. map_option ln_next (ed_heap s1 p)) lp;
           lp2 \<leftarrow> for_range num lnum (\<lambda>_ p. map_option ln_prev (ed_heap s1 p)) lp1;
           Some (s1, lp2) }) })"

definition setCurNum :: "int \<Rightarrow> ed \<Rightarrow> (ed \<times> bool) option" where
  "setCurNum num s = do {
     (s1, lp) \<leftarrow> findLine num s;
     Some (if lp = NULL then (s1, False) else (s1\<lparr>ed_curNum := num, ed_curLine := lp\<rparr>, True)) }"

section \<open>Inserting and deleting lines\<close>

text \<open>The new line goes in front of \<open>lp\<close>.\<close>

definition link_line :: "nat \<Rightarrow> nat \<Rightarrow> ed \<Rightarrow> ed option" where
  "link_line newLp lp s = do {
     s1 \<leftarrow> set_next newLp lp s;
     b \<leftarrow> ed_heap s1 lp;
     s2 \<leftarrow> set_prev newLp (ln_prev b) s1;
     s3 \<leftarrow> set_next (ln_prev b) newLp s2;
     set_prev lp newLp s3 }"

definition insertLine :: "int \<Rightarrow> string \<Rightarrow> ed \<Rightarrow> (ed \<times> bool) option" where
  "insertLine num data s =
     (if num < 1 \<or> num > ed_lastNum s + 1 then Some (say (Err ''Inserting at bad line number'') s, False)
      else let (s1, newLp) = malloc_line data s in
        if newLp = NULL then Some (say (Err ''Failed to allocate memory for line'') s1, False)
        else do {
          (s2, lp) \<leftarrow> (if num > ed_lastNum s1 then Some (s1, LINES) else findLine num s1);
          (if lp = NULL then do { s3 \<leftarrow> free_line newLp s2; Some (s3, False) }
           else do {
             s3 \<leftarrow> link_line newLp lp s2;
             n \<leftarrow> c_int (ed_lastNum s3 + 1);
             setCurNum num (s3\<lparr>ed_lastNum := n, ed_dirty := True\<rparr>) }) })"

definition unlink_line :: "int \<Rightarrow> ed \<times> nat \<Rightarrow> (ed \<times> nat) option" where
  "unlink_line i = (\<lambda>(s, lp). do {
     b \<leftarrow> ed_heap s lp;
     s1 \<leftarrow> set_next (ln_prev b) (ln_next b) s;
     s2 \<leftarrow> set_prev (ln_next b) (ln_prev b) s1;
     s3 \<leftarrow> free_line lp s2;
     Some (s3, ln_next b) })"

definition deleteLines :: "int \<Rightarrow> int \<Rightarrow> ed \<Rightarrow> (ed \<times> bool) option" where
  "deleteLines num1 num2 s =
     (if num1 < 1 \<or> num2 > ed_lastNum s \<or> num1 > num2 then Some (say (Err ''Bad line numbers for delete'') s, False)
      else do {
        (s1, lp) \<leftarrow> findLine num1 s;
        (if lp = NULL then Some (s1, False)
         else do {
           s2 \<leftarrow> (if ed_curNum s1 \<ge> num1 \<and> ed_curNum s1 \<le> num2 then
                     if num2 < ed_lastNum s1 then map_option fst (setCurNum (num2 + 1) s1)
                     else if num1 > 1 then map_option fst (setCurNum (num1 - 1) s1)
                     else Some (s1\<lparr>ed_curNum := 0\<rparr>)
                   else Some s1);
           let count = num2 - num1 + 1;
           let s3 = (if ed_curNum s2 > num2 then s2\<lparr>ed_curNum := ed_curNum s2 - count\<rparr> else s2);
           let s4 = s3\<lparr>ed_lastNum := ed_lastNum s3 - count\<rparr>;
           (s5, _) \<leftarrow> for_range 0 count unlink_line (s4, lp);
           Some (s5\<lparr>ed_dirty := True\<rparr>, True) }) })"

section \<open>Searching\<close>

text \<open>\<open>memchr\<close>: the position of the first such character.\<close>

definition memchr :: "char \<Rightarrow> string \<Rightarrow> nat option" where
  "memchr c s = (if c \<in> set s then Some (length (takeWhile (\<lambda>d. d \<noteq> c) s)) else None)"

lemma memchr_bound: "memchr c s = Some k \<Longrightarrow> k < length s"
  unfolding memchr_def by (induction s arbitrary: k) (auto split: if_splits)

text \<open>\<open>s\<close>: the \<open>left\<close> bytes from the pointer \<open>cp\<close> on; \<open>first\<close>: the character \<open>*str\<close>.\<close>

function scan_string :: "string \<Rightarrow> int \<Rightarrow> string \<Rightarrow> int" where
  "scan_string str cp s =
     (if length str \<le> length s then
        (case memchr (hd (str @ [NUL])) s of
           None \<Rightarrow> - 1
         | Some k \<Rightarrow>
             if length s - k < length str then - 1
             else if take (length str) (drop k s) = str then cp + int k
             else scan_string str (cp + int k + 1) (drop (k + 1) s))
      else - 1)"
  by pat_completeness auto

termination
  by (relation "measure (\<lambda>(str, cp, s). length s)") (auto dest: memchr_bound)

declare scan_string.simps [simp del]

text \<open>An offset behind the text leaves a negative rest, in which nothing is found.\<close>

definition findString :: "LINE \<Rightarrow> string \<Rightarrow> int \<Rightarrow> int option" where
  "findString b str offset =
     (if ln_len b - offset < int (length str) then Some (- 1)
      else do { s \<leftarrow> mem_get (ln_data b) offset (ln_len b - offset); Some (scan_string str offset s) })"

definition search_step :: "string \<Rightarrow> ed \<Rightarrow> int \<Rightarrow> nat \<times> int \<Rightarrow> (nat \<times> int) option" where
  "search_step str s i = (\<lambda>(lp, found).
     if found \<noteq> 0 then Some (lp, found)
     else do {
       b \<leftarrow> ed_heap s lp;
       at \<leftarrow> findString b str 0;
       Some (if at \<ge> 0 then (lp, i) else (ln_next b, 0)) })"

definition searchLines :: "string \<Rightarrow> int \<Rightarrow> int \<Rightarrow> ed \<Rightarrow> (ed \<times> int) option" where
  "searchLines str num1 num2 s =
     (if num1 < 1 \<or> num2 > ed_lastNum s \<or> num1 > num2 then Some (say (Err ''Bad line numbers for search'') s, 0)
      else if str = [] \<and> ed_search s = [] then Some (say (Err ''No previous search string'') s, 0)
      else let str' = (if str = [] then ed_search s else str); s0 = s\<lparr>ed_search := str'\<rparr> in do {
        (s1, lp) \<leftarrow> findLine num1 s0;
        (if lp = NULL then Some (s1, 0)
         else do {
           (_, found) \<leftarrow> for_range num1 (num2 + 1) (search_step str' s1) (lp, 0);
           Some (if found \<noteq> 0 then (s1, found)
                 else (say (Err (''Cannot find string '' @ DQUOTE # str' @ [DQUOTE])) s1, 0)) }) })"

section \<open>Printing\<close>

definition expand_char :: "char \<Rightarrow> string" where
  "expand_char c =
     (let ch = code c;
          (pre, ch) = (if ch \<ge> 128 then (''M-'', ch - 128) else ([], ch));
          (pre, ch) = (if ch < 32 then (pre @ ''^'', ch + 64) else (pre, ch));
          (pre, ch) = (if ch = 127 then (pre @ ''^'', 63) else (pre, ch))
      in pre @ [char_of (nat ch)])"

definition expand_text :: "string \<Rightarrow> string" where
  "expand_text t = concat (map expand_char (if t \<noteq> [] \<and> last t = LF then butlast t else t)) @ ''$'' @ [LF]"

definition line_text :: "LINE \<Rightarrow> string option" where
  "line_text b = mem_get (ln_data b) 0 (ln_len b)"

text \<open>
  The two branches of the loop differ in what they write. \<open>tryWrite\<close> reports an error of the
  terminal and goes on; the log takes the text that it is to write.
\<close>

function print_loop :: "int \<Rightarrow> int \<Rightarrow> bool \<Rightarrow> nat \<Rightarrow> ed \<Rightarrow> ed option" where
  "print_loop num1 num2 expandFlag lp s =
     (let (s0, stop) = interrupted s in
      if \<not> stop \<and> num1 \<le> num2 then do {
        b \<leftarrow> ed_heap s0 lp;
        t \<leftarrow> line_text b;
        (s2, _) \<leftarrow> setCurNum num1 (say (Out (if expandFlag then expand_text t else t)) s0);
        print_loop (num1 + 1) num2 expandFlag (ln_next b) s2 }
      else Some s0)"
  by pat_completeness auto

termination
  by (relation "measure (\<lambda>(num1, num2, e, lp, s). nat (num2 + 1 - num1))") auto

declare print_loop.simps [simp del]

definition printLines :: "int \<Rightarrow> int \<Rightarrow> bool \<Rightarrow> ed \<Rightarrow> (ed \<times> bool) option" where
  "printLines num1 num2 expandFlag s =
     (if num1 < 1 \<or> num2 > ed_lastNum s \<or> num1 > num2 then Some (say (Err ''Bad line range for print'') s, False)
      else do {
        (s1, lp) \<leftarrow> findLine num1 s;
        (if lp = NULL then Some (s1, False)
         else do { s2 \<leftarrow> print_loop num1 num2 expandFlag lp s1; Some (s2, True) }) })"

section \<open>Substitution\<close>

text \<open>
  The text of the command behind the \<open>s\<close>: the delimiter, the two strings and the options. The
  result is the old string, the new one, and the two flags.
\<close>

fun sub_options :: "string \<Rightarrow> bool \<Rightarrow> bool \<Rightarrow> (bool \<times> bool) option" where
  "sub_options [] globalFlag printFlag = Some (globalFlag, printFlag)"
| "sub_options (c # r) globalFlag printFlag =
     (if c = CHR ''g'' then sub_options r True printFlag
      else if c = CHR ''p'' then sub_options r globalFlag True
      else None)"

definition sub_parse :: "string \<Rightarrow> string + string \<times> string \<times> bool \<times> bool" where
  "sub_parse cmd =
     (case cmd of
        [] \<Rightarrow> Inl ''Bad delimiter for substitute''
      | delim # r \<Rightarrow>
          if isBlank delim then Inl ''Bad delimiter for substitute''
          else if delim \<notin> set r then Inl ''Missing 2nd delimiter for substitute''
          else let oldStr = takeWhile (\<lambda>c. c \<noteq> delim) r;
                   r1 = tl (dropWhile (\<lambda>c. c \<noteq> delim) r);
                   newStr = takeWhile (\<lambda>c. c \<noteq> delim) r1;
                   opts = tl (dropWhile (\<lambda>c. c \<noteq> delim) r1)
               in case sub_options opts False False of
                    None \<Rightarrow> Inl ''Unknown option for substitute''
                  | Some (g, p) \<Rightarrow> Inr (oldStr, newStr, g, p))"

text \<open>
  One replacement in the line \<open>lp\<close> at \<open>offset\<close>: in place when the new string is not longer, else in a
  new block that takes the place of the old one. The copy of the rest to the left overlaps, which
  the C library of the program allows: its \<open>memcpy\<close> runs forward.
\<close>

definition sub_in_place :: "nat \<Rightarrow> int \<Rightarrow> int \<Rightarrow> string \<Rightarrow> ed \<Rightarrow> ed option" where
  "sub_in_place lp offset oldLen newStr s = do {
     b \<leftarrow> ed_heap s lp;
     let newLen = int (length newStr);
     d1 \<leftarrow> mem_put (ln_data b) offset newStr;
     b1 \<leftarrow> (if newLen \<noteq> oldLen then do {
              d2 \<leftarrow> mem_move d1 (offset + newLen) (offset + oldLen) (ln_len b - offset - oldLen);
              Some (b\<lparr>ln_data := d2, ln_len := ln_len b + (newLen - oldLen)\<rparr>) }
            else Some (b\<lparr>ln_data := d1\<rparr>));
     Some (s\<lparr>ed_heap := (ed_heap s)(lp \<mapsto> b1)\<rparr>) }"

definition sub_longer :: "nat \<Rightarrow> int \<Rightarrow> int \<Rightarrow> string \<Rightarrow> ed \<Rightarrow> (ed \<times> nat) option" where
  "sub_longer lp offset oldLen newStr s = do {
     b \<leftarrow> ed_heap s lp;
     before \<leftarrow> mem_get (ln_data b) 0 offset;
     after \<leftarrow> mem_get (ln_data b) (offset + oldLen) (ln_len b - offset - oldLen);
     let (s1, nlp) = malloc_line (before @ newStr @ after) s;
     (if nlp = NULL then Some (say (Err ''Cannot get memory for line'') s1, NULL)
      else do {
        s2 \<leftarrow> set_next nlp (ln_next b) s1;
        s3 \<leftarrow> set_prev nlp (ln_prev b) s2;
        s4 \<leftarrow> set_next (ln_prev b) nlp s3;
        s5 \<leftarrow> set_prev (ln_next b) nlp s4;
        let s6 = (if ed_curLine s5 = lp then s5\<lparr>ed_curLine := nlp\<rparr> else s5);
        s7 \<leftarrow> free_line lp s6;
        Some (s7, nlp) }) }"

definition print_pending :: "bool \<Rightarrow> int \<Rightarrow> ed \<Rightarrow> ed option" where
  "print_pending needPrint num s = (if needPrint then map_option fst (printLines num num False s) else Some s)"

text \<open>
  The loop of the command. The variables of the loop: the line, its number, the offset, whether
  a line waits to be printed, whether something was replaced. The result tells whether memory
  was missing, or else whether something was replaced.
\<close>

partial_function (option) sub_loop :: "string \<Rightarrow> string \<Rightarrow> bool \<Rightarrow> bool \<Rightarrow> nat \<Rightarrow> int \<Rightarrow> int \<Rightarrow> int \<Rightarrow> bool \<Rightarrow> bool \<Rightarrow>
    ed \<Rightarrow> (ed \<times> bool option) option" where
  "sub_loop oldStr newStr globalFlag printFlag lp num1 num2 offset needPrint didSub s =
     (if num1 \<le> num2 then do {
        b \<leftarrow> ed_heap s lp;
        at \<leftarrow> findString b oldStr offset;
        (if at < 0 then do {
           s1 \<leftarrow> print_pending needPrint num1 s;
           sub_loop oldStr newStr globalFlag printFlag (ln_next b) (num1 + 1) num2 0 False didSub s1 }
         else do {
           let s1 = s\<lparr>ed_dirty := True\<rparr>;
           (s2, nlp) \<leftarrow> (if length newStr \<le> length oldStr
              then map_option (\<lambda>s. (s, lp)) (sub_in_place lp at (int (length oldStr)) newStr s1)
              else sub_longer lp at (int (length oldStr)) newStr s1);
           (if nlp = NULL then Some (s2, None)
            else if globalFlag then
              sub_loop oldStr newStr globalFlag printFlag nlp num1 num2 (at + int (length newStr)) printFlag True s2
            else do {
              s3 \<leftarrow> print_pending printFlag num1 s2;
              c \<leftarrow> ed_heap s3 nlp;
              sub_loop oldStr newStr globalFlag printFlag (ln_next c) (num1 + 1) num2 (at + int (length newStr)) False True s3 }) }) }
      else Some (s, Some didSub))"

declare sub_loop.simps [code]

definition subCommand :: "string \<Rightarrow> int \<Rightarrow> int \<Rightarrow> ed \<Rightarrow> ed option" where
  "subCommand cmd num1 num2 s =
     (if num1 < 1 \<or> num2 > ed_lastNum s \<or> num1 > num2 then Some (say (Err ''Bad line range for substitute'') s)
      else case sub_parse cmd of
        Inl e \<Rightarrow> Some (say (Err e) s)
      | Inr (old, newStr, g, p) \<Rightarrow>
          if old = [] \<and> ed_search s = [] then Some (say (Err ''No previous search string'') s)
          else let oldStr = (if old = [] then ed_search s else old) in do {
            (s1, lp) \<leftarrow> findLine num1 (s\<lparr>ed_search := oldStr\<rparr>);
            (if lp = NULL then Some s1
             else do {
               (s2, did) \<leftarrow> sub_loop oldStr newStr g p lp num1 num2 0 False False s1;
               Some (if did = Some False
                     then say (Err (''No substitutions found for '' @ DQUOTE # oldStr @ [DQUOTE])) s2 else s2) }) })"

section \<open>Line numbers\<close>

datatype num_term = Dot | Dollar | Mark char | Bad_mark | Search string | Number string | No_term

text \<open>One operand of the sum, and the rest of the text.\<close>

definition scan_term :: "string \<Rightarrow> num_term \<times> string" where
  "scan_term cp =
     (case cp of
        [] \<Rightarrow> (No_term, cp)
      | c # r \<Rightarrow>
          if c = CHR ''.'' then (Dot, r)
          else if c = CHR ''$'' then (Dollar, r)
          else if c = SQUOTE then
            (case r of m # r1 \<Rightarrow> if code m < code CHR ''a'' \<or> code m > code CHR ''z'' then (Bad_mark, r) else (Mark m, r1)
             | [] \<Rightarrow> (Bad_mark, r))
          else if c = CHR ''/'' then (Search (takeWhile (\<lambda>d. d \<noteq> CHR ''/'') r), tl (dropWhile (\<lambda>d. d \<noteq> CHR ''/'') r))
          else if is_digit c then (Number (takeWhile is_digit cp), dropWhile is_digit cp)
          else (No_term, cp))"

lemma length_drop_le: "length (dropWhile P r) \<le> length r" "length (tl (dropWhile P r)) \<le> length r"
  using length_dropWhile_le [of P r] by simp_all

lemma scan_term_shorter:
  assumes "scan_term cp = (t, r)" "t \<noteq> No_term"
  shows "length r < length cp"
proof (cases cp)
  case (Cons c q)
  have "length r \<le> length q"
    using assms Cons length_drop_le [of is_digit q] length_drop_le [of "\<lambda>d. d \<noteq> CHR ''/''" q]
    by (auto simp: scan_term_def simp del: length_tl split: if_splits list.splits)
  with Cons show ?thesis by simp
qed (use assms in \<open>simp add: scan_term_def\<close>)

definition read_digits :: "string \<Rightarrow> int option" where
  "read_digits ds = foldl (\<lambda>v c. do { n \<leftarrow> v; t \<leftarrow> c_int (n * 10); u \<leftarrow> c_int (t + code c); Some (u - 48) }) (Some 0) ds"

text \<open>The inner \<^term>\<open>None\<close>: an error that was reported.\<close>

definition term_value :: "num_term \<Rightarrow> ed \<Rightarrow> (ed \<times> int option) option" where
  "term_value t s =
     (case t of
        Dot \<Rightarrow> Some (s, Some (ed_curNum s))
      | Dollar \<Rightarrow> Some (s, Some (ed_lastNum s))
      | Mark c \<Rightarrow> do { n \<leftarrow> rd (ed_marks s) (code c - code CHR ''a''); Some (s, Some n) }
      | Search str \<Rightarrow> do {
          (s1, n) \<leftarrow> searchLines str (ed_curNum s) (ed_lastNum s) s;
          Some (s1, if n = 0 then None else Some n) }
      | Number ds \<Rightarrow> do { n \<leftarrow> read_digits ds; Some (s, Some n) }
      | _ \<Rightarrow> Some (say (Err ''Bad mark name'') s, None))"

lemma getNum_shorter:
  assumes "(t, r) = scan_term (dropWhile isBlank cp)" "t \<noteq> No_term" "dropWhile isBlank r = c # r1"
  shows "length r1 < length cp"
proof -
  have "length (c # r1) \<le> length r" using length_dropWhile_le [of isBlank r] assms(3) by simp
  moreover have "length r < length (dropWhile isBlank cp)" using assms(1,2) scan_term_shorter by metis
  ultimately show ?thesis using length_dropWhile_le [of isBlank cp] by simp
qed

text \<open>The result: the rest of the text, whether there was a number, and the number.\<close>

function getNum_loop :: "string \<Rightarrow> bool \<Rightarrow> int \<Rightarrow> int \<Rightarrow> ed \<Rightarrow> (ed \<times> (string \<times> bool \<times> int) option) option" where
  "getNum_loop cp haveNum val sign s =
     (case scan_term (dropWhile isBlank cp) of (t, r) \<Rightarrow>
        if t = No_term then Some (s, Some (dropWhile isBlank cp, haveNum, val))
        else case term_value t s of
          None \<Rightarrow> None
        | Some (s1, None) \<Rightarrow> Some (s1, None)
        | Some (s1, Some num) \<Rightarrow> do {
            p \<leftarrow> c_int (num * sign);
            v \<leftarrow> c_int (val + p);
            (case dropWhile isBlank r of
               c # r1 \<Rightarrow>
                 if c = CHR ''-'' then getNum_loop r1 True v (- 1) s1
                 else if c = CHR ''+'' then getNum_loop r1 True v 1 s1
                 else Some (s1, Some (c # r1, True, v))
             | [] \<Rightarrow> Some (s1, Some ([], True, v))) })"
  by pat_completeness auto

termination
  by (relation "measure (\<lambda>(cp, haveNum, v, sign, s). length cp)") (auto dest: getNum_shorter)

declare getNum_loop.simps [simp del]

definition getNum :: "string \<Rightarrow> ed \<Rightarrow> (ed \<times> (string \<times> bool \<times> int) option) option" where
  "getNum cp s = getNum_loop cp False 0 1 s"

section \<open>Reading and writing files\<close>

text \<open>
  The buffer of \<open>readLines\<close>: \<open>ptr\<close> is the offset of \<open>bufPtr\<close>, \<open>used\<close> is \<open>bufUsed\<close>. The bytes that \<open>realloc\<close>
  adds have no value yet. The loop ends with the result of the last \<open>read\<close>, the values of its
  variables and the two counters, or with an error that was reported.
\<close>

datatype read_end = Failed | Ended int int int int int int

text \<open>One \<open>read\<close> of at most \<open>n\<close> bytes: the bytes, or an error, and the file behind them.\<close>

definition read_file :: "int \<Rightarrow> string \<Rightarrow> int list \<Rightarrow> string option \<times> string \<times> int list" where
  "read_file n content limits =
     (case limits of
        [] \<Rightarrow> (Some (take (nat n) content), drop (nat n) content, [])
      | l # ls \<Rightarrow> if l < 0 then (None, content, ls)
                  else (Some (take (nat (min l n)) content), drop (nat (min l n)) content, ls))"

lemma read_file_shorter:
  assumes "read_file n content limits = (Some chunk, rest, ls)" "chunk \<noteq> []"
  shows "length rest < length content"
proof -
  obtain m where "chunk = take m content" "rest = drop m content"
    using assms(1) by (auto simp: read_file_def split: list.splits if_splits)
  with assms(2) show ?thesis by (cases m) auto
qed

definition grow_buffer :: "int \<Rightarrow> string \<Rightarrow> int \<Rightarrow> ed \<Rightarrow> (ed \<times> (string \<times> int) option) option" where
  "grow_buffer used buf ptr s =
     (if used \<ge> int (length buf) then do {
        n3 \<leftarrow> c_int (int (length buf) * 3);
        let (s1, ok) = alloc s;
        Some (if ok then (s1, Some (buf @ replicate (nat (n3 sdiv 2) - length buf) NUL, used))
              else (say (Err ''No memory for buffer'') s1, None)) }
      else Some (s, Some (buf, ptr)))"

text \<open>The unfinished line goes to the start of the buffer, and a full buffer grows.\<close>

definition refill :: "int \<Rightarrow> string \<Rightarrow> int \<Rightarrow> ed \<Rightarrow> (ed \<times> (string \<times> int) option) option" where
  "refill used buf ptr s = do {
     (buf1, ptr1) \<leftarrow> (if ptr \<noteq> 0 then map_option (\<lambda>b. (b, used)) (mem_move buf 0 ptr used) else Some (buf, ptr));
     grow_buffer used buf1 ptr1 (s\<lparr>ed_buf := Some buf1\<rparr>) }"

lemma window_length: "mem_get buf ptr used = Some window \<Longrightarrow> memchr c window = Some k \<Longrightarrow> 0 \<le> used \<and> int k < used"
  by (auto simp: mem_get_def dest!: memchr_bound split: if_splits)

function read_loop :: "int \<Rightarrow> int \<Rightarrow> int \<Rightarrow> int \<Rightarrow> int \<Rightarrow> int \<Rightarrow> string \<Rightarrow> int list \<Rightarrow> ed \<Rightarrow> (ed \<times> read_end) option" where
  "read_loop num ptr used lineCount charCount cc content limits s =
     (let (s0, stop) = interrupted s in
      if stop then Some (say (Out ''INTERRUPTED, '') s0, Ended num ptr 0 lineCount charCount cc)
      else case ed_buf s0 of None \<Rightarrow> None
      | Some buf \<Rightarrow>
        (case mem_get buf ptr used of None \<Rightarrow> None
         | Some window \<Rightarrow>
           (case memchr LF window of
              Some k \<Rightarrow>
                (case insertLine num (take (k + 1) window) s0 of None \<Rightarrow> None
                 | Some (s1, ok) \<Rightarrow>
                   if \<not> ok then Some (s1, Failed)
                   else do {
                     chars \<leftarrow> c_int (charCount + int (k + 1));
                     num1 \<leftarrow> c_int (num + 1);
                     (if cc > 0 then read_loop num1 (ptr + int (k + 1)) (used - int (k + 1)) (lineCount + 1) chars cc content limits s1
                      else Some (s1, Ended num1 (ptr + int (k + 1)) (used - int (k + 1)) (lineCount + 1) chars cc)) })
            | None \<Rightarrow>
                (case refill used buf ptr s0 of None \<Rightarrow> None
                 | Some (s1, None) \<Rightarrow> Some (s1, Failed)
                 | Some (s1, Some (buf2, ptr2)) \<Rightarrow>
                      (case read_file (int (length buf2) - used) content limits of
                         (None, rest, ls) \<Rightarrow> Some (s1\<lparr>ed_buf := Some buf2\<rparr>, Ended num 0 (used - 1) lineCount charCount (- 1))
                       | (Some chunk, rest, ls) \<Rightarrow>
                         (case mem_put buf2 ptr2 chunk of None \<Rightarrow> None
                          | Some buf3 \<Rightarrow>
                            let s2 = s1\<lparr>ed_buf := Some buf3\<rparr> in
                            if chunk \<noteq> [] then
                              read_loop num 0 (used + int (length chunk)) lineCount charCount (int (length chunk)) rest ls s2
                            else Some (s2, Ended num 0 used lineCount charCount 0)))))))"
  by pat_completeness auto

termination
  by (relation "inv_image (less_than <*lex*> less_than)
      (\<lambda>(num, ptr, used, lc, chc, cc, content, limits, s). (length content, nat used))")
    (auto dest: window_length read_file_shorter [OF sym])

declare read_loop.simps [simp del]

definition read_count :: "int \<Rightarrow> bool \<Rightarrow> int \<Rightarrow> string" where
  "read_count lineCount incomplete charCount =
     show_int lineCount @ '' lines'' @ (if incomplete then '' (incomplete)'' else []) @ '', '' @ show_int charCount @ '' chars'' @ [LF]"

text \<open>\<open>return -1\<close>, when the last line finds no memory, is not zero and so means success to the callers.\<close>

definition read_finish :: "string \<Rightarrow> read_end \<Rightarrow> ed \<Rightarrow> (ed \<times> bool) option" where
  "read_finish file e s =
     (case e of
        Failed \<Rightarrow> Some (s, False)
      | Ended num ptr used lineCount charCount cc \<Rightarrow>
          if cc < 0 then Some (say (Err file) s, False)
          else if used \<noteq> 0 then do {
            buf \<leftarrow> ed_buf s;
            window \<leftarrow> mem_get buf ptr used;
            (s1, ok) \<leftarrow> insertLine num window s;
            (if \<not> ok then Some (s1, True)
             else do {
               chars \<leftarrow> c_int (charCount + used);
               Some (say (Out (read_count (lineCount + 1) True chars)) s1, True) }) }
          else Some (say (Out (read_count lineCount False charCount)) s, True))"

definition readLines :: "string \<Rightarrow> int \<Rightarrow> ed \<Rightarrow> (ed \<times> bool) option" where
  "readLines file num s =
     (if num < 1 \<or> num > ed_lastNum s + 1 then Some (say (Err ''Bad line for read'') s, False)
      else let s1 = s\<lparr>ed_opens := tl (ed_opens s)\<rparr> in
        case (if ed_opens s = [] then None else hd (ed_opens s)) of
          None \<Rightarrow> Some (say (Err file) s1, False)
        | Some (content, limits) \<Rightarrow> do {
            (s2, e) \<leftarrow> read_loop num 0 0 0 0 0 content limits (say (Out (DQUOTE # file @ [DQUOTE] @ '', '')) s1);
            read_finish file e s2 })"

text \<open>The result of the next \<open>creat\<close>, \<open>write\<close> or \<open>close\<close>.\<close>

definition result :: "int \<Rightarrow> ed \<Rightarrow> ed \<times> int" where
  "result usual s = (s\<lparr>ed_writes := tl (ed_writes s)\<rparr>, if ed_writes s = [] then usual else hd (ed_writes s))"

definition write_file :: "string \<Rightarrow> ed \<Rightarrow> ed" where
  "write_file t s = s\<lparr>ed_files := (case rev (ed_files s) of [] \<Rightarrow> [] | (n, c) # fs \<Rightarrow> rev ((n, c @ t) # fs))\<rparr>"

text \<open>\<open>None\<close> inside: an error, which was reported.\<close>

function write_loop :: "string \<Rightarrow> int \<Rightarrow> int \<Rightarrow> nat \<Rightarrow> int \<Rightarrow> int \<Rightarrow> ed \<Rightarrow> (ed \<times> (int \<times> int) option) option" where
  "write_loop file num1 num2 lp lineCount charCount s =
     (if num1 \<le> num2 then do {
        b \<leftarrow> ed_heap s lp;
        t \<leftarrow> line_text b;
        let (s1, r) = result (ln_len b) s;
        let s2 = write_file (take (nat r) t) s1;
        (if r \<noteq> ln_len b then Some (say (Err file) s2, None)
         else do {
           chars \<leftarrow> c_int (charCount + ln_len b);
           write_loop file (num1 + 1) num2 (ln_next b) (lineCount + 1) chars s2 }) }
      else Some (s, Some (lineCount, charCount)))"
  by pat_completeness auto

termination
  by (relation "measure (\<lambda>(file, num1, num2, lp, lc, chc, s). nat (num2 + 1 - num1))") auto

declare write_loop.simps [simp del]

definition writeLines :: "string \<Rightarrow> int \<Rightarrow> int \<Rightarrow> ed \<Rightarrow> (ed \<times> bool) option" where
  "writeLines file num1 num2 s =
     (if num1 < 1 \<or> num2 > ed_lastNum s \<or> num1 > num2 then Some (say (Err ''Bad line range for write'') s, False)
      else let (s1, fd) = result 0 s in
        if fd < 0 then Some (say (Err file) s1, False)
        else do {
          (s2, lp) \<leftarrow> findLine num1 (say (Out (DQUOTE # file @ [DQUOTE] @ '', '')) (s1\<lparr>ed_files := ed_files s1 @ [(file, [])]\<rparr>));
          (if lp = NULL then Some (s2, False)
           else do {
             (s3, counts) \<leftarrow> write_loop file num1 num2 lp 0 0 s2;
             (case counts of
                None \<Rightarrow> Some (s3, False)
              | Some (lineCount, charCount) \<Rightarrow>
                  let (s4, r) = result 0 s3 in
                  Some (if r < 0 then (say (Err file) s4, False)
                        else (say (Out (read_count lineCount False charCount)) s4, True))) }) })"

section \<open>Typed lines\<close>

text \<open>\<open>fgets\<close> with a buffer of \<open>n\<close> bytes: the bytes up to the line feed, and the rest of the input.\<close>

definition fgets :: "int \<Rightarrow> string \<Rightarrow> (string \<times> string) option" where
  "fgets n input =
     (if input = [] then None
      else let l = take (nat (n - 1)) (takeWhile (\<lambda>c. c \<noteq> LF) input @ take 1 (dropWhile (\<lambda>c. c \<noteq> LF) input))
           in Some (l, drop (length l) input))"

lemma fgets_shorter: "fgets n input = Some (l, rest) \<Longrightarrow> 2 \<le> n \<Longrightarrow> length rest < length input"
  by (cases input) (auto simp: fgets_def Let_def take_Cons' split: if_splits)

text \<open>The string in the buffer, up to the first NUL.\<close>

definition c_str :: "string \<Rightarrow> string" where
  "c_str l = takeWhile (\<lambda>c. c \<noteq> NUL) l"

definition skip_line :: "string \<Rightarrow> string" where
  "skip_line input = drop 1 (dropWhile (\<lambda>c. c \<noteq> LF) input)"

function addLines :: "int \<Rightarrow> string \<Rightarrow> ed \<Rightarrow> (ed \<times> string) option" where
  "addLines num input s =
     (case fgets (USERSIZE + 1) input of
        None \<Rightarrow> Some (s, input)
      | Some (l, rest) \<Rightarrow>
          if l = [CHR ''.'', LF] then Some (s, rest)
          else let buf = c_str l in
            if buf = [] then Some (s, rest)
            else if last buf \<noteq> LF then Some (say (Err ''Line too long'') s, skip_line rest)
            else case insertLine num buf s of None \<Rightarrow> None
              | Some (s1, ok) \<Rightarrow> do {
                  num1 \<leftarrow> c_int (num + 1);
                  (if ok then addLines num1 rest s1 else Some (s1, rest)) })"
  by pat_completeness auto

termination
  by (relation "measure (\<lambda>(num, input, s). length input)") (auto simp: USERSIZE_def dest: fgets_shorter)

declare addLines.simps [simp del]

section \<open>Commands\<close>

text \<open>
  The addresses in front of a command: the rest of the text, whether there was an address, and the
  two numbers; the inner \<^term>\<open>None\<close> is an error that was reported.
\<close>

definition ed_addresses :: "string \<Rightarrow> ed \<Rightarrow> (ed \<times> (string \<times> bool \<times> int \<times> int) option) option" where
  "ed_addresses line s = do {
     head \<leftarrow> ed_heap s LINES;
     let s0 = (if ed_curNum s = 0 \<and> ed_lastNum s > 0 then s\<lparr>ed_curNum := 1, ed_curLine := ln_next head\<rparr> else s);
     (s1, r1) \<leftarrow> getNum (dropWhile isBlank line) s0;
     (case r1 of
        None \<Rightarrow> Some (s1, None)
      | Some (cp, have1, num1) \<Rightarrow>
          (case dropWhile isBlank cp of
             [] \<Rightarrow> let n = (if have1 then num1 else ed_curNum s1) in Some (s1, Some ([], have1, n, n))
           | c # cp1 \<Rightarrow>
               if c = CHR '','' then do {
                 (s2, r2) \<leftarrow> getNum cp1 s1;
                 Some (s2, case r2 of
                    None \<Rightarrow> None
                  | Some (cp2, have2, num2) \<Rightarrow>
                      Some (cp2, True, if have1 then num1 else 1, if have2 then num2 else ed_lastNum s2)) }
               else let n = (if have1 then num1 else ed_curNum s1) in Some (s1, Some (c # cp1, have1, n, n)))) }"

definition set_file_name :: "string \<Rightarrow> ed \<Rightarrow> ed \<times> bool" where
  "set_file_name n s = (let (s1, ok) = alloc s in (if ok then s1\<lparr>ed_fileName := Some n\<rparr> else s1, ok))"

definition ed_file :: "string \<Rightarrow> ed \<Rightarrow> ed" where
  "ed_file cp s =
     (if cp \<noteq> [] \<and> \<not> isBlank (hd cp) then say (Err ''Bad file command'') s
      else case dropWhile isBlank cp of
        [] \<Rightarrow> say (Out (case ed_fileName s of Some n \<Rightarrow> DQUOTE # n @ [DQUOTE, LF] | None \<Rightarrow> ''No file name'' @ [LF])) s
      | c # r \<Rightarrow> let (s1, ok) = set_file_name (c # r) s in if ok then s1 else say (Err ''No memory for file name'') s1)"

definition ed_mark :: "string \<Rightarrow> int \<Rightarrow> ed \<Rightarrow> ed option" where
  "ed_mark cp num s =
     (case dropWhile isBlank cp of
        [c] \<Rightarrow>
          if code c < code CHR ''a'' \<or> code c > code CHR ''a'' then Some (say (Err ''Bad mark name'') s)
          else do { ms \<leftarrow> wr (ed_marks s) (code c - code CHR ''a'') num; Some (s\<lparr>ed_marks := ms\<rparr>) }
      | _ \<Rightarrow> Some (say (Err ''Bad mark name'') s))"

definition ed_quit :: "string \<Rightarrow> bool \<Rightarrow> string \<Rightarrow> ed \<Rightarrow> ed \<times> string \<times> bool" where
  "ed_quit cp have1 input s =
     (if have1 \<or> dropWhile isBlank cp \<noteq> [] then (say (Err ''Bad quit command'') s, input, False)
      else if \<not> ed_dirty s then (s, input, True)
      else let s1 = say (Out ''Really quit? '') s in
        case fgets USERSIZE input of
          None \<Rightarrow> (s1, input, True)
        | Some (l, rest) \<Rightarrow>
            (s1, rest, case dropWhile isBlank (c_str l) of c # _ \<Rightarrow> c = CHR ''y'' \<or> c = CHR ''Y'' | [] \<Rightarrow> False))"

text \<open>The name of the file becomes that of the editor when it could not be read.\<close>

definition ed_read :: "string \<Rightarrow> bool \<Rightarrow> int \<Rightarrow> ed \<Rightarrow> ed option" where
  "ed_read cp have1 num1 s =
     (if cp \<noteq> [] \<and> \<not> isBlank (hd cp) then Some (say (Err ''Bad read command'') s)
      else case dropWhile isBlank cp of
        [] \<Rightarrow> Some (say (Err ''No file name'') s)
      | c # r \<Rightarrow> do {
          num \<leftarrow> c_int ((if have1 then num1 else ed_lastNum s) + 1);
          (s1, ok) \<leftarrow> readLines (c # r) num s;
          Some (if ok then s1 else if ed_fileName s1 = None then fst (set_file_name (c # r) s1) else s1) })"

definition ed_write :: "string \<Rightarrow> bool \<Rightarrow> int \<Rightarrow> int \<Rightarrow> ed \<Rightarrow> ed option" where
  "ed_write cp have1 num1 num2 s =
     (if cp \<noteq> [] \<and> \<not> isBlank (hd cp) then Some (say (Err ''Bad write command'') s)
      else let (n1, n2) = (if have1 then (num1, num2) else (1, ed_lastNum s)) in
        case (if dropWhile isBlank cp = [] then ed_fileName s else Some (dropWhile isBlank cp)) of
          None \<Rightarrow> Some (say (Err ''No file name specified'') s)
        | Some name \<Rightarrow> map_option fst (writeLines name n1 n2 s))"

definition ed_step_line :: "int \<Rightarrow> ed \<Rightarrow> ed option" where
  "ed_step_line num s = do {
     (s1, ok) \<leftarrow> setCurNum num s;
     (if ok then map_option fst (printLines (ed_curNum s1) (ed_curNum s1) False s1) else Some s1) }"

definition ed_window :: "string \<Rightarrow> ed \<Rightarrow> ed option" where
  "ed_window cp s =
     (let (n1, n2) =
        (case cp of
           [] \<Rightarrow> (ed_curNum s, ed_curNum s + 21)
         | c # _ \<Rightarrow> if c = CHR ''-'' then (ed_curNum s - 21, ed_curNum s)
                    else if c = CHR ''.'' then (ed_curNum s - 11, ed_curNum s + 10)
                    else (ed_curNum s, ed_curNum s + 21))
      in map_option fst (printLines n1 n2 False s))"

text \<open>One command: the rest of the input, and whether the editor ends.\<close>

definition ed_command :: "string \<Rightarrow> bool \<Rightarrow> int \<Rightarrow> int \<Rightarrow> string \<Rightarrow> ed \<Rightarrow> (ed \<times> string \<times> bool) option" where
  "ed_command cp have1 num1 num2 input s =
     (let stay = map_option (\<lambda>s. (s, input, False));
          typed = map_option (\<lambda>(s, rest). (s, rest, False))
      in case cp of
        [] \<Rightarrow> stay (if have1 then map_option fst (printLines num2 num2 False s) else ed_step_line (ed_curNum s + 1) s)
      | c # r \<Rightarrow>
          if c = CHR ''a'' then do { n \<leftarrow> c_int (num1 + 1); typed (addLines n input s) }
          else if c = CHR ''c'' then do { (s1, _) \<leftarrow> deleteLines num1 num2 s; typed (addLines num1 input s1) }
          else if c = CHR ''d'' then stay (map_option fst (deleteLines num1 num2 s))
          else if c = CHR ''f'' then stay (Some (ed_file r s))
          else if c = CHR ''i'' then typed (addLines num1 input s)
          else if c = CHR ''k'' then stay (ed_mark r num2 s)
          else if c = CHR ''l'' then stay (map_option fst (printLines num1 num2 True s))
          else if c = CHR ''p'' then stay (map_option fst (printLines num1 num2 False s))
          else if c = CHR ''q'' then Some (ed_quit r have1 input s)
          else if c = CHR ''r'' then stay (ed_read r have1 num1 s)
          else if c = CHR ''s'' then stay (subCommand r num1 num2 s)
          else if c = CHR ''w'' then stay (ed_write r have1 num1 num2 s)
          else if c = CHR ''z'' then stay (ed_window r s)
          else if c = CHR ''.'' then
            stay (if have1 then Some (say (Err ''No arguments allowed'') s)
                  else map_option fst (printLines (ed_curNum s) (ed_curNum s) False s))
          else if c = CHR ''-'' then stay (ed_step_line (ed_curNum s - 1) s)
          else if c = CHR ''='' then stay (Some (say (Out (show_int num1 @ [LF])) s))
          else stay (Some (say (Err ''Unimplemented command'') s)))"

text \<open>One line of the input: the outer loop of \<open>doCommands\<close> without the reading of the line.\<close>

definition trim_command :: "string \<Rightarrow> string" where
  "trim_command buf = rev (dropWhile isBlank (rev (butlast buf)))"

definition ed_line :: "string \<Rightarrow> string \<Rightarrow> ed \<Rightarrow> (ed \<times> string \<times> bool) option" where
  "ed_line l input s =
     (let buf = c_str l in
      if buf = [] then Some (s, input, True)
      else if last buf \<noteq> LF then Some (say (Err ''Command line too long'') s, skip_line input, False)
      else do {
        (s1, r) \<leftarrow> ed_addresses (trim_command buf) s;
        (case r of
           None \<Rightarrow> Some (s1, input, False)
         | Some (cp, have1, num1, num2) \<Rightarrow> ed_command cp have1 num1 num2 input s1) })"

lemma length_skip_line: "length (skip_line input) \<le> length input"
  using length_dropWhile_le [of "\<lambda>c. c \<noteq> LF" input] by (simp add: skip_line_def)

lemma addLines_rest: "addLines num input s = Some (t, rest) \<Longrightarrow> length rest \<le> length input"
proof (induction num input s rule: addLines.induct)
  case (1 num input s)
  show ?case
  proof (cases "fgets (USERSIZE + 1) input")
    case None
    with "1.prems" show ?thesis by (simp add: addLines.simps)
  next
    case (Some r)
    obtain l more where r: "r = (l, more)" by force
    have less: "length more < length input" using Some r fgets_shorter by (simp add: USERSIZE_def)
    show ?thesis
    proof (cases "l \<noteq> [CHR ''.'', LF] \<and> c_str l \<noteq> [] \<and> last (c_str l) = LF")
      case False
      with "1.prems" Some r less length_skip_line [of more] show ?thesis
        by (auto simp: addLines.simps Let_def split: if_splits)
    next
      case True
      with "1.prems" Some r obtain u ok num1 where
        u: "insertLine num (c_str l) s = Some (u, ok)" "c_int (num + 1) = Some num1"
          "(if ok then addLines num1 more u else Some (u, more)) = Some (t, rest)"
        by (auto simp: addLines.simps [of num input s] Let_def Option.bind_eq_Some_conv split: option.splits prod.splits)
      from "1.IH" [OF Some r [symmetric] _ refl _ _ u(1) refl u(2)] True u(3) less show ?thesis by (auto split: if_splits)
    qed
  qed
qed

lemma ed_quit_rest: "ed_quit cp have1 input s = (t, rest, q) \<Longrightarrow> length rest \<le> length input"
  by (auto simp: ed_quit_def Let_def fgets_def split: if_splits option.splits list.splits)

lemma ed_command_rest: "ed_command cp have1 num1 num2 input s = Some (t, rest, q) \<Longrightarrow> length rest \<le> length input"
  by (auto simp: ed_command_def Let_def Option.bind_eq_Some_conv dest: addLines_rest ed_quit_rest split: list.splits if_splits)

lemma ed_line_rest: "ed_line l input s = Some (t, rest, q) \<Longrightarrow> length rest \<le> length input"
  using length_skip_line [of input]
  by (auto simp: ed_line_def Let_def Option.bind_eq_Some_conv dest: ed_command_rest split: if_splits option.splits)

text \<open>Every round takes a line from the input, so the editor ends at the latest with its input.\<close>

function doCommands :: "string \<Rightarrow> ed \<Rightarrow> (ed \<times> string) option" where
  "doCommands input s =
     (let s0 = say (Out '': '') s in
      case fgets USERSIZE input of
        None \<Rightarrow> Some (s0, input)
      | Some (l, rest) \<Rightarrow>
          (case ed_line l rest s0 of
             None \<Rightarrow> None
           | Some (s1, rest1, quit) \<Rightarrow> if quit then Some (s1, rest1) else doCommands rest1 s1))"
  by pat_completeness auto

termination
proof (relation "measure (\<lambda>(input, s). length input)", goal_cases)
  case (2 input s s0 r l rest r1 s1 r2 rest1 quit)
  then have "length rest < length input" "length rest1 \<le> length rest"
    using fgets_shorter [of USERSIZE input l rest] ed_line_rest by (auto simp: USERSIZE_def)
  then show ?case by simp
qed simp

declare doCommands.simps [simp del]

section \<open>Start and end\<close>

text \<open>\<open>got\<close>: the block of the buffer.\<close>

definition initEdit :: "string option \<Rightarrow> ed \<Rightarrow> ed \<times> bool" where
  "initEdit got s =
     (case got of
        None \<Rightarrow> (say (Err ''No memory for buffer'') (s\<lparr>ed_buf := None\<rparr>), False)
      | Some block \<Rightarrow>
          (s\<lparr>ed_buf := Some block,
             ed_heap := (ed_heap s)(LINES \<mapsto> \<lparr>ln_next = LINES, ln_prev = LINES, ln_len = 0, ln_data = []\<rparr>),
             ed_curLine := NULL, ed_curNum := 0, ed_lastNum := 0, ed_dirty := False, ed_fileName := None,
             ed_search := [], ed_marks := replicate 26 0\<rparr>, True))"

definition termEdit :: "ed \<Rightarrow> ed option" where
  "termEdit s = do {
     let s1 = s\<lparr>ed_buf := None, ed_fileName := None, ed_search := []\<rparr>;
     s2 \<leftarrow> (if ed_lastNum s1 \<noteq> 0 then map_option fst (deleteLines 1 (ed_lastNum s1) s1) else Some s1);
     Some (s2\<lparr>ed_lastNum := 0, ed_curNum := 0, ed_curLine := NULL\<rparr>) }"

definition do_ed :: "string option \<Rightarrow> string option \<Rightarrow> string \<Rightarrow> ed \<Rightarrow> (ed \<times> string \<times> int) option" where
  "do_ed got name input s =
     (let (s0, ok) = initEdit got s;
          edit = (\<lambda>s. do { (s1, rest) \<leftarrow> doCommands input s; s2 \<leftarrow> termEdit s1; Some (s2, rest, 0) });
          failed = (\<lambda>s. do { s1 \<leftarrow> termEdit s; Some (s1, input, 1) })
      in if \<not> ok then Some (s0, input, 1)
      else case name of
        None \<Rightarrow> edit s0
      | Some n \<Rightarrow>
          let (s1, ok) = set_file_name n s0 in
          if \<not> ok then failed (say (Err ''No memory'') s1)
          else do {
            (s2, ok) \<leftarrow> readLines n 1 s1;
            (if \<not> ok then failed s2
             else do {
               s3 \<leftarrow> (if ed_lastNum s2 \<noteq> 0 then map_option fst (setCurNum 1 s2) else Some s2);
               edit (s3\<lparr>ed_dirty := False\<rparr>) }) })"

end
