(* ===== verification/Ed_List.thy ===== *)
theory Ed_List
  imports Ed
begin

text \<open>
  The editor of sash/cmd_ed.c works on a list of lines. \<open>ring s ps\<close>: the blocks at the addresses \<open>ps\<close>
  form, with the block \<open>lines\<close>, the circular list, and what lies behind \<open>ed_brk\<close> was never used.
  \<open>cursor_ok\<close>: the current line has the current number. \<open>edits s ts\<close> is the abstraction: a
  state with both, whose lines have the texts \<open>ts\<close>.
\<close>

section \<open>Chains of blocks\<close>

definition nxt :: "ed \<Rightarrow> nat \<Rightarrow> nat option" where
  "nxt s p = map_option ln_next (ed_heap s p)"

definition prv :: "ed \<Rightarrow> nat \<Rightarrow> nat option" where
  "prv s p = map_option ln_prev (ed_heap s p)"

definition link :: "ed \<Rightarrow> nat \<Rightarrow> nat \<Rightarrow> bool" where
  "link s p q \<longleftrightarrow> nxt s p = Some q \<and> prv s q = Some p"

definition block_ok :: "LINE option \<Rightarrow> bool" where
  "block_ok b = (case b of None \<Rightarrow> False | Some b \<Rightarrow> 0 \<le> ln_len b \<and> ln_len b \<le> int (length (ln_data b)))"

definition text_at :: "ed \<Rightarrow> nat \<Rightarrow> string" where
  "text_at s p = (case ed_heap s p of None \<Rightarrow> [] | Some b \<Rightarrow> take (nat (ln_len b)) (ln_data b))"

definition ring :: "ed \<Rightarrow> nat list \<Rightarrow> bool" where
  "ring s ps \<longleftrightarrow>
     distinct ps \<and> LINES \<notin> set ps \<and> NULL \<notin> set ps \<and> successively (link s) (LINES # ps @ [LINES]) \<and>
     ed_lastNum s = int (length ps) \<and> length ps < 2 ^ 30 \<and> (\<forall>p \<ge> ed_brk s. ed_heap s p = None) \<and> 2 \<le> ed_brk s \<and>
     (\<forall>p \<in> set ps. block_ok (ed_heap s p))"

text \<open>Position 0 is \<open>lines\<close>, and behind the last line the ring begins again.\<close>

definition pos :: "nat list \<Rightarrow> nat \<Rightarrow> nat" where
  "pos ps i = (LINES # ps) ! (i mod Suc (length ps))"

definition cursor_ok :: "ed \<Rightarrow> nat list \<Rightarrow> bool" where
  "cursor_ok s ps \<longleftrightarrow>
     (if ed_curNum s = 0 then ps = []
      else 1 \<le> ed_curNum s \<and> ed_curNum s \<le> int (length ps) \<and> ed_curLine s = pos ps (nat (ed_curNum s)))"

definition edits :: "ed \<Rightarrow> string list \<Rightarrow> bool" where
  "edits s ts \<longleftrightarrow> (\<exists>ps. ring s ps \<and> cursor_ok s ps \<and> ts = map (text_at s) ps)"

lemma LINES_not_null [simp]: "LINES \<noteq> 0" "0 \<noteq> LINES"
  by (simp_all add: LINES_def)

lemma chain_nth: "successively P xs \<Longrightarrow> Suc i < length xs \<Longrightarrow> P (xs ! i) (xs ! Suc i)"
proof (induction xs arbitrary: i)
  case (Cons x xs)
  then show ?case by (cases i; cases xs) auto
qed simp

lemma pos_simps:
  "pos ps 0 = LINES" "pos ps (Suc (length ps)) = LINES"
  "0 < i \<Longrightarrow> i \<le> length ps \<Longrightarrow> pos ps i = ps ! (i - 1)"
  by (simp_all add: pos_def)

lemma pos_in: "0 < i \<Longrightarrow> i \<le> length ps \<Longrightarrow> pos ps i \<in> set ps"
  by (simp add: pos_simps)

lemma pos_cycle: "i \<le> Suc (length ps) \<Longrightarrow> pos ps i = (LINES # ps @ [LINES]) ! i"
  by (cases "i = Suc (length ps)") (auto simp: pos_def nth_append nth_Cons')

lemma pos_link:
  assumes "ring s ps"
  shows "nxt s (pos ps i) = Some (pos ps (Suc i))" "prv s (pos ps (Suc i)) = Some (pos ps i)"
proof -
  define j where "j = i mod Suc (length ps)"
  have j: "j \<le> length ps" by (simp add: j_def less_Suc_eq_le [symmetric])
  have "pos ps i = pos ps j" "pos ps (Suc i) = pos ps (Suc j)"
    by (simp_all add: pos_def j_def mod_Suc_eq)
  moreover have "link s ((LINES # ps @ [LINES]) ! j) ((LINES # ps @ [LINES]) ! Suc j)"
    by (rule chain_nth) (use assms j in \<open>simp_all add: ring_def\<close>)
  ultimately show "nxt s (pos ps i) = Some (pos ps (Suc i))" "prv s (pos ps (Suc i)) = Some (pos ps i)"
    using j pos_cycle [of j ps] pos_cycle [of "Suc j" ps] by (simp_all add: link_def)
qed

primrec steps :: "nat \<Rightarrow> ('a \<Rightarrow> 'a option) \<Rightarrow> 'a \<Rightarrow> 'a option" where
  "steps 0 f x = Some x"
| "steps (Suc k) f x = do { y \<leftarrow> f x; steps k f y }"

lemma for_range_steps: "for_range lo hi (\<lambda>_. f) x = steps (nat (hi - lo)) f x"
proof (induction "nat (hi - lo)" arbitrary: lo x)
  case (Suc k)
  then have "nat (hi - lo) = Suc (nat (hi - (lo + 1)))" "lo < hi" by simp_all
  moreover have "for_range (lo + 1) hi (\<lambda>_. f) y = steps (nat (hi - (lo + 1))) f y" for y
    using Suc.hyps(2) by (intro Suc.hyps(1)) simp
  ultimately show ?case by (simp add: for_range_step)
qed simp

lemma walk:
  assumes "ring s ps"
  shows "steps k (nxt s) (pos ps i) = Some (pos ps (i + k))" "steps k (prv s) (pos ps (i + k)) = Some (pos ps i)"
proof -
  show "steps k (nxt s) (pos ps i) = Some (pos ps (i + k))"
    by (induction k arbitrary: i) (simp_all add: pos_link [OF assms])
  show "steps k (prv s) (pos ps (i + k)) = Some (pos ps i)"
    by (induction k) (simp_all add: pos_link [OF assms])
qed

section \<open>Finding a line\<close>

definition woken :: "nat list \<Rightarrow> ed \<Rightarrow> ed" where
  "woken ps s = (if ed_curNum s \<le> 0 then s\<lparr>ed_curNum := 1, ed_curLine := pos ps 1\<rparr> else s)"

text \<open>Whether the search starts at the current line, and not at an end of the list.\<close>

definition from_cursor :: "int \<Rightarrow> ed \<Rightarrow> bool" where
  "from_cursor num s \<longleftrightarrow> num = ed_curNum s \<or>
     (ed_curNum s div 2 \<le> num \<and> num \<le> (ed_curNum s + ed_lastNum s) div 2)"

text \<open>A current line that is \<open>d\<close> lines behind its number leads to a line that is \<open>d\<close> lines behind.\<close>

lemma findLine_from:
  assumes r: "ring s ps" and n: "1 \<le> num" "num \<le> int (length ps)"
    and c: "1 \<le> ed_curNum s" "ed_curNum s \<le> int (length ps)" "ed_curLine s = pos ps (nat (ed_curNum s) + d)"
  shows "findLine num s = Some (s, pos ps (nat num + (if from_cursor num s then d else 0)))"
proof -
  have last: "ed_lastNum s = int (length ps)" "length ps < 2 ^ 30" using r by (auto simp: ring_def)
  obtain head where head: "ed_heap s LINES = Some head" "ln_next head = pos ps 1" "ln_prev head = pos ps (length ps)"
    using pos_link [OF r, of 0] pos_link(2) [OF r, of "length ps"] by (auto simp: nxt_def prv_def pos_simps)
  have f: "(\<lambda>_ p. map_option ln_next (ed_heap s p)) = (\<lambda>_::int. nxt s)" "(\<lambda>_ p. map_option ln_prev (ed_heap s p)) = (\<lambda>_::int. prv s)"
    by (simp_all add: nxt_def prv_def fun_eq_iff)
  have up: "steps (nat (num - l)) (nxt s) (pos ps (nat l + e)) = Some (pos ps (nat num + e))" if "0 \<le> l" "l \<le> num" for l e
    using walk(1) [OF r, of "nat (num - l)" "nat l + e"] that by (simp add: nat_diff_distrib add.commute)
  have down: "steps (nat (l - num)) (prv s) (pos ps (nat l + e)) = Some (pos ps (nat num + e))" if "num \<le> l" for l e
    using walk(2) [OF r, of "nat (l - num)" "nat num + e"] that n by (simp add: nat_diff_distrib add.commute)
  have sum: "c_int (ed_curNum s + ed_lastNum s) = Some (ed_curNum s + ed_lastNum s)"
    using c last by (simp add: c_int_def int_ok_def)
  have half: "ed_curNum s sdiv 2 = ed_curNum s div 2" "(ed_curNum s + ed_lastNum s) sdiv 2 = (ed_curNum s + ed_lastNum s) div 2"
    using c last by (simp_all add: sdiv_pos)
  have range: "\<not> (num < 1 \<or> num > ed_lastNum s)" "\<not> ed_curNum s \<le> 0" using n c last by auto
  have walk: "(do { lp1 \<leftarrow> steps (nat (num - l)) (nxt s) (pos ps (nat l + e));
      lp2 \<leftarrow> steps (nat (l - num)) (prv s) lp1; Some (s, lp2) }) = Some (s, pos ps (nat num + e))" if "0 \<le> l" for l e
    using up [of l e] down [of l e] that by (cases "l \<le> num") simp_all
  show ?thesis
  proof (cases "num = ed_curNum s")
    case True
    with range c head show ?thesis by (simp add: findLine_def from_cursor_def)
  next
    case ne: False
    consider (low) "num < ed_curNum s div 2" | (high) "\<not> num < ed_curNum s div 2" "(ed_curNum s + ed_lastNum s) div 2 < num"
      | (mid) "\<not> num < ed_curNum s div 2" "\<not> (ed_curNum s + ed_lastNum s) div 2 < num" by linarith
    then show ?thesis
    proof cases
      case low
      with ne range head sum half walk [of 1 0] show ?thesis
        by (simp add: findLine_def for_range_steps f from_cursor_def Let_def)
    next
      case high
      with ne range head sum half last walk [of "ed_lastNum s" 0] show ?thesis
        by (simp add: findLine_def for_range_steps f from_cursor_def Let_def)
    next
      case mid
      with ne range head sum half c walk [of "ed_curNum s" d] show ?thesis
        by (simp add: findLine_def for_range_steps f from_cursor_def Let_def)
    qed
  qed
qed

lemma ring_same:
  assumes "ed_heap t = ed_heap s" "ed_lastNum t = ed_lastNum s" "ed_brk t = ed_brk s"
  shows "ring t ps = ring s ps" "text_at t = text_at s"
proof -
  have "nxt t = nxt s" "prv t = prv s" using assms by (auto simp: nxt_def prv_def)
  then have "link t = link s" by (auto simp: link_def fun_eq_iff)
  with assms show "ring t ps = ring s ps" "text_at t = text_at s"
    by (simp_all add: ring_def text_at_def fun_eq_iff)
qed

lemma ring_update [simp]:
  "ring (s\<lparr>ed_curNum := n\<rparr>) ps = ring s ps" "ring (s\<lparr>ed_curLine := p\<rparr>) ps = ring s ps"
  "ring (s\<lparr>ed_dirty := d\<rparr>) ps = ring s ps" "ring (say e s) ps = ring s ps" "ring (s\<lparr>ed_mallocs := m\<rparr>) ps = ring s ps"
  "ring (s\<lparr>ed_search := str\<rparr>) ps = ring s ps" "ring (s\<lparr>ed_ints := is\<rparr>) ps = ring s ps" "ring (s\<lparr>ed_buf := b\<rparr>) ps = ring s ps"
  "ring (s\<lparr>ed_files := fs\<rparr>) ps = ring s ps" "ring (s\<lparr>ed_writes := ws\<rparr>) ps = ring s ps" "ring (s\<lparr>ed_opens := os\<rparr>) ps = ring s ps"
  by (rule ring_same; simp add: say_def)+

lemma text_at_update [simp]:
  "text_at (s\<lparr>ed_curNum := n\<rparr>) = text_at s" "text_at (s\<lparr>ed_curLine := p\<rparr>) = text_at s"
  "text_at (s\<lparr>ed_dirty := d\<rparr>) = text_at s" "text_at (say e s) = text_at s" "text_at (s\<lparr>ed_mallocs := m\<rparr>) = text_at s"
  "text_at (s\<lparr>ed_search := str\<rparr>) = text_at s" "text_at (s\<lparr>ed_ints := is\<rparr>) = text_at s" "text_at (s\<lparr>ed_buf := b\<rparr>) = text_at s"
  "text_at (s\<lparr>ed_files := fs\<rparr>) = text_at s" "text_at (s\<lparr>ed_writes := ws\<rparr>) = text_at s" "text_at (s\<lparr>ed_opens := os\<rparr>) = text_at s"
  "text_at (s\<lparr>ed_lastNum := n\<rparr>) = text_at s"
  by (simp_all add: text_at_def say_def fun_eq_iff)

lemma ring_head:
  assumes "ring s ps"
  obtains head where "ed_heap s LINES = Some head" "ln_next head = pos ps 1" "ln_prev head = pos ps (length ps)"
  using pos_link [OF assms, of 0] pos_link(2) [OF assms, of "length ps"] that by (auto simp: nxt_def prv_def pos_simps)

lemma ring_last: "ring s ps \<Longrightarrow> ed_lastNum s = int (length ps)"
  by (simp add: ring_def)

lemma findLine_wake:
  assumes r: "ring s ps" and n: "1 \<le> num" "num \<le> int (length ps)" and c: "ed_curNum s \<le> 0"
  shows "findLine num s = Some (woken ps s, pos ps (nat num))"
proof -
  from ring_head [OF r] obtain head where head: "ed_heap s LINES = Some head" "ln_next head = pos ps 1" .
  then have "findLine num s = findLine num (woken ps s)"
    using n c ring_last [OF r] by (simp add: findLine_def woken_def)
  also have "\<dots> = Some (woken ps s, pos ps (nat num + (if from_cursor num (woken ps s) then 0 else 0)))"
    using r n c by (intro findLine_from) (simp_all add: woken_def)
  finally show ?thesis by simp
qed

lemma findLine_ok:
  assumes "ring s ps" "cursor_ok s ps" "1 \<le> num" "num \<le> int (length ps)"
  shows "findLine num s = Some (s, pos ps (nat num))"
  using findLine_from [OF assms(1,3,4), of 0] assms by (auto simp: cursor_ok_def split: if_splits)

lemma pos_not_null:
  assumes "ring s ps"
  shows "pos ps i \<noteq> NULL"
proof -
  have "pos ps i \<in> set (LINES # ps)" unfolding pos_def by (intro nth_mem) simp
  moreover have "NULL \<notin> set (LINES # ps)" using assms by (auto simp: ring_def LINES_def)
  ultimately show ?thesis by metis
qed

lemma setCurNum_from:
  assumes "ring s ps" "1 \<le> num" "num \<le> int (length ps)"
    and "1 \<le> ed_curNum s" "ed_curNum s \<le> int (length ps)" "ed_curLine s = pos ps (nat (ed_curNum s) + d)"
  shows "setCurNum num s =
    Some (s\<lparr>ed_curNum := num, ed_curLine := pos ps (nat num + (if from_cursor num s then d else 0))\<rparr>, True)"
  using findLine_from [OF assms] pos_not_null [OF assms(1)] by (simp add: setCurNum_def)

lemma setCurNum_ok:
  assumes "ring s ps" "cursor_ok s ps" "1 \<le> num" "num \<le> int (length ps)"
  shows "setCurNum num s = Some (s\<lparr>ed_curNum := num, ed_curLine := pos ps (nat num)\<rparr>, True)"
  using findLine_ok [OF assms] pos_not_null [OF assms(1)] by (simp add: setCurNum_def)

lemma setCurNum_wake:
  assumes "ring s ps" "1 \<le> num" "num \<le> int (length ps)" "ed_curNum s \<le> 0"
  shows "setCurNum num s = Some (s\<lparr>ed_curNum := num, ed_curLine := pos ps (nat num)\<rparr>, True)"
  using findLine_wake [OF assms] pos_not_null [OF assms(1)] assms(4) by (simp add: setCurNum_def woken_def)

section \<open>Changing the links\<close>

text \<open>What an operation on the lines leaves alone.\<close>

definition others :: "ed \<Rightarrow> _" where
  "others s = (ed_marks s, ed_fileName s, ed_search s, ed_buf s, ed_ints s, ed_opens s, ed_writes s, ed_files s, ed_log s)"

lemma others_update [simp]:
  "others (s\<lparr>ed_heap := h\<rparr>) = others s" "others (s\<lparr>ed_brk := b\<rparr>) = others s" "others (s\<lparr>ed_curNum := n\<rparr>) = others s"
  "others (s\<lparr>ed_curLine := p\<rparr>) = others s" "others (s\<lparr>ed_lastNum := n\<rparr>) = others s" "others (s\<lparr>ed_dirty := d\<rparr>) = others s"
  "others (s\<lparr>ed_mallocs := m\<rparr>) = others s"
  by (simp_all add: others_def)

text \<open>\<open>relinked s t\<close>: only links of existing blocks differ.\<close>

definition relinked :: "ed \<Rightarrow> ed \<Rightarrow> bool" where
  "relinked s t \<longleftrightarrow> (\<exists>h. t = s\<lparr>ed_heap := h\<rparr>) \<and> text_at t = text_at s \<and>
     (\<forall>p. block_ok (ed_heap t p) = block_ok (ed_heap s p)) \<and> (\<forall>p. (ed_heap t p = None) = (ed_heap s p = None))"

lemma relinked_trans: "relinked s t \<Longrightarrow> relinked t u \<Longrightarrow> relinked s u"
  by (auto simp: relinked_def)

lemma set_next_links:
  assumes "ed_heap s p \<noteq> None"
  shows "\<exists>t. set_next p q s = Some t \<and> relinked s t \<and> nxt t = (nxt s)(p \<mapsto> q) \<and> prv t = prv s"
  using assms by (auto simp: set_next_def relinked_def nxt_def prv_def text_at_def block_ok_def fun_eq_iff)

lemma set_prev_links:
  assumes "ed_heap s p \<noteq> None"
  shows "\<exists>t. set_prev p q s = Some t \<and> relinked s t \<and> prv t = (prv s)(p \<mapsto> q) \<and> nxt t = nxt s"
  using assms by (auto simp: set_prev_def relinked_def nxt_def prv_def text_at_def block_ok_def fun_eq_iff)

lemma chain_frame:
  assumes "\<And>a. a \<in> set (butlast xs) \<Longrightarrow> nxt t a = nxt s a" "\<And>b. b \<in> set (tl xs) \<Longrightarrow> prv t b = prv s b"
  shows "successively (link t) xs = successively (link s) xs"
  using assms
proof (induction xs)
  case (Cons x xs)
  show ?case
  proof (cases xs)
    case (Cons y ys)
    with Cons.prems Cons.IH have "successively (link t) xs = successively (link s) xs" by (cases ys) auto
    moreover have "link t x y = link s x y" using Cons.prems Cons by (simp add: link_def)
    ultimately show ?thesis using Cons by simp
  qed simp
qed simp

text \<open>Between the end of \<open>as\<close> and the begin of \<open>bs\<close> the blocks \<open>ms\<close> are put.\<close>

lemma chain_splice:
  assumes "successively (link s) (LINES # as)" "successively (link s) (bs @ [LINES])"
    and "\<And>a. a \<in> set (butlast (LINES # as)) \<union> set bs \<Longrightarrow> nxt t a = nxt s a"
    and "\<And>b. b \<in> set as \<union> set (tl (bs @ [LINES])) \<Longrightarrow> prv t b = prv s b"
    and mid: "successively (link t) (last (LINES # as) # ms @ [hd (bs @ [LINES])])"
  shows "successively (link t) (LINES # as @ ms @ bs @ [LINES])"
proof -
  have a: "successively (link t) (LINES # as)"
    using assms(1) by (subst chain_frame [where s = s]) (use assms(3,4) in auto)
  have b: "successively (link t) (bs @ [LINES])"
    using assms(2) by (subst chain_frame [where s = s]) (use assms(3,4) in auto)
  have "successively (link t) ((LINES # as) @ ms @ bs @ [LINES])"
    using a b mid unfolding successively_append_iff successively_Cons
    by (cases ms) (auto simp: successively_append_iff successively_Cons hd_append)
  then show ?thesis by simp
qed

lemma ring_split:
  assumes "ring s (as @ bs)"
  shows "successively (link s) (LINES # as)" "successively (link s) (bs @ [LINES])"
    "distinct (LINES # as @ bs)" "pos (as @ bs) (length as) = last (LINES # as)"
    "pos (as @ bs) (Suc (length as)) = hd (bs @ [LINES])"
proof -
  have "successively (link s) ((LINES # as) @ (bs @ [LINES]))" using assms by (simp add: ring_def)
  then show "successively (link s) (LINES # as)" "successively (link s) (bs @ [LINES])"
    unfolding successively_append_iff by auto
  show "distinct (LINES # as @ bs)" using assms by (simp add: ring_def)
  show "pos (as @ bs) (length as) = last (LINES # as)"
    using pos_cycle [of "length as" "as @ bs"] by (simp add: nth_append last_conv_nth nth_Cons')
  show "pos (as @ bs) (Suc (length as)) = hd (bs @ [LINES])"
    using pos_cycle [of "Suc (length as)" "as @ bs"] by (cases bs) (simp_all add: nth_append)
qed

lemma not_last: "distinct (x # xs) \<Longrightarrow> a \<in> set (butlast (x # xs)) \<Longrightarrow> a \<noteq> last (x # xs)"
proof -
  assume "distinct (x # xs)" "a \<in> set (butlast (x # xs))"
  moreover have "x # xs = butlast (x # xs) @ [last (x # xs)]" by simp
  ultimately show ?thesis by (metis distinct_append disjoint_insert(1) list.set(2) mk_disjoint_insert)
qed

section \<open>Inserting a line\<close>

lemma relinked_simps:
  assumes "relinked s t"
  shows "ed_lastNum t = ed_lastNum s" "ed_brk t = ed_brk s" "ed_curNum t = ed_curNum s" "ed_curLine t = ed_curLine s"
    "text_at t = text_at s" "block_ok (ed_heap t p) = block_ok (ed_heap s p)" "(ed_heap t p = None) = (ed_heap s p = None)"
    "others t = others s" "ed_mallocs t = ed_mallocs s" "ed_dirty t = ed_dirty s"
  using assms by (auto simp: relinked_def)

lemma in_heap: "nxt s p = Some q \<Longrightarrow> ed_heap s p \<noteq> None" "prv s p = Some q \<Longrightarrow> ed_heap s p \<noteq> None"
  by (auto simp: nxt_def prv_def)

lemma link_line_ring:
  assumes r: "ring s (as @ bs)" and n: "block_ok (ed_heap s n)" "n \<notin> set (as @ bs)" "n \<noteq> LINES" "n \<noteq> NULL" "n < ed_brk s"
    and len: "length (as @ bs) + 1 < 2 ^ 30"
  defines "q \<equiv> hd (bs @ [LINES])"
  shows "\<exists>t. link_line n q s = Some t \<and> relinked s t \<and> ring (t\<lparr>ed_lastNum := ed_lastNum s + 1\<rparr>) (as @ n # bs)"
proof -
  define p where "p = last (LINES # as)"
  note split = ring_split [OF r]
  have pq: "nxt s p = Some q" "prv s q = Some p"
    using pos_link [OF r, of "length as"] unfolding split(4,5) by (simp_all add: p_def q_def)
  have mem: "p \<in> set (LINES # as)" "q \<in> set (bs @ [LINES])"
    unfolding p_def q_def by (rule last_in_set, simp, rule hd_in_set, simp)
  then have ne: "n \<noteq> p" "n \<noteq> q" using n by auto
  have heap: "ed_heap s n \<noteq> None" "ed_heap s p \<noteq> None" "ed_heap s q \<noteq> None"
    using n(1) in_heap pq by (auto simp: block_ok_def split: option.splits)
  from set_next_links [OF heap(1), of q] obtain s1 where
    s1: "set_next n q s = Some s1" "relinked s s1" "nxt s1 = (nxt s)(n \<mapsto> q)" "prv s1 = prv s" by blast
  have "prv s1 q = Some p" using s1(4) pq(2) by simp
  then obtain b where b: "ed_heap s1 q = Some b" "ln_prev b = p" by (auto simp: prv_def)
  have "ed_heap s1 n \<noteq> None" using heap(1) relinked_simps(7) [OF s1(2), of n] by simp
  from set_prev_links [OF this, of p] obtain s2 where
    s2: "set_prev n p s1 = Some s2" "relinked s1 s2" "prv s2 = (prv s1)(n \<mapsto> p)" "nxt s2 = nxt s1" by blast
  note r2 = relinked_trans [OF s1(2) s2(2)]
  have "ed_heap s2 p \<noteq> None" using heap(2) relinked_simps(7) [OF r2, of p] by simp
  from set_next_links [OF this, of n] obtain s3 where
    s3: "set_next p n s2 = Some s3" "relinked s2 s3" "nxt s3 = (nxt s2)(p \<mapsto> n)" "prv s3 = prv s2" by blast
  note r3 = relinked_trans [OF r2 s3(2)]
  have "ed_heap s3 q \<noteq> None" using heap(3) relinked_simps(7) [OF r3, of q] by simp
  from set_prev_links [OF this, of n] obtain t where
    t: "set_prev q n s3 = Some t" "relinked s3 t" "prv t = (prv s3)(q \<mapsto> n)" "nxt t = nxt s3" by blast
  note rt = relinked_trans [OF r3 t(2)]
  have N: "nxt t = (nxt s)(n \<mapsto> q, p \<mapsto> n)" and P: "prv t = (prv s)(n \<mapsto> p, q \<mapsto> n)"
    using s1(3,4) s2(3,4) s3(3,4) t(3,4) by simp_all
  have "successively (link t) (LINES # as @ [n] @ bs @ [LINES])"
  proof (rule chain_splice [OF split(1,2)])
    fix a assume "a \<in> set (butlast (LINES # as)) \<union> set bs"
    then have "a \<noteq> p" "a \<noteq> n"
      using not_last [of LINES as a] split(3) mem(1) n(2,3) by (auto simp: p_def dest: in_set_butlastD simp del: butlast.simps last.simps)
    then show "nxt t a = nxt s a" by (simp add: N)
  next
    fix c assume "c \<in> set as \<union> set (tl (bs @ [LINES]))"
    then have "c \<noteq> q" "c \<noteq> n"
      using split(3) n(2,3) by (cases bs; auto simp: q_def)+
    then show "prv t c = prv s c" by (simp add: P)
  next
    show "successively (link t) (last (LINES # as) # [n] @ [hd (bs @ [LINES])])"
      unfolding p_def [symmetric] q_def [symmetric] using ne by (simp add: link_def N P)
  qed
  moreover have "\<forall>x \<in> set (as @ n # bs). block_ok (ed_heap t x)"
    using r n(1) relinked_simps(6) [OF rt] by (auto simp: ring_def)
  ultimately have "ring (t\<lparr>ed_lastNum := ed_lastNum s + 1\<rparr>) (as @ n # bs)"
    using r n len relinked_simps [OF rt] by (auto simp: ring_def link_def nxt_def prv_def cong: successively_cong)
  moreover have "link_line n q s = Some t" using s1(1) b s2(1) s3(1) t(1) by (simp add: link_line_def)
  ultimately show ?thesis using rt by blast
qed

lemma malloc_line_ring:
  assumes r: "ring s ps" and mem: "snd (alloc s)"
  shows "\<exists>t. malloc_line data s = (t, ed_brk s) \<and> ring t ps \<and> ed_brk t = ed_brk s + 1 \<and> text_at t = (text_at s)(ed_brk s := data) \<and>
    block_ok (ed_heap t (ed_brk s)) \<and> (\<forall>p. p \<noteq> ed_brk s \<longrightarrow> ed_heap t p = ed_heap s p) \<and>
    ed_curNum t = ed_curNum s \<and> ed_curLine t = ed_curLine s \<and> others t = others s \<and> ed_mallocs t = tl (ed_mallocs s) \<and>
    ed_dirty t = ed_dirty s"
    "ed_brk s \<notin> set ps" "ed_brk s \<noteq> LINES" "ed_brk s \<noteq> NULL"
proof -
  define n where "n = ed_brk s"
  have none: "ed_heap s n = None" and two: "2 \<le> n" using r by (auto simp: ring_def n_def)
  then show fresh: "n \<notin> set ps" "n \<noteq> LINES" "n \<noteq> NULL"
    using r ring_head [OF r] by (force simp: ring_def block_ok_def LINES_def)+
  define t where "t = fst (malloc_line data s)"
  have t: "malloc_line data s = (t, n)" "ed_heap t = (ed_heap s)(n \<mapsto> \<lparr>ln_next = NULL, ln_prev = NULL, ln_len = int (length data), ln_data = data\<rparr>)"
    "ed_brk t = n + 1" "ed_lastNum t = ed_lastNum s" "ed_curNum t = ed_curNum s" "ed_curLine t = ed_curLine s"
    "others t = others s" "ed_mallocs t = tl (ed_mallocs s)" "ed_dirty t = ed_dirty s"
    using mem by (simp_all add: t_def malloc_line_def alloc_def n_def)
  have "nxt t a = nxt s a" "prv t a = prv s a" if "a \<in> set (LINES # ps @ [LINES])" for a
    using that fresh by (auto simp: nxt_def prv_def t(2))
  then have "successively (link t) (LINES # ps @ [LINES])"
    using r by (subst chain_frame [where s = s]) (auto simp: ring_def dest: in_set_butlastD)
  then have "ring t ps" using r fresh none by (auto simp: ring_def t n_def)
  moreover have "text_at t = (text_at s)(n := data)" by (auto simp: text_at_def t(2))
  moreover have "block_ok (ed_heap t n)" by (simp add: block_ok_def t(2))
  ultimately show "\<exists>t. malloc_line data s = (t, n) \<and> ring t ps \<and> ed_brk t = n + 1 \<and> text_at t = (text_at s)(n := data) \<and>
    block_ok (ed_heap t n) \<and> (\<forall>p. p \<noteq> n \<longrightarrow> ed_heap t p = ed_heap s p) \<and>
    ed_curNum t = ed_curNum s \<and> ed_curLine t = ed_curLine s \<and> others t = others s \<and> ed_mallocs t = tl (ed_mallocs s) \<and>
    ed_dirty t = ed_dirty s"
    using t by (intro exI [of _ t]) auto
qed

text \<open>
  A line is inserted at its number. The current line is it, or the line behind it: this one when the
  search for it starts from a current line that the insertion moved.
\<close>

lemma pos_insert:
  "i \<le> length as \<Longrightarrow> pos (as @ n # bs) i = pos (as @ bs) i"
  "length as < i \<Longrightarrow> i \<le> length (as @ bs) \<Longrightarrow> pos (as @ n # bs) (Suc i) = pos (as @ bs) i"
  by (auto simp: pos_def nth_append nth_Cons' less_Suc_eq_le Suc_diff_le)

definition lands :: "int \<Rightarrow> int \<Rightarrow> nat" where
  "lands cur num = nat num + (if cur < num \<or> num < cur div 2 then 0 else 1)"

text \<open>The line goes in front of the \<open>k\<close>-th line, the one that the search found, and then becomes the current line.\<close>

lemma insertLine_links:
  assumes r: "ring s ps" and n: "1 \<le> num" "num \<le> int (length ps) + 1" and k: "1 \<le> k" "k \<le> length ps + 1"
    and mem: "snd (alloc s)" and len: "length ps + 1 < 2 ^ 30"
    and last: "num > int (length ps) \<Longrightarrow> k = length ps + 1"
    and found: "\<And>u. num \<le> int (length ps) \<Longrightarrow> ring u ps \<Longrightarrow> ed_curNum u = ed_curNum s \<Longrightarrow> ed_curLine u = ed_curLine s \<Longrightarrow>
      findLine num u = Some (u, pos ps k)"
  defines "as \<equiv> take (k - 1) ps" and "bs \<equiv> drop (k - 1) ps"
  shows "\<exists>u. insertLine num data s = setCurNum num u \<and> ring u (as @ ed_brk s # bs) \<and>
    map (text_at u) (as @ ed_brk s # bs) = map (text_at s) as @ data # map (text_at s) bs \<and>
    ed_curNum u = ed_curNum s \<and> ed_curLine u = ed_curLine s \<and> ed_dirty u \<and> others u = others s \<and> ed_mallocs u = tl (ed_mallocs s)"
proof -
  let ?n = "ed_brk s" and ?ps = "as @ ed_brk s # bs"
  have ps: "ps = as @ bs" "length as = k - 1" using k by (auto simp: as_def bs_def)
  note new = malloc_line_ring(2-4) [OF r mem, unfolded ps(1)]
  from malloc_line_ring(1) [OF r mem, of data] obtain s1 where
    s1: "malloc_line data s = (s1, ?n)" "ring s1 (as @ bs)" "ed_brk s1 = ?n + 1" "text_at s1 = (text_at s)(?n := data)"
      "block_ok (ed_heap s1 ?n)" "ed_curNum s1 = ed_curNum s" "ed_curLine s1 = ed_curLine s" "others s1 = others s"
      "ed_mallocs s1 = tl (ed_mallocs s)"
    unfolding ps(1) by blast
  have lasts: "ed_lastNum s = int (length ps)" "ed_lastNum s1 = int (length ps)" using r s1(2) by (simp_all add: ring_last ps(1))
  have "Suc (length as) = k" using ps(2) k by simp
  then have lp: "hd (bs @ [LINES]) = pos ps k"
    using ring_split(5) [OF s1(2)] ps(1) by simp
  have at: "(if num > ed_lastNum s1 then Some (s1, LINES) else findLine num s1) = Some (s1, hd (bs @ [LINES]))"
  proof (cases "num > ed_lastNum s1")
    case True
    with last lasts have "bs = []" by (simp add: bs_def)
    with True show ?thesis by simp
  next
    case False
    with found [of s1] s1(2,6,7) lasts lp show ?thesis by (simp add: ps(1))
  qed
  from link_line_ring [OF s1(2,5) new] s1(3) len ps(1) obtain t where
    t: "link_line ?n (hd (bs @ [LINES])) s1 = Some t" "relinked s1 t" "ring (t\<lparr>ed_lastNum := ed_lastNum s1 + 1\<rparr>) ?ps" by auto
  define u where "u = t\<lparr>ed_lastNum := ed_lastNum s1 + 1\<rparr>\<lparr>ed_dirty := True\<rparr>"
  note rt = relinked_simps [OF t(2)]
  have "ring u ?ps" using t(3) by (simp add: u_def)
  moreover have "hd (bs @ [LINES]) \<noteq> NULL" using pos_not_null [OF r] lp by simp
  moreover have "c_int (ed_lastNum t + 1) = Some (ed_lastNum s1 + 1)" using lasts(2) len by (simp add: rt c_int_def int_ok_def)
  ultimately have "insertLine num data s = setCurNum num u" "ring u ?ps"
    using n new(3) lasts s1(1) at t(1) by (simp_all add: insertLine_def u_def rt)
  moreover have "map (text_at u) ?ps = map (text_at s) as @ data # map (text_at s) bs"
    using new(1) by (auto simp: u_def rt s1 map_eq_conv)
  ultimately show ?thesis by (intro exI [of _ u]) (simp add: u_def rt s1)
qed

lemma insertLine_spec:
  assumes r: "ring s ps" and c: "cursor_ok s ps" and n: "1 \<le> num" "num \<le> int (length ps) + 1"
    and mem: "snd (alloc s)" and len: "length ps + 1 < 2 ^ 30"
  defines "as \<equiv> take (nat num - 1) ps" and "bs \<equiv> drop (nat num - 1) ps"
  shows "\<exists>t. insertLine num data s = Some (t, True) \<and> ring t (as @ ed_brk s # bs) \<and>
    map (text_at t) (as @ ed_brk s # bs) = map (text_at s) as @ data # map (text_at s) bs \<and>
    ed_curNum t = num \<and> ed_curLine t = pos (as @ ed_brk s # bs) (lands (ed_curNum s) num) \<and> ed_dirty t \<and> others t = others s \<and>
    ed_mallocs t = tl (ed_mallocs s)"
proof -
  let ?ps = "as @ ed_brk s # bs"
  have ps: "ps = as @ bs" "length as = nat num - 1" using n by (auto simp: as_def bs_def)
  have found: "findLine num u = Some (u, pos ps (nat num))" if "num \<le> int (length ps)" "ring u ps" "ed_curNum u = ed_curNum s"
    "ed_curLine u = ed_curLine s" for u
    by (rule findLine_ok [OF that(2) _ n(1) that(1)]) (use c that(3,4) in \<open>simp add: cursor_ok_def\<close>)
  have k: "1 \<le> nat num" "nat num \<le> length ps + 1" "num > int (length ps) \<Longrightarrow> nat num = length ps + 1" using n by simp_all
  from insertLine_links [OF r n k(1,2) mem len k(3) found, of data] obtain u where
    u: "insertLine num data s = setCurNum num u" "ring u ?ps" "map (text_at u) ?ps = map (text_at s) as @ data # map (text_at s) bs"
      "ed_curNum u = ed_curNum s" "ed_curLine u = ed_curLine s" "ed_dirty u" "others u = others s" "ed_mallocs u = tl (ed_mallocs s)"
    unfolding as_def bs_def by blast
  have last: "ed_lastNum u = int (length ps) + 1" using ring_last [OF u(2)] ps(1) by simp
  have "setCurNum num u = Some (u\<lparr>ed_curNum := num, ed_curLine := pos ?ps (lands (ed_curNum s) num)\<rparr>, True)"
  proof (cases "ed_curNum s = 0")
    case True
    then have "lands (ed_curNum s) num = nat num" using n by (simp add: lands_def)
    with setCurNum_wake [OF u(2), of num] True n u(4) ps show ?thesis by simp
  next
    case False
    then have cur: "1 \<le> ed_curNum s" "ed_curNum s \<le> int (length ps)" "ed_curLine s = pos ps (nat (ed_curNum s))"
      using c by (auto simp: cursor_ok_def)
    define d where "d = (if ed_curNum s < num then 0 else 1 :: nat)"
    have "ed_curLine u = pos ?ps (nat (ed_curNum u) + d)"
    proof (cases "ed_curNum s < num")
      case True
      then have "nat (ed_curNum s) \<le> length as" using ps(2) n by simp
      with True show ?thesis using pos_insert(1) u(4,5) cur ps(1) by (simp add: d_def)
    next
      case False
      then have "length as < nat (ed_curNum s)" "nat (ed_curNum s) \<le> length (as @ bs)" using ps n cur by simp_all
      with False show ?thesis using pos_insert(2) u(4,5) cur ps(1) by (simp add: d_def)
    qed
    from setCurNum_from [OF u(2) n(1) _ _ _ this] have
      "setCurNum num u = Some (u\<lparr>ed_curNum := num, ed_curLine := pos ?ps (nat num + (if from_cursor num u then d else 0))\<rparr>, True)"
      using n ps cur u(4) by simp
    moreover have "nat num + (if from_cursor num u then d else 0) = lands (ed_curNum s) num"
      using cur by (auto simp: lands_def from_cursor_def d_def u(4) last)
    ultimately show ?thesis by simp
  qed
  with u show ?thesis by simp
qed

section \<open>Deleting lines\<close>

abbreviation counted :: "nat list \<Rightarrow> ed \<Rightarrow> ed" where
  "counted ps s \<equiv> s\<lparr>ed_lastNum := int (length ps)\<rparr>"

definition fields :: "ed \<Rightarrow> _" where
  "fields s = (others s, ed_curNum s, ed_curLine s, ed_lastNum s, ed_dirty s, ed_mallocs s, ed_brk s)"

lemma fields_relinked: "relinked s t \<Longrightarrow> fields t = fields s"
  by (simp add: fields_def relinked_simps)

lemma links_counted [simp]:
  "nxt (s\<lparr>ed_lastNum := n\<rparr>) = nxt s" "prv (s\<lparr>ed_lastNum := n\<rparr>) = prv s" "link (s\<lparr>ed_lastNum := n\<rparr>) = link s"
  by (simp_all add: nxt_def prv_def link_def fun_eq_iff)

lemma unlink_line_ring:
  assumes r: "ring (counted (as @ x # bs) s) (as @ x # bs)"
  shows "\<exists>t. unlink_line i (s, x) = Some (t, hd (bs @ [LINES])) \<and> ring (counted (as @ bs) t) (as @ bs) \<and>
    fields t = fields s \<and> (\<forall>p. p \<noteq> x \<longrightarrow> text_at t p = text_at s p)"
proof -
  define p where "p = last (LINES # as)"
  define q where "q = hd (bs @ [LINES])"
  have r2: "ring (counted (as @ x # bs) s) ((as @ [x]) @ bs)" using r by simp
  note split = ring_split [OF r] and split2 = ring_split [OF r2]
  have chain: "successively (link s) (LINES # as)" "successively (link s) (bs @ [LINES])"
    using split(1) split2(2) by simp_all
  have dist: "distinct (LINES # as @ x # bs)" using split(3) .
  have px: "nxt s p = Some x" "prv s x = Some p"
    using pos_link [OF r, of "length as"] unfolding split(4,5) by (simp_all add: p_def)
  have xq: "nxt s x = Some q" "prv s q = Some x"
    using pos_link [OF r2, of "length (as @ [x])"] unfolding split2(4,5) by (simp_all add: q_def)
  have mem: "p \<in> set (LINES # as)" "q \<in> set (bs @ [LINES])"
    unfolding p_def q_def by (rule last_in_set, simp, rule hd_in_set, simp)
  then have ne: "p \<noteq> x" "q \<noteq> x" using dist by auto
  from px(2) xq(1) obtain b where b: "ed_heap s x = Some b" "ln_next b = q" "ln_prev b = p"
    by (auto simp: nxt_def prv_def)
  have "ed_heap s p \<noteq> None" using px(1) by (rule in_heap(1))
  from set_next_links [OF this, of q] obtain s1 where
    s1: "set_next p q s = Some s1" "relinked s s1" "nxt s1 = (nxt s)(p \<mapsto> q)" "prv s1 = prv s" by blast
  have "ed_heap s1 q \<noteq> None" using in_heap(2) [OF xq(2)] relinked_simps(7) [OF s1(2), of q] by simp
  from set_prev_links [OF this, of p] obtain s2 where
    s2: "set_prev q p s1 = Some s2" "relinked s1 s2" "prv s2 = (prv s1)(q \<mapsto> p)" "nxt s2 = nxt s1" by blast
  note rt = relinked_trans [OF s1(2) s2(2)]
  define t where "t = s2\<lparr>ed_heap := (ed_heap s2)(x := None)\<rparr>"
  have "ed_heap s2 x \<noteq> None" using b(1) relinked_simps(7) [OF rt, of x] by simp
  then have "unlink_line i (s, x) = Some (t, q)"
    using b s1(1) s2(1) dist by (auto simp: unlink_line_def free_line_def t_def)
  moreover have N: "nxt t = (nxt s)(p \<mapsto> q, x := None)" and P: "prv t = (prv s)(q \<mapsto> p, x := None)"
    using s1(3,4) s2(3,4) by (auto simp: t_def nxt_def prv_def fun_eq_iff)
  have "successively (link t) (LINES # as @ [] @ bs @ [LINES])"
  proof (rule chain_splice [OF chain])
    fix a assume "a \<in> set (butlast (LINES # as)) \<union> set bs"
    then have "a \<noteq> p" "a \<noteq> x"
      using not_last [of LINES as a] dist mem(1) by (auto simp: p_def dest: in_set_butlastD simp del: butlast.simps last.simps)
    then show "nxt t a = nxt s a" by (simp add: N)
  next
    fix c assume "c \<in> set as \<union> set (tl (bs @ [LINES]))"
    then have "c \<noteq> q" "c \<noteq> x" using dist by (cases bs; auto simp: q_def)+
    then show "prv t c = prv s c" by (simp add: P)
  next
    show "successively (link t) (last (LINES # as) # [] @ [hd (bs @ [LINES])])"
      unfolding p_def [symmetric] q_def [symmetric] using ne by (simp add: link_def N P)
  qed
  moreover have heap: "ed_heap t y = ed_heap s2 y" if "y \<noteq> x" for y using that by (simp add: t_def)
  have "block_ok (ed_heap t y)" if "y \<in> set (as @ bs)" for y
  proof -
    have "y \<noteq> x" using that dist by auto
    with heap relinked_simps(6) [OF rt] r that show ?thesis by (auto simp: ring_def)
  qed
  moreover have "ed_heap t y = None" if "ed_brk t \<le> y" for y
    using that r relinked_simps(2,7) [OF rt] heap by (cases "y = x") (auto simp: ring_def t_def)
  ultimately have "ring (counted (as @ bs) t) (as @ bs)"
    using r relinked_simps(2) [OF rt] by (auto simp: ring_def t_def)
  moreover have "fields t = fields s" using fields_relinked [OF rt] by (simp add: t_def fields_def)
  moreover have "text_at t y = text_at s y" if "y \<noteq> x" for y
    using heap [OF that] relinked_simps(5) [OF rt] by (metis text_at_def)
  ultimately show ?thesis using \<open>unlink_line i (s, x) = Some (t, q)\<close> by (auto simp: q_def)
qed

lemma unlink_lines:
  assumes "ring (counted (as @ ms @ bs) s) (as @ ms @ bs)"
  shows "\<exists>t. for_range 0 (int (length ms)) unlink_line (s, hd (ms @ bs @ [LINES])) = Some (t, hd (bs @ [LINES])) \<and>
    ring (counted (as @ bs) t) (as @ bs) \<and> fields t = fields s \<and> (\<forall>p \<in> set (as @ bs). text_at t p = text_at s p)"
proof -
  have f: "unlink_line = (\<lambda>_. unlink_line 0)" by (simp add: unlink_line_def fun_eq_iff)
  have "\<exists>t. steps (length ms) (unlink_line 0) (s, hd (ms @ bs @ [LINES])) = Some (t, hd (bs @ [LINES])) \<and>
    ring (counted (as @ bs) t) (as @ bs) \<and> fields t = fields s \<and> (\<forall>p \<in> set (as @ bs). text_at t p = text_at s p)"
    using assms
  proof (induction ms arbitrary: s)
    case (Cons x ms)
    from unlink_line_ring [of as x "ms @ bs" s 0] Cons.prems obtain u where
      u: "unlink_line 0 (s, x) = Some (u, hd (ms @ bs @ [LINES]))" "ring (counted (as @ ms @ bs) u) (as @ ms @ bs)"
        "fields u = fields s" "\<forall>p. p \<noteq> x \<longrightarrow> text_at u p = text_at s p" by auto
    from Cons.IH [OF u(2)] obtain t where
      t: "steps (length ms) (unlink_line 0) (u, hd (ms @ bs @ [LINES])) = Some (t, hd (bs @ [LINES]))"
        "ring (counted (as @ bs) t) (as @ bs)" "fields t = fields u" "\<forall>p \<in> set (as @ bs). text_at t p = text_at u p" by blast
    have "x \<notin> set (as @ bs)" using Cons.prems by (auto simp: ring_def)
    with u t show ?case by (intro exI [of _ t]) auto
  qed auto
  then show ?thesis by (subst f) (simp add: for_range_steps)
qed

lemma pos_delete:
  "i \<le> length as \<Longrightarrow> pos (as @ ms @ bs) i = pos (as @ bs) i"
  "length as + length ms < i \<Longrightarrow> i \<le> length (as @ ms @ bs) \<Longrightarrow> pos (as @ ms @ bs) i = pos (as @ bs) (i - length ms)"
proof -
  show "i \<le> length as \<Longrightarrow> pos (as @ ms @ bs) i = pos (as @ bs) i"
    by (auto simp: pos_def nth_append nth_Cons')
  assume i: "length as + length ms < i" "i \<le> length (as @ ms @ bs)"
  then obtain j where j: "i = Suc (length as + length ms + j)" "j < length bs"
    by (metis add_less_cancel_left length_append less_iff_Suc_add less_eq_Suc_le add.assoc)
  then show "pos (as @ ms @ bs) i = pos (as @ bs) (i - length ms)"
    by (simp add: pos_simps nth_append)
qed

text \<open>The current line after a deletion: the one behind it, or the one in front of it at the end.\<close>

definition del_cursor :: "int \<Rightarrow> int \<Rightarrow> int \<Rightarrow> int \<Rightarrow> int" where
  "del_cursor cur n1 n2 len =
     (if cur < n1 then cur else if n2 < cur then cur - (n2 - n1 + 1) else if n2 < len then n1 else n1 - 1)"

lemma cursor_update:
  assumes "1 \<le> num" "num \<le> int (length ps)"
  shows "cursor_ok (s\<lparr>ed_curNum := num, ed_curLine := pos ps (nat num)\<rparr>) ps"
  using assms by (simp add: cursor_ok_def)

lemma deleteLines_spec:
  assumes r: "ring s ps" and c: "cursor_ok s ps" and n: "1 \<le> n1" "n1 \<le> n2" "n2 \<le> int (length ps)"
  defines "as \<equiv> take (nat n1 - 1) ps" and "bs \<equiv> drop (nat n2) ps"
  shows "\<exists>t. deleteLines n1 n2 s = Some (t, True) \<and> ring t (as @ bs) \<and> cursor_ok t (as @ bs) \<and>
    map (text_at t) (as @ bs) = map (text_at s) (as @ bs) \<and> ed_curNum t = del_cursor (ed_curNum s) n1 n2 (int (length ps)) \<and>
    ed_dirty t \<and> others t = others s \<and> ed_mallocs t = ed_mallocs s \<and> ed_brk t = ed_brk s"
proof -
  define ms where "ms = take (nat (n2 - n1 + 1)) (drop (nat n1 - 1) ps)"
  let ?cur = "ed_curNum s" and ?count = "n2 - n1 + 1"
  have "drop (nat n1 - 1) ps = ms @ drop (nat ?count) (drop (nat n1 - 1) ps)"
    by (simp only: ms_def append_take_drop_id)
  moreover have "nat ?count + (nat n1 - 1) = nat n2" using n by simp
  moreover have "ps = as @ drop (nat n1 - 1) ps" by (simp add: as_def)
  ultimately have ps: "ps = as @ ms @ bs" by (simp add: bs_def)
  have len: "int (length as) = n1 - 1" "int (length ms) = ?count" using n by (auto simp: as_def ms_def min_def)
  have count: "nat ?count = length ms" using len(2) by simp
  have last: "ed_lastNum s = int (length ps)" using r by (rule ring_last)
  have cur: "1 \<le> ?cur" "?cur \<le> int (length ps)" "ed_curLine s = pos ps (nat ?cur)"
    using c n by (auto simp: cursor_ok_def split: if_splits)
  have lp: "pos ps (nat n1) = hd (ms @ bs @ [LINES])"
  proof -
    have "Suc (length as) = nat n1" using len(1) by simp
    with ring_split(5) [of s as "ms @ bs"] r ps show ?thesis by simp
  qed
  have found: "findLine n1 s = Some (s, pos ps (nat n1))" using findLine_ok [OF r c n(1)] n by simp
  define s2 where "s2 = (if n1 \<le> ?cur \<and> ?cur \<le> n2 then
      if n2 < int (length ps) then s\<lparr>ed_curNum := n2 + 1, ed_curLine := pos ps (nat (n2 + 1))\<rparr>
      else if n1 > 1 then s\<lparr>ed_curNum := n1 - 1, ed_curLine := pos ps (nat (n1 - 1))\<rparr>
      else s\<lparr>ed_curNum := 0\<rparr> else s)"
  have moved: "(if ed_curNum s \<ge> n1 \<and> ed_curNum s \<le> n2 then
                     if n2 < ed_lastNum s then map_option fst (setCurNum (n2 + 1) s)
                     else if n1 > 1 then map_option fst (setCurNum (n1 - 1) s)
                     else Some (s\<lparr>ed_curNum := 0\<rparr>)
                   else Some s) = Some s2"
    using setCurNum_ok [OF r c, of "n2 + 1"] setCurNum_ok [OF r c, of "n1 - 1"] n last by (auto simp: s2_def)
  define s4 where "s4 = s2\<lparr>ed_curNum := (if ed_curNum s2 > n2 then ed_curNum s2 - ?count else ed_curNum s2), ed_lastNum := int (length ps) - ?count\<rparr>"
  have s2: "ed_heap s2 = ed_heap s" "ed_brk s2 = ed_brk s" "others s2 = others s" "ed_mallocs s2 = ed_mallocs s" "ed_lastNum s2 = int (length ps)"
    using last by (simp_all add: s2_def)
  have "ring (counted (as @ ms @ bs) s4) (as @ ms @ bs) = ring s ps"
    unfolding ps by (rule ring_same(1)) (use s2 last ps in \<open>simp_all add: s4_def\<close>)
  with r have "ring (counted (as @ ms @ bs) s4) (as @ ms @ bs)" by simp
  from unlink_lines [OF this] obtain t where
    t: "for_range 0 ?count unlink_line (s4, pos ps (nat n1)) = Some (t, hd (bs @ [LINES]))"
      "ring (counted (as @ bs) t) (as @ bs)" "fields t = fields s4" "\<forall>p \<in> set (as @ bs). text_at t p = text_at s4 p"
    unfolding lp len(2) by blast
  define u where "u = t\<lparr>ed_dirty := True\<rparr>"
  have total: "int (length ps) - ?count = int (length (as @ bs))" using len ps by simp
  have fs: "ed_lastNum t = int (length (as @ bs))" "ed_curNum t = ed_curNum s4" "ed_curLine t = ed_curLine s2" "others t = others s"
    "ed_mallocs t = ed_mallocs s" "ed_brk t = ed_brk s"
    using t(3) s2 total by (simp_all add: fields_def s4_def)
  have "ring t (as @ bs)" using t(2) fs(1) by (subst ring_same(1) [of t "counted (as @ bs) t"]) simp_all
  then have "ring u (as @ bs)" by (simp add: u_def)
  moreover have "deleteLines n1 n2 s = Some (u, True)"
    using n last found pos_not_null [OF r, of "nat n1"] moved t(1) s2(5)
    by (auto simp: deleteLines_def s4_def u_def Let_def)
  moreover have num: "ed_curNum u = del_cursor ?cur n1 n2 (int (length ps))"
    using fs(2) n by (auto simp: u_def s4_def s2_def del_cursor_def)
  moreover have "cursor_ok u (as @ bs)"
  proof -
    consider "?cur < n1" | "n2 < ?cur" | "n1 \<le> ?cur" "?cur \<le> n2" "n2 < int (length ps)"
      | "n1 \<le> ?cur" "?cur \<le> n2" "n2 = int (length ps)" "1 < n1" | "n1 \<le> ?cur" "?cur \<le> n2" "n2 = int (length ps)" "n1 = 1"
      using n by linarith
    then show ?thesis
    proof cases
      case 1
      then have "ed_curLine u = pos ps (nat ?cur)" "nat ?cur \<le> length as" using fs(3) cur len by (simp_all add: u_def s2_def)
      with 1 pos_delete(1) [of "nat ?cur" as ms bs] ps cur len num show ?thesis by (simp add: cursor_ok_def del_cursor_def)
    next
      case 2
      then have "ed_curLine u = pos ps (nat ?cur)" "length as + length ms < nat ?cur" using fs(3) cur len n by (simp_all add: u_def s2_def)
      with 2 pos_delete(2) [of as ms "nat ?cur" bs] ps cur len num total show ?thesis
        by (simp add: cursor_ok_def del_cursor_def nat_diff_distrib count)
    next
      case 3
      then have "ed_curLine u = pos ps (nat (n2 + 1))" "length as + length ms < nat (n2 + 1)" using fs(3) cur len n by (simp_all add: u_def s2_def)
      moreover have "nat (n2 + 1) \<le> length (as @ ms @ bs)" "nat (n2 + 1) - length ms = nat n1"
        using 3 len n unfolding ps [symmetric] by linarith+
      ultimately have "ed_curLine u = pos (as @ bs) (nat n1)" using pos_delete(2) ps by metis
      with 3 ps cur len n num total show ?thesis by (simp add: cursor_ok_def del_cursor_def)
    next
      case 4
      then have "ed_curLine u = pos ps (nat (n1 - 1))" "nat (n1 - 1) \<le> length as" using fs(3) cur len n by (simp_all add: u_def s2_def)
      then have "ed_curLine u = pos (as @ bs) (nat (n1 - 1))" using pos_delete(1) ps by metis
      moreover have "ed_curNum u = n1 - 1" using num 4 by (simp add: del_cursor_def)
      ultimately show ?thesis using 4(4) len(1) by (simp add: cursor_ok_def)
    next
      case 5
      then have "as = []" "bs = []" using len total by auto
      with 5 num show ?thesis by (simp add: cursor_ok_def del_cursor_def)
    qed
  qed
  moreover have "map (text_at u) (as @ bs) = map (text_at s) (as @ bs)"
    using t(4) ring_same(2) [of s4 s] s2 by (auto simp: u_def s4_def text_at_def)
  ultimately show ?thesis using fs by (auto simp: u_def)
qed

section \<open>The list of lines\<close>

lemma ring_unique:
  assumes "ring s ps" "ring s qs"
  shows "ps = qs"
proof -
  have len: "length ps = length qs" using assms by (simp add: ring_def)
  have "pos ps i = pos qs i" for i
  proof (induction i)
    case (Suc i)
    with pos_link(1) [OF assms(1), of i] pos_link(1) [OF assms(2), of i] show ?case by simp
  qed (simp add: pos_simps)
  then have "ps ! i = qs ! i" if "i < length ps" for i
    using that len pos_simps(3) [of "Suc i" ps] pos_simps(3) [of "Suc i" qs] by simp
  with len show ?thesis by (intro nth_equalityI) auto
qed

lemma pos_inj:
  assumes "ring s ps" "0 < i" "i \<le> length ps" "0 < j" "j \<le> length ps" "pos ps i = pos ps j"
  shows "i = j"
proof -
  have "ps ! (i - 1) = ps ! (j - 1)" "distinct ps" using assms by (simp_all add: pos_simps ring_def)
  then have "i - 1 = j - 1" using assms(2-5) nth_eq_iff_index_eq [of ps "i - 1" "j - 1"] by simp
  with assms(2,4) show ?thesis by simp
qed

text \<open>A line that is inserted, and where the current line is afterwards.\<close>

definition insert_at :: "int \<Rightarrow> 'a \<Rightarrow> 'a list \<Rightarrow> 'a list" where
  "insert_at num x xs = take (nat num - 1) xs @ x # drop (nat num - 1) xs"

lemma length_insert_at [simp]: "length (insert_at num x xs) = Suc (length xs)"
  by (auto simp: insert_at_def min_def)

lemma insert_edits:
  assumes "edits s ts" "1 \<le> num" "num \<le> int (length ts) + 1" "snd (alloc s)" "length ts + 1 < 2 ^ 30"
  shows "\<exists>t ps. insertLine num data s = Some (t, True) \<and> ring t ps \<and> map (text_at t) ps = insert_at num data ts \<and>
    ed_curNum t = num \<and> ed_curLine t = pos ps (lands (ed_curNum s) num) \<and> lands (ed_curNum s) num \<le> length ps \<and> ed_dirty t \<and>
    others t = others s \<and> ed_mallocs t = tl (ed_mallocs s)"
proof -
  from assms(1) obtain ps where ps: "ring s ps" "cursor_ok s ps" "ts = map (text_at s) ps" by (auto simp: edits_def)
  have len: "length ps = length ts" using ps by simp
  have "lands (ed_curNum s) num \<le> length ps + 1"
    using assms(2,3) ps(2) len by (auto simp: lands_def cursor_ok_def split: if_splits)
  moreover have texts: "insert_at num data ts = map (text_at s) (take (nat num - 1) ps) @ data # map (text_at s) (drop (nat num - 1) ps)"
    by (simp add: insert_at_def ps(3) take_map drop_map)
  moreover have "num \<le> int (length ps) + 1" "length ps + 1 < 2 ^ 30" using assms(3,5) len by simp_all
  from insertLine_spec [OF ps(1,2) assms(2) this(1) assms(4) this(2), of data, folded insert_at_def texts] obtain t where
    "insertLine num data s = Some (t, True)" "ring t (insert_at num (ed_brk s) ps)"
      "map (text_at t) (insert_at num (ed_brk s) ps) = insert_at num data ts" "ed_curNum t = num"
      "ed_curLine t = pos (insert_at num (ed_brk s) ps) (lands (ed_curNum s) num)" "ed_dirty t" "others t = others s"
      "ed_mallocs t = tl (ed_mallocs s)"
    by blast
  ultimately show ?thesis by (intro exI [of _ t] exI [of _ "insert_at num (ed_brk s) ps"]) simp
qed

lemma text_at_pos:
  assumes "map (text_at t) ps = ts" "0 < i" "i \<le> length ps"
  shows "text_at t (pos ps i) = ts ! (i - 1)"
  using assms by (auto simp: pos_simps)

lemma insert_at_nth:
  assumes "1 \<le> num" "num \<le> int (length ts) + 1"
  shows "insert_at num x ts ! (nat num - 1) = x"
    "num \<le> int (length ts) \<Longrightarrow> insert_at num x ts ! nat num = ts ! (nat num - 1)"
proof -
  obtain k where k: "nat num = Suc k" "k \<le> length ts" using assms by (cases "nat num") auto
  then show "insert_at num x ts ! (nat num - 1) = x" by (simp add: insert_at_def nth_append)
  show "insert_at num x ts ! nat num = ts ! (nat num - 1)" if "num \<le> int (length ts)"
    using k that by (simp add: insert_at_def nth_append min_def)
qed

text \<open>Behind the current line nothing goes wrong.\<close>

lemma insert_behind:
  assumes "edits s ts" "ed_curNum s < num" "1 \<le> num" "num \<le> int (length ts) + 1" "snd (alloc s)" "length ts + 1 < 2 ^ 30"
  shows "\<exists>t. insertLine num data s = Some (t, True) \<and> edits t (insert_at num data ts) \<and> ed_curNum t = num \<and> ed_dirty t \<and>
    others t = others s \<and> ed_mallocs t = tl (ed_mallocs s)"
proof -
  from insert_edits [OF assms(1,3-6), of data] obtain t ps where
    t: "insertLine num data s = Some (t, True)" "ring t ps" "map (text_at t) ps = insert_at num data ts" "ed_curNum t = num"
      "ed_curLine t = pos ps (lands (ed_curNum s) num)" "ed_dirty t" "others t = others s" "ed_mallocs t = tl (ed_mallocs s)" by blast
  have "length ps = Suc (length ts)" using arg_cong [OF t(3), of length] by simp
  then have "cursor_ok t ps" using t(4,5) assms(2-4) by (auto simp: cursor_ok_def lands_def)
  with t have "edits t (insert_at num data ts)" by (auto simp: edits_def)
  with t show ?thesis by blast
qed

lemma edits_cursor: "edits s ts \<Longrightarrow> 0 \<le> ed_curNum s \<and> ed_curNum s \<le> int (length ts) \<and> ed_lastNum s = int (length ts)"
  by (auto simp: edits_def cursor_ok_def ring_last split: if_splits)

lemma insert_at_end: "insert_at (int (length xs) + 1) x xs = xs @ [x]"
  by (simp add: insert_at_def nat_add_distrib)

section \<open>The interface of a text of lines\<close>

text \<open>
  What the commands that insert several lines rely on: \<open>holds s ts c\<close> says that \<open>ts\<close> is the text and
  \<open>c\<close> the number of the current line, and a line that goes behind the current one becomes the current one.
\<close>

definition insert_lines :: "int \<Rightarrow> 'a list \<Rightarrow> 'a list \<Rightarrow> 'a list" where
  "insert_lines num ls ts = take (nat num - 1) ts @ ls @ drop (nat num - 1) ts"

lemma insert_lines_step:
  assumes "1 \<le> num" "num \<le> int (length ts) + 1"
  shows "insert_lines (num + 1) ls (insert_at num l ts) = insert_lines num (l # ls) ts" "insert_lines num [] ts = ts"
proof -
  define k where "k = nat num - 1"
  then have k: "num = int (Suc k)" using assms(1) by simp
  with assms(2) have "k \<le> length ts" by simp
  then show "insert_lines (num + 1) ls (insert_at num l ts) = insert_lines num (l # ls) ts"
    by (simp add: insert_lines_def insert_at_def k nat_add_distrib)
qed (simp add: insert_lines_def)

lemma insert_lines_end:
  assumes "1 \<le> num" "num \<le> int (length ts) + 1"
  shows "insert_at (num + int (length ls)) r (insert_lines num ls ts) = insert_lines num (ls @ [r]) ts"
    "length (insert_lines num ls ts) = length ls + length ts"
proof -
  define k where "k = nat num - 1"
  have k: "num = int (Suc k)" "k \<le> length ts" using assms by (simp_all add: k_def)
  then show "insert_at (num + int (length ls)) r (insert_lines num ls ts) = insert_lines num (ls @ [r]) ts"
    by (simp add: insert_lines_def insert_at_def nat_add_distrib)
  show "length (insert_lines num ls ts) = length ls + length ts" using k by (simp add: insert_lines_def)
qed

fun ins_all :: "(int \<Rightarrow> string \<Rightarrow> 's \<Rightarrow> ('s \<times> bool) option) \<Rightarrow> int \<Rightarrow> string list \<Rightarrow> 's \<Rightarrow> 's option" where
  "ins_all ins num [] s = Some s"
| "ins_all ins num (x # xs) s = do { (t, ok) \<leftarrow> ins num x s; (if ok then ins_all ins (num + 1) xs t else None) }"

locale line_store =
  fixes holds :: "'s \<Rightarrow> string list \<Rightarrow> int \<Rightarrow> bool" and ins :: "int \<Rightarrow> string \<Rightarrow> 's \<Rightarrow> ('s \<times> bool) option" and room :: nat
  assumes ins_law: "holds s ts c \<Longrightarrow> c < num \<Longrightarrow> 1 \<le> num \<Longrightarrow> num \<le> int (length ts) + 1 \<Longrightarrow> length ts < room \<Longrightarrow>
      \<exists>t. ins num x s = Some (t, True) \<and> holds t (insert_at num x ts) num"
begin

lemma ins_all_holds:
  assumes "holds s ts c" "c < num" "1 \<le> num" "num \<le> int (length ts) + 1" "length ts + length xs \<le> room"
  shows "\<exists>t. ins_all ins num xs s = Some t \<and> holds t (insert_lines num xs ts) (if xs = [] then c else num + int (length xs) - 1)"
  using assms
proof (induction xs arbitrary: s ts c num)
  case Nil
  then show ?case by (simp add: insert_lines_step(2))
next
  case (Cons x xs)
  have "length ts < room" using Cons.prems(5) by simp
  from ins_law [OF Cons.prems(1-4) this, of x] obtain u where
    u: "ins num x s = Some (u, True)" "holds u (insert_at num x ts) num" by blast
  have p: "num < num + 1" "1 \<le> num + 1" "num + 1 \<le> int (length (insert_at num x ts)) + 1" "length (insert_at num x ts) + length xs \<le> room"
    using Cons.prems(3-5) by simp_all
  have "(if xs = [] then num else num + 1 + int (length xs) - 1) = num + int (length (x # xs)) - 1" by (cases xs) simp_all
  with Cons.IH [OF u(2) p] u(1) show ?case unfolding insert_lines_step(1) [OF Cons.prems(3,4)] by auto
qed

lemma append_all:
  assumes "holds s ts c" "c \<le> int (length ts)" "length ts + length xs \<le> room"
  shows "\<exists>t. ins_all ins (int (length ts) + 1) xs s = Some t \<and> holds t (ts @ xs) (if xs = [] then c else int (length (ts @ xs)))"
proof -
  have "insert_lines (int (length ts) + 1) xs ts = ts @ xs" by (simp add: insert_lines_def nat_add_distrib)
  moreover have "(if xs = [] then c else int (length ts) + 1 + int (length xs) - 1) = (if xs = [] then c else int (length (ts @ xs)))"
    by simp
  ultimately show ?thesis using ins_all_holds [OF assms(1), of "int (length ts) + 1" xs] assms(2,3) by auto
qed

end

text \<open>The editor with the parts of its state that an insertion does not touch.\<close>

definition editing :: "_ \<Rightarrow> ed \<Rightarrow> string list \<Rightarrow> int \<Rightarrow> bool" where
  "editing o' s ts c \<longleftrightarrow> edits s ts \<and> ed_curNum s = c \<and> ed_mallocs s = [] \<and> others s = o'"

interpretation lines: line_store "editing o'" insertLine "2 ^ 30 - 1" for o'
proof
  fix s :: ed and ts c num x
  assume "editing o' s ts c" "c < num" "1 \<le> num" "num \<le> int (length ts) + 1" "length ts < 2 ^ 30 - 1"
  then show "\<exists>t. insertLine num x s = Some (t, True) \<and> editing o' t (insert_at num x ts) num"
    using insert_behind [of s ts num x] by (auto simp: editing_def alloc_def)
qed

lemma edits_exist:
  assumes "ed_mallocs s = []" "edits s ts" "length ts + length us < 2 ^ 30"
  shows "\<exists>t. edits t (ts @ us) \<and> ed_mallocs t = [] \<and> others t = others s \<and> (us \<noteq> [] \<longrightarrow> ed_curNum t = int (length (ts @ us)))"
  using lines.append_all [of "others s" s ts "ed_curNum s" us] edits_cursor [OF assms(2)] assms by (auto simp: editing_def)

text \<open>
  C11. A line is inserted at its number and gets the current number. The current line is the new one
  exactly when it is behind the old current line or in the first half before it; else, for
  instance for the command \<open>i\<close> at the current line, the current line is the one that was
  moved, its number and its address disagree, and the next commands work on wrong lines.
\<close>

theorem insertLine_inserts:
  assumes "edits s ts" "1 \<le> num" "num \<le> int (length ts) + 1" "snd (alloc s)" "length ts + 1 < 2 ^ 30"
  shows "\<exists>t ps. insertLine num data s = Some (t, True) \<and> ring t ps \<and> map (text_at t) ps = insert_at num data ts \<and> ed_curNum t = num \<and>
    (if ed_curNum s < num \<or> num < ed_curNum s div 2 then edits t (insert_at num data ts) \<and> text_at t (ed_curLine t) = data
     else \<not> edits t (insert_at num data ts) \<and> text_at t (ed_curLine t) = ts ! (nat num - 1))"
proof -
  from insert_edits [OF assms] obtain t ps where
    t: "insertLine num data s = Some (t, True)" "ring t ps" "map (text_at t) ps = insert_at num data ts" "ed_curNum t = num"
      "ed_curLine t = pos ps (lands (ed_curNum s) num)" "lands (ed_curNum s) num \<le> length ps" by blast
  have len: "length ps = length ts + 1" using arg_cong [OF t(3), of length] by simp
  show ?thesis
  proof (cases "ed_curNum s < num \<or> num < ed_curNum s div 2")
    case True
    then have at: "ed_curLine t = pos ps (nat num)" using t(5) by (auto simp: lands_def)
    then have "text_at t (ed_curLine t) = data"
      using text_at_pos [OF t(3), of "nat num"] insert_at_nth(1) [OF assms(2,3)] assms(2,3) len by simp
    moreover have "edits t (insert_at num data ts)"
      using t(2,3,4) at assms(2,3) len by (auto simp: edits_def cursor_ok_def intro!: exI [of _ ps])
    ultimately show ?thesis using True t by (intro exI [of _ t] exI [of _ ps]) simp
  next
    case False
    then have at: "ed_curLine t = pos ps (nat num + 1)" "nat num + 1 \<le> length ps" using t(5,6) by (auto simp: lands_def)
    then have "text_at t (ed_curLine t) = ts ! (nat num - 1)"
      using text_at_pos [OF t(3), of "nat num + 1"] insert_at_nth(2) [OF assms(2,3)] assms(2) len by simp
    moreover have "\<not> edits t (insert_at num data ts)"
    proof
      assume "edits t (insert_at num data ts)"
      then have "cursor_ok t ps" using ring_unique t(2) by (auto simp: edits_def)
      then have "pos ps (nat num + 1) = pos ps (nat num)" using at t(4) assms(2) by (simp add: cursor_ok_def)
      moreover have "0 < nat num + 1" "0 < nat num" "nat num \<le> length ps" using at(2) assms(2) by linarith+
      ultimately have "nat num + 1 = nat num" by (metis pos_inj [OF t(2)] at(2))
      then show False by simp
    qed
    ultimately show ?thesis using False t by (intro exI [of _ t] exI [of _ ps]) simp
  qed
qed

text \<open>
  C12. Deleting a range of lines removes exactly these lines, and the current line, which is right before
  and after, is the one behind them, or the one in front of them at the end of the text.
\<close>

theorem deleteLines_deletes:
  assumes "edits s ts" "1 \<le> n1" "n1 \<le> n2" "n2 \<le> int (length ts)"
  shows "\<exists>t. deleteLines n1 n2 s = Some (t, True) \<and> edits t (take (nat n1 - 1) ts @ drop (nat n2) ts) \<and>
    ed_curNum t = del_cursor (ed_curNum s) n1 n2 (int (length ts)) \<and> others t = others s"
proof -
  from assms(1) obtain ps where ps: "ring s ps" "cursor_ok s ps" "ts = map (text_at s) ps" by (auto simp: edits_def)
  with deleteLines_spec [OF ps(1,2) assms(2,3)] assms(4) show ?thesis
    by (fastforce simp: edits_def take_map drop_map)
qed

section \<open>A session\<close>

text \<open>The editor when the shell was just started, with an empty system.\<close>

definition ed_start :: ed where
  "ed_start = \<lparr>ed_heap = (\<lambda>_. None)(LINES := Some \<lparr>ln_next = NULL, ln_prev = NULL, ln_len = 0, ln_data = []\<rparr>), ed_brk = 2,
    ed_curLine = NULL, ed_curNum = 0, ed_lastNum = 0, ed_marks = replicate 26 0, ed_dirty = False, ed_fileName = None,
    ed_search = [], ed_buf = None, ed_mallocs = [], ed_ints = [], ed_opens = [], ed_writes = [], ed_files = [], ed_log = []\<rparr>"

definition typed_lines :: "string list \<Rightarrow> string" where
  "typed_lines ls = concat (map (\<lambda>l. l @ [LF]) ls)"

lemma init_edits:
  assumes "ed_heap s NULL = None" "2 \<le> ed_brk s" "\<forall>p \<ge> ed_brk s. ed_heap s p = None"
  shows "snd (initEdit (Some block) s)" "edits (fst (initEdit (Some block) s)) []"
proof -
  let ?t = "fst (initEdit (Some block) s)"
  have "ring ?t []" using assms by (auto simp: ring_def initEdit_def link_def nxt_def prv_def LINES_def)
  then show "edits ?t []" by (auto simp: edits_def cursor_ok_def initEdit_def)
qed (simp add: initEdit_def)

text \<open>
  Three lines are typed, a line is inserted before the second, and \<open>d\<close> is given twice: the second
  \<open>d\<close> frees the block of the current line, and \<open>p\<close> reads it.
\<close>

lemma session_reads_freed_line:
  "do_ed (Some []) None (typed_lines [''a'', ''A'', ''B'', ''C'', ''.'', ''2'', ''i'', ''X'', ''.'', ''d'', ''d'', ''p'']) ed_start = None"
  by code_simp

lemma start_edits: "edits (fst (initEdit (Some block) ed_start)) []" "ed_mallocs (fst (initEdit (Some block) ed_start)) = []"
    "ed_ints (fst (initEdit (Some block) ed_start)) = []"
  by (rule init_edits) (auto simp: ed_start_def initEdit_def LINES_def)

theorem insertLine_inserts_witness:
  "\<exists>s. edits s [''A'', ''B'', ''C''] \<and> (\<exists>t ps. insertLine 3 ''X'' s = Some (t, True) \<and> map (text_at t) ps = [''A'', ''B'', ''X'', ''C''] \<and>
     ed_curNum t = 3 \<and> text_at t (ed_curLine t) = ''C'')"
proof -
  from edits_exist [where us = "[''A'', ''B'', ''C'']", OF start_edits(2,1)] obtain s where
    s: "edits s [''A'', ''B'', ''C'']" "ed_mallocs s = []" "ed_curNum s = 3" by auto
  with insertLine_inserts [OF s(1), of 3 "''X''"] show ?thesis by (fastforce simp: alloc_def insert_at_def)
qed

theorem deleteLines_deletes_witness:
  "\<exists>s. edits s [''A'', ''B'', ''C''] \<and> (\<exists>t. deleteLines 2 3 s = Some (t, True) \<and> edits t [''A''] \<and> ed_curNum t = 1)"
proof -
  from edits_exist [where us = "[''A'', ''B'', ''C'']", OF start_edits(2,1)] obtain s where
    s: "edits s [''A'', ''B'', ''C'']" "ed_mallocs s = []" "ed_curNum s = 3" by auto
  with deleteLines_deletes [OF s(1), of 2 3] show ?thesis by (fastforce simp: del_cursor_def)
qed

end
