(* ===== verification/Ed_Sub.thy ===== *)
theory Ed_Sub
  imports Ed_List
begin

text \<open>
  Searching, printing and the substitute command of the editor: what they do with the list of
  lines. A search finds the first line of the range with the string, \<open>replace_all\<close> and
  \<open>replace_first\<close> are what the command \<open>s\<close> is to do with a line.
\<close>

lemma say_fields [simp]:
  "ed_curNum (say e s) = ed_curNum s" "ed_curLine (say e s) = ed_curLine s" "ed_lastNum (say e s) = ed_lastNum s"
  "ed_heap (say e s) = ed_heap s" "ed_mallocs (say e s) = ed_mallocs s" "ed_ints (say e s) = ed_ints s"
  "ed_search (say e s) = ed_search s" "ed_log (say e s) = ed_log s @ [e]" "ed_brk (say e s) = ed_brk s"
  "ed_opens (say e s) = ed_opens s" "ed_buf (say e s) = ed_buf s" "ed_files (say e s) = ed_files s" "ed_writes (say e s) = ed_writes s"
  "ed_fileName (say e s) = ed_fileName s" "ed_dirty (say e s) = ed_dirty s" "ed_marks (say e s) = ed_marks s" "ed_opens (say e s) = ed_opens s"
  by (simp_all add: say_def)

lemma cursor_say [simp]: "cursor_ok (say e s) ps = cursor_ok s ps" "cursor_ok (s\<lparr>ed_dirty := d\<rparr>) ps = cursor_ok s ps"
  by (simp_all add: cursor_ok_def)

lemma cursor_same: "ed_curNum t = ed_curNum s \<Longrightarrow> ed_curLine t = ed_curLine s \<Longrightarrow> cursor_ok t ps = cursor_ok s ps"
  by (simp add: cursor_ok_def)

lemma edits_say [simp]: "edits (say e s) ts = edits s ts"
  by (simp add: edits_def)

section \<open>Searching in a line\<close>

lemma find_sub_hd: "find_sub str s = Some k \<Longrightarrow> str \<noteq> [] \<Longrightarrow> hd str \<in> set s"
proof (induction s arbitrary: k)
  case (Cons c s)
  then show ?case by (cases str) (auto split: if_splits)
qed simp

lemma find_sub_skip:
  assumes "hd str \<notin> set (take k s)" "str \<noteq> []"
  shows "find_sub str s = map_option ((+) k) (find_sub str (drop k s))"
  using assms(1)
proof (induction k arbitrary: s)
  case (Suc k)
  show ?case
  proof (cases s)
    case (Cons c r)
    with Suc.prems have "take (length str) (c # r) \<noteq> str" using assms(2) by (cases str) auto
    with Cons Suc show ?thesis by (simp add: option.map_comp comp_def)
  qed (use assms(2) in simp)
next
  case 0
  then show ?case by (cases "find_sub str s") simp_all
qed

lemma scan_string_find:
  assumes "str \<noteq> []"
  shows "scan_string str cp s = (case find_sub str s of None \<Rightarrow> - 1 | Some k \<Rightarrow> cp + int k)"
  using assms
proof (induction str cp s rule: scan_string.induct)
  case (1 str cp s)
  show ?case
  proof (cases "length str \<le> length s \<and> hd str \<in> set s")
    case False
    then have "find_sub str s = None"
      using find_sub_bound [of str s] find_sub_hd [of str s] "1.prems" by (cases "find_sub str s") auto
    with False "1.prems" show ?thesis by (auto simp: scan_string.simps [of str cp s] memchr_def hd_append)
  next
    case True
    define k where "k = length (takeWhile (\<lambda>d. d \<noteq> hd str) s)"
    have mem: "memchr (hd (str @ [NUL])) s = Some k" using True "1.prems" by (simp add: memchr_def k_def hd_append)
    have k: "k < length s" using memchr_bound [OF mem] .
    have "take k s = takeWhile (\<lambda>d. d \<noteq> hd str) s" unfolding k_def by (metis takeWhile_eq_take)
    then have "hd str \<notin> set (take k s)" by (auto dest: set_takeWhileD)
    from find_sub_skip [OF this "1.prems"]
    have skip: "find_sub str s = map_option ((+) k) (find_sub str (drop k s))" .
    obtain c r where d: "drop k s = c # r" using k by (metis Cons_nth_drop_Suc)
    have r: "r = drop (k + 1) s" using arg_cong [OF d, of tl] by (simp add: tl_drop drop_Suc)
    consider (short) "length s - k < length str" | (hit) "\<not> length s - k < length str" "take (length str) (drop k s) = str"
      | (miss) "\<not> length s - k < length str" "take (length str) (drop k s) \<noteq> str" by blast
    then show ?thesis
    proof cases
      case short
      then have "find_sub str (drop k s) = None"
        using find_sub_bound [of str "drop k s"] by (cases "find_sub str (drop k s)") auto
      with short mem True skip show ?thesis by (simp add: scan_string.simps [of str cp s])
    next
      case hit
      then have "find_sub str (drop k s) = Some 0" unfolding d by simp
      with hit mem True skip show ?thesis by (simp add: scan_string.simps [of str cp s])
    next
      case miss
      then have "find_sub str (drop k s) = map_option Suc (find_sub str r)" unfolding d by simp
      moreover have "scan_string str cp s = scan_string str (cp + int k + 1) (drop (k + 1) s)"
        using miss mem True by (simp add: scan_string.simps [of str cp s])
      ultimately show ?thesis
        using "1.IH" [OF conjunct1 [OF True] mem miss "1.prems"] skip r by (simp split: option.split)
    qed
  qed
qed

lemma block_text:
  assumes "ed_heap s p = Some b" "block_ok (ed_heap s p)"
  shows "mem_get (ln_data b) 0 (ln_len b) = Some (text_at s p)" "int (length (text_at s p)) = ln_len b"
  using assms by (auto simp: block_ok_def text_at_def mem_get_def)

lemma findString_find:
  assumes b: "ed_heap s p = Some b" "block_ok (ed_heap s p)" and str: "str \<noteq> []"
  shows "findString b str (int off) =
    Some (case find_sub str (drop off (text_at s p)) of None \<Rightarrow> - 1 | Some k \<Rightarrow> int (off + k))"
proof (cases "ln_len b - int off < int (length str)")
  case True
  then have "find_sub str (drop off (text_at s p)) = None"
    using find_sub_bound [of str "drop off (text_at s p)"] block_text(2) [OF b] str
    by (cases "find_sub str (drop off (text_at s p))") auto
  with True show ?thesis by (simp add: findString_def)
next
  case False
  have "mem_get (ln_data b) (int off) (ln_len b - int off) = Some (drop off (text_at s p))"
    using False b by (auto simp: mem_get_def text_at_def block_ok_def drop_take nat_diff_distrib)
  with False show ?thesis by (simp add: findString_def scan_string_find [OF str] split: option.split)
qed

section \<open>Searching lines\<close>

lemma ring_block:
  assumes "ring s ps" "1 \<le> i" "i \<le> length ps"
  obtains b where "ed_heap s (pos ps i) = Some b" "block_ok (ed_heap s (pos ps i))" "ln_next b = pos ps (Suc i)"
    "ln_prev b = pos ps (i - 1)" "ln_len b = int (length (text_at s (pos ps i)))"
proof -
  have ok: "block_ok (ed_heap s (pos ps i))" using assms pos_in [of i ps] by (simp add: ring_def)
  then obtain b where b: "ed_heap s (pos ps i) = Some b" by (auto simp: block_ok_def split: option.splits)
  with pos_link [OF assms(1), of i] pos_link(2) [OF assms(1), of "i - 1"] assms(2) block_text(2) [OF b ok] that ok
  show ?thesis by (simp add: nxt_def prv_def)
qed

text \<open>The number of the first line of the range with the string, or 0.\<close>

fun first_with :: "string \<Rightarrow> int \<Rightarrow> string list \<Rightarrow> int" where
  "first_with str n [] = 0"
| "first_with str n (t # ts) = (if find_sub str t \<noteq> None then n else first_with str (n + 1) ts)"

lemma search_found: "found \<noteq> 0 \<Longrightarrow> for_list (search_step str s) is (lp, found) = Some (lp, found)"
  by (induction "is") (simp_all add: search_step_def)

lemma search_lines:
  assumes r: "ring s ps" and str: "str \<noteq> []" and n: "1 \<le> n1" "int n1 \<le> n2 + 1" "n2 \<le> int (length ps)"
  shows "\<exists>lp. for_range (int n1) (n2 + 1) (search_step str s) (pos ps n1, 0) =
    Some (lp, first_with str (int n1) (take (nat n2 + 1 - n1) (drop (n1 - 1) (map (text_at s) ps))))"
  using n
proof (induction "nat n2 + 1 - n1" arbitrary: n1)
  case (Suc k)
  then have n1: "n1 \<le> nat n2" "int n1 < n2 + 1" by auto
  from ring_block [OF r, of n1] Suc.prems n1 obtain b where
    b: "ed_heap s (pos ps n1) = Some b" "block_ok (ed_heap s (pos ps n1))" "ln_next b = pos ps (Suc n1)" by auto
  have "drop (n1 - 1) ps = ps ! (n1 - 1) # drop n1 ps"
    using Cons_nth_drop_Suc [of "n1 - 1" ps] Suc.prems n1 by simp
  then have texts: "take (Suc k) (drop (n1 - 1) (map (text_at s) ps)) = text_at s (pos ps n1) # take k (drop n1 (map (text_at s) ps))"
    using Suc.prems n1 by (simp add: drop_map pos_simps)
  from findString_find [OF b(1,2) str, of 0] have
    step: "search_step str s (int n1) (pos ps n1, 0) =
      Some (if find_sub str (text_at s (pos ps n1)) \<noteq> None then (pos ps n1, int n1) else (pos ps (Suc n1), 0))"
    using b by (auto simp: search_step_def split: option.split)
  show ?case
  proof (cases "find_sub str (text_at s (pos ps n1)) = None")
    case True
    have k: "k = nat n2 + 1 - Suc n1" "int (Suc n1) \<le> n2 + 1" "1 \<le> Suc n1" using Suc.hyps(2) n1 by simp_all
    from Suc.hyps(1) [OF k(1,3,2) Suc.prems(3), folded k(1), unfolded diff_Suc_1] obtain lp where
      "for_range (int (Suc n1)) (n2 + 1) (search_step str s) (pos ps (Suc n1), 0) =
        Some (lp, first_with str (int (Suc n1)) (take k (drop n1 (map (text_at s) ps))))" by blast
    moreover have "int (Suc n1) = int n1 + 1" by simp
    ultimately show ?thesis using True step n1 texts Suc.hyps(2) [symmetric] by (simp only: for_range_step) simp
  next
    case False
    then show ?thesis using step n1 texts Suc.hyps(2) [symmetric] search_found [of "int n1" str s] Suc.prems
      by (simp add: for_range_step) (simp add: for_range_def)
  qed
next
  case 0
  then show ?case by simp
qed

lemma searchLines_edits:
  assumes e: "edits s ts" and n: "1 \<le> n1" "n1 \<le> n2" "n2 \<le> int (length ts)" and str: "str \<noteq> [] \<or> ed_search s \<noteq> []"
  defines "str' \<equiv> (if str = [] then ed_search s else str)"
  shows "\<exists>t. searchLines str n1 n2 s =
      Some (t, first_with str' n1 (take (nat n2 + 1 - nat n1) (drop (nat n1 - 1) ts))) \<and>
    edits t ts \<and> ed_search t = str' \<and> ed_curNum t = ed_curNum s"
proof -
  from e obtain ps where ps: "ring s ps" "cursor_ok s ps" "ts = map (text_at s) ps" by (auto simp: edits_def)
  define s0 where "s0 = s\<lparr>ed_search := str'\<rparr>"
  have s0: "ring s0 ps" "cursor_ok s0 ps" "text_at s0 = text_at s" using ps by (simp_all add: s0_def cursor_ok_def)
  have len: "length ts = length ps" using ps by simp
  have "str' \<noteq> []" using str by (auto simp: str'_def)
  moreover have n': "1 \<le> nat n1" "int (nat n1) \<le> n2 + 1" "n2 \<le> int (length ps)" "int (nat n1) = n1" using n len by simp_all
  ultimately obtain lp where
    found: "for_range n1 (n2 + 1) (search_step str' s0) (pos ps (nat n1), 0) =
      Some (lp, first_with str' n1 (take (nat n2 + 1 - nat n1) (drop (nat n1 - 1) ts)))"
    using search_lines [OF s0(1) _ n'(1-3), of str'] unfolding n'(4) s0(3) ps(3) by blast
  have f: "findLine n1 s0 = Some (s0, pos ps (nat n1))" using findLine_ok [OF s0(1,2) n(1)] n len by simp
  have last: "ed_lastNum s = int (length ps)" using ps by (simp add: ring_last)
  have say: "edits s0 ts" using s0 ps(3) by (auto simp: edits_def)
  show ?thesis
    using n last len str f found pos_not_null [OF ps(1)] say
    by (auto simp: searchLines_def s0_def [symmetric] str'_def [symmetric] Let_def) (simp_all add: s0_def)
qed

section \<open>Printing lines\<close>

definition static :: "ed \<Rightarrow> _" where
  "static s = (ed_heap s, ed_brk s, ed_lastNum s, ed_mallocs s, ed_search s, ed_dirty s, ed_ints s, ed_files s, ed_fileName s)"

lemma static_ring:
  assumes "static t = static s"
  shows "ring t ps = ring s ps" "text_at t = text_at s" "ed_mallocs t = ed_mallocs s" "ed_ints t = ed_ints s"
    "ed_search t = ed_search s" "ed_dirty t = ed_dirty s" "ed_heap t = ed_heap s" "ed_lastNum t = ed_lastNum s"
proof -
  have "ed_heap t = ed_heap s" "ed_lastNum t = ed_lastNum s" "ed_brk t = ed_brk s" using assms by (simp_all add: static_def)
  then show "ring t ps = ring s ps" "text_at t = text_at s" by (rule ring_same)+
qed (use assms in \<open>simp_all add: static_def\<close>)

definition shown :: "bool \<Rightarrow> string \<Rightarrow> string" where
  "shown expandFlag t = (if expandFlag then expand_text t else t)"

lemma print_loop_prints:
  assumes "ring s ps" "cursor_ok s ps" "1 \<le> n1" "int n1 \<le> n2 + 1" "n2 \<le> int (length ps)" "ed_ints s = []"
  shows "\<exists>t. print_loop (int n1) n2 e (pos ps n1) s = Some t \<and> static t = static s \<and> cursor_ok t ps \<and>
    ed_log t = ed_log s @ map (\<lambda>x. Out (shown e x)) (take (nat n2 + 1 - n1) (drop (n1 - 1) (map (text_at s) ps))) \<and>
    ed_curNum t = (if int n1 \<le> n2 then n2 else ed_curNum s)"
  using assms
proof (induction "nat n2 + 1 - n1" arbitrary: n1 s)
  case (Suc k)
  then have n1: "n1 \<le> nat n2" "int n1 \<le> n2" "n1 \<le> length ps" by auto
  from ring_block [OF Suc.prems(1,3) n1(3)] obtain b where
    b: "ed_heap s (pos ps n1) = Some b" "block_ok (ed_heap s (pos ps n1))" "ln_next b = pos ps (Suc n1)" .
  have "drop (n1 - 1) ps = ps ! (n1 - 1) # drop n1 ps" using Cons_nth_drop_Suc [of "n1 - 1" ps] Suc.prems(3) n1(3) by simp
  then have texts: "take (Suc k) (drop (n1 - 1) (map (text_at s) ps)) = text_at s (pos ps n1) # take k (drop n1 (map (text_at s) ps))"
    using Suc.prems(3) n1 by (simp add: drop_map pos_simps)
  define s1 where "s1 = say (Out (shown e (text_at s (pos ps n1)))) (s\<lparr>ed_ints := []\<rparr>)"
  have s1: "ring s1 ps" "cursor_ok s1 ps" using Suc.prems(1,2) by (simp_all add: s1_def cursor_ok_def)
  define u where "u = s1\<lparr>ed_curNum := int n1, ed_curLine := pos ps n1\<rparr>"
  have set: "setCurNum (int n1) s1 = Some (u, True)"
    using setCurNum_ok [OF s1, of "int n1"] Suc.prems(3) n1(3) by (simp add: u_def)
  have u: "static u = static s" "text_at u = text_at s" "ed_log u = ed_log s @ [Out (shown e (text_at s (pos ps n1)))]" "ed_ints u = []"
    using Suc.prems(6) by (simp_all add: static_def u_def s1_def)
  have uc: "cursor_ok u ps" "ring u ps" using Suc.prems(3) n1(3) s1 by (simp_all add: u_def cursor_ok_def)
  have k: "k = nat n2 + 1 - Suc n1" "1 \<le> Suc n1" "int (Suc n1) \<le> n2 + 1" using Suc.hyps(2) n1 by simp_all
  from Suc.hyps(1) [OF k(1) uc(2,1) k(2,3) Suc.prems(5) u(4), folded k(1), unfolded diff_Suc_1] obtain t where
    t: "print_loop (int (Suc n1)) n2 e (pos ps (Suc n1)) u = Some t" "static t = static u" "cursor_ok t ps"
      "ed_log t = ed_log u @ map (\<lambda>x. Out (shown e x)) (take k (drop n1 (map (text_at u) ps)))"
      "ed_curNum t = (if int (Suc n1) \<le> n2 then n2 else ed_curNum u)" by blast
  have "print_loop (int n1) n2 e (pos ps n1) s = print_loop (int (Suc n1)) n2 e (pos ps (Suc n1)) u"
    using Suc.prems(6) n1 b block_text(1) [OF b(1,2)] set
    by (subst print_loop.simps) (simp add: interrupted_def line_text_def shown_def s1_def add.commute)
  moreover have "ed_curNum t = n2" using t(5) n1(2) by (auto simp: u_def)
  ultimately show ?case
    using t u texts Suc.hyps(2) [symmetric] n1(2) by (intro exI [of _ t]) simp
next
  case 0
  then have "\<not> int n1 \<le> n2" by auto
  with 0 have "print_loop (int n1) n2 e (pos ps n1) s = Some (s\<lparr>ed_ints := []\<rparr>)"
    by (simp add: print_loop.simps interrupted_def)
  with 0 \<open>\<not> int n1 \<le> n2\<close> show ?case by (simp add: static_def cursor_ok_def)
qed

lemma printLines_prints:
  assumes "ring s ps" "cursor_ok s ps" "1 \<le> n1" "n1 \<le> n2" "n2 \<le> int (length ps)" "ed_ints s = []"
  shows "\<exists>t. printLines n1 n2 e s = Some (t, True) \<and> static t = static s \<and> cursor_ok t ps \<and>
    ed_log t = ed_log s @ map (\<lambda>x. Out (shown e x)) (take (nat n2 + 1 - nat n1) (drop (nat n1 - 1) (map (text_at s) ps))) \<and>
    ed_curNum t = n2"
proof -
  have n': "1 \<le> nat n1" "int (nat n1) \<le> n2 + 1" "int (nat n1) = n1" using assms(3,4) by simp_all
  from print_loop_prints [OF assms(1,2) n'(1,2) assms(5,6), of e] obtain t where
    t: "print_loop n1 n2 e (pos ps (nat n1)) s = Some t" "static t = static s" "cursor_ok t ps"
      "ed_log t = ed_log s @ map (\<lambda>x. Out (shown e x)) (take (nat n2 + 1 - nat n1) (drop (nat n1 - 1) (map (text_at s) ps)))"
      "ed_curNum t = (if n1 \<le> n2 then n2 else ed_curNum s)"
    unfolding n'(3) by blast
  have "findLine n1 s = Some (s, pos ps (nat n1))" using findLine_ok [OF assms(1-3)] assms(4,5) by simp
  with t assms pos_not_null [OF assms(1)] show ?thesis by (simp add: printLines_def ring_last)
qed

lemma print_pending_keeps:
  assumes "ring s ps" "cursor_ok s ps" "1 \<le> n" "n \<le> int (length ps)" "ed_ints s = []"
  shows "\<exists>t. print_pending p n s = Some t \<and> static t = static s \<and> cursor_ok t ps"
  using printLines_prints [OF assms(1,2,3) order_refl assms(4,5), of False] assms(2) by (auto simp: print_pending_def)

section \<open>What the substitute command is to do with a line\<close>

function replace_all :: "string \<Rightarrow> string \<Rightarrow> string \<Rightarrow> string" where
  "replace_all old newStr t =
     (case find_sub old t of
        None \<Rightarrow> t
      | Some k \<Rightarrow> if old = [] then t else take k t @ newStr @ replace_all old newStr (drop (k + length old) t))"
  by pat_completeness auto

termination
  by (relation "measure (\<lambda>(old, n, t). length t)") (auto dest!: find_sub_bound simp flip: length_greater_0_conv)

declare replace_all.simps [simp del]

definition replace_first :: "string \<Rightarrow> string \<Rightarrow> string \<Rightarrow> string" where
  "replace_first old newStr t =
     (case find_sub old t of None \<Rightarrow> t | Some k \<Rightarrow> take k t @ newStr @ drop (k + length old) t)"

text \<open>
  Without \<open>g\<close> the search of a line begins at the offset behind the replacement in the line before;
  this is what the code does, and not \<^term>\<open>map (replace_first old newStr)\<close>.
\<close>

fun replace_carried :: "string \<Rightarrow> string \<Rightarrow> nat \<Rightarrow> string list \<Rightarrow> string list" where
  "replace_carried old newStr off [] = []"
| "replace_carried old newStr off (t # ts) =
     (case find_sub old (drop off t) of
        None \<Rightarrow> t # replace_carried old newStr 0 ts
      | Some k \<Rightarrow> (take (off + k) t @ newStr @ drop (off + k + length old) t) #
          replace_carried old newStr (off + k + length newStr) ts)"

section \<open>One replacement\<close>

text \<open>The text with the bytes from \<open>at\<close> on, as many as the old string has, exchanged.\<close>

definition spliced :: "nat \<Rightarrow> string \<Rightarrow> string \<Rightarrow> string \<Rightarrow> string" where
  "spliced at old newStr t = take at t @ newStr @ drop (at + length old) t"

lemma take_shifted:
  assumes "length a = n" "length c \<le> length b" "m = n + length c"
  shows "take m (a @ c @ drop (length c) b) = a @ c"
  using assms by simp

lemma sub_in_place_data:
  assumes "k + length old \<le> l" "l \<le> length d" "length newStr \<le> length old"
  shows "\<exists>d1. mem_put d (int k) newStr = Some d1 \<and>
    (length newStr = length old \<longrightarrow> take l d1 = spliced k old newStr (take l d) \<and> length d1 = length d) \<and>
    (\<exists>d2. mem_move d1 (int k + int (length newStr)) (int k + int (length old)) (int l - int k - int (length old)) = Some d2 \<and>
      take (l + length newStr - length old) d2 = spliced k old newStr (take l d) \<and> length d2 = length d)"
proof -
  define d1 where "d1 = take k d @ newStr @ drop (k + length newStr) d"
  define r where "r = take (l - k - length old) (drop (k + length old) d)"
  have put: "mem_put d (int k) newStr = Some d1" using assms by (simp add: mem_put_def d1_def)
  have len: "length d1 = length d" "length r = l - k - length old" using assms by (simp_all add: d1_def r_def)
  have tail: "drop (k + length old) (take l d) = r" by (simp add: r_def drop_take)
  have spl: "spliced k old newStr (take l d) = take k d @ newStr @ r"
    using assms by (simp add: spliced_def tail min_def)
  have "drop (k + length old) d1 = drop (k + length old) d"
    using assms by (simp add: d1_def drop_append add.commute)
  then have get: "mem_get d1 (int k + int (length old)) (int l - int k - int (length old)) = Some r"
    using assms len by (simp add: mem_get_def r_def nat_diff_distrib nat_add_distrib)
  define d2 where "d2 = take (k + length newStr) d1 @ r @ drop (k + length newStr + length r) d1"
  have put2: "mem_put d1 (int k + int (length newStr)) r = Some d2"
    using assms len by (simp add: mem_put_def d2_def nat_add_distrib)
  have front: "take (k + length newStr) d1 = take k d @ newStr" using assms by (simp add: d1_def)
  have "take (l + length newStr - length old) d2 = take k d @ newStr @ r"
  proof -
    define ys where "ys = take k d @ newStr @ r"
    have "l + length newStr - length old = length ys" using assms len by (simp add: ys_def)
    moreover have "d2 = ys @ drop (k + length newStr + length r) d1" by (simp add: d2_def front ys_def)
    ultimately have "take (l + length newStr - length old) d2 = ys" by simp
    then show ?thesis by (simp add: ys_def)
  qed
  moreover have "length d2 = length d" using assms len by (simp add: d2_def)
  moreover have "take l d1 = spliced k old newStr (take l d)" if "length newStr = length old"
    using that assms spl by (simp add: d1_def r_def take_drop)
  ultimately show ?thesis using put get put2 spl len by (auto simp: mem_move_def)
qed

lemma link_text_update:
  assumes "ed_heap s x = Some b" "ln_next b' = ln_next b" "ln_prev b' = ln_prev b"
  shows "link (s\<lparr>ed_heap := (ed_heap s)(x \<mapsto> b')\<rparr>) = link s"
proof -
  have "nxt (s\<lparr>ed_heap := (ed_heap s)(x \<mapsto> b')\<rparr>) = nxt s" "prv (s\<lparr>ed_heap := (ed_heap s)(x \<mapsto> b')\<rparr>) = prv s"
    using assms by (auto simp: nxt_def prv_def fun_eq_iff)
  then show ?thesis by (simp add: link_def fun_eq_iff)
qed

definition edit_rest :: "ed \<Rightarrow> _" where
  "edit_rest s = (ed_lastNum s, ed_mallocs s, ed_ints s, ed_search s, ed_curNum s)"

lemma sub_in_place_line:
  assumes r: "ring s ps" and x: "x \<in> set ps" and at: "k + length old \<le> length (text_at s x)" and short: "length newStr \<le> length old"
  shows "\<exists>t. sub_in_place x (int k) (int (length old)) newStr s = Some t \<and> ring t ps \<and>
    text_at t = (text_at s)(x := spliced k old newStr (text_at s x)) \<and> edit_rest t = edit_rest s \<and> ed_curLine t = ed_curLine s"
proof -
  have ok: "block_ok (ed_heap s x)" using r x by (simp add: ring_def)
  then obtain b where b: "ed_heap s x = Some b" by (auto simp: block_ok_def split: option.splits)
  note bt = block_text [OF b ok]
  define l where "l = nat (ln_len b)"
  have l: "ln_len b = int l" "l \<le> length (ln_data b)" "text_at s x = take l (ln_data b)"
    using ok b by (auto simp: block_ok_def text_at_def l_def)
  have "k + length old \<le> l" using at l by simp
  from sub_in_place_data [OF this l(2) short] obtain d1 d2 where
    d1: "mem_put (ln_data b) (int k) newStr = Some d1"
      "length newStr = length old \<Longrightarrow> take l d1 = spliced k old newStr (text_at s x) \<and> length d1 = length (ln_data b)"
    and d2: "mem_move d1 (int k + int (length newStr)) (int k + int (length old)) (int l - int k - int (length old)) = Some d2"
      "take (l + length newStr - length old) d2 = spliced k old newStr (text_at s x)" "length d2 = length (ln_data b)"
    unfolding l(3) by blast
  define b' where "b' = (if length newStr \<noteq> length old
      then b\<lparr>ln_data := d2, ln_len := ln_len b + (int (length newStr) - int (length old))\<rparr> else b\<lparr>ln_data := d1\<rparr>)"
  define t where "t = s\<lparr>ed_heap := (ed_heap s)(x \<mapsto> b')\<rparr>"
  have "sub_in_place x (int k) (int (length old)) newStr s = Some t"
    using b d1(1) d2(1) l(1) by (auto simp: sub_in_place_def t_def b'_def)
  moreover have len': "ln_len b' = int (l + length newStr - length old)" "ln_len b' \<le> int (length (ln_data b'))"
    using short at l d1(2) d2(3) by (auto simp: b'_def)
  moreover have "take (l + length newStr - length old) (ln_data b') = spliced k old newStr (text_at s x)"
    using d1(2) d2(2) by (auto simp: b'_def)
  ultimately have "text_at t = (text_at s)(x := spliced k old newStr (text_at s x))" "block_ok (ed_heap t x)"
    by (auto simp: t_def text_at_def block_ok_def fun_eq_iff)
  moreover have "link t = link s" unfolding t_def by (rule link_text_update [OF b]) (simp_all add: b'_def)
  moreover have "ed_brk s > x" using r b by (metis ring_def not_less option.distinct(1))
  ultimately have "ring t ps" using r by (auto simp: ring_def t_def)
  then show ?thesis
    using \<open>sub_in_place x (int k) (int (length old)) newStr s = Some t\<close> \<open>text_at t = _\<close>
    by (auto simp: edit_rest_def t_def)
qed

lemma sub_longer_copy:
  assumes "ed_heap s x = Some b" "block_ok (ed_heap s x)" "k + length old \<le> length (text_at s x)"
  shows "mem_get (ln_data b) 0 (int k) = Some (take k (text_at s x))"
    "mem_get (ln_data b) (int k + int (length old)) (ln_len b - int k - int (length old)) = Some (drop (k + length old) (text_at s x))"
proof -
  define l where "l = nat (ln_len b)"
  have l: "ln_len b = int l" "l \<le> length (ln_data b)" "text_at s x = take l (ln_data b)"
    using assms by (auto simp: block_ok_def text_at_def l_def)
  have "k + length old \<le> l" using assms(3) l by simp
  with l show "mem_get (ln_data b) 0 (int k) = Some (take k (text_at s x))"
    "mem_get (ln_data b) (int k + int (length old)) (ln_len b - int k - int (length old)) = Some (drop (k + length old) (text_at s x))"
    by (simp_all add: mem_get_def min_def drop_take nat_diff_distrib nat_add_distrib)
qed

lemma sub_longer_line:
  assumes r: "ring s (as @ x # bs)" and c: "cursor_ok s (as @ x # bs)" and at: "k + length old \<le> length (text_at s x)"
    and mem: "ed_mallocs s = []"
  shows "\<exists>t y. sub_longer x (int k) (int (length old)) newStr s = Some (t, y) \<and> y \<noteq> NULL \<and> ring t (as @ y # bs) \<and>
    cursor_ok t (as @ y # bs) \<and> text_at t y = spliced k old newStr (text_at s x) \<and>
    (\<forall>p \<in> set (as @ bs). text_at t p = text_at s p) \<and> edit_rest t = edit_rest s"
proof -
  define n where "n = ed_brk s"
  define p where "p = last (LINES # as)"
  define q where "q = hd (bs @ [LINES])"
  have r2: "ring s ((as @ [x]) @ bs)" using r by simp
  note split = ring_split [OF r] and split2 = ring_split [OF r2]
  have chain: "successively (link s) (LINES # as)" "successively (link s) (bs @ [LINES])"
    using split(1) split2(2) by simp_all
  have dist: "distinct (LINES # as @ x # bs)" using split(3) .
  have ok: "block_ok (ed_heap s x)" using r by (simp add: ring_def)
  have "nxt s p = Some x" "prv s x = Some p" "nxt s x = Some q" "prv s q = Some x"
    using pos_link [OF r, of "length as"] pos_link [OF r2, of "length (as @ [x])"] unfolding split(4,5) split2(4,5)
    by (simp_all add: p_def q_def)
  then have px: "ed_heap s p \<noteq> None" "ed_heap s q \<noteq> None" and "\<exists>b. ed_heap s x = Some b \<and> ln_next b = q \<and> ln_prev b = p"
    by (auto simp: nxt_def prv_def)
  then obtain b where b: "ed_heap s x = Some b" "ln_next b = q" "ln_prev b = p" by blast
  have mem': "p \<in> set (LINES # as)" "q \<in> set (bs @ [LINES])"
    unfolding p_def q_def by (rule last_in_set, simp, rule hd_in_set, simp)
  then have ne: "p \<noteq> x" "q \<noteq> x" using dist by auto
  have "snd (alloc s)" using mem by (simp add: alloc_def)
  note fresh = malloc_line_ring(2-4) [OF r this, folded n_def]
  from malloc_line_ring(1) [OF r \<open>snd (alloc s)\<close>, of "spliced k old newStr (text_at s x)"] obtain s1 where
    s1: "malloc_line (spliced k old newStr (text_at s x)) s = (s1, n)" "ring s1 (as @ x # bs)" "ed_brk s1 = n + 1"
      "text_at s1 = (text_at s)(n := spliced k old newStr (text_at s x))" "block_ok (ed_heap s1 n)"
      "\<And>p. p \<noteq> n \<Longrightarrow> ed_heap s1 p = ed_heap s p" "ed_curNum s1 = ed_curNum s" "ed_curLine s1 = ed_curLine s" "others s1 = others s"
      "ed_mallocs s1 = []"
    using mem unfolding n_def by auto
  have nn: "n \<noteq> p" "n \<noteq> q" "n \<noteq> x" using fresh mem' by auto
  have h1: "ed_heap s1 n \<noteq> None" "ed_heap s1 p \<noteq> None" "ed_heap s1 q \<noteq> None" "ed_heap s1 x \<noteq> None"
    using s1(5) s1(6) px b nn by (auto simp: block_ok_def split: option.splits)
  from set_next_links [OF h1(1), of q] obtain s2 where
    s2: "set_next n q s1 = Some s2" "relinked s1 s2" "nxt s2 = (nxt s1)(n \<mapsto> q)" "prv s2 = prv s1" by blast
  have "ed_heap s2 n \<noteq> None" using h1 relinked_simps(7) [OF s2(2), of n] by simp
  from set_prev_links [OF this, of p] obtain s3 where
    s3: "set_prev n p s2 = Some s3" "relinked s2 s3" "prv s3 = (prv s2)(n \<mapsto> p)" "nxt s3 = nxt s2" by blast
  note r3 = relinked_trans [OF s2(2) s3(2)]
  have "ed_heap s3 p \<noteq> None" using h1 relinked_simps(7) [OF r3, of p] by simp
  from set_next_links [OF this, of n] obtain s4 where
    s4: "set_next p n s3 = Some s4" "relinked s3 s4" "nxt s4 = (nxt s3)(p \<mapsto> n)" "prv s4 = prv s3" by blast
  note r4 = relinked_trans [OF r3 s4(2)]
  have "ed_heap s4 q \<noteq> None" using h1 relinked_simps(7) [OF r4, of q] by simp
  from set_prev_links [OF this, of n] obtain s5 where
    s5: "set_prev q n s4 = Some s5" "relinked s4 s5" "prv s5 = (prv s4)(q \<mapsto> n)" "nxt s5 = nxt s4" by blast
  note r5 = relinked_trans [OF r4 s5(2)]
  note R = relinked_simps [OF r5]
  define t where "t = s5\<lparr>ed_curLine := (if ed_curLine s = x then n else ed_curLine s), ed_heap := (ed_heap s5)(x := None)\<rparr>"
  have "ed_heap s5 x \<noteq> None" using h1(4) R(7) [of x] by simp
  then have free: "free_line x (if ed_curLine s5 = x then s5\<lparr>ed_curLine := n\<rparr> else s5) = Some t"
    using dist R(4) s1(8) by (auto simp: free_line_def t_def)
  have "sub_longer x (int k) (int (length old)) newStr s = Some (t, n)"
    using b sub_longer_copy [OF b(1) ok at] s1(1) s2(1) s3(1) s4(1) s5(1) free fresh(3)
    by (simp add: sub_longer_def spliced_def)
  moreover have N: "nxt t = (nxt s1)(n \<mapsto> q, p \<mapsto> n, x := None)" and P: "prv t = (prv s1)(n \<mapsto> p, q \<mapsto> n, x := None)"
    using s2(3,4) s3(3,4) s4(3,4) s5(3,4) by (auto simp: t_def nxt_def prv_def fun_eq_iff)
  have old1: "nxt s1 y = nxt s y" "prv s1 y = prv s y" if "y \<noteq> n" for y using s1(6) [OF that] by (simp_all add: nxt_def prv_def)
  have nmem: "n \<notin> set (LINES # as @ x # bs)" using fresh by auto
  have "successively (link t) (LINES # as @ [n] @ bs @ [LINES])"
  proof (rule chain_splice [OF chain])
    fix a assume "a \<in> set (butlast (LINES # as)) \<union> set bs"
    then have "a \<noteq> p" "a \<noteq> x" "a \<noteq> n"
      using not_last [of LINES as a] dist mem'(1) nmem by (auto simp: p_def dest: in_set_butlastD simp del: butlast.simps last.simps)
    then show "nxt t a = nxt s a" using old1 by (simp add: N)
  next
    fix c assume "c \<in> set as \<union> set (tl (bs @ [LINES]))"
    then have "c \<noteq> q" "c \<noteq> x" "c \<noteq> n" using dist nmem by (cases bs; auto simp: q_def)+
    then show "prv t c = prv s c" using old1 by (simp add: P)
  next
    show "successively (link t) (last (LINES # as) # [n] @ [hd (bs @ [LINES])])"
      unfolding p_def [symmetric] q_def [symmetric] using ne nn by (simp add: link_def N P)
  qed
  moreover have heap: "ed_heap t y = ed_heap s5 y" if "y \<noteq> x" for y using that by (simp add: t_def)
  have "block_ok (ed_heap t y)" if "y \<in> set (as @ n # bs)" for y
  proof -
    have "y \<noteq> x" using that dist nn by auto
    with heap R(6) s1(2,5) that show ?thesis by (auto simp: ring_def)
  qed
  moreover have "ed_heap t y = None" if "ed_brk t \<le> y" for y
    using that s1(2) R(2,7) heap by (cases "y = x") (auto simp: ring_def t_def)
  ultimately have ring: "ring t (as @ n # bs)"
    using s1(2) nmem fresh R(1,2) by (auto simp: ring_def t_def)
  have cur: "ed_curNum t = ed_curNum s" using R(3) s1(7) by (simp add: t_def)
  have "cursor_ok t (as @ n # bs)"
  proof -
    define i where "i = nat (ed_curNum s)"
    have i: "0 < i" "i \<le> length (as @ x # bs)" "ed_curLine s = pos (as @ x # bs) i" "ed_curNum s = int i"
      using c by (auto simp: cursor_ok_def i_def split: if_splits)
    have "ed_curLine t = pos (as @ n # bs) i"
    proof (cases "i = Suc (length as)")
      case True
      then have "ed_curLine s = x" using i by (simp add: pos_simps)
      then show ?thesis using True by (simp add: t_def pos_simps)
    next
      case False
      have "(as @ n # bs) ! (i - 1) = (as @ x # bs) ! (i - 1)" using False i(1) by (auto simp: nth_append nth_Cons')
      then have "pos (as @ n # bs) i = ed_curLine s" using i by (simp add: pos_simps)
      moreover have "ed_curLine s \<noteq> x"
      proof -
        have "pos (as @ x # bs) (Suc (length as)) = x" by (simp add: pos_simps)
        with pos_inj [OF r i(1,2), of "Suc (length as)"] False i(3) show ?thesis by auto
      qed
      ultimately show ?thesis by (simp add: t_def)
    qed
    with i cur show ?thesis by (simp add: cursor_ok_def)
  qed
  moreover have same: "text_at t y = text_at s1 y" if "y \<noteq> x" for y
    using heap [OF that] R(5) by (metis text_at_def)
  then have "text_at t n = spliced k old newStr (text_at s x)" using s1(4) nn by simp
  moreover have "text_at t y = text_at s y" if "y \<in> set (as @ bs)" for y
  proof -
    have "y \<noteq> x" "y \<noteq> n" using that dist nmem by auto
    with same s1(4) show ?thesis by simp
  qed
  moreover have "edit_rest t = edit_rest s"
    using ring_last [OF ring] ring_last [OF r] R(8,9) s1(9,10) cur mem by (simp add: edit_rest_def t_def others_def)
  ultimately show ?thesis
    using \<open>sub_longer x (int k) (int (length old)) newStr s = Some (t, n)\<close> fresh(3) ring by blast
qed

definition replaced_at :: "nat list \<Rightarrow> nat \<Rightarrow> nat list \<Rightarrow> string \<Rightarrow> ed \<Rightarrow> nat \<Rightarrow> ed \<Rightarrow> bool" where
  "replaced_at as x bs txt s y t \<longleftrightarrow> ring t (as @ y # bs) \<and> cursor_ok t (as @ y # bs) \<and> text_at t y = txt \<and>
     (\<forall>p \<in> set (as @ bs). text_at t p = text_at s p) \<and> ed_mallocs t = [] \<and> ed_ints t = []"

definition sub_ready :: "ed \<Rightarrow> nat list \<Rightarrow> bool" where
  "sub_ready s ps \<longleftrightarrow> ring s ps \<and> cursor_ok s ps \<and> ed_mallocs s = [] \<and> ed_ints s = []"

lemma sub_once:
  assumes r: "sub_ready s (as @ x # bs)" and at: "k + length old \<le> length (text_at s x)"
  shows "\<exists>t y. (if length newStr \<le> length old
      then map_option (\<lambda>s. (s, x)) (sub_in_place x (int k) (int (length old)) newStr (s\<lparr>ed_dirty := True\<rparr>))
      else sub_longer x (int k) (int (length old)) newStr (s\<lparr>ed_dirty := True\<rparr>)) = Some (t, y) \<and> y \<noteq> NULL \<and>
    replaced_at as x bs (spliced k old newStr (text_at s x)) s y t"
proof -
  let ?s = "s\<lparr>ed_dirty := True\<rparr>"
  have s: "ring ?s (as @ x # bs)" "cursor_ok ?s (as @ x # bs)" "ed_mallocs ?s = []" "ed_ints ?s = []" "text_at ?s = text_at s"
    using r by (simp_all add: sub_ready_def)
  show ?thesis
  proof (cases "length newStr \<le> length old")
    case True
    from sub_in_place_line [OF s(1), of x k old newStr] at s(5) True obtain t where
      t: "sub_in_place x (int k) (int (length old)) newStr ?s = Some t" "ring t (as @ x # bs)"
        "text_at t = (text_at s)(x := spliced k old newStr (text_at s x))" "edit_rest t = edit_rest ?s" "ed_curLine t = ed_curLine ?s"
      by auto
    have "x \<notin> set (as @ bs)" "x \<noteq> NULL" using s(1) by (auto simp: ring_def)
    moreover have "cursor_ok t (as @ x # bs)" using s(2) t(4,5) cursor_same [of t ?s] by (simp add: edit_rest_def)
    ultimately show ?thesis
      using t True s(3,4) by (auto simp: replaced_at_def edit_rest_def)
  next
    case False
    from sub_longer_line [OF s(1,2) _ s(3), of k old newStr] at s(5) obtain t y where
      t: "sub_longer x (int k) (int (length old)) newStr ?s = Some (t, y)" "y \<noteq> NULL" "ring t (as @ y # bs)"
        "cursor_ok t (as @ y # bs)" "text_at t y = spliced k old newStr (text_at s x)"
        "\<forall>p \<in> set (as @ bs). text_at t p = text_at s p" "edit_rest t = edit_rest ?s" by auto
    then show ?thesis using False s(3,4) by (auto simp: replaced_at_def edit_rest_def)
  qed
qed

lemma sub_line_start:
  assumes r: "sub_ready s (as @ x # bs)" and old: "old \<noteq> []"
  obtains b where "ed_heap s x = Some b" "ln_next b = hd (bs @ [LINES])"
    "findString b old (int off) = Some (case find_sub old (drop off (text_at s x)) of None \<Rightarrow> - 1 | Some k \<Rightarrow> int (off + k))"
proof -
  have ring: "ring s (as @ x # bs)" using r by (simp add: sub_ready_def)
  have "pos (as @ x # bs) (Suc (length as)) = x" by (simp add: pos_simps)
  moreover have "pos (as @ x # bs) (Suc (Suc (length as))) = hd (bs @ [LINES])"
    using ring_split(5) [of s "as @ [x]" bs] ring by simp
  ultimately obtain b where b: "ed_heap s x = Some b" "block_ok (ed_heap s x)" "ln_next b = hd (bs @ [LINES])"
    using ring_block [OF ring, of "Suc (length as)"] by (metis Suc_eq_plus1 le_add1 length_Cons length_append nat_add_left_cancel_le le_add2 add.commute)
  with findString_find [OF b(1,2) old, of off] that show ?thesis by blast
qed

lemma pending_ready:
  assumes "sub_ready s (as @ x # bs)"
  shows "\<exists>t. print_pending p (int (length as) + 1) s = Some t \<and> sub_ready t (as @ x # bs) \<and> text_at t = text_at s \<and> ed_heap t = ed_heap s"
proof -
  have r: "ring s (as @ x # bs)" "cursor_ok s (as @ x # bs)" "ed_mallocs s = []" "ed_ints s = []" using assms by (simp_all add: sub_ready_def)
  from print_pending_keeps [OF r(1,2) _ _ r(4), of "int (length as) + 1" p] obtain t where
    t: "print_pending p (int (length as) + 1) s = Some t" "static t = static s" "cursor_ok t (as @ x # bs)" by auto
  with static_ring [OF t(2)] r show ?thesis by (simp add: sub_ready_def)
qed

text \<open>With \<open>g\<close> one line is searched until nothing more is found.\<close>

lemma sub_line_all:
  assumes "sub_ready s (as @ x # bs)" "old \<noteq> []" "text_at s x = front @ rest" "int (length as) + 1 \<le> num2"
  shows "\<exists>t y d. sub_loop old newStr True p x (int (length as) + 1) num2 (int (length front)) needPrint did s =
      sub_loop old newStr True p (hd (bs @ [LINES])) (int (length as) + 2) num2 0 False d t \<and>
    replaced_at as x bs (front @ replace_all old newStr rest) s y t"
  using assms(1,3)
proof (induction "length rest" arbitrary: s x front rest needPrint did rule: less_induct)
  case less
  from sub_line_start [OF less.prems(1) assms(2), of "length front"] less.prems(2) obtain b where
    b: "ed_heap s x = Some b" "ln_next b = hd (bs @ [LINES])"
      "findString b old (int (length front)) = Some (case find_sub old rest of None \<Rightarrow> - 1 | Some k \<Rightarrow> int (length front + k))"
    by auto
  show ?case
  proof (cases "find_sub old rest")
    case None
    from pending_ready [OF less.prems(1), of needPrint] obtain t where
      t: "print_pending needPrint (int (length as) + 1) s = Some t" "sub_ready t (as @ x # bs)" "text_at t = text_at s" by blast
    have "replaced_at as x bs (front @ replace_all old newStr rest) s x t"
      using t None less.prems(2) by (simp add: replaced_at_def sub_ready_def replace_all.simps [of old newStr rest])
    moreover have "sub_loop old newStr True p x (int (length as) + 1) num2 (int (length front)) needPrint did s =
        sub_loop old newStr True p (hd (bs @ [LINES])) (int (length as) + 2) num2 0 False did t"
      using b None t(1) assms(4) by (subst sub_loop.simps) (simp add: add.commute)
    ultimately show ?thesis by blast
  next
    case (Some k)
    have k: "k + length old \<le> length rest" using find_sub_bound [OF Some] .
    let ?front = "front @ take k rest @ newStr" and ?rest = "drop (k + length old) rest"
    from sub_once [OF less.prems(1), of "length front + k" old newStr] k less.prems(2) obtain t y where
      t: "(if length newStr \<le> length old
          then map_option (\<lambda>s. (s, x)) (sub_in_place x (int (length front + k)) (int (length old)) newStr (s\<lparr>ed_dirty := True\<rparr>))
          else sub_longer x (int (length front + k)) (int (length old)) newStr (s\<lparr>ed_dirty := True\<rparr>)) = Some (t, y)" "y \<noteq> NULL"
        "replaced_at as x bs (spliced (length front + k) old newStr (text_at s x)) s y t" by auto
    have spl: "spliced (length front + k) old newStr (text_at s x) = ?front @ ?rest"
      using less.prems(2) by (simp add: spliced_def add.assoc)
    have len: "length front + k + length newStr = length ?front" using k by simp
    have step: "sub_loop old newStr True p x (int (length as) + 1) num2 (int (length front)) needPrint did s =
        sub_loop old newStr True p y (int (length as) + 1) num2 (int (length ?front)) p True t"
      unfolding len [symmetric] using b Some t(1,2) assms(4) by (subst sub_loop.simps) (auto simp: Let_def)
    have "sub_ready t (as @ y # bs)" "text_at t y = ?front @ ?rest" using t(3) spl by (auto simp: replaced_at_def sub_ready_def)
    moreover have "length ?rest < length rest" using k assms(2) by (cases old) auto
    ultimately obtain u z d where
      u: "sub_loop old newStr True p y (int (length as) + 1) num2 (int (length ?front)) p True t =
          sub_loop old newStr True p (hd (bs @ [LINES])) (int (length as) + 2) num2 0 False d u"
        "replaced_at as y bs (?front @ replace_all old newStr ?rest) t z u"
      using less.hyps [of ?rest t y ?front p True] by blast
    have "replaced_at as x bs (front @ replace_all old newStr rest) s z u"
      using u(2) t(3) Some assms(2) by (simp add: replaced_at_def replace_all.simps [of old newStr rest])
    with step u(1) show ?thesis by metis
  qed
qed

text \<open>What happens to one line, and the offset for the next one.\<close>

definition sub_text :: "bool \<Rightarrow> string \<Rightarrow> string \<Rightarrow> nat \<Rightarrow> string \<Rightarrow> string \<times> nat" where
  "sub_text g old newStr off t =
     (if g then (replace_all old newStr t, 0)
      else case find_sub old (drop off t) of
        None \<Rightarrow> (t, 0)
      | Some k \<Rightarrow> (spliced (off + k) old newStr t, off + k + length newStr))"

fun sub_texts :: "bool \<Rightarrow> string \<Rightarrow> string \<Rightarrow> nat \<Rightarrow> string list \<Rightarrow> string list" where
  "sub_texts g old newStr off [] = []"
| "sub_texts g old newStr off (t # ts) =
     fst (sub_text g old newStr off t) # sub_texts g old newStr (snd (sub_text g old newStr off t)) ts"

lemma sub_texts_simps:
  "sub_texts True old newStr 0 ts = map (replace_all old newStr) ts"
  "sub_texts False old newStr off ts = replace_carried old newStr off ts"
proof -
  show "sub_texts True old newStr 0 ts = map (replace_all old newStr) ts"
    by (induction ts) (simp_all add: sub_text_def)
  show "sub_texts False old newStr off ts = replace_carried old newStr off ts"
    by (induction ts arbitrary: off) (simp_all add: sub_text_def spliced_def split: option.split)
qed

lemma sub_line_carried:
  assumes r: "sub_ready s (as @ x # bs)" and old: "old \<noteq> []" and n: "int (length as) + 1 \<le> num2"
  shows "\<exists>t y d. sub_loop old newStr False p x (int (length as) + 1) num2 (int off) False did s =
      sub_loop old newStr False p (hd (bs @ [LINES])) (int (length as) + 2) num2
        (int (snd (sub_text False old newStr off (text_at s x)))) False d t \<and>
    replaced_at as x bs (fst (sub_text False old newStr off (text_at s x))) s y t"
proof -
  from sub_line_start [OF r old, of off] obtain b where
    b: "ed_heap s x = Some b" "ln_next b = hd (bs @ [LINES])"
      "findString b old (int off) = Some (case find_sub old (drop off (text_at s x)) of None \<Rightarrow> - 1 | Some k \<Rightarrow> int (off + k))" .
  show ?thesis
  proof (cases "find_sub old (drop off (text_at s x))")
    case None
    have "replaced_at as x bs (text_at s x) s x s" using r by (simp add: replaced_at_def sub_ready_def)
    moreover have "sub_loop old newStr False p x (int (length as) + 1) num2 (int off) False did s =
        sub_loop old newStr False p (hd (bs @ [LINES])) (int (length as) + 2) num2 0 False did s"
      using b None n by (subst sub_loop.simps) (simp add: print_pending_def add.commute)
    ultimately show ?thesis using None by (intro exI [of _ s] exI [of _ x] exI [of _ did]) (simp add: sub_text_def)
  next
    case (Some k)
    have k: "off + k + length old \<le> length (text_at s x)" using find_sub_bound [OF Some] old by (cases old) auto
    from sub_once [OF r k, of newStr] obtain t y where
      t: "(if length newStr \<le> length old
          then map_option (\<lambda>s. (s, x)) (sub_in_place x (int (off + k)) (int (length old)) newStr (s\<lparr>ed_dirty := True\<rparr>))
          else sub_longer x (int (off + k)) (int (length old)) newStr (s\<lparr>ed_dirty := True\<rparr>)) = Some (t, y)" "y \<noteq> NULL"
        "replaced_at as x bs (spliced (off + k) old newStr (text_at s x)) s y t" by blast
    then have rt: "sub_ready t (as @ y # bs)" by (simp add: replaced_at_def sub_ready_def)
    from pending_ready [OF rt, of p] obtain u where
      u: "print_pending p (int (length as) + 1) t = Some u" "sub_ready u (as @ y # bs)" "text_at u = text_at t" by blast
    from sub_line_start [OF u(2) old, of 0] obtain c where c: "ed_heap u y = Some c" "ln_next c = hd (bs @ [LINES])" by blast
    have "sub_loop old newStr False p x (int (length as) + 1) num2 (int off) False did s =
        sub_loop old newStr False p (hd (bs @ [LINES])) (int (length as) + 2) num2 (int (off + k + length newStr)) False True u"
      using b Some t(1,2) u(1) c n by (subst sub_loop.simps) (auto simp: Let_def add.commute add.left_commute)
    moreover have "replaced_at as x bs (spliced (off + k) old newStr (text_at s x)) s y u"
      using t(3) u(2,3) by (simp add: replaced_at_def sub_ready_def)
    ultimately show ?thesis using Some by (intro exI [of _ u] exI [of _ y] exI [of _ True]) (simp add: sub_text_def)
  qed
qed

lemma sub_line:
  assumes "sub_ready s (as @ x # bs)" "old \<noteq> []" "int (length as) + 1 \<le> num2" "g \<longrightarrow> off = 0"
  shows "\<exists>t y d. sub_loop old newStr g p x (int (length as) + 1) num2 (int off) False did s =
      sub_loop old newStr g p (hd (bs @ [LINES])) (int (length as) + 2) num2
        (int (snd (sub_text g old newStr off (text_at s x)))) False d t \<and>
    replaced_at as x bs (fst (sub_text g old newStr off (text_at s x))) s y t"
proof (cases g)
  case True
  with sub_line_all [OF assms(1,2) _ assms(3), of "[]" "text_at s x" newStr p False did] assms(4)
  show ?thesis by (simp add: sub_text_def)
next
  case False
  with sub_line_carried [OF assms(1-3)] show ?thesis by simp
qed

lemma sub_lines:
  assumes "sub_ready s (as @ ms @ bs)" "old \<noteq> []" "g \<longrightarrow> off = 0"
  shows "\<exists>t qs d. sub_loop old newStr g p (hd (ms @ bs @ [LINES])) (int (length as) + 1) (int (length (as @ ms))) (int off) False did s =
      Some (t, Some d) \<and> sub_ready t (as @ qs @ bs) \<and> map (text_at t) qs = sub_texts g old newStr off (map (text_at s) ms) \<and>
    (\<forall>q \<in> set (as @ bs). text_at t q = text_at s q)"
  using assms(1,3)
proof (induction ms arbitrary: s as off did)
  case Nil
  then show ?case by (subst sub_loop.simps) auto
next
  case (Cons x ms)
  let ?n = "int (length (as @ x # ms))"
  from sub_line [of s as x "ms @ bs" old ?n g off newStr p did] Cons.prems assms(2) obtain t y d where
    t: "sub_loop old newStr g p x (int (length as) + 1) ?n (int off) False did s =
        sub_loop old newStr g p (hd (ms @ bs @ [LINES])) (int (length as) + 2) ?n
          (int (snd (sub_text g old newStr off (text_at s x)))) False d t"
      "replaced_at as x (ms @ bs) (fst (sub_text g old newStr off (text_at s x))) s y t" by auto
  have "sub_ready t ((as @ [y]) @ ms @ bs)" using t(2) by (simp add: replaced_at_def sub_ready_def)
  moreover have "g \<longrightarrow> snd (sub_text g old newStr off (text_at s x)) = 0" by (simp add: sub_text_def)
  ultimately obtain u qs e where
    u: "sub_loop old newStr g p (hd (ms @ bs @ [LINES])) (int (length (as @ [y])) + 1) (int (length ((as @ [y]) @ ms)))
          (int (snd (sub_text g old newStr off (text_at s x)))) False d t = Some (u, Some e)"
      "sub_ready u ((as @ [y]) @ qs @ bs)"
      "map (text_at u) qs = sub_texts g old newStr (snd (sub_text g old newStr off (text_at s x))) (map (text_at t) ms)"
      "\<forall>q \<in> set ((as @ [y]) @ bs). text_at u q = text_at t q"
    using Cons.IH by blast
  have same: "map (text_at t) ms = map (text_at s) ms" "\<forall>q \<in> set (as @ bs). text_at t q = text_at s q"
      "text_at t y = fst (sub_text g old newStr off (text_at s x))"
    using t(2) by (auto simp: replaced_at_def)
  have "int (length (as @ [y])) + 1 = int (length as) + 2" "int (length ((as @ [y]) @ ms)) = ?n" by simp_all
  with u(1) t(1) have "sub_loop old newStr g p x (int (length as) + 1) ?n (int off) False did s = Some (u, Some e)" by metis
  moreover have "map (text_at u) (y # qs) = sub_texts g old newStr off (map (text_at s) (x # ms))"
    using u(3,4) same by simp
  moreover have "sub_ready u (as @ (y # qs) @ bs)" using u(2) by simp
  moreover have "\<forall>q \<in> set (as @ bs). text_at u q = text_at s q" using u(4) same(2) by simp
  ultimately show ?case by (intro exI [of _ u] exI [of _ "y # qs"] exI [of _ e]) simp
qed

section \<open>The command\<close>

lemma replace_carried_one: "replace_carried old newStr 0 [t] = [replace_first old newStr t]"
  by (simp add: replace_first_def split: option.split)

lemma subCommand_lines:
  assumes e: "edits s ts" and n: "1 \<le> n1" "n1 \<le> n2" "n2 \<le> int (length ts)" and parse: "sub_parse cmd = Inr (old, newStr, g, p)"
    and str: "old' = (if old = [] then ed_search s else old)" "old' \<noteq> []" and sys: "ed_mallocs s = []" "ed_ints s = []"
  shows "\<exists>t. subCommand cmd n1 n2 s = Some t \<and>
    edits t (take (nat n1 - 1) ts @ sub_texts g old' newStr 0 (take (nat (n2 - n1 + 1)) (drop (nat n1 - 1) ts)) @ drop (nat n2) ts) \<and>
    ed_mallocs t = [] \<and> ed_ints t = []"
proof -
  from e obtain ps where ps: "ring s ps" "cursor_ok s ps" "ts = map (text_at s) ps" by (auto simp: edits_def)
  define as ms bs where "as = take (nat n1 - 1) ps" and "ms = take (nat (n2 - n1 + 1)) (drop (nat n1 - 1) ps)" and "bs = drop (nat n2) ps"
  define s0 where "s0 = s\<lparr>ed_search := old'\<rparr>"
  have lts: "length ps = length ts" using ps(3) by simp
  have "drop (nat n1 - 1) ps = ms @ drop (nat (n2 - n1 + 1)) (drop (nat n1 - 1) ps)" unfolding ms_def by (simp only: append_take_drop_id)
  moreover have "nat (n2 - n1 + 1) + (nat n1 - 1) = nat n2" using n by simp
  moreover have "ps = as @ drop (nat n1 - 1) ps" by (simp add: as_def)
  ultimately have split: "ps = as @ ms @ bs" by (simp add: bs_def)
  have len: "int (length as) + 1 = n1" "int (length (as @ ms)) = n2" using n lts by (auto simp: as_def ms_def min_def)
  have ready: "sub_ready s0 (as @ ms @ bs)" using ps(1,2) sys cursor_same [of s0 s] by (simp add: sub_ready_def s0_def split [symmetric])
  have lp: "pos ps (nat n1) = hd (ms @ bs @ [LINES])"
  proof -
    have "Suc (length as) = nat n1" using len(1) by simp
    with ring_split(5) [of s as "ms @ bs"] ps(1) split show ?thesis by simp
  qed
  from sub_lines [OF ready str(2), of g 0 newStr p False] obtain t qs d where
    t: "sub_loop old' newStr g p (pos ps (nat n1)) n1 n2 0 False False s0 = Some (t, Some d)" "sub_ready t (as @ qs @ bs)"
      "map (text_at t) qs = sub_texts g old' newStr 0 (map (text_at s0) ms)" "\<forall>q \<in> set (as @ bs). text_at t q = text_at s0 q"
    unfolding len lp by auto
  define u where "u = (if d then t else say (Err (''No substitutions found for '' @ DQUOTE # old' @ [DQUOTE])) t)"
  have "ring s0 ps" "cursor_ok s0 ps" using ready by (simp_all add: sub_ready_def split)
  from findLine_ok [OF this n(1)] n(2,3) lts have find: "findLine n1 s0 = Some (s0, pos ps (nat n1))" by simp
  have "\<not> (old = [] \<and> ed_search s = [])" "ed_lastNum s = int (length ts)" using str ring_last [OF ps(1)] lts by auto
  then have "subCommand cmd n1 n2 s = do {
      (s1, lp) \<leftarrow> findLine n1 s0;
      (if lp = NULL then Some s1
       else do {
         (s2, did) \<leftarrow> sub_loop old' newStr g p lp n1 n2 0 False False s1;
         Some (if did = Some False then say (Err (''No substitutions found for '' @ DQUOTE # old' @ [DQUOTE])) s2 else s2) }) }"
    using n parse unfolding s0_def str(1) by (simp add: subCommand_def Let_def)
  then have "subCommand cmd n1 n2 s = Some u" using find t(1) pos_not_null [OF ps(1), of "nat n1"] by (simp add: u_def)
  moreover have "take (nat n1 - 1) ts = map (text_at s) as" "drop (nat n2) ts = map (text_at s) bs"
      "take (nat (n2 - n1 + 1)) (drop (nat n1 - 1) ts) = map (text_at s) ms"
    by (simp_all add: ps(3) as_def bs_def ms_def take_map drop_map)
  moreover have "text_at s0 = text_at s" by (simp add: s0_def)
  ultimately have "map (text_at u) (as @ qs @ bs) = take (nat n1 - 1) ts @
      sub_texts g old' newStr 0 (take (nat (n2 - n1 + 1)) (drop (nat n1 - 1) ts)) @ drop (nat n2) ts"
    using t(3,4) by (auto simp: u_def)
  moreover have "ring u (as @ qs @ bs)" "cursor_ok u (as @ qs @ bs)" "ed_mallocs u = []" "ed_ints u = []"
    using t(2) by (simp_all add: u_def sub_ready_def)
  ultimately show ?thesis using \<open>subCommand cmd n1 n2 s = Some u\<close> by (auto simp: edits_def intro!: exI [of _ "as @ qs @ bs"])
qed

text \<open>
  C13. The substitute command ends, and replaces in the lines of its range: with the option \<open>g\<close> every
  occurrence in every line, and without it in a single line the first occurrence. In a range of
  several lines without \<open>g\<close> the search of a line begins at the offset where the one in the line before ended.
\<close>

theorem subCommand_substitutes:
  assumes "edits s ts" "1 \<le> n1" "n1 \<le> n2" "n2 \<le> int (length ts)" "sub_parse cmd = Inr (old, newStr, g, p)"
    and "old' = (if old = [] then ed_search s else old)" "old' \<noteq> []" "ed_mallocs s = []" "ed_ints s = []"
  shows "\<exists>t. subCommand cmd n1 n2 s = Some t \<and>
    edits t (take (nat n1 - 1) ts @
      (let range = take (nat (n2 - n1 + 1)) (drop (nat n1 - 1) ts)
       in if g then map (replace_all old' newStr) range
          else if n1 = n2 then map (replace_first old' newStr) range
          else replace_carried old' newStr 0 range) @ drop (nat n2) ts)"
proof -
  define range where "range = take (nat (n2 - n1 + 1)) (drop (nat n1 - 1) ts)"
  have "range = [ts ! (nat n1 - 1)]" if "n1 = n2"
    using that assms(2,4) by (simp add: range_def take_Suc hd_drop_conv_nth)
  then have "sub_texts g old' newStr 0 range = (if g then map (replace_all old' newStr) range
      else if n1 = n2 then map (replace_first old' newStr) range else replace_carried old' newStr 0 range)"
    by (simp add: sub_texts_simps replace_carried_one del: replace_carried.simps)
  then show ?thesis
    using subCommand_lines [OF assms] unfolding range_def Let_def by auto
qed

theorem subCommand_substitutes_witness:
  "\<exists>s. edits s [''xa'', ''a'', ''a''] \<and>
    (\<exists>t. subCommand ''/a/bc/'' 1 3 s = Some t \<and> edits t [''xbc'', ''a'', ''bc''])"
proof -
  from edits_exist [where us = "[''xa'', ''a'', ''a'']", OF start_edits(2,1)] obtain s where
    s: "edits s [''xa'', ''a'', ''a'']" "ed_mallocs s = []" "others s = others (fst (initEdit (Some []) ed_start))" by auto
  have "ed_ints s = []" using s(3) start_edits(3) by (simp add: others_def)
  moreover have "sub_parse ''/a/bc/'' = Inr (''a'', ''bc'', False, False)" by code_simp
  moreover have "replace_carried ''a'' ''bc'' 0 [''xa'', ''a'', ''a''] = [''xbc'', ''a'', ''bc'']" by code_simp
  ultimately show ?thesis using s subCommand_substitutes [OF s(1), of 1 3 "''/a/bc/''"] by (fastforce simp: Let_def)
qed

end
