(* ===== verification/Ed_File.thy ===== *)
theory Ed_File
  imports Ed_Sub
begin

text \<open>
  Files in the editor: reading a file inserts its lines, and writing all lines gives the bytes of the
  file back. \<open>readLines\<close> keeps the beginning of a line that is not yet complete in its buffer,
  moves it to the front, and lets the buffer grow; \<open>pieces\<close> is the text that the lines are cut from.
\<close>

section \<open>Lines of a file\<close>

text \<open>The complete lines of a text, and what is behind the last line feed.\<close>

function pieces :: "string \<Rightarrow> string list \<times> string" where
  "pieces u =
     (if LF \<in> set u then
        (case pieces (tl (dropWhile (\<lambda>c. c \<noteq> LF) u)) of (ls, r) \<Rightarrow> ((takeWhile (\<lambda>c. c \<noteq> LF) u @ [LF]) # ls, r))
      else ([], u))"
  by pat_completeness auto

termination
proof (relation "measure length", goal_cases)
  case (2 u)
  have "length (tl (dropWhile (\<lambda>c. c \<noteq> LF) u)) < length u"
    using 2 length_dropWhile_le [of "\<lambda>c. c \<noteq> LF" "tl u"] by (cases u) auto
  then show ?case by simp
qed simp

declare pieces.simps [simp del]

definition file_lines :: "string \<Rightarrow> string list" where
  "file_lines u = (case pieces u of (ls, r) \<Rightarrow> if r = [] then ls else ls @ [r])"

lemma concat_pieces: "concat (fst (pieces u)) @ snd (pieces u) = u"
proof (induction u rule: pieces.induct)
  case (1 u)
  show ?case
  proof (cases "LF \<in> set u")
    case True
    have "dropWhile (\<lambda>c. c \<noteq> LF) u = LF # tl (dropWhile (\<lambda>c. c \<noteq> LF) u)"
      using True hd_dropWhile [of "\<lambda>c. c \<noteq> LF" u] by (cases "dropWhile (\<lambda>c. c \<noteq> LF) u") auto
    then have "takeWhile (\<lambda>c. c \<noteq> LF) u @ LF # tl (dropWhile (\<lambda>c. c \<noteq> LF) u) = u"
      by (metis takeWhile_dropWhile_id)
    with 1 [OF True] True show ?thesis
      by (simp add: pieces.simps [of u] split: prod.split) (metis append.assoc fst_conv snd_conv)
  qed (simp add: pieces.simps)
qed

lemma concat_file_lines: "concat (file_lines u) = u"
  using concat_pieces [of u] by (auto simp: file_lines_def split: prod.splits)

lemma lines_not_empty: "t \<in> set (fst (pieces u)) \<Longrightarrow> t \<noteq> []"
proof (induction u rule: pieces.induct)
  case (1 u)
  then show ?case by (cases "LF \<in> set u") (auto simp: pieces.simps [of u] split: prod.splits)
qed

lemma length_le_concat: "(\<And>t. t \<in> set ls \<Longrightarrow> t \<noteq> []) \<Longrightarrow> length ls \<le> length (concat ls)"
proof (induction ls)
  case (Cons t ls)
  then have "length ls \<le> length (concat ls)" "t \<noteq> []" by auto
  then show ?case by (cases t) auto
qed simp

lemma lines_count: "length (fst (pieces u)) + length (snd (pieces u)) \<le> length u"
proof -
  have "length (fst (pieces u)) \<le> length (concat (fst (pieces u)))"
    by (rule length_le_concat) (rule lines_not_empty)
  then show ?thesis using arg_cong [OF concat_pieces [of u], of length] by simp
qed

section \<open>The buffer\<close>

lemma edits_update [simp]:
  "edits (s\<lparr>ed_buf := b\<rparr>) ts = edits s ts" "edits (s\<lparr>ed_mallocs := m\<rparr>) ts = edits s ts" "edits (s\<lparr>ed_ints := i\<rparr>) ts = edits s ts"
  "edits (s\<lparr>ed_opens := os\<rparr>) ts = edits s ts" "edits (s\<lparr>ed_writes := ws\<rparr>) ts = edits s ts" "edits (s\<lparr>ed_files := fs\<rparr>) ts = edits s ts"
  "edits (say e s) ts = edits s ts"
  by (simp_all add: edits_def cursor_ok_def)

text \<open>The parts of the state that reading only passes on.\<close>

definition kept :: "ed \<Rightarrow> ed \<Rightarrow> bool" where
  "kept s t \<longleftrightarrow> ed_mallocs t = [] \<and> ed_ints t = [] \<and> ed_writes t = ed_writes s \<and> ed_files t = ed_files s"

lemma grow_keeps:
  assumes "2 \<le> length buf" "length buf < 2 ^ 29 \<or> used < length buf" "used \<le> length buf" "ed_mallocs s = []" "ed_ints s = []"
    and "ptr = int used \<or> ptr = 0 \<and> (used < length buf \<longrightarrow> content = [])"
  shows "\<exists>t buf2 ptr2. grow_buffer (int used) buf ptr s = Some (t, Some (buf2, ptr2)) \<and> take used buf2 = take used buf \<and>
    used < length buf2 \<and> 2 \<le> length buf2 \<and> (ptr2 = int used \<or> ptr2 = 0 \<and> content = []) \<and>
    edits t = edits s \<and> kept s t \<and> ed_curNum t = ed_curNum s"
proof (cases "used < length buf")
  case True
  with assms show ?thesis by (auto simp: grow_buffer_def kept_def)
next
  case False
  define n where "n = length buf * 3 div 2"
  have n: "length buf < n" using assms(1) by (simp add: n_def)
  have len: "c_int (int (length buf) * 3) = Some (int (length buf) * 3)" "nat (int (length buf) * 3 sdiv 2) = n"
    using False assms(2) by (simp_all add: c_int_def int_ok_def sdiv_pos n_def nat_div_distrib nat_mult_distrib)
  let ?t = "s\<lparr>ed_mallocs := []\<rparr>"
  have "grow_buffer (int used) buf ptr s = Some (?t, Some (buf @ replicate (n - length buf) NUL, int used))"
    using False assms(3,4) len by (simp add: grow_buffer_def alloc_def)
  moreover have "edits ?t = edits s" by (simp add: fun_eq_iff)
  ultimately show ?thesis using n assms(1,3,5) False by (auto simp: kept_def)
qed

lemma refill_keeps:
  assumes buf: "0 \<le> ptr" "ptr + int used \<le> int (length buf)" "2 \<le> length buf" "length buf < 2 ^ 29 \<or> used < length buf"
    and w: "w = take used (drop (nat ptr) buf)" and sys: "ed_mallocs s = []" "ed_ints s = []"
    and front: "ptr = 0 \<longrightarrow> 0 < used \<longrightarrow> used < length buf \<longrightarrow> content = []"
  shows "\<exists>t buf2 ptr2. refill (int used) buf ptr s = Some (t, Some (buf2, ptr2)) \<and> take used buf2 = w \<and> used < length buf2 \<and>
    2 \<le> length buf2 \<and> (ptr2 = int used \<or> ptr2 = 0 \<and> content = []) \<and> edits t = edits s \<and> kept s t \<and> ed_curNum t = ed_curNum s"
proof (cases "ptr = 0")
  case True
  let ?s = "s\<lparr>ed_buf := Some buf\<rparr>"
  have "edits ?s = edits s" by (simp add: fun_eq_iff)
  moreover have p: "(0::int) = int used \<or> (0::int) = 0 \<and> (used < length buf \<longrightarrow> content = [])" using front True by auto
  ultimately show ?thesis
    using grow_keeps [OF buf(3,4) _ _ _ p, of ?s] True buf(2) w sys by (auto simp: refill_def kept_def)
next
  case False
  then have used: "used < length buf" using buf(1,2) by linarith
  let ?buf = "w @ drop used buf" and ?s = "s\<lparr>ed_buf := Some (w @ drop used buf)\<rparr>"
  have len: "length w = used" using buf(1,2) by (simp add: w)
  have "mem_move buf 0 ptr (int used) = Some ?buf"
    using buf(1,2) len by (simp add: mem_move_def mem_get_def mem_put_def w)
  moreover have "length ?buf = length buf" "take used ?buf = w" using len used by simp_all
  moreover have "edits ?s = edits s" by (simp add: fun_eq_iff)
  ultimately show ?thesis
    using grow_keeps [of ?buf used ?s "int used" content] False buf(3) used sys by (auto simp: refill_def kept_def)
qed

section \<open>Reading\<close>

lemma cut_line:
  assumes "LF \<in> set w"
  obtains k where "memchr LF w = Some k" "k < length w" "take (k + 1) w = takeWhile (\<lambda>c. c \<noteq> LF) (w @ v) @ [LF]"
    "tl (dropWhile (\<lambda>c. c \<noteq> LF) (w @ v)) = drop (k + 1) w @ v"
proof -
  from split_list_first [OF assms] obtain xs ys where xs: "w = xs @ LF # ys" "LF \<notin> set xs" by blast
  then have "takeWhile (\<lambda>c. c \<noteq> LF) w = xs" "takeWhile (\<lambda>c. c \<noteq> LF) (w @ v) = xs" "dropWhile (\<lambda>c. c \<noteq> LF) (w @ v) = LF # ys @ v"
    by (auto simp: takeWhile_append dropWhile_append)
  with xs assms that [of "length xs"] show ?thesis by (simp add: memchr_def)
qed

lemma read_loop_reads:
  assumes "edits s ts" "ed_mallocs s = []" "ed_ints s = []" "ed_buf s = Some buf"
    and "0 \<le> ptr" "ptr + int used \<le> int (length buf)" "2 \<le> length buf" "w = take used (drop (nat ptr) buf)"
    and "ptr = 0 \<longrightarrow> 0 < used \<longrightarrow> used < length buf \<longrightarrow> content = []" "0 < used \<longrightarrow> 0 < cc"
    and "ed_curNum s < num" "1 \<le> num" "num \<le> int (length ts) + 1"
    and "0 \<le> chars" "chars + int (length (w @ content)) < 2 ^ 29" "length ts + length (w @ content) < 2 ^ 29"
    and "pieces (w @ content) = (ls, r)"
  shows "\<exists>t buf' ptr'. read_loop num ptr (int used) lc chars cc content [] s =
      Some (t, Ended (num + int (length ls)) ptr' (int (length r)) (lc + int (length ls)) (chars + int (length (concat ls))) 0) \<and>
    ed_buf t = Some buf' \<and> mem_get buf' ptr' (int (length r)) = Some r \<and> edits t (insert_lines num ls ts) \<and>
    ed_curNum t < num + int (length ls) \<and> kept s t"
  using assms
proof (induction "length (w @ content) + length content"
    arbitrary: s ts buf ptr used w content cc num lc chars ls r rule: less_induct)
  case less
  note P = less.prems
  define s0 where "s0 = s\<lparr>ed_ints := []\<rparr>"
  have s0: "edits s0 ts" "ed_mallocs s0 = []" "ed_ints s0 = []" "ed_buf s0 = Some buf" "ed_curNum s0 = ed_curNum s" "ed_writes s0 = ed_writes s"
      "ed_files s0 = ed_files s" using P by (simp_all add: s0_def)
  have int0: "interrupted s = (s0, False)" using P(3) by (simp add: interrupted_def s0_def)
  have len: "length w = used" using P(5,6,8) by simp
  have get: "mem_get buf ptr (int used) = Some w" using P(5,6,8) by (simp add: mem_get_def)
  show ?case
  proof (cases "LF \<in> set w")
    case True
    from cut_line [OF this, of content] obtain k where
      k: "memchr LF w = Some k" "k < length w" "take (k + 1) w = takeWhile (\<lambda>c. c \<noteq> LF) (w @ content) @ [LF]"
        "tl (dropWhile (\<lambda>c. c \<noteq> LF) (w @ content)) = drop (k + 1) w @ content" by metis
    define l where "l = take (k + 1) w"
    have ll: "length l = k + 1" using k(2) by (simp add: l_def)
    from True P(17) k(3,4) obtain ls' where
      p: "pieces (drop (k + 1) w @ content) = (ls', r)" "ls = l # ls'"
      by (auto simp: pieces.simps [of "w @ content"] l_def split: prod.splits)
    have "length ts + 1 < 2 ^ 30" "ed_curNum s0 < num" using P(11,16) s0(5) k(2) by simp_all
    from insert_behind [OF s0(1) this(2) P(12,13) _ this(1), of l] s0(2) obtain t where
      t: "insertLine num l s0 = Some (t, True)" "edits t (insert_at num l ts)" "ed_curNum t = num" "others t = others s0"
        "ed_mallocs t = []" by (auto simp: alloc_def)
    then have ot: "ed_ints t = []" "ed_buf t = Some buf" "ed_writes t = ed_writes s" "ed_files t = ed_files s" using s0 by (auto simp: others_def)
    have c: "c_int (chars + int (k + 1)) = Some (chars + int (k + 1))" "c_int (num + 1) = Some (num + 1)" "cc > 0"
      using P(10,12-16) k(2) len by (auto simp: c_int_def int_ok_def)
    have step: "read_loop num ptr (int used) lc chars cc content [] s =
        read_loop (num + 1) (ptr + int (k + 1)) (int (used - (k + 1))) (lc + 1) (chars + int (k + 1)) cc content [] t"
      using int0 s0(4) get k(1,2) t(1) c len by (subst read_loop.simps) (simp add: l_def of_nat_diff)
    have nat: "nat (ptr + int (k + 1)) = nat ptr + (k + 1)" using P(5) by simp
    have w': "drop (k + 1) w = take (used - (k + 1)) (drop (nat (ptr + int (k + 1))) buf)"
      unfolding nat using P(8) by (simp add: drop_take add.commute)
    have less: "length (drop (k + 1) w @ content) + length content < length (w @ content) + length content" using k(2) by simp
    have p1: "0 \<le> ptr + int (k + 1)" "ptr + int (k + 1) + int (used - (k + 1)) \<le> int (length buf)"
      using k(2) len P(5,6) by auto
    have p2: "ptr + int (k + 1) = 0 \<longrightarrow> 0 < used - (k + 1) \<longrightarrow> used - (k + 1) < length buf \<longrightarrow> content = []"
      using P(5) by simp
    have p3: "0 < used - (k + 1) \<longrightarrow> 0 < cc" using c(3) by simp
    have p4: "ed_curNum t < num + 1" "1 \<le> num + 1" "num + 1 \<le> int (length (insert_at num l ts)) + 1"
      using t(3) P(12,13) by (simp_all add: length_insert_at)
    have p5: "0 \<le> chars + int (k + 1)" "chars + int (k + 1) + int (length (drop (k + 1) w @ content)) < 2 ^ 29"
      "length (insert_at num l ts) + length (drop (k + 1) w @ content) < 2 ^ 29"
      using P(12-16) k(2) by (simp_all add: length_insert_at)
    from less.hyps [OF less t(2,5) ot(1,2) p1 P(7) w' p2 p3 p4 p5 p(1), of "lc + 1"]
    obtain u buf' ptr' where
      u: "read_loop (num + 1) (ptr + int (k + 1)) (int (used - (k + 1))) (lc + 1) (chars + int (k + 1)) cc content [] t =
        Some (u, Ended (num + 1 + int (length ls')) ptr' (int (length r)) (lc + 1 + int (length ls'))
          (chars + int (k + 1) + int (length (concat ls'))) 0)"
        "ed_buf u = Some buf'" "mem_get buf' ptr' (int (length r)) = Some r" "edits u (insert_lines num ls ts)"
        "ed_curNum u < num + 1 + int (length ls')" "kept t u"
      unfolding insert_lines_step(1) [OF P(12,13)] p(2) by blast
    show ?thesis
      using step u p(2) ll ot(3,4) by (intro exI [of _ u] exI [of _ buf'] exI [of _ ptr']) (simp add: kept_def)
  next
    case False
    have "length buf < 2 ^ 29 \<or> used < length buf" using P(5,6,16) len by auto
    from refill_keeps [OF P(5,6,7) this P(8) s0(2,3), of content] P(9) obtain t buf2 ptr2 where
      t: "refill (int used) buf ptr s0 = Some (t, Some (buf2, ptr2))" "take used buf2 = w" "used < length buf2" "2 \<le> length buf2"
        "ptr2 = int used \<or> ptr2 = 0 \<and> content = []" "edits t = edits s0" "kept s0 t" "ed_curNum t = ed_curNum s0" by auto
    have none: "memchr LF w = None" using False by (simp add: memchr_def)
    define n where "n = length buf2 - used"
    have read: "read_file (int (length buf2) - int used) content [] = (Some (take n content), drop n content, [])"
    proof -
      have "int (length buf2) - int used = int n" using t(3) by (simp add: n_def)
      then show ?thesis by (simp add: read_file_def)
    qed
    show ?thesis
    proof (cases "content = []")
      case True
      have p: "ls = []" "r = w" using P(17) True False by (simp_all add: pieces.simps)
      have "mem_put buf2 ptr2 [] = Some buf2" using t(3,5) by (auto simp: mem_put_def)
      then have "read_loop num ptr (int used) lc chars cc content [] s =
          Some (t\<lparr>ed_buf := Some buf2\<rparr>, Ended num 0 (int used) lc chars 0)"
        using int0 s0(4) get none t(1) read True by (subst read_loop.simps) simp
      moreover have "mem_get buf2 0 (int used) = Some w" using t(2,3) by (simp add: mem_get_def)
      moreover have "edits t (insert_lines num [] ts)" using t(6) s0(1) insert_lines_step(2) [OF P(12,13)] by simp
      ultimately show ?thesis
        using p len t(7,8) s0(5-7) P(11) by (intro exI [of _ "t\<lparr>ed_buf := Some buf2\<rparr>"]) (simp add: kept_def)
    next
      case False
      define chunk where "chunk = take n content"
      have n: "0 < n" "chunk \<noteq> []" "ptr2 = int used" "length chunk \<le> n" using t(3,5) False by (auto simp: n_def chunk_def)
      define buf3 where "buf3 = w @ chunk @ drop (used + length chunk) buf2"
      have put: "mem_put buf2 ptr2 chunk = Some buf3"
        using n t(2,3) by (simp add: mem_put_def buf3_def n_def)
      define u where "u = t\<lparr>ed_buf := Some buf3\<rparr>"
      have step: "read_loop num ptr (int used) lc chars cc content [] s =
          read_loop num 0 (int (used + length chunk)) lc chars (int (length chunk)) (drop n content) [] u"
        using int0 s0(4) get none t(1) read put n(2) by (subst read_loop.simps) (simp add: chunk_def [symmetric] u_def)
      have u: "edits u ts" "ed_mallocs u = []" "ed_ints u = []" "ed_buf u = Some buf3" "ed_curNum u = ed_curNum s"
          "ed_writes u = ed_writes s" "ed_files u = ed_files s"
        using t(6-8) s0 by (simp_all add: u_def kept_def)
      have lb: "length buf3 = length buf2" using n t(3) len by (simp add: buf3_def n_def)
      have w': "w @ chunk = take (used + length chunk) (drop (nat 0) buf3)" using len by (simp add: buf3_def)
      have whole: "(w @ chunk) @ drop n content = w @ content" by (simp add: chunk_def)
      have full: "0 = (0::int) \<longrightarrow> 0 < used + length chunk \<longrightarrow> used + length chunk < length buf3 \<longrightarrow> drop n content = []"
        using n(1) t(3) lb by (auto simp: chunk_def n_def min_def)
      have less: "length ((w @ chunk) @ drop n content) + length (drop n content) < length (w @ content) + length content"
        unfolding whole using n(1) False by (cases content) auto
      have p1: "0 \<le> (0::int)" "0 + int (used + length chunk) \<le> int (length buf3)" "2 \<le> length buf3"
        using n(4) t(3,4) lb by (auto simp: n_def)
      have p2: "0 < used + length chunk \<longrightarrow> 0 < int (length chunk)" using n(2) by simp
      have p3: "ed_curNum u < num" using P(11) u(5) by simp
      have p4: "chars + int (length ((w @ chunk) @ drop n content)) < 2 ^ 29" "length ts + length ((w @ chunk) @ drop n content) < 2 ^ 29"
        "pieces ((w @ chunk) @ drop n content) = (ls, r)"
        unfolding whole by (fact P(15-17))+
      from less.hyps [OF less u(1-4) p1 w' full p2 p3 P(12-14) p4, of lc] obtain v buf' ptr' where
        v: "read_loop num 0 (int (used + length chunk)) lc chars (int (length chunk)) (drop n content) [] u =
          Some (v, Ended (num + int (length ls)) ptr' (int (length r)) (lc + int (length ls)) (chars + int (length (concat ls))) 0)"
          "ed_buf v = Some buf'" "mem_get buf' ptr' (int (length r)) = Some r" "edits v (insert_lines num ls ts)"
          "ed_curNum v < num + int (length ls)" "kept u v" by metis
      show ?thesis using step v u(6,7) by (intro exI [of _ v]) (simp add: kept_def)
    qed
  qed
qed

lemma readLines_reads:
  assumes "edits s ts" "ed_mallocs s = []" "ed_ints s = []" "ed_buf s = Some buf" "2 \<le> length buf"
    and "ed_opens s = Some (content, []) # os" "ed_curNum s < num" "1 \<le> num" "num \<le> int (length ts) + 1"
    and "length ts + length content < 2 ^ 29"
  shows "\<exists>t. readLines file num s = Some (t, True) \<and> edits t (insert_lines num (file_lines content) ts) \<and> kept s t"
proof -
  obtain ls r where p: "pieces content = (ls, r)" by (cases "pieces content")
  then have count: "length ls + length r \<le> length content" "concat ls @ r = content"
    using lines_count [of content] concat_pieces [of content] by simp_all
  define s1 where "s1 = say (Out (DQUOTE # file @ [DQUOTE] @ '', '')) (s\<lparr>ed_opens := os\<rparr>)"
  have s1: "edits s1 ts" "ed_mallocs s1 = []" "ed_ints s1 = []" "ed_buf s1 = Some buf" "ed_curNum s1 < num"
      "ed_writes s1 = ed_writes s" "ed_files s1 = ed_files s"
    using assms(1-4,7) by (simp_all add: s1_def)
  have q: "0 \<le> (0::int)" "0 + int 0 \<le> int (length buf)" "[] = take 0 (drop (nat 0) buf)" "0 = (0::int) \<longrightarrow> 0 < (0::nat) \<longrightarrow> 0 < length buf \<longrightarrow> content = []"
    "0 < (0::nat) \<longrightarrow> 0 < (0::int)" "0 + int (length ([] @ content)) < 2 ^ 29" "length ts + length ([] @ content) < 2 ^ 29"
    "pieces ([] @ content) = (ls, r)"
    using assms(10) p by simp_all
  from read_loop_reads [OF s1(1-4) q(1,2) assms(5) q(3-5) s1(5) assms(8,9) q(1,6-8), of 0] obtain t buf' ptr' where
    t: "read_loop num 0 0 0 0 0 content [] s1 =
        Some (t, Ended (num + int (length ls)) ptr' (int (length r)) (int (length ls)) (int (length (concat ls))) 0)"
      "ed_buf t = Some buf'" "mem_get buf' ptr' (int (length r)) = Some r" "edits t (insert_lines num ls ts)"
      "ed_curNum t < num + int (length ls)" "kept s1 t" by auto
  have start: "readLines file num s = (case Some (t, Ended (num + int (length ls)) ptr' (int (length r)) (int (length ls)) (int (length (concat ls))) 0) of
      None \<Rightarrow> None | Some (s2, e) \<Rightarrow> read_finish file e s2)"
    using assms(6,8,9) edits_cursor [OF assms(1)] t(1) by (simp add: readLines_def s1_def)
  have k1: "kept s t" using t(6) s1(6,7) by (simp add: kept_def)
  show ?thesis
  proof (cases "r = []")
    case True
    then have "file_lines content = ls" by (simp add: file_lines_def p)
    with start True t(4) k1 show ?thesis by (simp add: read_finish_def kept_def)
  next
    case False
    then have f: "file_lines content = ls @ [r]" by (simp add: file_lines_def p)
    have "1 \<le> num + int (length ls)" "num + int (length ls) \<le> int (length (insert_lines num ls ts)) + 1"
      "snd (alloc t)" "length (insert_lines num ls ts) + 1 < 2 ^ 30"
      using assms(8-10) count(1) k1 by (simp_all add: insert_lines_end(2) [OF assms(8,9)] alloc_def kept_def)
    from insert_behind [OF t(4,5) this, of r] obtain u where
      u: "insertLine (num + int (length ls)) r t = Some (u, True)" "edits u (insert_lines num (ls @ [r]) ts)" "others u = others t"
        "ed_mallocs u = []"
      using k1 unfolding insert_lines_end(1) [OF assms(8,9)] by (auto simp: kept_def)
    have "c_int (int (length (concat ls)) + int (length r)) = Some (int (length (concat ls)) + int (length r))"
      using arg_cong [OF count(2), of length] assms(10) by (simp add: c_int_def int_ok_def)
    with start False t(2,3) u(1) have "\<exists>m. readLines file num s = Some (say m u, True)"
      by (simp add: read_finish_def) (rule exI, rule refl)
    with u k1 f show ?thesis by (auto simp: kept_def others_def)
  qed
qed

section \<open>Writing\<close>

lemma result_usual: "ed_writes s = [] \<Longrightarrow> result n s = (s, n)"
  by (cases s) (simp add: result_def)

lemma write_loop_writes:
  assumes "ring s ps" "1 \<le> n1" "int n1 \<le> n2 + 1" "n2 \<le> int (length ps)" "ed_writes s = []" "ed_files s = fs @ [(file, c)]"
    and "0 \<le> chars"
    and "ts = take (nat n2 + 1 - n1) (drop (n1 - 1) (map (text_at s) ps))" "chars + int (length (concat ts)) < 2 ^ 31"
  shows "write_loop file (int n1) n2 (pos ps n1) lc chars s =
    Some (s\<lparr>ed_files := fs @ [(file, c @ concat ts)]\<rparr>, Some (lc + int (length ts), chars + int (length (concat ts))))"
  using assms
proof (induction "nat n2 + 1 - n1" arbitrary: n1 s c lc chars ts)
  case 0
  then have "\<not> int n1 \<le> n2" "ts = []" by auto
  with 0 show ?case by (simp add: write_loop.simps)
next
  case (Suc k)
  then have n1: "n1 \<le> nat n2" "int n1 \<le> n2" "n1 \<le> length ps" by auto
  from ring_block [OF Suc.prems(1,2) n1(3)] obtain b where
    b: "ed_heap s (pos ps n1) = Some b" "block_ok (ed_heap s (pos ps n1))" "ln_next b = pos ps (Suc n1)" .
  define x where "x = text_at s (pos ps n1)"
  have x: "line_text b = Some x" "ln_len b = int (length x)" "take (nat (ln_len b)) x = x"
    using block_text(1) [OF b(1,2)] b(1,2) by (auto simp: line_text_def x_def text_at_def block_ok_def)
  have "drop (n1 - 1) ps = ps ! (n1 - 1) # drop n1 ps" using Cons_nth_drop_Suc [of "n1 - 1" ps] Suc.prems(2) n1(3) by simp
  then have ts: "ts = x # take k (drop n1 (map (text_at s) ps))"
    unfolding Suc.prems(8) Suc.hyps(2) [symmetric] using Suc.prems(2) n1(3) by (simp add: drop_map pos_simps x_def)
  define u where "u = s\<lparr>ed_files := fs @ [(file, c @ x)]\<rparr>"
  have u: "ring u ps" "ed_writes u = []" "ed_files u = fs @ [(file, c @ x)]" "text_at u = text_at s"
    using Suc.prems(1,5) ring_same [of u s] by (simp_all add: u_def)
  have k: "k = nat n2 + 1 - Suc n1" "1 \<le> Suc n1" "int (Suc n1) \<le> n2 + 1" using Suc.hyps(2) n1 by simp_all
  have c: "0 \<le> chars + ln_len b" "c_int (chars + ln_len b) = Some (chars + ln_len b)"
    "chars + ln_len b + int (length (concat (take k (drop n1 (map (text_at s) ps))))) < 2 ^ 31"
    using Suc.prems(7,9) x(2) unfolding ts by (auto simp: c_int_def int_ok_def)
  have "write_loop file (int n1) n2 (pos ps n1) lc chars s =
      write_loop file (int (Suc n1)) n2 (pos ps (Suc n1)) (lc + 1) (chars + ln_len b) u"
    using Suc.prems(5,6) n1 b(1,3) x c(2)
    by (subst write_loop.simps) (simp add: result_usual write_file_def u_def add.commute)
  also have "\<dots> = Some (u\<lparr>ed_files := fs @ [(file, (c @ x) @ concat (take k (drop n1 (map (text_at s) ps))))]\<rparr>,
      Some (lc + 1 + int (length (take k (drop n1 (map (text_at s) ps)))),
        chars + ln_len b + int (length (concat (take k (drop n1 (map (text_at s) ps)))))))"
    using c(3) u(4) k(1) by (intro Suc.hyps(1) [OF k(1) u(1) k(2,3) Suc.prems(4) u(2,3) c(1)]) simp_all
  finally show ?case by (simp add: ts u_def x(2))
qed

lemma writeLines_writes:
  assumes "edits s ts" "1 \<le> n1" "n1 \<le> n2" "n2 \<le> int (length ts)" "ed_writes s = []" "length (concat ts) < 2 ^ 31"
  shows "\<exists>t. writeLines file n1 n2 s = Some (t, True) \<and>
    ed_files t = ed_files s @ [(file, concat (take (nat n2 + 1 - nat n1) (drop (nat n1 - 1) ts)))] \<and> edits t ts"
proof -
  from assms(1) obtain ps where ps: "ring s ps" "cursor_ok s ps" "ts = map (text_at s) ps" by (auto simp: edits_def)
  define u where "u = say (Out (DQUOTE # file @ [DQUOTE] @ '', '')) (s\<lparr>ed_files := ed_files s @ [(file, [])]\<rparr>)"
  have u: "ring u ps" "cursor_ok u ps" "text_at u = text_at s" "ed_writes u = []" "ed_files u = ed_files s @ [(file, [])]" "edits u ts"
    using ps(1,2) assms(1,5) by (simp_all add: u_def cursor_ok_def)
  have n: "1 \<le> nat n1" "int (nat n1) \<le> n2 + 1" "int (nat n1) = n1" "n2 \<le> int (length ps)" using assms(2-4) ps(3) by simp_all
  define us where "us = take (nat n2 + 1 - nat n1) (drop (nat n1 - 1) ts)"
  have us: "us = take (nat n2 + 1 - nat n1) (drop (nat n1 - 1) (map (text_at u) ps))" by (simp add: us_def ps(3) u(3))
  have "length (concat us) \<le> length (concat ts)"
    using arg_cong [OF append_take_drop_id [of "nat n1 - 1" ts], of "length \<circ> concat"]
      arg_cong [OF append_take_drop_id [of "nat n2 + 1 - nat n1" "drop (nat n1 - 1) ts"], of "length \<circ> concat"]
    by (simp add: us_def del: append_take_drop_id)
  then have "0 + int (length (concat us)) < 2 ^ 31" using assms(6) by simp
  from write_loop_writes [OF u(1) n(1,2,4) u(4,5) order_refl us this, of 0, unfolded n(3)]
  have loop: "write_loop file n1 n2 (pos ps (nat n1)) 0 0 u =
      Some (u\<lparr>ed_files := ed_files s @ [(file, concat us)]\<rparr>, Some (int (length us), int (length (concat us))))" by simp
  have find: "findLine n1 u = Some (u, pos ps (nat n1))" using findLine_ok [OF u(1,2) assms(2)] assms(3) n(4) by simp
  have folded: "say (Out (DQUOTE # file @ [DQUOTE, CHR '','', CHR '' ''])) (s\<lparr>ed_files := ed_files s @ [(file, [])]\<rparr>) = u"
    by (simp add: u_def)
  have range: "\<not> (n1 < 1 \<or> ed_lastNum s < n2 \<or> n2 < n1)" using assms(2-4) edits_cursor [OF assms(1)] by simp
  have "writeLines file n1 n2 s = Some (say (Out (read_count (int (length us)) False (int (length (concat us)))))
      (u\<lparr>ed_files := ed_files s @ [(file, concat us)]\<rparr>), True)"
    using range find loop pos_not_null [OF u(1)] u(4) folded assms(5) by (simp add: writeLines_def result_usual)
  with u(6) show ?thesis unfolding us_def [symmetric] by auto
qed

section \<open>Typed lines\<close>

text \<open>A line that can be typed: it fits the buffer and does not end the typing.\<close>

definition typeable :: "string \<Rightarrow> bool" where
  "typeable l \<longleftrightarrow> LF \<notin> set l \<and> NUL \<notin> set l \<and> l \<noteq> ''.'' \<and> int (length l) < USERSIZE"

lemma fgets_line:
  assumes "LF \<notin> set l" "int (length l) + 1 < n"
  shows "fgets n (l @ LF # rest) = Some (l @ [LF], rest)"
proof -
  have "takeWhile (\<lambda>c. c \<noteq> LF) (l @ LF # rest) = l" "dropWhile (\<lambda>c. c \<noteq> LF) (l @ LF # rest) = LF # rest"
    using assms(1) by (auto simp: takeWhile_append dropWhile_append)
  with assms(2) show ?thesis by (simp add: fgets_def Let_def)
qed

lemma addLines_ins_all:
  assumes "\<forall>l \<in> set ls. typeable l" "ins_all insertLine num (map (\<lambda>l. l @ [LF]) ls) s = Some t"
    and "0 \<le> num" "num + int (length ls) < 2 ^ 31"
  shows "addLines num (typed_lines ls @ ''.'' @ LF # rest) s = Some (t, rest)"
  using assms
proof (induction ls arbitrary: num s)
  case Nil
  have "fgets (USERSIZE + 1) (''.'' @ LF # rest) = Some (''.'' @ [LF], rest)" by (rule fgets_line) (simp_all add: USERSIZE_def)
  with Nil.prems(2) show ?case by (simp add: addLines.simps [of num] typed_lines_def)
next
  case (Cons l ls)
  let ?input = "typed_lines ls @ ''.'' @ LF # rest"
  have l: "LF \<notin> set l" "NUL \<notin> set l" "l \<noteq> ''.''" "int (length l) < USERSIZE" using Cons.prems(1) by (auto simp: typeable_def)
  have get: "fgets (USERSIZE + 1) (l @ LF # ?input) = Some (l @ [LF], ?input)" by (rule fgets_line) (use l(1,4) in simp_all)
  have str: "c_str (l @ [LF]) = l @ [LF]" using l(2) by (auto simp: c_str_def takeWhile_eq_all_conv)
  from Cons.prems(2) obtain u where u: "insertLine num (l @ [LF]) s = Some (u, True)"
    "ins_all insertLine (num + 1) (map (\<lambda>l. l @ [LF]) ls) u = Some t"
    by (auto simp: Option.bind_eq_Some_conv split: if_splits)
  have "c_int (num + 1) = Some (num + 1)" using Cons.prems(3,4) by (simp add: c_int_def int_ok_def)
  then have "addLines num (l @ LF # ?input) s = addLines (num + 1) ?input u"
    using get str u(1) l(3) by (subst addLines.simps) simp
  also have "\<dots> = Some (t, rest)" using Cons.prems u(2) by (intro Cons.IH) simp_all
  finally show ?case by (simp add: typed_lines_def)
qed

text \<open>
  After an insertion at or in front of the current line, as with the command \<open>i\<close>, the current line can be one
  line behind its number. The search for the next number then starts at it and finds the line behind the
  right one, so the next line goes there, and becomes a current line that is again one line behind.
\<close>

lemma insert_behind_gap:
  assumes r: "ring s ps" and c: "1 \<le> ed_curNum s" "ed_curNum s + 2 \<le> int (length ps)" "ed_curLine s = pos ps (nat (ed_curNum s) + 1)"
    and mem: "snd (alloc s)" and len: "length ps + 1 < 2 ^ 30"
  shows "\<exists>t qs. insertLine (ed_curNum s + 1) data s = Some (t, True) \<and> ring t qs \<and>
    map (text_at t) qs = insert_at (ed_curNum s + 2) data (map (text_at s) ps) \<and> ed_curNum t = ed_curNum s + 1 \<and>
    ed_curLine t = pos qs (nat (ed_curNum t) + 1) \<and> ed_mallocs t = tl (ed_mallocs s)"
proof -
  define k where "k = nat (ed_curNum s) + 2"
  let ?ps = "take (k - 1) ps @ ed_brk s # drop (k - 1) ps"
  have k: "1 \<le> k" "k \<le> length ps + 1" "nat (ed_curNum s + 1) + 1 = k" "length (take (k - 1) ps) = nat (ed_curNum s) + 1"
    using c(1,2) by (simp_all add: k_def)
  have n: "1 \<le> ed_curNum s + 1" "ed_curNum s + 1 \<le> int (length ps) + 1" using c(1,2) by simp_all
  have no: "\<not> ed_curNum s + 1 > int (length ps)" using c(2) by simp
  have "findLine (ed_curNum s + 1) u = Some (u, pos ps k)" if u: "ring u ps" "ed_curNum u = ed_curNum s" "ed_curLine u = ed_curLine s" for u
  proof -
    have "from_cursor (ed_curNum s + 1) u"
      using c(1,2) u(2) ring_last [OF u(1)] unfolding from_cursor_def by linarith
    with findLine_from [OF u(1), of "ed_curNum s + 1" 1] c u k(3) show ?thesis by simp
  qed
  with insertLine_links [OF r n k(1,2) mem len, of data] no obtain u where
    u: "insertLine (ed_curNum s + 1) data s = setCurNum (ed_curNum s + 1) u" "ring u ?ps"
      "map (text_at u) ?ps = map (text_at s) (take (k - 1) ps) @ data # map (text_at s) (drop (k - 1) ps)"
      "ed_curNum u = ed_curNum s" "ed_curLine u = ed_curLine s" "ed_mallocs u = tl (ed_mallocs s)" by blast
  have "nat (ed_curNum s) + 1 \<le> length (take (k - 1) ps)" unfolding k(4) by (rule order_refl)
  from pos_insert(1) [OF this, of "ed_brk s" "drop (k - 1) ps"]
  have "ed_curLine u = pos ?ps (nat (ed_curNum u) + 1)" using c(3) u(4,5) by simp
  moreover have size: "length ?ps = length ps + 1" by simp
  moreover have "from_cursor (ed_curNum s + 1) u"
    using c(1,2) u(4) ring_last [OF u(2)] size unfolding from_cursor_def by linarith
  moreover have "ed_curNum u \<le> int (length ?ps)" using c(2) u(4) by simp
  moreover have "ed_curNum s + 1 \<le> int (length ?ps)" using c(2) by simp
  moreover have "1 \<le> ed_curNum u" using c(1) u(4) by simp
  ultimately have "setCurNum (ed_curNum s + 1) u =
      Some (u\<lparr>ed_curNum := ed_curNum s + 1, ed_curLine := pos ?ps (nat (ed_curNum s + 1) + 1)\<rparr>, True)"
    using setCurNum_from [OF u(2) n(1), of 1] by metis
  moreover have "nat (ed_curNum s + 2) - 1 = k - 1" using c(1) by (simp add: k_def)
  ultimately show ?thesis using u
    by (intro exI [of _ "u\<lparr>ed_curNum := ed_curNum s + 1, ed_curLine := pos ?ps (nat (ed_curNum s + 1) + 1)\<rparr>"] exI [of _ ?ps])
      (simp add: insert_at_def take_map drop_map)
qed

text \<open>When there is only the moved line behind the number, the search starts at the end, and is right.\<close>

lemma pos_any:
  assumes "pos ps j = p"
  shows "\<exists>d. p = pos ps (i + d)" "\<exists>d. p = pos (take m ps @ n # drop m ps) (i + d)"
proof -
  have shift: "\<exists>d. pos qs e = pos qs (i + d)" for qs e
  proof
    show "pos qs e = pos qs (i + (e + i * length qs))"
      using mod_mult_self1 [of e i "Suc (length qs)"] by (simp add: pos_def algebra_simps)
  qed
  from shift [of ps j] assms show "\<exists>d. p = pos ps (i + d)" by simp
  let ?j = "j mod Suc (length ps)"
  have j: "p = pos ps ?j" "?j \<le> length ps" using assms by (simp_all add: pos_def less_Suc_eq_le [symmetric])
  have "\<exists>e. p = pos (take m ps @ n # drop m ps) e"
  proof (cases "?j \<le> length (take m ps)")
    case True
    then show ?thesis using pos_insert(1) [of ?j "take m ps" n "drop m ps"] j(1) by (intro exI [of _ ?j]) simp
  next
    case False
    then show ?thesis using pos_insert(2) [of "take m ps" ?j "drop m ps" n] j by (intro exI [of _ "Suc ?j"]) simp
  qed
  with shift show "\<exists>d. p = pos (take m ps @ n # drop m ps) (i + d)" by metis
qed

lemma insert_before_end:
  assumes r: "ring s ps" and c: "1 \<le> ed_curNum s" "int (length ps) = ed_curNum s + 1" "ed_curLine s = pos ps j"
    and mem: "snd (alloc s)" and len: "length ps + 1 < 2 ^ 30"
  shows "\<exists>t qs i. insertLine (ed_curNum s + 1) data s = Some (t, True) \<and> ring t qs \<and>
    map (text_at t) qs = insert_at (ed_curNum s + 1) data (map (text_at s) ps) \<and> ed_curNum t = ed_curNum s + 1 \<and>
    ed_curLine t = pos qs i \<and> ed_mallocs t = tl (ed_mallocs s)"
proof -
  define k where "k = nat (ed_curNum s) + 1"
  let ?ps = "take (k - 1) ps @ ed_brk s # drop (k - 1) ps"
  have k: "1 \<le> k" "k \<le> length ps + 1" "nat (ed_curNum s + 1) = k" using c(1,2) by (simp_all add: k_def)
  have n: "1 \<le> ed_curNum s + 1" "ed_curNum s + 1 \<le> int (length ps) + 1" using c(1,2) by simp_all
  have no: "\<not> ed_curNum s + 1 > int (length ps)" using c(2) by simp
  from pos_any [OF c(3) [symmetric]] obtain d e where
    d: "ed_curLine s = pos ps (nat (ed_curNum s) + d)" "ed_curLine s = pos ?ps (nat (ed_curNum s) + e)" by metis
  have "findLine (ed_curNum s + 1) u = Some (u, pos ps k)" if u: "ring u ps" "ed_curNum u = ed_curNum s" "ed_curLine u = ed_curLine s" for u
  proof -
    have "\<not> from_cursor (ed_curNum s + 1) u"
      using c(2) u(2) ring_last [OF u(1)] unfolding from_cursor_def by linarith
    with findLine_from [OF u(1) n(1), of d] c(1,2) d(1) u k(3) show ?thesis by simp
  qed
  with insertLine_links [OF r n k(1,2) mem len, of data] no obtain u where
    u: "insertLine (ed_curNum s + 1) data s = setCurNum (ed_curNum s + 1) u" "ring u ?ps"
      "map (text_at u) ?ps = map (text_at s) (take (k - 1) ps) @ data # map (text_at s) (drop (k - 1) ps)"
      "ed_curNum u = ed_curNum s" "ed_curLine u = ed_curLine s" "ed_mallocs u = tl (ed_mallocs s)" by blast
  have "1 \<le> ed_curNum u" "ed_curNum u \<le> int (length ?ps)" "ed_curNum s + 1 \<le> int (length ?ps)"
    "ed_curLine u = pos ?ps (nat (ed_curNum u) + e)" using c(1,2) d(2) u(4,5) k(1,2) by (simp_all add: min_def)
  from setCurNum_from [OF u(2) n(1) this(3,1,2,4)] obtain i where
    "setCurNum (ed_curNum s + 1) u = Some (u\<lparr>ed_curNum := ed_curNum s + 1, ed_curLine := pos ?ps i\<rparr>, True)" by blast
  moreover have "nat (ed_curNum s + 1) - 1 = k - 1" using k(3) by simp
  ultimately show ?thesis using u
    by (intro exI [of _ "u\<lparr>ed_curNum := ed_curNum s + 1, ed_curLine := pos ?ps i\<rparr>"] exI [of _ ?ps] exI [of _ i])
      (simp add: insert_at_def take_map drop_map)
qed

text \<open>The lines that follow the first one, in both cases.\<close>

lemma ins_all_gap:
  assumes "ring s ps" "1 \<le> ed_curNum s" "ed_curNum s + 2 \<le> int (length ps)" "ed_curLine s = pos ps (nat (ed_curNum s) + 1)"
    and "ed_mallocs s = []" "length ps + length xs < 2 ^ 30"
  shows "\<exists>t qs. ins_all insertLine (ed_curNum s + 1) xs s = Some t \<and> ring t qs \<and>
    map (text_at t) qs = insert_lines (ed_curNum s + 2) xs (map (text_at s) ps)"
  using assms
proof (induction xs arbitrary: s ps)
  case Nil
  then show ?case by (auto simp: insert_lines_def)
next
  case (Cons x xs)
  have "snd (alloc s)" "length ps + 1 < 2 ^ 30" using Cons.prems(5,6) by (simp_all add: alloc_def)
  from insert_behind_gap [OF Cons.prems(1-4) this, of x] obtain u qs where
    u: "insertLine (ed_curNum s + 1) x s = Some (u, True)" "ring u qs"
      "map (text_at u) qs = insert_at (ed_curNum s + 2) x (map (text_at s) ps)" "ed_curNum u = ed_curNum s + 1"
      "ed_curLine u = pos qs (nat (ed_curNum u) + 1)" "ed_mallocs u = tl (ed_mallocs s)" by blast
  have l: "length qs = length ps + 1" using arg_cong [OF u(3), of length] by simp
  have p: "1 \<le> ed_curNum u" "ed_curNum u + 2 \<le> int (length qs)" "ed_mallocs u = []" "length qs + length xs < 2 ^ 30"
    using Cons.prems(2,3,5,6) u(4,6) l by simp_all
  have n: "1 \<le> ed_curNum s + 2" "ed_curNum s + 2 \<le> int (length (map (text_at s) ps)) + 1" using Cons.prems(2,3) by simp_all
  from Cons.IH [OF u(2) p(1,2) u(5) p(3,4)] u(1,4) show ?case
    unfolding u(3,4) by (simp add: insert_lines_step(1) [OF n, symmetric] add.assoc)
qed

lemma ins_all_before_end:
  assumes "ring s ps" "1 \<le> ed_curNum s" "int (length ps) = ed_curNum s + 1" "ed_curLine s = pos ps j"
    and "ed_mallocs s = []" "length ps + length xs < 2 ^ 30"
  shows "\<exists>t qs. ins_all insertLine (ed_curNum s + 1) xs s = Some t \<and> ring t qs \<and>
    map (text_at t) qs = insert_lines (ed_curNum s + 1) xs (map (text_at s) ps)"
  using assms
proof (induction xs arbitrary: s ps j)
  case Nil
  then show ?case by (auto simp: insert_lines_def)
next
  case (Cons x xs)
  have "snd (alloc s)" "length ps + 1 < 2 ^ 30" using Cons.prems(5,6) by (simp_all add: alloc_def)
  from insert_before_end [OF Cons.prems(1-4) this, of x] obtain u qs i where
    u: "insertLine (ed_curNum s + 1) x s = Some (u, True)" "ring u qs"
      "map (text_at u) qs = insert_at (ed_curNum s + 1) x (map (text_at s) ps)" "ed_curNum u = ed_curNum s + 1"
      "ed_curLine u = pos qs i" "ed_mallocs u = tl (ed_mallocs s)" by blast
  have l: "length qs = length ps + 1" using arg_cong [OF u(3), of length] by simp
  have p: "1 \<le> ed_curNum u" "int (length qs) = ed_curNum u + 1" "ed_mallocs u = []" "length qs + length xs < 2 ^ 30"
    using Cons.prems(2,3,5,6) u(4,6) l by simp_all
  have n: "1 \<le> ed_curNum s + 1" "ed_curNum s + 1 \<le> int (length (map (text_at s) ps)) + 1" using Cons.prems(2,3) by simp_all
  from Cons.IH [OF u(2) p(1,2) u(5) p(3,4)] u(1,4) show ?case
    unfolding u(3,4) by (simp add: insert_lines_step(1) [OF n, symmetric] add.assoc)
qed

text \<open>Whether the lines that are inserted at \<open>num\<close> stay together.\<close>

definition in_order :: "int \<Rightarrow> int \<Rightarrow> int \<Rightarrow> bool" where
  "in_order cur num n \<longleftrightarrow> cur < num \<or> num < cur div 2 \<or> num = n"

lemma ins_all_texts:
  assumes "edits s ts" "ed_mallocs s = []" "1 \<le> num" "num \<le> int (length ts) + 1" "length ts + length xs < 2 ^ 30"
  shows "\<exists>t ps. ins_all insertLine num xs s = Some t \<and> ring t ps \<and>
    map (text_at t) ps = (if in_order (ed_curNum s) num (int (length ts)) then insert_lines num xs ts
      else insert_lines (num + 2) (tl xs) (insert_lines num (take 1 xs) ts))"
proof (cases xs)
  case Nil
  with assms(1) show ?thesis by (auto simp: edits_def insert_lines_def)
next
  case (Cons x ys)
  have "snd (alloc s)" "length ts + 1 < 2 ^ 30" using assms(2,5) Cons by (simp_all add: alloc_def)
  from insert_edits [OF assms(1,3,4) this, of x] obtain u ps where
    u: "insertLine num x s = Some (u, True)" "ring u ps" "map (text_at u) ps = insert_at num x ts" "ed_curNum u = num"
      "ed_curLine u = pos ps (lands (ed_curNum s) num)" "ed_mallocs u = tl (ed_mallocs s)" by blast
  have l: "length ps = length ts + 1" using arg_cong [OF u(3), of length] by simp
  have step: "insert_lines (num + 1) ys (insert_at num x ts) = insert_lines num xs ts" "insert_at num x ts = insert_lines num (take 1 xs) ts"
    using insert_lines_step(1) [OF assms(3,4), of ys x] by (simp_all add: Cons insert_at_def insert_lines_def)
  have m: "ed_mallocs u = []" "length ps + length ys < 2 ^ 30" using u(6) assms(2,5) l Cons by simp_all
  have ins: "ins_all insertLine num xs s = ins_all insertLine (num + 1) ys u" using u(1) by (simp add: Cons)
  consider (right) "ed_curNum s < num \<or> num < ed_curNum s div 2" | (last) "num = int (length ts)"
    | (gap) "\<not> in_order (ed_curNum s) num (int (length ts))" "num < int (length ts)"
    using assms(4) edits_cursor [OF assms(1)] unfolding in_order_def by linarith
  then show ?thesis
  proof cases
    case right
    then have "ed_curLine u = pos ps (nat num)" using u(5) by (auto simp: lands_def)
    then have "edits u (insert_at num x ts)" using u(2,3,4) l assms(3,4) by (auto simp: edits_def cursor_ok_def intro!: exI [of _ ps])
    then have "editing (others u) u (insert_at num x ts) num" using u(4) m(1) by (simp add: editing_def)
    from lines.ins_all_holds [OF this, of "num + 1" ys] assms(3,4) m(2) l obtain t where
      "ins_all insertLine (num + 1) ys u = Some t" "edits t (insert_lines (num + 1) ys (insert_at num x ts))"
      by (auto simp: editing_def)
    with right step ins show ?thesis by (auto simp: edits_def in_order_def)
  next
    case last
    then have "int (length ps) = ed_curNum u + 1" "1 \<le> ed_curNum u" using l u(4) assms(3) by simp_all
    from ins_all_before_end [OF u(2) this(2,1) u(5) m] last step ins u(3,4) show ?thesis by (auto simp: in_order_def)
  next
    case gap
    then have "ed_curNum u + 2 \<le> int (length ps)" "1 \<le> ed_curNum u" using l u(4) assms(3) by simp_all
    moreover have "ed_curLine u = pos ps (nat (ed_curNum u) + 1)" using gap u(4,5) by (auto simp: lands_def in_order_def)
    ultimately show ?thesis using ins_all_gap [OF u(2) _ _ _ m] gap step ins u(3,4) by (simp add: Cons)
  qed
qed

text \<open>
  C39. The commands that take typed lines read them up to the line with the dot alone and leave the rest of
  the input. The lines go to their number, together and in order, exactly as they were typed, when this
  is behind the current line or in the first half before it, or is the last line; else, for
  instance for \<open>i\<close> at a current line that is not the last one, the first line goes there and the others
  go behind the line that was there, because of the wrong current line of C11. Behind the current line, the
  last typed line becomes the current one, and the editor goes on with a consistent text.
\<close>

theorem addLines_adds:
  assumes "edits s ts" "ed_mallocs s = []" "1 \<le> num" "num \<le> int (length ts) + 1"
    and "\<forall>l \<in> set ls. typeable l" "length ts + length ls < 2 ^ 30"
  defines "xs \<equiv> map (\<lambda>l. l @ [LF]) ls"
  shows "\<exists>t ps. addLines num (typed_lines ls @ ''.'' @ LF # rest) s = Some (t, rest) \<and> ring t ps \<and>
    map (text_at t) ps = (if in_order (ed_curNum s) num (int (length ts)) then insert_lines num xs ts
      else insert_lines (num + 2) (tl xs) (insert_lines num (take 1 xs) ts)) \<and>
    (ed_curNum s < num \<longrightarrow> edits t (insert_lines num xs ts) \<and> (ls \<noteq> [] \<longrightarrow> ed_curNum t = num + int (length ls) - 1))"
proof -
  have "length ts + length xs < 2 ^ 30" using assms(6) by (simp add: xs_def)
  from ins_all_texts [OF assms(1-4) this] obtain t ps where
    t: "ins_all insertLine num xs s = Some t" "ring t ps" "map (text_at t) ps =
      (if in_order (ed_curNum s) num (int (length ts)) then insert_lines num xs ts
       else insert_lines (num + 2) (tl xs) (insert_lines num (take 1 xs) ts))" by blast
  have "edits t (insert_lines num xs ts) \<and> (ls \<noteq> [] \<longrightarrow> ed_curNum t = num + int (length ls) - 1)" if "ed_curNum s < num"
  proof -
    have "editing (others s) s ts (ed_curNum s)" "length ts + length xs \<le> 2 ^ 30 - 1"
      using assms(1,2,6) by (simp_all add: editing_def xs_def)
    from lines.ins_all_holds [OF this(1) that assms(3,4) this(2)] t(1) show ?thesis by (auto simp: editing_def xs_def)
  qed
  with addLines_ins_all [OF assms(5) t(1) [unfolded xs_def], of rest] t(2,3) assms(3,4,6) show ?thesis by auto
qed

text \<open>
  Behind the current line of an empty text, and in front of the second of three lines, which is the current one:
  there the old second line stands between the two typed ones.
\<close>

theorem addLines_adds_witness:
  "(\<exists>s t. addLines 1 (typed_lines [''one'', ''two''] @ ''.'' @ LF # ''q'') s = Some (t, ''q'') \<and>
     edits t [''one'' @ [LF], ''two'' @ [LF]] \<and> ed_curNum t = 2) \<and>
   (\<exists>s t ps. edits s [''A'' @ [LF], ''B'' @ [LF], ''C'' @ [LF]] \<and> ed_curNum s = 2 \<and>
     addLines 2 (typed_lines [''X'', ''Y''] @ ''.'' @ LF # ''q'') s = Some (t, ''q'') \<and> ring t ps \<and>
     map (text_at t) ps = [''A'' @ [LF], ''X'' @ [LF], ''B'' @ [LF], ''Y'' @ [LF], ''C'' @ [LF]])"
proof
  let ?s = "fst (initEdit (Some ''xx'') ed_start)"
  have s: "edits ?s []" "ed_mallocs ?s = []" by (rule start_edits)+
  have "ed_curNum ?s < 1" "\<forall>l \<in> set [''one'', ''two'']. typeable l" "length ([] :: string list) + length [''one'', ''two''] < 2 ^ 30"
    using edits_cursor [OF s(1)] by (simp_all add: typeable_def USERSIZE_def)
  from addLines_adds [OF s _ _ this(2,3), of 1 "''q''"] this(1) obtain t where
    "addLines 1 (typed_lines [''one'', ''two''] @ ''.'' @ LF # ''q'') ?s = Some (t, ''q'')"
    "edits t [''one'' @ [LF], ''two'' @ [LF]]" "ed_curNum t = 2" by (auto simp: insert_lines_def)
  then show "\<exists>s t. addLines 1 (typed_lines [''one'', ''two''] @ ''.'' @ LF # ''q'') s = Some (t, ''q'') \<and>
     edits t [''one'' @ [LF], ''two'' @ [LF]] \<and> ed_curNum t = 2" by blast
next
  let ?ts = "[''A'' @ [LF], ''B'' @ [LF], ''C'' @ [LF]]"
  from edits_exist [where us = ?ts, OF start_edits(2,1)] obtain u where
    u: "edits u ?ts" "ed_mallocs u = []" by auto
  from u(1) obtain ps where ps: "ring u ps" "cursor_ok u ps" "?ts = map (text_at u) ps" by (auto simp: edits_def)
  have "length ps = 3" using arg_cong [OF ps(3), of length] by simp
  with setCurNum_ok [OF ps(1,2), of 2] ps have
    s: "edits (u\<lparr>ed_curNum := 2, ed_curLine := pos ps 2\<rparr>) ?ts" by (auto simp: edits_def cursor_ok_def intro!: exI [of _ ps])
  let ?s = "u\<lparr>ed_curNum := 2, ed_curLine := pos ps 2\<rparr>"
  have "\<forall>l \<in> set [''X'', ''Y'']. typeable l" "length ?ts + length [''X'', ''Y''] < 2 ^ 30" "ed_mallocs ?s = []"
    by (simp_all add: typeable_def USERSIZE_def u(2))
  from addLines_adds [OF s this(3) _ _ this(1,2), of 2 "''q''"] obtain t qs where
    "addLines 2 (typed_lines [''X'', ''Y''] @ ''.'' @ LF # ''q'') ?s = Some (t, ''q'')" "ring t qs"
    "map (text_at t) qs = [''A'' @ [LF], ''X'' @ [LF], ''B'' @ [LF], ''Y'' @ [LF], ''C'' @ [LF]]"
    by (auto simp: insert_lines_def in_order_def)
  moreover have "ed_curNum ?s = 2" by simp
  ultimately show "\<exists>s t ps. edits s ?ts \<and> ed_curNum s = 2 \<and>
     addLines 2 (typed_lines [''X'', ''Y''] @ ''.'' @ LF # ''q'') s = Some (t, ''q'') \<and> ring t ps \<and>
     map (text_at t) ps = [''A'' @ [LF], ''X'' @ [LF], ''B'' @ [LF], ''Y'' @ [LF], ''C'' @ [LF]]"
    using s by (intro exI [of _ ?s] exI [of _ t] exI [of _ qs]) (simp only: simp_thms)
qed

section \<open>A file goes through the editor\<close>

text \<open>
  C14. A regular file that the editor reads and writes again comes out with the same bytes, whatever they are: lines
  of any length, a last line without a line feed, NUL bytes; and in between the text of the editor is
  the list of its lines.
\<close>

theorem file_roundtrip:
  assumes "edits s []" "ed_mallocs s = []" "ed_ints s = []" "ed_writes s = []" "ed_buf s = Some buf" "2 \<le> length buf"
    and "ed_opens s = [Some (content, [])]" "content \<noteq> []" "length content < 2 ^ 29"
  shows "\<exists>t u. readLines file 1 s = Some (t, True) \<and> edits t (file_lines content) \<and>
    writeLines out 1 (ed_lastNum t) t = Some (u, True) \<and> edits u (file_lines content) \<and> ed_files u = ed_files s @ [(out, content)]"
proof -
  have "ed_curNum s < 1" "(1::int) \<le> int (length ([] :: string list)) + 1" "length ([] :: string list) + length content < 2 ^ 29"
    using edits_cursor [OF assms(1)] assms(9) by simp_all
  from readLines_reads [OF assms(1-3,5-7) this(1) order_refl this(2,3)] obtain t where
    t: "readLines file 1 s = Some (t, True)" "edits t (file_lines content)" "ed_writes t = []" "ed_files t = ed_files s"
    using assms(4) by (auto simp: insert_lines_def kept_def)
  have last: "ed_lastNum t = int (length (file_lines content))" using edits_cursor [OF t(2)] by simp
  have "file_lines content \<noteq> []" using concat_file_lines [of content] assms(8) by auto
  then have "1 \<le> ed_lastNum t" "ed_lastNum t \<le> int (length (file_lines content))" "length (concat (file_lines content)) < 2 ^ 31"
    using last assms(9) by (simp_all add: concat_file_lines Suc_leI)
  from writeLines_writes [OF t(2) order_refl this(1,2) t(3) this(3)] t last show ?thesis by (auto simp: concat_file_lines)
qed

theorem file_roundtrip_witness:
  "\<exists>s t u. readLines ''a'' 1 s = Some (t, True) \<and> edits t [''x'' @ [LF], [LF], [NUL] @ ''y''] \<and>
    writeLines ''b'' 1 3 t = Some (u, True) \<and> ed_files u = [(''b'', ''x'' @ [LF, LF, NUL] @ ''y'')]"
proof -
  define c where "c = ''x'' @ [LF, LF, NUL] @ ''y''"
  define s where "s = (fst (initEdit (Some ''xx'') ed_start))\<lparr>ed_opens := [Some (c, [])]\<rparr>"
  have e: "edits s []" using start_edits(1) [of "''xx''"] by (simp only: s_def edits_update)
  have s: "ed_mallocs s = []" "ed_ints s = []" "ed_writes s = []" "ed_buf s = Some ''xx''" "ed_opens s = [Some (c, [])]"
      "ed_files s = []"
    by (simp_all add: s_def initEdit_def ed_start_def)
  have c: "file_lines c = [''x'' @ [LF], [LF], [NUL] @ ''y'']" by (simp add: c_def) code_simp
  have "2 \<le> length ''xx''" "c \<noteq> []" "length c < 2 ^ 29" by (simp_all add: c_def)
  from file_roundtrip [OF e s(1-4) this(1) s(5) this(2,3), of "''a''" "''b''"] obtain t u where
    t: "readLines ''a'' 1 s = Some (t, True)" "edits t (file_lines c)" "writeLines ''b'' 1 (ed_lastNum t) t = Some (u, True)"
      "ed_files u = [(''b'', c)]" unfolding s(6) by auto
  have "ed_lastNum t = 3" using edits_cursor [OF t(2)] by (simp add: c)
  with t show ?thesis unfolding c unfolding c_def by auto
qed

end
