(* ===== verification/Font_Make.thy ===== *)
theory Font_Make
  imports Font Blocks
begin

text \<open>
  libfbpads/fbpad_mkfn: the tool that makes the fonts (mkfn.c with the back end mkfn_stb.c). It collects
  the codes of the glyphs that the loaded fonts have, sorts them, and writes header, codes
  and bitmaps. The answers of the library stb_truetype are the fields of the record \<open>stb\<close>;
  what is in the fonts is not known, only that a picture fits where the tool has it drawn. The place of a
  picture is computed with unbounded integers.
  \<open>font_roundtrip\<close> shows that \<open>Font\<close> reads the written file back as the map from codes to
  rendered pictures.
\<close>

section \<open>The tables\<close>

definition chars :: "(int \<times> int) list" where
  "chars = [
    (0x0000, 0x007f), (0x0080, 0x00ff), (0x0100, 0x017f), (0x0180, 0x024f),
    (0x0250, 0x02af), (0x02b0, 0x02ff), (0x0300, 0x036f), (0x0370, 0x03ff),
    (0x0400, 0x04ff), (0x0500, 0x052f), (0x0530, 0x058f), (0x0590, 0x05ff),
    (0x0600, 0x06ff), (0x0700, 0x074f), (0x0750, 0x077f), (0x0780, 0x07bf),
    (0x07c0, 0x07ff), (0x0800, 0x083f), (0x0900, 0x097f), (0x0980, 0x09ff),
    (0x0a00, 0x0a7f), (0x0a80, 0x0aff), (0x0b00, 0x0b7f), (0x0b80, 0x0bff),
    (0x0c00, 0x0c7f), (0x0c80, 0x0cff), (0x0d00, 0x0d7f), (0x0d80, 0x0dff),
    (0x0e00, 0x0e7f), (0x0e80, 0x0eff), (0x0f00, 0x0fff), (0x1000, 0x109f),
    (0x10a0, 0x10ff), (0x1100, 0x11ff), (0x1200, 0x137f), (0x1380, 0x139f),
    (0x13a0, 0x13ff), (0x1400, 0x167f), (0x1680, 0x169f), (0x16a0, 0x16ff),
    (0x1700, 0x171f), (0x1720, 0x173f), (0x1740, 0x175f), (0x1760, 0x177f),
    (0x1780, 0x17ff), (0x1800, 0x18af), (0x18b0, 0x18ff), (0x1900, 0x194f),
    (0x1950, 0x197f), (0x1980, 0x19df), (0x19e0, 0x19ff), (0x1a00, 0x1a1f),
    (0x1a20, 0x1aaf), (0x1b00, 0x1b7f), (0x1b80, 0x1bbf), (0x1c00, 0x1c4f),
    (0x1c50, 0x1c7f), (0x1cd0, 0x1cff), (0x1d00, 0x1d7f), (0x1d80, 0x1dbf),
    (0x1dc0, 0x1dff), (0x1e00, 0x1eff), (0x1f00, 0x1fff), (0x2000, 0x206f),
    (0x2070, 0x209f), (0x20a0, 0x20cf), (0x20d0, 0x20ff), (0x2100, 0x214f),
    (0x2150, 0x218f), (0x2190, 0x21ff), (0x2200, 0x22ff), (0x2300, 0x23ff),
    (0x2400, 0x243f), (0x2440, 0x245f), (0x2460, 0x24ff), (0x2500, 0x257f),
    (0x2580, 0x259f), (0x25a0, 0x25ff), (0x2600, 0x26ff), (0x2700, 0x27bf),
    (0x27c0, 0x27ef), (0x27f0, 0x27ff), (0x2800, 0x28ff), (0x2900, 0x297f),
    (0x2980, 0x29ff), (0x2a00, 0x2aff), (0x2b00, 0x2bff), (0x2c00, 0x2c5f),
    (0x2c60, 0x2c7f), (0x2c80, 0x2cff), (0x2d00, 0x2d2f), (0x2d30, 0x2d7f),
    (0x2d80, 0x2ddf), (0x2de0, 0x2dff), (0x2e00, 0x2e7f), (0x2e80, 0x2eff),
    (0x2f00, 0x2fdf), (0x2ff0, 0x2fff), (0x3000, 0x303f), (0x3040, 0x309f),
    (0x30a0, 0x30ff), (0x3100, 0x312f), (0x3130, 0x318f), (0x3190, 0x319f),
    (0x31a0, 0x31bf), (0x31c0, 0x31ef), (0x31f0, 0x31ff), (0x3200, 0x32ff),
    (0x3300, 0x33ff), (0x3400, 0x9fff), (0xa000, 0xa48f), (0xa490, 0xa4cf),
    (0xa4d0, 0xa4ff), (0xa500, 0xa63f), (0xa640, 0xa69f), (0xa6a0, 0xa6ff),
    (0xa700, 0xa71f), (0xa720, 0xa7ff), (0xa800, 0xa82f), (0xa830, 0xa83f),
    (0xa840, 0xa87f), (0xa880, 0xa8df), (0xa8e0, 0xa8ff), (0xa900, 0xa92f),
    (0xa930, 0xa95f), (0xa960, 0xa97f), (0xa980, 0xa9df), (0xaa00, 0xaa5f),
    (0xaa60, 0xaa7f), (0xac00, 0xd7ff), (0xd800, 0xdb7f), (0xdc00, 0xdfff),
    (0xf900, 0xfaff), (0xfb00, 0xfb4f), (0xfb50, 0xfdff), (0xfe00, 0xfe0f),
    (0xfe10, 0xfe1f), (0xfe20, 0xfe2f), (0xfe30, 0xfe4f), (0xfe50, 0xfe6f),
    (0xfe70, 0xfeff), (0xff00, 0xffef), (0xfff0, 0xffff)]"

definition mk_dwchars :: "(int \<times> int) list" where
  "mk_dwchars = [
    (0x1100, 0x115f), (0x11a3, 0x11a7), (0x11fa, 0x11ff), (0x2329, 0x232a),
    (0x2e80, 0x2e99), (0x2e9b, 0x2ef3), (0x2f00, 0x2fd5), (0x2ff0, 0x2ffb),
    (0x3000, 0x3029), (0x3030, 0x303e), (0x3041, 0x3096), (0x309b, 0x30ff),
    (0x3105, 0x312d), (0x3131, 0x318e), (0x3190, 0x31b7), (0x31c0, 0x31e3),
    (0x31f0, 0x321e), (0x3220, 0x3247), (0x3250, 0x32fe), (0x3300, 0x4dbf),
    (0x4e00, 0xa48c), (0xa490, 0xa4c6), (0xa960, 0xa97c), (0xac00, 0xd7a3),
    (0xd7b0, 0xd7c6), (0xd7cb, 0xd7fb), (0xf900, 0xfaff), (0xfe10, 0xfe19),
    (0xfe30, 0xfe52), (0xfe54, 0xfe66), (0xfe68, 0xfe6b), (0xff01, 0xff60),
    (0xffe0, 0xffe6), (0x1f200, 0x1f200), (0x1f210, 0x1f231), (0x1f240, 0x1f248)]"

definition mk_isdw :: "int \<Rightarrow> bool option" where
  "mk_isdw c = (if c \<ge> 0x1100 then find c mk_dwchars (int (length mk_dwchars)) else Some False)"

interpretation mkdw: range_table mk_dwchars
  by unfold_locales (simp_all add: mk_dwchars_def)

interpretation glyph_ranges: range_table chars
  by unfold_locales (simp_all add: chars_def)

lemma mk_isdw_correct: "mk_isdw c = Some (in_ranges c mk_dwchars)"
proof -
  have "\<not> in_ranges c mk_dwchars" if "c < 0x1100"
    by (rule mkdw.below_head) (use that in \<open>simp add: mk_dwchars_def\<close>)
  then show ?thesis by (auto simp: mk_isdw_def mkdw.find_correct)
qed

section \<open>Rendering\<close>

definition NGLYPHS :: nat where "NGLYPHS = 2 ^ 14"

definition MKFN_DWCHAR :: int where "MKFN_DWCHAR = 0x40000000"

text \<open>
  The loaded fonts: their number, and for each the glyph of a character (0 when there is none), the
  corner of its box, the base line for a height, the drawn rows for a space of \<open>nr\<close> rows and \<open>nc\<close>
  columns, and the settings of the command line.
\<close>

record stb =
  sb_cnt :: nat
  sb_glyph :: "nat \<Rightarrow> int \<Rightarrow> int"
  sb_box :: "nat \<Rightarrow> int \<Rightarrow> int \<times> int"
  sb_base :: "nat \<Rightarrow> int \<Rightarrow> int"
  sb_draw :: "nat \<Rightarrow> int \<Rightarrow> int \<Rightarrow> int \<Rightarrow> 8 word list list"
  sb_sr :: "nat \<Rightarrow> int"
  sb_sc :: "nat \<Rightarrow> int"
  sb_bold :: "nat \<Rightarrow> bool"

definition LIMIT :: "int \<Rightarrow> int \<Rightarrow> int \<Rightarrow> int" where
  "LIMIT n a b = (if n < a then a else if n > b then b else n)"

fun find_font :: "stb \<Rightarrow> int \<Rightarrow> nat list \<Rightarrow> (nat \<times> int) option" where
  "find_font st c [] = None"
| "find_font st c (i # is) =
     (let g = sb_glyph st i (and c (not MKFN_DWCHAR)) in if g > 0 then Some (i, g) else find_font st c is)"

definition embolden_pixel :: "int \<Rightarrow> 8 word list \<Rightarrow> 8 word list option" where
  "embolden_pixel idx bits = do {
     v0 \<leftarrow> rd bits idx;
     v1 \<leftarrow> rd bits (idx + 1);
     wr bits (idx + 1) (max v0 v1) }"

definition mkfn_embolden :: "int \<Rightarrow> int \<Rightarrow> 8 word list \<Rightarrow> 8 word list option" where
  "mkfn_embolden rows cols =
     for_range 0 rows (\<lambda>i. for_list (\<lambda>j. embolden_pixel (i * cols + j)) (rev [0..cols - 2]))"

text \<open>\<open>stbtt_MakeGlyphBitmap\<close> writes its rows with the distance \<open>cols\<close>.\<close>

fun put_rows :: "int \<Rightarrow> int \<Rightarrow> 8 word list list \<Rightarrow> 8 word list \<Rightarrow> 8 word list option" where
  "put_rows cols p [] m = Some m"
| "put_rows cols p (r # rs) m = do { m1 \<leftarrow> mem_put m p r; put_rows cols (p + cols) rs m1 }"

text \<open>Without a buffer only the question is answered whether there is a glyph: 0 when there is.\<close>

definition mkfn_bitmap :: "stb \<Rightarrow> 8 word list option \<Rightarrow> int \<Rightarrow> int \<Rightarrow> int \<Rightarrow> (8 word list option \<times> int) option" where
  "mkfn_bitmap st dst c rows cols =
     (case find_font st c [0..<sb_cnt st] of
        None \<Rightarrow> Some (dst, 1)
      | Some (i, g) \<Rightarrow>
          (case dst of
             None \<Rightarrow> Some (None, 0)
           | Some bits \<Rightarrow> do {
               let (x0, y0) = sb_box st i g;
               let sr = LIMIT (sb_base st i rows + y0 + sb_sr st i) 0 rows;
               let sc = LIMIT (x0 + sb_sc st i) 0 cols;
               b1 \<leftarrow> mem_fill bits 0 (rows * cols) 0;
               b2 \<leftarrow> put_rows cols (sr * cols + sc) (sb_draw st i g (rows - sr) (cols - sc)) b1;
               b3 \<leftarrow> (if sb_bold st i then mkfn_embolden rows cols b2 else Some b2);
               Some (Some b3, 0) }))"

section \<open>The codes\<close>

definition push_glyph :: "int \<Rightarrow> int list \<Rightarrow> int list option" where
  "push_glyph c gs = (if length gs < NGLYPHS then Some (gs @ [c]) else None)"

definition has_glyph :: "stb \<Rightarrow> int \<Rightarrow> int \<Rightarrow> int \<Rightarrow> bool option" where
  "has_glyph st j rows cols = map_option (\<lambda>(_, r). r = 0) (mkfn_bitmap st None j rows cols)"

function glyph_range :: "stb \<Rightarrow> int \<Rightarrow> int \<Rightarrow> int \<Rightarrow> int \<Rightarrow> int list \<Rightarrow> int list option" where
  "glyph_range st rows cols j hi gs =
     (if j \<le> hi \<and> length gs < NGLYPHS then do {
        h \<leftarrow> has_glyph st j rows cols;
        gs1 \<leftarrow> (if h then push_glyph j gs else Some gs);
        dw \<leftarrow> mk_isdw j;
        gs2 \<leftarrow> (if h \<and> dw then push_glyph (or MKFN_DWCHAR j) gs1 else Some gs1);
        glyph_range st rows cols (j + 1) hi gs2 }
      else Some gs)"
  by pat_completeness auto

termination
  by (relation "measure (\<lambda>(st, rows, cols, j, hi, gs). nat (hi + 1 - j))") auto

declare glyph_range.simps [simp del]

fun glyph_blocks :: "stb \<Rightarrow> int \<Rightarrow> int \<Rightarrow> (int \<times> int) list \<Rightarrow> int list \<Rightarrow> int list option" where
  "glyph_blocks st rows cols [] gs = Some gs"
| "glyph_blocks st rows cols ((lo, hi) # bs) gs = do {
     gs1 \<leftarrow> glyph_range st rows cols lo hi gs;
     glyph_blocks st rows cols bs gs1 }"

definition fn_glyphs_of :: "stb \<Rightarrow> int \<Rightarrow> int \<Rightarrow> int list option" where
  "fn_glyphs_of st rows cols = glyph_blocks st rows cols chars []"

section \<open>The file\<close>

definition intcmp :: "int \<Rightarrow> int \<Rightarrow> int option" where
  "intcmp v1 v2 = c_int (v1 - v2)"

text \<open>
  \<open>qsort\<close> of the C library: defined when the comparison is, for any two of the items, and then the list in
  the order of the comparison.
\<close>

definition qsort_ints :: "int list \<Rightarrow> int list option" where
  "qsort_ints gs = (if \<forall>a \<in> set gs. \<forall>b \<in> set gs. intcmp a b \<noteq> None then Some (sort gs) else None)"

definition int_bytes :: "int \<Rightarrow> 8 word list" where
  "int_bytes i = le_bytes (word_of_int i)"

definition signature :: "8 word list" where
  "signature = map (\<lambda>c. word_of_int (code c)) ''tinyfont''"

fun write_bitmaps :: "stb \<Rightarrow> int \<Rightarrow> int \<Rightarrow> int list \<Rightarrow> 8 word list \<Rightarrow> 8 word list \<Rightarrow> 8 word list option" where
  "write_bitmaps st rows cols [] buf out = Some out"
| "write_bitmaps st rows cols (c # cs) buf out = do {
     (dst, _) \<leftarrow> mkfn_bitmap st (Some buf) c rows cols;
     buf1 \<leftarrow> dst;
     b \<leftarrow> mem_get buf1 0 (rows * cols);
     write_bitmaps st rows cols cs buf1 (out @ b) }"

text \<open>\<open>buf\<close> is the block that \<open>malloc\<close> returns; every write succeeds.\<close>

definition output_font :: "stb \<Rightarrow> int \<Rightarrow> int \<Rightarrow> 8 word list \<Rightarrow> 8 word list option" where
  "output_font st rows cols buf = do {
     gs \<leftarrow> fn_glyphs_of st rows cols;
     codes \<leftarrow> qsort_ints gs;
     write_bitmaps st rows cols codes buf
       (signature @ int_bytes 0 @ int_bytes (int (length gs)) @ int_bytes rows @ int_bytes cols @ concat (map int_bytes codes)) }"

section \<open>The list of codes\<close>

lemma dwchar_or:
  assumes "0 \<le> j" "j < 2 ^ 30"
  shows "or MKFN_DWCHAR j = j + 2 ^ 30" "and (or MKFN_DWCHAR j) (not MKFN_DWCHAR) = j" "and j (not MKFN_DWCHAR) = j"
proof -
  have d: "MKFN_DWCHAR = 2 ^ 30" by (simp add: MKFN_DWCHAR_def)
  have j: "\<not> bit j n" if "30 \<le> n" for n
  proof -
    have "take_bit 30 j = j" using assms by (simp add: take_bit_int_eq_self)
    then show ?thesis using that by (metis bit_take_bit_iff not_less)
  qed
  have b: "bit MKFN_DWCHAR n \<longleftrightarrow> n = 30" for n unfolding d bit_exp_iff by auto
  have "and MKFN_DWCHAR j = 0" by (rule bit_eqI) (auto simp: bit_and_iff b j)
  then show "or MKFN_DWCHAR j = j + 2 ^ 30" using disjunctive_add_eq_or [of MKFN_DWCHAR j] by (simp add: d)
  show "and (or MKFN_DWCHAR j) (not MKFN_DWCHAR) = j" "and j (not MKFN_DWCHAR) = j"
    by (rule bit_eqI; auto simp: bit_and_iff bit_or_iff bit_not_iff b j)+
qed

definition has_char :: "stb \<Rightarrow> int \<Rightarrow> bool" where
  "has_char st j \<longleftrightarrow> find_font st j [0..<sb_cnt st] \<noteq> None"

definition code_list :: "stb \<Rightarrow> int list \<Rightarrow> int list" where
  "code_list st js = concat (map (\<lambda>j. if has_char st j then j # (if in_ranges j mk_dwchars then [or MKFN_DWCHAR j] else []) else []) js)"

definition all_codes :: "int list" where
  "all_codes = concat (map (\<lambda>(lo, hi). [lo..hi]) chars)"

lemma has_glyph_has: "has_glyph st j rows cols = Some (has_char st j)"
  by (auto simp: has_glyph_def has_char_def mkfn_bitmap_def split: option.split)

lemma code_list_Cons:
  "code_list st (j # js) = (if has_char st j then j # (if in_ranges j mk_dwchars then [or MKFN_DWCHAR j] else []) else []) @ code_list st js"
  by (simp add: code_list_def)

lemma glyph_range_codes:
  "length gs + length (code_list st [j..hi]) \<le> NGLYPHS \<Longrightarrow>
     glyph_range st rows cols j hi gs = Some (gs @ code_list st [j..hi])"
proof (induction "nat (hi + 1 - j)" arbitrary: j gs)
  case 0
  then show ?case by (simp add: glyph_range.simps code_list_def)
next
  case (Suc k)
  then have j: "j \<le> hi" "[j..hi] = j # [j + 1..hi]" "k = nat (hi + 1 - (j + 1))" by (simp_all add: upto_rec1)
  show ?case
  proof (cases "length gs < NGLYPHS")
    case True
    have "glyph_range st rows cols j hi gs = glyph_range st rows cols (j + 1) hi
        (gs @ (if has_char st j then j # (if in_ranges j mk_dwchars then [or MKFN_DWCHAR j] else []) else []))"
      using True j Suc.prems
      by (subst glyph_range.simps) (auto simp: has_glyph_has mk_isdw_correct push_glyph_def code_list_Cons)
    also have "\<dots> = Some (gs @ code_list st [j..hi])"
      using Suc.hyps(1) [OF j(3)] Suc.prems unfolding j(2) code_list_Cons by simp
    finally show ?thesis .
  next
    case False
    with Suc.prems have "length (code_list st [j..hi]) = 0" by linarith
    then have "code_list st [j..hi] = []" by simp
    with False show ?thesis by (simp add: glyph_range.simps)
  qed
qed

lemma glyph_blocks_codes:
  "length gs + length (code_list st (concat (map (\<lambda>(lo, hi). [lo..hi]) bs))) \<le> NGLYPHS \<Longrightarrow>
     glyph_blocks st rows cols bs gs = Some (gs @ code_list st (concat (map (\<lambda>(lo, hi). [lo..hi]) bs)))"
proof (induction bs arbitrary: gs)
  case (Cons b bs)
  obtain lo hi where b: "b = (lo, hi)" by (cases b)
  have app: "code_list st (xs @ ys) = code_list st xs @ code_list st ys" for xs ys by (simp add: code_list_def)
  have "glyph_range st rows cols lo hi gs = Some (gs @ code_list st [lo..hi])"
    using Cons.prems by (intro glyph_range_codes) (simp add: b app)
  with Cons.IH [of "gs @ code_list st [lo..hi]"] Cons.prems show ?case by (simp add: b app)
qed (simp add: code_list_def)

text \<open>When the fonts have as many glyphs that one place is left, a wide character is written behind the array.\<close>

lemma glyph_overflow:
  assumes "length gs = NGLYPHS - 1" "has_char st j" "in_ranges j mk_dwchars" "j \<le> hi"
  shows "glyph_range st rows cols j hi gs = None"
  using assms by (subst glyph_range.simps) (simp add: has_glyph_has mk_isdw_correct push_glyph_def NGLYPHS_def)

lemma ranges_apart: "ordered_ranges ((a, b) # es) \<Longrightarrow> x \<in> set (concat (map (\<lambda>(lo, hi). [lo..hi]) es)) \<Longrightarrow> b < x"
proof (induction es arbitrary: a b)
  case (Cons e es)
  obtain c d where e: "e = (c, d)" by (cases e)
  with Cons.prems have o: "b < c" "c \<le> d" "ordered_ranges ((c, d) # es)" by (cases es; auto)+
  show ?case
  proof (cases "x \<in> set [c..d]")
    case True
    with o show ?thesis by simp
  next
    case False
    with Cons.IH [OF o(3)] Cons.prems(2) e o(1,2) show ?thesis by force
  qed
qed simp

lemma ranges_distinct: "ordered_ranges es \<Longrightarrow> distinct (concat (map (\<lambda>(lo, hi). [lo..hi]) es))"
proof (induction es)
  case (Cons e es)
  obtain c d where e: "e = (c, d)" by (cases e)
  then have "ordered_ranges es" using Cons.prems by (cases es) auto
  moreover have "d < x" if "x \<in> set (concat (map (\<lambda>(lo, hi). [lo..hi]) es))" for x
    using ranges_apart [OF _ that] Cons.prems e by simp
  ultimately show ?case using Cons.IH e by fastforce
qed simp

lemma all_codes_ok: "distinct all_codes" "x \<in> set all_codes \<Longrightarrow> 0 \<le> x \<and> x < 2 ^ 30"
proof -
  show "distinct all_codes" unfolding all_codes_def by (rule ranges_distinct) (rule glyph_ranges.ordered)
  have "list_all (\<lambda>(lo, hi). 0 \<le> lo \<and> hi < 2 ^ 30) chars" by (simp add: chars_def)
  then show "x \<in> set all_codes \<Longrightarrow> 0 \<le> x \<and> x < 2 ^ 30" by (fastforce simp: all_codes_def list_all_iff)
qed

lemma all_codes_ranges: "x \<in> set all_codes \<longleftrightarrow> in_ranges x chars"
  by (auto simp: all_codes_def in_ranges_def)

lemma code_list_set:
  assumes "\<And>x. x \<in> set js \<Longrightarrow> 0 \<le> x \<and> x < 2 ^ 30"
  shows "set (code_list st js) = {j. j \<in> set js \<and> has_char st j} \<union> (\<lambda>j. j + 2 ^ 30) ` {j. j \<in> set js \<and> has_char st j \<and> in_ranges j mk_dwchars}"
  using assms dwchar_or(1) by (force simp: code_list_def image_iff split: if_splits)

lemma code_list_distinct: "distinct js \<Longrightarrow> (\<And>x. x \<in> set js \<Longrightarrow> 0 \<le> x \<and> x < 2 ^ 30) \<Longrightarrow> distinct (code_list st js)"
proof (induction js)
  case (Cons j js)
  have s: "set (code_list st js) = {j. j \<in> set js \<and> has_char st j} \<union> (\<lambda>j. j + 2 ^ 30) ` {j. j \<in> set js \<and> has_char st j \<and> in_ranges j mk_dwchars}"
    by (rule code_list_set) (use Cons.prems in auto)
  have j: "0 \<le> j" "j < 2 ^ 30" "j \<notin> set js" using Cons.prems by auto
  have "distinct (code_list st js)" using Cons by simp
  moreover have "j \<noteq> x + 2 ^ 30" if "x \<in> set js" for x using j(1,2) Cons.prems(2) [of x] that by simp
  then have "j \<notin> set (code_list st js)" using j(3) unfolding s by blast
  moreover have "j + 2 ^ 30 \<notin> set js" using j(1) Cons.prems(2) [of "j + 2 ^ 30"] by auto
  then have "j + 2 ^ 30 \<notin> set (code_list st js)" using j(3) unfolding s by auto
  ultimately show ?case using dwchar_or(1) [OF j(1,2)] by (auto simp: code_list_Cons)
qed (simp add: code_list_def)

section \<open>The pictures\<close>

text \<open>What the library draws stays inside the space it was given.\<close>

definition draws_inside :: "stb \<Rightarrow> bool" where
  "draws_inside st \<longleftrightarrow> (\<forall>i g nr nc. 0 \<le> nr \<longrightarrow> 0 \<le> nc \<longrightarrow>
     int (length (sb_draw st i g nr nc)) \<le> nr \<and> (\<forall>r \<in> set (sb_draw st i g nr nc). int (length r) \<le> nc))"

lemma drawsD:
  "draws_inside st \<Longrightarrow> 0 \<le> nr \<Longrightarrow> 0 \<le> nc \<Longrightarrow>
     int (length (sb_draw st i g nr nc)) \<le> nr \<and> (\<forall>r \<in> set (sb_draw st i g nr nc). int (length r) \<le> nc)"
  by (simp add: draws_inside_def)

lemma put_rows_runs:
  assumes "0 \<le> sr" "sr + int (length rs) \<le> rows" "0 \<le> sc" "0 \<le> cols" "\<forall>r \<in> set rs. sc + int (length r) \<le> cols"
    and "int (length m) = rows * cols"
  shows "\<exists>m'. put_rows cols (sr * cols + sc) rs m = Some m' \<and> length m' = length m"
  using assms
proof (induction rs arbitrary: sr m)
  case (Cons r rs)
  have "(sr + 1) * cols \<le> rows * cols" using Cons.prems(2,4) by (intro mult_right_mono) auto
  then have "sr * cols + sc + int (length r) \<le> int (length m)"
    using Cons.prems(5,6) by (simp add: algebra_simps)
  moreover have "0 \<le> sr * cols + sc" using Cons.prems(1,3,4) by simp
  ultimately obtain m1 where m1: "mem_put m (sr * cols + sc) r = Some m1" by (simp add: mem_put_fits)
  have len: "length m1 = length m" by (rule mem_put_length [OF m1])
  have follows: "sr * cols + sc + cols = (sr + 1) * cols + sc" by (simp add: algebra_simps)
  have "\<exists>m'. put_rows cols ((sr + 1) * cols + sc) rs m1 = Some m' \<and> length m' = length m1"
    by (rule Cons.IH) (use Cons.prems len in auto)
  moreover have "put_rows cols (sr * cols + sc) (r # rs) m = put_rows cols ((sr + 1) * cols + sc) rs m1"
    by (simp only: put_rows.simps m1 Option.bind.bind_lunit follows)
  ultimately show ?case using len by simp
qed simp

lemma embolden_runs:
  assumes "0 \<le> rows" "0 \<le> cols" "int (length m) = rows * cols"
  shows "\<exists>m'. mkfn_embolden rows cols m = Some m' \<and> length m' = length m"
proof -
  have pixel: "runs (for_list (\<lambda>j. embolden_pixel (i * cols + j)) js u) (\<lambda>v. length v = length u)"
    if "\<forall>j \<in> set js. 0 \<le> i * cols + j \<and> i * cols + j + 1 < int (length u)" for i js u
    using that
  proof (induction js arbitrary: u)
    case (Cons j js)
    then obtain v where v: "embolden_pixel (i * cols + j) u = Some v" "length v = length u"
      by (auto simp: embolden_pixel_def rd_def wr_def)
    with Cons.IH [of v] Cons.prems show ?case by simp
  qed simp
  have "runs (mkfn_embolden rows cols m) (\<lambda>v. length v = length m)"
    unfolding mkfn_embolden_def
  proof (rule for_range_keeps [where I = "\<lambda>v. length v = length m"])
    fix i and v :: "8 word list" assume i: "0 \<le> i" "i < rows" "length v = length m"
    have "(i + 1) * cols \<le> rows * cols" using i assms(2) by (intro mult_right_mono) auto
    moreover have "0 \<le> i * cols" using i assms(2) by simp
    moreover have "(i + 1) * cols = i * cols + cols" by (simp add: algebra_simps)
    ultimately have "\<forall>j \<in> set (rev [0..cols - 2]). 0 \<le> i * cols + j \<and> i * cols + j + 1 < int (length v)"
      using i(3) assms(3) by auto
    from pixel [OF this] i(3) show "runs (for_list (\<lambda>j. embolden_pixel (i * cols + j)) (rev [0..cols - 2]) v) (\<lambda>v. length v = length m)"
      by (auto elim!: runs_mono)
  qed simp
  then show ?thesis by (auto simp: runs_iff)
qed

text \<open>The picture of a character does not depend on what was in the buffer.\<close>

definition glyph_image :: "stb \<Rightarrow> int \<Rightarrow> int \<Rightarrow> int \<Rightarrow> 8 word list" where
  "glyph_image st rows cols c =
     (case mkfn_bitmap st (Some (replicate (nat (rows * cols)) 0)) c rows cols of Some (Some b, _) \<Rightarrow> b | _ \<Rightarrow> [])"

lemma LIMIT_bounds: "a \<le> b \<Longrightarrow> a \<le> LIMIT n a b \<and> LIMIT n a b \<le> b"
  by (simp add: LIMIT_def)

lemma mkfn_bitmap_draws:
  assumes st: "draws_inside st" and d: "0 \<le> rows" "0 \<le> cols" "int (length bits) = rows * cols" and c: "has_char st c"
  shows "mkfn_bitmap st (Some bits) c rows cols = Some (Some (glyph_image st rows cols c), 0)"
    "int (length (glyph_image st rows cols c)) = rows * cols"
proof -
  from c obtain i g where f: "find_font st c [0..<sb_cnt st] = Some (i, g)" by (auto simp: has_char_def)
  obtain x0 y0 where box: "sb_box st i g = (x0, y0)" by fastforce
  define sr sc where "sr = LIMIT (sb_base st i rows + y0 + sb_sr st i) 0 rows" and "sc = LIMIT (x0 + sb_sc st i) 0 cols"
  have b: "0 \<le> sr" "sr \<le> rows" "0 \<le> sc" "sc \<le> cols" using LIMIT_bounds d by (auto simp: sr_def sc_def)
  let ?zero = "replicate (nat (rows * cols)) (0 :: 8 word)" and ?rs = "sb_draw st i g (rows - sr) (cols - sc)"
  have fill: "mem_fill u 0 (rows * cols) 0 = Some ?zero" if "int (length u) = rows * cols" for u :: "8 word list"
  proof -
    have n: "nat (rows * cols) = length u" "0 \<le> rows * cols" using that by simp_all
    then show ?thesis by (simp add: mem_fill_def mem_put_def)
  qed
  have z: "int (length ?zero) = rows * cols" using d by simp
  have "int (length ?rs) \<le> rows - sr \<and> (\<forall>r \<in> set ?rs. int (length r) \<le> cols - sc)"
    using drawsD [OF st, of "rows - sr" "cols - sc" i g] b by simp
  then have rs: "sr + int (length ?rs) \<le> rows" "\<forall>r \<in> set ?rs. sc + int (length r) \<le> cols" by auto
  from put_rows_runs [OF b(1) rs(1) b(3) d(2) rs(2) z] obtain m1 where
    m1: "put_rows cols (sr * cols + sc) ?rs ?zero = Some m1" "int (length m1) = rows * cols" using z by auto
  from embolden_runs [OF d(1,2) m1(2)] m1(2) obtain m2 where
    m2: "(if sb_bold st i then mkfn_embolden rows cols m1 else Some m1) = Some m2" "int (length m2) = rows * cols" by (cases "sb_bold st i") auto
  have run: "mkfn_bitmap st (Some u) c rows cols = Some (Some m2, 0)" if "int (length u) = rows * cols" for u
    using fill [OF that] m1(1) m2(1) by (simp add: mkfn_bitmap_def f box sr_def [symmetric] sc_def [symmetric] Let_def)
  have "glyph_image st rows cols c = m2" using run [OF z] by (simp add: glyph_image_def)
  with run [OF d(3)] m2(2) show "mkfn_bitmap st (Some bits) c rows cols = Some (Some (glyph_image st rows cols c), 0)"
    "int (length (glyph_image st rows cols c)) = rows * cols" by simp_all
qed

lemma find_font_half:
  assumes "0 \<le> j" "j < 2 ^ 30"
  shows "find_font st (or MKFN_DWCHAR j) is = find_font st j is"
  by (induction "is") (simp_all add: dwchar_or(2,3) [OF assms] Let_def)

text \<open>Both halves of a wide character are drawn with the same picture: this back end does not look at \<open>MKFN_DWCHAR\<close>.\<close>

lemma halves_same:
  assumes "0 \<le> j" "j < 2 ^ 30"
  shows "glyph_image st rows cols (or MKFN_DWCHAR j) = glyph_image st rows cols j"
  by (simp add: glyph_image_def mkfn_bitmap_def find_font_half [OF assms])

lemma code_list_has:
  assumes "\<And>x. x \<in> set js \<Longrightarrow> 0 \<le> x \<and> x < 2 ^ 30" "c \<in> set (code_list st js)"
  shows "has_char st c" "0 \<le> c" "c < 2 ^ 31"
proof -
  from assms(2) obtain j where j: "j \<in> set js" "has_char st j" "c = j \<or> c = or MKFN_DWCHAR j"
    by (auto simp: code_list_def split: if_splits)
  from assms(1) [OF j(1)] have r: "0 \<le> j" "j < 2 ^ 30" by auto
  show "has_char st c" using j find_font_half [OF r, of st "[0..<sb_cnt st]"] by (auto simp: has_char_def)
  show "0 \<le> c" "c < 2 ^ 31" using j(3) r dwchar_or(1) [OF r] by auto
qed

lemma write_bitmaps_runs:
  assumes "draws_inside st" "0 \<le> rows" "0 \<le> cols" "int (length buf) = rows * cols" "\<forall>c \<in> set cs. has_char st c"
  shows "write_bitmaps st rows cols cs buf out = Some (out @ concat (map (glyph_image st rows cols) cs))"
  using assms(4,5)
proof (induction cs arbitrary: buf out)
  case (Cons c cs)
  have c: "has_char st c" using Cons.prems by simp
  note d = mkfn_bitmap_draws [OF assms(1-3) Cons.prems(1) c]
  have "mem_get (glyph_image st rows cols c) 0 (rows * cols) = Some (glyph_image st rows cols c)"
    using d(2) assms(2,3) by (simp add: mem_get_def flip: d(2))
  with d Cons.IH [of "glyph_image st rows cols c" "out @ glyph_image st rows cols c"] Cons.prems show ?case by simp
qed simp

section \<open>The file is a font\<close>

lemma int_bytes_value:
  assumes "int_ok i"
  shows "sint (of_le_bytes (int_bytes i)) = i"
proof -
  have "sint (word_of_int i :: 32 word) = i" using assms by (simp add: int_ok_def int_word_sint)
  then show ?thesis by (simp add: int_bytes_def of_le_bytes_le_bytes)
qed

lemma int_at_bytes:
  assumes "mem_get bs p 4 = Some (int_bytes i)" "int_ok i"
  shows "int_at bs p = Some i"
  using assms by (simp add: int_at_def int_bytes_value)

lemma nth_chunk:
  "\<forall>x \<in> set xs. length (f x) = w \<Longrightarrow> i < length xs \<Longrightarrow> take w (drop (i * w) (concat (map f xs) @ rest)) = f (xs ! i)"
proof (induction xs arbitrary: i)
  case (Cons x xs)
  then show ?case by (cases i) (simp_all add: drop_append)
qed simp

lemma length_parts: "\<forall>x \<in> set xs. length (f x) = w \<Longrightarrow> length (concat (map f xs)) = length xs * w"
  by (induction xs) simp_all

lemma length_int_bytes [simp]: "length (int_bytes i) = 4"
  by (simp add: int_bytes_def)

text \<open>A character code that the file has: a character that one of the fonts has, or the second half of a wide one.\<close>

definition in_font :: "stb \<Rightarrow> int \<Rightarrow> bool" where
  "in_font st c \<longleftrightarrow> (\<exists>j \<in> set all_codes. has_char st j \<and> (c = j \<or> in_ranges j mk_dwchars \<and> c = j + 2 ^ 30))"

lemma in_font_list: "set (code_list st all_codes) = {c. in_font st c}"
  using code_list_set [of all_codes st] all_codes_ok(2) by (auto simp: in_font_def)

definition font_file :: "stb \<Rightarrow> int \<Rightarrow> int \<Rightarrow> int list \<Rightarrow> 8 word list" where
  "font_file st rows cols cs =
     (signature @ int_bytes 0 @ int_bytes (int (length cs)) @ int_bytes rows @ int_bytes cols) @
     concat (map int_bytes cs) @ concat (map (glyph_image st rows cols) cs)"

lemma output_font_file:
  assumes "draws_inside st" "0 \<le> rows" "0 \<le> cols" "int (length buf) = rows * cols" "length (code_list st all_codes) \<le> NGLYPHS"
  shows "output_font st rows cols buf = Some (font_file st rows cols (sort (code_list st all_codes)))"
proof -
  let ?cs = "code_list st all_codes"
  have has: "has_char st c" "0 \<le> c" "c < 2 ^ 31" if "c \<in> set ?cs" for c
    using code_list_has [OF all_codes_ok(2) that] by auto
  have "fn_glyphs_of st rows cols = Some ?cs"
    using glyph_blocks_codes [of "[]" st chars rows cols] assms(5) by (simp add: fn_glyphs_of_def all_codes_def)
  moreover have "qsort_ints ?cs = Some (sort ?cs)"
    using has(2,3) by (fastforce simp: qsort_ints_def intcmp_def c_int_def int_ok_def)
  moreover have "\<forall>c \<in> set (sort ?cs). has_char st c" using has(1) by simp
  ultimately show ?thesis
    using write_bitmaps_runs [OF assms(1-4)] by (simp add: output_font_def font_file_def)
qed

lemma font_file_opens:
  assumes d: "0 < rows" "0 < cols" "rows * cols < 2 ^ 17" and n: "length cs \<le> NGLYPHS"
    and c: "\<forall>c \<in> set cs. 0 \<le> c \<and> c < 2 ^ 31" "sorted_wrt (<) cs"
    and pics: "\<forall>c \<in> set cs. int (length (glyph_image st rows cols c)) = rows * cols"
  defines "f \<equiv> \<lparr>fn_rows = rows, fn_cols = cols, fn_n = int (length cs), fn_glyphs = 24, fn_bits = 24 + int (length cs) * 4,
      fn_file = font_file st rows cols cs\<rparr>"
  shows "font_open_static True (font_file st rows cols cs) = Some f" "font_ok f"
    "i < length cs \<Longrightarrow> code_at f (int i) = cs ! i"
    "i < length cs \<Longrightarrow> bits_at f (int i) = glyph_image st rows cols (cs ! i)"
proof -
  let ?out = "font_file st rows cols cs" and ?w = "nat (rows * cols)" and ?n = "int (length cs)"
  let ?hdr = "signature @ int_bytes 0 @ int_bytes ?n @ int_bytes rows @ int_bytes cols"
  have sig: "length signature = 8" by (simp add: signature_def)
  have hdr: "length ?hdr = 24" by (simp add: sig)
  have w: "\<forall>c \<in> set cs. length (glyph_image st rows cols c) = ?w" using pics by fastforce
  have lens: "length (concat (map int_bytes cs)) = length cs * 4" "length (concat (map (glyph_image st rows cols) cs)) = length cs * ?w"
    using length_parts [of cs int_bytes 4] length_parts [OF w] by simp_all
  then have len: "length ?out = 24 + length cs * 4 + length cs * ?w" using hdr by (simp add: font_file_def)
  have big: "?n \<le> 2 ^ 14" "?n * rows * cols < 2 ^ 31" "rows \<le> rows * cols" "cols \<le> rows * cols"
  proof -
    show "?n \<le> 2 ^ 14" using n by (simp add: NGLYPHS_def)
    then have "?n * (rows * cols) \<le> 2 ^ 14 * (rows * cols)" using d by (intro mult_right_mono) auto
    with d(3) show "?n * rows * cols < 2 ^ 31" by (simp add: mult.assoc)
    show "rows \<le> rows * cols" "cols \<le> rows * cols" using d by simp_all
  qed
  have "?n * rows * 1 \<le> ?n * rows * cols" using d by (intro mult_left_mono) auto
  then have "?n * rows < 2 ^ 31" using big(2) by (simp only: mult_1_right le_less_trans)
  moreover have "rows < 2 ^ 17" "cols < 2 ^ 17" using big(3,4) d(3) by linarith+
  moreover have "0 \<le> ?n * rows" "0 \<le> ?n * rows * cols" using d(1,2) by simp_all
  moreover have "int_ok k" if "0 \<le> k" "k < 2 ^ 31" for k :: int using that by (simp add: int_ok_def)
  ultimately have ints: "int_ok ?n" "int_ok rows" "int_ok cols" "int_ok (?n * rows)" "int_ok (?n * rows * cols)"
    using big(1,2) d(1,2) by simp_all
  have head: "mem_get ?out 12 4 = Some (int_bytes ?n)" "mem_get ?out 16 4 = Some (int_bytes rows)" "mem_get ?out 20 4 = Some (int_bytes cols)"
    using len by (simp_all add: mem_get_def font_file_def sig)
  from head [THEN int_at_bytes] ints show "font_open_static True ?out = Some f"
    by (simp add: font_open_static_def f_def Let_def c_int_def)
  have code: "code_at f (int i) = cs ! i" if i: "i < length cs" for i
  proof -
    have "nat (24 + int i * 4) = 24 + i * 4" by simp
    moreover have "drop (24 + i * 4) ?out = drop (i * 4) (concat (map int_bytes cs) @ concat (map (glyph_image st rows cols) cs))"
      using hdr by (simp add: font_file_def)
    moreover have "take 4 (drop (i * 4) (concat (map int_bytes cs) @ concat (map (glyph_image st rows cols) cs))) = int_bytes (cs ! i)"
      by (rule nth_chunk) (use i in simp_all)
    ultimately have "code_at f (int i) = sint (of_le_bytes (int_bytes (cs ! i)))" by (simp add: code_at_def f_def)
    moreover have "int_ok (cs ! i)" using c(1) nth_mem [OF i] by (auto simp: int_ok_def)
    ultimately show ?thesis by (simp add: int_bytes_value)
  qed
  then show "i < length cs \<Longrightarrow> code_at f (int i) = cs ! i" .
  have "map (code_at f) [0..?n - 1] = cs"
    by (rule nth_equalityI) (simp_all add: code)
  moreover have "?n * (rows * cols) = int (length cs * ?w)" using d by simp
  ultimately show "font_ok f" using d c(2) len by (simp add: font_ok_def f_def)
  show "bits_at f (int i) = glyph_image st rows cols (cs ! i)" if i: "i < length cs"
  proof -
    have "nat (24 + ?n * 4 + int i * (rows * cols)) = 24 + length cs * 4 + i * ?w"
      using d by (simp add: nat_add_distrib nat_mult_distrib)
    moreover have "drop (24 + length cs * 4 + i * ?w) ?out = drop (i * ?w) (concat (map (glyph_image st rows cols) cs) @ [])"
      using hdr lens(1) by (simp add: font_file_def)
    moreover have "take ?w (drop (i * ?w) (concat (map (glyph_image st rows cols) cs) @ [])) = glyph_image st rows cols (cs ! i)"
      by (rule nth_chunk [OF w i])
    ultimately show ?thesis by (simp add: bits_at_def f_def)
  qed
qed

text \<open>
  C40. The font maker writes a file that \<open>font_open_static\<close> opens as a font of the same size with its codes in
  order, and in which \<open>font_bitmap\<close> finds for every character that one of the fonts has, and for the second
  half of every wide one, the picture that the tool renders for it, and for no other code anything;
  both halves of a wide character are the same picture. The picture does not depend on what was
  in the buffer. The font library draws inside the space it is given, a picture has less than \<open>2 ^ 17\<close> bytes,
  and the codes fit their table.
\<close>

theorem font_roundtrip:
  assumes "draws_inside st" "0 < rows" "0 < cols" "rows * cols < 2 ^ 17"
    and "length (code_list st all_codes) \<le> NGLYPHS" "int (length buf) = rows * cols" "rows * cols \<le> int (length dst)"
  shows "\<exists>out f. output_font st rows cols buf = Some out \<and> font_open_static True out = Some f \<and> font_ok f \<and>
    fn_rows f = rows \<and> fn_cols f = cols \<and>
    (\<forall>c. font_bitmap f dst c = Some (if in_font st c then (glyph_image st rows cols c @ drop (nat (rows * cols)) dst, 0) else (dst, 1))) \<and>
    (\<forall>c. in_font st c \<longrightarrow> mkfn_bitmap st (Some buf) c rows cols = Some (Some (glyph_image st rows cols c), 0)) \<and>
    (\<forall>j \<in> set all_codes. glyph_image st rows cols (j + 2 ^ 30) = glyph_image st rows cols j)"
proof -
  define cs where "cs = sort (code_list st all_codes)"
  have has: "has_char st c" "0 \<le> c" "c < 2 ^ 31" if "in_font st c" for c
    using code_list_has [OF all_codes_ok(2), where c = c and st = st] that in_font_list by auto
  have set: "c \<in> set cs \<longleftrightarrow> in_font st c" for c using in_font_list by (auto simp: cs_def)
  note d = mkfn_bitmap_draws [OF assms(1) less_imp_le [OF assms(2)] less_imp_le [OF assms(3)] assms(6)]
  have c: "\<forall>c \<in> set cs. 0 \<le> c \<and> c < 2 ^ 31" "\<forall>c \<in> set cs. int (length (glyph_image st rows cols c)) = rows * cols"
    using has d(2) set by auto
  have "distinct cs" using code_list_distinct [OF all_codes_ok, of st] by (simp add: cs_def)
  then have "sorted_wrt (<) cs" by (simp add: cs_def strict_sorted_iff)
  moreover have "length cs \<le> NGLYPHS" using assms(5) by (simp add: cs_def)
  ultimately obtain f where f: "font_open_static True (font_file st rows cols cs) = Some f" "font_ok f" "fn_rows f = rows" "fn_cols f = cols"
      "fn_n f = int (length cs)" "\<forall>i < length cs. code_at f (int i) = cs ! i \<and> bits_at f (int i) = glyph_image st rows cols (cs ! i)"
    using font_file_opens [OF assms(2-4) _ c(1) _ c(2)] by (metis font.select_convs(1-3))
  have "glyph_of f c = (if in_font st c then Some (glyph_image st rows cols c) else None)" for c
  proof (cases "in_font st c")
    case True
    then obtain i where "i < length cs" "cs ! i = c" using set by (metis in_set_conv_nth)
    with glyph_of_code [OF f(2), of "int i"] f(5,6) True show ?thesis by auto
  next
    case False
    have "code_at f i \<noteq> c" if "0 \<le> i" "i < fn_n f" for i
      using f(5,6) that set False nth_mem [of "nat i" cs] by (metis int_nat_eq nat_less_iff)
    with False show ?thesis using glyph_of_none [of f c] by auto
  qed
  moreover have "length (glyph_image st rows cols c) = nat (rows * cols)" if "in_font st c" for c
    using d(2) [OF has(1) [OF that]] by simp
  ultimately have "font_bitmap f dst c = Some (if in_font st c then (glyph_image st rows cols c @ drop (nat (rows * cols)) dst, 0) else (dst, 1))" for c
    using font_bitmap_correct [OF f(2), of dst c] f(3,4) assms(7) by simp
  moreover have "glyph_image st rows cols (j + 2 ^ 30) = glyph_image st rows cols j" if "j \<in> set all_codes" for j
    using halves_same [of j st rows cols] all_codes_ok(2) [OF that] dwchar_or(1) [of j] by simp
  moreover have "output_font st rows cols buf = Some (font_file st rows cols cs)"
    using output_font_file [OF assms(1) _ _ assms(6,5)] assms(2,3) by (simp add: cs_def)
  ultimately show ?thesis using f(1-4) d(1) has(1) by blast
qed

text \<open>Two fonts of one glyph each, the second one bold: a letter and a wide character.\<close>

definition two_fonts :: stb where
  "two_fonts = \<lparr>sb_cnt = 2, sb_glyph = (\<lambda>i c. if i = 0 \<and> c = 0x41 \<or> i = 1 \<and> c = 0x4e00 then 7 else 0), sb_box = (\<lambda>i g. (0, - 1)),
     sb_base = (\<lambda>i r. 1), sb_draw = (\<lambda>i g nr nc. if 0 < nr \<and> 1 < nc then [[9]] else []), sb_sr = (\<lambda>_. 0), sb_sc = (\<lambda>_. 0),
     sb_bold = (\<lambda>i. i = 1)\<rparr>"

theorem font_roundtrip_witness:
  "\<exists>out f. output_font two_fonts 1 2 [5, 5] = Some out \<and> font_open_static True out = Some f \<and>
     font_bitmap f [1, 2, 3] 0x41 = Some ([9, 0, 3], 0) \<and> font_bitmap f [1, 2, 3] 0x40004e00 = Some ([9, 9, 3], 0) \<and>
     font_bitmap f [1, 2, 3] 0x42 = Some ([1, 2, 3], 1)"
proof -
  have glyph: "has_char two_fonts j \<longleftrightarrow> j = 0x41 \<or> j = 0x4e00" if "0 \<le> j" "j < 2 ^ 30" for j
    using dwchar_or(3) [OF that] by (auto simp: has_char_def two_fonts_def upt_rec Let_def)
  have codes: "0x41 \<in> set all_codes" "0x4e00 \<in> set all_codes" "0x42 \<in> set all_codes"
    unfolding all_codes_ranges by (simp_all add: in_ranges_def chars_def)
  have few: "length (code_list two_fonts js) \<le> 2 * card (set js \<inter> {0x41, 0x4e00})" if "distinct js" "\<forall>j \<in> set js. 0 \<le> j \<and> j < 2 ^ 30" for js
    using that
  proof (induction js)
    case (Cons j js)
    have "length (code_list two_fonts (j # js)) \<le> (if j = 0x41 \<or> j = 0x4e00 then 2 else 0) + length (code_list two_fonts js)"
      using glyph [of j] Cons.prems by (auto simp: code_list_Cons)
    also have "\<dots> \<le> 2 * card (set (j # js) \<inter> {0x41, 0x4e00})" using Cons by (auto simp: Int_insert_left)
    finally show ?case .
  qed (simp add: code_list_def)
  have "card (set all_codes \<inter> {0x41, 0x4e00}) \<le> card {0x41 :: int, 0x4e00}" by (rule card_mono) simp_all
  with few [OF all_codes_ok(1)] all_codes_ok(2) have len: "length (code_list two_fonts all_codes) \<le> NGLYPHS" by (force simp: NGLYPHS_def)
  have inside: "draws_inside two_fonts" by (simp add: draws_inside_def two_fonts_def)
  have member: "in_font two_fonts 0x41" "in_font two_fonts 0x40004e00" "\<not> in_font two_fonts 0x42"
  proof -
    have h: "has_char two_fonts 0x41" "has_char two_fonts 0x4e00" "\<not> has_char two_fonts 0x42" by (simp_all add: glyph)
    have wide: "in_ranges 0x4e00 mk_dwchars" by (simp add: in_ranges_def mk_dwchars_def)
    show "in_font two_fonts 0x41" unfolding in_font_def using codes(1) h(1) by blast
    show "in_font two_fonts 0x40004e00" unfolding in_font_def by (rule bexI [OF _ codes(2)]) (simp add: h(2) wide)
    show "\<not> in_font two_fonts 0x42"
    proof
      assume "in_font two_fonts 0x42"
      then obtain j where "j \<in> set all_codes" "has_char two_fonts j" "j = 0x42 \<or> 0x42 = j + 2 ^ 30" by (auto simp: in_font_def)
      with h(3) all_codes_ok(2) [of j] show False by auto
    qed
  qed
  have "glyph_image two_fonts 1 2 0x41 = [9, 0]" "glyph_image two_fonts 1 2 0x40004e00 = [9, 9]" by code_simp+
  with font_roundtrip [OF inside _ _ _ len, of 1 2 "[5, 5]" "[1, 2, 3]"] member show ?thesis by fastforce
qed

end
